(* ===== verification/Tor_Prelude.thy ===== *)
theory Tor_Prelude
  imports Main "HOL-Library.Word" "HOL-Library.Monad_Syntax"
begin

unbundle bit_operations_syntax

text \<open>
  The vocabulary every component shares.

  \<^item> The C integer types: \<open>uint8_t\<close> \dots \<open>uint64_t\<close> are words of that
    width, so that \<open>+\<close>, \<open>-\<close> and \<open>*\<close> wrap as the C operators do; a signed
    \<open>int\<close>/\<open>int32_t\<close> is an \<open>int\<close>, with \<open>i32\<close> written out wherever the
    source converts a value that need not fit.
  \<^item> The limits of those types, by the names the C headers use.
  \<^item> Aborts: a \<open>tor_assert\<close> that fails (or a division by zero) ends the process. An
    operation that can abort has an \<open>option\<close> result and \<open>None\<close> is the abort;
    the operations are then sequenced in the option monad. A \<open>tor_assert_nonfatal\<close> and a
    \<open>BUG()\<close> only log, and the model goes on as the code does.
  \<^item> The collection \<open>u_simps\<close>: the rules that turn a statement about words into one about
    natural numbers. It is what most arithmetic proofs of the components run on.
\<close>

section \<open>Integer types\<close>

type_synonym u8 = "8 word"
type_synonym u16 = "16 word"
type_synonym u32 = "32 word"
type_synonym u64 = "64 word"

abbreviation INT32_MAX :: int where "INT32_MAX \<equiv> 2147483647"
abbreviation INT32_MIN :: int where "INT32_MIN \<equiv> -2147483648"
abbreviation INT16_MAX :: int where "INT16_MAX \<equiv> 32767"
abbreviation INT_MAX :: nat where "INT_MAX \<equiv> 2147483647"
abbreviation UINT32_MAX :: "'a::len word" where "UINT32_MAX \<equiv> 4294967295"
abbreviation UINT64_MAX :: u64 where "UINT64_MAX \<equiv> 18446744073709551615"
abbreviation UINT8_MAX :: int where "UINT8_MAX \<equiv> 255"

text \<open>Conversion of an integer value to \<open>int32_t\<close>: two's complement truncation.\<close>

definition i32 :: "int \<Rightarrow> int" where
  "i32 x = signed_take_bit 31 x"

lemma i32_id [simp]: "INT32_MIN \<le> x \<Longrightarrow> x \<le> INT32_MAX \<Longrightarrow> i32 x = x"
  unfolding i32_def by (rule signed_take_bit_int_eq_self) simp_all

lemma i32_range: "INT32_MIN \<le> i32 x" "i32 x \<le> INT32_MAX"
  using signed_take_bit_int_greater_eq_minus_exp [of 31 x]
    signed_take_bit_int_less_exp [of 31 x]
  by (simp_all add: i32_def)

section \<open>Words as natural numbers\<close>

named_theorems u_simps \<open>reading word operations as operations on natural numbers\<close>

lemma unat_lt8 [simp]: "unat (x :: u8) < 256"
  using unsigned_less [of x] by simp

lemma unat_le8 [simp]: "unat (x :: u8) \<le> 255"
  using unat_lt8 [of x] by linarith

lemma unat_lt16 [simp]: "unat (x :: u16) < 65536"
  using unsigned_less [of x] by simp

lemma unat_lt32 [simp]: "unat (x :: u32) < 4294967296"
  using unsigned_less [of x] by simp

lemma unat_lt64 [simp]: "unat (x :: u64) < 18446744073709551616"
  using unsigned_less [of x] by simp

text \<open>The same bounds as facts for linear arithmetic.\<close>

lemma unat_le16: "unat (x :: u16) \<le> 65535"
  using unat_lt16 [of x] by linarith

lemma unat_le32: "unat (x :: u32) \<le> 4294967295"
  using unat_lt32 [of x] by linarith

lemma unat_le64: "unat (x :: u64) \<le> 18446744073709551615"
  using unat_lt64 [of x] by linarith

lemma uint_ucast_up [u_simps]:
  "LENGTH('a) \<le> LENGTH('b) \<Longrightarrow> uint (ucast (w :: 'a::len word) :: 'b::len word) = uint w"
  by (rule uint_up_ucast) (simp add: is_up)

lemma unat_ucast_up [u_simps]:
  "LENGTH('a) \<le> LENGTH('b) \<Longrightarrow> unat (ucast (w :: 'a::len word) :: 'b::len word) = unat w"
  unfolding unat_eq_nat_uint by (simp only: uint_ucast_up)

lemma uint_mult_id: "uint x * uint y < 2 ^ LENGTH('a) \<Longrightarrow> uint (x * y) = uint x * uint y"
  for x y :: "'a::len word"
  by (rule uint_mult_lem [THEN iffD1])

lemma unat_add_id: "unat x + unat y < 2 ^ LENGTH('a) \<Longrightarrow> unat (x + y) = unat x + unat y"
  for x y :: "'a::len word"
  by (rule unat_add_lem [THEN iffD1])

lemma unat_mult_id: "unat x * unat y < 2 ^ LENGTH('a) \<Longrightarrow> unat (x * y) = unat x * unat y"
  for x y :: "'a::len word"
  by (rule unat_mult_lem [THEN iffD1])

lemmas [u_simps] = word_less_nat_alt word_le_nat_alt unat_div_distrib unat_mod_distrib

section \<open>Division\<close>

lemma int_div_less_iff: "0 < y \<Longrightarrow> x div y < z \<longleftrightarrow> x < z * y" for x y z :: int
proof -
  assume y: "0 < y"
  have "z * y \<le> x" if "z \<le> x div y"
  proof -
    have "z * y \<le> x div y * y" using that y by (simp add: mult_right_mono)
    also have "\<dots> \<le> x" using y by (simp add: minus_mod_eq_div_mult [symmetric])
    finally show ?thesis .
  qed
  moreover have "z \<le> x div y" if "z * y \<le> x"
    using zdiv_mono1 [OF that y] y by simp
  ultimately show ?thesis by (meson not_le)
qed

text \<open>Unsigned division in C: dividing by zero ends the process.\<close>

definition cdiv :: "'a::len word \<Rightarrow> 'a word \<Rightarrow> 'a word option" where
  "cdiv x y = (if y = 0 then None else Some (x div y))"

lemma cdiv_Some [simp]: "y \<noteq> 0 \<Longrightarrow> cdiv x y = Some (x div y)"
  by (simp add: cdiv_def)

section \<open>Runs\<close>

text \<open>
  A component that is driven from outside is run over a list of events. \<open>run\<close> is the state
  after the events (\<open>None\<close> as soon as one of them aborts), \<open>along\<close> the sum of a
  quantity over the steps of the run, \<open>throughout\<close> says that a condition holds at every step.
\<close>

fun run :: "('s \<Rightarrow> 'e \<Rightarrow> 's option) \<Rightarrow> 's \<Rightarrow> 'e list \<Rightarrow> 's option" where
  "run step s [] = Some s"
| "run step s (e # es) = do { s' \<leftarrow> step s e; run step s' es }"

fun along :: "('s \<Rightarrow> 'e \<Rightarrow> 's option) \<Rightarrow> ('s \<Rightarrow> 'e \<Rightarrow> int) \<Rightarrow> 's \<Rightarrow> 'e list \<Rightarrow> int" where
  "along step f s [] = 0"
| "along step f s (e # es) =
     f s e + (case step s e of None \<Rightarrow> 0 | Some s' \<Rightarrow> along step f s' es)"

fun throughout :: "('s \<Rightarrow> 'e \<Rightarrow> 's option) \<Rightarrow> ('s \<Rightarrow> 'e \<Rightarrow> bool) \<Rightarrow> 's \<Rightarrow> 'e list \<Rightarrow> bool" where
  "throughout step P s [] \<longleftrightarrow> True"
| "throughout step P s (e # es) \<longleftrightarrow>
     P s e \<and> (case step s e of None \<Rightarrow> True | Some s' \<Rightarrow> throughout step P s' es)"

lemma run_append: "run step s (es @ fs) = do { s' \<leftarrow> run step s es; run step s' fs }"
  by (induction es arbitrary: s) (auto split: bind_splits)

lemma run_induct [consumes 1, case_names Nil Cons]:
  assumes "run step s es = Some s'"
    and "\<And>s. P s [] s"
    and "\<And>s e es s1 s'. step s e = Some s1 \<Longrightarrow> run step s1 es = Some s' \<Longrightarrow> P s1 es s'
           \<Longrightarrow> P s (e # es) s'"
  shows "P s es s'"
  using assms(1) by (induction es arbitrary: s) (auto intro: assms(2,3) split: bind_splits)

text \<open>An invariant of the steps is an invariant of the runs; a budget that every step respects is
  respected by the runs.\<close>

locale machine =
  fixes step :: "'s \<Rightarrow> 'e \<Rightarrow> 's option" and ok :: "'s \<Rightarrow> bool"
  assumes step_ok: "ok s \<Longrightarrow> step s e = Some s' \<Longrightarrow> ok s'"
begin

lemma run_ok: "run step s es = Some s' \<Longrightarrow> ok s \<Longrightarrow> ok s'"
  by (induction rule: run_induct) (auto intro: step_ok)

end

locale metered = machine step ok
  for step :: "'s \<Rightarrow> 'e \<Rightarrow> 's option" and ok :: "'s \<Rightarrow> bool" +
  fixes level :: "'s \<Rightarrow> int" and gain :: "'s \<Rightarrow> 'e \<Rightarrow> int" and cost :: "'s \<Rightarrow> 'e \<Rightarrow> int"
  assumes step_pays: "ok s \<Longrightarrow> step s e = Some s' \<Longrightarrow> level s' + cost s e \<le> level s + gain s e"
begin

lemma run_pays:
  "run step s es = Some s' \<Longrightarrow> ok s \<Longrightarrow>
    level s' + along step cost s es \<le> level s + along step gain s es"
  by (induction rule: run_induct) (fastforce dest: step_pays step_ok)+

end

end
