(* ===== verification/Net_Params.thy ===== *)
theory Net_Params
  imports Tor_Prelude
begin

text \<open>
  The consensus parameters: \<open>networkstatus_get_param\<close> and its variants of
  \<open>src/feature/nodelist/networkstatus.c\<close>, over \<open>tor_parse_long\<close> of
  \<open>src/lib/string/parse_int.c\<close>. Every tunable of congestion control, flow control,
  SENDMEs and conflux comes through here. A consensus carries its parameters as strings
  \<open>name=value\<close>; a C string is a list of characters without NUL. The failing
  \<open>tor_assert\<close>s on the bounds are \<open>None\<close>.

  The lemmas show that a parameter is always within its bounds, that the first entry with the
  name and a parseable value decides it, and that a printed value is read back.
\<close>

section \<open>Parsing integers\<close>

definition is_digit :: "char \<Rightarrow> bool" where
  "is_digit c \<longleftrightarrow> 48 \<le> (of_char c :: nat) \<and> (of_char c :: nat) \<le> 57"

definition is_space :: "char \<Rightarrow> bool" where
  "is_space c \<longleftrightarrow> (of_char c :: nat) = 32 \<or> 9 \<le> (of_char c :: nat) \<and> (of_char c :: nat) \<le> 13"

definition digit_val :: "char \<Rightarrow> int" where
  "digit_val c = int (of_char c) - 48"

definition digits_val :: "string \<Rightarrow> int" where
  "digits_val ds = foldl (\<lambda>n c. 10 * n + digit_val c) 0 ds"

abbreviation LONG_MAX :: int where "LONG_MAX \<equiv> 9223372036854775807"
abbreviation LONG_MIN :: int where "LONG_MIN \<equiv> -9223372036854775808"

text \<open>\<open>strtol\<close> of the C library in base 10: the value, whether it overflowed
  (\<open>errno = ERANGE\<close>), and the unconverted rest, which is the whole string when there are no
  digits.\<close>

definition split_sign :: "string \<Rightarrow> bool \<times> string" where
  "split_sign s = (case s of
     [] \<Rightarrow> (False, [])
   | c # cs \<Rightarrow> if c = CHR ''-'' then (True, cs) else if c = CHR ''+'' then (False, cs) else (False, s))"

definition strtol :: "string \<Rightarrow> int \<times> bool \<times> string" where
  "strtol s =
     (let (neg, t) = split_sign (dropWhile is_space s);
          ds = takeWhile is_digit t;
          v = (if neg then - digits_val ds else digits_val ds)
      in if ds = [] then (0, False, s)
         else (max LONG_MIN (min LONG_MAX v), v < LONG_MIN \<or> LONG_MAX < v, dropWhile is_digit t))"

text \<open>\<open>tor_parse_long\<close> in base 10 without a \<open>next\<close> argument, so that trailing characters
  are an error; \<open>None\<close> is \<open>*ok = 0\<close>. The checks are \<open>CHECK_STRTOX_RESULT\<close>.\<close>

definition tor_parse_long :: "string \<Rightarrow> int \<Rightarrow> int \<Rightarrow> int option" where
  "tor_parse_long s mn mx =
     (let (r, erange, endptr) = strtol s
      in if erange then None
         else if endptr = s then None
         else if endptr \<noteq> [] then None
         else if mx < mn then None
         else if r < mn \<or> r > mx then None
         else Some r)"

section \<open>Parameters\<close>

record networkstatus =
  net_params :: "string list option"
  weight_params :: "string list option"

definition strcmpstart :: "string \<Rightarrow> string \<Rightarrow> bool" where
  "strcmpstart s1 s2 \<longleftrightarrow> take (length s2) s1 \<noteq> s2"

text \<open>One entry of the list: the value it gives to the parameter, if any.\<close>

definition param_value :: "string \<Rightarrow> string \<Rightarrow> int option" where
  "param_value param_name p =
     (let name_len = length param_name
      in if \<not> strcmpstart p param_name \<and> name_len < length p \<and> p ! name_len = CHR ''=''
         then tor_parse_long (drop (name_len + 1) p) INT32_MIN INT32_MAX
         else None)"

fun first_value :: "string \<Rightarrow> string list \<Rightarrow> int \<Rightarrow> int" where
  "first_value param_name [] res = res"
| "first_value param_name (p # ps) res =
     (case param_value param_name p of Some v \<Rightarrow> v | None \<Rightarrow> first_value param_name ps res)"

definition get_net_param_from_list :: "string list \<Rightarrow> string \<Rightarrow> int \<Rightarrow> int \<Rightarrow> int \<Rightarrow> int option" where
  "get_net_param_from_list params param_name default_val min_val max_val =
     (if \<not> max_val > min_val then None
      else if \<not> min_val \<le> default_val then None
      else if \<not> max_val \<ge> default_val then None
      else let res = first_value param_name params default_val;
               res' = (if res < min_val then min_val else if res > max_val then max_val else res)
           in if \<not> res' \<ge> min_val then None
              else if \<not> res' \<le> max_val then None
              else Some res')"

text \<open>\<open>latest\<close> is \<open>networkstatus_get_latest_consensus()\<close>.\<close>

definition networkstatus_get_param ::
    "networkstatus option \<Rightarrow> networkstatus option \<Rightarrow> string \<Rightarrow> int \<Rightarrow> int \<Rightarrow> int \<Rightarrow> int option" where
  "networkstatus_get_param latest ns param_name default_val min_val max_val =
     (let ns' = (if ns = None then latest else ns)
      in case Option.bind ns' net_params of
           None \<Rightarrow> Some default_val
         | Some params \<Rightarrow> get_net_param_from_list params param_name default_val min_val max_val)"

definition networkstatus_get_overridable_param ::
    "networkstatus option \<Rightarrow> networkstatus option \<Rightarrow> int \<Rightarrow> string \<Rightarrow> int \<Rightarrow> int \<Rightarrow> int \<Rightarrow> int option" where
  "networkstatus_get_overridable_param latest ns torrc_value param_name default_val min_val max_val =
     (if torrc_value \<ge> min_val \<and> torrc_value \<le> max_val then Some torrc_value
      else networkstatus_get_param latest ns param_name default_val min_val max_val)"

abbreviation BW_WEIGHT_SCALE :: int where "BW_WEIGHT_SCALE \<equiv> 10000"
abbreviation BW_MIN_WEIGHT_SCALE :: int where "BW_MIN_WEIGHT_SCALE \<equiv> 1"
abbreviation BW_MAX_WEIGHT_SCALE :: int where "BW_MAX_WEIGHT_SCALE \<equiv> INT32_MAX"

definition networkstatus_get_weight_scale_param ::
    "networkstatus option \<Rightarrow> networkstatus option \<Rightarrow> int option" where
  "networkstatus_get_weight_scale_param latest ns =
     networkstatus_get_param latest ns ''bwweightscale'' BW_WEIGHT_SCALE BW_MIN_WEIGHT_SCALE BW_MAX_WEIGHT_SCALE"

definition networkstatus_get_bw_weight ::
    "networkstatus option \<Rightarrow> networkstatus option \<Rightarrow> string \<Rightarrow> int \<Rightarrow> int option" where
  "networkstatus_get_bw_weight latest ns weight_name default_val =
     (let ns' = (if ns = None then latest else ns)
      in case Option.bind ns' weight_params of
           None \<Rightarrow> Some default_val
         | Some weights \<Rightarrow> do {
             mx \<leftarrow> networkstatus_get_weight_scale_param latest ns';
             param \<leftarrow> get_net_param_from_list weights weight_name default_val (-1) BW_MAX_WEIGHT_SCALE;
             Some (if param > mx then mx else param)
           })"

section \<open>Bounds\<close>

definition clip :: "int \<Rightarrow> int \<Rightarrow> int \<Rightarrow> int" where
  "clip mn mx v = max mn (min mx v)"

lemma clip_bounds [simp]: "mn \<le> mx \<Longrightarrow> mn \<le> clip mn mx v" "mn \<le> mx \<Longrightarrow> clip mn mx v \<le> mx"
  by (simp_all add: clip_def)

lemma clip_id: "mn \<le> v \<Longrightarrow> v \<le> mx \<Longrightarrow> clip mn mx v = v"
  by (simp add: clip_def)

text \<open>The value a well-formed call returns.\<close>

definition param_lookup :: "networkstatus option \<Rightarrow> string \<Rightarrow> int \<Rightarrow> int \<Rightarrow> int \<Rightarrow> int" where
  "param_lookup ns name d mn mx =
     (case Option.bind ns net_params of None \<Rightarrow> d | Some ps \<Rightarrow> clip mn mx (first_value name ps d))"

lemma param_lookup_bounds [simp]:
  assumes "mn \<le> d" and "d \<le> mx"
  shows "mn \<le> param_lookup ns name d mn mx" and "param_lookup ns name d mn mx \<le> mx"
  using assms by (simp_all add: param_lookup_def split: option.split)

lemma from_list_clip:
  "mn < mx \<Longrightarrow> mn \<le> d \<Longrightarrow> d \<le> mx \<Longrightarrow>
    get_net_param_from_list ps name d mn mx = Some (clip mn mx (first_value name ps d))"
  by (simp add: get_net_param_from_list_def clip_def Let_def)

lemma get_param_lookup [simp]:
  "mn < mx \<Longrightarrow> mn \<le> d \<Longrightarrow> d \<le> mx \<Longrightarrow>
    networkstatus_get_param latest ns name d mn mx =
      Some (param_lookup (if ns = None then latest else ns) name d mn mx)"
  by (simp add: networkstatus_get_param_def param_lookup_def from_list_clip Let_def split: option.split)

section \<open>The parser reads what a printer writes\<close>

fun decimal_nat :: "nat \<Rightarrow> string" where
  "decimal_nat n = (if n < 10 then [char_of (48 + n)] else decimal_nat (n div 10) @ [char_of (48 + n mod 10)])"

declare decimal_nat.simps [simp del]

definition decimal :: "int \<Rightarrow> string" where
  "decimal v = (if v < 0 then CHR ''-'' # decimal_nat (nat (- v)) else decimal_nat (nat v))"

lemma digit_char [simp]:
  assumes "n < 10"
  shows "is_digit (char_of (48 + n))" and "digit_val (char_of (48 + n)) = int n"
  using assms by (simp_all add: is_digit_def digit_val_def)

lemma decimal_nat_digits: "list_all is_digit (decimal_nat n)"
  by (induction n rule: decimal_nat.induct) (subst decimal_nat.simps, simp)

lemma decimal_nat_nonempty [simp]: "decimal_nat n \<noteq> []" "[] \<noteq> decimal_nat n"
  by (subst decimal_nat.simps, simp)+

lemma digits_val_snoc: "digits_val (ds @ [c]) = 10 * digits_val ds + digit_val c"
  by (simp add: digits_val_def)

lemma digits_val_decimal [simp]: "digits_val (decimal_nat n) = int n"
proof (induction n rule: decimal_nat.induct)
  case (1 n)
  show ?case
  proof (cases "n < 10")
    case True
    then show ?thesis by (subst decimal_nat.simps) (simp add: digits_val_def)
  next
    case False
    then have "digits_val (decimal_nat n) = 10 * int (n div 10) + int (n mod 10)"
      using 1 by (subst decimal_nat.simps) (simp add: digits_val_snoc)
    then show ?thesis by (simp add: zdiv_int zmod_int)
  qed
qed

lemma not_digit [simp]: "\<not> is_digit (CHR ''-'')" "\<not> is_digit (CHR ''+'')"
  by (simp_all add: is_digit_def)

lemma digit_not_space: "is_digit c \<Longrightarrow> \<not> is_space c"
  by (auto simp: is_digit_def is_space_def)

lemma while_digits:
  assumes "list_all is_digit ds" and "ds \<noteq> []"
  shows "takeWhile is_digit ds = ds" and "dropWhile is_digit ds = []"
    and "dropWhile is_space ds = ds" and "split_sign ds = (False, ds)"
  using assms digit_not_space
  by (auto simp: list_all_iff split_sign_def neq_Nil_conv)

lemma strtol_decimal:
  assumes "LONG_MIN \<le> v" and "v \<le> LONG_MAX"
  shows "strtol (decimal v) = (v, False, [])"
proof -
  note w = while_digits [OF decimal_nat_digits decimal_nat_nonempty(1)]
  show ?thesis
  proof (cases "v < 0")
    case True
    have "dropWhile is_space (CHR ''-'' # ds) = CHR ''-'' # ds" for ds
      by (simp add: is_space_def)
    then show ?thesis
      using True assms by (simp add: strtol_def decimal_def split_sign_def w)
  next
    case False
    then show ?thesis
      using assms by (simp add: strtol_def decimal_def w)
  qed
qed

lemma tor_parse_decimal:
  "LONG_MIN \<le> mn \<Longrightarrow> mx \<le> LONG_MAX \<Longrightarrow> mn \<le> v \<Longrightarrow> v \<le> mx \<Longrightarrow> tor_parse_long (decimal v) mn mx = Some v"
  by (simp add: tor_parse_long_def strtol_decimal) (simp add: decimal_def)

lemma param_value_printed:
  assumes "INT32_MIN \<le> v" and "v \<le> INT32_MAX"
  shows "param_value name (name @ CHR ''='' # decimal v) = Some v"
  using assms by (simp add: param_value_def strcmpstart_def nth_append tor_parse_decimal)

lemma param_value_other:
  "take (length name) p \<noteq> name \<or> length p \<le> length name \<or> p ! length name \<noteq> CHR ''='' \<Longrightarrow>
    param_value name p = None"
  by (auto simp: param_value_def strcmpstart_def)

lemma first_value_skip:
  "(\<And>p. p \<in> set ps \<Longrightarrow> param_value name p = None) \<Longrightarrow> first_value name (ps @ qs) d = first_value name qs d"
  by (induction ps) auto

section \<open>Properties\<close>

text \<open>
  C6. Every consensus parameter is within its bounds, whatever strings the consensus holds: a
  call whose default is within non-degenerate bounds never aborts, and returns the default, or
  the clipped value of the first entry that starts with the name and \<open>=\<close> and parses as a
  32-bit integer.
\<close>

theorem networkstatus_get_param_bounds:
  assumes "mn < mx" and "mn \<le> d" and "d \<le> mx"
  shows "\<exists>v. networkstatus_get_param latest ns name d mn mx = Some v \<and> mn \<le> v \<and> v \<le> mx \<and>
    v = (case Option.bind (case ns of None \<Rightarrow> latest | Some n \<Rightarrow> Some n) net_params of
           None \<Rightarrow> d
         | Some ps \<Rightarrow> clip mn mx (hd ([v. Some v \<leftarrow> map (param_value name) ps] @ [d])))"
proof -
  have "first_value name ps d = hd ([v. Some v \<leftarrow> map (param_value name) ps] @ [d])" for ps
    by (induction ps) (auto split: option.split)
  then show ?thesis
    using assms by (auto simp: param_lookup_def split: option.splits)
qed

theorem networkstatus_get_param_bounds_witness:
  "\<exists>v. networkstatus_get_param (Some \<lparr>net_params = Some [''cc_alg=2x'', ''cc_alg=9'', ''cc_alg=1''], weight_params = None\<rparr>)
      None ''cc_alg'' 2 0 3 = Some v \<and> 0 \<le> v \<and> v \<le> 3"
  using networkstatus_get_param_bounds [of 0 3 2
      "Some \<lparr>net_params = Some [''cc_alg=2x'', ''cc_alg=9'', ''cc_alg=1''], weight_params = None\<rparr>" None "''cc_alg''"]
  by auto

text \<open>
  C7. What the authorities print is what the relay reads: an entry \<open>name=v\<close> with any
  32-bit value \<open>v\<close> in decimal, after entries of other parameters only, makes the parameter
  \<open>v\<close> clipped to its bounds, whatever follows it.
\<close>

theorem networkstatus_get_param_roundtrip:
  assumes "mn < mx" and "mn \<le> d" and "d \<le> mx" and "INT32_MIN \<le> v" and "v \<le> INT32_MAX"
    and "\<And>p. p \<in> set ps \<Longrightarrow> take (length name + 1) p \<noteq> name @ ''=''"
  shows "networkstatus_get_param latest
      (Some \<lparr>net_params = Some (ps @ (name @ CHR ''='' # decimal v) # qs), weight_params = w\<rparr>) name d mn mx
    = Some (max mn (min mx v))"
proof -
  have "param_value name p = None" if "p \<in> set ps" for p
    using assms(6) [OF that] by (intro param_value_other) (auto simp: take_Suc_conv_app_nth)
  then have "first_value name (ps @ (name @ CHR ''='' # decimal v) # qs) d = v"
    using assms(4,5) by (simp add: first_value_skip param_value_printed)
  then show ?thesis
    using assms(1-3) by (simp add: param_lookup_def clip_def)
qed

theorem networkstatus_get_param_roundtrip_witness:
  "networkstatus_get_param None
      (Some \<lparr>net_params = Some ([''cc_algo=7''] @ (''cc_alg'' @ CHR ''='' # decimal (-12)) # []), weight_params = None\<rparr>)
      ''cc_alg'' 2 0 3 = Some 0"
  by (subst networkstatus_get_param_roundtrip) simp_all

end
