(* ===== verification/Circuit_State.thy ===== *)
theory Circuit_State
  imports Net_Params
begin

text \<open>
  The state that congestion control, flow control, SENDMEs and conflux share: the fields of
  \<open>circuit_t\<close> (\<open>src/core/or/circuit_st.h\<close>), \<open>crypt_path_t\<close>
  (\<open>src/core/or/crypt_path_st.h\<close>) and \<open>congestion_control_t\<close>
  (\<open>src/core/or/congestion_control_st.h\<close>) that they read or write, and the file-level
  variables of \<open>congestion_control_common.c\<close> and \<open>congestion_control_vegas.c\<close> as one
  record \<open>cc_globals\<close>.

  The running averages that feed the MetricsPort are floating-point; they are write-only, so the
  model records the samples (\<open>cc_samples\<close>) instead of the averages. The
  current time is an argument of the operations that read the clock. A \<open>NULL\<close> pointer is
  \<open>None\<close>.
\<close>

section \<open>Enumerations\<close>

datatype cc_alg_t = CC_ALG_SENDME | CC_ALG_WESTWOOD | CC_ALG_VEGAS | CC_ALG_NOLA

datatype cc_path_t = CC_PATH_EXIT | CC_PATH_ONION | CC_PATH_ONION_SOS | CC_PATH_ONION_VG | CC_PATH_SBWS

text \<open>The running averages of \<open>congestion_control_vegas.c\<close>.\<close>

datatype cc_stat =
    exit_ss_cwnd_ma | exit_ss_bdp_ma | exit_ss_inc_ma | gamma_drop_ma | delta_drop_ma
  | ss_csig_blocked_ma | csig_blocked_ma | csig_alpha_ma | csig_beta_ma | csig_delta_ma
  | ss_queue_ma | queue_ma | bdp_ma

section \<open>Congestion control state\<close>

record vegas_params_t =
  ss_cwnd_cap :: u32
  ss_cwnd_max :: u32
  gamma :: u16
  alpha :: u16
  beta :: u16
  delta :: u16

record congestion_control_t =
  sendme_pending_timestamps :: "u64 list"
  ewma_rtt_usec :: u64
  min_rtt_usec :: u64
  max_rtt_usec :: u64
  bdp :: u64
  cwnd :: u64
  inflight :: u64
  next_cc_event :: u16
  next_cwnd_event :: u16
  in_slow_start :: bool
  cwnd_full :: bool
  blocked_chan :: bool
  cwnd_inc_pct_ss :: u16
  cwnd_inc :: u16
  cwnd_min :: u16
  cwnd_inc_rate :: u8
  sendme_inc :: u8
  cc_alg :: cc_alg_t
  vegas_params :: vegas_params_t

record circuit_params_t =
  cc_enabled :: bool
  sendme_inc_cells :: u8

section \<open>Circuits\<close>

record crypt_path_t =
  cp_package_window :: int
  cp_deliver_window :: int
  cp_ccontrol :: "congestion_control_t option"
  cp_sendme_digest :: "u8 list"

text \<open>\<open>cpath\<close> is the ring of hops of an origin circuit in order, so that its last element is
  \<open>cpath->prev\<close>; a \<open>layer_hint\<close> is the position of a hop. \<open>n_chan_attached\<close> says that
  the pointer \<open>n_chan\<close> is set.\<close>

record circuit_t =
  global_identifier :: nat
  is_origin :: bool
  package_window :: int
  deliver_window :: int
  ccontrol :: "congestion_control_t option"
  cpath :: "crypt_path_t list"
  or_sendme_digest :: "u8 list"
  sendme_last_digests :: "u8 list list option"
  n_chan_cells_n :: int
  p_chan_cells_n :: int
  circuit_blocked_on_n_chan :: bool
  circuit_blocked_on_p_chan :: bool
  n_chan_attached :: bool
  marked_for_close :: bool

type_synonym layer_hint = "nat option"

section \<open>File-level variables\<close>

record cc_globals =
  cwnd_max :: u32
  cell_queue_high :: int
  cell_queue_low :: int
  or_conn_highwater :: u32
  or_conn_lowwater :: u32
  cc_sendme_inc :: u8
  cc_alg_consensus :: cc_alg_t
  n_ewma_cwnd_pct :: u8
  n_ewma_max :: u8
  n_ewma_ss :: u8
  bwe_sendme_min :: u8
  rtt_reset_pct :: u8
  is_monotime_clock_broken :: bool
  num_rtt_reset :: u64
  num_clock_stalls :: u64
  cc_stats_circs_created :: u64
  cc_vegas_cwnd_full_gap :: int
  cc_vegas_cwnd_full_minpct :: int
  cc_cwnd_full_per_cwnd :: int
  cc_stats_vegas_above_delta :: u64
  cc_stats_vegas_above_ss_cwnd_max :: u64
  cc_stats_vegas_below_ss_inc_floor :: u64
  cc_stats_vegas_circ_exited_ss :: u64
  cc_samples :: "(cc_stat \<times> u64) list"
  AlwaysCongestionControl :: bool
  log_info_enabled :: bool

definition stats_update_running_avg :: "cc_stat \<Rightarrow> u64 \<Rightarrow> cc_globals \<Rightarrow> cc_globals" where
  "stats_update_running_avg m v g = g\<lparr>cc_samples := cc_samples g @ [(m, v)]\<rparr>"

section \<open>Constants\<close>

abbreviation CELL_MAX_NETWORK_SIZE :: nat where "CELL_MAX_NETWORK_SIZE \<equiv> 514"
abbreviation CELL_PAYLOAD_SIZE :: int where "CELL_PAYLOAD_SIZE \<equiv> 509"
abbreviation RELAY_PAYLOAD_SIZE :: int where "RELAY_PAYLOAD_SIZE \<equiv> 498"

text \<open>\<open>(16 * 1024) / CELL_MAX_NETWORK_SIZE\<close>\<close>

abbreviation TLS_RECORD_MAX_CELLS :: "'a::numeral" where "TLS_RECORD_MAX_CELLS \<equiv> 31"
abbreviation SENDME_INC_DFLT :: "'a::numeral" where "SENDME_INC_DFLT \<equiv> TLS_RECORD_MAX_CELLS"
abbreviation CIRCWINDOW_INIT :: "'a::numeral" where "CIRCWINDOW_INIT \<equiv> 124"
abbreviation OUTBUF_CELLS :: "'a::numeral" where "OUTBUF_CELLS \<equiv> 62"

abbreviation CIRCWINDOW_START :: int where "CIRCWINDOW_START \<equiv> 1000"
abbreviation CIRCWINDOW_INCREMENT :: int where "CIRCWINDOW_INCREMENT \<equiv> 100"
abbreviation CIRCWINDOW_START_MAX :: int where "CIRCWINDOW_START_MAX \<equiv> 1000"
abbreviation STREAMWINDOW_START :: int where "STREAMWINDOW_START \<equiv> 500"
abbreviation STREAMWINDOW_START_MAX :: int where "STREAMWINDOW_START_MAX \<equiv> 500"
abbreviation STREAMWINDOW_INCREMENT :: int where "STREAMWINDOW_INCREMENT \<equiv> 50"

text \<open>The file-level variables as the program starts.\<close>

definition cc_globals_init :: "bool \<Rightarrow> bool \<Rightarrow> cc_globals" where
  "cc_globals_init always_cc log_info =
     \<lparr>cwnd_max = 2147483647, cell_queue_high = 256, cell_queue_low = 10,
      or_conn_highwater = 32 * 1024, or_conn_lowwater = 16 * 1024,
      cc_sendme_inc = SENDME_INC_DFLT, cc_alg_consensus = CC_ALG_VEGAS,
      n_ewma_cwnd_pct = 50, n_ewma_max = 10, n_ewma_ss = 2, bwe_sendme_min = 5, rtt_reset_pct = 100,
      is_monotime_clock_broken = False, num_rtt_reset = 0, num_clock_stalls = 0,
      cc_stats_circs_created = 0, cc_vegas_cwnd_full_gap = 4, cc_vegas_cwnd_full_minpct = 25,
      cc_cwnd_full_per_cwnd = 1, cc_stats_vegas_above_delta = 0,
      cc_stats_vegas_above_ss_cwnd_max = 0, cc_stats_vegas_below_ss_inc_floor = 0,
      cc_stats_vegas_circ_exited_ss = 0, cc_samples = [],
      AlwaysCongestionControl = always_cc, log_info_enabled = log_info\<rparr>"

end
