(* ===== verification/CC_Estimates.thy ===== *)
theory CC_Estimates
  imports Circuit_State
begin

text \<open>
  The part of \<open>src/core/or/congestion_control_common.c\<close> below the algorithms: the update
  intervals of \<open>congestion_control_st.h\<close>, the averages of
  \<open>congestion_control_common.h\<close>, the queue of pending timestamps, the package window and the
  in-flight accounting, and the estimates of RTT and BDP that a SENDME updates.
  An operation takes the congestion control object and gives the updated one; where it writes
  file-level variables it takes and gives the \<open>cc_globals\<close>. \<open>None\<close> is a division by zero.

  The lemmas bound the averages between their inputs, the window between zero and
  \<open>INT32_MAX\<close>, and show that the pending timestamps are exactly one per complete increment
  in flight.
\<close>

section \<open>Update intervals and averages\<close>

text \<open>The products of two \<open>uint8_t\<close> are computed in \<open>int\<close>, which holds them.\<close>

definition CWND_UPDATE_RATE :: "congestion_control_t \<Rightarrow> u64 option" where
  "CWND_UPDATE_RATE cc =
     (if in_slow_start cc then Some 1
      else let acks = ucast (cwnd_inc_rate cc) * ucast (sendme_inc cc)
           in cdiv (cwnd cc + acks div 2) acks)"

definition SENDME_PER_CWND :: "congestion_control_t \<Rightarrow> u64 option" where
  "SENDME_PER_CWND cc = cdiv (cwnd cc + ucast (sendme_inc cc) div 2) (ucast (sendme_inc cc))"

definition n_count_ewma :: "u64 \<Rightarrow> u64 \<Rightarrow> u64 \<Rightarrow> u64 option" where
  "n_count_ewma val prev N =
     (if prev = 0 then Some val else cdiv (2 * val + (N - 1) * prev) (N + 1))"

definition percent_max_mix :: "u64 \<Rightarrow> u64 \<Rightarrow> u8 \<Rightarrow> u64" where
  "percent_max_mix a b pct_max =
     (let mx = max a b; mn = min a b
      in if pct_max > 100 then mx
         else ucast pct_max * mx div 100 + (100 - ucast pct_max) * mn div 100)"

definition n_ewma_count :: "cc_globals \<Rightarrow> congestion_control_t \<Rightarrow> u64 option" where
  "n_ewma_count g cc =
     (if in_slow_start cc then Some (max (ucast (n_ewma_ss g)) 2)
      else do {
        rate \<leftarrow> CWND_UPDATE_RATE cc;
        Some (max (min (rate * ucast (n_ewma_cwnd_pct g) div 100) (ucast (n_ewma_max g))) 2)
      })"

section \<open>Timestamps\<close>

definition enqueue_timestamp :: "u64 list \<Rightarrow> u64 \<Rightarrow> u64 list" where
  "enqueue_timestamp timestamps t = timestamps @ [t]"

text \<open>The slot of an empty list holds \<open>NULL\<close>: that is the \<open>BUG\<close> branch.\<close>

fun dequeue_timestamp :: "u64 list \<Rightarrow> u64 \<times> u64 list" where
  "dequeue_timestamp [] = (0, [])"
| "dequeue_timestamp (t # ts) = (t, ts)"

section \<open>Windows\<close>

definition layer_ccontrol :: "circuit_t \<Rightarrow> layer_hint \<Rightarrow> congestion_control_t option" where
  "layer_ccontrol circ layer = (case layer of Some i \<Rightarrow> cp_ccontrol (cpath circ ! i) | None \<Rightarrow> ccontrol circ)"

definition layer_package_window :: "circuit_t \<Rightarrow> layer_hint \<Rightarrow> int" where
  "layer_package_window circ layer =
     (case layer of Some i \<Rightarrow> cp_package_window (cpath circ ! i) | None \<Rightarrow> package_window circ)"

definition congestion_control_get_package_window :: "circuit_t \<Rightarrow> layer_hint \<Rightarrow> int" where
  "congestion_control_get_package_window circ layer =
     (case layer_ccontrol circ layer of
        None \<Rightarrow> layer_package_window circ layer
      | Some cc \<Rightarrow>
          if inflight cc > cwnd cc then 0
          else if cwnd cc - inflight cc > word_of_int INT32_MAX then INT32_MAX
          else uint (cwnd cc - inflight cc))"

definition sendme_get_inc_count :: "circuit_t \<Rightarrow> layer_hint \<Rightarrow> int" where
  "sendme_get_inc_count circ layer =
     (case layer_ccontrol circ layer of None \<Rightarrow> CIRCWINDOW_INCREMENT | Some cc \<Rightarrow> uint (sendme_inc cc))"

definition circuit_sent_cell_for_sendme :: "circuit_t \<Rightarrow> layer_hint \<Rightarrow> bool option" where
  "circuit_sent_cell_for_sendme circ layer =
     (case layer_ccontrol circ layer of
        Some cc \<Rightarrow>
          if inflight cc = 0 then Some False
          else if sendme_inc cc = 0 then None
          else Some ((inflight cc + 1) mod ucast (sendme_inc cc) = 0)
      | None \<Rightarrow>
          let window = layer_package_window circ layer
          in Some (if window = CIRCWINDOW_START then False
                   else (window - 1) mod CIRCWINDOW_INCREMENT = 0))"

text \<open>\<open>now\<close> is \<open>monotime_absolute_usec()\<close>.\<close>

definition congestion_control_note_cell_sent ::
    "congestion_control_t \<Rightarrow> circuit_t \<Rightarrow> layer_hint \<Rightarrow> u64 \<Rightarrow> congestion_control_t option" where
  "congestion_control_note_cell_sent cc circ layer now = do {
     last \<leftarrow> circuit_sent_cell_for_sendme circ layer;
     let cc1 = cc\<lparr>inflight := inflight cc + 1\<rparr>;
     Some (if \<not> last then cc1
           else cc1\<lparr>sendme_pending_timestamps := enqueue_timestamp (sendme_pending_timestamps cc1) now\<rparr>)
   }"

section \<open>RTT and BDP estimates\<close>

definition time_delta_should_use_heuristics :: "congestion_control_t \<Rightarrow> bool" where
  "time_delta_should_use_heuristics cc \<longleftrightarrow> \<not> in_slow_start cc \<and> ewma_rtt_usec cc \<noteq> 0"

abbreviation DELTA_DISCREPENCY_RATIO_MAX :: u64 where "DELTA_DISCREPENCY_RATIO_MAX \<equiv> 5000"

definition time_delta_stalled_or_jumped ::
    "cc_globals \<Rightarrow> congestion_control_t \<Rightarrow> u64 \<Rightarrow> u64 \<Rightarrow> bool \<times> cc_globals" where
  "time_delta_stalled_or_jumped g cc old_delta new_delta =
     (if new_delta = 0 then (True, g\<lparr>is_monotime_clock_broken := True\<rparr>)
      else if \<not> time_delta_should_use_heuristics cc then (False, g)
      else if old_delta > new_delta * DELTA_DISCREPENCY_RATIO_MAX then (is_monotime_clock_broken g, g)
      else if new_delta > old_delta * DELTA_DISCREPENCY_RATIO_MAX then (True, g)
      else (False, g\<lparr>is_monotime_clock_broken := False\<rparr>))"

definition is_monotime_clock_reliable :: "cc_globals \<Rightarrow> bool" where
  "is_monotime_clock_reliable g \<longleftrightarrow> \<not> is_monotime_clock_broken g"

definition congestion_control_update_circuit_rtt ::
    "cc_globals \<Rightarrow> congestion_control_t \<Rightarrow> u64 \<Rightarrow> (u64 \<times> cc_globals \<times> congestion_control_t) option" where
  "congestion_control_update_circuit_rtt g cc now_usec =
     (let (sent_at_timestamp, rest) = dequeue_timestamp (sendme_pending_timestamps cc);
          cc1 = cc\<lparr>sendme_pending_timestamps := rest\<rparr>;
          rtt = now_usec - sent_at_timestamp;
          (stalled, g1) = time_delta_stalled_or_jumped g cc1 (ewma_rtt_usec cc1) rtt
      in if stalled then Some (0, g1\<lparr>num_clock_stalls := num_clock_stalls g1 + 1\<rparr>, cc1)
         else do {
           ewma_cnt \<leftarrow> n_ewma_count g1 cc1;
           ewma \<leftarrow> n_count_ewma rtt (ewma_rtt_usec cc1) ewma_cnt;
           let cc2 = cc1\<lparr>ewma_rtt_usec := ewma,
                         max_rtt_usec := (if rtt > max_rtt_usec cc1 then rtt else max_rtt_usec cc1)\<rparr>;
           Some (if min_rtt_usec cc2 = 0
                 then (rtt, g1, cc2\<lparr>min_rtt_usec := ewma_rtt_usec cc2\<rparr>)
                 else if cwnd cc2 = ucast (cwnd_min cc2) \<and> \<not> in_slow_start cc2
                 then (rtt, g1\<lparr>num_rtt_reset := num_rtt_reset g1 + 1\<rparr>,
                       cc2\<lparr>min_rtt_usec := percent_max_mix (ewma_rtt_usec cc2) (min_rtt_usec cc2) (rtt_reset_pct g1)\<rparr>)
                 else if ewma_rtt_usec cc2 < min_rtt_usec cc2
                 then (rtt, g1, cc2\<lparr>min_rtt_usec := ewma_rtt_usec cc2\<rparr>)
                 else (rtt, g1, cc2))
         })"

text \<open>The channel queue and the blocked flag of the side the circuit sends to.\<close>

definition circ_chan_q :: "circuit_t \<Rightarrow> int" where
  "circ_chan_q circ = (if is_origin circ then n_chan_cells_n circ else p_chan_cells_n circ)"

definition circ_blocked_on_chan :: "circuit_t \<Rightarrow> bool" where
  "circ_blocked_on_chan circ =
     (if is_origin circ then circuit_blocked_on_n_chan circ else circuit_blocked_on_p_chan circ)"

definition congestion_control_update_circuit_bdp ::
    "congestion_control_t \<Rightarrow> circuit_t \<Rightarrow> u64 \<Rightarrow> bool \<times> congestion_control_t" where
  "congestion_control_update_circuit_bdp cc circ curr_rtt_usec =
     (let chan_q = circ_chan_q circ;
          blocked_on_chan = circ_blocked_on_chan circ
      in if ewma_rtt_usec cc = 0
         then let cwnd' = (if blocked_on_chan
                           then if chan_q \<ge> sint (cwnd cc) then ucast (cwnd_min cc)
                                else max (cwnd cc - word_of_int chan_q) (ucast (cwnd_min cc))
                           else cwnd cc)
              in (blocked_on_chan, cc\<lparr>blocked_chan := blocked_on_chan, bdp := cwnd'\<rparr>)
         else let cc1 = cc\<lparr>bdp := cwnd cc * min_rtt_usec cc div ewma_rtt_usec cc\<rparr>;
                  cc2 = (if blocked_on_chan
                         then if \<not> blocked_chan cc1 then cc1\<lparr>next_cc_event := 0, blocked_chan := True\<rparr> else cc1
                         else if blocked_chan cc1 then cc1\<lparr>blocked_chan := False, next_cc_event := 0\<rparr> else cc1)
              in (blocked_on_chan \<or> curr_rtt_usec \<noteq> 0, cc2))"

definition congestion_control_update_circuit_estimates ::
    "cc_globals \<Rightarrow> congestion_control_t \<Rightarrow> circuit_t \<Rightarrow> u64
      \<Rightarrow> (bool \<times> cc_globals \<times> congestion_control_t) option" where
  "congestion_control_update_circuit_estimates g cc circ now_usec = do {
     (curr_rtt_usec, g1, cc1) \<leftarrow> congestion_control_update_circuit_rtt g cc now_usec;
     let (updated, cc2) = congestion_control_update_circuit_bdp cc1 circ curr_rtt_usec;
     Some (updated, g1, cc2)
   }"

section \<open>The averages lie between their inputs\<close>

lemma unat_max: "unat (max a b) = max (unat a) (unat b)" for a b :: "'a::len word"
  by (simp add: max_def word_le_nat_alt)

lemma unat_min: "unat (min a b) = min (unat a) (unat b)" for a b :: "'a::len word"
  by (simp add: min_def word_le_nat_alt)

lemma weighted_bounds:
  fixes c p n :: nat
  assumes "1 \<le> n"
  shows "min c p \<le> (2 * c + (n - 1) * p) div (n + 1)" and "(2 * c + (n - 1) * p) div (n + 1) \<le> max c p"
proof -
  have n: "(n + 1) * x = 2 * x + (n - 1) * x" for x
    using assms by (cases n) (simp_all add: algebra_simps)
  have "(n + 1) * min c p \<le> 2 * c + (n - 1) * p"
    unfolding n by (intro add_mono mult_le_mono) simp_all
  then show "min c p \<le> (2 * c + (n - 1) * p) div (n + 1)"
    by (simp add: less_eq_div_iff_mult_less_eq mult.commute)
  have "2 * c + (n - 1) * p \<le> (n + 1) * max c p"
    unfolding n by (intro add_mono mult_le_mono) simp_all
  from div_le_mono [OF this, of "n + 1"]
  show "(2 * c + (n - 1) * p) div (n + 1) \<le> max c p"
    by (simp only: nonzero_mult_div_cancel_left)
qed

lemma n_count_ewma_nat:
  assumes "prev \<noteq> 0" and "1 \<le> unat N" and "unat N < 2 ^ 64 - 1"
    and fits: "2 * unat v + (unat N - 1) * unat prev < 2 ^ 64"
  shows "\<exists>r. n_count_ewma v prev N = Some r \<and>
    unat r = (2 * unat v + (unat N - 1) * unat prev) div (unat N + 1)"
proof -
  have N1: "unat (N + 1) = unat N + 1"
    using assms(3) by (subst unat_add_id) simp_all
  have Nm: "unat (N - 1) = unat N - 1"
    using assms(2) by (subst unat_sub) (simp_all add: word_le_nat_alt)
  have two: "unat (2 * v) = 2 * unat v"
    using fits by (subst unat_mult_id) simp_all
  have mul: "unat ((N - 1) * prev) = (unat N - 1) * unat prev"
    using fits Nm by (subst unat_mult_id) simp_all
  have "unat (2 * v + (N - 1) * prev) = 2 * unat v + (unat N - 1) * unat prev"
    using fits two mul by (subst unat_add_id) simp_all
  moreover have "N + 1 \<noteq> 0" using N1 by auto
  ultimately show ?thesis
    using assms(1) N1 by (simp add: n_count_ewma_def unat_div_distrib)
qed

lemma n_count_ewma_between:
  assumes "prev \<noteq> 0" and "1 \<le> unat N" and "unat N < 2 ^ 64 - 1"
    and "2 * unat v + (unat N - 1) * unat prev < 2 ^ 64"
  shows "\<exists>r. n_count_ewma v prev N = Some r \<and> min v prev \<le> r \<and> r \<le> max v prev"
  using n_count_ewma_nat [OF assms] weighted_bounds [OF assms(2), of "unat v" "unat prev"]
  by (auto simp: word_le_nat_alt unat_min unat_max)

lemma percent_split:
  fixes x y mn mx :: nat
  assumes "100 * mn \<le> x + y" and "x + y \<le> 100 * mx"
  shows "mn \<le> x div 100 + y div 100 + 1 \<and> x div 100 + y div 100 \<le> mx"
  using assms by linarith

lemma mix_bounds:
  fixes mn mx p :: nat
  assumes "p \<le> 100" and "mn \<le> mx"
  shows "mn \<le> p * mx div 100 + (100 - p) * mn div 100 + 1" and "p * mx div 100 + (100 - p) * mn div 100 \<le> mx"
proof -
  have "100 * mn = p * mn + (100 - p) * mn"
    using assms(1) by (simp add: algebra_simps flip: add_mult_distrib)
  also have "\<dots> \<le> p * mx + (100 - p) * mn"
    using assms(2) by simp
  finally have lo: "100 * mn \<le> p * mx + (100 - p) * mn" .
  have "p * mx + (100 - p) * mn \<le> p * mx + (100 - p) * mx"
    using assms(2) by simp
  also have "\<dots> = 100 * mx"
    using assms(1) by (simp add: algebra_simps flip: add_mult_distrib)
  finally have hi: "p * mx + (100 - p) * mn \<le> 100 * mx" .
  show "mn \<le> p * mx div 100 + (100 - p) * mn div 100 + 1" "p * mx div 100 + (100 - p) * mn div 100 \<le> mx"
    using percent_split [OF lo hi] by simp_all
qed

lemma percent_max_mix_nat:
  assumes "unat pct \<le> 100" and "100 * unat (max a b) < 2 ^ 64"
  shows "unat (percent_max_mix a b pct) =
    unat pct * unat (max a b) div 100 + (100 - unat pct) * unat (min a b) div 100"
proof -
  let ?p = "unat pct" and ?mx = "unat (max a b)" and ?mn = "unat (min a b)"
  have mn: "?mn \<le> ?mx" by (simp add: unat_min unat_max)
  have "?p * ?mx \<le> 100 * ?mx" "(100 - ?p) * ?mn \<le> 100 * ?mx"
    using assms(1) mn by (intro mult_le_mono; simp)+
  then have pm: "?p * ?mx < 2 ^ 64" "(100 - ?p) * ?mn < 2 ^ 64"
    using assms(2) by linarith+
  have u: "unat (ucast pct :: u64) = ?p" by (simp add: u_simps)
  have le: "\<not> pct > 100" using assms(1) by (simp add: word_less_nat_alt)
  have v: "unat (100 - ucast pct :: u64) = 100 - ?p"
    using assms(1) u by (subst unat_sub) (simp_all add: word_le_nat_alt)
  have "unat (ucast pct * max a b) = ?p * ?mx"
    using pm u by (subst unat_mult_id) simp_all
  moreover have "unat ((100 - ucast pct) * min a b) = (100 - ?p) * ?mn"
    using pm v by (subst unat_mult_id) simp_all
  moreover have "?p * ?mx div 100 + (100 - ?p) * ?mn div 100 < 2 ^ 64"
    using mix_bounds(2) [OF assms(1) mn] assms(2) by linarith
  ultimately show ?thesis
    using le by (simp add: percent_max_mix_def Let_def unat_word_ariths unat_div_distrib)
qed

lemma percent_max_mix_between:
  assumes "unat pct \<le> 100" and "100 * unat (max a b) < 2 ^ 64"
  shows "unat (min a b) \<le> unat (percent_max_mix a b pct) + 1" and "percent_max_mix a b pct \<le> max a b"
  using mix_bounds [OF assms(1), of "unat (min a b)" "unat (max a b)"] percent_max_mix_nat [OF assms]
  by (simp_all add: word_le_nat_alt unat_min unat_max)

lemma percent_max_mix_ends:
  assumes "100 * unat (max a b) < 2 ^ 64"
  shows "percent_max_mix a b 0 = min a b" and "percent_max_mix a b 100 = max a b"
  using percent_max_mix_nat [of 0 a b] percent_max_mix_nat [of 100 a b] assms
  by (simp_all add: word_unat_eq_iff)

section \<open>Pending timestamps and cells in flight\<close>

text \<open>One timestamp per complete increment in flight. It needs an increment of at least two cells:
  with one cell per SENDME the very first cell is not recorded.\<close>

definition pending_ok :: "congestion_control_t \<Rightarrow> bool" where
  "pending_ok cc \<longleftrightarrow> 2 \<le> unat (sendme_inc cc) \<and>
     length (sendme_pending_timestamps cc) = unat (inflight cc) div unat (sendme_inc cc)"

lemma inc_unat: "unat (ucast (sendme_inc cc) :: u64) = unat (sendme_inc cc)"
  by (simp add: u_simps)

lemma div_Suc_step: "0 < n \<Longrightarrow> Suc x div n = x div n + (if Suc x mod n = 0 then 1 else 0)" for x n :: nat
  by (simp add: div_Suc)

lemma sent_cell_for_sendme_cc:
  assumes "layer_ccontrol circ layer = Some cc" and "2 \<le> unat (sendme_inc cc)"
    and "unat (inflight cc) < 2 ^ 64 - 1"
  shows "circuit_sent_cell_for_sendme circ layer =
    Some (Suc (unat (inflight cc)) mod unat (sendme_inc cc) = 0)"
proof -
  have "unat (inflight cc + 1) = Suc (unat (inflight cc))"
    using assms(3) by (subst unat_add_id) simp_all
  then have "(inflight cc + 1) mod ucast (sendme_inc cc) = 0 \<longleftrightarrow>
      Suc (unat (inflight cc)) mod unat (sendme_inc cc) = 0"
    by (simp add: word_unat_eq_iff unat_mod_distrib inc_unat)
  moreover have "sendme_inc cc \<noteq> 0" using assms(2) by auto
  moreover have "Suc 0 mod unat (sendme_inc cc) \<noteq> 0" using assms(2) by simp
  ultimately show ?thesis
    using assms(1) by (auto simp: circuit_sent_cell_for_sendme_def)
qed

lemma note_cell_sent_pending:
  assumes "layer_ccontrol circ layer = Some cc" and "pending_ok cc"
    and "unat (inflight cc) < 2 ^ 64 - 1"
  shows "\<exists>cc'. congestion_control_note_cell_sent cc circ layer now = Some cc' \<and> pending_ok cc' \<and>
    unat (inflight cc') = Suc (unat (inflight cc)) \<and>
    cc' = cc\<lparr>inflight := inflight cc', sendme_pending_timestamps := sendme_pending_timestamps cc'\<rparr>"
proof -
  have inc: "2 \<le> unat (sendme_inc cc)" using assms(2) by (simp add: pending_ok_def)
  have s: "unat (inflight cc + 1) = Suc (unat (inflight cc))"
    using assms(3) by (subst unat_add_id) simp_all
  show ?thesis
    using assms(2) inc div_Suc_step [of "unat (sendme_inc cc)" "unat (inflight cc)"]
    by (auto simp: congestion_control_note_cell_sent_def sent_cell_for_sendme_cc [OF assms(1) inc assms(3)]
        pending_ok_def s enqueue_timestamp_def Let_def)
qed

text \<open>What an update of the estimates leaves alone: the configuration of the circuit, and everything
  the algorithm decides with.\<close>

definition same_config :: "congestion_control_t \<Rightarrow> congestion_control_t \<Rightarrow> bool" where
  "same_config cc cc' \<longleftrightarrow> sendme_inc cc' = sendme_inc cc \<and> cwnd_min cc' = cwnd_min cc \<and>
     cwnd_inc cc' = cwnd_inc cc \<and> cwnd_inc_rate cc' = cwnd_inc_rate cc \<and>
     cwnd_inc_pct_ss cc' = cwnd_inc_pct_ss cc \<and> vegas_params cc' = vegas_params cc \<and>
     cc_alg cc' = cc_alg cc"

definition same_window :: "congestion_control_t \<Rightarrow> congestion_control_t \<Rightarrow> bool" where
  "same_window cc cc' \<longleftrightarrow> cwnd cc' = cwnd cc \<and> inflight cc' = inflight cc \<and>
     in_slow_start cc' = in_slow_start cc \<and> next_cwnd_event cc' = next_cwnd_event cc \<and>
     cwnd_full cc' = cwnd_full cc"

text \<open>The clock flag and two counters are the only file-level variables the estimates write.\<close>

definition clock_erase :: "cc_globals \<Rightarrow> cc_globals" where
  "clock_erase g = g\<lparr>is_monotime_clock_broken := False, num_rtt_reset := 0, num_clock_stalls := 0\<rparr>"

definition clock_only :: "cc_globals \<Rightarrow> cc_globals \<Rightarrow> bool" where
  "clock_only g g' \<longleftrightarrow> clock_erase g' = clock_erase g"

lemma clock_only_updates [simp]:
  "clock_only g g"
  "clock_only g (g'\<lparr>is_monotime_clock_broken := b\<rparr>) \<longleftrightarrow> clock_only g g'"
  "clock_only g (g'\<lparr>num_rtt_reset := r\<rparr>) \<longleftrightarrow> clock_only g g'"
  "clock_only g (g'\<lparr>num_clock_stalls := s\<rparr>) \<longleftrightarrow> clock_only g g'"
  by (simp_all add: clock_only_def clock_erase_def)

lemma clock_only_field:
  assumes "clock_only g g'" and "\<And>h. f (clock_erase h) = f h"
  shows "f g' = f g"
  using assms unfolding clock_only_def by metis

lemmas frame_defs = same_config_def same_window_def

lemma same_config_refl [simp]: "same_config cc cc"
  by (simp add: same_config_def)

lemma same_config_trans: "same_config x y \<Longrightarrow> same_config y z \<Longrightarrow> same_config x z"
  by (simp add: same_config_def)

lemma dequeue_snd [simp]: "snd (dequeue_timestamp ts) = tl ts"
  by (cases ts) simp_all

lemma stalled_clock_only:
  "time_delta_stalled_or_jumped g cc x y = (b, g') \<Longrightarrow> clock_only g g'"
  by (auto simp: time_delta_stalled_or_jumped_def split: if_splits)

text \<open>The two outcomes of an RTT update: the measurement is thrown away, or the three estimates
  move.\<close>

lemma rtt_cases:
  assumes "congestion_control_update_circuit_rtt g cc now = Some (rtt, g', cc')"
  obtains (stalled) g1 where "rtt = 0" and "clock_only g g1"
      and "g' = g1\<lparr>num_clock_stalls := num_clock_stalls g1 + 1\<rparr>"
      and "cc' = cc\<lparr>sendme_pending_timestamps := tl (sendme_pending_timestamps cc)\<rparr>"
  | (measured) g1 n ewma mx mn where "rtt = now - fst (dequeue_timestamp (sendme_pending_timestamps cc))"
      and "rtt \<noteq> 0" and "clock_only g g1"
      and "n_ewma_count g1 cc = Some n" and "n_count_ewma rtt (ewma_rtt_usec cc) n = Some ewma"
      and "mx = max rtt (max_rtt_usec cc)"
      and "mn = (if min_rtt_usec cc = 0 then ewma
                 else if cwnd cc = ucast (cwnd_min cc) \<and> \<not> in_slow_start cc
                 then percent_max_mix ewma (min_rtt_usec cc) (rtt_reset_pct g1)
                 else min ewma (min_rtt_usec cc))"
      and "g' = (if min_rtt_usec cc \<noteq> 0 \<and> cwnd cc = ucast (cwnd_min cc) \<and> \<not> in_slow_start cc
                 then g1\<lparr>num_rtt_reset := num_rtt_reset g1 + 1\<rparr> else g1)"
      and "cc' = cc\<lparr>sendme_pending_timestamps := tl (sendme_pending_timestamps cc),
                    ewma_rtt_usec := ewma, max_rtt_usec := mx, min_rtt_usec := mn\<rparr>"
proof -
  obtain sent rest where d: "dequeue_timestamp (sendme_pending_timestamps cc) = (sent, rest)"
    by (cases "dequeue_timestamp (sendme_pending_timestamps cc)")
  have rest: "rest = tl (sendme_pending_timestamps cc)"
    using dequeue_snd [of "sendme_pending_timestamps cc"] d by simp
  let ?cc = "cc\<lparr>sendme_pending_timestamps := rest\<rparr>"
  obtain st g1 where st: "time_delta_stalled_or_jumped g ?cc (ewma_rtt_usec cc) (now - sent) = (st, g1)"
    by (cases "time_delta_stalled_or_jumped g ?cc (ewma_rtt_usec cc) (now - sent)")
  note clock = stalled_clock_only [OF st]
  have cnt: "n_ewma_count g1 ?cc = n_ewma_count g1 cc"
    by (simp add: n_ewma_count_def CWND_UPDATE_RATE_def)
  note upd = assms [unfolded congestion_control_update_circuit_rtt_def d Let_def prod.case]
  show thesis
  proof (cases st)
    case True
    then show thesis using upd st clock rest by (intro stalled) auto
  next
    case False
    have nz: "now - sent \<noteq> 0" using st False by (auto simp: time_delta_stalled_or_jumped_def)
    obtain n ewma where n: "n_ewma_count g1 cc = Some n"
      and e: "n_count_ewma (now - sent) (ewma_rtt_usec cc) n = Some ewma"
      using upd st False cnt by (auto split: bind_splits)
    have res: "rtt = now - sent" "g' = (if min_rtt_usec cc \<noteq> 0 \<and> cwnd cc = ucast (cwnd_min cc) \<and> \<not> in_slow_start cc
                 then g1\<lparr>num_rtt_reset := num_rtt_reset g1 + 1\<rparr> else g1)"
      using upd st False cnt n e by (auto split: if_splits)
    have "cc' = cc\<lparr>sendme_pending_timestamps := rest, ewma_rtt_usec := ewma,
        max_rtt_usec := max (now - sent) (max_rtt_usec cc),
        min_rtt_usec := (if min_rtt_usec cc = 0 then ewma
                 else if cwnd cc = ucast (cwnd_min cc) \<and> \<not> in_slow_start cc
                 then percent_max_mix ewma (min_rtt_usec cc) (rtt_reset_pct g1)
                 else min ewma (min_rtt_usec cc))\<rparr>"
      using upd st False cnt n e by (auto simp: max_def min_def split: if_splits)
    then show thesis
      using nz e rest d by (intro measured [OF _ _ clock n _ refl refl res(2)]) (simp_all add: res(1))
  qed
qed

lemma rtt_frame:
  assumes "congestion_control_update_circuit_rtt g cc now = Some (rtt, g', cc')"
  shows "sendme_pending_timestamps cc' = tl (sendme_pending_timestamps cc)" and "same_config cc cc'"
    and "same_window cc cc'" and "clock_only g g'"
    and "blocked_chan cc' = blocked_chan cc \<and> next_cc_event cc' = next_cc_event cc \<and> bdp cc' = bdp cc"
  using assms by (cases rule: rtt_cases; simp add: frame_defs)+

lemma bdp_frame:
  assumes "congestion_control_update_circuit_bdp cc circ r = (u, cc')"
  shows "sendme_pending_timestamps cc' = sendme_pending_timestamps cc" and "same_config cc cc'"
    and "same_window cc cc'" and "ewma_rtt_usec cc' = ewma_rtt_usec cc"
    and "min_rtt_usec cc' = min_rtt_usec cc" and "max_rtt_usec cc' = max_rtt_usec cc"
    and "blocked_chan cc' = circ_blocked_on_chan circ"
    and "next_cc_event cc' = (if ewma_rtt_usec cc \<noteq> 0 \<and> blocked_chan cc \<noteq> circ_blocked_on_chan circ then 0
                          else next_cc_event cc)"
  using assms by (auto simp: congestion_control_update_circuit_bdp_def Let_def frame_defs split: if_splits)

lemma estimates_split:
  assumes "congestion_control_update_circuit_estimates g cc circ now = Some (u, g', cc')"
  obtains r cc1 where "congestion_control_update_circuit_rtt g cc now = Some (r, g', cc1)"
    and "congestion_control_update_circuit_bdp cc1 circ r = (u, cc')"
  using assms
  by (auto simp: congestion_control_update_circuit_estimates_def split: bind_splits prod.splits)

lemma estimates_frame:
  assumes "congestion_control_update_circuit_estimates g cc circ now = Some (u, g', cc')"
  shows "sendme_pending_timestamps cc' = tl (sendme_pending_timestamps cc)" and "same_config cc cc'"
    and "same_window cc cc'" and "clock_only g g'" and "blocked_chan cc' = circ_blocked_on_chan circ"
proof -
  obtain r cc1 where rtt: "congestion_control_update_circuit_rtt g cc now = Some (r, g', cc1)"
    and b: "congestion_control_update_circuit_bdp cc1 circ r = (u, cc')"
    using assms by (rule estimates_split)
  note fr = rtt_frame [OF rtt] bdp_frame [OF b]
  show "sendme_pending_timestamps cc' = tl (sendme_pending_timestamps cc)" "clock_only g g'"
    "blocked_chan cc' = circ_blocked_on_chan circ"
    using fr by simp_all
  show "same_config cc cc'" using fr by (blast intro: same_config_trans)
  show "same_window cc cc'" using fr by (simp add: same_window_def)
qed

section \<open>Properties\<close>

text \<open>
  The averages behind the RTT estimates are averages. While the sums stay below \<open>2 ^ 64\<close>,
  the N-count EWMA is between the new value and the previous average, and the percentile mix is at
  most the larger value and at least the smaller one less the rounding; at 0 percent it is the
  minimum and at 100 percent the maximum.
\<close>

theorem cc_averages_between:
  assumes "prev \<noteq> 0" and "1 \<le> unat N" and "unat N < 2 ^ 64 - 1"
    and "2 * unat v + (unat N - 1) * unat prev < 2 ^ 64"
    and "unat pct \<le> 100" and "100 * unat (max v prev) < 2 ^ 64"
  shows "(\<exists>r. n_count_ewma v prev N = Some r \<and> min v prev \<le> r \<and> r \<le> max v prev) \<and>
    unat (min v prev) \<le> unat (percent_max_mix v prev pct) + 1 \<and>
    percent_max_mix v prev pct \<le> max v prev \<and>
    percent_max_mix v prev 0 = min v prev \<and> percent_max_mix v prev 100 = max v prev"
  using n_count_ewma_between [OF assms(1-4)] percent_max_mix_between [OF assms(5,6)]
    percent_max_mix_ends [OF assms(6)] by simp_all

theorem cc_averages_between_witness:
  "(\<exists>r. n_count_ewma 300 100 3 = Some r \<and> 100 \<le> r \<and> r \<le> 300) \<and>
    100 \<le> unat (percent_max_mix 300 100 50) + 1 \<and> percent_max_mix 300 100 50 \<le> 300"
  using cc_averages_between [of 100 3 300 50] by (simp add: unat_max unat_min max_def min_def)

text \<open>
  The package window never over-commits: with congestion control it is the room between the
  cells in flight and the congestion window, zero when the window shrank below what is in flight,
  and it fits an \<open>int\<close>.
\<close>

theorem package_window_room:
  assumes "layer_ccontrol circ layer = Some cc"
  shows "congestion_control_get_package_window circ layer =
      min INT32_MAX (max 0 (uint (cwnd cc) - uint (inflight cc)))"
proof (cases "inflight cc > cwnd cc")
  case True
  then show ?thesis
    using assms by (simp add: congestion_control_get_package_window_def word_less_def)
next
  case False
  then have "uint (cwnd cc - inflight cc) = uint (cwnd cc) - uint (inflight cc)"
    by (subst uint_sub_lem [THEN iffD1]) (simp_all add: word_le_def not_less)
  then show ?thesis
    using assms False
    by (simp add: congestion_control_get_package_window_def word_less_def word_le_def not_less)
qed

lemma n_ewma_count_range:
  assumes "n_ewma_count g cc = Some n"
  shows "2 \<le> unat n" and "unat n \<le> 255"
proof -
  have u: "unat (ucast w :: u64) \<le> 255" for w :: u8
    by (simp add: u_simps)
  show "2 \<le> unat n"
    using assms by (auto simp: n_ewma_count_def unat_max split: if_splits bind_splits)
  show "unat n \<le> 255"
    using assms u by (auto simp: n_ewma_count_def unat_max unat_min min.coboundedI2 split: if_splits bind_splits)
qed

text \<open>The facts about one accepted RTT sample and the BDP estimate that follows.\<close>

lemma rtt_bdp_facts:
  assumes upd: "congestion_control_update_circuit_rtt g cc now = Some (rtt, g', cc')"
    and rtt: "rtt \<noteq> 0" and fits: "unat rtt < 2 ^ 54" "unat (ewma_rtt_usec cc) < 2 ^ 54"
  shows "rtt = now - fst (dequeue_timestamp (sendme_pending_timestamps cc))"
    and "sendme_pending_timestamps cc' = tl (sendme_pending_timestamps cc)"
    and "ewma_rtt_usec cc = 0 \<and> ewma_rtt_usec cc' = rtt \<or>
      min rtt (ewma_rtt_usec cc) \<le> ewma_rtt_usec cc' \<and> ewma_rtt_usec cc' \<le> max rtt (ewma_rtt_usec cc)"
    and "max_rtt_usec cc' = max rtt (max_rtt_usec cc)"
    and "min_rtt_usec cc = 0 \<or> cwnd cc \<noteq> ucast (cwnd_min cc) \<or> in_slow_start cc \<Longrightarrow>
      min_rtt_usec cc' \<le> ewma_rtt_usec cc'"
    and "min_rtt_usec cc' \<le> ewma_rtt_usec cc' \<Longrightarrow> ewma_rtt_usec cc' \<noteq> 0 \<Longrightarrow>
      unat (cwnd cc) * unat (min_rtt_usec cc') < 2 ^ 64 \<Longrightarrow>
      bdp (snd (congestion_control_update_circuit_bdp cc' circ rtt)) \<le> cwnd cc"
proof -
  note fr = rtt_frame [OF upd]
  have "(rtt = now - fst (dequeue_timestamp (sendme_pending_timestamps cc))) \<and>
    (ewma_rtt_usec cc = 0 \<and> ewma_rtt_usec cc' = rtt \<or>
      min rtt (ewma_rtt_usec cc) \<le> ewma_rtt_usec cc' \<and> ewma_rtt_usec cc' \<le> max rtt (ewma_rtt_usec cc)) \<and>
    max_rtt_usec cc' = max rtt (max_rtt_usec cc) \<and>
    (min_rtt_usec cc = 0 \<or> cwnd cc \<noteq> ucast (cwnd_min cc) \<or> in_slow_start cc \<longrightarrow>
      min_rtt_usec cc' \<le> ewma_rtt_usec cc')"
    using upd
  proof (cases rule: rtt_cases)
    case stalled
    with rtt show ?thesis by simp
  next
    case (measured g1 n ewma mx mn)
    note n = n_ewma_count_range [OF measured(4)]
    have "(unat n - 1) * unat (ewma_rtt_usec cc) \<le> 254 * 2 ^ 54"
      using n fits by (intro mult_le_mono) auto
    then have "2 * unat rtt + (unat n - 1) * unat (ewma_rtt_usec cc) < 2 ^ 64"
      using fits by simp
    then have "ewma_rtt_usec cc = 0 \<and> ewma = rtt \<or>
        min rtt (ewma_rtt_usec cc) \<le> ewma \<and> ewma \<le> max rtt (ewma_rtt_usec cc)"
      using n_count_ewma_between [of "ewma_rtt_usec cc" n rtt] n measured(5)
      by (cases "ewma_rtt_usec cc = 0") (auto simp: n_count_ewma_def)
    then show ?thesis
      using measured by auto
  qed
  then show "rtt = now - fst (dequeue_timestamp (sendme_pending_timestamps cc))"
    and "ewma_rtt_usec cc = 0 \<and> ewma_rtt_usec cc' = rtt \<or>
      min rtt (ewma_rtt_usec cc) \<le> ewma_rtt_usec cc' \<and> ewma_rtt_usec cc' \<le> max rtt (ewma_rtt_usec cc)"
    and "max_rtt_usec cc' = max rtt (max_rtt_usec cc)"
    and "min_rtt_usec cc = 0 \<or> cwnd cc \<noteq> ucast (cwnd_min cc) \<or> in_slow_start cc \<Longrightarrow>
      min_rtt_usec cc' \<le> ewma_rtt_usec cc'"
    by blast+
  show "sendme_pending_timestamps cc' = tl (sendme_pending_timestamps cc)" by (rule fr)
  assume le: "min_rtt_usec cc' \<le> ewma_rtt_usec cc'" and nz: "ewma_rtt_usec cc' \<noteq> 0"
    and small: "unat (cwnd cc) * unat (min_rtt_usec cc') < 2 ^ 64"
  have "cwnd cc' = cwnd cc" using fr by (simp add: same_window_def)
  moreover have "unat (cwnd cc * min_rtt_usec cc') = unat (cwnd cc) * unat (min_rtt_usec cc')"
    using small by (subst unat_mult_id) simp_all
  moreover have "unat (cwnd cc) * unat (min_rtt_usec cc') div unat (ewma_rtt_usec cc') \<le> unat (cwnd cc)"
  proof -
    have "unat (cwnd cc) * unat (min_rtt_usec cc') \<le> unat (cwnd cc) * unat (ewma_rtt_usec cc')"
      using le by (simp add: word_le_nat_alt)
    then have "unat (cwnd cc) * unat (min_rtt_usec cc') div unat (ewma_rtt_usec cc')
        \<le> unat (cwnd cc) * unat (ewma_rtt_usec cc') div unat (ewma_rtt_usec cc')"
      by (rule div_le_mono)
    then show ?thesis using nz by (simp add: unat_eq_0)
  qed
  ultimately show "bdp (snd (congestion_control_update_circuit_bdp cc' circ rtt)) \<le> cwnd cc"
    using nz by (simp add: congestion_control_update_circuit_bdp_def Let_def word_le_nat_alt unat_div_distrib)
qed

text \<open>A circuit in the middle of its life, for the examples.\<close>

definition example_cc :: congestion_control_t where
  "example_cc = \<lparr>sendme_pending_timestamps = [1000, 2000], ewma_rtt_usec = 500, min_rtt_usec = 400,
     max_rtt_usec = 900, bdp = 100, cwnd = 200, inflight = 70, next_cc_event = 1, next_cwnd_event = 1,
     in_slow_start = False, cwnd_full = True, blocked_chan = False, cwnd_inc_pct_ss = 100, cwnd_inc = 1,
     cwnd_min = 124, cwnd_inc_rate = 31, sendme_inc = 31, cc_alg = CC_ALG_VEGAS,
     vegas_params = \<lparr>ss_cwnd_cap = 600, ss_cwnd_max = 5000, gamma = 186, alpha = 186, beta = 248, delta = 310\<rparr>\<rparr>"

definition example_circ :: circuit_t where
  "example_circ = \<lparr>global_identifier = 1, is_origin = True, package_window = 1000, deliver_window = 1000,
     ccontrol = Some example_cc, cpath = [], or_sendme_digest = [], sendme_last_digests = None,
     n_chan_cells_n = 0, p_chan_cells_n = 0, circuit_blocked_on_n_chan = False,
     circuit_blocked_on_p_chan = False, n_chan_attached = True, marked_for_close = False\<rparr>"

theorem package_window_room_witness:
  "congestion_control_get_package_window example_circ None = 130"
  by (subst package_window_room [where cc = example_cc])
    (simp_all add: layer_ccontrol_def example_circ_def example_cc_def)

text \<open>
  C8. One SENDME gives one RTT sample, taken from the oldest pending timestamp. When it is
  accepted, the smoothed RTT lies between the sample and the previous average, the maximum is
  the running maximum, and the minimum never exceeds the smoothed RTT except when it is being reset
  at the smallest window; then the BDP estimate that follows is at most the congestion window.
\<close>

theorem rtt_and_bdp_estimates:
  assumes "congestion_control_update_circuit_rtt g cc now = Some (rtt, g', cc')"
    and "rtt \<noteq> 0" and "unat rtt < 2 ^ 54" and "unat (ewma_rtt_usec cc) < 2 ^ 54"
  shows "rtt = now - fst (dequeue_timestamp (sendme_pending_timestamps cc)) \<and>
    sendme_pending_timestamps cc' = tl (sendme_pending_timestamps cc) \<and>
    (ewma_rtt_usec cc = 0 \<and> ewma_rtt_usec cc' = rtt \<or>
      min rtt (ewma_rtt_usec cc) \<le> ewma_rtt_usec cc' \<and> ewma_rtt_usec cc' \<le> max rtt (ewma_rtt_usec cc)) \<and>
    max_rtt_usec cc' = max rtt (max_rtt_usec cc) \<and>
    (min_rtt_usec cc = 0 \<or> cwnd cc \<noteq> ucast (cwnd_min cc) \<or> in_slow_start cc \<longrightarrow>
      min_rtt_usec cc' \<le> ewma_rtt_usec cc') \<and>
    (min_rtt_usec cc' \<le> ewma_rtt_usec cc' \<and> ewma_rtt_usec cc' \<noteq> 0 \<and>
      unat (cwnd cc) * unat (min_rtt_usec cc') < 2 ^ 64 \<longrightarrow>
      bdp (snd (congestion_control_update_circuit_bdp cc' circ rtt)) \<le> cwnd cc)"
  using rtt_bdp_facts [OF assms] by blast

theorem rtt_and_bdp_estimates_witness:
  "\<exists>rtt g' cc'. congestion_control_update_circuit_rtt (cc_globals_init False False) example_cc 1600 = Some (rtt, g', cc') \<and>
    rtt = 600 \<and> 500 \<le> ewma_rtt_usec cc' \<and> ewma_rtt_usec cc' \<le> 600 \<and> max_rtt_usec cc' = 900 \<and>
    bdp (snd (congestion_control_update_circuit_bdp cc' example_circ rtt)) \<le> 200"
proof -
  have some: "congestion_control_update_circuit_rtt (cc_globals_init False False) example_cc 1600 \<noteq> None"
    by code_simp
  then obtain rtt g' cc' where upd:
      "congestion_control_update_circuit_rtt (cc_globals_init False False) example_cc 1600 = Some (rtt, g', cc')"
    by (metis option.exhaust surj_pair)
  then have vals: "rtt = fst (the (congestion_control_update_circuit_rtt (cc_globals_init False False) example_cc 1600))"
      "cc' = snd (snd (the (congestion_control_update_circuit_rtt (cc_globals_init False False) example_cc 1600)))"
    by simp_all
  have rtt: "rtt = 600" unfolding vals by code_simp
  have ewma: "ewma_rtt_usec cc' \<noteq> 0" "min_rtt_usec cc' = 400" unfolding vals by code_simp+
  have "unat (ewma_rtt_usec example_cc) < 2 ^ 54" "cwnd example_cc = 200" "ewma_rtt_usec example_cc = 500"
    "max_rtt_usec example_cc = 900" "cwnd_min example_cc = 124"
    by (simp_all add: example_cc_def)
  then show ?thesis
    using upd rtt ewma rtt_and_bdp_estimates [OF upd, of example_circ]
    by (auto simp: max_def min_def example_cc_def)
qed

text \<open>At the smallest window the reset can leave the minimum above the smoothed RTT, and the BDP
  estimate above the window.\<close>

lemma bdp_above_cwnd_at_reset:
  "let cc = example_cc\<lparr>cwnd := 124, min_rtt_usec := 600\<rparr> in
    \<exists>g' cc'. congestion_control_update_circuit_estimates (cc_globals_init False False) cc example_circ 1500 = Some (True, g', cc') \<and>
      bdp cc' > cwnd cc'"
proof -
  let ?e = "congestion_control_update_circuit_estimates (cc_globals_init False False)
      (example_cc\<lparr>cwnd := 124, min_rtt_usec := 600\<rparr>) example_circ 1500"
  have "?e \<noteq> None" "fst (the ?e)" "bdp (snd (snd (the ?e))) > cwnd (snd (snd (the ?e)))"
    by code_simp+
  then show ?thesis by (cases ?e) auto
qed

end
