(* ===== verification/CC_Vegas.thy ===== *)
theory CC_Vegas
  imports CC_Estimates
begin

text \<open>
  \<open>src/core/or/congestion_control_vegas.c\<close>: the TOR_VEGAS algorithm that turns the estimates of
  a SENDME into the next congestion window. The long function
  \<open>congestion_control_vegas_process_sendme\<close> is cut at its two phases (slow start, steady
  state). All window arithmetic is 64 bits wide and wraps. A division by zero and a failing
  \<open>tor_assert\<close> are \<open>None\<close>; the log function divides by the larger RTT estimate, so it can abort
  when informational logging is on. The controller event of \<open>exit_slow_start\<close> is not modelled.

  The lemmas show that the algorithm does not abort, where the window can go in each phase, that
  slow start is left once and for all, and that the window arithmetic underflows when the
  parameters allow a decrement larger than the window.
\<close>

section \<open>Parameters\<close>

definition vegas_bdp :: "congestion_control_t \<Rightarrow> u64" where
  "vegas_bdp cc = bdp cc"

text \<open>The names and the defaults that depend on the path.\<close>

record vegas_defaults =
  alpha_str :: string
  beta_str :: string
  gamma_str :: string
  delta_str :: string
  sscap_str :: string
  alpha_dflt :: int
  beta_dflt :: int
  gamma_dflt :: int
  delta_dflt :: int
  sscap_dflt :: int

definition vegas_path_defaults :: "cc_path_t \<Rightarrow> vegas_defaults" where
  "vegas_path_defaults path =
     (if path = CC_PATH_SBWS then
        \<lparr>alpha_str = ''cc_vegas_alpha_sbws'', beta_str = ''cc_vegas_beta_sbws'',
         gamma_str = ''cc_vegas_gamma_sbws'', delta_str = ''cc_vegas_delta_sbws'',
         sscap_str = ''cc_sscap_sbws'',
         alpha_dflt = 2 * OUTBUF_CELLS - TLS_RECORD_MAX_CELLS,
         beta_dflt = 2 * OUTBUF_CELLS + TLS_RECORD_MAX_CELLS,
         gamma_dflt = 2 * OUTBUF_CELLS, delta_dflt = 4 * OUTBUF_CELLS, sscap_dflt = 400\<rparr>
      else if path = CC_PATH_EXIT \<or> path = CC_PATH_ONION_SOS then
        \<lparr>alpha_str = ''cc_vegas_alpha_exit'', beta_str = ''cc_vegas_beta_exit'',
         gamma_str = ''cc_vegas_gamma_exit'', delta_str = ''cc_vegas_delta_exit'',
         sscap_str = ''cc_sscap_exit'',
         alpha_dflt = 3 * OUTBUF_CELLS, beta_dflt = 4 * OUTBUF_CELLS,
         gamma_dflt = 3 * OUTBUF_CELLS, delta_dflt = 5 * OUTBUF_CELLS, sscap_dflt = 600\<rparr>
      else
        \<lparr>alpha_str = ''cc_vegas_alpha_onion'', beta_str = ''cc_vegas_beta_onion'',
         gamma_str = ''cc_vegas_gamma_onion'', delta_str = ''cc_vegas_delta_onion'',
         sscap_str = ''cc_sscap_onion'',
         alpha_dflt = 3 * OUTBUF_CELLS, beta_dflt = 6 * OUTBUF_CELLS,
         gamma_dflt = 4 * OUTBUF_CELLS, delta_dflt = 7 * OUTBUF_CELLS, sscap_dflt = 475\<rparr>)"

text \<open>The parameters are converted to the widths of the fields: \<open>delta\<close> may be up to
  \<open>INT32_MAX\<close> in the consensus but its field has 16 bits.\<close>

definition congestion_control_vegas_set_params ::
    "networkstatus option \<Rightarrow> cc_globals \<Rightarrow> congestion_control_t \<Rightarrow> cc_path_t
      \<Rightarrow> (cc_globals \<times> congestion_control_t) option" where
  "congestion_control_vegas_set_params latest g cc path =
     (if cc_alg cc \<noteq> CC_ALG_VEGAS then None
      else let d = vegas_path_defaults path; param = networkstatus_get_param latest None
           in do {
             sscap \<leftarrow> param (sscap_str d) (sscap_dflt d) 100 INT32_MAX;
             ssmax \<leftarrow> param ''cc_ss_max'' 5000 500 INT32_MAX;
             al \<leftarrow> param (alpha_str d) (alpha_dflt d) 0 1000;
             be \<leftarrow> param (beta_str d) (beta_dflt d) 0 1000;
             ga \<leftarrow> param (gamma_str d) (gamma_dflt d) 0 1000;
             de \<leftarrow> param (delta_str d) (delta_dflt d) 0 INT32_MAX;
             minpct \<leftarrow> param ''cc_cwnd_full_minpct'' 25 0 100;
             gap \<leftarrow> param ''cc_cwnd_full_gap'' 4 0 INT16_MAX;
             per_cwnd \<leftarrow> param ''cc_cwnd_full_per_cwnd'' 1 0 1;
             Some (g\<lparr>cc_vegas_cwnd_full_minpct := minpct, cc_vegas_cwnd_full_gap := gap,
                     cc_cwnd_full_per_cwnd := per_cwnd\<rparr>,
                   cc\<lparr>vegas_params :=
                     \<lparr>ss_cwnd_cap = word_of_int sscap, ss_cwnd_max = word_of_int ssmax,
                      gamma = word_of_int ga, alpha = word_of_int al, beta = word_of_int be,
                      delta = word_of_int de\<rparr>\<rparr>)
           })"

section \<open>Slow start and the full window\<close>

text \<open>The only observable effect of the log function: it divides.\<close>

definition congestion_control_vegas_log :: "cc_globals \<Rightarrow> congestion_control_t \<Rightarrow> unit option" where
  "congestion_control_vegas_log g cc =
     (if \<not> log_info_enabled g then Some ()
      else map_option (\<lambda>_. ())
        (cdiv (cwnd cc * of_nat CELL_MAX_NETWORK_SIZE * 1000) (max (min_rtt_usec cc) (ewma_rtt_usec cc))))"

definition rfc3742_ss_inc :: "congestion_control_t \<Rightarrow> u64 option" where
  "rfc3742_ss_inc cc =
     (if cwnd cc \<le> ucast (ss_cwnd_cap (vegas_params cc))
      then Some ((ucast (cwnd_inc_pct_ss cc) * ucast (sendme_inc cc) + 50) div 100)
      else map_option (\<lambda>inc. max inc 1)
        (cdiv (ucast (sendme_inc cc) * ucast (ss_cwnd_cap (vegas_params cc)) + cwnd cc) (2 * cwnd cc)))"

definition congestion_control_vegas_exit_slow_start ::
    "cc_globals \<Rightarrow> congestion_control_t \<Rightarrow> (cc_globals \<times> congestion_control_t) option" where
  "congestion_control_vegas_exit_slow_start g cc = do {
     congestion_control_vegas_log g cc;
     let cc1 = cc\<lparr>in_slow_start := False\<rparr>;
     congestion_control_vegas_log g cc1;
     inc \<leftarrow> rfc3742_ss_inc cc1;
     let g1 = stats_update_running_avg exit_ss_inc_ma inc
                (stats_update_running_avg exit_ss_bdp_ma (vegas_bdp cc1)
                  (stats_update_running_avg exit_ss_cwnd_ma (cwnd cc1) g));
     Some (g1\<lparr>cc_stats_vegas_circ_exited_ss := cc_stats_vegas_circ_exited_ss g1 + 1\<rparr>, cc1)
   }"

definition cwnd_became_full :: "cc_globals \<Rightarrow> congestion_control_t \<Rightarrow> bool" where
  "cwnd_became_full g cc \<longleftrightarrow>
     inflight cc + word_of_int (cc_vegas_cwnd_full_gap g * uint (sendme_inc cc)) \<ge> cwnd cc"

definition cwnd_became_nonfull :: "cc_globals \<Rightarrow> congestion_control_t \<Rightarrow> bool" where
  "cwnd_became_nonfull g cc \<longleftrightarrow>
     100 * inflight cc < word_of_int (cc_vegas_cwnd_full_minpct g) * cwnd cc"

definition cwnd_full_reset :: "cc_globals \<Rightarrow> congestion_control_t \<Rightarrow> bool option" where
  "cwnd_full_reset g cc =
     (if cc_cwnd_full_per_cwnd g \<noteq> 0
      then map_option (\<lambda>n. ucast (next_cwnd_event cc) = n) (SENDME_PER_CWND cc)
      else map_option (\<lambda>n. ucast (next_cc_event cc) = n) (CWND_UPDATE_RATE cc))"

section \<open>Processing a SENDME\<close>

definition CWND_INC :: "congestion_control_t \<Rightarrow> u64" where
  "CWND_INC cc = ucast (cwnd_inc cc)"

text \<open>The branch of slow start: the next window, then its cap.\<close>

definition vegas_slow_start_window ::
    "cc_globals \<Rightarrow> congestion_control_t \<Rightarrow> u64 \<Rightarrow> (cc_globals \<times> congestion_control_t) option" where
  "vegas_slow_start_window g cc queue_use =
     (if queue_use < ucast (gamma (vegas_params cc)) \<and> \<not> blocked_chan cc
      then if cwnd_full cc
           then do {
             inc \<leftarrow> rfc3742_ss_inc cc;
             let cc1 = cc\<lparr>cwnd := cwnd cc + inc\<rparr>;
             per_cwnd \<leftarrow> SENDME_PER_CWND cc1;
             if inc * per_cwnd \<le> CWND_INC cc1 * ucast (cwnd_inc_rate cc1)
             then do {
               (g1, cc2) \<leftarrow> congestion_control_vegas_exit_slow_start g cc1;
               Some (stats_update_running_avg ss_csig_blocked_ma 0
                       (g1\<lparr>cc_stats_vegas_below_ss_inc_floor := cc_stats_vegas_below_ss_inc_floor g1 + 1\<rparr>), cc2)
             }
             else Some (g, cc1)
           }
           else Some (g, cc)
      else let old_cwnd = cwnd cc;
               cc1 = cc\<lparr>cwnd := vegas_bdp cc + ucast (gamma (vegas_params cc))\<rparr>;
               cwnd_diff = (if old_cwnd > cwnd cc1 then old_cwnd - cwnd cc1 else 0);
               g1 = (if blocked_chan cc1 then stats_update_running_avg ss_csig_blocked_ma 100 g
                     else stats_update_running_avg gamma_drop_ma cwnd_diff
                            (stats_update_running_avg ss_csig_blocked_ma 0 g))
           in congestion_control_vegas_exit_slow_start g1 cc1)"

definition vegas_slow_start_cap ::
    "cc_globals \<Rightarrow> congestion_control_t \<Rightarrow> (cc_globals \<times> congestion_control_t) option" where
  "vegas_slow_start_cap g cc =
     (if cwnd cc \<ge> ucast (ss_cwnd_max (vegas_params cc))
      then do {
        (g1, cc1) \<leftarrow> congestion_control_vegas_exit_slow_start g
                      (cc\<lparr>cwnd := ucast (ss_cwnd_max (vegas_params cc))\<rparr>);
        Some (g1\<lparr>cc_stats_vegas_above_ss_cwnd_max := cc_stats_vegas_above_ss_cwnd_max g1 + 1\<rparr>, cc1)
      }
      else Some (g, cc))"

definition vegas_slow_start ::
    "cc_globals \<Rightarrow> congestion_control_t \<Rightarrow> u64 \<Rightarrow> (cc_globals \<times> congestion_control_t) option" where
  "vegas_slow_start g cc queue_use = do {
     (g1, cc1) \<leftarrow> vegas_slow_start_window g cc queue_use;
     (g2, cc2) \<leftarrow> vegas_slow_start_cap g1 cc1;
     Some (stats_update_running_avg ss_queue_ma queue_use g2, cc2)
   }"

text \<open>The three percentage averages are always updated in the order alpha, beta, delta.\<close>

definition csig_samples :: "u64 \<Rightarrow> u64 \<Rightarrow> u64 \<Rightarrow> cc_globals \<Rightarrow> cc_globals" where
  "csig_samples a b d g = stats_update_running_avg csig_delta_ma d
     (stats_update_running_avg csig_beta_ma b (stats_update_running_avg csig_alpha_ma a g))"

text \<open>The branch of the steady state, once per update interval.\<close>

definition vegas_steady_state ::
    "cc_globals \<Rightarrow> congestion_control_t \<Rightarrow> u64 \<Rightarrow> (cc_globals \<times> congestion_control_t) option" where
  "vegas_steady_state g cc queue_use = do {
     let (g1, cc1) =
       (if queue_use > ucast (delta (vegas_params cc))
        then let old_cwnd = cwnd cc;
                 cc1 = cc\<lparr>cwnd := vegas_bdp cc + ucast (delta (vegas_params cc)) - CWND_INC cc\<rparr>;
                 cwnd_diff = (if old_cwnd > cwnd cc1 then old_cwnd - cwnd cc1 else 0);
                 g0 = stats_update_running_avg delta_drop_ma cwnd_diff g
             in (csig_samples 0 0 100 (g0\<lparr>cc_stats_vegas_above_delta := cc_stats_vegas_above_delta g0 + 1\<rparr>), cc1)
        else if queue_use > ucast (beta (vegas_params cc)) \<or> blocked_chan cc
        then let cc1 = cc\<lparr>cwnd := cwnd cc - CWND_INC cc\<rparr>
             in (csig_samples 0 100 0
                   (stats_update_running_avg csig_blocked_ma (if blocked_chan cc1 then 100 else 0) g), cc1)
        else if cwnd_full cc \<and> queue_use < ucast (alpha (vegas_params cc))
        then (csig_samples 100 0 0 g, cc\<lparr>cwnd := cwnd cc + CWND_INC cc\<rparr>)
        else (csig_samples 0 0 0 g, cc));
     let cc2 = cc1\<lparr>cwnd := max (cwnd cc1) (ucast (cwnd_min cc1))\<rparr>;
     congestion_control_vegas_log g1 cc2;
     Some (stats_update_running_avg bdp_ma (vegas_bdp cc2) (stats_update_running_avg queue_ma queue_use g1), cc2)
   }"

text \<open>What happens after the estimates of the SENDME were updated: the full flag, the phase, and
  the event counters.\<close>

definition vegas_full :: "cc_globals \<Rightarrow> congestion_control_t \<Rightarrow> congestion_control_t" where
  "vegas_full g cc =
     (if cwnd_became_full g cc then cc\<lparr>cwnd_full := True\<rparr>
      else if cwnd_became_nonfull g cc then cc\<lparr>cwnd_full := False\<rparr> else cc)"

definition vegas_phase ::
    "cc_globals \<Rightarrow> congestion_control_t \<Rightarrow> u64 \<Rightarrow> (cc_globals \<times> congestion_control_t) option" where
  "vegas_phase g cc queue_use =
     (if in_slow_start cc then vegas_slow_start g cc queue_use
      else if next_cc_event cc = 0 then vegas_steady_state g cc queue_use
      else Some (g, cc))"

definition vegas_reset_events :: "cc_globals \<Rightarrow> congestion_control_t \<Rightarrow> congestion_control_t option" where
  "vegas_reset_events g cc = do {
     cc1 \<leftarrow> (if next_cwnd_event cc = 0
            then map_option (\<lambda>n. cc\<lparr>next_cwnd_event := ucast n\<rparr>) (SENDME_PER_CWND cc) else Some cc);
     cc2 \<leftarrow> (if next_cc_event cc1 = 0
            then map_option (\<lambda>n. cc1\<lparr>next_cc_event := ucast n\<rparr>) (CWND_UPDATE_RATE cc1) else Some cc1);
     reset \<leftarrow> cwnd_full_reset g cc2;
     Some (if reset then cc2\<lparr>cwnd_full := False\<rparr> else cc2)
   }"

definition vegas_queue_use :: "congestion_control_t \<Rightarrow> u64" where
  "vegas_queue_use cc = (if vegas_bdp cc > cwnd cc then 0 else cwnd cc - vegas_bdp cc)"

definition vegas_react ::
    "cc_globals \<Rightarrow> congestion_control_t \<Rightarrow> (cc_globals \<times> congestion_control_t) option" where
  "vegas_react g cc = do {
     let queue_use = vegas_queue_use cc;
     let cc1 = vegas_full g cc;
     (g2, cc2) \<leftarrow> vegas_phase g cc1 queue_use;
     cc3 \<leftarrow> vegas_reset_events g2 cc2;
     Some (g2, cc3\<lparr>inflight := inflight cc3 - ucast (sendme_inc cc3)\<rparr>)
   }"

definition vegas_tick :: "congestion_control_t \<Rightarrow> congestion_control_t" where
  "vegas_tick cc =
     (let cc1 = (if next_cc_event cc \<noteq> 0 then cc\<lparr>next_cc_event := next_cc_event cc - 1\<rparr> else cc)
      in if next_cwnd_event cc1 \<noteq> 0 then cc1\<lparr>next_cwnd_event := next_cwnd_event cc1 - 1\<rparr> else cc1)"

definition congestion_control_vegas_process_sendme ::
    "cc_globals \<Rightarrow> congestion_control_t \<Rightarrow> circuit_t \<Rightarrow> u64
      \<Rightarrow> (int \<times> cc_globals \<times> congestion_control_t) option" where
  "congestion_control_vegas_process_sendme g cc circ now =
     (if cc_alg cc \<noteq> CC_ALG_VEGAS then None
      else do {
        (updated, g1, cc1) \<leftarrow> congestion_control_update_circuit_estimates g (vegas_tick cc) circ now;
        if \<not> updated then Some (0, g1, cc1\<lparr>inflight := inflight cc1 - ucast (sendme_inc cc1)\<rparr>)
        else do {
          (g2, cc2) \<leftarrow> vegas_react g1 cc1;
          Some (0, g2, cc2)
        }
      })"

section \<open>Where the window goes\<close>

lemma exit_slow_start_result:
  "congestion_control_vegas_exit_slow_start g cc = Some (g', cc') \<Longrightarrow> cc' = cc\<lparr>in_slow_start := False\<rparr>"
  by (auto simp: congestion_control_vegas_exit_slow_start_def Let_def split: bind_splits)

text \<open>The target of slow start before the cap.\<close>

definition slow_start_target :: "congestion_control_t \<Rightarrow> u64 \<Rightarrow> u64" where
  "slow_start_target cc queue_use =
     (if queue_use < ucast (gamma (vegas_params cc)) \<and> \<not> blocked_chan cc
      then (if cwnd_full cc then cwnd cc + the (rfc3742_ss_inc cc) else cwnd cc)
      else vegas_bdp cc + ucast (gamma (vegas_params cc)))"

lemma slow_start_window_result:
  assumes "vegas_slow_start_window g cc q = Some (g', cc')"
  obtains b where "cc' = cc\<lparr>cwnd := slow_start_target cc q, in_slow_start := b\<rparr>"
proof (cases "q < ucast (gamma (vegas_params cc)) \<and> \<not> blocked_chan cc")
  case False
  then have "cc' = cc\<lparr>cwnd := slow_start_target cc q, in_slow_start := False\<rparr>"
    using assms by (auto simp: vegas_slow_start_window_def slow_start_target_def Let_def
        dest!: exit_slow_start_result split: if_splits)
  then show thesis by (rule that)
next
  case True
  show thesis
  proof (cases "cwnd_full cc")
    case False
    then have "cc' = cc\<lparr>cwnd := slow_start_target cc q, in_slow_start := in_slow_start cc\<rparr>"
      using assms True by (auto simp: vegas_slow_start_window_def slow_start_target_def)
    then show thesis by (rule that)
  next
    case full: True
    then have "cc' = cc\<lparr>cwnd := slow_start_target cc q, in_slow_start := False\<rparr> \<or>
        cc' = cc\<lparr>cwnd := slow_start_target cc q, in_slow_start := in_slow_start cc\<rparr>"
      using assms True
      by (auto simp: vegas_slow_start_window_def slow_start_target_def Let_def
          dest!: exit_slow_start_result split: bind_splits if_splits)
    then show thesis by (elim disjE) (erule that)+
  qed
qed

lemma slow_start_result:
  assumes "vegas_slow_start g cc q = Some (g', cc')"
  obtains b where "cc' = cc\<lparr>cwnd := min (slow_start_target cc q) (ucast (ss_cwnd_max (vegas_params cc))),
    in_slow_start := b\<rparr>"
proof -
  obtain g1 cc1 g2 where w: "vegas_slow_start_window g cc q = Some (g1, cc1)"
    and c: "vegas_slow_start_cap g1 cc1 = Some (g2, cc')"
    using assms by (auto simp: vegas_slow_start_def split: bind_splits)
  obtain b where cc1: "cc1 = cc\<lparr>cwnd := slow_start_target cc q, in_slow_start := b\<rparr>"
    using w by (rule slow_start_window_result)
  have "cc' = (if cwnd cc1 \<ge> ucast (ss_cwnd_max (vegas_params cc1))
      then cc1\<lparr>cwnd := ucast (ss_cwnd_max (vegas_params cc1)), in_slow_start := False\<rparr> else cc1)"
    using c by (auto simp: vegas_slow_start_cap_def dest: exit_slow_start_result split: bind_splits if_splits)
  then have "cc' = cc\<lparr>cwnd := min (slow_start_target cc q) (ucast (ss_cwnd_max (vegas_params cc))),
      in_slow_start := (b \<and> \<not> cwnd cc1 \<ge> ucast (ss_cwnd_max (vegas_params cc1)))\<rparr>"
    by (simp add: cc1 min_def)
  then show thesis by (rule that)
qed

text \<open>The target of the steady state before the floor.\<close>

definition steady_target :: "congestion_control_t \<Rightarrow> u64 \<Rightarrow> u64" where
  "steady_target cc queue_use =
     (if queue_use > ucast (delta (vegas_params cc))
      then vegas_bdp cc + ucast (delta (vegas_params cc)) - CWND_INC cc
      else if queue_use > ucast (beta (vegas_params cc)) \<or> blocked_chan cc then cwnd cc - CWND_INC cc
      else if cwnd_full cc \<and> queue_use < ucast (alpha (vegas_params cc)) then cwnd cc + CWND_INC cc
      else cwnd cc)"

lemma steady_state_result:
  assumes "vegas_steady_state g cc q = Some (g', cc')"
  shows "cc' = cc\<lparr>cwnd := max (steady_target cc q) (ucast (cwnd_min cc))\<rparr>"
  using assms
  by (auto simp: vegas_steady_state_def steady_target_def Let_def split: bind_splits if_splits)


lemma vegas_full_result: "\<exists>f. vegas_full g cc = cc\<lparr>cwnd_full := f\<rparr>"
proof -
  have "vegas_full g cc = cc\<lparr>cwnd_full := if cwnd_became_full g cc then True
      else if cwnd_became_nonfull g cc then False else cwnd_full cc\<rparr>"
    by (simp add: vegas_full_def)
  then show ?thesis by (rule exI)
qed

lemma reset_events_result:
  assumes "vegas_reset_events g cc = Some cc'"
  obtains a b f where "cc' = cc\<lparr>next_cwnd_event := a, next_cc_event := b, cwnd_full := f\<rparr>"
proof -
  obtain cc1 cc2 r where cc1: "(if next_cwnd_event cc = 0
        then map_option (\<lambda>n. cc\<lparr>next_cwnd_event := ucast n\<rparr>) (SENDME_PER_CWND cc) else Some cc) = Some cc1"
    and cc2: "(if next_cc_event cc1 = 0
        then map_option (\<lambda>n. cc1\<lparr>next_cc_event := ucast n\<rparr>) (CWND_UPDATE_RATE cc1) else Some cc1) = Some cc2"
    and cc': "cc' = (if r then cc2\<lparr>cwnd_full := False\<rparr> else cc2)"
    using assms by (auto simp: vegas_reset_events_def split: bind_splits)
  have "cc1 = cc\<lparr>next_cwnd_event := next_cwnd_event cc1\<rparr>" using cc1 by (auto split: if_splits)
  moreover have "cc2 = cc1\<lparr>next_cc_event := next_cc_event cc2\<rparr>" using cc2 by (auto split: if_splits)
  moreover have "cc' = cc2\<lparr>cwnd_full := (if r then False else cwnd_full cc2)\<rparr>" using cc' by simp
  ultimately have "cc' = cc\<lparr>next_cwnd_event := next_cwnd_event cc1, next_cc_event := next_cc_event cc2,
      cwnd_full := (if r then False else cwnd_full cc2)\<rparr>"
    by metis
  then show thesis by (rule that)
qed

lemma react_result:
  assumes "vegas_react g cc = Some (g', cc')"
  obtains f g2 cc2 where
    "vegas_phase g (cc\<lparr>cwnd_full := f\<rparr>) (vegas_queue_use cc) = Some (g2, cc2)"
    and "cwnd cc' = cwnd cc2" and "in_slow_start cc' = in_slow_start cc2"
    and "inflight cc' = inflight cc2 - ucast (sendme_inc cc2)" and "same_config cc2 cc'"
    and "sendme_pending_timestamps cc' = sendme_pending_timestamps cc2" and "bdp cc' = bdp cc2"
proof -
  obtain f where f: "vegas_full g cc = cc\<lparr>cwnd_full := f\<rparr>" using vegas_full_result by blast
  obtain g2 cc2 cc3 where p: "vegas_phase g (cc\<lparr>cwnd_full := f\<rparr>) (vegas_queue_use cc) = Some (g2, cc2)"
    and r: "vegas_reset_events g2 cc2 = Some cc3"
    and cc': "cc' = cc3\<lparr>inflight := inflight cc3 - ucast (sendme_inc cc3)\<rparr>"
    using assms by (auto simp: vegas_react_def Let_def f split: bind_splits)
  obtain a b h where "cc3 = cc2\<lparr>next_cwnd_event := a, next_cc_event := b, cwnd_full := h\<rparr>"
    using r by (rule reset_events_result)
  then show thesis using p cc' by (intro that [OF p]) (simp_all add: same_config_def)
qed

lemma phase_result:
  assumes "vegas_phase g cc q = Some (g', cc')"
  shows "same_config cc cc'" and "inflight cc' = inflight cc"
    and "sendme_pending_timestamps cc' = sendme_pending_timestamps cc" and "bdp cc' = bdp cc"
    and "in_slow_start cc' \<Longrightarrow> in_slow_start cc"
    and "cwnd cc' = (if in_slow_start cc then min (slow_start_target cc q) (ucast (ss_cwnd_max (vegas_params cc)))
      else if next_cc_event cc = 0 then max (steady_target cc q) (ucast (cwnd_min cc)) else cwnd cc)"
proof -
  consider (ss) "in_slow_start cc" "vegas_slow_start g cc q = Some (g', cc')"
    | (steady) "\<not> in_slow_start cc" "next_cc_event cc = 0" "vegas_steady_state g cc q = Some (g', cc')"
    | (idle) "\<not> in_slow_start cc" "next_cc_event cc \<noteq> 0" "cc' = cc"
    using assms by (auto simp: vegas_phase_def split: if_splits)
  then have "same_config cc cc' \<and> inflight cc' = inflight cc \<and>
    sendme_pending_timestamps cc' = sendme_pending_timestamps cc \<and> bdp cc' = bdp cc \<and>
    (in_slow_start cc' \<longrightarrow> in_slow_start cc) \<and>
    cwnd cc' = (if in_slow_start cc then min (slow_start_target cc q) (ucast (ss_cwnd_max (vegas_params cc)))
      else if next_cc_event cc = 0 then max (steady_target cc q) (ucast (cwnd_min cc)) else cwnd cc)"
  proof cases
    case ss
    from ss(2) obtain b where "cc' = cc\<lparr>cwnd := min (slow_start_target cc q)
        (ucast (ss_cwnd_max (vegas_params cc))), in_slow_start := b\<rparr>"
      by (rule slow_start_result)
    then show ?thesis using ss by (simp add: same_config_def)
  next
    case steady
    then show ?thesis using steady_state_result [OF steady(3)] by (simp add: same_config_def)
  next
    case idle
    then show ?thesis by simp
  qed
  then show "same_config cc cc'" and "inflight cc' = inflight cc"
    and "sendme_pending_timestamps cc' = sendme_pending_timestamps cc" and "bdp cc' = bdp cc"
    and "in_slow_start cc' \<Longrightarrow> in_slow_start cc"
    and "cwnd cc' = (if in_slow_start cc then min (slow_start_target cc q) (ucast (ss_cwnd_max (vegas_params cc)))
      else if next_cc_event cc = 0 then max (steady_target cc q) (ucast (cwnd_min cc)) else cwnd cc)"
    by blast+
qed
definition vegas_params_ok :: "congestion_control_t \<Rightarrow> bool" where
  "vegas_params_ok cc \<longleftrightarrow> unat (cwnd_inc cc) \<le> unat (cwnd_min cc) \<and>
     unat (cwnd_inc cc) \<le> unat (delta (vegas_params cc)) \<and>
     unat (cwnd_min cc) \<le> unat (gamma (vegas_params cc)) \<and>
     unat (cwnd_min cc) \<le> unat (ss_cwnd_max (vegas_params cc))"

lemma ucast_unat [simp]:
  "unat (ucast (w8 :: u8) :: u64) = unat w8" "unat (ucast (w16 :: u16) :: u64) = unat w16"
  "unat (ucast (w32 :: u32) :: u64) = unat w32"
  by (simp_all add: u_simps)

lemma rfc_inc_some:
  assumes "unat (cwnd cc) < 2 ^ 62"
  shows "\<exists>inc. rfc3742_ss_inc cc = Some inc \<and> unat inc < 2 ^ 42"
proof (cases "cwnd cc \<le> ucast (ss_cwnd_cap (vegas_params cc))")
  case True
  have p: "unat (cwnd_inc_pct_ss cc) * unat (sendme_inc cc) \<le> 65535 * 255"
    using unat_le16 by (intro mult_le_mono) simp_all
  then have m: "unat (ucast (cwnd_inc_pct_ss cc) * ucast (sendme_inc cc) :: u64) =
      unat (cwnd_inc_pct_ss cc) * unat (sendme_inc cc)"
    by (subst unat_mult_id) simp_all
  have "unat (ucast (cwnd_inc_pct_ss cc) * ucast (sendme_inc cc) + 50 :: u64) \<le> 65535 * 255 + 50"
    using p m by (subst unat_add_id) simp_all
  from div_le_mono [OF this, of 100] show ?thesis
    using True by (simp add: rfc3742_ss_inc_def unat_div_distrib)
next
  case False
  let ?cap = "ss_cwnd_cap (vegas_params cc)"
  have pos: "0 < unat (cwnd cc)" using False by (auto simp: word_le_nat_alt)
  have two: "unat (2 * cwnd cc) = 2 * unat (cwnd cc)"
    using assms by (subst unat_mult_id) simp_all
  have nz: "2 * cwnd cc \<noteq> 0" using two pos by auto
  have p: "unat (sendme_inc cc) * unat ?cap \<le> 255 * 4294967295"
    using unat_le32 [of ?cap] by (intro mult_le_mono) auto
  then have m: "unat (ucast (sendme_inc cc) * ucast ?cap :: u64) = unat (sendme_inc cc) * unat ?cap"
    by (subst unat_mult_id) simp_all
  let ?n = "ucast (sendme_inc cc) * ucast ?cap + cwnd cc :: u64"
  have n: "unat ?n = unat (sendme_inc cc) * unat ?cap + unat (cwnd cc)"
    using p assms m by (subst unat_add_id) simp_all
  have "255 * 4294967295 * 1 \<le> 255 * 4294967295 * unat (cwnd cc)"
    using pos by (intro mult_le_mono) simp_all
  then have "unat ?n \<le> (255 * 4294967295 + 1) * (2 * unat (cwnd cc))"
    using n p by simp
  from div_le_mono [OF this, of "2 * unat (cwnd cc)"]
  have "unat (?n div (2 * cwnd cc)) \<le> 255 * 4294967295 + 1"
    using pos by (simp add: unat_div_distrib two)
  then show ?thesis
    using False nz by (simp add: rfc3742_ss_inc_def unat_max)
qed

lemma slow_start_target_floor:
  assumes "vegas_params_ok cc" and "unat (cwnd_min cc) \<le> unat (cwnd cc)" and "unat (cwnd cc) < 2 ^ 62"
    and "unat (bdp cc) < 2 ^ 63"
  shows "unat (cwnd_min cc) \<le> unat (slow_start_target cc q)"
proof -
  obtain inc where inc: "rfc3742_ss_inc cc = Some inc" "unat inc < 2 ^ 42"
    using rfc_inc_some [OF assms(3)] by blast
  have "unat (cwnd cc + inc) = unat (cwnd cc) + unat inc"
    using inc assms(3) by (subst unat_add_id) simp_all
  moreover have "unat (bdp cc + ucast (gamma (vegas_params cc))) = unat (bdp cc) + unat (gamma (vegas_params cc))"
    using assms(4) unat_le16 [of "gamma (vegas_params cc)"] by (subst unat_add_id) simp_all
  ultimately show ?thesis
    using assms inc by (auto simp: slow_start_target_def vegas_bdp_def vegas_params_ok_def)
qed

lemma queue_use_nat: "bdp cc \<le> cwnd cc \<Longrightarrow> unat (vegas_queue_use cc) = unat (cwnd cc) - unat (bdp cc)"
  by (auto simp: vegas_queue_use_def vegas_bdp_def unat_sub not_less)

lemma steady_target_ceiling:
  assumes "vegas_params_ok cc" and "unat (cwnd_min cc) \<le> unat (cwnd cc)" and "unat (cwnd cc) < 2 ^ 62"
    and "unat (bdp cc) < 2 ^ 63" and "q = vegas_queue_use cc"
  shows "unat (steady_target cc q) \<le> unat (cwnd cc) + unat (cwnd_inc cc)"
proof -
  let ?d = "delta (vegas_params cc)"
  have inc: "unat (CWND_INC cc) = unat (cwnd_inc cc)" by (simp add: CWND_INC_def)
  have up: "unat (cwnd cc + CWND_INC cc) = unat (cwnd cc) + unat (cwnd_inc cc)"
    using assms(3) inc unat_le16 [of "cwnd_inc cc"] by (subst unat_add_id) simp_all
  have down: "unat (cwnd cc - CWND_INC cc) = unat (cwnd cc) - unat (cwnd_inc cc)"
    using assms(1,2) inc by (subst unat_sub) (simp_all add: word_le_nat_alt vegas_params_ok_def)
  have "unat (bdp cc + ucast ?d - CWND_INC cc) \<le> unat (cwnd cc) + unat (cwnd_inc cc)" if "q > ucast ?d"
  proof -
    have le: "bdp cc \<le> cwnd cc"
      using that assms(5) by (auto simp: vegas_queue_use_def vegas_bdp_def split: if_splits)
    then have lt: "unat (bdp cc) + unat ?d < unat (cwnd cc)"
      using that assms(5) queue_use_nat [OF le] by (simp add: word_less_nat_alt less_diff_conv add.commute)
    have sum: "unat (bdp cc + ucast ?d) = unat (bdp cc) + unat ?d"
      using assms(4) unat_le16 [of ?d] by (subst unat_add_id) simp_all
    have "unat (bdp cc + ucast ?d - CWND_INC cc) = unat (bdp cc) + unat ?d - unat (cwnd_inc cc)"
      using assms(1) inc sum by (subst unat_sub) (simp_all add: word_le_nat_alt vegas_params_ok_def)
    then show ?thesis using lt by simp
  qed
  then show ?thesis
    using up down by (auto simp: steady_target_def vegas_bdp_def)
qed

lemma process_split:
  assumes "congestion_control_vegas_process_sendme g cc circ now = Some (r, g', cc')"
  obtains (skipped) cc1 where "congestion_control_update_circuit_estimates g (vegas_tick cc) circ now = Some (False, g', cc1)"
      and "cc' = cc1\<lparr>inflight := inflight cc1 - ucast (sendme_inc cc1)\<rparr>" and "r = 0"
  | (reacted) g1 cc1 where "congestion_control_update_circuit_estimates g (vegas_tick cc) circ now = Some (True, g1, cc1)"
      and "vegas_react g1 cc1 = Some (g', cc')" and "r = 0"
  using assms
  by (auto simp: congestion_control_vegas_process_sendme_def split: if_splits bind_splits)

lemma vegas_tick_frame [simp]:
  "cwnd (vegas_tick cc) = cwnd cc" "inflight (vegas_tick cc) = inflight cc" "same_config cc (vegas_tick cc)"
  "in_slow_start (vegas_tick cc) = in_slow_start cc"
  "sendme_pending_timestamps (vegas_tick cc) = sendme_pending_timestamps cc"
  by (simp_all add: vegas_tick_def same_config_def Let_def)

text \<open>What every processed SENDME does, whatever the window does.\<close>

lemma process_frame:
  assumes "congestion_control_vegas_process_sendme g cc circ now = Some (r, g', cc')"
  shows "r = 0" and "same_config cc cc'" and "inflight cc' = inflight cc - ucast (sendme_inc cc)"
    and "sendme_pending_timestamps cc' = tl (sendme_pending_timestamps cc)"
    and "in_slow_start cc' \<Longrightarrow> in_slow_start cc"
proof -
  have "r = 0 \<and> same_config cc cc' \<and> inflight cc' = inflight cc - ucast (sendme_inc cc) \<and>
    sendme_pending_timestamps cc' = tl (sendme_pending_timestamps cc) \<and> (in_slow_start cc' \<longrightarrow> in_slow_start cc)"
    using assms
  proof (cases rule: process_split)
    case (skipped cc1)
    then show ?thesis
      using estimates_frame [OF skipped(1)] by (simp add: same_config_def same_window_def vegas_tick_def Let_def)
  next
    case (reacted g1 cc1)
    note e = estimates_frame [OF reacted(1)]
    from reacted(2) obtain f g2 cc2 where
      p: "vegas_phase g1 (cc1\<lparr>cwnd_full := f\<rparr>) (vegas_queue_use cc1) = Some (g2, cc2)"
      and q: "in_slow_start cc' = in_slow_start cc2" "inflight cc' = inflight cc2 - ucast (sendme_inc cc2)"
        "same_config cc2 cc'" "sendme_pending_timestamps cc' = sendme_pending_timestamps cc2"
      by (rule react_result) blast
    then show ?thesis
      using e phase_result [OF p] reacted(3) by (auto simp: same_config_def same_window_def vegas_tick_def Let_def)
  qed
  then show "r = 0" and "same_config cc cc'" and "inflight cc' = inflight cc - ucast (sendme_inc cc)"
    and "sendme_pending_timestamps cc' = tl (sendme_pending_timestamps cc)"
    and "in_slow_start cc' \<Longrightarrow> in_slow_start cc"
    by blast+
qed
section \<open>Properties\<close>

text \<open>
  C9. The congestion window stays in its bounds. With parameters that fit each other (the step is
  at most the smallest window and \<open>delta\<close>, the smallest window is at most \<open>gamma\<close> and the
  slow start maximum), a processed SENDME never brings the window below \<open>cwnd_min\<close>; in slow
  start it ends at most at \<open>ss_cwnd_max\<close> or where it was, afterwards it grows by at most
  \<open>cwnd_inc\<close>; slow start is never entered again; exactly one increment leaves the cells in
  flight.
\<close>

theorem vegas_window_bounds:
  assumes proc: "congestion_control_vegas_process_sendme g cc circ now = Some (r, g', cc')"
    and ok: "vegas_params_ok cc" and lo: "unat (cwnd_min cc) \<le> unat (cwnd cc)"
    and hi: "unat (cwnd cc) < 2 ^ 62" and est: "unat (bdp cc') < 2 ^ 63"
  shows "unat (cwnd_min cc') \<le> unat (cwnd cc') \<and>
    unat (cwnd cc') \<le> (if in_slow_start cc then max (unat (cwnd cc)) (unat (ss_cwnd_max (vegas_params cc)))
                       else unat (cwnd cc) + unat (cwnd_inc cc)) \<and>
    (in_slow_start cc' \<longrightarrow> in_slow_start cc) \<and>
    inflight cc' = inflight cc - ucast (sendme_inc cc) \<and> vegas_params_ok cc'"
proof -
  note fr = process_frame [OF proc]
  have "unat (cwnd_min cc) \<le> unat (cwnd cc') \<and>
    unat (cwnd cc') \<le> (if in_slow_start cc then max (unat (cwnd cc)) (unat (ss_cwnd_max (vegas_params cc)))
                       else unat (cwnd cc) + unat (cwnd_inc cc))"
    using proc
  proof (cases rule: process_split)
    case (skipped cc1)
    then have "cwnd cc' = cwnd cc" using estimates_frame [OF skipped(1)] by (simp add: same_window_def)
    then show ?thesis using lo by simp
  next
    case (reacted g1 cc1)
    note e = estimates_frame [OF reacted(1)]
    from reacted(2) obtain f g2 cc2 where
      p: "vegas_phase g1 (cc1\<lparr>cwnd_full := f\<rparr>) (vegas_queue_use cc1) = Some (g2, cc2)"
      and q: "cwnd cc' = cwnd cc2" "bdp cc' = bdp cc2"
      by (rule react_result) blast
    let ?cc = "cc1\<lparr>cwnd_full := f\<rparr>"
    have c: "vegas_params ?cc = vegas_params cc" "cwnd_min ?cc = cwnd_min cc" "cwnd ?cc = cwnd cc"
        "in_slow_start ?cc = in_slow_start cc" "cwnd_inc ?cc = cwnd_inc cc"
      using e by (simp_all add: same_config_def same_window_def vegas_tick_def Let_def)
    have "unat (bdp ?cc) < 2 ^ 63" using phase_result(4) [OF p] q est by simp
    then have b: "unat (cwnd_min cc) \<le> unat (slow_start_target ?cc x)"
        "unat (steady_target ?cc (vegas_queue_use ?cc)) \<le> unat (cwnd cc) + unat (cwnd_inc cc)" for x
      using slow_start_target_floor [of ?cc] steady_target_ceiling [of ?cc] ok lo hi c
      by (simp_all add: vegas_params_ok_def)
    have "vegas_queue_use ?cc = vegas_queue_use cc1" by (simp add: vegas_queue_use_def vegas_bdp_def)
    then show ?thesis
      using phase_result(6) [OF p] q b c ok lo by (auto simp: unat_min unat_max vegas_params_ok_def)
  qed
  then show ?thesis
    using fr ok by (simp add: same_config_def vegas_params_ok_def)
qed

theorem vegas_window_bounds_witness:
  "\<exists>r g' cc'. congestion_control_vegas_process_sendme (cc_globals_init False False) example_cc example_circ 1600 = Some (r, g', cc') \<and>
    124 \<le> unat (cwnd cc') \<and> unat (cwnd cc') \<le> 201 \<and> \<not> in_slow_start cc' \<and> inflight cc' = 39"
proof -
  let ?p = "congestion_control_vegas_process_sendme (cc_globals_init False False) example_cc example_circ 1600"
  have "map_option (\<lambda>(r, g', cc'). (bdp cc', cwnd_min cc')) ?p = Some (141, 124)" by code_simp
  then obtain r g' cc' where p: "?p = Some (r, g', cc')" and b: "bdp cc' = 141" and m: "cwnd_min cc' = 124"
    by (cases ?p) auto
  have e: "vegas_params_ok example_cc" "cwnd example_cc = 200" "cwnd_min example_cc = 124" "cwnd_inc example_cc = 1"
    "\<not> in_slow_start example_cc" "inflight example_cc = 70" "sendme_inc example_cc = 31"
    by (simp_all add: vegas_params_ok_def example_cc_def)
  have "124 \<le> unat (cwnd cc') \<and> unat (cwnd cc') \<le> 201 \<and> \<not> in_slow_start cc' \<and> inflight cc' = 39"
    using vegas_window_bounds [OF p e(1)] by (simp add: e(2-) b m)
  with p show ?thesis by blast
qed

section \<open>Nothing aborts\<close>

lemma CWND_UPDATE_RATE_some:
  assumes "sendme_inc cc \<noteq> 0" and "cwnd_inc_rate cc \<noteq> 0"
  shows "\<exists>n. CWND_UPDATE_RATE cc = Some n"
proof -
  have pos: "0 < unat (cwnd_inc_rate cc) * unat (sendme_inc cc)"
    using assms by (simp add: unat_gt_0)
  have le: "unat (cwnd_inc_rate cc) * unat (sendme_inc cc) \<le> 255 * 255"
    by (intro mult_le_mono) simp_all
  have "unat (ucast (cwnd_inc_rate cc) * ucast (sendme_inc cc) :: u64) =
      unat (cwnd_inc_rate cc) * unat (sendme_inc cc)"
    using le by (subst unat_mult_id) simp_all
  then have "ucast (cwnd_inc_rate cc) * ucast (sendme_inc cc) \<noteq> (0 :: u64)"
    using pos by (metis less_irrefl unat_0)
  then show ?thesis by (simp add: CWND_UPDATE_RATE_def Let_def)
qed

lemma SENDME_PER_CWND_some: "sendme_inc cc \<noteq> 0 \<Longrightarrow> \<exists>n. SENDME_PER_CWND cc = Some n"
proof -
  assume "sendme_inc cc \<noteq> 0"
  then have "ucast (sendme_inc cc) \<noteq> (0 :: u64)"
    by (metis ucast_unat(1) unat_0 unat_eq_0)
  then show ?thesis by (simp add: SENDME_PER_CWND_def)
qed

lemma estimates_some:
  assumes "sendme_inc cc \<noteq> 0" and "cwnd_inc_rate cc \<noteq> 0"
  shows "\<exists>x. congestion_control_update_circuit_estimates g cc circ now = Some x"
proof -
  obtain sent rest where d: "dequeue_timestamp (sendme_pending_timestamps cc) = (sent, rest)"
    by (cases "dequeue_timestamp (sendme_pending_timestamps cc)")
  let ?cc = "cc\<lparr>sendme_pending_timestamps := rest\<rparr>"
  obtain st g1 where st: "time_delta_stalled_or_jumped g ?cc (ewma_rtt_usec cc) (now - sent) = (st, g1)"
    by (cases "time_delta_stalled_or_jumped g ?cc (ewma_rtt_usec cc) (now - sent)")
  obtain n where n: "n_ewma_count g1 ?cc = Some n"
    using CWND_UPDATE_RATE_some [of ?cc] assms by (cases "in_slow_start cc") (auto simp: n_ewma_count_def)
  have "unat (n + 1) = unat n + 1"
    using n_ewma_count_range(2) [OF n] by (subst unat_add_id) simp_all
  then have "n + 1 \<noteq> 0" by (metis add_is_0 unat_0 zero_neq_one)
  then obtain e where "n_count_ewma (now - sent) (ewma_rtt_usec cc) n = Some e"
    by (cases "ewma_rtt_usec cc = 0") (auto simp: n_count_ewma_def)
  then have "congestion_control_update_circuit_rtt g cc now \<noteq> None"
    using st n by (simp add: congestion_control_update_circuit_rtt_def d Let_def)
  then have "congestion_control_update_circuit_estimates g cc circ now \<noteq> None"
    by (auto simp: congestion_control_update_circuit_estimates_def split: prod.split)
  then show ?thesis by blast
qed

lemma log_enabled_frame [simp]:
  "log_info_enabled (stats_update_running_avg m v g) = log_info_enabled g"
  "log_info_enabled (csig_samples a b d g) = log_info_enabled g"
  by (simp_all add: csig_samples_def stats_update_running_avg_def)

lemma log_off [simp]: "\<not> log_info_enabled g \<Longrightarrow> congestion_control_vegas_log g cc = Some ()"
  by (simp add: congestion_control_vegas_log_def)

lemma exit_slow_start_some:
  assumes "\<not> log_info_enabled g" and "rfc3742_ss_inc cc \<noteq> None"
  obtains g' where "congestion_control_vegas_exit_slow_start g cc = Some (g', cc\<lparr>in_slow_start := False\<rparr>)"
    and "\<not> log_info_enabled g'"
proof -
  have "rfc3742_ss_inc (cc\<lparr>in_slow_start := False\<rparr>) = rfc3742_ss_inc cc"
    by (simp add: rfc3742_ss_inc_def)
  then obtain inc where "rfc3742_ss_inc (cc\<lparr>in_slow_start := False\<rparr>) = Some inc"
    using assms(2) by auto
  then have "congestion_control_vegas_exit_slow_start g cc =
      Some ((stats_update_running_avg exit_ss_inc_ma inc
                (stats_update_running_avg exit_ss_bdp_ma (vegas_bdp cc)
                  (stats_update_running_avg exit_ss_cwnd_ma (cwnd cc) g)))
        \<lparr>cc_stats_vegas_circ_exited_ss := cc_stats_vegas_circ_exited_ss (stats_update_running_avg exit_ss_inc_ma inc
                (stats_update_running_avg exit_ss_bdp_ma (vegas_bdp cc)
                  (stats_update_running_avg exit_ss_cwnd_ma (cwnd cc) g))) + 1\<rparr>, cc\<lparr>in_slow_start := False\<rparr>)"
    using assms(1) by (simp add: congestion_control_vegas_exit_slow_start_def Let_def vegas_bdp_def)
  then show thesis
    by (rule that) (simp add: assms(1))
qed

text \<open>The increment of slow start exists for every window but \<open>2 ^ 63\<close>.\<close>

lemma rfc_inc_none: "rfc3742_ss_inc cc = None \<Longrightarrow> unat (cwnd cc) = 2 ^ 63"
proof -
  assume "rfc3742_ss_inc cc = None"
  then have z: "2 * cwnd cc = 0" and nz: "cwnd cc \<noteq> 0"
    by (auto simp: rfc3742_ss_inc_def cdiv_def split: if_splits)
  have "2 * unat (cwnd cc) mod 2 ^ 64 = 0"
    using arg_cong [OF z, of unat] by (simp add: unat_word_ariths)
  then obtain k where k: "2 * unat (cwnd cc) = 2 ^ 64 * k" by auto
  moreover have "0 < unat (cwnd cc)" using nz by (simp add: unat_gt_0)
  ultimately have "0 < k" by (intro gr0I) simp
  moreover have "k < 2" using k unat_le64 [of "cwnd cc"] by simp
  ultimately have "k = 1" by simp
  with k show ?thesis by simp
qed

lemma slow_start_some:
  assumes "\<not> log_info_enabled g" and "sendme_inc cc \<noteq> 0" and "unat (cwnd cc) < 2 ^ 62" and "unat (bdp cc) < 2 ^ 62"
  shows "vegas_slow_start g cc q \<noteq> None"
proof -
  obtain inc where inc: "rfc3742_ss_inc cc = Some inc" "unat inc < 2 ^ 42"
    using rfc_inc_some [OF assms(3)] by blast
  have sum: "unat (cwnd cc + inc) = unat (cwnd cc) + unat inc"
    using assms(3) inc(2) by (subst unat_add_id) simp_all
  have gam: "unat (bdp cc + ucast (gamma (vegas_params cc))) = unat (bdp cc) + unat (gamma (vegas_params cc))"
    using assms(4) unat_le16 [of "gamma (vegas_params cc)"] by (subst unat_add_id) simp_all
  have rfc: "rfc3742_ss_inc (cc\<lparr>cwnd := w\<rparr>) \<noteq> None" if "unat w < 2 ^ 63" for w
    using rfc_inc_none [of "cc\<lparr>cwnd := w\<rparr>"] that by auto
  obtain per where per: "SENDME_PER_CWND (cc\<lparr>cwnd := cwnd cc + inc\<rparr>) = Some per"
    using SENDME_PER_CWND_some [of "cc\<lparr>cwnd := cwnd cc + inc\<rparr>"] assms(2) by auto
  obtain g1 where e1: "congestion_control_vegas_exit_slow_start g (cc\<lparr>cwnd := cwnd cc + inc\<rparr>)
      = Some (g1, cc\<lparr>cwnd := cwnd cc + inc, in_slow_start := False\<rparr>)" and l1: "\<not> log_info_enabled g1"
    using exit_slow_start_some [OF assms(1) rfc [of "cwnd cc + inc"]] sum assms(3) inc(2) by auto
  have "\<exists>g1 cc1. vegas_slow_start_window g cc q = Some (g1, cc1) \<and> \<not> log_info_enabled g1"
  proof (cases "q < ucast (gamma (vegas_params cc)) \<and> \<not> blocked_chan cc")
    case True
    then show ?thesis
      using assms(1) inc(1) per e1 l1 by (cases "cwnd_full cc") (simp_all add: vegas_slow_start_window_def Let_def)
  next
    case False
    let ?g = "if blocked_chan cc then stats_update_running_avg ss_csig_blocked_ma 100 g
        else stats_update_running_avg gamma_drop_ma
          (if cwnd cc > vegas_bdp cc + ucast (gamma (vegas_params cc))
           then cwnd cc - (vegas_bdp cc + ucast (gamma (vegas_params cc))) else 0)
          (stats_update_running_avg ss_csig_blocked_ma 0 g)"
    have "\<not> log_info_enabled ?g" using assms(1) by simp
    moreover have "rfc3742_ss_inc (cc\<lparr>cwnd := vegas_bdp cc + ucast (gamma (vegas_params cc))\<rparr>) \<noteq> None"
      using rfc [of "vegas_bdp cc + ucast (gamma (vegas_params cc))"] gam assms(4)
        unat_le16 [of "gamma (vegas_params cc)"] by (simp add: vegas_bdp_def)
    ultimately obtain g1 cc1 where "congestion_control_vegas_exit_slow_start ?g
        (cc\<lparr>cwnd := vegas_bdp cc + ucast (gamma (vegas_params cc))\<rparr>) = Some (g1, cc1)" "\<not> log_info_enabled g1"
      by (rule exit_slow_start_some) blast
    moreover have "vegas_slow_start_window g cc q = congestion_control_vegas_exit_slow_start ?g
        (cc\<lparr>cwnd := vegas_bdp cc + ucast (gamma (vegas_params cc))\<rparr>)"
      unfolding vegas_slow_start_window_def if_not_P [OF False] by (simp add: Let_def)
    ultimately show ?thesis by simp
  qed
  then obtain g1 cc1 where w: "vegas_slow_start_window g cc q = Some (g1, cc1)" "\<not> log_info_enabled g1" by blast
  have "rfc3742_ss_inc (cc1\<lparr>cwnd := ucast (ss_cwnd_max (vegas_params cc1))\<rparr>) \<noteq> None"
    using rfc_inc_none [of "cc1\<lparr>cwnd := ucast (ss_cwnd_max (vegas_params cc1))\<rparr>"]
      unat_le32 [of "ss_cwnd_max (vegas_params cc1)"] by auto
  then obtain g2 cc2 where "congestion_control_vegas_exit_slow_start g1
      (cc1\<lparr>cwnd := ucast (ss_cwnd_max (vegas_params cc1))\<rparr>) = Some (g2, cc2)"
    by (rule exit_slow_start_some [OF w(2)]) blast
  then have "vegas_slow_start_cap g1 cc1 \<noteq> None" by (simp add: vegas_slow_start_cap_def)
  then show ?thesis using w by (auto simp: vegas_slow_start_def)
qed

lemma steady_state_some: "\<not> log_info_enabled g \<Longrightarrow> vegas_steady_state g cc q \<noteq> None"
  by (simp add: vegas_steady_state_def Let_def)


lemma reset_events_some:
  assumes "sendme_inc cc \<noteq> 0" and "cwnd_inc_rate cc \<noteq> 0"
  shows "vegas_reset_events g cc \<noteq> None"
proof -
  obtain cc1 where 1: "(if next_cwnd_event cc = 0
        then map_option (\<lambda>n. cc\<lparr>next_cwnd_event := ucast n\<rparr>) (SENDME_PER_CWND cc) else Some cc) = Some cc1"
    and s1: "sendme_inc cc1 \<noteq> 0 \<and> cwnd_inc_rate cc1 \<noteq> 0"
    using SENDME_PER_CWND_some [OF assms(1)] assms by (cases "next_cwnd_event cc = 0") auto
  obtain cc2 where 2: "(if next_cc_event cc1 = 0
        then map_option (\<lambda>n. cc1\<lparr>next_cc_event := ucast n\<rparr>) (CWND_UPDATE_RATE cc1) else Some cc1) = Some cc2"
    and s2: "sendme_inc cc2 \<noteq> 0 \<and> cwnd_inc_rate cc2 \<noteq> 0"
    using CWND_UPDATE_RATE_some [of cc1] s1 by (cases "next_cc_event cc1 = 0") auto
  have "cwnd_full_reset g cc2 \<noteq> None"
    using SENDME_PER_CWND_some [of cc2] CWND_UPDATE_RATE_some [of cc2] s2 by (auto simp: cwnd_full_reset_def)
  then show ?thesis
    by (auto simp: vegas_reset_events_def 1 2)
qed

lemma react_some:
  assumes "\<not> log_info_enabled g" and "sendme_inc cc \<noteq> 0" and "cwnd_inc_rate cc \<noteq> 0"
    and "unat (cwnd cc) < 2 ^ 62" and "unat (bdp cc) < 2 ^ 62"
  shows "vegas_react g cc \<noteq> None"
proof -
  obtain f where f: "vegas_full g cc = cc\<lparr>cwnd_full := f\<rparr>" using vegas_full_result by blast
  have "vegas_phase g (cc\<lparr>cwnd_full := f\<rparr>) (vegas_queue_use cc) \<noteq> None"
    using assms slow_start_some [of g "cc\<lparr>cwnd_full := f\<rparr>"] steady_state_some [OF assms(1)]
    by (simp add: vegas_phase_def)
  then obtain g2 cc2 where p: "vegas_phase g (cc\<lparr>cwnd_full := f\<rparr>) (vegas_queue_use cc) = Some (g2, cc2)"
    by auto
  have "vegas_reset_events g2 cc2 \<noteq> None"
    using phase_result(1) [OF p] assms(2,3) by (intro reset_events_some) (simp_all add: same_config_def)
  then show ?thesis
    by (auto simp: vegas_react_def f p)
qed

text \<open>
  C10. Processing a SENDME never aborts on a Vegas circuit with a positive increment and update
  rate and a window and a BDP estimate below \<open>2 ^ 62\<close>, as long as informational logging is
  off: none of the divisions by intervals, increments and windows is by zero.
\<close>

theorem vegas_process_sendme_returns:
  assumes "cc_alg cc = CC_ALG_VEGAS" and "\<not> log_info_enabled g"
    and "sendme_inc cc \<noteq> 0" and "cwnd_inc_rate cc \<noteq> 0" and "unat (cwnd cc) < 2 ^ 62"
    and "\<And>u g1 cc1. congestion_control_update_circuit_estimates g (vegas_tick cc) circ now = Some (u, g1, cc1) \<Longrightarrow>
      unat (bdp cc1) < 2 ^ 62"
  shows "\<exists>g' cc'. congestion_control_vegas_process_sendme g cc circ now = Some (0, g', cc')"
proof -
  have tick: "sendme_inc (vegas_tick cc) = sendme_inc cc" "cwnd_inc_rate (vegas_tick cc) = cwnd_inc_rate cc"
    by (simp_all add: vegas_tick_def Let_def)
  obtain u g1 cc1 where e: "congestion_control_update_circuit_estimates g (vegas_tick cc) circ now = Some (u, g1, cc1)"
    using estimates_some [of "vegas_tick cc" g circ now] assms(3,4) by (auto simp: tick)
  note fr = estimates_frame [OF e]
  have "log_info_enabled g1 = log_info_enabled g"
    by (rule clock_only_field [OF fr(4)]) (simp add: clock_erase_def)
  then have "vegas_react g1 cc1 \<noteq> None"
    using fr assms tick by (intro react_some assms(6) [OF e]) (simp_all add: same_config_def same_window_def)
  then show ?thesis
    using assms(1) e by (cases u) (auto simp: congestion_control_vegas_process_sendme_def)
qed

theorem vegas_process_sendme_returns_witness:
  "\<exists>g' cc'. congestion_control_vegas_process_sendme (cc_globals_init False False)
      (example_cc\<lparr>in_slow_start := True\<rparr>) example_circ 1600 = Some (0, g', cc')"
proof -
  let ?cc = "example_cc\<lparr>in_slow_start := True\<rparr>" and ?g = "cc_globals_init False False"
  have "map_option (\<lambda>(u, g1, cc1). bdp cc1) (congestion_control_update_circuit_estimates ?g (vegas_tick ?cc) example_circ 1600) = Some 141"
    by code_simp
  then have "unat (bdp cc1) < 2 ^ 62"
    if "congestion_control_update_circuit_estimates ?g (vegas_tick ?cc) example_circ 1600 = Some (u, g1, cc1)" for u g1 cc1
    using that by simp
  then show ?thesis
    by (intro vegas_process_sendme_returns) (simp_all add: example_cc_def cc_globals_init_def)
qed

section \<open>Where the code goes wrong\<close>

text \<open>With informational logging on, a SENDME on a blocked channel while the clock stands still
  leaves slow start with no RTT estimate, and the log line divides by zero.\<close>

lemma vegas_log_divides_by_zero:
  "congestion_control_vegas_process_sendme (cc_globals_init False True)
     (example_cc\<lparr>in_slow_start := True, ewma_rtt_usec := 0, min_rtt_usec := 0\<rparr>)
     (example_circ\<lparr>circuit_blocked_on_n_chan := True\<rparr>) 1000 = None"
  by code_simp

text \<open>The smallest window may be 31 cells and the step 1000: the window underflows before the
  maximum with the smallest window is taken.\<close>

lemma vegas_window_underflows:
  "map_option (\<lambda>(r, g', cc'). uint (cwnd cc'))
     (congestion_control_vegas_process_sendme (cc_globals_init False False)
       (example_cc\<lparr>cwnd := 31, cwnd_min := 31, cwnd_inc := 1000\<rparr>)
       (example_circ\<lparr>circuit_blocked_on_n_chan := True\<rparr>) 1600)
   = Some (2 ^ 64 - 969)"
  by code_simp

text \<open>Leaving slow start does not respect the smallest window when \<open>gamma\<close> is below it.\<close>

lemma vegas_exit_below_cwnd_min:
  "map_option (\<lambda>(r, g', cc'). (cwnd cc', cwnd_min cc'))
     (congestion_control_vegas_process_sendme (cc_globals_init False False)
       (example_cc\<lparr>in_slow_start := True, vegas_params := (vegas_params example_cc)\<lparr>gamma := 0\<rparr>, min_rtt_usec := 1\<rparr>)
       example_circ 1600)
   = Some (0, 124)"
  by code_simp

end
