(* ===== verification/Trunnel.thy ===== *)
theory Trunnel
  imports Tor_Prelude
begin

text \<open>
  The wire format of the cells and handshake extensions the traffic core exchanges, as the trunnel
  code under \<open>src/trunnel/\<close> reads and writes it: handshake extensions
  (\<open>extension.c\<close>, \<open>congestion_control.c\<close>), SENDME cells (\<open>sendme_cell.c\<close>), XON
  and XOFF cells (\<open>flow_control_cells.c\<close>) and conflux cells (\<open>conflux.c\<close>).
  A parser takes the bytes and gives the object and the bytes it did not consume, or
  \<open>None\<close> for a negative return value (truncated or malformed). An encoder gives the bytes
  written, \<open>None\<close> for a negative return value (the object fails its check, or the bytes do
  not fit in the space available).

  The locale \<open>codec\<close> is the contract of such a pair; sequences of encoded objects inherit
  it. The lemmas discharge it for every format.
\<close>

type_synonym bytes = "u8 list"
type_synonym 'a parser = "bytes \<Rightarrow> ('a \<times> bytes) option"

section \<open>Integers in network byte order\<close>

fun get_uint8 :: "u8 parser" where
  "get_uint8 [] = None"
| "get_uint8 (b # bs) = Some (b, bs)"

definition get_bytes :: "nat \<Rightarrow> bytes parser" where
  "get_bytes n bs = (if length bs < n then None else Some (take n bs, drop n bs))"

fun be_bytes :: "nat \<Rightarrow> nat \<Rightarrow> bytes" where
  "be_bytes 0 x = []"
| "be_bytes (Suc n) x = be_bytes n (x div 256) @ [of_nat x]"

definition be_val :: "bytes \<Rightarrow> nat" where
  "be_val bs = foldl (\<lambda>v b. 256 * v + unat b) 0 bs"

definition put_uint :: "'a::len word \<Rightarrow> bytes" where
  "put_uint w = be_bytes (LENGTH('a) div 8) (unat w)"

definition get_uint :: "nat \<Rightarrow> 'a::len word parser" where
  "get_uint n bs = do { (ds, r) \<leftarrow> get_bytes n bs; Some (of_nat (be_val ds), r) }"

lemma get_bytes_append [simp]: "length xs = n \<Longrightarrow> get_bytes n (xs @ r) = Some (xs, r)"
  by (simp add: get_bytes_def)

lemma get_bytes_all [simp]: "length xs = n \<Longrightarrow> get_bytes n xs = Some (xs, [])"
  by (simp add: get_bytes_def)

lemma length_be_bytes [simp]: "length (be_bytes n x) = n"
  by (induction n arbitrary: x) simp_all

lemma be_val_bytes: "be_val (be_bytes n x) = x mod 256 ^ n"
proof (induction n arbitrary: x)
  case (Suc n)
  have "x mod (256 * 256 ^ n) = 256 * (x div 256 mod 256 ^ n) + x mod 256"
    by (simp add: mod_mult2_eq)
  then show ?case
    using Suc by (simp add: be_val_def unat_of_nat)
qed (simp add: be_val_def)

declare be_bytes.simps [simp del]

lemma length_put_uint [simp]:
  "length (put_uint (w :: u16)) = 2" "length (put_uint (v :: u32)) = 4" "length (put_uint (u :: u64)) = 8"
  by (simp_all add: put_uint_def)

lemma get_put_word:
  assumes "8 dvd LENGTH('a)"
  shows "get_uint (LENGTH('a) div 8) (put_uint w @ r) = Some (w :: 'a::len word, r)"
proof -
  have "(256 :: nat) ^ (LENGTH('a) div 8) = 2 ^ (8 * (LENGTH('a) div 8))"
    by (simp add: power_mult)
  also have "\<dots> = 2 ^ LENGTH('a)"
    using assms by simp
  finally have "be_val (put_uint w) = unat w"
    by (simp add: put_uint_def be_val_bytes)
  moreover have "length (put_uint w) = LENGTH('a) div 8"
    by (simp add: put_uint_def)
  ultimately show ?thesis
    by (simp add: get_uint_def)
qed

lemma get_put_uint [simp]:
  "get_uint 2 (put_uint (w :: u16) @ r) = Some (w, r)"
  "get_uint 4 (put_uint (v :: u32) @ r) = Some (v, r)"
  "get_uint 8 (put_uint (u :: u64) @ r) = Some (u, r)"
  using get_put_word [where 'a = 16] get_put_word [where 'a = 32] get_put_word [where 'a = 64]
  by simp_all

lemma get_put_uint_nil [simp]:
  "get_uint 2 (put_uint (w :: u16)) = Some (w, [])"
  "get_uint 4 (put_uint (v :: u32)) = Some (v, [])"
  "get_uint 8 (put_uint (u :: u64)) = Some (u, [])"
  by (metis append_Nil2 get_put_uint(1), metis append_Nil2 get_put_uint(2),
      metis append_Nil2 get_put_uint(3))

section \<open>The contract of a format\<close>

locale codec =
  fixes put :: "'a \<Rightarrow> bytes" and get :: "'a parser" and valid :: "'a \<Rightarrow> bool"
  assumes get_put: "valid x \<Longrightarrow> get (put x @ r) = Some (x, r)"
begin

lemma put_inj: "valid x \<Longrightarrow> valid y \<Longrightarrow> put x @ r = put y @ s \<Longrightarrow> x = y \<and> r = s"
  by (metis get_put option.inject prod.inject)

end

text \<open>\<open>n\<close> objects one after the other, as trunnel reads an array.\<close>

fun get_array :: "'a parser \<Rightarrow> nat \<Rightarrow> 'a list parser" where
  "get_array get 0 bs = Some ([], bs)"
| "get_array get (Suc n) bs = do {
     (x, bs1) \<leftarrow> get bs;
     (xs, bs2) \<leftarrow> get_array get n bs1;
     Some (x # xs, bs2)
   }"

context codec
begin

lemma get_put_array: "list_all valid xs \<Longrightarrow> get_array get (length xs) (concat (map put xs) @ r) = Some (xs, r)"
  by (induction xs) (simp_all add: get_put)

end

section \<open>Handshake extensions\<close>

record trn_extension_field_t =
  field_type :: u8
  field_len :: u8
  field :: bytes

type_synonym trn_extension_t = "trn_extension_field_t list"

definition trn_extension_field_check :: "trn_extension_field_t \<Rightarrow> bool" where
  "trn_extension_field_check obj \<longleftrightarrow> length (field obj) = unat (field_len obj)"

definition put_extension_field :: "trn_extension_field_t \<Rightarrow> bytes" where
  "put_extension_field obj = field_type obj # field_len obj # field obj"

definition trn_extension_field_parse :: "trn_extension_field_t parser" where
  "trn_extension_field_parse bs = do {
     (ty, bs1) \<leftarrow> get_uint8 bs;
     (ln, bs2) \<leftarrow> get_uint8 bs1;
     (fl, bs3) \<leftarrow> get_bytes (unat ln) bs2;
     Some (\<lparr>field_type = ty, field_len = ln, field = fl\<rparr>, bs3)
   }"

interpretation ext_field: codec put_extension_field trn_extension_field_parse trn_extension_field_check
  by unfold_locales
    (simp add: put_extension_field_def trn_extension_field_parse_def trn_extension_field_check_def)

text \<open>\<open>num\<close> is the number of fields; it is a \<open>uint8_t\<close>, so an extension has at most 255.\<close>

definition trn_extension_encode :: "nat \<Rightarrow> trn_extension_t \<Rightarrow> bytes option" where
  "trn_extension_encode avail ext =
     (if \<not> list_all trn_extension_field_check ext \<or> length ext > 255 then None
      else let out = of_nat (length ext) # concat (map put_extension_field ext)
           in if length out > avail then None else Some out)"

definition trn_extension_parse :: "trn_extension_t parser" where
  "trn_extension_parse bs = do {
     (num, bs1) \<leftarrow> get_uint8 bs;
     get_array trn_extension_field_parse (unat num) bs1
   }"

lemma trn_extension_parse_encode:
  assumes "trn_extension_encode avail ext = Some bs"
  shows "trn_extension_parse (bs @ r) = Some (ext, r)"
proof -
  have "unat (of_nat (length ext) :: u8) = length ext" if "length ext \<le> 255"
    using that by (simp add: unat_of_nat)
  then show ?thesis
    using assms ext_field.get_put_array [of ext r]
    by (auto simp: trn_extension_encode_def trn_extension_parse_def Let_def not_less split: if_splits)
qed

definition trn_extension_field_cc_encode :: "u8 \<Rightarrow> bytes" where
  "trn_extension_field_cc_encode inc = [inc]"

definition trn_extension_field_cc_parse :: "u8 parser" where
  "trn_extension_field_cc_parse bs = get_uint8 bs"

interpretation ext_field_cc: codec trn_extension_field_cc_encode trn_extension_field_cc_parse "\<lambda>_. True"
  by unfold_locales (simp add: trn_extension_field_cc_encode_def trn_extension_field_cc_parse_def)

section \<open>SENDME cells\<close>

abbreviation TRUNNEL_SENDME_V1_DIGEST_LEN :: nat where "TRUNNEL_SENDME_V1_DIGEST_LEN \<equiv> 20"

record sendme_cell_t =
  sm_version :: u8
  sm_data_len :: u16
  sm_v1_digest :: bytes

definition sendme_cell_check :: "sendme_cell_t \<Rightarrow> bool" where
  "sendme_cell_check obj \<longleftrightarrow> sm_version obj = 0 \<or> sm_version obj = 1"

text \<open>The encoder overwrites \<open>data_len\<close> by the length of the union.\<close>

definition sendme_cell_encode :: "nat \<Rightarrow> sendme_cell_t \<Rightarrow> bytes option" where
  "sendme_cell_encode avail obj =
     (if \<not> sendme_cell_check obj then None
      else let union = (if sm_version obj = 0 then []
                        else take TRUNNEL_SENDME_V1_DIGEST_LEN (sm_v1_digest obj));
               out = sm_version obj # put_uint (of_nat (length union) :: u16) @ union
           in if length out > avail then None else Some out)"

definition sendme_cell_parse :: "sendme_cell_t parser" where
  "sendme_cell_parse bs = do {
     (v, bs1) \<leftarrow> get_uint8 bs;
     if \<not> (v = 0 \<or> v = 1) then None
     else do {
       (ln :: u16, bs2) \<leftarrow> get_uint 2 bs1;
       (union, after) \<leftarrow> get_bytes (unat ln) bs2;
       if v = 0 then Some (\<lparr>sm_version = v, sm_data_len = ln, sm_v1_digest = []\<rparr>, after)
       else do {
         (d, remaining) \<leftarrow> get_bytes TRUNNEL_SENDME_V1_DIGEST_LEN union;
         if remaining \<noteq> [] then None
         else Some (\<lparr>sm_version = v, sm_data_len = ln, sm_v1_digest = d\<rparr>, after)
       }
     }
   }"

lemma sendme_cell_parse_encode_v1:
  assumes "length d = TRUNNEL_SENDME_V1_DIGEST_LEN"
    and "sendme_cell_encode avail \<lparr>sm_version = 1, sm_data_len = ln, sm_v1_digest = d\<rparr> = Some bs"
  shows "length bs = 23 \<and>
    sendme_cell_parse (bs @ r) = Some (\<lparr>sm_version = 1, sm_data_len = 20, sm_v1_digest = d\<rparr>, r)"
  using assms
  by (auto simp: sendme_cell_encode_def sendme_cell_check_def sendme_cell_parse_def Let_def
      split: if_splits)

lemma sendme_cell_encode_v1_fits:
  "23 \<le> avail \<Longrightarrow> length d = TRUNNEL_SENDME_V1_DIGEST_LEN \<Longrightarrow>
    sendme_cell_encode avail \<lparr>sm_version = 1, sm_data_len = ln, sm_v1_digest = d\<rparr> \<noteq> None"
  by (simp add: sendme_cell_encode_def sendme_cell_check_def Let_def)

section \<open>XON and XOFF cells\<close>

record xon_cell_t =
  xon_version :: u8
  kbps_ewma :: u32

definition xoff_cell_encode :: "nat \<Rightarrow> u8 \<Rightarrow> bytes option" where
  "xoff_cell_encode avail version = (if version \<noteq> 0 \<or> avail < 1 then None else Some [version])"

definition xoff_cell_parse :: "u8 parser" where
  "xoff_cell_parse bs = do {
     (v, bs1) \<leftarrow> get_uint8 bs;
     if v \<noteq> 0 then None else Some (v, bs1)
   }"

definition xon_cell_encode :: "nat \<Rightarrow> xon_cell_t \<Rightarrow> bytes option" where
  "xon_cell_encode avail obj =
     (if xon_version obj \<noteq> 0 \<or> avail < 5 then None
      else Some (xon_version obj # put_uint (kbps_ewma obj)))"

definition xon_cell_parse :: "xon_cell_t parser" where
  "xon_cell_parse bs = do {
     (v, bs1) \<leftarrow> get_uint8 bs;
     if v \<noteq> 0 then None
     else do {
       (k, bs2) \<leftarrow> get_uint 4 bs1;
       Some (\<lparr>xon_version = v, kbps_ewma = k\<rparr>, bs2)
     }
   }"

lemma xon_cell_parse_encode: "xon_cell_encode avail obj = Some bs \<Longrightarrow> xon_cell_parse (bs @ r) = Some (obj, r)"
  by (auto simp: xon_cell_encode_def xon_cell_parse_def split: if_splits)

lemma xoff_cell_parse_encode: "xoff_cell_encode avail v = Some bs \<Longrightarrow> xoff_cell_parse (bs @ r) = Some (v, r)"
  by (auto simp: xoff_cell_encode_def xoff_cell_parse_def split: if_splits)

section \<open>Conflux cells\<close>

definition trn_cell_conflux_switch_encode :: "nat \<Rightarrow> u32 \<Rightarrow> bytes option" where
  "trn_cell_conflux_switch_encode avail seqnum = (if avail < 4 then None else Some (put_uint seqnum))"

definition trn_cell_conflux_switch_parse :: "u32 parser" where
  "trn_cell_conflux_switch_parse bs = get_uint 4 bs"

lemma trn_cell_conflux_switch_parse_encode:
  "trn_cell_conflux_switch_encode avail n = Some bs \<Longrightarrow> trn_cell_conflux_switch_parse (bs @ r) = Some (n, r)"
  by (auto simp: trn_cell_conflux_switch_encode_def trn_cell_conflux_switch_parse_def split: if_splits)

text \<open>The LINK and LINKED cells: a version byte and a payload that takes the rest.\<close>

record trn_cell_conflux_link_t =
  link_version :: u8
  link_payload :: bytes

definition trn_cell_conflux_link_encode :: "nat \<Rightarrow> trn_cell_conflux_link_t \<Rightarrow> bytes option" where
  "trn_cell_conflux_link_encode avail obj =
     (if link_version obj \<noteq> 1 then None
      else let out = link_version obj # link_payload obj
           in if length out > avail then None else Some out)"

definition trn_cell_conflux_link_parse :: "trn_cell_conflux_link_t parser" where
  "trn_cell_conflux_link_parse bs = do {
     (v, bs1) \<leftarrow> get_uint8 bs;
     if v \<noteq> 1 then None else Some (\<lparr>link_version = v, link_payload = bs1\<rparr>, [])
   }"

abbreviation CONFLUX_UX_NO_OPINION :: u8 where "CONFLUX_UX_NO_OPINION \<equiv> 0"
abbreviation CONFLUX_UX_MIN_LATENCY :: u8 where "CONFLUX_UX_MIN_LATENCY \<equiv> 1"
abbreviation CONFLUX_UX_LOW_MEM_LATENCY :: u8 where "CONFLUX_UX_LOW_MEM_LATENCY \<equiv> 2"
abbreviation CONFLUX_UX_HIGH_THROUGHPUT :: u8 where "CONFLUX_UX_HIGH_THROUGHPUT \<equiv> 3"
abbreviation CONFLUX_UX_LOW_MEM_THROUGHPUT :: u8 where "CONFLUX_UX_LOW_MEM_THROUGHPUT \<equiv> 4"

record trn_cell_conflux_link_payload_v1_t =
  pl_nonce :: bytes
  pl_last_seqno_sent :: u64
  pl_last_seqno_recv :: u64
  pl_desired_ux :: u8

definition ux_ok :: "u8 \<Rightarrow> bool" where
  "ux_ok ux \<longleftrightarrow> ux \<in> {CONFLUX_UX_NO_OPINION, CONFLUX_UX_MIN_LATENCY, CONFLUX_UX_LOW_MEM_LATENCY,
     CONFLUX_UX_HIGH_THROUGHPUT, CONFLUX_UX_LOW_MEM_THROUGHPUT}"

definition put_link_payload_v1 :: "trn_cell_conflux_link_payload_v1_t \<Rightarrow> bytes" where
  "put_link_payload_v1 p = take 32 (pl_nonce p) @ put_uint (pl_last_seqno_sent p) @
     put_uint (pl_last_seqno_recv p) @ [pl_desired_ux p]"

definition link_payload_v1_encode :: "nat \<Rightarrow> trn_cell_conflux_link_payload_v1_t \<Rightarrow> bytes option" where
  "link_payload_v1_encode avail p =
     (if \<not> ux_ok (pl_desired_ux p) \<or> avail < 49 then None else Some (put_link_payload_v1 p))"

definition link_payload_v1_parse :: "trn_cell_conflux_link_payload_v1_t parser" where
  "link_payload_v1_parse bs = do {
     (nonce, bs1) \<leftarrow> get_bytes 32 bs;
     (sent, bs2) \<leftarrow> get_uint 8 bs1;
     (recv, bs3) \<leftarrow> get_uint 8 bs2;
     (ux, bs4) \<leftarrow> get_uint8 bs3;
     if \<not> ux_ok ux then None
     else Some (\<lparr>pl_nonce = nonce, pl_last_seqno_sent = sent, pl_last_seqno_recv = recv, pl_desired_ux = ux\<rparr>, bs4)
   }"

interpretation link_payload: codec put_link_payload_v1 link_payload_v1_parse
  "\<lambda>p. length (pl_nonce p) = 32 \<and> ux_ok (pl_desired_ux p)"
  by unfold_locales (simp add: put_link_payload_v1_def link_payload_v1_parse_def)

end
