(* ===== verification/CC_Common.thy ===== *)
theory CC_Common
  imports CC_Vegas Trunnel
begin

text \<open>
  The rest of \<open>src/core/or/congestion_control_common.c\<close>: the consensus parameters, the life
  of a congestion control object, and the negotiation of congestion control in the extensions of
  the ntor v3 handshake. The results of the negotiation functions are the C return codes: 1 is
  enabled, 0 is not, -1 is an error; the bytes of a message are the output parameter.

  The lemmas show what survives the narrowing of the parameters to their fields, that a new object
  is well-formed, and what a client and an exit agree on.
\<close>

section \<open>Consensus parameters\<close>

fun cc_alg_of_int :: "int \<Rightarrow> cc_alg_t" where
  "cc_alg_of_int n = (if n = 0 then CC_ALG_SENDME else if n = 1 then CC_ALG_WESTWOOD
     else if n = 2 then CC_ALG_VEGAS else CC_ALG_NOLA)"

definition congestion_control_new_consensus_params ::
    "networkstatus option \<Rightarrow> networkstatus option \<Rightarrow> cc_globals \<Rightarrow> cc_globals option" where
  "congestion_control_new_consensus_params latest ns g =
     (let param = networkstatus_get_param latest None
      in do {
        qhigh \<leftarrow> networkstatus_get_param latest ns ''cellq_high'' 256 1 1000;
        qlow \<leftarrow> networkstatus_get_param latest ns ''cellq_low'' 10 1 1000;
        orhigh \<leftarrow> networkstatus_get_param latest ns ''orconn_high'' (32 * 1024) CELL_PAYLOAD_SIZE INT32_MAX;
        orlow \<leftarrow> networkstatus_get_param latest ns ''orconn_low'' (16 * 1024) CELL_PAYLOAD_SIZE INT32_MAX;
        cmax \<leftarrow> param ''cc_cwnd_max'' INT32_MAX 500 INT32_MAX;
        rttpct \<leftarrow> param ''cc_rtt_reset_pct'' 100 0 100;
        inc \<leftarrow> param ''cc_sendme_inc'' SENDME_INC_DFLT 1 254;
        alg \<leftarrow> param ''cc_alg'' 2 0 3;
        bwe \<leftarrow> param ''cc_bwe_min'' 5 2 20;
        epct \<leftarrow> param ''cc_ewma_cwnd_pct'' 50 1 255;
        emax \<leftarrow> param ''cc_ewma_max'' 10 2 INT32_MAX;
        ess \<leftarrow> param ''cc_ewma_ss'' 2 2 INT32_MAX;
        let a = cc_alg_of_int alg;
        Some (g\<lparr>cell_queue_high := qhigh, cell_queue_low := qlow,
                or_conn_highwater := word_of_int orhigh, or_conn_lowwater := word_of_int orlow,
                cwnd_max := word_of_int cmax, rtt_reset_pct := word_of_int rttpct,
                cc_sendme_inc := word_of_int inc,
                cc_alg_consensus := (if a \<noteq> CC_ALG_SENDME \<and> a \<noteq> CC_ALG_VEGAS then CC_ALG_VEGAS else a),
                bwe_sendme_min := word_of_int bwe, n_ewma_cwnd_pct := word_of_int epct,
                n_ewma_max := word_of_int emax, n_ewma_ss := word_of_int ess\<rparr>)
      })"

definition or_conn_highwatermark :: "cc_globals \<Rightarrow> u32" where
  "or_conn_highwatermark g = or_conn_highwater g"

definition or_conn_lowwatermark :: "cc_globals \<Rightarrow> u32" where
  "or_conn_lowwatermark g = or_conn_lowwater g"

definition cell_queue_highwatermark :: "cc_globals \<Rightarrow> int" where
  "cell_queue_highwatermark g = cell_queue_high g"

definition cell_queue_lowwatermark :: "cc_globals \<Rightarrow> int" where
  "cell_queue_lowwatermark g = cell_queue_low g"

definition congestion_control_sendme_inc :: "cc_globals \<Rightarrow> u8" where
  "congestion_control_sendme_inc g = cc_sendme_inc g"

section \<open>Life of a congestion control object\<close>

definition congestion_control_init_params ::
    "networkstatus option \<Rightarrow> cc_globals \<Rightarrow> congestion_control_t \<Rightarrow> circuit_params_t \<Rightarrow> cc_path_t
      \<Rightarrow> (cc_globals \<times> congestion_control_t) option" where
  "congestion_control_init_params latest g cc params path =
     (let param = networkstatus_get_param latest None
      in do {
        winit \<leftarrow> param ''cc_cwnd_init'' CIRCWINDOW_INIT SENDME_INC_DFLT 10000;
        pctss \<leftarrow> param ''cc_cwnd_inc_pct_ss'' 100 1 500;
        winc \<leftarrow> param ''cc_cwnd_inc'' 1 1 1000;
        wrate \<leftarrow> param ''cc_cwnd_inc_rate'' SENDME_INC_DFLT 1 250;
        wmin \<leftarrow> param ''cc_cwnd_min'' CIRCWINDOW_INIT SENDME_INC_DFLT 1000;
        let alg = (if cc_alg_consensus g = CC_ALG_SENDME \<and> AlwaysCongestionControl g
                   then CC_ALG_VEGAS else cc_alg_consensus g);
        let cc1 = cc\<lparr>sendme_inc := sendme_inc_cells params, cwnd := word_of_int winit,
                     cwnd_inc_pct_ss := word_of_int pctss, cwnd_inc := word_of_int winc,
                     cwnd_inc_rate := word_of_int wrate, cwnd_min := word_of_int wmin, cc_alg := alg\<rparr>;
        if cc_alg cc1 = CC_ALG_VEGAS then congestion_control_vegas_set_params latest g cc1 path
        else Some (g, cc1)
      })"

definition congestion_control_enabled :: "cc_globals \<Rightarrow> bool" where
  "congestion_control_enabled g =
     (if AlwaysCongestionControl g then True else cc_alg_consensus g \<noteq> CC_ALG_SENDME)"

definition congestion_control_init ::
    "networkstatus option \<Rightarrow> cc_globals \<Rightarrow> congestion_control_t \<Rightarrow> circuit_params_t \<Rightarrow> cc_path_t
      \<Rightarrow> (cc_globals \<times> congestion_control_t) option" where
  "congestion_control_init latest g cc params path = do {
     let cc1 = cc\<lparr>sendme_pending_timestamps := [], in_slow_start := True\<rparr>;
     (g1, cc2) \<leftarrow> congestion_control_init_params latest g cc1 params path;
     rate \<leftarrow> CWND_UPDATE_RATE cc2;
     Some (g1, cc2\<lparr>next_cc_event := ucast rate\<rparr>)
   }"

text \<open>\<open>tor_malloc_zero\<close>.\<close>

definition zero_cc :: congestion_control_t where
  "zero_cc = \<lparr>sendme_pending_timestamps = [], ewma_rtt_usec = 0, min_rtt_usec = 0,
     max_rtt_usec = 0, bdp = 0, cwnd = 0, inflight = 0, next_cc_event = 0, next_cwnd_event = 0,
     in_slow_start = False, cwnd_full = False, blocked_chan = False, cwnd_inc_pct_ss = 0, cwnd_inc = 0,
     cwnd_min = 0, cwnd_inc_rate = 0, sendme_inc = 0, cc_alg = CC_ALG_SENDME,
     vegas_params = \<lparr>ss_cwnd_cap = 0, ss_cwnd_max = 0, gamma = 0, alpha = 0, beta = 0, delta = 0\<rparr>\<rparr>"

definition congestion_control_new ::
    "networkstatus option \<Rightarrow> cc_globals \<Rightarrow> circuit_params_t \<Rightarrow> cc_path_t
      \<Rightarrow> (cc_globals \<times> congestion_control_t) option" where
  "congestion_control_new latest g params path = do {
     (g1, cc) \<leftarrow> congestion_control_init latest g zero_cc params path;
     Some (g1\<lparr>cc_stats_circs_created := cc_stats_circs_created g1 + 1\<rparr>, cc)
   }"

section \<open>Negotiation\<close>

abbreviation TRUNNEL_EXT_TYPE_CC_FIELD_REQUEST :: u8 where "TRUNNEL_EXT_TYPE_CC_FIELD_REQUEST \<equiv> 1"
abbreviation TRUNNEL_EXT_TYPE_CC_FIELD_RESPONSE :: u8 where "TRUNNEL_EXT_TYPE_CC_FIELD_RESPONSE \<equiv> 2"

text \<open>An encoder that is given exactly the encoded length.\<close>

definition encode_extension :: "trn_extension_t \<Rightarrow> bytes option" where
  "encode_extension ext = trn_extension_encode (1 + (\<Sum>f\<leftarrow>ext. 2 + length (field f))) ext"

definition congestion_control_build_ext_request :: "cc_globals \<Rightarrow> bytes option" where
  "congestion_control_build_ext_request g =
     encode_extension
       (if congestion_control_enabled g
        then [\<lparr>field_type = TRUNNEL_EXT_TYPE_CC_FIELD_REQUEST, field_len = 0, field = []\<rparr>] else [])"

text \<open>The return value of the parser, the number of bytes consumed, is what is returned when there are
  fields but none of them has the type.\<close>

definition congestion_control_parse_ext_request :: "bytes \<Rightarrow> int" where
  "congestion_control_parse_ext_request msg =
     (case trn_extension_parse msg of
        None \<Rightarrow> -1
      | Some (ext, rest) \<Rightarrow>
          let ret = int (length msg - length rest)
          in if ext = [] then 0
             else if list_ex (\<lambda>f. field_type f = TRUNNEL_EXT_TYPE_CC_FIELD_REQUEST) ext then 1 else ret)"

definition congestion_control_build_ext_response :: "circuit_params_t \<Rightarrow> circuit_params_t \<Rightarrow> bytes option" where
  "congestion_control_build_ext_response our_params circ_params =
     encode_extension
       (if cc_enabled circ_params
        then let cc_field = trn_extension_field_cc_encode (sendme_inc_cells our_params)
             in [\<lparr>field_type = TRUNNEL_EXT_TYPE_CC_FIELD_RESPONSE, field_len = of_nat (length cc_field),
                  field = cc_field\<rparr>]
        else [])"

text \<open>The bounds are computed in \<open>int\<close>.\<close>

definition congestion_control_validate_sendme_increment :: "cc_globals \<Rightarrow> u8 \<Rightarrow> bool" where
  "congestion_control_validate_sendme_increment g inc =
     (if inc = 0 then False
      else \<not> (uint inc > uint (congestion_control_sendme_inc g) + 1 \<or>
               uint inc < uint (congestion_control_sendme_inc g) - 1))"

text \<open>The loop over the fields; \<open>ret\<close> is the value it was entered with.\<close>

fun parse_response_fields ::
    "cc_globals \<Rightarrow> int \<Rightarrow> trn_extension_t \<Rightarrow> circuit_params_t \<Rightarrow> int \<times> circuit_params_t" where
  "parse_response_fields g ret [] params_out = (ret, params_out)"
| "parse_response_fields g ret (f # fs) params_out =
     (if field_type f = TRUNNEL_EXT_TYPE_CC_FIELD_RESPONSE
      then case trn_extension_field_cc_parse (field f) of
             None \<Rightarrow> (-1, params_out)
           | Some (inc, _) \<Rightarrow>
               if \<not> congestion_control_validate_sendme_increment g inc then (-1, params_out)
               else (1, params_out\<lparr>sendme_inc_cells := inc\<rparr>)
      else parse_response_fields g ret fs params_out)"

definition congestion_control_parse_ext_response ::
    "cc_globals \<Rightarrow> bytes \<Rightarrow> circuit_params_t \<Rightarrow> int \<times> circuit_params_t" where
  "congestion_control_parse_ext_response g msg params_out =
     (case trn_extension_parse msg of
        None \<Rightarrow> (-1, params_out)
      | Some (ext, rest) \<Rightarrow>
          if ext = [] then (0, params_out)
          else parse_response_fields g (int (length msg - length rest)) ext params_out)"

text \<open>The two sides of the ntor v3 handshake, \<open>src/core/crypto/onion_crypto.c\<close>. The exit's
  result is the reply and its parameters, \<open>None\<close> the failure; the client's is the return code and
  the parameters, which start zeroed.\<close>

definition negotiate_v3_ntor_server_circ_params ::
    "bytes \<Rightarrow> circuit_params_t \<Rightarrow> (bytes \<times> circuit_params_t) option" where
  "negotiate_v3_ntor_server_circ_params request our_ns_params =
     (let ret = congestion_control_parse_ext_request request
      in if ret < 0 then None
         else let params_out = \<lparr>cc_enabled = (ret \<noteq> 0 \<and> cc_enabled our_ns_params), sendme_inc_cells = 0\<rparr>
              in do {
                resp \<leftarrow> congestion_control_build_ext_response our_ns_params params_out;
                Some (resp, params_out\<lparr>sendme_inc_cells := sendme_inc_cells our_ns_params\<rparr>)
              })"

definition negotiate_v3_ntor_client_circ_params ::
    "cc_globals \<Rightarrow> bytes \<Rightarrow> circuit_params_t \<Rightarrow> int \<times> circuit_params_t" where
  "negotiate_v3_ntor_client_circ_params g response params_out =
     (let (ret, params1) = congestion_control_parse_ext_response g response params_out
      in if ret < 0 then (-1, params1)
         else if ret \<noteq> 0 \<and> \<not> congestion_control_enabled g then (-1, params1)
         else (0, params1\<lparr>cc_enabled := (ret \<noteq> 0)\<rparr>))"

abbreviation zero_params :: circuit_params_t where
  "zero_params \<equiv> \<lparr>cc_enabled = False, sendme_inc_cells = 0\<rparr>"

section \<open>Negotiation succeeds\<close>

lemma encode_empty [simp]: "encode_extension [] = Some [0]"
  by (simp add: encode_extension_def trn_extension_encode_def)

lemma encode_single:
  "length d = unat l \<Longrightarrow> encode_extension [\<lparr>field_type = ty, field_len = l, field = d\<rparr>] = Some (1 # ty # l # d)"
  by (simp add: encode_extension_def trn_extension_encode_def trn_extension_field_check_def put_extension_field_def)

lemma parse_empty [simp]: "trn_extension_parse [0] = Some ([], [])"
  by (simp add: trn_extension_parse_def)

lemma parse_single:
  "length d = unat l \<Longrightarrow>
    trn_extension_parse (1 # ty # l # d) = Some ([\<lparr>field_type = ty, field_len = l, field = d\<rparr>], [])"
  by (simp add: trn_extension_parse_def trn_extension_field_parse_def)

lemma request_received:
  "congestion_control_build_ext_request g = Some req \<Longrightarrow>
    congestion_control_parse_ext_request req = (if congestion_control_enabled g then 1 else 0)"
  by (auto simp: congestion_control_build_ext_request_def congestion_control_parse_ext_request_def
      encode_single parse_single split: if_splits)

lemma response_built:
  "congestion_control_build_ext_response our circ =
    Some (if cc_enabled circ then [1, TRUNNEL_EXT_TYPE_CC_FIELD_RESPONSE, 1, sendme_inc_cells our] else [0])"
  by (simp add: congestion_control_build_ext_response_def trn_extension_field_cc_encode_def encode_single)

lemma response_received:
  "congestion_control_parse_ext_response g [1, TRUNNEL_EXT_TYPE_CC_FIELD_RESPONSE, 1, inc] p =
    (if congestion_control_validate_sendme_increment g inc then (1, p\<lparr>sendme_inc_cells := inc\<rparr>) else (-1, p))"
  by (simp add: congestion_control_parse_ext_response_def parse_single trn_extension_field_cc_parse_def)

lemma response_received_empty: "congestion_control_parse_ext_response g [0] p = (0, p)"
  by (simp add: congestion_control_parse_ext_response_def)

section \<open>Properties\<close>

text \<open>
  C11. A client and an exit that follow the protocol agree. Congestion control is on exactly when
  both want it; then the client accepts exactly the increments its consensus allows, and both
  sides run with the exit's increment. When either does not want it, the handshake succeeds
  without it.
\<close>

theorem cc_negotiation_agrees:
  assumes "congestion_control_build_ext_request g = Some req"
  shows "\<exists>resp server_params.
    negotiate_v3_ntor_server_circ_params req our = Some (resp, server_params) \<and>
    cc_enabled server_params = (congestion_control_enabled g \<and> cc_enabled our) \<and>
    sendme_inc_cells server_params = sendme_inc_cells our \<and>
    (let (ret, client_params) = negotiate_v3_ntor_client_circ_params g resp zero_params
     in if cc_enabled server_params
        then if congestion_control_validate_sendme_increment g (sendme_inc_cells our)
             then ret = 0 \<and> client_params = server_params
             else ret = -1
        else ret = 0 \<and> \<not> cc_enabled client_params)"
  using request_received [OF assms]
  by (auto simp: negotiate_v3_ntor_server_circ_params_def response_built Let_def
      negotiate_v3_ntor_client_circ_params_def response_received response_received_empty split: if_splits)

theorem cc_negotiation_agrees_witness:
  "negotiate_v3_ntor_client_circ_params (cc_globals_init False False)
     (fst (the (negotiate_v3_ntor_server_circ_params [1, 1, 0] \<lparr>cc_enabled = True, sendme_inc_cells = 32\<rparr>)))
     zero_params = (0, \<lparr>cc_enabled = True, sendme_inc_cells = 32\<rparr>)"
proof -
  let ?g = "cc_globals_init False False" and ?our = "\<lparr>cc_enabled = True, sendme_inc_cells = 32\<rparr>"
  have r: "congestion_control_build_ext_request ?g = Some [1, 1, 0]" by code_simp
  have e: "congestion_control_enabled ?g" "congestion_control_validate_sendme_increment ?g 32" by code_simp+
  show ?thesis
    using cc_negotiation_agrees [OF r, of ?our] e by (auto simp: Let_def)
qed

lemma uint_word_of_int_small: "0 \<le> x \<Longrightarrow> x < 2 ^ LENGTH('a) \<Longrightarrow> uint (word_of_int x :: 'a::len word) = x"
  by (simp add: uint_word_of_int_eq take_bit_int_eq_self)

lemma uint_param:
  assumes "mn \<le> d" and "d \<le> mx" and "0 \<le> mn" and "mx < 2 ^ LENGTH('a)"
  shows "mn \<le> uint (word_of_int (param_lookup ns nm d mn mx) :: 'a::len word) \<and>
    uint (word_of_int (param_lookup ns nm d mn mx) :: 'a word) \<le> mx"
proof -
  have b: "mn \<le> param_lookup ns nm d mn mx" "param_lookup ns nm d mn mx \<le> mx"
    using assms(1,2) by simp_all
  then have "uint (word_of_int (param_lookup ns nm d mn mx) :: 'a word) = param_lookup ns nm d mn mx"
    using assms(3,4) by (intro uint_word_of_int_small) linarith+
  with b show ?thesis by simp
qed

lemma path_defaults_bounds:
  "0 \<le> alpha_dflt (vegas_path_defaults path) \<and> alpha_dflt (vegas_path_defaults path) \<le> 1000"
  "0 \<le> beta_dflt (vegas_path_defaults path) \<and> beta_dflt (vegas_path_defaults path) \<le> 1000"
  "124 \<le> gamma_dflt (vegas_path_defaults path) \<and> gamma_dflt (vegas_path_defaults path) \<le> 1000"
  "1 \<le> delta_dflt (vegas_path_defaults path) \<and> delta_dflt (vegas_path_defaults path) \<le> 1000"
  "100 \<le> sscap_dflt (vegas_path_defaults path) \<and> sscap_dflt (vegas_path_defaults path) \<le> 1000"
  by (simp_all add: vegas_path_defaults_def)

text \<open>The parameters of a Vegas circuit.\<close>

definition vegas_params_of :: "networkstatus option \<Rightarrow> cc_path_t \<Rightarrow> vegas_params_t" where
  "vegas_params_of latest path =
     (let d = vegas_path_defaults path; p = param_lookup latest
      in \<lparr>ss_cwnd_cap = word_of_int (p (sscap_str d) (sscap_dflt d) 100 INT32_MAX),
          ss_cwnd_max = word_of_int (p ''cc_ss_max'' 5000 500 INT32_MAX),
          gamma = word_of_int (p (gamma_str d) (gamma_dflt d) 0 1000),
          alpha = word_of_int (p (alpha_str d) (alpha_dflt d) 0 1000),
          beta = word_of_int (p (beta_str d) (beta_dflt d) 0 1000),
          delta = word_of_int (p (delta_str d) (delta_dflt d) 0 INT32_MAX)\<rparr>)"

lemma set_params_some:
  assumes "cc_alg cc = CC_ALG_VEGAS"
  shows "\<exists>g'. congestion_control_vegas_set_params latest g cc path =
    Some (g', cc\<lparr>vegas_params := vegas_params_of latest path\<rparr>)"
  using assms path_defaults_bounds [of path]
  by (simp add: congestion_control_vegas_set_params_def vegas_params_of_def Let_def)

definition cc_bounds :: "congestion_control_t \<Rightarrow> bool" where
  "cc_bounds cc \<longleftrightarrow> 31 \<le> uint (cwnd cc) \<and> uint (cwnd cc) \<le> 10000 \<and>
     1 \<le> uint (cwnd_inc cc) \<and> uint (cwnd_inc cc) \<le> 1000 \<and>
     1 \<le> uint (cwnd_inc_pct_ss cc) \<and> uint (cwnd_inc_pct_ss cc) \<le> 500 \<and>
     1 \<le> uint (cwnd_inc_rate cc) \<and> uint (cwnd_inc_rate cc) \<le> 250 \<and>
     31 \<le> uint (cwnd_min cc) \<and> uint (cwnd_min cc) \<le> 1000 \<and>
     100 \<le> uint (ss_cwnd_cap (vegas_params cc)) \<and> 500 \<le> uint (ss_cwnd_max (vegas_params cc)) \<and>
     uint (alpha (vegas_params cc)) \<le> 1000 \<and> uint (beta (vegas_params cc)) \<le> 1000 \<and>
     uint (gamma (vegas_params cc)) \<le> 1000"

lemma new_some:
  assumes "cc_alg_consensus g = CC_ALG_VEGAS \<or> cc_alg_consensus g = CC_ALG_SENDME \<and> AlwaysCongestionControl g"
  shows "\<exists>g'. congestion_control_new latest g params path = Some (g', zero_cc
    \<lparr>in_slow_start := True, sendme_inc := sendme_inc_cells params,
     cwnd := word_of_int (param_lookup latest ''cc_cwnd_init'' CIRCWINDOW_INIT SENDME_INC_DFLT 10000),
     cwnd_inc_pct_ss := word_of_int (param_lookup latest ''cc_cwnd_inc_pct_ss'' 100 1 500),
     cwnd_inc := word_of_int (param_lookup latest ''cc_cwnd_inc'' 1 1 1000),
     cwnd_inc_rate := word_of_int (param_lookup latest ''cc_cwnd_inc_rate'' SENDME_INC_DFLT 1 250),
     cwnd_min := word_of_int (param_lookup latest ''cc_cwnd_min'' CIRCWINDOW_INIT SENDME_INC_DFLT 1000),
     cc_alg := CC_ALG_VEGAS, vegas_params := vegas_params_of latest path, next_cc_event := 1\<rparr>)"
proof -
  let ?cc = "zero_cc
    \<lparr>in_slow_start := True, sendme_inc := sendme_inc_cells params,
     cwnd := word_of_int (param_lookup latest ''cc_cwnd_init'' CIRCWINDOW_INIT SENDME_INC_DFLT 10000),
     cwnd_inc_pct_ss := word_of_int (param_lookup latest ''cc_cwnd_inc_pct_ss'' 100 1 500),
     cwnd_inc := word_of_int (param_lookup latest ''cc_cwnd_inc'' 1 1 1000),
     cwnd_inc_rate := word_of_int (param_lookup latest ''cc_cwnd_inc_rate'' SENDME_INC_DFLT 1 250),
     cwnd_min := word_of_int (param_lookup latest ''cc_cwnd_min'' CIRCWINDOW_INIT SENDME_INC_DFLT 1000),
     cc_alg := CC_ALG_VEGAS\<rparr>"
  obtain g' where sp: "congestion_control_vegas_set_params latest g ?cc path =
      Some (g', ?cc\<lparr>vegas_params := vegas_params_of latest path\<rparr>)"
    using set_params_some [of ?cc latest g path] by auto
  have "congestion_control_init_params latest g (zero_cc\<lparr>sendme_pending_timestamps := [], in_slow_start := True\<rparr>) params path
      = Some (g', ?cc\<lparr>vegas_params := vegas_params_of latest path\<rparr>)"
    using assms sp by (auto simp: congestion_control_init_params_def Let_def zero_cc_def)
  then show ?thesis
    by (simp add: congestion_control_new_def congestion_control_init_def CWND_UPDATE_RATE_def zero_cc_def)
qed

text \<open>
  C12. A new congestion control object is well-formed for every consensus: construction never
  aborts on the Vegas algorithm, the object starts in slow start with nothing in flight and one
  acknowledgement to the next event, its tunables are within the bounds of their consensus
  parameters, and with the defaults it satisfies what the window invariant asks for.
\<close>

theorem congestion_control_new_ok:
  assumes "cc_alg_consensus g = CC_ALG_VEGAS \<or> cc_alg_consensus g = CC_ALG_SENDME \<and> AlwaysCongestionControl g"
  shows "\<exists>g' cc. congestion_control_new latest g params path = Some (g', cc) \<and> cc_bounds cc \<and>
    in_slow_start cc \<and> inflight cc = 0 \<and> sendme_pending_timestamps cc = [] \<and> next_cc_event cc = 1 \<and>
    cc_alg cc = CC_ALG_VEGAS \<and> sendme_inc cc = sendme_inc_cells params \<and>
    (latest = None \<longrightarrow> vegas_params_ok cc \<and> cwnd cc = 124 \<and> cwnd_min cc = 124)"
proof -
  obtain g' cc where new: "congestion_control_new latest g params path = Some (g', cc)"
    and cc: "cc = zero_cc
    \<lparr>in_slow_start := True, sendme_inc := sendme_inc_cells params,
     cwnd := word_of_int (param_lookup latest ''cc_cwnd_init'' CIRCWINDOW_INIT SENDME_INC_DFLT 10000),
     cwnd_inc_pct_ss := word_of_int (param_lookup latest ''cc_cwnd_inc_pct_ss'' 100 1 500),
     cwnd_inc := word_of_int (param_lookup latest ''cc_cwnd_inc'' 1 1 1000),
     cwnd_inc_rate := word_of_int (param_lookup latest ''cc_cwnd_inc_rate'' SENDME_INC_DFLT 1 250),
     cwnd_min := word_of_int (param_lookup latest ''cc_cwnd_min'' CIRCWINDOW_INIT SENDME_INC_DFLT 1000),
     cc_alg := CC_ALG_VEGAS, vegas_params := vegas_params_of latest path, next_cc_event := 1\<rparr>"
    using new_some [OF assms, of latest params path] by blast
  have "cc_bounds cc"
    using path_defaults_bounds [of path]
    by (simp add: cc cc_bounds_def vegas_params_of_def Let_def uint_param)
  moreover have "vegas_params_ok cc \<and> cwnd cc = 124 \<and> cwnd_min cc = 124" if "latest = None"
    by (simp add: that cc vegas_params_ok_def vegas_params_of_def Let_def param_lookup_def vegas_path_defaults_def)
  moreover have "in_slow_start cc" "inflight cc = 0" "sendme_pending_timestamps cc = []" "next_cc_event cc = 1"
      "cc_alg cc = CC_ALG_VEGAS" "sendme_inc cc = sendme_inc_cells params"
    by (simp_all add: cc zero_cc_def)
  ultimately show ?thesis
    using new by blast
qed

theorem congestion_control_new_ok_witness:
  "\<exists>g' cc. congestion_control_new None (cc_globals_init False False) \<lparr>cc_enabled = True, sendme_inc_cells = 31\<rparr> CC_PATH_EXIT
      = Some (g', cc) \<and> cc_bounds cc \<and> vegas_params_ok cc"
  using congestion_control_new_ok [of "cc_globals_init False False" None "\<lparr>cc_enabled = True, sendme_inc_cells = 31\<rparr>" CC_PATH_EXIT]
  by (auto simp: cc_globals_init_def)

section \<open>Where the code goes wrong\<close>

text \<open>An exit that answers with an extension field of an unknown type only makes the client
  turn congestion control on with an increment of zero, and the second cell the client sends
  divides by zero.\<close>

lemma unknown_response_field_enables_cc:
  "negotiate_v3_ntor_client_circ_params (cc_globals_init False False) [1, 99, 0] zero_params
     = (0, \<lparr>cc_enabled = True, sendme_inc_cells = 0\<rparr>)"
  by code_simp

lemma zero_increment_divides_by_zero:
  assumes "layer_ccontrol circ layer = Some cc" and "sendme_inc cc = 0" and "inflight cc \<noteq> 0"
  shows "congestion_control_note_cell_sent cc circ layer now = None"
  using assms by (simp add: congestion_control_note_cell_sent_def circuit_sent_cell_for_sendme_def)

text \<open>The exit takes any unknown field for a request.\<close>

lemma unknown_request_field_enables_cc:
  "negotiate_v3_ntor_server_circ_params [1, 99, 0] \<lparr>cc_enabled = True, sendme_inc_cells = 31\<rparr>
     = Some ([1, 2, 1, 31], \<lparr>cc_enabled = True, sendme_inc_cells = 31\<rparr>)"
  by code_simp

text \<open>A consensus value of \<open>delta\<close> that is a multiple of \<open>2 ^ 16\<close> becomes zero.\<close>

lemma delta_truncated:
  "map_option (\<lambda>(g', cc). delta (vegas_params cc))
     (congestion_control_new (Some \<lparr>net_params = Some [''cc_vegas_delta_exit=65536''], weight_params = None\<rparr>)
        (cc_globals_init False False) \<lparr>cc_enabled = True, sendme_inc_cells = 31\<rparr> CC_PATH_EXIT) = Some 0"
  by code_simp

end
