(* ===== verification/Smartlist_Pqueue.thy ===== *)
theory Smartlist_Pqueue
  imports Tor_Prelude "HOL-Library.Multiset"
begin

text \<open>
  The binary heaps of \<open>src/lib/container/smartlist.c\<close>
  (\<open>smartlist_pqueue_add\<close>, \<open>_pop\<close>, \<open>_remove\<close>, \<open>_assert_ok\<close>) on the growable
  arrays of \<open>src/lib/smartlist_core\<close>. A smartlist is a list; the comparison function and the
  accessors of the item's index field (\<open>idx_field_offset\<close>) are arguments, as they are in C.
  Every operation maintains that index field, so that an item can be removed from the middle.

  The lemmas show that the heap order, the index fields and the contents are what they should be
  after an insertion and a removal of the minimum, and exactly when \<open>smartlist_pqueue_remove\<close>
  keeps the heap order: it only ever moves the replacement down.
\<close>

section \<open>Operations\<close>

text \<open>A list never outgrows \<open>INT_MAX\<close>: \<open>smartlist_ensure_capacity\<close> aborts.\<close>

definition smartlist_add :: "'a list \<Rightarrow> 'a \<Rightarrow> 'a list option" where
  "smartlist_add sl x = (if Suc (length sl) \<le> INT_MAX then Some (sl @ [x]) else None)"

abbreviation LEFT_CHILD :: "nat \<Rightarrow> nat" where "LEFT_CHILD i \<equiv> 2 * i + 1"

definition PARENT :: "nat \<Rightarrow> nat" where
  "PARENT i = (i - 1) div 2"

abbreviation MAX_PARENT_IDX :: nat where "MAX_PARENT_IDX \<equiv> (INT_MAX - 2) div 2"

lemma PARENT_less [simp]: "0 < i \<Longrightarrow> PARENT i < i"
  by (simp add: PARENT_def)

lemma PARENT_less_trans [simp]: "0 < i \<Longrightarrow> i < n \<Longrightarrow> PARENT i < n"
  by (simp add: PARENT_def)

lemma PARENT_neq [simp]: "0 < i \<Longrightarrow> PARENT i \<noteq> i" "0 < i \<Longrightarrow> i \<noteq> PARENT i"
  by (simp_all add: PARENT_def)

lemma PARENT_le [simp]: "PARENT i \<le> i" "\<not> i < PARENT i"
  by (simp_all add: PARENT_def)

lemma PARENT_iff: "0 < i \<Longrightarrow> PARENT i = idx \<longleftrightarrow> i = LEFT_CHILD idx \<or> i = LEFT_CHILD idx + 1"
  by (auto simp: PARENT_def)

lemma PARENT_LEFT [simp]: "PARENT (Suc (2 * i)) = i" "PARENT (Suc (Suc (2 * i))) = i"
  by (simp_all add: PARENT_def)

definition update_idx :: "(int \<Rightarrow> 'a \<Rightarrow> 'a) \<Rightarrow> nat \<Rightarrow> 'a list \<Rightarrow> 'a list" where
  "update_idx set_idx i sl = sl[i := set_idx (int i) (sl ! i)]"

definition swap_idx :: "(int \<Rightarrow> 'a \<Rightarrow> 'a) \<Rightarrow> nat \<Rightarrow> nat \<Rightarrow> 'a list \<Rightarrow> 'a list" where
  "swap_idx set_idx i j sl = update_idx set_idx j (update_idx set_idx i (sl[i := sl ! j, j := sl ! i]))"

lemma length_update_idx [simp]: "length (update_idx set_idx i sl) = length sl"
  by (simp add: update_idx_def)

lemma length_swap_idx [simp]: "length (swap_idx set_idx i j sl) = length sl"
  by (simp add: swap_idx_def)

definition best_child :: "('a \<Rightarrow> 'a \<Rightarrow> int) \<Rightarrow> 'a list \<Rightarrow> nat \<Rightarrow> nat" where
  "best_child compare sl idx =
     (let left_idx = LEFT_CHILD idx;
          best_idx = (if compare (sl ! idx) (sl ! left_idx) < 0 then idx else left_idx)
      in if left_idx + 1 < length sl \<and> compare (sl ! (left_idx + 1)) (sl ! best_idx) < 0
         then left_idx + 1 else best_idx)"

lemma best_PARENT_iff: "best_child compare sl idx \<in> {idx, LEFT_CHILD idx, LEFT_CHILD idx + 1}"
  by (simp add: best_child_def Let_def)

lemma best_child_length: "LEFT_CHILD idx < length sl \<Longrightarrow> best_child compare sl idx < length sl"
  by (auto simp: best_child_def Let_def)

function smartlist_heapify ::
    "('a \<Rightarrow> 'a \<Rightarrow> int) \<Rightarrow> (int \<Rightarrow> 'a \<Rightarrow> 'a) \<Rightarrow> 'a list \<Rightarrow> nat \<Rightarrow> 'a list" where
  "smartlist_heapify compare set_idx sl idx =
     (if \<not> idx \<le> MAX_PARENT_IDX then sl
      else if LEFT_CHILD idx \<ge> length sl then sl
      else let best_idx = best_child compare sl idx
           in if best_idx = idx then sl
              else smartlist_heapify compare set_idx (swap_idx set_idx idx best_idx sl) best_idx)"
  by pat_completeness auto
termination
proof (relation "measure (\<lambda>(_, _, sl, idx). length sl - idx)", goal_cases)
  case (2 compare set_idx sl idx b)
  then have "b \<in> {LEFT_CHILD idx, LEFT_CHILD idx + 1}" "b < length sl"
    using best_PARENT_iff [of compare sl idx] best_child_length [of idx sl compare] by auto
  then show ?case by auto
qed simp

declare smartlist_heapify.simps [simp del]

text \<open>Evaluation compares with the size limits as integers.\<close>

lemma smartlist_add_code [code]:
  "smartlist_add sl x = (if int (Suc (length sl)) \<le> 2147483647 then Some (sl @ [x]) else None)"
  by (simp add: smartlist_add_def)

lemma smartlist_heapify_code [code]:
  "smartlist_heapify compare set_idx sl idx =
     (if \<not> int idx \<le> 1073741822 then sl
      else if LEFT_CHILD idx \<ge> length sl then sl
      else let best_idx = best_child compare sl idx
           in if best_idx = idx then sl
              else smartlist_heapify compare set_idx (swap_idx set_idx idx best_idx sl) best_idx)"
  by (subst smartlist_heapify.simps) (simp add: Let_def)

fun sift_up :: "('a \<Rightarrow> 'a \<Rightarrow> int) \<Rightarrow> (int \<Rightarrow> 'a \<Rightarrow> 'a) \<Rightarrow> 'a list \<Rightarrow> nat \<Rightarrow> 'a list" where
  "sift_up compare set_idx sl idx =
     (if idx = 0 then sl
      else let parent = PARENT idx
           in if compare (sl ! idx) (sl ! parent) < 0
              then sift_up compare set_idx (swap_idx set_idx parent idx sl) parent
              else sl)"

declare sift_up.simps [simp del]

definition smartlist_pqueue_add ::
    "('a \<Rightarrow> 'a \<Rightarrow> int) \<Rightarrow> (int \<Rightarrow> 'a \<Rightarrow> 'a) \<Rightarrow> 'a list \<Rightarrow> 'a \<Rightarrow> 'a list option" where
  "smartlist_pqueue_add compare set_idx sl item = do {
     sl1 \<leftarrow> smartlist_add sl item;
     Some (sift_up compare set_idx (update_idx set_idx (length sl1 - 1) sl1) (length sl1 - 1))
   }"

definition smartlist_pqueue_pop ::
    "('a \<Rightarrow> 'a \<Rightarrow> int) \<Rightarrow> (int \<Rightarrow> 'a \<Rightarrow> 'a) \<Rightarrow> 'a list \<Rightarrow> ('a \<times> 'a list) option" where
  "smartlist_pqueue_pop compare set_idx sl =
     (if sl = [] then None
      else let top = set_idx (-1) (sl ! 0);
               n = length sl - 1
           in Some (top,
                if n \<noteq> 0
                then smartlist_heapify compare set_idx
                       (update_idx set_idx 0 ((butlast sl)[0 := sl ! n])) 0
                else []))"

text \<open>The item to remove is found through its own index field; \<open>tor_assert\<close> checks that it is
  where it says. Slots past the end hold \<open>NULL\<close>, which is no item.\<close>

definition smartlist_pqueue_remove ::
    "('a \<Rightarrow> 'a \<Rightarrow> int) \<Rightarrow> (int \<Rightarrow> 'a \<Rightarrow> 'a) \<Rightarrow> ('a \<Rightarrow> int) \<Rightarrow> 'a list \<Rightarrow> 'a
      \<Rightarrow> ('a \<times> 'a list) option" where
  "smartlist_pqueue_remove compare set_idx get_idx sl item =
     (if get_idx item < 0 then None
      else let idx = nat (get_idx item)
           in if \<not> (idx < length sl \<and> sl ! idx = item) then None
              else let n = length sl - 1
                   in Some (set_idx (-1) item,
                        if idx = n then butlast sl
                        else smartlist_heapify compare set_idx
                               (update_idx set_idx idx ((butlast sl)[idx := sl ! n])) idx))"

definition smartlist_pqueue_assert_ok :: "('a \<Rightarrow> 'a \<Rightarrow> int) \<Rightarrow> ('a \<Rightarrow> int) \<Rightarrow> 'a list \<Rightarrow> bool" where
  "smartlist_pqueue_assert_ok compare get_idx sl \<longleftrightarrow>
     list_all (\<lambda>i. (i > 0 \<longrightarrow> compare (sl ! PARENT i) (sl ! i) \<le> 0) \<and> get_idx (sl ! i) = int i)
       (rev [0 ..< length sl])"

section \<open>Items with an index field\<close>

text \<open>What holds whether or not the list is in heap order, and whether or not \<open>compare\<close> is an
  order: the operations lose no item, and every index field is right.\<close>

locale indexed_queue =
  fixes compare :: "'a \<Rightarrow> 'a \<Rightarrow> int" and set_idx :: "int \<Rightarrow> 'a \<Rightarrow> 'a" and get_idx :: "'a \<Rightarrow> int"
  assumes get_set [simp]: "get_idx (set_idx i x) = i"
    and set_set [simp]: "set_idx i (set_idx j x) = set_idx i x"
begin

definition indexed :: "'a list \<Rightarrow> bool" where
  "indexed sl \<longleftrightarrow> (\<forall>i < length sl. get_idx (sl ! i) = int i)"

text \<open>The contents, without the index fields.\<close>

definition bag :: "'a list \<Rightarrow> 'a multiset" where
  "bag sl = mset (map (set_idx 0) sl)"

lemma swap_idx_nth:
  "i < length sl \<Longrightarrow> j < length sl \<Longrightarrow> i \<noteq> j \<Longrightarrow> k < length sl \<Longrightarrow>
    swap_idx set_idx i j sl ! k =
      (if k = i then set_idx (int i) (sl ! j)
       else if k = j then set_idx (int j) (sl ! i) else sl ! k)"
  by (auto simp: swap_idx_def update_idx_def nth_list_update)

lemma map_update_idx: "i < length sl \<Longrightarrow> map (set_idx 0) (update_idx set_idx i sl) = map (set_idx 0) sl"
  by (simp add: update_idx_def map_update list_update_same_conv)

lemma bag_update_idx [simp]: "i < length sl \<Longrightarrow> bag (update_idx set_idx i sl) = bag sl"
  by (simp only: bag_def map_update_idx)

lemma bag_swap_idx [simp]:
  assumes "i < length sl" and "j < length sl"
  shows "bag (swap_idx set_idx i j sl) = bag sl"
proof -
  have "bag (swap_idx set_idx i j sl) = bag (sl[i := sl ! j, j := sl ! i])"
    using assms by (simp add: swap_idx_def)
  also have "\<dots> = bag sl"
    using assms by (simp add: bag_def mset_swap)
  finally show ?thesis .
qed

lemma indexed_swap_idx:
  "i < length sl \<Longrightarrow> j < length sl \<Longrightarrow> i \<noteq> j \<Longrightarrow> indexed sl \<Longrightarrow> indexed (swap_idx set_idx i j sl)"
  by (simp add: indexed_def swap_idx_nth)

text \<open>An induction for the loop of \<open>smartlist_heapify\<close>: a fact that one round of it hands on.\<close>

lemma heapify_induct [consumes 0, case_names stop swap]:
  assumes stop: "\<And>sl idx. \<not> idx \<le> MAX_PARENT_IDX \<or> LEFT_CHILD idx \<ge> length sl \<or>
      best_child compare sl idx = idx \<Longrightarrow> P sl idx sl"
    and swap: "\<And>sl idx b. idx \<le> MAX_PARENT_IDX \<Longrightarrow> LEFT_CHILD idx < length sl \<Longrightarrow>
      b = best_child compare sl idx \<Longrightarrow> b \<noteq> idx \<Longrightarrow> idx < b \<Longrightarrow> b < length sl \<Longrightarrow>
      P (swap_idx set_idx idx b sl) b (smartlist_heapify compare set_idx (swap_idx set_idx idx b sl) b) \<Longrightarrow>
      P sl idx (smartlist_heapify compare set_idx (swap_idx set_idx idx b sl) b)"
  shows "P sl idx (smartlist_heapify compare set_idx sl idx)"
proof (induction "length sl - idx" arbitrary: sl idx rule: less_induct)
  case less
  let ?b = "best_child compare sl idx"
  show ?case
  proof (cases "\<not> idx \<le> MAX_PARENT_IDX \<or> LEFT_CHILD idx \<ge> length sl \<or> ?b = idx")
    case True
    then show ?thesis
      by (subst smartlist_heapify.simps) (auto simp: Let_def intro: stop)
  next
    case False
    then have b: "idx < ?b" "?b < length sl"
      using best_PARENT_iff [of compare sl idx] best_child_length [of idx sl compare] by auto
    then show ?thesis
      using False less [of "swap_idx set_idx idx ?b sl" ?b] swap [of idx sl ?b]
      by (subst smartlist_heapify.simps) (simp add: Let_def)
  qed
qed

lemma heapify_length [simp]: "length (smartlist_heapify compare set_idx sl idx) = length sl"
  by (rule heapify_induct [of "\<lambda>sl idx r. length r = length sl"]) simp_all

lemma heapify_bag [simp]: "bag (smartlist_heapify compare set_idx sl idx) = bag sl"
  by (rule heapify_induct [of "\<lambda>sl idx r. bag r = bag sl"]) simp_all

lemma heapify_indexed: "indexed sl \<Longrightarrow> indexed (smartlist_heapify compare set_idx sl idx)"
  by (rule heapify_induct [of "\<lambda>sl idx r. indexed sl \<longrightarrow> indexed r", rule_format])
    (simp_all add: indexed_swap_idx)

lemma sift_up_keeps:
  "idx < length sl \<Longrightarrow> indexed sl \<Longrightarrow>
    indexed (sift_up compare set_idx sl idx) \<and> bag (sift_up compare set_idx sl idx) = bag sl \<and>
    length (sift_up compare set_idx sl idx) = length sl"
proof (induction idx arbitrary: sl rule: less_induct)
  case (less idx)
  show ?case
  proof (cases "idx \<noteq> 0 \<and> compare (sl ! idx) (sl ! PARENT idx) < 0")
    case True
    then show ?thesis
      using less.IH [of "PARENT idx" "swap_idx set_idx (PARENT idx) idx sl"] less.prems indexed_swap_idx [of "PARENT idx" sl idx]
      by (subst (1 2 3) sift_up.simps) (simp add: Let_def)
  next
    case False
    then show ?thesis using less.prems by (subst (1 2 3) sift_up.simps) (auto simp: Let_def)
  qed
qed

text \<open>Pop and remove put the last item into the freed slot \<open>idx\<close>.\<close>

definition refilled :: "'a list \<Rightarrow> nat \<Rightarrow> 'a list" where
  "refilled sl idx = update_idx set_idx idx ((butlast sl)[idx := last sl])"

lemma length_refilled [simp]: "length (refilled sl idx) = length sl - 1"
  by (simp add: refilled_def)

lemma refilled_nth:
  "idx < length sl - 1 \<Longrightarrow> k < length sl - 1 \<Longrightarrow>
    refilled sl idx ! k = (if k = idx then set_idx (int idx) (last sl) else sl ! k)"
  by (simp add: refilled_def update_idx_def nth_butlast)

lemma refilled_indexed: "idx < length sl - 1 \<Longrightarrow> indexed sl \<Longrightarrow> indexed (refilled sl idx)"
  by (simp add: indexed_def refilled_nth)

lemma bag_butlast: "sl \<noteq> [] \<Longrightarrow> bag sl = add_mset (set_idx 0 (last sl)) (bag (butlast sl))"
  by (cases sl rule: rev_cases) (simp_all add: bag_def)

lemma refilled_bag:
  assumes "idx < length sl - 1"
  shows "add_mset (set_idx 0 (sl ! idx)) (bag (refilled sl idx)) = bag sl"
proof -
  have "sl \<noteq> []" using assms by auto
  then have "bag sl = add_mset (set_idx 0 (last sl)) (bag (butlast sl))"
    by (rule bag_butlast)
  moreover have "bag (refilled sl idx) = bag ((butlast sl)[idx := last sl])"
    using assms by (simp add: refilled_def)
  moreover have "add_mset (set_idx 0 (sl ! idx)) (bag ((butlast sl)[idx := y]))
      = add_mset (set_idx 0 y) (bag (butlast sl))" for y
    using assms nth_mem [of idx "butlast sl"]
    by (simp add: bag_def map_update mset_update nth_butlast)
  ultimately show ?thesis by simp
qed

lemma add_keeps:
  assumes "indexed sl" and "smartlist_pqueue_add compare set_idx sl x = Some sl'"
  shows "indexed sl' \<and> bag sl' = add_mset (set_idx 0 x) (bag sl) \<and> length sl' = Suc (length sl) \<and> length sl' \<le> INT_MAX"
proof -
  let ?sl = "update_idx set_idx (length sl) (sl @ [x])"
  have sl': "sl' = sift_up compare set_idx ?sl (length sl)" "Suc (length sl) \<le> INT_MAX"
    using assms(2) by (auto simp: smartlist_pqueue_add_def smartlist_add_def split: if_splits)
  have upd: "?sl = sl @ [set_idx (int (length sl)) x]" by (simp add: update_idx_def)
  have "indexed ?sl"
    using assms(1) unfolding upd indexed_def by (auto simp: nth_append less_Suc_eq)
  moreover have "bag ?sl = add_mset (set_idx 0 x) (bag sl)"
    unfolding upd bag_def by simp
  ultimately show ?thesis
    using sift_up_keeps [of "length sl" ?sl] sl' by simp
qed

lemma pop_refilled:
  "smartlist_pqueue_pop compare set_idx sl =
     (if sl = [] then None
      else Some (set_idx (-1) (sl ! 0),
        if length sl = 1 then [] else smartlist_heapify compare set_idx (refilled sl 0) 0))"
  by (auto simp: smartlist_pqueue_pop_def refilled_def Let_def last_conv_nth neq_Nil_conv)

lemma pop_keeps:
  assumes "indexed sl" and "smartlist_pqueue_pop compare set_idx sl = Some (item, sl')"
  shows "sl \<noteq> [] \<and> item = set_idx (-1) (sl ! 0) \<and> indexed sl' \<and> length sl = Suc (length sl') \<and>
    bag sl = add_mset (set_idx 0 item) (bag sl')"
proof -
  have ne: "sl \<noteq> []" and it: "item = set_idx (-1) (sl ! 0)"
    using assms(2) by (auto simp: pop_refilled split: if_splits)
  show ?thesis
  proof (cases "length sl = 1")
    case True
    then obtain x where "sl = [x]" by (auto simp: length_Suc_conv)
    then show ?thesis using assms(2) by (auto simp: pop_refilled indexed_def bag_def)
  next
    case False
    then have l: "0 < length sl - 1" using ne by (cases sl) auto
    then have "sl' = smartlist_heapify compare set_idx (refilled sl 0) 0"
      using assms(2) False ne by (simp add: pop_refilled)
    then show ?thesis
      using l it ne heapify_indexed [OF refilled_indexed [OF l assms(1)]] refilled_bag [OF l] by simp
  qed
qed

text \<open>What is removed from the top does not depend on the key of the top.\<close>

lemma pop_top_update:
  assumes "smartlist_pqueue_pop compare set_idx sl = Some (item, sl')"
  shows "smartlist_pqueue_pop compare set_idx (sl[0 := x]) = Some (set_idx (-1) x, sl')"
proof (cases "length sl \<le> 1")
  case True
  then show ?thesis using assms by (cases sl) (auto simp: pop_refilled)
next
  case False
  then have "refilled (sl[0 := x]) 0 = refilled sl 0"
    by (cases sl) (auto simp: refilled_def)
  then show ?thesis using assms False by (auto simp: pop_refilled split: if_splits)
qed

lemma remove_refilled:
  assumes "indexed sl" and "idx < length sl"
  shows "smartlist_pqueue_remove compare set_idx get_idx sl (sl ! idx) =
    Some (set_idx (-1) (sl ! idx),
      if idx = length sl - 1 then butlast sl
      else smartlist_heapify compare set_idx (refilled sl idx) idx)"
proof -
  have "sl \<noteq> []" using assms by auto
  then show ?thesis
    using assms by (simp add: smartlist_pqueue_remove_def indexed_def refilled_def last_conv_nth)
qed

lemma remove_keeps:
  assumes "indexed sl" and "idx < length sl"
    and "smartlist_pqueue_remove compare set_idx get_idx sl (sl ! idx) = Some (item, sl')"
  shows "item = set_idx (-1) (sl ! idx) \<and> indexed sl' \<and> length sl = Suc (length sl') \<and>
    bag sl = add_mset (set_idx 0 item) (bag sl')"
proof (cases "idx = length sl - 1")
  case True
  have ne: "sl \<noteq> []" using assms by auto
  then have r: "item = set_idx (-1) (last sl)" "sl' = butlast sl"
    using assms(3) True remove_refilled [OF assms(1,2)] by (auto simp: last_conv_nth)
  then show ?thesis
    using ne assms(1) True bag_butlast [OF ne] by (simp add: indexed_def nth_butlast last_conv_nth)
next
  case False
  then have idx: "idx < length sl - 1" using assms(2) by auto
  then have r: "item = set_idx (-1) (sl ! idx)"
      "sl' = smartlist_heapify compare set_idx (refilled sl idx) idx"
    using assms(3) False remove_refilled [OF assms(1,2)] by auto
  then show ?thesis
    using idx refilled_bag [OF idx] heapify_indexed [OF refilled_indexed [OF idx assms(1)]] by simp
qed

end

section \<open>The heap order\<close>

text \<open>What the C code relies on: \<open>compare\<close> orders the items by a key that the index field is
  no part of.\<close>

locale heap_order = indexed_queue compare set_idx get_idx
  for compare :: "'a \<Rightarrow> 'a \<Rightarrow> int" and set_idx :: "int \<Rightarrow> 'a \<Rightarrow> 'a" and get_idx :: "'a \<Rightarrow> int" +
  fixes key :: "'a \<Rightarrow> 'k::linorder"
  assumes compare_lt: "compare x y < 0 \<longleftrightarrow> key x < key y"
    and compare_le: "compare x y \<le> 0 \<longleftrightarrow> key x \<le> key y"
    and key_set [simp]: "key (set_idx i x) = key x"
begin

definition heap :: "'a list \<Rightarrow> bool" where
  "heap sl \<longleftrightarrow> (\<forall>i. 0 < i \<longrightarrow> i < length sl \<longrightarrow> key (sl ! PARENT i) \<le> key (sl ! i))"

lemma assert_ok_iff: "smartlist_pqueue_assert_ok compare get_idx sl \<longleftrightarrow> heap sl \<and> indexed sl"
  by (auto simp: smartlist_pqueue_assert_ok_def heap_def indexed_def compare_le list_all_iff)

subsection \<open>Sifting down\<close>

text \<open>The state of the loop of \<open>smartlist_heapify\<close>: the only place where the order can fail is
  between \<open>idx\<close> and its children, and the children of \<open>idx\<close> are not below its parent.\<close>

definition hole_down :: "'a list \<Rightarrow> nat \<Rightarrow> bool" where
  "hole_down sl idx \<longleftrightarrow>
     (\<forall>i. 0 < i \<longrightarrow> i < length sl \<longrightarrow> PARENT i \<noteq> idx \<longrightarrow> key (sl ! PARENT i) \<le> key (sl ! i)) \<and>
     (\<forall>i. 0 < i \<longrightarrow> i < length sl \<longrightarrow> PARENT i = idx \<longrightarrow> 0 < idx \<longrightarrow> key (sl ! PARENT idx) \<le> key (sl ! i))"

lemma best_child_key:
  assumes "LEFT_CHILD idx < length sl"
  shows "key (sl ! best_child compare sl idx) \<le> key (sl ! idx)"
    and "key (sl ! best_child compare sl idx) \<le> key (sl ! LEFT_CHILD idx)"
    and "LEFT_CHILD idx + 1 < length sl \<Longrightarrow>
      key (sl ! best_child compare sl idx) \<le> key (sl ! (LEFT_CHILD idx + 1))"
  by (auto simp: best_child_def Let_def compare_lt)

lemma heapify_stop:
  assumes "hole_down sl idx" and "length sl \<le> INT_MAX"
    and "\<not> idx \<le> MAX_PARENT_IDX \<or> LEFT_CHILD idx \<ge> length sl \<or> best_child compare sl idx = idx"
  shows "heap sl"
  unfolding heap_def
proof (intro allI impI)
  fix i assume i: "0 < i" "i < length sl"
  show "key (sl ! PARENT i) \<le> key (sl ! i)"
  proof (cases "PARENT i = idx")
    case False
    then show ?thesis using assms(1) i by (simp add: hole_down_def)
  next
    case True
    then have c: "i = LEFT_CHILD idx \<or> i = LEFT_CHILD idx + 1" using i PARENT_iff by blast
    then have "LEFT_CHILD idx < length sl" "idx \<le> MAX_PARENT_IDX" using i assms(2) by auto
    with assms(3) have b: "best_child compare sl idx = idx" by auto
    show ?thesis
      using c True b best_child_key [OF \<open>LEFT_CHILD idx < length sl\<close>] i by auto
  qed
qed

lemma heapify_swap:
  assumes hole: "hole_down sl idx" and l: "LEFT_CHILD idx < length sl"
    and b: "b = best_child compare sl idx" "b \<noteq> idx"
  shows "hole_down (swap_idx set_idx idx b sl) b"
proof -
  have bc: "b = LEFT_CHILD idx \<or> b = LEFT_CHILD idx + 1"
    using best_PARENT_iff [of compare sl idx] b by auto
  have bl: "b < length sl" and il: "idx < length sl"
    using best_child_length [OF l] b l by auto
  note nth = swap_idx_nth [OF il bl b(2) [symmetric]]
  have pb: "PARENT b = idx" using bc by auto
  have lt: "idx < b" using bc by auto
  have le: "key (sl ! b) \<le> key (sl ! idx)"
    using best_child_key(1) [OF l] b by simp
  show ?thesis
    unfolding hole_down_def
  proof (intro conjI allI impI, goal_cases)
    case (1 i)
    have pi: "PARENT i < length sl" using 1 by auto
    consider (child) "PARENT i = idx" | (top) "i = idx" "PARENT i \<noteq> idx"
      | (other) "PARENT i \<noteq> idx" "i \<noteq> idx" by blast
    then show ?case
    proof cases
      case child
      then have "i = LEFT_CHILD idx \<or> i = LEFT_CHILD idx + 1" using 1 PARENT_iff by blast
      then have "key (sl ! b) \<le> key (sl ! i)"
        using best_child_key(2,3) [OF l] b 1 by auto
      moreover have "idx \<noteq> i" using child 1 by auto
      ultimately show ?thesis
        using child 1 le pi by (simp add: nth b(2) [symmetric])
    next
      case top
      then have "key (sl ! PARENT idx) \<le> key (sl ! b)"
        using hole bl pb 1 lt by (simp add: hole_down_def)
      then show ?thesis using top 1 pi by (auto simp: nth)
    next
      case other
      then have "i \<noteq> b" using pb by auto
      then show ?thesis
        using other 1 hole pi by (simp add: nth hole_down_def)
    qed
  next
    case (2 i)
    have "i \<noteq> idx" "i \<noteq> b" using 2 lt by auto
    moreover have "key (sl ! b) \<le> key (sl ! i)"
      using hole 2 lt by (auto simp: hole_down_def)
    ultimately show ?case
      using 2 pb il by (simp add: nth)
  qed
qed

lemma heapify_heap:
  "hole_down sl idx \<Longrightarrow> length sl \<le> INT_MAX \<Longrightarrow> heap (smartlist_heapify compare set_idx sl idx)"
  by (rule heapify_induct [of "\<lambda>sl idx r. hole_down sl idx \<longrightarrow> length sl \<le> INT_MAX \<longrightarrow> heap r",
        rule_format]) (auto simp: heapify_swap intro: heapify_stop)

subsection \<open>Sifting up\<close>

definition hole_up :: "'a list \<Rightarrow> nat \<Rightarrow> bool" where
  "hole_up sl idx \<longleftrightarrow>
     (\<forall>i. 0 < i \<longrightarrow> i < length sl \<longrightarrow> i \<noteq> idx \<longrightarrow> key (sl ! PARENT i) \<le> key (sl ! i)) \<and>
     (\<forall>i. 0 < i \<longrightarrow> i < length sl \<longrightarrow> PARENT i = idx \<longrightarrow> 0 < idx \<longrightarrow> key (sl ! PARENT idx) \<le> key (sl ! i))"

lemma sift_up_swap:
  assumes hole: "hole_up sl idx" and idx: "0 < idx" "idx < length sl"
    and lt: "key (sl ! idx) < key (sl ! PARENT idx)"
  shows "hole_up (swap_idx set_idx (PARENT idx) idx sl) (PARENT idx)"
proof -
  let ?p = "PARENT idx"
  have pl: "?p < length sl" "?p \<noteq> idx" "?p < idx" using idx by auto
  note nth = swap_idx_nth [OF pl(1) idx(2) pl(2)]
  show ?thesis
    unfolding hole_up_def
  proof (intro conjI allI impI, goal_cases)
    case (1 i)
    have pi: "PARENT i < length sl" "PARENT i < i" using 1 by auto
    have "key (sl ! ?p) \<le> key (sl ! i)" if "PARENT i = idx"
      using hole 1 idx that by (simp add: hole_up_def)
    moreover have "key (sl ! idx) \<le> key (sl ! i)" if "PARENT i = ?p" "i \<noteq> idx"
    proof -
      have "key (sl ! ?p) \<le> key (sl ! i)" using hole 1 that by (metis hole_up_def length_swap_idx)
      then show ?thesis using lt by simp
    qed
    moreover have "key (sl ! PARENT i) \<le> key (sl ! i)" if "i \<noteq> idx"
      using hole 1 that by (simp add: hole_up_def)
    ultimately show ?case
      using 1 pi pl lt by (auto simp: nth less_imp_le)
  next
    case (2 i)
    have "PARENT ?p < idx" using PARENT_le(1) [of ?p] pl(3) by (rule le_less_trans)
    then have "PARENT ?p \<noteq> idx" by (rule less_imp_neq)
    then have pp: "PARENT ?p < length sl" "PARENT ?p \<noteq> ?p" "PARENT ?p \<noteq> idx"
      using 2 pl by simp_all
    have top: "key (sl ! PARENT ?p) \<le> key (sl ! ?p)"
      using hole 2 pl by (simp add: hole_up_def)
    have "key (sl ! ?p) \<le> key (sl ! i)" if "i \<noteq> idx"
      using hole 2 that by (metis hole_up_def length_swap_idx)
    then show ?case
      using 2 pp pl top by (auto simp: nth intro: order_trans)
  qed
qed

lemma sift_up_all:
  "idx < length sl \<Longrightarrow> hole_up sl idx \<Longrightarrow> indexed sl \<Longrightarrow>
    heap (sift_up compare set_idx sl idx) \<and> indexed (sift_up compare set_idx sl idx) \<and>
    bag (sift_up compare set_idx sl idx) = bag sl \<and>
    length (sift_up compare set_idx sl idx) = length sl"
proof (induction idx arbitrary: sl rule: less_induct)
  case (less idx)
  show ?case
  proof (cases "idx \<noteq> 0 \<and> key (sl ! idx) < key (sl ! PARENT idx)")
    case True
    let ?sl = "swap_idx set_idx (PARENT idx) idx sl"
    have p: "PARENT idx < idx" "PARENT idx < length sl" using True less.prems by auto
    have "hole_up ?sl (PARENT idx)"
      using True less.prems by (intro sift_up_swap) auto
    moreover have "indexed ?sl"
      using p less.prems by (intro indexed_swap_idx) auto
    ultimately show ?thesis
      using less.IH [OF p(1), of ?sl] True p less.prems
      by (subst (1 2 3 4) sift_up.simps) (simp add: compare_lt Let_def)
  next
    case False
    then have "sift_up compare set_idx sl idx = sl"
      by (subst sift_up.simps) (auto simp: compare_lt Let_def)
    moreover have "heap sl"
      using False less.prems(2) by (auto simp: heap_def hole_up_def not_less)
    ultimately show ?thesis using less.prems by simp
  qed
qed

subsection \<open>The queue operations\<close>

lemma heap_top: "heap sl \<Longrightarrow> i < length sl \<Longrightarrow> key (sl ! 0) \<le> key (sl ! i)"
proof (induction i rule: less_induct)
  case (less i)
  show ?case
  proof (cases "i = 0")
    case False
    then have "key (sl ! 0) \<le> key (sl ! PARENT i)" using less by auto
    also have "\<dots> \<le> key (sl ! i)" using less.prems False by (simp add: heap_def)
    finally show ?thesis .
  qed simp
qed

lemma add_ok:
  assumes "heap sl" and "indexed sl" and "smartlist_pqueue_add compare set_idx sl x = Some sl'"
  shows "heap sl' \<and> indexed sl' \<and> bag sl' = add_mset (set_idx 0 x) (bag sl) \<and>
    length sl' = Suc (length sl) \<and> length sl' \<le> INT_MAX"
proof -
  let ?sl = "update_idx set_idx (length sl) (sl @ [x])"
  have sl': "sl' = sift_up compare set_idx ?sl (length sl)" "Suc (length sl) \<le> INT_MAX"
    using assms(3) by (auto simp: smartlist_pqueue_add_def smartlist_add_def split: if_splits)
  have upd: "?sl = sl @ [set_idx (int (length sl)) x]"
    by (simp add: update_idx_def)
  have "hole_up ?sl (length sl)"
    unfolding upd hole_up_def
  proof (intro conjI allI impI, goal_cases)
    case (1 i)
    then show ?case using assms(1) by (simp add: heap_def nth_append less_Suc_eq)
  next
    case (2 i)
    then show ?case using PARENT_less [of i] by (auto simp: less_Suc_eq)
  qed
  moreover have "indexed ?sl"
    using assms(2) unfolding upd indexed_def by (auto simp: nth_append less_Suc_eq)
  moreover have "bag ?sl = add_mset (set_idx 0 x) (bag sl)"
    unfolding upd bag_def by simp
  ultimately show ?thesis
    using sift_up_all [of "length sl" ?sl] sl' by simp
qed

lemma heap_nth: "heap sl \<Longrightarrow> 0 < i \<Longrightarrow> i < length sl \<Longrightarrow> key (sl ! PARENT i) \<le> key (sl ! i)"
  by (simp add: heap_def)

lemma refilled_hole_down:
  assumes "heap sl" and idx: "idx < length sl - 1"
    and up: "idx = 0 \<or> key (sl ! PARENT idx) \<le> key (last sl)"
  shows "hole_down (refilled sl idx) idx"
  unfolding hole_down_def length_refilled
proof (intro conjI allI impI)
  fix i assume i: "0 < i" "i < length sl - 1"
  have p: "PARENT i < length sl - 1" using i by simp
  have le: "key (sl ! PARENT i) \<le> key (sl ! i)" using assms(1) i by (intro heap_nth) auto
  show "key (refilled sl idx ! PARENT i) \<le> key (refilled sl idx ! i)" if "PARENT i \<noteq> idx"
    using that i idx up le by (auto simp: refilled_nth [OF idx p] refilled_nth [OF idx i(2)])
  show "key (refilled sl idx ! PARENT idx) \<le> key (refilled sl idx ! i)"
    if c: "PARENT i = idx" "0 < idx"
  proof -
    have q: "PARENT idx < length sl - 1" "PARENT idx \<noteq> idx" "i \<noteq> idx" using idx c by auto
    have "key (sl ! PARENT idx) \<le> key (sl ! idx)" using assms(1) idx c by (intro heap_nth) auto
    also have "\<dots> \<le> key (sl ! i)" using le c by simp
    finally show ?thesis by (simp only: refilled_nth [OF idx q(1)] refilled_nth [OF idx i(2)] q if_False)
  qed
qed

lemma pop_ok:
  assumes "heap sl" and "indexed sl" and "length sl \<le> INT_MAX"
    and "smartlist_pqueue_pop compare set_idx sl = Some (item, sl')"
  shows "heap sl' \<and> indexed sl' \<and> length sl = Suc (length sl') \<and> item = set_idx (-1) (sl ! 0) \<and>
    bag sl = add_mset (set_idx 0 item) (bag sl') \<and> (\<forall>y \<in> set sl'. key item \<le> key y)"
proof -
  have ne: "sl \<noteq> []" and it: "item = set_idx (-1) (sl ! 0)"
    using assms(4) by (auto simp: pop_refilled split: if_splits)
  have "heap sl' \<and> indexed sl' \<and> length sl = Suc (length sl') \<and>
    bag sl = add_mset (set_idx 0 item) (bag sl')"
  proof (cases "length sl = 1")
    case True
    then obtain x where "sl = [x]" by (auto simp: length_Suc_conv)
    then show ?thesis using assms(4) by (auto simp: pop_refilled heap_def indexed_def bag_def)
  next
    case False
    then have l: "0 < length sl - 1" using ne by (cases sl) auto
    then have "sl' = smartlist_heapify compare set_idx (refilled sl 0) 0"
      using assms(4) False ne by (simp add: pop_refilled)
    then show ?thesis
      using l assms(3) it heapify_heap [OF refilled_hole_down [OF assms(1) l]]
        heapify_indexed [OF refilled_indexed [OF l assms(2)]] refilled_bag [OF l]
      by simp
  qed
  moreover have "key item \<le> key z" if "z \<in> set sl'" "bag sl = add_mset (set_idx 0 item) (bag sl')" for z
  proof -
    have "set_idx 0 z \<in># bag sl" using that by (simp add: bag_def)
    then obtain i where "i < length sl" "set_idx 0 z = set_idx 0 (sl ! i)"
      by (auto simp: bag_def in_set_conv_nth)
    then show ?thesis
      using heap_top [OF assms(1), of i] it by (metis key_set)
  qed
  ultimately show ?thesis using it by blast
qed

text \<open>Removal from the middle. The heap order survives exactly when the last item is not below the
  parent of the slot it is moved to.\<close>

lemma remove_ok:
  assumes "heap sl" and "indexed sl" and "length sl \<le> INT_MAX" and "idx < length sl"
    and "smartlist_pqueue_remove compare set_idx get_idx sl (sl ! idx) = Some (item, sl')"
  shows "indexed sl' \<and> bag sl = add_mset (set_idx 0 item) (bag sl') \<and>
    (heap sl' \<longleftrightarrow> idx = length sl - 1 \<or> idx = 0 \<or> key (sl ! PARENT idx) \<le> key (last sl))"
proof (cases "idx = length sl - 1")
  case True
  have ne: "sl \<noteq> []" using assms by auto
  then have r: "item = set_idx (-1) (last sl)" "sl' = butlast sl"
    using assms(5) True remove_refilled [OF assms(2,4)] by (auto simp: last_conv_nth)
  then have "bag sl = add_mset (set_idx 0 item) (bag sl')"
    using bag_butlast [OF ne] by simp
  moreover have "heap sl'"
    unfolding r heap_def
  proof (intro allI impI)
    fix i assume "0 < i" "i < length (butlast sl)"
    moreover from this have "PARENT i < length (butlast sl)" by auto
    ultimately show "key (butlast sl ! PARENT i) \<le> key (butlast sl ! i)"
      using assms(1) by (simp add: nth_butlast heap_nth)
  qed
  moreover have "indexed sl'"
    using assms(2) by (simp add: r indexed_def nth_butlast)
  ultimately show ?thesis using True by simp
next
  case False
  then have idx: "idx < length sl - 1" using assms(4) by auto
  then have r: "item = set_idx (-1) (sl ! idx)"
      "sl' = smartlist_heapify compare set_idx (refilled sl idx) idx"
    using assms(5) False remove_refilled [OF assms(2,4)] by auto
  have "indexed sl' \<and> bag sl = add_mset (set_idx 0 item) (bag sl')"
    using r refilled_bag [OF idx] heapify_indexed [OF refilled_indexed [OF idx assms(2)]] by simp
  moreover have "heap sl'" if "idx = 0 \<or> key (sl ! PARENT idx) \<le> key (last sl)"
    using heapify_heap [OF refilled_hole_down [OF assms(1) idx that]] assms(3) r by simp
  moreover have "\<not> heap sl'" if up: "idx \<noteq> 0" "\<not> key (sl ! PARENT idx) \<le> key (last sl)"
  proof -
    have below: "key (last sl) < key (sl ! i)" if "0 < i" "i < length sl - 1" "PARENT i = idx" for i
    proof -
      have "key (sl ! PARENT idx) \<le> key (sl ! idx)" "key (sl ! PARENT i) \<le> key (sl ! i)"
        using assms(1) idx up that by (intro heap_nth; auto)+
      then show ?thesis using up that by auto
    qed
    have "best_child compare (refilled sl idx) idx = idx" if l: "LEFT_CHILD idx < length sl - 1"
      using idx l below [of "LEFT_CHILD idx"] below [of "LEFT_CHILD idx + 1"]
      by (auto simp: best_child_def Let_def compare_lt refilled_nth)
    then have "sl' = refilled sl idx"
      unfolding r by (subst smartlist_heapify.simps) (simp add: Let_def)
    moreover have "\<not> heap (refilled sl idx)"
    proof
      assume "heap (refilled sl idx)"
      then have "key (refilled sl idx ! PARENT idx) \<le> key (refilled sl idx ! idx)"
        using idx up by (intro heap_nth) auto
      moreover have "PARENT idx < length sl - 1" "PARENT idx \<noteq> idx" using idx up by auto
      ultimately show False using up idx by (simp add: refilled_nth)
    qed
    ultimately show ?thesis by simp
  qed
  ultimately show ?thesis using False by blast
qed

end

section \<open>Properties\<close>

text \<open>The contents of a queue: its items, whatever their index fields say.\<close>

definition contents :: "(int \<Rightarrow> 'a \<Rightarrow> 'a) \<Rightarrow> 'a list \<Rightarrow> 'a multiset" where
  "contents set_idx sl = mset (map (set_idx 0) sl)"

text \<open>Items that carry nothing but a key and an index: the instance the witnesses run on.\<close>

abbreviation pair_compare :: "int \<times> int \<Rightarrow> int \<times> int \<Rightarrow> int" where
  "pair_compare x y \<equiv> fst x - fst y"

abbreviation pair_set_idx :: "int \<Rightarrow> int \<times> int \<Rightarrow> int \<times> int" where
  "pair_set_idx i x \<equiv> (fst x, i)"

interpretation pairs: heap_order pair_compare pair_set_idx snd fst
  by unfold_locales auto

text \<open>
  C4. The binary heap is a priority queue. On a queue that passes
  \<open>smartlist_pqueue_assert_ok\<close>, an insertion below the size limit does not abort, adds
  exactly the new item and leaves a queue that passes the check again; the removal that follows
  does not abort either, takes exactly one item out, that item is a least one, and the rest
  passes the check.
\<close>

theorem smartlist_pqueue_add_pop:
  assumes "heap_order compare set_idx get_idx key"
    and "smartlist_pqueue_assert_ok compare get_idx sl" and "length sl < INT_MAX"
  shows "\<exists>sl1 m sl2.
    smartlist_pqueue_add compare set_idx sl x = Some sl1 \<and>
    smartlist_pqueue_assert_ok compare get_idx sl1 \<and>
    contents set_idx sl1 = add_mset (set_idx 0 x) (contents set_idx sl) \<and>
    smartlist_pqueue_pop compare set_idx sl1 = Some (m, sl2) \<and>
    smartlist_pqueue_assert_ok compare get_idx sl2 \<and>
    contents set_idx sl1 = add_mset (set_idx 0 m) (contents set_idx sl2) \<and>
    (\<forall>y \<in> set sl2. key m \<le> key y)"
proof -
  note ho = assms(1)
  note ok = heap_order.assert_ok_iff [OF ho] and bag = indexed_queue.bag_def [OF heap_order.axioms(1) [OF ho]]
  obtain sl1 where add: "smartlist_pqueue_add compare set_idx sl x = Some sl1"
    using assms(3) by (simp add: smartlist_pqueue_add_def smartlist_add_def)
  note sl1 = heap_order.add_ok [OF ho _ _ add]
  have "sl1 \<noteq> []" using sl1 assms(2) by (auto simp: ok)
  then obtain m sl2 where pop: "smartlist_pqueue_pop compare set_idx sl1 = Some (m, sl2)"
    by (auto simp: smartlist_pqueue_pop_def Let_def)
  show ?thesis
    using add pop assms(2) sl1 heap_order.pop_ok [OF ho _ _ _ pop] by (auto simp: ok bag contents_def)
qed

theorem smartlist_pqueue_add_pop_witness:
  "\<exists>sl1 m sl2.
    smartlist_pqueue_add pair_compare pair_set_idx [(3, 0), (5, 1), (4, 2)] (1, 9) = Some sl1 \<and>
    smartlist_pqueue_pop pair_compare pair_set_idx sl1 = Some (m, sl2) \<and> (\<forall>y \<in> set sl2. fst m \<le> fst y)"
  using smartlist_pqueue_add_pop [OF pairs.heap_order_axioms, of "[(3, 0), (5, 1), (4, 2)]" "(1, 9)"]
  by (auto simp: smartlist_pqueue_assert_ok_def PARENT_def upt_rec)

text \<open>
  C5. Removal from the middle takes out exactly the given item and keeps the index fields, but
  it keeps the heap order only in the cases stated: when the item was the last one or the first
  one, or when the last item, which replaces it, is not below the parent of the slot. In every
  other case the queue that results fails \<open>smartlist_pqueue_assert_ok\<close>, because the
  replacement is only ever moved down.
\<close>

theorem smartlist_pqueue_remove_order:
  assumes "heap_order compare set_idx get_idx key"
    and "smartlist_pqueue_assert_ok compare get_idx sl" and "length sl \<le> INT_MAX"
    and "idx < length sl"
  shows "\<exists>sl'.
    smartlist_pqueue_remove compare set_idx get_idx sl (sl ! idx) = Some (set_idx (-1) (sl ! idx), sl') \<and>
    contents set_idx sl = add_mset (set_idx 0 (sl ! idx)) (contents set_idx sl') \<and>
    list_all (\<lambda>i. get_idx (sl' ! i) = int i) [0 ..< length sl'] \<and>
    (smartlist_pqueue_assert_ok compare get_idx sl' \<longleftrightarrow>
       idx = length sl - 1 \<or> idx = 0 \<or> key (sl ! PARENT idx) \<le> key (last sl))"
proof -
  note ho = assms(1)
  note ok = heap_order.assert_ok_iff [OF ho] and bag = indexed_queue.bag_def [OF heap_order.axioms(1) [OF ho]]
    and set_set = indexed_queue.set_set [OF heap_order.axioms(1) [OF ho]]
  have idx: "indexed_queue.indexed get_idx sl" and heap: "heap_order.heap key sl"
    using assms(2) by (simp_all add: ok)
  obtain sl' where rem: "smartlist_pqueue_remove compare set_idx get_idx sl (sl ! idx)
      = Some (set_idx (-1) (sl ! idx), sl')"
    using indexed_queue.remove_refilled [OF heap_order.axioms(1) [OF ho] idx assms(4)] by blast
  show ?thesis
    using rem heap_order.remove_ok [OF ho heap idx assms(3,4) rem]
    by (auto simp: ok bag contents_def set_set indexed_queue.indexed_def [OF heap_order.axioms(1) [OF ho]] list_all_iff)
qed

theorem smartlist_pqueue_remove_order_witness:
  "let sl = [(1, 0), (10, 1), (2, 2), (11, 3), (12, 4), (3, 5), (4, 6)] in
    smartlist_pqueue_assert_ok pair_compare snd sl \<and>
    (\<exists>sl'. smartlist_pqueue_remove pair_compare pair_set_idx snd sl (11, 3) = Some ((11, -1), sl') \<and>
      \<not> smartlist_pqueue_assert_ok pair_compare snd sl')"
proof -
  let ?sl = "[(1, 0), (10, 1), (2, 2), (11, 3), (12, 4), (3, 5), (4, 6)] :: (int \<times> int) list"
  have ok: "smartlist_pqueue_assert_ok pair_compare snd ?sl"
    by (simp add: smartlist_pqueue_assert_ok_def PARENT_def upt_rec)
  show ?thesis
    unfolding Let_def
    using ok smartlist_pqueue_remove_order [OF pairs.heap_order_axioms ok, of 3]
    by (auto simp: PARENT_def)
qed

end
