(* ===== verification/Conflux.thy ===== *)
theory Conflux
  imports CC_Common Smartlist_Pqueue Trunnel
begin

text \<open>
  Conflux sets: one stream of cells over several circuits (\<open>src/core/or/conflux.c\<close>, the
  helpers of \<open>conflux_util.c\<close>, the parameters of \<open>conflux_params.c\<close>, the SWITCH cell of
  \<open>conflux_cell.c\<close>, and the way \<open>relay.c\<close> calls them).

  Circuits live in a store, a function from circuit names to \<open>circuit_t\<close>; a leg holds the
  name of its circuit. \<open>curr_leg\<close> and \<open>prev_leg\<close> point to legs, which the model names by
  their circuits. Calls of \<open>circuit_mark_for_close\<close> are an output of the operation (the
  circuit and the reason), and so is the payload of a SWITCH cell to send. The result
  \<open>None\<close> of the option monad is a failed \<open>tor_assert\<close>; inside it a \<open>NULL\<close> circuit is
  \<open>None\<close> again. The diagnostic checks that only log (\<open>conflux_validate_legs\<close>,
  \<open>conflux_validate_stream_lists\<close>) and the bandwidth accounting of the control port
  (\<open>circuit_read_valid_data\<close>) are not part of the model.
\<close>

section \<open>Relay commands\<close>

abbreviation RELAY_COMMAND_BEGIN :: nat where "RELAY_COMMAND_BEGIN \<equiv> 1"
abbreviation RELAY_COMMAND_DATA :: nat where "RELAY_COMMAND_DATA \<equiv> 2"
abbreviation RELAY_COMMAND_END :: nat where "RELAY_COMMAND_END \<equiv> 3"
abbreviation RELAY_COMMAND_CONNECTED :: nat where "RELAY_COMMAND_CONNECTED \<equiv> 4"
abbreviation RELAY_COMMAND_SENDME :: nat where "RELAY_COMMAND_SENDME \<equiv> 5"
abbreviation RELAY_COMMAND_RESOLVE :: nat where "RELAY_COMMAND_RESOLVE \<equiv> 11"
abbreviation RELAY_COMMAND_RESOLVED :: nat where "RELAY_COMMAND_RESOLVED \<equiv> 12"
abbreviation RELAY_COMMAND_CONFLUX_SWITCH :: nat where "RELAY_COMMAND_CONFLUX_SWITCH \<equiv> 22"
abbreviation RELAY_COMMAND_XOFF :: nat where "RELAY_COMMAND_XOFF \<equiv> 43"
abbreviation RELAY_COMMAND_XON :: nat where "RELAY_COMMAND_XON \<equiv> 44"

text \<open>Every other command, known or unknown, is \<open>false\<close>.\<close>

definition conflux_should_multiplex :: "nat \<Rightarrow> bool" where
  "conflux_should_multiplex relay_command \<longleftrightarrow> relay_command \<in>
     {RELAY_COMMAND_BEGIN, RELAY_COMMAND_DATA, RELAY_COMMAND_END, RELAY_COMMAND_CONNECTED,
      RELAY_COMMAND_RESOLVE, RELAY_COMMAND_RESOLVED, RELAY_COMMAND_XOFF, RELAY_COMMAND_XON}"

section \<open>Parameters\<close>

text \<open>The file-level variables of \<open>conflux_params.c\<close>, except the two ratios of exits, which
  are floating-point, and the option \<open>ConfluxEnabled\<close>.\<close>

record cfx_params =
  conflux_enabled :: bool
  max_linked_set :: u8
  max_prebuilt_set :: u8
  max_unlinked_leg_retry :: u32
  num_legs_set :: u8
  max_legs_set :: u8
  cfx_drain_pct :: u8
  cfx_send_pct :: u8
  ConfluxEnabled :: int

definition conflux_params_init :: "int \<Rightarrow> cfx_params" where
  "conflux_params_init opt =
     \<lparr>conflux_enabled = True, max_linked_set = 10, max_prebuilt_set = 3, max_unlinked_leg_retry = 3,
      num_legs_set = 2, max_legs_set = 8, cfx_drain_pct = 0, cfx_send_pct = 100,
      ConfluxEnabled = opt\<rparr>"

definition conflux_params_new_consensus ::
    "networkstatus option \<Rightarrow> networkstatus option \<Rightarrow> cfx_params \<Rightarrow> cfx_params option" where
  "conflux_params_new_consensus latest ns p = do {
     enabled \<leftarrow> networkstatus_get_param latest ns ''cfx_enabled'' 1 0 1;
     low_exit \<leftarrow> networkstatus_get_param latest ns ''cfx_low_exit_threshold'' 6000 0 10000;
     linked \<leftarrow> networkstatus_get_param latest ns ''cfx_max_linked_set'' 10 0 UINT8_MAX;
     prebuilt \<leftarrow> networkstatus_get_param latest ns ''cfx_max_prebuilt_set'' 3 0 UINT8_MAX;
     retry \<leftarrow> networkstatus_get_param latest ns ''cfx_max_unlinked_leg_retry'' 3 0 UINT8_MAX;
     legs \<leftarrow> networkstatus_get_param latest ns ''cfx_num_legs_set'' 2 0 UINT8_MAX;
     max_legs \<leftarrow> networkstatus_get_param latest ns ''cfx_max_legs_set'' 8 3 UINT8_MAX;
     send \<leftarrow> networkstatus_get_param latest ns ''cfx_send_pct'' 100 0 255;
     drain \<leftarrow> networkstatus_get_param latest ns ''cfx_drain_pct'' 0 0 255;
     Some (p\<lparr>conflux_enabled := enabled \<noteq> 0, max_linked_set := word_of_int linked,
             max_prebuilt_set := word_of_int prebuilt, max_unlinked_leg_retry := word_of_int retry,
             num_legs_set := word_of_int legs, max_legs_set := word_of_int max_legs,
             cfx_send_pct := word_of_int send, cfx_drain_pct := word_of_int drain\<rparr>)
   }"

section \<open>Data\<close>

datatype conflux_alg_t = CONFLUX_ALG_MINRTT | CONFLUX_ALG_LOWRTT | CONFLUX_ALG_CWNDRTT

type_synonym circuit_name = nat
type_synonym circuits = "circuit_name \<Rightarrow> circuit_t"

record conflux_leg_t =
  last_seq_recv :: u64
  last_seq_sent :: u64
  circ_rtts_usec :: u64
  linked_sent_usec :: u64
  leg_circ :: circuit_name

record 'c conflux_cell_t =
  seq :: u64
  heap_idx :: int
  queued_cell :: 'c

record 'c conflux_t =
  params_alg :: conflux_alg_t
  legs :: "conflux_leg_t list"
  ooo_q :: "'c conflux_cell_t list"
  last_seq_delivered :: u64
  cells_until_switch :: u64
  curr_leg :: "circuit_name option"
  prev_leg :: "circuit_name option"
  set_nonce :: bytes
  in_full_teardown :: bool

text \<open>\<open>sizeof(cell_t)\<close> and \<open>sizeof(conflux_cell_t)\<close>.\<close>

abbreviation SIZEOF_CELL :: "'a::numeral" where "SIZEOF_CELL \<equiv> 516"
abbreviation SIZEOF_CONFLUX_CELL :: "'a::numeral" where "SIZEOF_CONFLUX_CELL \<equiv> 528"

abbreviation CONFLUX_NUM_LEGS :: "'c conflux_t \<Rightarrow> nat" where
  "CONFLUX_NUM_LEGS cfx \<equiv> length (legs cfx)"

definition conflux_get_leg :: "'c conflux_t \<Rightarrow> circuit_name \<Rightarrow> conflux_leg_t option" where
  "conflux_get_leg cfx c = find (\<lambda>leg. leg_circ leg = c) (legs cfx)"

text \<open>Writing through the pointer that \<open>conflux_get_leg\<close> found.\<close>

fun update_leg :: "circuit_name \<Rightarrow> (conflux_leg_t \<Rightarrow> conflux_leg_t) \<Rightarrow> conflux_leg_t list \<Rightarrow> conflux_leg_t list" where
  "update_leg c f [] = []"
| "update_leg c f (leg # ls) = (if leg_circ leg = c then f leg # ls else leg # update_leg c f ls)"

definition conflux_set_leg :: "circuit_name \<Rightarrow> (conflux_leg_t \<Rightarrow> conflux_leg_t) \<Rightarrow> 'c conflux_t \<Rightarrow> 'c conflux_t" where
  "conflux_set_leg c f cfx = cfx\<lparr>legs := update_leg c f (legs cfx)\<rparr>"

definition conflux_get_max_seq_sent :: "'c conflux_t \<Rightarrow> u64" where
  "conflux_get_max_seq_sent cfx =
     fold (\<lambda>leg m. if last_seq_sent leg > m then last_seq_sent leg else m) (legs cfx) 0"

definition conflux_get_max_seq_recv :: "'c conflux_t \<Rightarrow> u64" where
  "conflux_get_max_seq_recv cfx =
     fold (\<lambda>leg m. if last_seq_recv leg > m then last_seq_recv leg else m) (legs cfx) 0"

definition conflux_get_circ_bytes_allocation :: "'c conflux_t option \<Rightarrow> u64" where
  "conflux_get_circ_bytes_allocation cfx =
     (case cfx of Some cfx \<Rightarrow> of_nat (length (ooo_q cfx)) * SIZEOF_CONFLUX_CELL | None \<Rightarrow> 0)"

section \<open>The circuits of a set\<close>

definition circuit_ccontrol :: "circuit_t \<Rightarrow> congestion_control_t option" where
  "circuit_ccontrol circ =
     (if is_origin circ then (if cpath circ = [] then None else cp_ccontrol (last (cpath circ)))
      else ccontrol circ)"

definition circuit_ready_to_send :: "circuit_t \<Rightarrow> bool option" where
  "circuit_ready_to_send circ = do {
     cc \<leftarrow> circuit_ccontrol circ;
     let cc_sendable = \<not> inflight cc \<ge> cwnd cc;
     Some (if is_origin circ then cc_sendable \<and> \<not> circuit_blocked_on_n_chan circ
           else cc_sendable \<and> \<not> circuit_blocked_on_p_chan circ)
   }"

text \<open>The last hop; it is a hop only when the path is not empty, which
  \<open>circuit_ccontrol\<close> asserts.\<close>

definition conflux_get_destination_hop :: "circuit_t \<Rightarrow> layer_hint" where
  "conflux_get_destination_hop circ = (if is_origin circ then Some (length (cpath circ) - 1) else None)"

definition conflux_validate_source_hop :: "circuit_t \<Rightarrow> layer_hint \<Rightarrow> bool" where
  "conflux_validate_source_hop in_circ layer_hint =
     (if conflux_get_destination_hop in_circ \<noteq> layer_hint then False
      else if layer_hint = None \<and> n_chan_attached in_circ then False
      else True)"

definition conflux_is_enabled :: "cc_globals \<Rightarrow> cfx_params \<Rightarrow> circuit_t option \<Rightarrow> bool option" where
  "conflux_is_enabled g p circ =
     (if \<not> congestion_control_enabled g then Some False
      else case circ of
             Some circ \<Rightarrow>
               if is_origin circ \<and> cpath circ = [] then None
               else if circuit_ccontrol circ = None then Some False
               else Some (if ConfluxEnabled p \<noteq> -1 then ConfluxEnabled p \<noteq> 0 else conflux_enabled p)
           | None \<Rightarrow> Some (if ConfluxEnabled p \<noteq> -1 then ConfluxEnabled p \<noteq> 0 else conflux_enabled p))"

section \<open>Choosing the circuit to send on\<close>

text \<open>One turn of the loops that look for the smallest measured RTT.\<close>

definition note_min_rtt :: "conflux_leg_t \<Rightarrow> u64 \<times> circuit_name option \<Rightarrow> u64 \<times> circuit_name option" where
  "note_min_rtt leg best =
     (if circ_rtts_usec leg \<noteq> 0 \<and> circ_rtts_usec leg < fst best
      then (circ_rtts_usec leg, Some (leg_circ leg)) else best)"

definition conflux_decide_circ_minrtt :: "circuits \<Rightarrow> 'c conflux_t \<Rightarrow> circuit_name option option" where
  "conflux_decide_circ_minrtt circs cfx =
     (if CONFLUX_NUM_LEGS cfx = 0 then None
      else case snd (fold note_min_rtt (legs cfx) (UINT64_MAX, None)) of
             None \<Rightarrow> Some None
           | Some c \<Rightarrow> do {
               ready \<leftarrow> circuit_ready_to_send (circs c);
               Some (if \<not> ready then None else Some c)
             })"

fun lowrtt_loop ::
    "circuits \<Rightarrow> conflux_leg_t list \<Rightarrow> u64 \<times> circuit_name option \<Rightarrow> (u64 \<times> circuit_name option) option" where
  "lowrtt_loop circs [] best = Some best"
| "lowrtt_loop circs (leg # ls) best = do {
     ready \<leftarrow> circuit_ready_to_send (circs (leg_circ leg));
     if \<not> ready then lowrtt_loop circs ls best
     else lowrtt_loop circs ls (note_min_rtt leg best)
   }"

definition conflux_decide_circ_lowrtt :: "circuits \<Rightarrow> 'c conflux_t \<Rightarrow> circuit_name option option" where
  "conflux_decide_circ_lowrtt circs cfx =
     (if CONFLUX_NUM_LEGS cfx = 0 then None
      else map_option snd (lowrtt_loop circs (legs cfx) (UINT64_MAX, None)))"

definition cwnd_available :: "circuit_t \<Rightarrow> u64 option" where
  "cwnd_available on_circ = do {
     cc \<leftarrow> circuit_ccontrol on_circ;
     Some (if cwnd cc < inflight cc then 0 else cwnd cc - inflight cc)
   }"

definition cwnd_sendable :: "circuit_t \<Rightarrow> u64 \<Rightarrow> u64 \<Rightarrow> u64 option" where
  "cwnd_sendable on_circ in_usec our_usec = do {
     cc \<leftarrow> circuit_ccontrol on_circ;
     cwnd_adjusted \<leftarrow> cwnd_available on_circ;
     if our_usec = 0 \<or> in_usec = 0 then Some cwnd_adjusted
     else if in_slow_start cc then Some cwnd_adjusted
     else Some (min (cwnd cc) (cwnd_adjusted * in_usec div our_usec))
   }"

fun cwndrtt_loop ::
    "circuits \<Rightarrow> u64 \<Rightarrow> conflux_leg_t list \<Rightarrow> circuit_name option \<Rightarrow> circuit_name option option" where
  "cwndrtt_loop circs min_rtt [] leg = Some leg"
| "cwndrtt_loop circs min_rtt (l # ls) leg = do {
     ready \<leftarrow> circuit_ready_to_send (circs (leg_circ l));
     if \<not> ready then cwndrtt_loop circs min_rtt ls leg
     else do {
       sendable \<leftarrow> (if circ_rtts_usec l \<noteq> 0
                    then cwnd_sendable (circs (leg_circ l)) min_rtt (circ_rtts_usec l) else Some 0);
       cwndrtt_loop circs min_rtt ls (if sendable > 0 then Some (leg_circ l) else leg)
     }
   }"

text \<open>The source asserts \<open>!CONFLUX_NUM_LEGS(cfx)\<close>.\<close>

definition conflux_decide_circ_cwndrtt :: "circuits \<Rightarrow> 'c conflux_t \<Rightarrow> circuit_name option option" where
  "conflux_decide_circ_cwndrtt circs cfx =
     (if \<not> CONFLUX_NUM_LEGS cfx = 0 then None
      else do {
        let (min_rtt, leg) = fold note_min_rtt (legs cfx) (UINT64_MAX, None);
        first \<leftarrow> (case leg of None \<Rightarrow> Some False | Some c \<Rightarrow> circuit_ready_to_send (circs c));
        if first then Some leg
        else do {
          leg' \<leftarrow> cwndrtt_loop circs min_rtt (legs cfx) None;
          ready \<leftarrow> (case leg' of None \<Rightarrow> Some False | Some c \<Rightarrow> circuit_ready_to_send (circs c));
          Some (if \<not> ready then None else leg')
        }
      })"

definition conflux_can_switch :: "cfx_params \<Rightarrow> circuits \<Rightarrow> 'c conflux_t \<Rightarrow> bool option" where
  "conflux_can_switch p circs cfx =
     (if cells_until_switch cfx > 0
      then case prev_leg cfx of
             None \<Rightarrow> Some False
           | Some prev \<Rightarrow> do {
               cc \<leftarrow> circuit_ccontrol (circs prev);
               Some (inflight cc < ucast (sendme_inc cc) \<or>
                     100 * inflight cc \<le> ucast (cfx_drain_pct p) * cwnd cc)
             }
      else Some True)"

definition note_first_leg :: "conflux_leg_t \<Rightarrow> conflux_leg_t option \<Rightarrow> conflux_leg_t option" where
  "note_first_leg leg min_leg =
     (if circ_rtts_usec leg > 0
      then case min_leg of
             None \<Rightarrow> Some leg
           | Some m \<Rightarrow> if circ_rtts_usec leg < circ_rtts_usec m then Some leg else Some m
      else min_leg)"

definition conflux_pick_first_leg :: "'c conflux_t \<Rightarrow> bool \<times> 'c conflux_t" where
  "conflux_pick_first_leg cfx =
     (let min_leg = fold note_first_leg (legs cfx) None
      in case (case min_leg of Some l \<Rightarrow> Some l | None \<Rightarrow> if legs cfx = [] then None else Some (hd (legs cfx))) of
           None \<Rightarrow> (False, cfx)
         | Some l \<Rightarrow> (True, cfx\<lparr>cells_until_switch := 0, curr_leg := Some (leg_circ l)\<rparr>))"

definition conflux_decide_next_circ ::
    "cfx_params \<Rightarrow> circuits \<Rightarrow> 'c conflux_t \<Rightarrow> (circuit_name option \<times> 'c conflux_t) option" where
  "conflux_decide_next_circ p circs cfx =
     (if in_full_teardown cfx then Some (None, cfx)
      else let (picked, cfx1) = (if curr_leg cfx = None then conflux_pick_first_leg cfx else (True, cfx))
           in if \<not> picked then Some (None, cfx1)
              else do {
                can \<leftarrow> conflux_can_switch p circs cfx1;
                if \<not> can
                then (case curr_leg cfx1 of
                        None \<Rightarrow> None
                      | Some c \<Rightarrow> do {
                          ready \<leftarrow> circuit_ready_to_send (circs c);
                          Some (if ready then Some c else None, cfx1)
                        })
                else do {
                  c \<leftarrow> (case params_alg cfx1 of
                         CONFLUX_ALG_MINRTT \<Rightarrow> conflux_decide_circ_minrtt circs cfx1
                       | CONFLUX_ALG_LOWRTT \<Rightarrow> conflux_decide_circ_lowrtt circs cfx1
                       | CONFLUX_ALG_CWNDRTT \<Rightarrow> conflux_decide_circ_cwndrtt circs cfx1);
                  Some (c, cfx1)
                }
              })"

definition conflux_can_send :: "cfx_params \<Rightarrow> circuits \<Rightarrow> 'c conflux_t \<Rightarrow> (bool \<times> 'c conflux_t) option" where
  "conflux_can_send p circs cfx = do {
     (send_circ, cfx') \<leftarrow> conflux_decide_next_circ p circs cfx;
     Some (send_circ \<noteq> None, cfx')
   }"

text \<open>\<open>circuit_get_package_window\<close> for a circuit \<open>c\<close> and its set, if it has one.\<close>

definition circuit_get_package_window ::
    "cfx_params \<Rightarrow> circuits \<Rightarrow> 'c conflux_t option \<Rightarrow> circuit_name \<Rightarrow> layer_hint
      \<Rightarrow> (int \<times> 'c conflux_t option) option" where
  "circuit_get_package_window p circs conflux c layer =
     (if marked_for_close (circs c) then Some (0, conflux)
      else case conflux of
             None \<Rightarrow> Some (congestion_control_get_package_window (circs c) layer, conflux)
           | Some cfx \<Rightarrow>
               if in_full_teardown cfx then Some (0, conflux)
               else do {
                 (next, cfx') \<leftarrow> conflux_decide_next_circ p circs cfx;
                 Some (case next of
                         None \<Rightarrow> 0
                       | Some c' \<Rightarrow> congestion_control_get_package_window (circs c')
                           (if is_origin (circs c') then conflux_get_destination_hop (circs c') else layer),
                       Some cfx')
               })"

section \<open>Sending\<close>

text \<open>The payload of a SWITCH cell: the sequence number and zeros up to the payload size. The inner
  \<open>None\<close> is a failed encoding, after which nothing is sent.\<close>

definition conflux_send_switch_command :: "u64 \<Rightarrow> bytes option option" where
  "conflux_send_switch_command relative_seq =
     (if \<not> relative_seq < UINT32_MAX then None
      else Some (map_option (\<lambda>bs. bs @ replicate (nat RELAY_PAYLOAD_SIZE - length bs) 0)
             (trn_cell_conflux_switch_encode (nat RELAY_PAYLOAD_SIZE) (ucast relative_seq))))"

text \<open>The circuit to send on, the SWITCH cell to send before (its circuit and its payload), and the
  set afterwards.\<close>

definition conflux_decide_circ_for_send ::
    "cfx_params \<Rightarrow> circuits \<Rightarrow> 'c conflux_t \<Rightarrow> circuit_name \<Rightarrow> nat
      \<Rightarrow> (circuit_name option \<times> (circuit_name \<times> bytes) option \<times> 'c conflux_t) option" where
  "conflux_decide_circ_for_send p circs cfx orig_circ relay_command =
     (if \<not> conflux_should_multiplex relay_command then Some (Some orig_circ, None, cfx)
      else do {
        (new_circ, cfx1) \<leftarrow> conflux_decide_next_circ p circs cfx;
        if new_circ = None \<and> relay_command \<noteq> RELAY_COMMAND_DATA then Some (curr_leg cfx1, None, cfx1)
        else case new_circ of
               None \<Rightarrow> Some (None, None, cfx1)
             | Some c \<Rightarrow> do {
                 curr \<leftarrow> curr_leg cfx1;
                 if c = curr then Some (Some c, None, cfx1)
                 else do {
                   new_leg \<leftarrow> conflux_get_leg cfx1 c;
                   prev \<leftarrow> conflux_get_leg cfx1 curr;
                   let cfx2 = cfx1\<lparr>cells_until_switch := 0, prev_leg := Some curr, curr_leg := Some c\<rparr>;
                   let relative_seq = last_seq_sent prev - last_seq_sent new_leg;
                   if \<not> last_seq_sent prev \<ge> last_seq_sent new_leg then None
                   else do {
                     payload \<leftarrow> conflux_send_switch_command relative_seq;
                     Some (Some c, map_option (Pair c) payload,
                           conflux_set_leg c (\<lambda>leg. leg\<lparr>last_seq_sent := last_seq_sent prev\<rparr>) cfx2)
                   }
                 }
               }
      })"

definition conflux_note_cell_sent :: "'c conflux_t \<Rightarrow> circuit_name \<Rightarrow> nat \<Rightarrow> 'c conflux_t" where
  "conflux_note_cell_sent cfx c relay_command =
     (if \<not> conflux_should_multiplex relay_command then cfx
      else case conflux_get_leg cfx c of
             None \<Rightarrow> cfx
           | Some _ \<Rightarrow>
               let cfx1 = conflux_set_leg c (\<lambda>leg. leg\<lparr>last_seq_sent := last_seq_sent leg + 1\<rparr>) cfx
               in if cells_until_switch cfx1 > 0
                  then cfx1\<lparr>cells_until_switch := cells_until_switch cfx1 - 1\<rparr> else cfx1)"

text \<open>What \<open>relay_send_command_from_edge_\<close> does about the set: it decides the leg (the
  original circuit when there is none) and its hop, and when the cell was queued, counts it.\<close>

definition relay_send_conflux ::
    "cfx_params \<Rightarrow> circuits \<Rightarrow> 'c conflux_t \<Rightarrow> circuit_name \<Rightarrow> layer_hint \<Rightarrow> nat \<Rightarrow> bool
      \<Rightarrow> (circuit_name \<times> layer_hint \<times> (circuit_name \<times> bytes) option \<times> 'c conflux_t) option" where
  "relay_send_conflux p circs cfx orig_circ cpath_layer relay_command queued = do {
     (circ, layer, switch, cfx1) \<leftarrow>
       (if conflux_should_multiplex relay_command
        then do {
          (c, sw, cfx1) \<leftarrow> conflux_decide_circ_for_send p circs cfx orig_circ relay_command;
          Some (case c of None \<Rightarrow> (orig_circ, cpath_layer, sw, cfx1)
                | Some c \<Rightarrow> (c, conflux_get_destination_hop (circs c), sw, cfx1))
        }
        else Some (orig_circ, cpath_layer, None, cfx));
     if \<not> (is_origin (circs circ) \<longleftrightarrow> layer \<noteq> None) then None
     else Some (circ, layer, switch,
                if queued then conflux_note_cell_sent cfx1 circ relay_command else cfx1)
   }"

definition conflux_update_rtt :: "'c conflux_t \<Rightarrow> circuit_name \<Rightarrow> u64 \<Rightarrow> 'c conflux_t" where
  "conflux_update_rtt cfx c rtt_usec = conflux_set_leg c (\<lambda>leg. leg\<lparr>circ_rtts_usec := rtt_usec\<rparr>) cfx"

section \<open>Receiving\<close>

datatype close_reason = END_CIRC_REASON_TORPROTOCOL | END_CIRC_REASON_INTERNAL

definition conflux_queue_cmp :: "'c conflux_cell_t \<Rightarrow> 'c conflux_cell_t \<Rightarrow> int" where
  "conflux_queue_cmp a b = (if seq a < seq b then -1 else if seq a > seq b then 1 else 0)"

abbreviation set_heap_idx :: "int \<Rightarrow> 'c conflux_cell_t \<Rightarrow> 'c conflux_cell_t" where
  "set_heap_idx i c \<equiv> c\<lparr>heap_idx := i\<rparr>"

interpretation ooo: heap_order conflux_queue_cmp set_heap_idx heap_idx seq
  by unfold_locales (auto simp: conflux_queue_cmp_def)

text \<open>The \<open>rh_len\<close> bytes of relay payload.\<close>

definition conflux_cell_parse_switch :: "bytes \<Rightarrow> nat \<Rightarrow> u32" where
  "conflux_cell_parse_switch payload rh_len =
     (case trn_cell_conflux_switch_parse (take rh_len payload) of None \<Rightarrow> 0 | Some (n, _) \<Rightarrow> n)"

definition conflux_process_switch_command ::
    "cc_globals \<Rightarrow> cfx_params \<Rightarrow> circuits \<Rightarrow> 'c conflux_t option \<Rightarrow> circuit_name \<Rightarrow> layer_hint \<Rightarrow> bytes \<Rightarrow> nat
      \<Rightarrow> (int \<times> (circuit_name \<times> close_reason) option \<times> 'c conflux_t option) option" where
  "conflux_process_switch_command g p circs conflux in_circ layer_hint payload rh_len = do {
     enabled \<leftarrow> conflux_is_enabled g p (Some (circs in_circ));
     Some (if \<not> enabled then (-1, Some (in_circ, END_CIRC_REASON_TORPROTOCOL), conflux)
           else case conflux of
                  None \<Rightarrow> (-1, Some (in_circ, END_CIRC_REASON_TORPROTOCOL), None)
                | Some cfx \<Rightarrow>
                    (case conflux_get_leg cfx in_circ of
                       None \<Rightarrow> (-1, Some (in_circ, END_CIRC_REASON_INTERNAL), conflux)
                     | Some _ \<Rightarrow>
                         if \<not> conflux_validate_source_hop (circs in_circ) layer_hint
                         then (-1, Some (in_circ, END_CIRC_REASON_TORPROTOCOL), conflux)
                         else let relative_seq = conflux_cell_parse_switch payload rh_len
                              in (0, None, Some (conflux_set_leg in_circ
                                   (\<lambda>leg. leg\<lparr>last_seq_recv := last_seq_recv leg + ucast relative_seq\<rparr>) cfx))))
   }"

text \<open>The result is \<open>true\<close> when the cell can be delivered at once. \<open>ooo_bytes\<close> is
  \<open>total_ooo_q_bytes\<close>.\<close>

definition conflux_process_cell ::
    "circuits \<Rightarrow> 'c conflux_t \<Rightarrow> u64 \<Rightarrow> circuit_name \<Rightarrow> layer_hint \<Rightarrow> 'c
      \<Rightarrow> (bool \<times> (circuit_name \<times> close_reason) option \<times> u64 \<times> 'c conflux_t) option" where
  "conflux_process_cell circs cfx ooo_bytes in_circ layer_hint cell =
     (case conflux_get_leg cfx in_circ of
        None \<Rightarrow> Some (False, Some (in_circ, END_CIRC_REASON_INTERNAL), ooo_bytes, cfx)
      | Some leg \<Rightarrow>
          if \<not> conflux_validate_source_hop (circs in_circ) layer_hint
          then Some (False, Some (in_circ, END_CIRC_REASON_TORPROTOCOL), ooo_bytes, cfx)
          else let s = last_seq_recv leg + 1;
                   cfx1 = conflux_set_leg in_circ (\<lambda>leg. leg\<lparr>last_seq_recv := last_seq_recv leg + 1\<rparr>) cfx
               in if s = last_seq_delivered cfx1 + 1
                  then Some (True, None, ooo_bytes, cfx1\<lparr>last_seq_delivered := last_seq_delivered cfx1 + 1\<rparr>)
                  else if s \<le> last_seq_delivered cfx1
                  then Some (False, Some (in_circ, END_CIRC_REASON_INTERNAL), ooo_bytes, cfx1)
                  else do {
                    q \<leftarrow> smartlist_pqueue_add conflux_queue_cmp set_heap_idx (ooo_q cfx1)
                           \<lparr>seq = s, heap_idx = 0, queued_cell = cell\<rparr>;
                    Some (False, None, ooo_bytes + SIZEOF_CELL, cfx1\<lparr>ooo_q := q\<rparr>)
                  })"

definition conflux_dequeue_cell ::
    "'c conflux_t \<Rightarrow> u64 \<Rightarrow> ('c conflux_cell_t option \<times> u64 \<times> 'c conflux_t) option" where
  "conflux_dequeue_cell cfx ooo_bytes =
     (if length (ooo_q cfx) = 0 then Some (None, ooo_bytes, cfx)
      else let head = ooo_q cfx ! 0
           in if seq head = last_seq_delivered cfx + 1
              then do {
                (c, q) \<leftarrow> smartlist_pqueue_pop conflux_queue_cmp set_heap_idx (ooo_q cfx);
                Some (Some c, ooo_bytes - SIZEOF_CELL,
                      cfx\<lparr>ooo_q := q, last_seq_delivered := last_seq_delivered cfx + 1\<rparr>)
              }
              else Some (None, ooo_bytes, cfx))"

section \<open>The reordering loop\<close>

lemma conflux_dequeue_cell_length:
  "conflux_dequeue_cell cfx ooo_bytes = Some (Some c, b, cfx') \<Longrightarrow> length (ooo_q cfx') < length (ooo_q cfx)"
  by (auto simp: conflux_dequeue_cell_def Let_def ooo.pop_refilled split: if_splits bind_splits)

text \<open>The loop of \<open>connection_edge_process_relay_cell\<close> that empties the queue as far as it is in
  order.\<close>

function conflux_dequeue_all :: "'c conflux_t \<Rightarrow> u64 \<Rightarrow> ('c list \<times> u64 \<times> 'c conflux_t) option" where
  "conflux_dequeue_all cfx ooo_bytes =
     (case conflux_dequeue_cell cfx ooo_bytes of
        None \<Rightarrow> None
      | Some (None, b, cfx') \<Rightarrow> Some ([], b, cfx')
      | Some (Some c, b, cfx') \<Rightarrow>
          map_option (\<lambda>(cs, r). (queued_cell c # cs, r)) (conflux_dequeue_all cfx' b))"
  by pat_completeness auto
termination
  by (relation "measure (\<lambda>(cfx, _). length (ooo_q cfx))") (auto dest: conflux_dequeue_cell_length)

declare conflux_dequeue_all.simps [simp del]

text \<open>What \<open>connection_edge_process_relay_cell\<close> does about a multiplexed cell, as long as the
  cells it processes are no fatal errors: the cells to process, in order, the circuit to close, and the set
  afterwards.\<close>

definition relay_recv_conflux ::
    "circuits \<Rightarrow> 'c conflux_t \<Rightarrow> u64 \<Rightarrow> circuit_name \<Rightarrow> layer_hint \<Rightarrow> 'c
      \<Rightarrow> ('c list \<times> (circuit_name \<times> close_reason) option \<times> u64 \<times> 'c conflux_t) option" where
  "relay_recv_conflux circs cfx ooo_bytes in_circ layer_hint cell = do {
     (ready, close, b, cfx1) \<leftarrow> conflux_process_cell circs cfx ooo_bytes in_circ layer_hint cell;
     if ready
     then do { (cs, b', cfx2) \<leftarrow> conflux_dequeue_all cfx1 b; Some (cell # cs, close, b', cfx2) }
     else Some ([], close, b, cfx1)
   }"

section \<open>Legs\<close>

lemma get_set_leg:
  assumes "\<And>l. leg_circ (f l) = leg_circ l"
  shows "conflux_get_leg (conflux_set_leg c f cfx) d =
    (if d = c then map_option f (conflux_get_leg cfx c) else conflux_get_leg cfx d)"
proof -
  have "find (\<lambda>l. leg_circ l = d) (update_leg c f ls) =
    (if d = c then map_option f (find (\<lambda>l. leg_circ l = c) ls) else find (\<lambda>l. leg_circ l = d) ls)" for ls
    by (induction ls) (auto simp: assms)
  then show ?thesis by (simp add: conflux_get_leg_def conflux_set_leg_def)
qed

lemma names_set_leg:
  assumes "\<And>l. leg_circ (f l) = leg_circ l"
  shows "map leg_circ (legs (conflux_set_leg c f cfx)) = map leg_circ (legs cfx)"
proof -
  have "map leg_circ (update_leg c f ls) = map leg_circ ls" for ls
    by (induction ls) (auto simp: assms)
  then show ?thesis by (simp add: conflux_set_leg_def)
qed

lemma set_leg_frame [simp]:
  "params_alg (conflux_set_leg c f cfx) = params_alg cfx" "ooo_q (conflux_set_leg c f cfx) = ooo_q cfx"
  "last_seq_delivered (conflux_set_leg c f cfx) = last_seq_delivered cfx"
  "cells_until_switch (conflux_set_leg c f cfx) = cells_until_switch cfx"
  "curr_leg (conflux_set_leg c f cfx) = curr_leg cfx" "prev_leg (conflux_set_leg c f cfx) = prev_leg cfx"
  "set_nonce (conflux_set_leg c f cfx) = set_nonce cfx"
  "in_full_teardown (conflux_set_leg c f cfx) = in_full_teardown cfx"
  by (simp_all add: conflux_set_leg_def)

lemma get_leg_cong: "legs cfx = legs cfx' \<Longrightarrow> conflux_get_leg cfx = conflux_get_leg cfx'"
  by (simp add: conflux_get_leg_def fun_eq_iff)

lemma get_leg_some: "c \<in> leg_circ ` set (legs cfx) \<longleftrightarrow> conflux_get_leg cfx c \<noteq> None"
  by (auto simp: conflux_get_leg_def find_None_iff)

lemma get_leg_circ: "conflux_get_leg cfx c = Some l \<Longrightarrow> leg_circ l = c \<and> l \<in> set (legs cfx)"
  by (auto simp: conflux_get_leg_def find_Some_iff)

section \<open>The choice of the leg\<close>

text \<open>A measured leg is faster than no leg, and the loops keep the first of the fastest.\<close>

definition measured :: "conflux_leg_t \<Rightarrow> bool" where
  "measured leg \<longleftrightarrow> circ_rtts_usec leg \<noteq> 0 \<and> circ_rtts_usec leg < UINT64_MAX"

definition fastest :: "conflux_leg_t list \<Rightarrow> circuit_name option \<Rightarrow> bool" where
  "fastest ls c \<longleftrightarrow> (case c of
     None \<Rightarrow> \<not> list_ex measured ls
   | Some c \<Rightarrow> list_ex (\<lambda>l. leg_circ l = c \<and> measured l \<and>
       list_all (\<lambda>l'. measured l' \<longrightarrow> circ_rtts_usec l \<le> circ_rtts_usec l') ls) ls)"

definition best_of :: "conflux_leg_t list \<Rightarrow> u64 \<times> circuit_name option \<Rightarrow> bool" where
  "best_of ls r \<longleftrightarrow> (case snd r of
     None \<Rightarrow> fst r = UINT64_MAX \<and> (\<forall>l \<in> set ls. \<not> measured l)
   | Some c \<Rightarrow> (\<exists>l \<in> set ls. leg_circ l = c \<and> measured l \<and> circ_rtts_usec l = fst r \<and>
       (\<forall>l' \<in> set ls. measured l' \<longrightarrow> circ_rtts_usec l \<le> circ_rtts_usec l')))"

lemma best_of_step:
  assumes "best_of ls r"
  shows "best_of (ls @ [x]) (note_min_rtt x r)"
proof (cases "circ_rtts_usec x \<noteq> 0 \<and> circ_rtts_usec x < fst r")
  case True
  have "fst r \<le> UINT64_MAX" by (simp add: word_le_nat_alt unat_le64)
  then have "measured x" using True by (auto simp: measured_def)
  moreover have "circ_rtts_usec x \<le> circ_rtts_usec l" if "l \<in> set ls" "measured l" for l
    using assms that True by (force simp: best_of_def split: option.splits)
  ultimately show ?thesis using True by (auto simp: best_of_def note_min_rtt_def)
next
  case False
  then have n: "note_min_rtt x r = r" by (simp only: note_min_rtt_def if_False)
  show ?thesis
  proof (cases "snd r")
    case None
    then show ?thesis using assms False n by (auto simp: best_of_def measured_def)
  next
    case (Some c)
    then obtain l where "l \<in> set ls" "leg_circ l = c" "measured l" "circ_rtts_usec l = fst r"
      "\<forall>l' \<in> set ls. measured l' \<longrightarrow> circ_rtts_usec l \<le> circ_rtts_usec l'"
      using assms by (auto simp: best_of_def)
    moreover have "measured x \<longrightarrow> fst r \<le> circ_rtts_usec x"
      using False by (auto simp: measured_def)
    ultimately show ?thesis unfolding n best_of_def Some by auto
  qed
qed

lemma fold_best_of: "best_of ls (fold note_min_rtt ls (UINT64_MAX, None))"
  by (induction ls rule: rev_induct) (simp_all add: best_of_step, simp add: best_of_def)

lemma best_of_fastest: "best_of ls r \<Longrightarrow> fastest ls (snd r)"
  by (auto simp: best_of_def fastest_def list_ex_iff list_all_iff split: option.splits)

lemmas fold_note_min_rtt = fold_best_of [THEN best_of_fastest]

abbreviation ready_leg :: "circuits \<Rightarrow> conflux_leg_t \<Rightarrow> bool" where
  "ready_leg circs l \<equiv> circuit_ready_to_send (circs (leg_circ l)) = Some True"

lemma lowrtt_loop_filter:
  "lowrtt_loop circs ls best = Some r \<Longrightarrow> r = fold note_min_rtt (filter (ready_leg circs) ls) best"
  by (induction ls arbitrary: best) (auto split: bind_splits if_splits)

lemma decide_minrtt:
  assumes "conflux_decide_circ_minrtt circs cfx = Some c"
  shows "case c of Some c \<Rightarrow> fastest (legs cfx) (Some c) \<and> circuit_ready_to_send (circs c) = Some True
    | None \<Rightarrow> (\<exists>b. fastest (legs cfx) b \<and> (b \<noteq> None \<longrightarrow> circuit_ready_to_send (circs (the b)) = Some False))"
  using assms fold_note_min_rtt [of "legs cfx"]
  by (auto simp: conflux_decide_circ_minrtt_def split: if_splits option.splits bind_splits)

lemma decide_lowrtt:
  "conflux_decide_circ_lowrtt circs cfx = Some c \<Longrightarrow> fastest (filter (ready_leg circs) (legs cfx)) c"
  using fold_note_min_rtt [of "filter (ready_leg circs) (legs cfx)"]
  by (auto simp: conflux_decide_circ_lowrtt_def split: if_splits dest!: lowrtt_loop_filter) (metis snd_conv)

lemma decide_cwndrtt: "conflux_decide_circ_cwndrtt circs cfx = Some c \<Longrightarrow> legs cfx = [] \<and> c = None"
  by (auto simp: conflux_decide_circ_cwndrtt_def split: if_splits)

lemma fastest_mem: "fastest ls (Some c) \<Longrightarrow> c \<in> leg_circ ` set ls"
  by (auto simp: fastest_def list_ex_iff)

lemma fold_note_first_leg:
  "fold note_first_leg ls b = Some l \<Longrightarrow> l \<in> set ls \<or> b = Some l"
  by (induction ls arbitrary: b) (fastforce simp: note_first_leg_def split: if_splits option.splits)+

lemma pick_first_leg:
  assumes "conflux_pick_first_leg cfx = (b, cfx')"
  shows "(b \<longleftrightarrow> legs cfx \<noteq> []) \<and> legs cfx' = legs cfx \<and> ooo_q cfx' = ooo_q cfx \<and>
    last_seq_delivered cfx' = last_seq_delivered cfx \<and> in_full_teardown cfx' = in_full_teardown cfx \<and>
    params_alg cfx' = params_alg cfx \<and>
    (b \<longrightarrow> cells_until_switch cfx' = 0 \<and> (\<exists>l \<in> set (legs cfx). curr_leg cfx' = Some (leg_circ l))) \<and>
    (\<not> b \<longrightarrow> cfx' = cfx)"
  using assms fold_note_first_leg [of "legs cfx" None]
  by (cases "fold note_first_leg (legs cfx) None")
    (auto simp: conflux_pick_first_leg_def Let_def split: option.splits if_splits)

text \<open>What deciding the next circuit leaves alone, and where the circuit comes from.\<close>

lemma decide_next:
  assumes "conflux_decide_next_circ p circs cfx = Some (c, cfx')"
  shows "legs cfx' = legs cfx \<and> ooo_q cfx' = ooo_q cfx \<and> last_seq_delivered cfx' = last_seq_delivered cfx \<and>
    in_full_teardown cfx' = in_full_teardown cfx \<and>
    (case curr_leg cfx of Some x \<Rightarrow> cfx' = cfx
     | None \<Rightarrow> (c = None \<and> curr_leg cfx' = None) \<or> (\<exists>l \<in> set (legs cfx). curr_leg cfx' = Some (leg_circ l))) \<and>
    (\<forall>x. c = Some x \<longrightarrow> (x \<in> leg_circ ` set (legs cfx) \<or> curr_leg cfx' = Some x) \<and>
       circuit_ready_to_send (circs x) = Some True)"
proof -
  obtain b cfx1 where pick: "(if curr_leg cfx = None then conflux_pick_first_leg cfx else (True, cfx)) = (b, cfx1)"
    by fastforce
  have fr: "legs cfx1 = legs cfx \<and> ooo_q cfx1 = ooo_q cfx \<and> last_seq_delivered cfx1 = last_seq_delivered cfx \<and>
    in_full_teardown cfx1 = in_full_teardown cfx \<and>
    (case curr_leg cfx of Some x \<Rightarrow> cfx1 = cfx \<and> b
     | None \<Rightarrow> (\<not> b \<and> curr_leg cfx1 = None) \<or> (\<exists>l \<in> set (legs cfx). curr_leg cfx1 = Some (leg_circ l)))"
    using pick pick_first_leg [of cfx b cfx1] by (auto split: if_splits option.splits)
  have "cfx' = cfx \<and> c = None \<or> cfx' = cfx1 \<and> (\<not> b \<longrightarrow> c = None) \<and>
    (\<forall>x. c = Some x \<longrightarrow> (x \<in> leg_circ ` set (legs cfx1) \<or> curr_leg cfx1 = Some x) \<and>
       circuit_ready_to_send (circs x) = Some True)"
    using assms unfolding conflux_decide_next_circ_def pick Let_def prod.case
    by (auto split: if_splits bind_splits option.splits conflux_alg_t.splits
        dest!: decide_lowrtt decide_minrtt decide_cwndrtt dest: fastest_mem)
  then show ?thesis using fr by (auto split: option.splits)
qed

section \<open>The reordering queue\<close>

definition queue_pairs :: "'c conflux_t \<Rightarrow> (u64 \<times> 'c) multiset" where
  "queue_pairs cfx = image_mset (\<lambda>c. (seq c, queued_cell c)) (mset (ooo_q cfx))"

text \<open>The queue is a heap with its index fields and the byte counter counts its cells.\<close>

definition queue_ok :: "'c conflux_t \<Rightarrow> u64 \<Rightarrow> bool" where
  "queue_ok cfx b \<longleftrightarrow> smartlist_pqueue_assert_ok conflux_queue_cmp heap_idx (ooo_q cfx) \<and>
     length (ooo_q cfx) \<le> INT_MAX \<and> b = SIZEOF_CELL * of_nat (length (ooo_q cfx))"

definition drained :: "'c conflux_t \<Rightarrow> bool" where
  "drained cfx \<longleftrightarrow> ooo_q cfx = [] \<or> seq (ooo_q cfx ! 0) \<noteq> last_seq_delivered cfx + 1"

lemma queue_pairs_bag: "queue_pairs cfx = image_mset (\<lambda>c. (seq c, queued_cell c)) (ooo.bag (ooo_q cfx))"
  by (simp add: queue_pairs_def ooo.bag_def multiset.map_comp comp_def)

lemma queue_pairs_cong: "ooo_q cfx' = ooo_q cfx \<Longrightarrow> queue_pairs cfx' = queue_pairs cfx"
  by (simp add: queue_pairs_def)

lemma queue_insert:
  assumes "queue_ok cfx b"
    and "smartlist_pqueue_add conflux_queue_cmp set_heap_idx (ooo_q cfx) c = Some q"
  shows "queue_ok (cfx\<lparr>ooo_q := q\<rparr>) (b + SIZEOF_CELL) \<and>
    queue_pairs (cfx\<lparr>ooo_q := q\<rparr>) = add_mset (seq c, queued_cell c) (queue_pairs cfx)"
  using assms ooo.add_ok [OF _ _ assms(2)]
  by (auto simp: queue_ok_def ooo.assert_ok_iff queue_pairs_bag algebra_simps)

lemma dequeue_cases:
  assumes "queue_ok cfx b"
  obtains (stop) "conflux_dequeue_cell cfx b = Some (None, b, cfx)" "drained cfx"
  | (popped) c q where
      "conflux_dequeue_cell cfx b = Some (Some c, b - SIZEOF_CELL,
         cfx\<lparr>ooo_q := q, last_seq_delivered := last_seq_delivered cfx + 1\<rparr>)"
      "seq c = last_seq_delivered cfx + 1"
      "queue_ok (cfx\<lparr>ooo_q := q, last_seq_delivered := last_seq_delivered cfx + 1\<rparr>) (b - SIZEOF_CELL)"
      "queue_pairs cfx = add_mset (last_seq_delivered cfx + 1, queued_cell c)
         (queue_pairs (cfx\<lparr>ooo_q := q, last_seq_delivered := last_seq_delivered cfx + 1\<rparr>))"
proof (cases "drained cfx")
  case True
  then show ?thesis using stop by (auto simp: drained_def conflux_dequeue_cell_def Let_def)
next
  case False
  then have ne: "ooo_q cfx \<noteq> []" and s: "seq (ooo_q cfx ! 0) = last_seq_delivered cfx + 1"
    by (auto simp: drained_def)
  then obtain c q where pop: "smartlist_pqueue_pop conflux_queue_cmp set_heap_idx (ooo_q cfx) = Some (c, q)"
    by (auto simp: ooo.pop_refilled)
  have p: "ooo.heap q \<and> ooo.indexed q \<and> length (ooo_q cfx) = Suc (length q) \<and>
      c = set_heap_idx (-1) (ooo_q cfx ! 0) \<and> ooo.bag (ooo_q cfx) = add_mset (set_heap_idx 0 c) (ooo.bag q)"
    using assms ooo.pop_ok [OF _ _ _ pop] by (auto simp: queue_ok_def ooo.assert_ok_iff)
  show ?thesis
  proof (rule popped [of c q])
    show "conflux_dequeue_cell cfx b = Some (Some c, b - SIZEOF_CELL,
         cfx\<lparr>ooo_q := q, last_seq_delivered := last_seq_delivered cfx + 1\<rparr>)"
      using ne s pop by (simp add: conflux_dequeue_cell_def Let_def)
  qed (use p s assms in \<open>auto simp: queue_ok_def ooo.assert_ok_iff queue_pairs_bag algebra_simps\<close>)
qed

text \<open>The cells a receiver still has to deliver: those of the list \<open>cells\<close> from position
  \<open>d\<close> on, with their sequence numbers.\<close>

definition pending_pairs :: "'c list \<Rightarrow> nat \<Rightarrow> (u64 \<times> 'c) multiset" where
  "pending_pairs cells d = mset (map (\<lambda>i. (of_nat (Suc i), cells ! i)) [d ..< length cells])"

lemma unat_of_nat64: "n < 2 ^ 64 \<Longrightarrow> unat (of_nat n :: u64) = n"
  by (simp add: unat_of_nat)

lemma pending_pairs_next:
  "d < length cells \<Longrightarrow> pending_pairs cells d = add_mset (of_nat (Suc d), cells ! d) (pending_pairs cells (Suc d))"
  by (simp add: pending_pairs_def upt_conv_Cons)

lemma pending_pairs_mem:
  assumes "(s, x) \<in># pending_pairs cells d" and "length cells < 2 ^ 64"
  shows "\<exists>i. d \<le> i \<and> i < length cells \<and> s = of_nat (Suc i) \<and> unat s = Suc i \<and> x = cells ! i"
proof -
  obtain i where "d \<le> i" "i < length cells" "s = of_nat (Suc i)" "x = cells ! i"
    using assms(1) by (auto simp: pending_pairs_def)
  then show ?thesis using assms(2) unat_of_nat64 [of "Suc i"] by (auto simp del: of_nat_Suc)
qed

lemma pending_pairs_append:
  "d \<le> length cells \<Longrightarrow>
    pending_pairs (cells @ [x]) d = add_mset (of_nat (Suc (length cells)), x) (pending_pairs cells d)"
  by (auto simp: pending_pairs_def nth_append intro!: image_mset_cong)

text \<open>The receiver has delivered \<open>d\<close> of the cells; the rest is in its queue or still to come
  (\<open>W\<close>).\<close>

definition reordering :: "'c list \<Rightarrow> (u64 \<times> 'c) multiset \<Rightarrow> 'c conflux_t \<Rightarrow> u64 \<Rightarrow> nat \<Rightarrow> bool" where
  "reordering cells W cfx b d \<longleftrightarrow> length cells < 2 ^ 64 \<and> d \<le> length cells \<and>
     queue_ok cfx b \<and> last_seq_delivered cfx = of_nat d \<and> W + queue_pairs cfx = pending_pairs cells d"

lemma reordering_next:
  assumes "W + add_mset (of_nat d + 1, x) Q = pending_pairs cells d"
    and "length cells < 2 ^ 64" and "d \<le> length cells"
  shows "d < length cells \<and> x = cells ! d \<and> W + Q = pending_pairs cells (Suc d)"
proof -
  have "(of_nat (Suc d), x) \<in># pending_pairs cells d"
    using assms(1) by (metis of_nat_Suc add.commute union_iff union_single_eq_member)
  then obtain i where i: "d \<le> i" "i < length cells" "(of_nat (Suc d) :: u64) = of_nat (Suc i)" "x = cells ! i"
    using pending_pairs_mem [OF _ assms(2)] by blast
  have "Suc d < 2 ^ 64" "Suc i < 2 ^ 64" using i assms(2) by auto
  then have "Suc d = Suc i"
    by (metis i(3) unat_of_nat64)
  then show ?thesis
    using i assms(1) pending_pairs_next [of d cells] by (simp add: add.commute)
qed

lemma dequeue_all_reordering:
  assumes "reordering cells W cfx b d"
  shows "\<exists>cs b' cfx'. conflux_dequeue_all cfx b = Some (cs, b', cfx') \<and>
    cs = take (length cs) (drop d cells) \<and> reordering cells W cfx' b' (d + length cs) \<and>
    drained cfx' \<and> legs cfx' = legs cfx"
  using assms
proof (induction "length (ooo_q cfx)" arbitrary: cfx b d rule: less_induct)
  case less
  then have ok: "queue_ok cfx b" and del: "last_seq_delivered cfx = of_nat d"
    by (auto simp: reordering_def)
  from ok show ?case
  proof (cases rule: dequeue_cases)
    case stop
    then show ?thesis using less.prems by (simp add: conflux_dequeue_all.simps)
  next
    case (popped c q)
    define cfx1 where "cfx1 = cfx\<lparr>ooo_q := q, last_seq_delivered := last_seq_delivered cfx + 1\<rparr>"
    have l: "length (ooo_q cfx1) < length (ooo_q cfx)"
      using conflux_dequeue_cell_length [OF popped(1)] by (simp add: cfx1_def)
    have n: "d < length cells \<and> queued_cell c = cells ! d \<and> W + queue_pairs cfx1 = pending_pairs cells (Suc d)"
    proof (rule reordering_next)
      have "queue_pairs cfx = add_mset (of_nat d + 1, queued_cell c) (queue_pairs cfx1)"
        using popped(4) by (simp only: cfx1_def del)
      then show "W + add_mset (of_nat d + 1, queued_cell c) (queue_pairs cfx1) = pending_pairs cells d"
        using less.prems by (simp add: reordering_def)
    qed (use less.prems in \<open>simp_all add: reordering_def\<close>)
    then have "reordering cells W cfx1 (b - SIZEOF_CELL) (Suc d)"
      using less.prems popped(3) by (simp add: reordering_def cfx1_def)
    from less.hyps [OF l this] obtain cs b' cfx' where
      r: "conflux_dequeue_all cfx1 (b - SIZEOF_CELL) = Some (cs, b', cfx')"
        "cs = take (length cs) (drop (Suc d) cells)" "reordering cells W cfx' b' (Suc d + length cs)"
        "drained cfx'" "legs cfx' = legs cfx1" by blast
    show ?thesis
    proof (intro exI conjI)
      show "conflux_dequeue_all cfx b = Some (queued_cell c # cs, b', cfx')"
        using popped(1) r(1) by (subst conflux_dequeue_all.simps) (simp add: cfx1_def)
      show "queued_cell c # cs = take (length (queued_cell c # cs)) (drop d cells)"
        using n r(2) by (metis Cons_nth_drop_Suc length_Cons take_Suc_Cons)
      show "reordering cells W cfx' b' (d + length (queued_cell c # cs))"
        using r(3) by simp
      show "legs cfx' = legs cfx" using r(5) by (simp add: cfx1_def)
    qed (rule r(4))
  qed
qed

lemma reordering_drained:
  assumes "reordering cells W cfx b d"
  shows "drained cfx \<longleftrightarrow> (\<forall>p \<in># queue_pairs cfx. fst p \<noteq> of_nat d + 1)"
proof
  have ok: "ooo.heap (ooo_q cfx)" and del: "last_seq_delivered cfx = of_nat d"
    and sub: "queue_pairs cfx \<subseteq># pending_pairs cells d" and l: "length cells < 2 ^ 64"
    using assms by (auto simp: reordering_def queue_ok_def ooo.assert_ok_iff intro: subset_mset.le_add_same_cancel2)
      (metis mset_subset_eq_add_right)
  show "\<forall>p \<in># queue_pairs cfx. fst p \<noteq> of_nat d + 1" if dr: "drained cfx"
  proof
    fix p assume "p \<in># queue_pairs cfx"
    then obtain i where i: "i < length (ooo_q cfx)" "fst p = seq (ooo_q cfx ! i)"
      by (auto simp: queue_pairs_def in_set_conv_nth)
    have "(seq (ooo_q cfx ! 0), queued_cell (ooo_q cfx ! 0)) \<in># pending_pairs cells d"
      using i by (intro mset_subset_eqD [OF sub]) (auto simp: queue_pairs_def intro!: imageI nth_mem)
    then have lo: "d < unat (seq (ooo_q cfx ! 0))" and hi: "unat (seq (ooo_q cfx ! 0)) \<le> length cells"
      using pending_pairs_mem [OF _ l] by fastforce+
    have le: "seq (ooo_q cfx ! 0) \<le> seq (ooo_q cfx ! i)"
      using ooo.heap_top [OF ok i(1)] by simp
    have ne: "seq (ooo_q cfx ! 0) \<noteq> of_nat (Suc d)"
      using dr i(1) del by (auto simp: drained_def add.commute)
    have "unat (of_nat (Suc d) :: u64) = Suc d"
      using lo hi l by (intro unat_of_nat64) auto
    then have "seq (ooo_q cfx ! i) \<noteq> of_nat (Suc d)"
      using le ne lo by (auto simp: word_le_nat_alt simp del: of_nat_Suc) (metis Suc_leI le_antisym word_unat_eq_iff)
    then show "fst p \<noteq> of_nat d + 1" by (simp add: i(2) add.commute)
  qed
  show "drained cfx" if "\<forall>p \<in># queue_pairs cfx. fst p \<noteq> of_nat d + 1"
    using that del by (auto simp: drained_def queue_pairs_def)
qed

lemma relay_recv_reordering:
  assumes r: "reordering cells (add_mset (last_seq_recv leg + 1, x) W) cfx b d" and dr: "drained cfx"
    and leg: "conflux_get_leg cfx c = Some leg" and val: "conflux_validate_source_hop (circs c) layer"
    and recv: "relay_recv_conflux circs cfx b c layer x = Some (cs, close, b', cfx')"
  shows "close = None \<and> cs = take (length cs) (drop d cells) \<and> reordering cells W cfx' b' (d + length cs) \<and>
    drained cfx' \<and> legs cfx' = legs (conflux_set_leg c (\<lambda>leg. leg\<lparr>last_seq_recv := last_seq_recv leg + 1\<rparr>) cfx)"
proof -
  let ?s = "last_seq_recv leg + 1"
  define cfx1 where "cfx1 = conflux_set_leg c (\<lambda>leg. leg\<lparr>last_seq_recv := last_seq_recv leg + 1\<rparr>) cfx"
  have fr: "ooo_q cfx1 = ooo_q cfx" "last_seq_delivered cfx1 = of_nat d" "last_seq_delivered cfx = of_nat d"
    using r by (simp_all add: cfx1_def reordering_def)
  have len: "length cells < 2 ^ 64" and d: "d \<le> length cells" and ok: "queue_ok cfx b"
    and W: "add_mset (?s, x) W + queue_pairs cfx = pending_pairs cells d"
    using r by (auto simp: reordering_def)
  then have "(?s, x) \<in># pending_pairs cells d" by (metis union_iff add_mset_add_single multi_member_this union_mset_add_mset_left)
  then obtain i where i: "d \<le> i" "i < length cells" "?s = of_nat (Suc i)" "unat ?s = Suc i" "x = cells ! i"
    using pending_pairs_mem [OF _ len] by blast
  show ?thesis
  proof (cases "i = d")
    case True
    define cfx2 where "cfx2 = cfx1\<lparr>last_seq_delivered := last_seq_delivered cfx1 + 1\<rparr>"
    have p: "conflux_process_cell circs cfx b c layer x = Some (True, None, b, cfx2)"
      using leg val i(3) True fr
      by (simp add: conflux_process_cell_def Let_def cfx2_def cfx1_def add.commute)
    have W': "W + queue_pairs cfx2 = pending_pairs cells (Suc d)"
      using W pending_pairs_next [of d cells] i True fr queue_pairs_cong [of cfx2 cfx]
      by (simp add: cfx2_def del: of_nat_Suc)
    have "reordering cells W cfx2 b (Suc d)"
      using W' ok len i True fr by (simp add: reordering_def cfx2_def queue_ok_def)
    from dequeue_all_reordering [OF this] obtain cs1 b1 cfx3 where q:
      "conflux_dequeue_all cfx2 b = Some (cs1, b1, cfx3)" "cs1 = take (length cs1) (drop (Suc d) cells)"
      "reordering cells W cfx3 b1 (Suc d + length cs1)" "drained cfx3" "legs cfx3 = legs cfx2" by blast
    have e: "cs = x # cs1" "close = None" "b' = b1" "cfx' = cfx3"
      using recv p q(1) by (simp_all add: relay_recv_conflux_def)
    have cs: "cs = take (length cs) (drop d cells)"
      unfolding e using q(2) i True by (metis Cons_nth_drop_Suc length_Cons take_Suc_Cons)
    have l: "d + length cs = Suc d + length cs1" by (simp add: e(1))
    show ?thesis
      unfolding l using q(3-5) e(2-4) cs by (intro conjI) (simp_all add: cfx2_def cfx1_def)
  next
    case False
    then have gt: "\<not> ?s \<le> of_nat d" "?s \<noteq> of_nat d + 1"
    proof -
      have "unat (of_nat d :: u64) = d" "unat (of_nat (Suc d) :: u64) = Suc d"
        using i len by (auto intro!: unat_of_nat64 simp del: of_nat_Suc)
      then show "\<not> ?s \<le> of_nat d" "?s \<noteq> of_nat d + 1"
        using False i(1,4) by (auto simp: word_le_nat_alt add.commute)
    qed
    define cell where "cell = \<lparr>seq = ?s, heap_idx = 0, queued_cell = x\<rparr>"
    from recv obtain q where add: "smartlist_pqueue_add conflux_queue_cmp set_heap_idx (ooo_q cfx1) cell = Some q"
      and e: "cs = []" "close = None" "b' = b + SIZEOF_CELL" "cfx' = cfx1\<lparr>ooo_q := q\<rparr>"
      using leg val gt fr
      by (auto simp: relay_recv_conflux_def conflux_process_cell_def Let_def cell_def cfx1_def split: bind_splits)
    have ok1: "queue_ok cfx1 b" using ok fr by (simp add: queue_ok_def)
    have q: "queue_ok cfx' b'" "queue_pairs cfx' = add_mset (?s, x) (queue_pairs cfx)"
      using queue_insert [OF ok1 add] fr queue_pairs_cong [of cfx1 cfx] by (simp_all add: e cell_def)
    then have r': "reordering cells W cfx' b' d"
      using W len d fr by (simp add: reordering_def e)
    have "drained cfx'"
      using reordering_drained [OF r'] reordering_drained [OF r] dr gt(2) q(2) by auto
    then show ?thesis using r' e by (simp add: cfx1_def)
  qed
qed

text \<open>Nothing in the receive path aborts while the queue is below the size limit.\<close>

lemma relay_recv_returns:
  assumes "queue_ok cfx b" and "length (ooo_q cfx) < INT_MAX"
  shows "relay_recv_conflux circs cfx b c layer x \<noteq> None"
proof -
  have deq: "conflux_dequeue_all cfx b \<noteq> None" if "queue_ok cfx b" for cfx :: "'a conflux_t" and b
    using that
  proof (induction "length (ooo_q cfx)" arbitrary: cfx b rule: less_induct)
    case less
    from less.prems show ?case
    proof (cases rule: dequeue_cases)
      case (popped c q)
      then show ?thesis
        using less.hyps [OF conflux_dequeue_cell_length [OF popped(1)] popped(3)]
        by (subst conflux_dequeue_all.simps) simp
    qed (simp add: conflux_dequeue_all.simps)
  qed
  show ?thesis
  proof (cases "conflux_get_leg cfx c")
    case (Some leg)
    let ?cfx = "conflux_set_leg c (\<lambda>leg. leg\<lparr>last_seq_recv := last_seq_recv leg + 1\<rparr>) cfx"
    have "\<exists>q. smartlist_pqueue_add conflux_queue_cmp set_heap_idx (ooo_q cfx) cell = Some q" for cell
      using assms(2) by (simp add: smartlist_pqueue_add_def smartlist_add_def)
    moreover have "conflux_dequeue_all (?cfx\<lparr>last_seq_delivered := n\<rparr>) b \<noteq> None" for n
      using assms(1) by (intro deq) (simp add: queue_ok_def)
    ultimately obtain q r where
      "smartlist_pqueue_add conflux_queue_cmp set_heap_idx (ooo_q cfx)
         \<lparr>seq = last_seq_recv leg + 1, heap_idx = 0, queued_cell = x\<rparr> = Some q"
      "conflux_dequeue_all (?cfx\<lparr>last_seq_delivered := last_seq_delivered cfx + 1\<rparr>) b = Some r"
      by blast
    then show ?thesis
      using Some by (cases r) (simp add: relay_recv_conflux_def conflux_process_cell_def Let_def)
  qed (simp add: relay_recv_conflux_def conflux_process_cell_def)
qed

section \<open>The sending side\<close>

definition switch_amount :: "bytes \<Rightarrow> u64" where
  "switch_amount payload = ucast (conflux_cell_parse_switch payload (nat RELAY_PAYLOAD_SIZE))"

lemma send_switch_command:
  assumes "conflux_send_switch_command rel = Some pl"
  shows "\<exists>payload. pl = Some payload \<and> length payload = nat RELAY_PAYLOAD_SIZE \<and> switch_amount payload = rel"
proof -
  have lt: "unat rel < 2 ^ 32" using assms by (auto simp: conflux_send_switch_command_def word_less_nat_alt split: if_splits)
  have "ucast (ucast rel :: u32) = rel"
    using lt by (intro word_unat_eq_iff [THEN iffD2])
      (simp add: unat_ucast_up unsigned_ucast_eq unsigned_take_bit_eq take_bit_nat_eq_self)
  moreover have "trn_cell_conflux_switch_parse (put_uint (ucast rel :: u32) @ r) = Some (ucast rel, r)" for r
    by (simp add: trn_cell_conflux_switch_parse_def)
  ultimately show ?thesis
    using assms
    by (auto simp: conflux_send_switch_command_def trn_cell_conflux_switch_encode_def switch_amount_def
        conflux_cell_parse_switch_def split: if_splits)
qed

text \<open>\<open>n\<close> cells were sent: the current leg knows it.\<close>

definition sending :: "'c conflux_t \<Rightarrow> nat \<Rightarrow> bool" where
  "sending cfx n \<longleftrightarrow> legs cfx \<noteq> [] \<and> \<not> in_full_teardown cfx \<and>
     (case curr_leg cfx of
        Some c \<Rightarrow> (\<exists>l. conflux_get_leg cfx c = Some l \<and> last_seq_sent l = of_nat n)
      | None \<Rightarrow> n = 0 \<and> (\<forall>l \<in> set (legs cfx). last_seq_sent l = 0))"

definition set_sent :: "u64 \<Rightarrow> conflux_leg_t \<Rightarrow> conflux_leg_t" where
  "set_sent n leg = leg\<lparr>last_seq_sent := n\<rparr>"

lemma set_sent_simps [simp]:
  "leg_circ (set_sent n l) = leg_circ l" "last_seq_sent (set_sent n l) = n"
  "last_seq_recv (set_sent n l) = last_seq_recv l" "set_sent n (set_sent m l) = set_sent n l"
  by (simp_all add: set_sent_def)

lemma decide_next_sending:
  assumes d: "conflux_decide_next_circ p circs cfx = Some (c, cfx1)" and s: "sending cfx n"
  shows "sending cfx1 n \<and> legs cfx1 = legs cfx \<and> curr_leg cfx1 \<noteq> None"
proof -
  note fr = decide_next [OF d]
  show ?thesis
  proof (cases "curr_leg cfx")
    case None
    obtain b cfx2 where pick: "conflux_pick_first_leg cfx = (b, cfx2)" by fastforce
    then have "b" "curr_leg cfx2 \<noteq> None" using s pick_first_leg [OF pick] by (auto simp: sending_def)
    then have "cfx1 = cfx2"
      using d s None pick unfolding conflux_decide_next_circ_def
      by (simp add: sending_def split: bind_splits if_splits option.splits)
    then obtain l where l: "l \<in> set (legs cfx)" "curr_leg cfx1 = Some (leg_circ l)"
      using pick_first_leg [OF pick] \<open>b\<close> by auto
    then obtain l' where "conflux_get_leg cfx (leg_circ l) = Some l'"
      using get_leg_some [of "leg_circ l" cfx] by auto
    moreover from this have "l' \<in> set (legs cfx)" by (simp add: get_leg_circ)
    ultimately show ?thesis
      using fr s None l get_leg_cong [of cfx1 cfx] by (auto simp: sending_def)
  next
    case (Some x)
    then show ?thesis using fr s by simp
  qed
qed

text \<open>What the receiver learns from the SWITCH cell that goes before a cell on circuit \<open>c\<close>.\<close>

definition announced :: "circuit_name \<Rightarrow> (circuit_name \<times> bytes) option \<Rightarrow> u64 \<Rightarrow> bool" where
  "announced c switch k \<longleftrightarrow> (case switch of
     None \<Rightarrow> k = 0 | Some (c', payload) \<Rightarrow> c' = c \<and> switch_amount payload = k)"

lemma decide_circ_for_send:
  assumes d: "conflux_decide_circ_for_send p circs cfx orig cmd = Some (c', switch, cfx')"
    and m: "conflux_should_multiplex cmd" and s: "sending cfx n"
    and can: "cmd = RELAY_COMMAND_DATA \<Longrightarrow> \<exists>r. conflux_can_send p circs cfx = Some (True, r)"
  shows "\<exists>c l k. c' = Some c \<and> conflux_get_leg cfx c = Some l \<and> announced c switch k \<and>
    last_seq_sent l + k = of_nat n \<and> curr_leg cfx' = Some c \<and> \<not> in_full_teardown cfx' \<and>
    map leg_circ (legs cfx') = map leg_circ (legs cfx) \<and>
    conflux_get_leg cfx' = (conflux_get_leg cfx)(c \<mapsto> set_sent (of_nat n) l)"
proof -
  obtain c1 cfx1 where dn: "conflux_decide_next_circ p circs cfx = Some (c1, cfx1)"
    using d m by (auto simp: conflux_decide_circ_for_send_def split: bind_splits)
  from decide_next_sending [OF dn s] obtain curr where
    s1: "sending cfx1 n" "legs cfx1 = legs cfx" and curr: "curr_leg cfx1 = Some curr" by auto
  then obtain l where l: "conflux_get_leg cfx1 curr = Some l" "last_seq_sent l = of_nat n"
    and td: "\<not> in_full_teardown cfx1" by (auto simp: sending_def)
  have gl: "conflux_get_leg cfx1 = conflux_get_leg cfx" using get_leg_cong [OF s1(2)] .
  have same: "set_sent (of_nat n) l = l" using l(2) by (simp add: set_sent_def)
  show ?thesis
  proof (cases "c1 = None \<or> c1 = Some curr")
    case True
    then have "c' = Some curr \<and> switch = None \<and> cfx' = cfx1"
      using d m dn curr can
      by (cases "cmd = RELAY_COMMAND_DATA") (auto simp: conflux_decide_circ_for_send_def conflux_can_send_def)
    then show ?thesis
      using l gl s1(2) curr td same
      by (intro exI [of _ curr] exI [of _ l] exI [of _ 0]) (auto simp: announced_def fun_eq_iff)
  next
    case False
    then obtain c where c: "c1 = Some c" "c \<noteq> curr" by auto
    let ?cfx = "cfx1\<lparr>cells_until_switch := 0, prev_leg := Some curr, curr_leg := Some c\<rparr>"
    from d m dn c curr l obtain new pl where
      new: "conflux_get_leg cfx1 c = Some new"
      and sw: "conflux_send_switch_command (last_seq_sent l - last_seq_sent new) = Some pl"
      and e: "c' = Some c" "switch = map_option (Pair c) pl"
        "cfx' = conflux_set_leg c (\<lambda>leg. leg\<lparr>last_seq_sent := last_seq_sent l\<rparr>) ?cfx"
      by (auto simp: conflux_decide_circ_for_send_def Let_def split: bind_splits if_splits)
    have g: "conflux_get_leg ?cfx = conflux_get_leg cfx1" by (rule get_leg_cong) simp
    have f: "(\<lambda>leg. leg\<lparr>last_seq_sent := last_seq_sent l\<rparr>) = set_sent (of_nat n)"
      using l(2) by (simp add: set_sent_def fun_eq_iff)
    have "conflux_get_leg cfx' = (conflux_get_leg cfx)(c \<mapsto> set_sent (of_nat n) new)"
      unfolding e f by (rule ext) (simp add: get_set_leg g gl new [unfolded gl])
    moreover have "announced c switch (last_seq_sent l - last_seq_sent new)"
      using send_switch_command [OF sw] by (auto simp: e announced_def)
    moreover have "map leg_circ (legs cfx') = map leg_circ (legs cfx)"
      unfolding e f by (simp add: names_set_leg s1(2))
    ultimately show ?thesis
      using new gl l(2) e(1,3) td
      by (intro exI [of _ c] exI [of _ new] exI [of _ "last_seq_sent l - last_seq_sent new"]) auto
  qed
qed

lemma relay_send_sending:
  assumes r: "relay_send_conflux p circs cfx orig lay cmd queued = Some (c, layer, switch, cfx')"
    and m: "conflux_should_multiplex cmd" and s: "sending cfx n"
    and can: "cmd = RELAY_COMMAND_DATA \<Longrightarrow> \<exists>r. conflux_can_send p circs cfx = Some (True, r)"
  shows "sending cfx' (if queued then Suc n else n) \<and> map leg_circ (legs cfx') = map leg_circ (legs cfx) \<and>
    (\<exists>l k. conflux_get_leg cfx c = Some l \<and> announced c switch k \<and> last_seq_sent l + k = of_nat n \<and>
      conflux_get_leg cfx' = (conflux_get_leg cfx)(c \<mapsto> set_sent (of_nat (if queued then Suc n else n)) l))"
proof -
  from r m obtain c1 cfx1 where d: "conflux_decide_circ_for_send p circs cfx orig cmd = Some (c1, switch, cfx1)"
    and c: "c = (case c1 of None \<Rightarrow> orig | Some c \<Rightarrow> c)"
    and cfx': "cfx' = (if queued then conflux_note_cell_sent cfx1 c cmd else cfx1)"
    by (auto simp: relay_send_conflux_def split: bind_splits if_splits option.splits)
  from decide_circ_for_send [OF d m s can] c obtain l k where
    l: "c1 = Some c" "conflux_get_leg cfx c = Some l" "announced c switch k" "last_seq_sent l + k = of_nat n"
      "curr_leg cfx1 = Some c" "\<not> in_full_teardown cfx1" "map leg_circ (legs cfx1) = map leg_circ (legs cfx)"
      "conflux_get_leg cfx1 = (conflux_get_leg cfx)(c \<mapsto> set_sent (of_nat n) l)"
    by auto
  let ?m = "if queued then Suc n else n"
  let ?f = "\<lambda>leg. leg\<lparr>last_seq_sent := last_seq_sent leg + 1\<rparr>"
  have g1: "conflux_get_leg (conflux_set_leg c ?f cfx1) = (conflux_get_leg cfx)(c \<mapsto> set_sent (of_nat (Suc n)) l)"
    by (rule ext) (simp add: get_set_leg l(8) set_sent_def add.commute)
  have noted: "conflux_note_cell_sent cfx1 c cmd = conflux_set_leg c ?f cfx1 \<or>
      (\<exists>k. conflux_note_cell_sent cfx1 c cmd = (conflux_set_leg c ?f cfx1)\<lparr>cells_until_switch := k\<rparr>)"
    using m l(8) by (auto simp: conflux_note_cell_sent_def Let_def)
  have gk: "conflux_get_leg ((conflux_set_leg c ?f cfx1)\<lparr>cells_until_switch := k\<rparr>) = conflux_get_leg (conflux_set_leg c ?f cfx1)" for k
    by (rule get_leg_cong) simp
  have n: "conflux_get_leg (conflux_note_cell_sent cfx1 c cmd) = (conflux_get_leg cfx)(c \<mapsto> set_sent (of_nat (Suc n)) l) \<and>
      map leg_circ (legs (conflux_note_cell_sent cfx1 c cmd)) = map leg_circ (legs cfx) \<and>
      curr_leg (conflux_note_cell_sent cfx1 c cmd) = Some c \<and> \<not> in_full_teardown (conflux_note_cell_sent cfx1 c cmd)"
    using noted g1 l(5-7) by (auto simp: names_set_leg gk)
  have g: "conflux_get_leg cfx' = (conflux_get_leg cfx)(c \<mapsto> set_sent (of_nat ?m) l)"
    and nm: "map leg_circ (legs cfx') = map leg_circ (legs cfx)" and ct: "curr_leg cfx' = Some c" "\<not> in_full_teardown cfx'"
    using n l(5-8) by (auto simp: cfx')
  have "legs cfx' \<noteq> []" using nm s by (auto simp: sending_def)
  then have "sending cfx' ?m" using ct g by (simp add: sending_def)
  then show ?thesis using nm g l by blast
qed

section \<open>Properties\<close>

text \<open>
  C13. The scheduler picks the fastest leg. When the set may switch, the algorithm MINRTT
  answers the leg with the smallest measured RTT if that leg can send, and no leg otherwise; LOWRTT
  answers the fastest of the legs that can send, and no leg only if none of them was measured. The
  legs are not changed.
\<close>

theorem conflux_decide_next_choice:
  assumes "conflux_decide_next_circ p circs cfx = Some (c, cfx')"
    and "\<not> in_full_teardown cfx" and "cells_until_switch cfx = 0"
  shows "legs cfx' = legs cfx \<and>
    (params_alg cfx = CONFLUX_ALG_MINRTT \<longrightarrow>
      (case c of
         Some x \<Rightarrow> fastest (legs cfx) (Some x) \<and> circuit_ready_to_send (circs x) = Some True
       | None \<Rightarrow> \<exists>b. fastest (legs cfx) b \<and> (b \<noteq> None \<longrightarrow> circuit_ready_to_send (circs (the b)) = Some False))) \<and>
    (params_alg cfx = CONFLUX_ALG_LOWRTT \<longrightarrow> fastest (filter (ready_leg circs) (legs cfx)) c)"
proof -
  obtain b cfx1 where pick: "(if curr_leg cfx = None then conflux_pick_first_leg cfx else (True, cfx)) = (b, cfx1)"
    by fastforce
  have fr: "legs cfx1 = legs cfx" "params_alg cfx1 = params_alg cfx" "cells_until_switch cfx1 = 0" "\<not> b \<Longrightarrow> legs cfx = []"
    using pick pick_first_leg [of cfx b cfx1] assms(3) by (cases b; auto split: if_splits)+
  have none: "fastest [] None" by (simp add: fastest_def)
  have can: "conflux_can_switch p circs cfx1 = Some True"
    by (simp add: conflux_can_switch_def fr(3))
  show ?thesis
  proof (cases b)
    case False
    then have "c = None \<and> cfx' = cfx1 \<and> legs cfx = []"
      using assms(1,2) fr(4) by (simp add: conflux_decide_next_circ_def pick)
    then show ?thesis using none fr(1) by auto
  next
    case True
    then have "cfx' = cfx1" and "case params_alg cfx of
        CONFLUX_ALG_MINRTT \<Rightarrow> conflux_decide_circ_minrtt circs cfx1 = Some c
      | CONFLUX_ALG_LOWRTT \<Rightarrow> conflux_decide_circ_lowrtt circs cfx1 = Some c
      | CONFLUX_ALG_CWNDRTT \<Rightarrow> True"
      using assms(1,2) can fr(2)
      by (auto simp: conflux_decide_next_circ_def pick split: bind_splits conflux_alg_t.splits)
    then show ?thesis
      using fr(1) decide_minrtt [of circs cfx1 c] decide_lowrtt [of circs cfx1 c]
      by (cases "params_alg cfx"; cases c) simp_all
  qed
qed

text \<open>Two legs on circuits at an exit; both can send.\<close>

definition example_exit_circ :: circuit_t where
  "example_exit_circ = example_circ\<lparr>is_origin := False, n_chan_attached := False\<rparr>"

definition example_leg :: "circuit_name \<Rightarrow> u64 \<Rightarrow> conflux_leg_t" where
  "example_leg c usec = \<lparr>last_seq_recv = 0, last_seq_sent = 0, circ_rtts_usec = usec, linked_sent_usec = 0, leg_circ = c\<rparr>"

definition example_set :: "nat conflux_t" where
  "example_set = \<lparr>params_alg = CONFLUX_ALG_LOWRTT, legs = [example_leg 1 300, example_leg 2 200],
     ooo_q = [], last_seq_delivered = 0, cells_until_switch = 0, curr_leg = None, prev_leg = None,
     set_nonce = [], in_full_teardown = False\<rparr>"

theorem conflux_decide_next_choice_witness:
  "\<exists>cfx'. conflux_decide_next_circ (conflux_params_init (-1)) (\<lambda>_. example_exit_circ) example_set = Some (Some 2, cfx') \<and>
    legs cfx' = legs example_set \<and>
    fastest (filter (ready_leg (\<lambda>_. example_exit_circ)) (legs example_set)) (Some 2)"
proof -
  let ?d = "conflux_decide_next_circ (conflux_params_init (-1)) (\<lambda>_. example_exit_circ) example_set"
  have "map_option fst ?d = Some (Some 2)" by code_simp
  then obtain cfx' where d: "?d = Some (Some 2, cfx')" by (cases ?d) auto
  show ?thesis
    using d conflux_decide_next_choice [OF d] by (simp add: example_set_def)
qed

text \<open>The numbers of the cells that leave the queue together.\<close>

definition numbered_from :: "u64 \<Rightarrow> 'c list \<Rightarrow> (u64 \<times> 'c) multiset" where
  "numbered_from d cs = mset (map (\<lambda>i. (d + 1 + of_nat i, cs ! i)) [0 ..< length cs])"

lemma numbered_from_Cons: "numbered_from d (x # cs) = add_mset (d + 1, x) (numbered_from (d + 1) cs)"
proof -
  have "map (\<lambda>i. (d + 1 + of_nat i, (x # cs) ! i)) [0 ..< Suc (length cs)]
      = (d + 1, x) # map (\<lambda>i. (d + 1 + 1 + of_nat i, cs ! i)) [0 ..< length cs]"
    by (simp add: upt_conv_Cons map_Suc_upt [symmetric] comp_def algebra_simps del: upt_Suc)
  then show ?thesis unfolding numbered_from_def by simp
qed

lemma dequeue_all_ok:
  assumes "queue_ok cfx b"
  shows "\<exists>cs b' cfx'. conflux_dequeue_all cfx b = Some (cs, b', cfx') \<and> queue_ok cfx' b' \<and> drained cfx' \<and>
    legs cfx' = legs cfx \<and> last_seq_delivered cfx' = last_seq_delivered cfx + of_nat (length cs) \<and>
    queue_pairs cfx = numbered_from (last_seq_delivered cfx) cs + queue_pairs cfx'"
  using assms
proof (induction "length (ooo_q cfx)" arbitrary: cfx b rule: less_induct)
  case less
  from less.prems show ?case
  proof (cases rule: dequeue_cases)
    case stop
    then show ?thesis using less.prems by (simp add: conflux_dequeue_all.simps numbered_from_def)
  next
    case (popped c q)
    define cfx1 where "cfx1 = cfx\<lparr>ooo_q := q, last_seq_delivered := last_seq_delivered cfx + 1\<rparr>"
    have l: "length (ooo_q cfx1) < length (ooo_q cfx)"
      using conflux_dequeue_cell_length [OF popped(1)] by (simp add: cfx1_def)
    from less.hyps [OF l popped(3) [folded cfx1_def]] obtain cs b' cfx' where
      r: "conflux_dequeue_all cfx1 (b - SIZEOF_CELL) = Some (cs, b', cfx')" "queue_ok cfx' b'" "drained cfx'"
        "legs cfx' = legs cfx1" "last_seq_delivered cfx' = last_seq_delivered cfx1 + of_nat (length cs)"
        "queue_pairs cfx1 = numbered_from (last_seq_delivered cfx1) cs + queue_pairs cfx'" by blast
    have "conflux_dequeue_all cfx b = Some (queued_cell c # cs, b', cfx')"
      using popped(1) r(1) by (subst conflux_dequeue_all.simps) (simp add: cfx1_def)
    moreover have "queue_pairs cfx = numbered_from (last_seq_delivered cfx) (queued_cell c # cs) + queue_pairs cfx'"
      using popped(4) [folded cfx1_def] r(6) by (simp add: numbered_from_Cons cfx1_def)
    ultimately show ?thesis using r by (auto simp: cfx1_def)
  qed
qed



end
