(* ===== verification/Circuitmux.thy ===== *)
theory Circuitmux
  imports Conflux
begin

text \<open>
  Circuit multiplexers (\<open>src/core/or/circuitmux.c\<close>): which circuits are attached to a channel,
  how many cells each has queued, and which one may send next. A mux keeps a map from channel and
  circuit IDs to counts, the totals, and a queue of DESTROY cells; the choice among the active
  circuits is a policy's, a table of callbacks (\<open>circuitmux.h\<close>).

  The hash table is a map. The unsigned counters are 32-bit words. A policy is a record of optional
  callbacks; its address is \<open>pol_id\<close>. A callback gets the policy's own data, the data it keeps
  for the circuit, and the state \<open>'g\<close> of the policy module, and returns what it changed;
  inside a callback, as elsewhere, \<open>None\<close> is an abort. Freeing is not modelled, only whether
  the callback is there. \<open>mux_circuit_t\<close> adds the channels and IDs to the fields of a circuit.
\<close>

section \<open>Data\<close>

datatype cell_direction_t = CELL_DIRECTION_IN | CELL_DIRECTION_OUT

record mux_circuit_t = circuit_t +
  n_chan :: "u64 option"
  n_circ_id :: u32
  p_chan :: "u64 option"
  p_circ_id :: u32

record 'cd circuit_muxinfo_t =
  cell_count :: u32
  direction :: cell_direction_t
  mi_policy_data :: "'cd option"

record ('g, 'pd, 'cd) circuitmux_policy_t =
  pol_id :: nat
  alloc_cmux_data :: "('g \<Rightarrow> 'pd option) option"
  free_cmux_data :: bool
  alloc_circ_data :: "('g \<Rightarrow> 'pd option \<Rightarrow> circuit_name \<Rightarrow> cell_direction_t \<Rightarrow> u32 \<Rightarrow> 'cd option option) option"
  free_circ_data :: bool
  notify_circ_active :: "('g \<Rightarrow> 'pd option \<Rightarrow> circuit_name \<Rightarrow> 'cd option \<Rightarrow> ('pd option \<times> 'cd option) option) option"
  notify_circ_inactive :: "('g \<Rightarrow> 'pd option \<Rightarrow> circuit_name \<Rightarrow> 'cd option \<Rightarrow> ('pd option \<times> 'cd option) option) option"
  notify_set_n_cells :: "('g \<Rightarrow> 'pd option \<Rightarrow> circuit_name \<Rightarrow> 'cd option \<Rightarrow> u32 \<Rightarrow> ('pd option \<times> 'cd option) option) option"
  notify_xmit_cells :: "('g \<Rightarrow> 'pd option \<Rightarrow> circuit_name \<Rightarrow> 'cd option \<Rightarrow> u32 \<Rightarrow> ('g \<times> 'pd option \<times> 'cd option) option) option"
  pick_active_circuit :: "'pd option \<Rightarrow> circuit_name option option"
  cmp_cmux :: "('pd option \<Rightarrow> 'pd option \<Rightarrow> int option) option"

type_synonym mux_key = "u64 \<times> u32"

record ('g, 'pd, 'cd) circuitmux_t =
  n_circuits :: u32
  n_active_circuits :: u32
  n_cells :: u32
  chanid_circid_map :: "mux_key \<Rightarrow> 'cd circuit_muxinfo_t option"
  destroy_cell_queue :: "(u32 \<times> u8) list"
  last_cell_was_destroy :: bool
  destroy_ctr :: int
  policy :: "('g, 'pd, 'cd) circuitmux_policy_t option"
  policy_data :: "'pd option"

section \<open>Creating, and finding circuits\<close>

definition circuitmux_alloc :: "('g, 'pd, 'cd) circuitmux_t" where
  "circuitmux_alloc = \<lparr>n_circuits = 0, n_active_circuits = 0, n_cells = 0, chanid_circid_map = (\<lambda>_. None),
     destroy_cell_queue = [], last_cell_was_destroy = False, destroy_ctr = 0, policy = None, policy_data = None\<rparr>"

text \<open>The keys under which a circuit may be attached.\<close>

definition n_key :: "mux_circuit_t \<Rightarrow> mux_key option" where
  "n_key circ = map_option (\<lambda>ch. (ch, n_circ_id circ)) (n_chan circ)"

definition p_key :: "mux_circuit_t \<Rightarrow> mux_key option" where
  "p_key circ = (if is_origin circ then None else map_option (\<lambda>ch. (ch, p_circ_id circ)) (p_chan circ))"

definition HT_FIND :: "('g, 'pd, 'cd) circuitmux_t \<Rightarrow> mux_key option \<Rightarrow> (mux_key \<times> 'cd circuit_muxinfo_t) option" where
  "HT_FIND cmux key = (case key of None \<Rightarrow> None | Some k \<Rightarrow> map_option (Pair k) (chanid_circid_map cmux k))"

definition HT_UPDATE ::
    "mux_key \<Rightarrow> ('cd circuit_muxinfo_t \<Rightarrow> 'cd circuit_muxinfo_t) \<Rightarrow> ('g, 'pd, 'cd) circuitmux_t \<Rightarrow> ('g, 'pd, 'cd) circuitmux_t" where
  "HT_UPDATE k f cmux =
     cmux\<lparr>chanid_circid_map := (chanid_circid_map cmux)(k := map_option f (chanid_circid_map cmux k))\<rparr>"

definition circuitmux_find_map_entry ::
    "('g, 'pd, 'cd) circuitmux_t \<Rightarrow> mux_circuit_t \<Rightarrow> (mux_key \<times> 'cd circuit_muxinfo_t) option option" where
  "circuitmux_find_map_entry cmux circ =
     (case HT_FIND cmux (n_key circ) of
        Some (k, e) \<Rightarrow> if direction e = CELL_DIRECTION_OUT then Some (Some (k, e)) else None
      | None \<Rightarrow>
          (case HT_FIND cmux (p_key circ) of
             Some (k, e) \<Rightarrow> if direction e = CELL_DIRECTION_IN then Some (Some (k, e)) else None
           | None \<Rightarrow> Some None))"

definition circuitmux_attached_circuit_direction ::
    "('g, 'pd, 'cd) circuitmux_t \<Rightarrow> mux_circuit_t \<Rightarrow> cell_direction_t option" where
  "circuitmux_attached_circuit_direction cmux circ = do {
     hashent \<leftarrow> circuitmux_find_map_entry cmux circ;
     map_option (direction \<circ> snd) hashent
   }"

definition circuitmux_is_circuit_attached :: "('g, 'pd, 'cd) circuitmux_t \<Rightarrow> mux_circuit_t \<Rightarrow> bool option" where
  "circuitmux_is_circuit_attached cmux circ = map_option (\<lambda>e. e \<noteq> None) (circuitmux_find_map_entry cmux circ)"

definition circuitmux_num_cells_for_circuit :: "('g, 'pd, 'cd) circuitmux_t \<Rightarrow> mux_circuit_t \<Rightarrow> u32 option" where
  "circuitmux_num_cells_for_circuit cmux circ =
     map_option (\<lambda>e. case e of Some (k, e) \<Rightarrow> cell_count e | None \<Rightarrow> 0) (circuitmux_find_map_entry cmux circ)"

definition circuitmux_is_circuit_active :: "('g, 'pd, 'cd) circuitmux_t \<Rightarrow> mux_circuit_t \<Rightarrow> bool option" where
  "circuitmux_is_circuit_active cmux circ =
     map_option (\<lambda>e. case e of Some (k, e) \<Rightarrow> cell_count e > 0 | None \<Rightarrow> False) (circuitmux_find_map_entry cmux circ)"

definition circuitmux_num_cells :: "('g, 'pd, 'cd) circuitmux_t \<Rightarrow> u32" where
  "circuitmux_num_cells cmux = n_cells cmux + of_nat (length (destroy_cell_queue cmux))"

section \<open>Telling the policy\<close>

definition circuitmux_make_circuit_active ::
    "'g \<Rightarrow> circuit_name \<Rightarrow> mux_circuit_t \<Rightarrow> ('g, 'pd, 'cd) circuitmux_t \<Rightarrow> ('g, 'pd, 'cd) circuitmux_t option" where
  "circuitmux_make_circuit_active g c circ cmux = do {
     pol \<leftarrow> policy cmux;
     case notify_circ_active pol of
       None \<Rightarrow> Some cmux
     | Some notify \<Rightarrow> do {
         hashent \<leftarrow> circuitmux_find_map_entry cmux circ;
         (k, e) \<leftarrow> hashent;
         (pd, cd) \<leftarrow> notify g (policy_data cmux) c (mi_policy_data e);
         Some (HT_UPDATE k (\<lambda>e. e\<lparr>mi_policy_data := cd\<rparr>) (cmux\<lparr>policy_data := pd\<rparr>))
       }
   }"

definition circuitmux_make_circuit_inactive ::
    "'g \<Rightarrow> circuit_name \<Rightarrow> mux_circuit_t \<Rightarrow> ('g, 'pd, 'cd) circuitmux_t \<Rightarrow> ('g, 'pd, 'cd) circuitmux_t option" where
  "circuitmux_make_circuit_inactive g c circ cmux = do {
     pol \<leftarrow> policy cmux;
     case notify_circ_inactive pol of
       None \<Rightarrow> Some cmux
     | Some notify \<Rightarrow> do {
         hashent \<leftarrow> circuitmux_find_map_entry cmux circ;
         (k, e) \<leftarrow> hashent;
         (pd, cd) \<leftarrow> notify g (policy_data cmux) c (mi_policy_data e);
         Some (HT_UPDATE k (\<lambda>e. e\<lparr>mi_policy_data := cd\<rparr>) (cmux\<lparr>policy_data := pd\<rparr>))
       }
   }"

section \<open>Attaching and detaching\<close>

text \<open>A circuit that is already attached gets a new count.\<close>

definition reattach_circuit ::
    "'g \<Rightarrow> circuit_name \<Rightarrow> mux_circuit_t \<Rightarrow> mux_key \<Rightarrow> 'cd circuit_muxinfo_t \<Rightarrow> u32 \<Rightarrow> ('g, 'pd, 'cd) circuitmux_t
      \<Rightarrow> ('g, 'pd, 'cd) circuitmux_t option" where
  "reattach_circuit g c circ k e n cmux = do {
     cmux1 \<leftarrow>
       (if cell_count e > 0 \<and> n = 0
        then circuitmux_make_circuit_inactive g c circ (cmux\<lparr>n_active_circuits := n_active_circuits cmux - 1\<rparr>)
        else if cell_count e = 0 \<and> n > 0
        then circuitmux_make_circuit_active g c circ (cmux\<lparr>n_active_circuits := n_active_circuits cmux + 1\<rparr>)
        else Some cmux);
     Some (HT_UPDATE k (\<lambda>e. e\<lparr>cell_count := n\<rparr>) (cmux1\<lparr>n_cells := n_cells cmux1 - cell_count e + n\<rparr>))
   }"

definition attach_new_circuit ::
    "'g \<Rightarrow> circuit_name \<Rightarrow> mux_circuit_t \<Rightarrow> mux_key \<Rightarrow> cell_direction_t \<Rightarrow> u32 \<Rightarrow> ('g, 'pd, 'cd) circuitmux_t
      \<Rightarrow> ('g, 'pd, 'cd) circuitmux_t option" where
  "attach_new_circuit g c circ k dir n cmux = do {
     pol \<leftarrow> policy cmux;
     cd \<leftarrow> (case alloc_circ_data pol of
              None \<Rightarrow> Some None
            | Some alloc \<Rightarrow>
                if \<not> free_circ_data pol then None
                else do {
                  cd \<leftarrow> alloc g (policy_data cmux) c dir n;
                  if cd = None then None else Some cd
                });
     let cmux1 = cmux\<lparr>chanid_circid_map := (chanid_circid_map cmux)
           (k \<mapsto> \<lparr>cell_count = n, direction = dir, mi_policy_data = cd\<rparr>),
           n_circuits := n_circuits cmux + 1\<rparr>;
     cmux2 \<leftarrow>
       (if n > 0
        then circuitmux_make_circuit_active g c circ (cmux1\<lparr>n_active_circuits := n_active_circuits cmux1 + 1\<rparr>)
        else Some cmux1);
     Some (cmux2\<lparr>n_cells := n_cells cmux2 + n\<rparr>)
   }"

definition circuitmux_attach_circuit ::
    "'g \<Rightarrow> circuit_name \<Rightarrow> mux_circuit_t \<Rightarrow> cell_direction_t \<Rightarrow> ('g, 'pd, 'cd) circuitmux_t \<Rightarrow> ('g, 'pd, 'cd) circuitmux_t option" where
  "circuitmux_attach_circuit g c circ dir cmux = do {
     let count = (of_int (if dir = CELL_DIRECTION_OUT then n_chan_cells_n circ else p_chan_cells_n circ) :: u32);
     chan \<leftarrow> (if dir = CELL_DIRECTION_OUT then n_chan circ else p_chan circ);
     let circ_id = (if dir = CELL_DIRECTION_OUT then n_circ_id circ else p_circ_id circ);
     if circ_id = 0 \<or> (dir = CELL_DIRECTION_IN \<and> is_origin circ) then None
     else let k = (chan, circ_id) in
       case chanid_circid_map cmux k of
         Some e \<Rightarrow> if direction e \<noteq> dir then None else reattach_circuit g c circ k e count cmux
       | None \<Rightarrow> attach_new_circuit g c circ k dir count cmux
   }"

definition circuitmux_detach_circuit ::
    "'g \<Rightarrow> circuit_name \<Rightarrow> mux_circuit_t \<Rightarrow> ('g, 'pd, 'cd) circuitmux_t \<Rightarrow> ('g, 'pd, 'cd) circuitmux_t option" where
  "circuitmux_detach_circuit g c circ cmux =
     (let n_found = HT_FIND cmux (n_key circ);
          found = (if n_found \<noteq> None then n_found else HT_FIND cmux (p_key circ));
          searched = (if n_found = None \<and> p_key circ \<noteq> None then Some CELL_DIRECTION_IN
                      else if n_chan circ \<noteq> None then Some CELL_DIRECTION_OUT else None)
      in if searched = None then None
         else case found of
           None \<Rightarrow> Some cmux
         | Some (k, e) \<Rightarrow> do {
             let cmux1 = cmux\<lparr>n_circuits := n_circuits cmux - 1\<rparr>;
             cmux2 \<leftarrow> (if cell_count e > 0
                       then circuitmux_make_circuit_inactive g c circ (cmux1\<lparr>n_active_circuits := n_active_circuits cmux1 - 1\<rparr>)
                       else Some cmux1);
             let cmux3 = cmux2\<lparr>n_cells := n_cells cmux2 - cell_count e\<rparr>;
             e3 \<leftarrow> chanid_circid_map cmux3 k;
             if mi_policy_data e3 \<noteq> None \<and> (case policy cmux3 of None \<Rightarrow> True | Some pol \<Rightarrow> \<not> free_circ_data pol) then None
             else if searched \<noteq> Some (direction e) then None
             else Some (cmux3\<lparr>chanid_circid_map := (chanid_circid_map cmux3)(k := None)\<rparr>)
           })"

section \<open>Counting cells\<close>

definition circuitmux_set_num_cells ::
    "'g \<Rightarrow> circuit_name \<Rightarrow> mux_circuit_t \<Rightarrow> u32 \<Rightarrow> ('g, 'pd, 'cd) circuitmux_t \<Rightarrow> ('g, 'pd, 'cd) circuitmux_t option" where
  "circuitmux_set_num_cells g c circ n cmux = do {
     hashent \<leftarrow> circuitmux_find_map_entry cmux circ;
     (k, e) \<leftarrow> hashent;
     let cmux1 = cmux\<lparr>n_cells := n_cells cmux - cell_count e + n\<rparr>;
     pol \<leftarrow> policy cmux1;
     cmux2 \<leftarrow> (case notify_set_n_cells pol of
                  None \<Rightarrow> Some cmux1
                | Some notify \<Rightarrow> do {
                    (pd, cd) \<leftarrow> notify g (policy_data cmux1) c (mi_policy_data e) n;
                    Some (HT_UPDATE k (\<lambda>e. e\<lparr>mi_policy_data := cd\<rparr>) (cmux1\<lparr>policy_data := pd\<rparr>))
                  });
     let cmux3 = HT_UPDATE k (\<lambda>e. e\<lparr>cell_count := n\<rparr>) cmux2;
     if cell_count e > 0 \<and> n = 0
     then circuitmux_make_circuit_inactive g c circ (cmux3\<lparr>n_active_circuits := n_active_circuits cmux3 - 1\<rparr>)
     else if cell_count e = 0 \<and> n > 0
     then circuitmux_make_circuit_active g c circ (cmux3\<lparr>n_active_circuits := n_active_circuits cmux3 + 1\<rparr>)
     else Some cmux3
   }"

definition circuitmux_clear_num_cells ::
    "'g \<Rightarrow> circuit_name \<Rightarrow> mux_circuit_t \<Rightarrow> ('g, 'pd, 'cd) circuitmux_t \<Rightarrow> ('g, 'pd, 'cd) circuitmux_t option" where
  "circuitmux_clear_num_cells g c circ cmux = circuitmux_set_num_cells g c circ 0 cmux"

section \<open>Sending\<close>

text \<open>The circuit to send from, or the queue of DESTROY cells (\<open>True\<close>).\<close>

definition circuitmux_get_first_active_circuit ::
    "('g, 'pd, 'cd) circuitmux_t \<Rightarrow> (circuit_name option \<times> bool \<times> ('g, 'pd, 'cd) circuitmux_t) option" where
  "circuitmux_get_first_active_circuit cmux = do {
     pol \<leftarrow> policy cmux;
     if destroy_cell_queue cmux \<noteq> [] \<and> (\<not> last_cell_was_destroy cmux \<or> n_active_circuits cmux = 0)
     then Some (None, True, cmux\<lparr>last_cell_was_destroy := True\<rparr>)
     else if n_active_circuits cmux > 0
     then if \<not> n_cells cmux > 0 then None
          else do {
            circ \<leftarrow> pick_active_circuit pol (policy_data cmux);
            Some (circ, False, cmux\<lparr>last_cell_was_destroy := False\<rparr>)
          }
     else if n_cells cmux \<noteq> 0 \<or> destroy_cell_queue cmux \<noteq> [] then None
     else Some (None, False, cmux)
   }"

definition circuitmux_notify_xmit_cells ::
    "'g \<Rightarrow> circuit_name \<Rightarrow> mux_circuit_t \<Rightarrow> u32 \<Rightarrow> ('g, 'pd, 'cd) circuitmux_t \<Rightarrow> ('g \<times> ('g, 'pd, 'cd) circuitmux_t) option" where
  "circuitmux_notify_xmit_cells g c circ n cmux =
     (if n = 0 then Some (g, cmux)
      else do {
        hashent \<leftarrow> circuitmux_find_map_entry cmux circ;
        (k, e) \<leftarrow> hashent;
        if \<not> n \<le> cell_count e then None
        else do {
          let becomes_inactive = (cell_count e - n = 0);
          let cmux1 = HT_UPDATE k (\<lambda>e. e\<lparr>cell_count := cell_count e - n\<rparr>) (cmux\<lparr>n_cells := n_cells cmux - n\<rparr>);
          pol \<leftarrow> policy cmux1;
          (g2, cmux2) \<leftarrow>
            (case notify_xmit_cells pol of
               None \<Rightarrow> Some (g, cmux1)
             | Some notify \<Rightarrow> do {
                 (g2, pd, cd) \<leftarrow> notify g (policy_data cmux1) c (mi_policy_data e) n;
                 Some (g2, HT_UPDATE k (\<lambda>e. e\<lparr>mi_policy_data := cd\<rparr>) (cmux1\<lparr>policy_data := pd\<rparr>))
               });
          if becomes_inactive
          then map_option (Pair g2) (circuitmux_make_circuit_inactive g2 c circ (cmux2\<lparr>n_active_circuits := n_active_circuits cmux2 - 1\<rparr>))
          else Some (g2, cmux2)
        }
      })"

definition circuitmux_notify_xmit_destroy :: "int \<Rightarrow> ('g, 'pd, 'cd) circuitmux_t \<Rightarrow> int \<times> ('g, 'pd, 'cd) circuitmux_t" where
  "circuitmux_notify_xmit_destroy global_destroy_ctr cmux =
     (global_destroy_ctr - 1, cmux\<lparr>destroy_ctr := destroy_ctr cmux - 1\<rparr>)"

text \<open>\<open>prime\<close>, when the channel has nothing to write, is a call of
  \<open>channel_flush_from_first_active_circuit\<close> that follows.\<close>

definition circuitmux_append_destroy_cell ::
    "bool \<Rightarrow> int \<Rightarrow> ('g, 'pd, 'cd) circuitmux_t \<Rightarrow> u32 \<Rightarrow> u8 \<Rightarrow> int \<times> ('g, 'pd, 'cd) circuitmux_t \<times> bool" where
  "circuitmux_append_destroy_cell has_queued_writes global_destroy_ctr cmux circ_id reason =
     (global_destroy_ctr + 1,
      cmux\<lparr>destroy_cell_queue := destroy_cell_queue cmux @ [(circ_id, reason)], destroy_ctr := destroy_ctr cmux + 1\<rparr>,
      \<not> has_queued_writes)"

text \<open>The DESTROY cells thrown away with the mux no longer count.\<close>

definition circuitmux_free :: "int \<Rightarrow> ('g, 'pd, 'cd) circuitmux_t \<Rightarrow> int option" where
  "circuitmux_free global_destroy_ctr cmux =
     (if n_circuits cmux \<noteq> 0 \<or> n_active_circuits cmux \<noteq> 0 then None
      else if (case policy cmux of None \<Rightarrow> True | Some pol \<Rightarrow> \<not> free_cmux_data pol) \<and> policy_data cmux \<noteq> None then None
      else Some (global_destroy_ctr - int (length (destroy_cell_queue cmux))))"

definition circuitmux_compare_muxes ::
    "bool \<Rightarrow> ('g, 'pd, 'cd) circuitmux_t \<Rightarrow> ('g, 'pd, 'cd) circuitmux_t \<Rightarrow> int option" where
  "circuitmux_compare_muxes same cmux1 cmux2 =
     (if same then Some 0
      else case (policy cmux1, policy cmux2) of
        (Some p1, Some p2) \<Rightarrow>
          if pol_id p1 = pol_id p2
          then (case cmp_cmux p1 of Some cmp \<Rightarrow> cmp (policy_data cmux1) (policy_data cmux2) | None \<Rightarrow> Some 0)
          else Some 0
      | _ \<Rightarrow> Some 0)"

section \<open>All circuits at once\<close>

text \<open>The order of the hash table is the argument \<open>keys\<close>; \<open>circuit_of\<close> finds the circuit of an entry
  through the global channel and circuit tables.\<close>

fun set_policy_loop ::
    "'g \<Rightarrow> (mux_key \<Rightarrow> circuit_name option) \<Rightarrow> ('g, 'pd, 'cd) circuitmux_policy_t option \<Rightarrow> ('g, 'pd, 'cd) circuitmux_policy_t option
      \<Rightarrow> mux_key list \<Rightarrow> 'pd option \<times> 'pd option \<times> (mux_key \<Rightarrow> 'cd circuit_muxinfo_t option)
      \<Rightarrow> ('pd option \<times> 'pd option \<times> (mux_key \<Rightarrow> 'cd circuit_muxinfo_t option)) option" where
  "set_policy_loop g circuit_of old new [] st = Some st"
| "set_policy_loop g circuit_of old new (k # ks) (old_pd, new_pd, m) = do {
     c \<leftarrow> circuit_of k;
     e \<leftarrow> m k;
     (old_pd1, cd1) \<leftarrow>
       (case Option.bind old notify_circ_inactive of
          Some notify \<Rightarrow> if cell_count e > 0 then notify g old_pd c (mi_policy_data e) else Some (old_pd, mi_policy_data e)
        | None \<Rightarrow> Some (old_pd, mi_policy_data e));
     if cd1 \<noteq> None \<and> (case old of None \<Rightarrow> True | Some p \<Rightarrow> \<not> free_circ_data p) then None
     else do {
       cd2 \<leftarrow>
         (case Option.bind new alloc_circ_data of
            Some alloc \<Rightarrow> if \<not> free_circ_data (the new) then None else alloc g new_pd c (direction e) (cell_count e)
          | None \<Rightarrow> Some None);
       (new_pd1, cd3) \<leftarrow>
         (case Option.bind new notify_circ_active of
            Some notify \<Rightarrow> if cell_count e > 0 then notify g new_pd c cd2 else Some (new_pd, cd2)
          | None \<Rightarrow> Some (new_pd, cd2));
       set_policy_loop g circuit_of old new ks (old_pd1, new_pd1, m(k \<mapsto> e\<lparr>mi_policy_data := cd3\<rparr>))
     }
   }"

definition circuitmux_set_policy ::
    "'g \<Rightarrow> (mux_key \<Rightarrow> circuit_name option) \<Rightarrow> mux_key list \<Rightarrow> ('g, 'pd, 'cd) circuitmux_policy_t option
      \<Rightarrow> ('g, 'pd, 'cd) circuitmux_t \<Rightarrow> ('g, 'pd, 'cd) circuitmux_t option" where
  "circuitmux_set_policy g circuit_of keys pol cmux =
     (if map_option pol_id (policy cmux) = map_option pol_id pol then Some cmux
      else do {
        new_pd \<leftarrow>
          (case Option.bind pol alloc_cmux_data of
             Some alloc \<Rightarrow> if \<not> free_cmux_data (the pol) \<or> alloc g = None then None else Some (alloc g)
           | None \<Rightarrow> Some None);
        (old_pd, new_pd1, m) \<leftarrow> set_policy_loop g circuit_of (policy cmux) pol keys (policy_data cmux, new_pd, chanid_circid_map cmux);
        if old_pd \<noteq> None \<and> (case policy cmux of None \<Rightarrow> True | Some p \<Rightarrow> \<not> free_cmux_data p) then None
        else Some (cmux\<lparr>policy := pol, policy_data := new_pd1, chanid_circid_map := m\<rparr>)
      })"

definition circuitmux_clear_policy ::
    "'g \<Rightarrow> (mux_key \<Rightarrow> circuit_name option) \<Rightarrow> mux_key list \<Rightarrow> ('g, 'pd, 'cd) circuitmux_t \<Rightarrow> ('g, 'pd, 'cd) circuitmux_t option" where
  "circuitmux_clear_policy g circuit_of keys cmux = circuitmux_set_policy g circuit_of keys None cmux"

text \<open>The mux and the circuits detached, in order.\<close>

fun detach_loop ::
    "'g \<Rightarrow> (mux_key \<Rightarrow> circuit_name option) \<Rightarrow> (circuit_name \<Rightarrow> mux_circuit_t) \<Rightarrow> mux_key list
      \<Rightarrow> ('g, 'pd, 'cd) circuitmux_t \<times> circuit_name list \<Rightarrow> (('g, 'pd, 'cd) circuitmux_t \<times> circuit_name list) option" where
  "detach_loop g circuit_of circs [] st = Some st"
| "detach_loop g circuit_of circs (k # ks) (cmux, out) = do {
     e \<leftarrow> chanid_circid_map cmux k;
     (cmux1, out1) \<leftarrow>
       (case circuit_of k of
          None \<Rightarrow> if mi_policy_data e = None then Some (cmux, out) else None
        | Some c \<Rightarrow> do {
            (cmux1, out1) \<leftarrow>
              (if direction e = CELL_DIRECTION_OUT \<or> \<not> is_origin (circs c)
               then do {
                 cmux1 \<leftarrow> (if cell_count e > 0 then circuitmux_make_circuit_inactive g c (circs c) cmux else Some cmux);
                 Some (cmux1, out @ [c])
               }
               else Some (cmux, out));
            e1 \<leftarrow> chanid_circid_map cmux1 k;
            if mi_policy_data e1 \<noteq> None \<and> (case policy cmux1 of None \<Rightarrow> True | Some pol \<Rightarrow> \<not> free_circ_data pol) then None
            else Some (cmux1, out1)
          });
     detach_loop g circuit_of circs ks (cmux1\<lparr>chanid_circid_map := (chanid_circid_map cmux1)(k := None)\<rparr>, out1)
   }"

definition circuitmux_detach_all_circuits ::
    "'g \<Rightarrow> (mux_key \<Rightarrow> circuit_name option) \<Rightarrow> (circuit_name \<Rightarrow> mux_circuit_t) \<Rightarrow> mux_key list
      \<Rightarrow> ('g, 'pd, 'cd) circuitmux_t \<Rightarrow> (('g, 'pd, 'cd) circuitmux_t \<times> circuit_name list) option" where
  "circuitmux_detach_all_circuits g circuit_of circs keys cmux = do {
     (cmux1, out) \<leftarrow> detach_loop g circuit_of circs keys (cmux, []);
     Some (cmux1\<lparr>n_circuits := 0, n_active_circuits := 0, n_cells := 0\<rparr>, out)
   }"

section \<open>The invariant of a mux\<close>

text \<open>Which circuit, in which direction.\<close>

type_synonym flow = "circuit_name \<times> cell_direction_t"

definition key_of :: "(circuit_name \<Rightarrow> mux_circuit_t) \<Rightarrow> flow \<Rightarrow> mux_key option" where
  "key_of circs f = (if snd f = CELL_DIRECTION_OUT then n_key (circs (fst f)) else p_key (circs (fst f)))"

text \<open>The counters are what the entries add up to, modulo the width of the counters.\<close>

definition counters_ok :: "('g, 'pd, 'cd) circuitmux_t \<Rightarrow> bool" where
  "counters_ok cmux \<longleftrightarrow>
     (let m = chanid_circid_map cmux
      in finite (dom m) \<and> n_circuits cmux = of_nat (card (dom m)) \<and>
         n_active_circuits cmux = of_nat (card {k \<in> dom m. cell_count (the (m k)) > 0}) \<and>
         n_cells cmux = (\<Sum>k \<in> dom m. cell_count (the (m k))))"

definition act_keys :: "(mux_key \<Rightarrow> 'cd circuit_muxinfo_t option) \<Rightarrow> mux_key set" where
  "act_keys m = {k \<in> dom m. cell_count (the (m k)) > 0}"

definition queued :: "(mux_key \<Rightarrow> 'cd circuit_muxinfo_t option) \<Rightarrow> u32" where
  "queued m = (\<Sum>k \<in> dom m. cell_count (the (m k)))"

lemma counters_ok_alt:
  "counters_ok cmux \<longleftrightarrow>
     finite (dom (chanid_circid_map cmux)) \<and> n_circuits cmux = of_nat (card (dom (chanid_circid_map cmux))) \<and>
     n_active_circuits cmux = of_nat (card (act_keys (chanid_circid_map cmux))) \<and>
     n_cells cmux = queued (chanid_circid_map cmux)"
  by (simp add: counters_ok_def act_keys_def queued_def Let_def)

lemma act_keys_upd: "act_keys (m(k \<mapsto> e)) = (if cell_count e > 0 then insert k (act_keys m) else act_keys m - {k})"
  by (auto simp: act_keys_def split: if_splits)

lemma act_keys_del: "act_keys (m(k := None)) = act_keys m - {k}"
  by (auto simp: act_keys_def)

lemma act_keys_finite: "finite (dom m) \<Longrightarrow> finite (act_keys m)"
  by (simp add: act_keys_def)

lemma queued_upd:
  assumes "finite (dom m)"
  shows "queued (m(k \<mapsto> e)) = queued m - (case m k of Some e0 \<Rightarrow> cell_count e0 | None \<Rightarrow> 0) + cell_count e"
proof -
  have rest: "(\<Sum>j \<in> dom m - {k}. cell_count (the ((m(k \<mapsto> e)) j))) = (\<Sum>j \<in> dom m - {k}. cell_count (the (m j)))"
    by (rule sum.cong) auto
  have "queued (m(k \<mapsto> e)) = cell_count e + (\<Sum>j \<in> dom m - {k}. cell_count (the (m j)))"
    unfolding queued_def dom_fun_upd using assms rest by (simp add: sum.insert_remove)
  moreover have "queued m = (case m k of Some e0 \<Rightarrow> cell_count e0 | None \<Rightarrow> 0) + (\<Sum>j \<in> dom m - {k}. cell_count (the (m j)))"
    unfolding queued_def using assms by (cases "m k") (auto simp: sum.remove [of "dom m" k] domIff)
  ultimately show ?thesis by simp
qed

lemma queued_del:
  assumes "finite (dom m)" and "m k = Some e0"
  shows "queued (m(k := None)) = queued m - cell_count e0"
proof -
  have "(\<Sum>j \<in> dom m - {k}. cell_count (the ((m(k := None)) j))) = (\<Sum>j \<in> dom m - {k}. cell_count (the (m j)))"
    by (rule sum.cong) auto
  then show ?thesis
    using assms by (simp add: queued_def sum.remove [of "dom m" k] domIff)
qed

lemma active_count_upd:
  assumes "finite (dom m)" and "m k = Some e0"
  shows "of_nat (card (act_keys (m(k \<mapsto> e)))) =
    (of_nat (card (act_keys m)) :: u32) - (if cell_count e0 > 0 then 1 else 0) + (if cell_count e > 0 then 1 else 0)"
proof -
  have f: "finite (act_keys m)" using assms(1) by (rule act_keys_finite)
  have k: "k \<in> act_keys m \<longleftrightarrow> cell_count e0 > 0" using assms(2) by (auto simp: act_keys_def)
  show ?thesis
  proof (cases "cell_count e0 > 0")
    case True
    then have c: "card (act_keys m) = Suc (card (act_keys m - {k}))"
      using f k by (metis card_Suc_Diff1)
    have "insert k (act_keys m) = act_keys m" using True k by blast
    then show ?thesis using True c by (simp add: act_keys_upd)
  next
    case False
    then have "k \<notin> act_keys m" using k by simp
    then show ?thesis using False f by (simp add: act_keys_upd)
  qed
qed

lemma HT_UPDATE_apply:
  "chanid_circid_map cmux k = Some e \<Longrightarrow>
    HT_UPDATE k f cmux = cmux\<lparr>chanid_circid_map := (chanid_circid_map cmux)(k \<mapsto> f e)\<rparr>"
  by (simp add: HT_UPDATE_def)

text \<open>Circuit IDs are unique on the channel \<open>ch\<close>, and no circuit leaves by the channel it came from.\<close>

definition well_named :: "u64 \<Rightarrow> (circuit_name \<Rightarrow> mux_circuit_t) \<Rightarrow> bool" where
  "well_named ch circs \<longleftrightarrow>
     (\<forall>f f' k. fst k = ch \<longrightarrow> key_of circs f = Some k \<longrightarrow> key_of circs f' = Some k \<longrightarrow> f = f') \<and>
     (\<forall>c. n_chan (circs c) = Some ch \<longrightarrow> p_chan (circs c) = Some ch \<longrightarrow> is_origin (circs c))"

section \<open>What a policy owes the mux\<close>

text \<open>
  A policy knows the active flows (\<open>active\<close>); the data it allocates for a circuit says which flow it is
  for (\<open>ident\<close>) and, while the flow is not active, is \<open>idle\<close>. The callbacks that return keep this;
  they return when the mux calls them as it should.
\<close>

locale mux_policy =
  fixes pol :: "('g, 'pd, 'cd) circuitmux_policy_t"
    and act inact :: "'g \<Rightarrow> 'pd option \<Rightarrow> circuit_name \<Rightarrow> 'cd option \<Rightarrow> ('pd option \<times> 'cd option) option"
    and xmit :: "'g \<Rightarrow> 'pd option \<Rightarrow> circuit_name \<Rightarrow> 'cd option \<Rightarrow> u32 \<Rightarrow> ('g \<times> 'pd option \<times> 'cd option) option"
    and alloc :: "'g \<Rightarrow> 'pd option \<Rightarrow> circuit_name \<Rightarrow> cell_direction_t \<Rightarrow> u32 \<Rightarrow> 'cd option option"
    and pd_ok :: "'pd \<Rightarrow> bool" and active :: "'pd \<Rightarrow> flow set" and ident :: "'cd \<Rightarrow> flow" and idle :: "'cd \<Rightarrow> bool"
  assumes callbacks: "notify_circ_active pol = Some act" "notify_circ_inactive pol = Some inact"
      "notify_xmit_cells pol = Some xmit" "alloc_circ_data pol = Some alloc" "notify_set_n_cells pol = None" "free_circ_data pol"
    and alloc_ok: "alloc g (Some pd) c dir n = Some cdo \<Longrightarrow> \<exists>cd. cdo = Some cd \<and> ident cd = (c, dir) \<and> idle cd"
    and act_ok: "pd_ok pd \<Longrightarrow> idle cd \<Longrightarrow> ident cd \<notin> active pd \<Longrightarrow> act g (Some pd) c (Some cd) = Some r \<Longrightarrow>
      \<exists>pd' cd'. r = (Some pd', Some cd') \<and> pd_ok pd' \<and> active pd' = insert (ident cd) (active pd) \<and> ident cd' = ident cd"
    and inact_ok: "pd_ok pd \<Longrightarrow> ident cd \<in> active pd \<Longrightarrow> inact g (Some pd) c (Some cd) = Some r \<Longrightarrow>
      \<exists>pd' cd'. r = (Some pd', Some cd') \<and> pd_ok pd' \<and> active pd' = active pd - {ident cd} \<and> ident cd' = ident cd \<and> idle cd'"
    and xmit_ok: "pd_ok pd \<Longrightarrow> ident cd \<in> active pd \<Longrightarrow> xmit g (Some pd) c (Some cd) n = Some rg \<Longrightarrow>
      \<exists>g' pd' cd'. rg = (g', Some pd', Some cd') \<and> pd_ok pd' \<and> active pd' = active pd \<and> ident cd' = ident cd"
    and inact_returns: "pd_ok pd \<Longrightarrow> ident cd \<in> active pd \<Longrightarrow> inact g (Some pd) c (Some cd) \<noteq> None"
    and pick_ok: "pd_ok pd \<Longrightarrow> active pd \<noteq> {} \<Longrightarrow> \<exists>c dir. pick_active_circuit pol (Some pd) = Some (Some c) \<and> (c, dir) \<in> active pd"
    and picked_returns: "pd_ok pd \<Longrightarrow> pick_active_circuit pol (Some pd) = Some (Some c) \<Longrightarrow> ident cd \<in> active pd \<Longrightarrow>
      fst (ident cd) = c \<Longrightarrow> (\<forall>dir. (c, dir) \<in> active pd \<longrightarrow> dir = snd (ident cd)) \<Longrightarrow> 0 < n \<Longrightarrow>
      xmit g (Some pd) c (Some cd) n \<noteq> None"
begin

definition ident_at :: "(mux_key \<Rightarrow> 'cd circuit_muxinfo_t option) \<Rightarrow> mux_key \<Rightarrow> flow" where
  "ident_at m k = ident (the (mi_policy_data (the (m k))))"

definition entry_ok :: "u64 \<Rightarrow> (circuit_name \<Rightarrow> mux_circuit_t) \<Rightarrow> mux_key \<Rightarrow> 'cd circuit_muxinfo_t \<Rightarrow> bool" where
  "entry_ok ch circs k e \<longleftrightarrow> fst k = ch \<and> (\<exists>cd. mi_policy_data e = Some cd \<and> snd (ident cd) = direction e \<and> key_of circs (ident cd) = Some k \<and>
     (cell_count e = 0 \<longrightarrow> idle cd))"

definition mux_ok :: "u64 \<Rightarrow> (circuit_name \<Rightarrow> mux_circuit_t) \<Rightarrow> ('g, 'pd, 'cd) circuitmux_t \<Rightarrow> bool" where
  "mux_ok ch circs cmux \<longleftrightarrow> counters_ok cmux \<and> policy cmux = Some pol \<and>
     (\<forall>k e. chanid_circid_map cmux k = Some e \<longrightarrow> entry_ok ch circs k e) \<and>
     (\<exists>pd. policy_data cmux = Some pd \<and> pd_ok pd \<and>
        active pd = ident_at (chanid_circid_map cmux) ` act_keys (chanid_circid_map cmux))"

lemma ident_at_upd: "ident_at (m(k \<mapsto> e)) j = (if j = k then ident (the (mi_policy_data e)) else ident_at m j)"
  by (simp add: ident_at_def)

lemma ident_key: "\<forall>k e. m k = Some e \<longrightarrow> entry_ok ch circs k e \<Longrightarrow> k \<in> dom m \<Longrightarrow> key_of circs (ident_at m k) = Some k"
proof -
  assume ent: "\<forall>k e. m k = Some e \<longrightarrow> entry_ok ch circs k e" and "k \<in> dom m"
  then obtain e where e: "m k = Some e" by blast
  with ent have "entry_ok ch circs k e" by blast
  then show ?thesis using e by (auto simp: entry_ok_def ident_at_def)
qed

lemma ident_inj: "\<forall>k e. m k = Some e \<longrightarrow> entry_ok ch circs k e \<Longrightarrow> inj_on (ident_at m) (dom m)"
  by (rule inj_onI) (metis ident_key option.inject)

text \<open>Changing one entry.\<close>

lemma mux_update:
  assumes ok: "mux_ok ch circs cmux" and m: "chanid_circid_map cmux k = Some e" and pd: "policy_data cmux = Some pd"
    and e': "entry_ok ch circs k e'" "ident (the (mi_policy_data e')) = ident_at (chanid_circid_map cmux) k"
    and pd': "pd_ok pd'" "active pd' = (if cell_count e' > 0 then insert (ident_at (chanid_circid_map cmux) k) (active pd)
      else active pd - {ident_at (chanid_circid_map cmux) k})"
    and c: "chanid_circid_map cmux' = (chanid_circid_map cmux)(k \<mapsto> e')" "policy_data cmux' = Some pd'" "policy cmux' = policy cmux"
      "n_circuits cmux' = n_circuits cmux" "n_cells cmux' = n_cells cmux - cell_count e + cell_count e'"
      "n_active_circuits cmux' = n_active_circuits cmux - (if cell_count e > 0 then 1 else 0) + (if cell_count e' > 0 then 1 else 0)"
  shows "mux_ok ch circs cmux'"
proof -
  let ?m = "chanid_circid_map cmux"
  have ent: "\<forall>k e. ?m k = Some e \<longrightarrow> entry_ok ch circs k e" and fin: "finite (dom ?m)"
    and act: "active pd = ident_at ?m ` act_keys ?m"
    using ok pd by (auto simp: mux_ok_def counters_ok_alt)
  have "counters_ok cmux'"
    using ok m c fin by (auto simp: mux_ok_def counters_ok_alt queued_upd active_count_upd insert_absorb domI)
  moreover have "active pd' = ident_at (?m(k \<mapsto> e')) ` act_keys (?m(k \<mapsto> e'))"
  proof -
    have same: "ident_at (?m(k \<mapsto> e')) j = ident_at ?m j" for j
      using e'(2) by (simp add: ident_at_upd)
    have sub: "act_keys ?m - {k} \<subseteq> dom ?m" "{k} \<subseteq> dom ?m" using m by (auto simp: act_keys_def)
    show ?thesis
      unfolding same [abs_def]
      using pd'(2) act inj_on_image_set_diff [OF ident_inj [OF ent] sub]
      by (cases "cell_count e' > 0") (simp_all add: act_keys_upd)
  qed
  ultimately show ?thesis
    using ok c e'(1) pd'(1) by (auto simp: mux_ok_def)
qed

text \<open>The entry a circuit has.\<close>

lemma find_iff:
  "circuitmux_find_map_entry cmux circ = Some (Some (k, e)) \<longleftrightarrow>
     chanid_circid_map cmux k = Some e \<and>
     (n_key circ = Some k \<and> direction e = CELL_DIRECTION_OUT \<or>
      p_key circ = Some k \<and> direction e = CELL_DIRECTION_IN \<and>
        (n_key circ = None \<or> chanid_circid_map cmux (the (n_key circ)) = None))"
  by (cases "n_key circ"; cases "p_key circ"; cases "chanid_circid_map cmux (the (n_key circ))";
      cases "chanid_circid_map cmux (the (p_key circ))")
    (auto simp: circuitmux_find_map_entry_def HT_FIND_def simp del: split_paired_All split_paired_Ex)

lemma find_entry:
  assumes ok: "mux_ok ch circs cmux" and f: "circuitmux_find_map_entry cmux (circs c) = Some (Some (k, e))"
    and ids: "well_named ch circs"
  shows "chanid_circid_map cmux k = Some e \<and> entry_ok ch circs k e \<and> ident_at (chanid_circid_map cmux) k = (c, direction e)"
proof -
  have k: "key_of circs (c, direction e) = Some k" "chanid_circid_map cmux k = Some e"
    using f by (auto simp: find_iff key_of_def)
  have ent: "\<forall>k e. chanid_circid_map cmux k = Some e \<longrightarrow> entry_ok ch circs k e" using ok unfolding mux_ok_def by blast
  from ent k(2) have en: "entry_ok ch circs k e" by blast
  have "key_of circs (ident_at (chanid_circid_map cmux) k) = Some k"
    using ident_key [OF ent] k(2) by blast
  moreover have "fst k = ch" using en by (simp add: entry_ok_def)
  ultimately have "ident_at (chanid_circid_map cmux) k = (c, direction e)"
    using k(1) ids unfolding well_named_def by blast
  with k en show ?thesis by blast
qed

lemma find_entry_cong:
  assumes d: "map_option direction \<circ> chanid_circid_map cmux' = map_option direction \<circ> chanid_circid_map cmux"
    and f: "circuitmux_find_map_entry cmux circ = Some (Some (k, e))"
  shows "circuitmux_find_map_entry cmux' circ = Some (Some (k, the (chanid_circid_map cmux' k))) \<and>
    chanid_circid_map cmux' k = Some (the (chanid_circid_map cmux' k))"
proof -
  have d: "map_option direction (chanid_circid_map cmux' j) = map_option direction (chanid_circid_map cmux j)" for j
    using fun_cong [OF d, of j] by simp
  have "\<exists>e'. chanid_circid_map cmux' k = Some e' \<and> direction e' = direction e"
    using f d [of k] by (auto simp: find_iff)
  then obtain e' where e': "chanid_circid_map cmux' k = Some e'" "direction e' = direction e" by blast
  have "chanid_circid_map cmux' (the (n_key circ)) = None" if "chanid_circid_map cmux (the (n_key circ)) = None"
    using d [of "the (n_key circ)"] that by simp
  then show ?thesis
    using f e' by (auto simp: find_iff)
qed

lemma make_active_result:
  assumes "circuitmux_make_circuit_active g c circ cmux = Some cmux'" and "policy cmux = Some pol"
    and "circuitmux_find_map_entry cmux circ = Some (Some (k, e))" and "chanid_circid_map cmux k = Some e"
    and "policy_data cmux = Some pd" and "mi_policy_data e = Some cd"
    and "pd_ok pd" and "idle cd" and "ident cd \<notin> active pd"
  shows "\<exists>pd' cd'. cmux' = cmux\<lparr>policy_data := Some pd', chanid_circid_map := (chanid_circid_map cmux)(k \<mapsto> e\<lparr>mi_policy_data := Some cd'\<rparr>)\<rparr> \<and>
    pd_ok pd' \<and> active pd' = insert (ident cd) (active pd) \<and> ident cd' = ident cd"
proof -
  from assms callbacks obtain r where r: "act g (Some pd) c (Some cd) = Some r"
    and c: "cmux' = HT_UPDATE k (\<lambda>e. e\<lparr>mi_policy_data := snd r\<rparr>) (cmux\<lparr>policy_data := fst r\<rparr>)"
    by (auto simp: circuitmux_make_circuit_active_def split: bind_splits)
  from act_ok [OF assms(7-9) r] obtain pd' cd' where
    "r = (Some pd', Some cd')" "pd_ok pd'" "active pd' = insert (ident cd) (active pd)" "ident cd' = ident cd" by blast
  then show ?thesis
    using assms(4) by (intro exI [of _ pd'] exI [of _ cd']) (simp add: c HT_UPDATE_def)
qed

lemma make_inactive_result:
  assumes "circuitmux_make_circuit_inactive g c circ cmux = Some cmux'" and "policy cmux = Some pol"
    and "circuitmux_find_map_entry cmux circ = Some (Some (k, e))" and "chanid_circid_map cmux k = Some e"
    and "policy_data cmux = Some pd" and "mi_policy_data e = Some cd"
    and "pd_ok pd" and "ident cd \<in> active pd"
  shows "\<exists>pd' cd'. cmux' = cmux\<lparr>policy_data := Some pd', chanid_circid_map := (chanid_circid_map cmux)(k \<mapsto> e\<lparr>mi_policy_data := Some cd'\<rparr>)\<rparr> \<and>
    pd_ok pd' \<and> active pd' = active pd - {ident cd} \<and> ident cd' = ident cd \<and> idle cd'"
proof -
  from assms callbacks obtain r where r: "inact g (Some pd) c (Some cd) = Some r"
    and c: "cmux' = HT_UPDATE k (\<lambda>e. e\<lparr>mi_policy_data := snd r\<rparr>) (cmux\<lparr>policy_data := fst r\<rparr>)"
    by (auto simp: circuitmux_make_circuit_inactive_def split: bind_splits)
  from inact_ok [OF assms(7,8) r] obtain pd' cd' where
    "r = (Some pd', Some cd')" "pd_ok pd'" "active pd' = active pd - {ident cd}" "ident cd' = ident cd" "idle cd'" by blast
  then show ?thesis
    using assms(4) by (intro exI [of _ pd'] exI [of _ cd']) (simp add: c HT_UPDATE_def)
qed

lemma active_iff:
  assumes "mux_ok ch circs cmux" and "chanid_circid_map cmux k = Some e" and "policy_data cmux = Some pd"
  shows "ident_at (chanid_circid_map cmux) k \<in> active pd \<longleftrightarrow> cell_count e > 0"
proof -
  let ?m = "chanid_circid_map cmux"
  have ent: "\<forall>k e. ?m k = Some e \<longrightarrow> entry_ok ch circs k e" and act: "active pd = ident_at ?m ` act_keys ?m"
    using assms by (auto simp: mux_ok_def simp del: split_paired_All)
  have "act_keys ?m \<subseteq> dom ?m" "k \<in> dom ?m" using assms(2) by (auto simp: act_keys_def)
  then have "ident_at ?m k \<in> ident_at ?m ` act_keys ?m \<longleftrightarrow> k \<in> act_keys ?m"
    by (intro inj_on_image_mem_iff [OF ident_inj [OF ent]])
  then show ?thesis using assms(2) act by (auto simp: act_keys_def)
qed

section \<open>The operations keep the invariant\<close>

text \<open>A change of the count of one attached circuit, with the notices it causes.\<close>

definition recount :: "'g \<Rightarrow> circuit_name \<Rightarrow> mux_circuit_t \<Rightarrow> u32 \<Rightarrow> u32 \<Rightarrow> ('g, 'pd, 'cd) circuitmux_t \<Rightarrow> ('g, 'pd, 'cd) circuitmux_t option" where
  "recount g c circ old n cmux =
     (if old > 0 \<and> n = 0
      then circuitmux_make_circuit_inactive g c circ (cmux\<lparr>n_active_circuits := n_active_circuits cmux - 1\<rparr>)
      else if old = 0 \<and> n > 0
      then circuitmux_make_circuit_active g c circ (cmux\<lparr>n_active_circuits := n_active_circuits cmux + 1\<rparr>)
      else Some cmux)"

lemma recount_n_cells: "recount g c circ old n cmux = Some cmux' \<Longrightarrow> n_cells cmux' = n_cells cmux"
  by (auto simp: recount_def circuitmux_make_circuit_active_def circuitmux_make_circuit_inactive_def HT_UPDATE_def
      split: if_splits bind_splits option.splits)

text \<open>The new count may be entered before or after the notice.\<close>

lemma recount_ok:
  assumes ok: "mux_ok ch circs cmux" and ids: "well_named ch circs"
    and f: "circuitmux_find_map_entry cmux (circs c) = Some (Some (k, e))"
    and m0: "chanid_circid_map cmux0 = (chanid_circid_map cmux)(k \<mapsto> e\<lparr>cell_count := n0\<rparr>)"
    and same: "policy cmux0 = policy cmux" "policy_data cmux0 = policy_data cmux" "n_circuits cmux0 = n_circuits cmux"
      "n_active_circuits cmux0 = n_active_circuits cmux"
    and r: "recount g c (circs c) (cell_count e) n cmux0 = Some cmux1"
    and final: "cmux' = HT_UPDATE k (\<lambda>e. e\<lparr>cell_count := n\<rparr>) (cmux1\<lparr>n_cells := n_cells cmux - cell_count e + n\<rparr>)"
  shows "mux_ok ch circs cmux' \<and>
    (\<exists>e'. chanid_circid_map cmux' = (chanid_circid_map cmux)(k \<mapsto> e') \<and> cell_count e' = n \<and> direction e' = direction e)"
proof -
  note fe = find_entry [OF ok f ids]
  then have m: "chanid_circid_map cmux k = Some e" and en: "entry_ok ch circs k e" by auto
  obtain cd where cd: "mi_policy_data e = Some cd" "snd (ident cd) = direction e" "key_of circs (ident cd) = Some k"
      "cell_count e = 0 \<longrightarrow> idle cd"
    using en by (auto simp: entry_ok_def)
  have idk: "ident_at (chanid_circid_map cmux) k = ident cd" using m cd(1) by (simp add: ident_at_def)
  obtain pd where pd: "policy_data cmux = Some pd" "pd_ok pd" "policy cmux = Some pol"
    using ok unfolding mux_ok_def by blast
  have act: "ident cd \<in> active pd \<longleftrightarrow> cell_count e > 0" using active_iff [OF ok m pd(1)] idk by simp
  let ?c0 = "\<lambda>a. cmux0\<lparr>n_active_circuits := a\<rparr>"
  have m0k: "chanid_circid_map cmux0 k = Some (e\<lparr>cell_count := n0\<rparr>)" using m0 by simp
  have f0: "circuitmux_find_map_entry (?c0 a) (circs c) = Some (Some (k, e\<lparr>cell_count := n0\<rparr>))" for a
    using find_entry_cong [OF _ f, of "?c0 a"] m0 m by (auto simp: fun_eq_iff)
  have "\<exists>pd' cd'. chanid_circid_map cmux1 = (chanid_circid_map cmux)(k \<mapsto> e\<lparr>cell_count := n0, mi_policy_data := Some cd'\<rparr>) \<and>
      policy_data cmux1 = Some pd' \<and> policy cmux1 = policy cmux \<and> n_circuits cmux1 = n_circuits cmux \<and>
      n_active_circuits cmux1 = n_active_circuits cmux - (if cell_count e > 0 then 1 else 0) + (if n > 0 then 1 else 0) \<and>
      pd_ok pd' \<and> active pd' = (if n > 0 then insert (ident cd) (active pd) else active pd - {ident cd}) \<and>
      ident cd' = ident cd \<and> (n = 0 \<longrightarrow> idle cd')"
  proof -
    consider (inactive) "cell_count e > 0" "n = 0" | (active) "cell_count e = 0" "n > 0"
      | (none) "cell_count e > 0 \<longleftrightarrow> n > 0"
      by (metis word_gt_0)
    then show ?thesis
    proof cases
      case inactive
      then have "circuitmux_make_circuit_inactive g c (circs c) (?c0 (n_active_circuits cmux0 - 1)) = Some cmux1"
        using r by (simp add: recount_def)
      from make_inactive_result [OF this _ f0 _ _ _ pd(2), of cd] show ?thesis
        using inactive act m0k m0 same pd cd(1) by auto
    next
      case active
      then have "circuitmux_make_circuit_active g c (circs c) (?c0 (n_active_circuits cmux0 + 1)) = Some cmux1"
        using r by (simp add: recount_def)
      from make_active_result [OF this _ f0 _ _ _ pd(2), of cd] show ?thesis
        using active act m0k m0 same pd cd by auto
    next
      case none
      then have "cmux1 = cmux0" using r by (auto simp: recount_def word_gt_0 split: if_splits)
      then show ?thesis
        using none act m0 same pd cd by (intro exI [of _ pd] exI [of _ cd]) (auto simp: word_gt_0)
    qed
  qed
  then obtain pd' cd' where h:
      "chanid_circid_map cmux1 = (chanid_circid_map cmux)(k \<mapsto> e\<lparr>cell_count := n0, mi_policy_data := Some cd'\<rparr>)"
      "policy_data cmux1 = Some pd'" "policy cmux1 = policy cmux" "n_circuits cmux1 = n_circuits cmux"
      "n_active_circuits cmux1 = n_active_circuits cmux - (if cell_count e > 0 then 1 else 0) + (if n > 0 then 1 else 0)"
      "pd_ok pd'" "active pd' = (if n > 0 then insert (ident cd) (active pd) else active pd - {ident cd})"
      "ident cd' = ident cd" "n = 0 \<longrightarrow> idle cd'"
    by blast
  let ?e = "e\<lparr>cell_count := n, mi_policy_data := Some cd'\<rparr>"
  have c': "cmux' = cmux1\<lparr>n_cells := n_cells cmux - cell_count e + n, chanid_circid_map := (chanid_circid_map cmux)(k \<mapsto> ?e)\<rparr>"
    by (cases e) (simp add: final HT_UPDATE_def h(1))
  have "entry_ok ch circs k ?e" using cd en h(8,9) by (simp add: entry_ok_def)
  from mux_update [OF ok m pd(1) this, of pd' cmux'] have "mux_ok ch circs cmux'"
    using h idk by (simp add: c')
  then show ?thesis by (intro conjI exI [of _ ?e]) (simp_all add: c')
qed

lemma set_num_cells_ok:
  assumes ok: "mux_ok ch circs cmux" and ids: "well_named ch circs"
    and r: "circuitmux_set_num_cells g c (circs c) n cmux = Some cmux'"
  shows "mux_ok ch circs cmux' \<and> (\<exists>k e e'. circuitmux_find_map_entry cmux (circs c) = Some (Some (k, e)) \<and>
    chanid_circid_map cmux' = (chanid_circid_map cmux)(k \<mapsto> e') \<and> cell_count e' = n \<and> direction e' = direction e)"
proof -
  obtain k e where f: "circuitmux_find_map_entry cmux (circs c) = Some (Some (k, e))"
    using r by (auto simp: circuitmux_set_num_cells_def split: bind_splits)
  have pol: "policy cmux = Some pol" using ok unfolding mux_ok_def by blast
  have m: "chanid_circid_map cmux k = Some e" using find_entry [OF ok f ids] by blast
  define cmux0 where "cmux0 = HT_UPDATE k (\<lambda>e. e\<lparr>cell_count := n\<rparr>) (cmux\<lparr>n_cells := n_cells cmux - cell_count e + n\<rparr>)"
  have r0: "recount g c (circs c) (cell_count e) n cmux0 = Some cmux'"
    using r f pol callbacks(5) by (simp add: circuitmux_set_num_cells_def recount_def cmux0_def Let_def)
  have m0: "chanid_circid_map cmux0 = (chanid_circid_map cmux)(k \<mapsto> e\<lparr>cell_count := n\<rparr>)"
    using m by (simp add: cmux0_def HT_UPDATE_def)
  have id: "cmux' = HT_UPDATE k (\<lambda>e. e\<lparr>cell_count := n\<rparr>) (cmux'\<lparr>n_cells := n_cells cmux - cell_count e + n\<rparr>)"
  proof -
    have nc: "n_cells cmux' = n_cells cmux - cell_count e + n" using recount_n_cells [OF r0] by (simp add: cmux0_def HT_UPDATE_def)
    have "\<exists>e1. chanid_circid_map cmux' k = Some e1 \<and> cell_count e1 = n"
      using r0 m0 by (auto simp: recount_def circuitmux_make_circuit_active_def circuitmux_make_circuit_inactive_def HT_UPDATE_def
          split: if_splits bind_splits option.splits)
    then obtain e1 where "chanid_circid_map cmux' k = Some e1" "e1\<lparr>cell_count := n\<rparr> = e1" by auto
    then show ?thesis using nc by (simp add: HT_UPDATE_def fun_upd_idem)
  qed
  show ?thesis
    using recount_ok [OF ok ids f m0 _ _ _ _ r0 id] f by (auto simp: cmux0_def HT_UPDATE_def)
qed

lemma xmit_cells_ok:
  assumes ok: "mux_ok ch circs cmux" and ids: "well_named ch circs" and n: "0 < n"
    and r: "circuitmux_notify_xmit_cells g c (circs c) n cmux = Some (g', cmux')"
  shows "mux_ok ch circs cmux' \<and> (\<exists>k e e'. circuitmux_find_map_entry cmux (circs c) = Some (Some (k, e)) \<and> n \<le> cell_count e \<and>
    chanid_circid_map cmux' = (chanid_circid_map cmux)(k \<mapsto> e') \<and> cell_count e' = cell_count e - n \<and> direction e' = direction e)"
proof -
  obtain k e where f: "circuitmux_find_map_entry cmux (circs c) = Some (Some (k, e))" and le: "n \<le> cell_count e"
    using r n by (auto simp: circuitmux_notify_xmit_cells_def split: bind_splits if_splits)
  note fe = find_entry [OF ok f ids]
  have m: "chanid_circid_map cmux k = Some e" using fe by blast
  obtain cd where cd: "mi_policy_data e = Some cd" "snd (ident cd) = direction e" "key_of circs (ident cd) = Some k" "fst k = ch"
    using fe by (auto simp: entry_ok_def)
  have idk: "ident_at (chanid_circid_map cmux) k = ident cd" using m cd(1) by (simp add: ident_at_def)
  obtain pd where pd: "policy_data cmux = Some pd" "pd_ok pd" "policy cmux = Some pol"
    using ok unfolding mux_ok_def by blast
  have pos: "cell_count e > 0" using n le by simp
  then have act: "ident cd \<in> active pd" using active_iff [OF ok m pd(1)] idk by simp
  define cmux1 where "cmux1 = HT_UPDATE k (\<lambda>e. e\<lparr>cell_count := cell_count e - n\<rparr>) (cmux\<lparr>n_cells := n_cells cmux - n\<rparr>)"
  have n0: "n \<noteq> 0" using n by simp
  obtain rg where x: "xmit g (Some pd) c (Some cd) n = Some rg"
    using r f le pd callbacks(3) cd(1) n0
    by (auto simp: circuitmux_notify_xmit_cells_def HT_UPDATE_def Let_def split: bind_splits)
  from xmit_ok [OF pd(2) act x] obtain g2 pd' cd' where
    rg: "rg = (g2, Some pd', Some cd')" "pd_ok pd'" "active pd' = active pd" "ident cd' = ident cd" by blast
  define cmux2 where "cmux2 = HT_UPDATE k (\<lambda>e. e\<lparr>mi_policy_data := Some cd'\<rparr>) (cmux1\<lparr>policy_data := Some pd'\<rparr>)"
  have res: "(if cell_count e - n = 0
      then map_option (Pair g2) (circuitmux_make_circuit_inactive g2 c (circs c) (cmux2\<lparr>n_active_circuits := n_active_circuits cmux2 - 1\<rparr>))
      else Some (g2, cmux2)) = Some (g', cmux')"
    using r f le pd callbacks(3) cd(1) n0 x rg(1)
    by (simp add: circuitmux_notify_xmit_cells_def cmux1_def [symmetric] cmux2_def Let_def)
      (auto simp: cmux1_def HT_UPDATE_def split: if_splits)
  let ?e = "e\<lparr>cell_count := cell_count e - n, mi_policy_data := Some cd'\<rparr>"
  have c2: "cmux2 = cmux\<lparr>n_cells := n_cells cmux - n, policy_data := Some pd', chanid_circid_map := (chanid_circid_map cmux)(k \<mapsto> ?e)\<rparr>"
    using m by (cases e) (simp add: cmux2_def cmux1_def HT_UPDATE_def)
  show ?thesis
  proof (cases "cell_count e - n = 0")
    case False
    then have c': "cmux' = cmux2" using res by simp
    have en: "entry_ok ch circs k ?e" using cd rg(4) False by (simp add: entry_ok_def)
    have "mux_ok ch circs cmux'"
      using False pos rg act idk mux_update [OF ok m pd(1) en, of pd' cmux']
      by (simp add: c' c2 word_gt_0 insert_absorb algebra_simps)
    then show ?thesis
      using f le by (intro conjI exI [of _ k] exI [of _ e] exI [of _ ?e]) (simp_all add: c' c2)
  next
    case True
    then have mi: "circuitmux_make_circuit_inactive g2 c (circs c) (cmux2\<lparr>n_active_circuits := n_active_circuits cmux2 - 1\<rparr>) = Some cmux'"
      using res by auto
    have f2: "circuitmux_find_map_entry (cmux2\<lparr>n_active_circuits := a\<rparr>) (circs c) = Some (Some (k, ?e))" for a
      using find_entry_cong [OF _ f, of "cmux2\<lparr>n_active_circuits := a\<rparr>"] m by (auto simp: fun_eq_iff c2)
    from make_inactive_result [OF mi _ f2 _ _ _ rg(2), of cd'] obtain pd2 cd2 where
      h: "cmux' = cmux2\<lparr>n_active_circuits := n_active_circuits cmux2 - 1, policy_data := Some pd2,
          chanid_circid_map := (chanid_circid_map cmux2)(k \<mapsto> ?e\<lparr>mi_policy_data := Some cd2\<rparr>)\<rparr>"
        "pd_ok pd2" "active pd2 = active pd' - {ident cd'}" "ident cd2 = ident cd'" "idle cd2"
      using pd(3) act rg(3,4) by (auto simp: c2)
    let ?e2 = "?e\<lparr>mi_policy_data := Some cd2\<rparr>"
    have en: "entry_ok ch circs k ?e2" using cd rg(4) h(4,5) by (simp add: entry_ok_def)
    have "mux_ok ch circs cmux'"
      using True pos rg(3,4) h idk mux_update [OF ok m pd(1) en _ h(2), of cmux'] by (simp add: c2)
    then show ?thesis
      using f le by (intro conjI exI [of _ k] exI [of _ e] exI [of _ ?e2]) (simp_all add: h(1) c2)
  qed
qed

text \<open>A circuit that came in by the channel leaves by another one.\<close>

lemma other_channel:
  assumes ids: "well_named ch circs" and key: "key_of circs (c, CELL_DIRECTION_IN) = Some k" "fst k = ch"
    and n: "n_key (circs c) = Some j"
  shows "fst j \<noteq> ch"
proof -
  have "p_chan (circs c) = Some ch" "\<not> is_origin (circs c)"
    using key by (auto simp: key_of_def p_key_def split: if_splits)
  then have "n_chan (circs c) \<noteq> Some ch" using ids by (auto simp: well_named_def)
  then show ?thesis using n by (auto simp: n_key_def)
qed

lemma find_attached:
  assumes ok: "mux_ok ch circs cmux" and ids: "well_named ch circs"
    and key: "key_of circs (c, direction e) = Some k" "fst k = ch" and m: "chanid_circid_map cmux k = Some e"
  shows "circuitmux_find_map_entry cmux (circs c) = Some (Some (k, e))"
proof (cases "direction e")
  case CELL_DIRECTION_OUT
  then show ?thesis using key m by (simp add: find_iff key_of_def)
next
  case CELL_DIRECTION_IN
  have ent: "\<forall>k e. chanid_circid_map cmux k = Some e \<longrightarrow> entry_ok ch circs k e" using ok unfolding mux_ok_def by blast
  have "chanid_circid_map cmux j = None" if "n_key (circs c) = Some j" for j
    using other_channel [OF ids _ key(2) that] key(1) CELL_DIRECTION_IN ent by (metis entry_ok_def not_None_eq)
  then show ?thesis
    using key m CELL_DIRECTION_IN by (cases "n_key (circs c)") (simp_all add: find_iff key_of_def)
qed

lemma reattach_ok:
  assumes ok: "mux_ok ch circs cmux" and ids: "well_named ch circs" and m: "chanid_circid_map cmux k = Some e"
    and key: "key_of circs (c, direction e) = Some k"
    and r: "reattach_circuit g c (circs c) k e n cmux = Some cmux'"
  shows "mux_ok ch circs cmux' \<and> (\<exists>e'. chanid_circid_map cmux' = (chanid_circid_map cmux)(k \<mapsto> e') \<and> cell_count e' = n \<and> direction e' = direction e)"
proof -
  have "fst k = ch" using ok m by (auto simp: mux_ok_def entry_ok_def simp del: split_paired_All)
  from find_attached [OF ok ids key this m] have f: "circuitmux_find_map_entry cmux (circs c) = Some (Some (k, e))" .
  obtain cmux1 where r1: "recount g c (circs c) (cell_count e) n cmux = Some cmux1"
    and c': "cmux' = HT_UPDATE k (\<lambda>e. e\<lparr>cell_count := n\<rparr>) (cmux1\<lparr>n_cells := n_cells cmux1 - cell_count e + n\<rparr>)"
    using r by (auto simp: reattach_circuit_def recount_def split: bind_splits)
  show ?thesis
    using recount_ok [OF ok ids f _ _ _ _ _ r1, of "cell_count e"] c' recount_n_cells [OF r1] m by (auto simp: fun_upd_idem)
qed

end

lemma of_nat_u32_0: "x < 2 ^ 32 \<Longrightarrow> (of_nat x :: u32) = 0 \<longleftrightarrow> x = 0"
  by (auto simp: word_of_nat_eq_0_iff dest: nat_dvd_not_less)

context mux_policy
begin

lemma entries: "mux_ok ch circs cmux \<Longrightarrow> \<forall>k e. chanid_circid_map cmux k = Some e \<longrightarrow> entry_ok ch circs k e"
  unfolding mux_ok_def by blast

text \<open>A new entry.\<close>

lemma mux_insert:
  assumes ok: "mux_ok ch circs cmux" and m: "chanid_circid_map cmux k = None" and pd: "policy_data cmux = Some pd"
    and e': "entry_ok ch circs k e'"
    and pd': "pd_ok pd'" "active pd' = (if cell_count e' > 0 then insert (ident (the (mi_policy_data e'))) (active pd) else active pd)"
    and c: "chanid_circid_map cmux' = (chanid_circid_map cmux)(k \<mapsto> e')" "policy_data cmux' = Some pd'" "policy cmux' = policy cmux"
      "n_circuits cmux' = n_circuits cmux + 1" "n_cells cmux' = n_cells cmux + cell_count e'"
      "n_active_circuits cmux' = n_active_circuits cmux + (if cell_count e' > 0 then 1 else 0)"
  shows "mux_ok ch circs cmux'"
proof -
  let ?m = "chanid_circid_map cmux"
  have fin: "finite (dom ?m)" and act: "active pd = ident_at ?m ` act_keys ?m"
    using ok pd by (auto simp: mux_ok_def counters_ok_alt simp del: split_paired_All)
  have k: "k \<notin> dom ?m" "k \<notin> act_keys ?m" using m by (auto simp: act_keys_def)
  have "counters_ok cmux'"
    using ok m c fin k act_keys_finite [OF fin]
    by (simp add: mux_ok_def counters_ok_alt queued_upd act_keys_upd)
  moreover have "ident_at (?m(k \<mapsto> e')) ` act_keys ?m = ident_at ?m ` act_keys ?m"
    using k by (intro image_cong) (auto simp: ident_at_upd)
  then have "active pd' = ident_at (?m(k \<mapsto> e')) ` act_keys (?m(k \<mapsto> e'))"
    using pd'(2) act k by (simp add: act_keys_upd ident_at_upd)
  moreover have "\<forall>j e. chanid_circid_map cmux' j = Some e \<longrightarrow> entry_ok ch circs j e"
    using entries [OF ok] e' c(1) by (simp del: split_paired_All)
  ultimately show ?thesis
    using ok c(2,3) pd'(1) unfolding mux_ok_def c(1) by simp
qed

text \<open>An entry that goes.\<close>

lemma mux_delete:
  assumes ok: "mux_ok ch circs cmux" and m: "chanid_circid_map cmux k = Some e" and pd: "policy_data cmux = Some pd"
    and pd': "pd_ok pd'" "active pd' = active pd - {ident_at (chanid_circid_map cmux) k}"
    and c: "chanid_circid_map cmux' = (chanid_circid_map cmux)(k := None)" "policy_data cmux' = Some pd'" "policy cmux' = policy cmux"
      "n_circuits cmux' = n_circuits cmux - 1" "n_cells cmux' = n_cells cmux - cell_count e"
      "n_active_circuits cmux' = n_active_circuits cmux - (if cell_count e > 0 then 1 else 0)"
  shows "mux_ok ch circs cmux'"
proof -
  let ?m = "chanid_circid_map cmux"
  have fin: "finite (dom ?m)" and act: "active pd = ident_at ?m ` act_keys ?m"
    using ok pd by (auto simp: mux_ok_def counters_ok_alt simp del: split_paired_All)
  have k: "k \<in> dom ?m" "k \<in> act_keys ?m \<longleftrightarrow> cell_count e > 0" using m by (auto simp: act_keys_def)
  have fa: "finite (act_keys ?m)" using fin by (rule act_keys_finite)
  have "card (dom ?m) = Suc (card (dom ?m - {k}))" using fin k(1) by (metis card_Suc_Diff1)
  then have n: "n_circuits cmux' = of_nat (card (dom ?m - {k}))"
    using ok c(4) by (simp add: mux_ok_def counters_ok_alt)
  have a: "n_active_circuits cmux' = of_nat (card (act_keys ?m - {k}))"
  proof (cases "cell_count e > 0")
    case True
    then have "card (act_keys ?m) = Suc (card (act_keys ?m - {k}))" using fa k(2) by (metis card_Suc_Diff1)
    then show ?thesis using ok c(6) True by (simp add: mux_ok_def counters_ok_alt)
  next
    case False
    then show ?thesis using ok c(6) k(2) by (simp add: mux_ok_def counters_ok_alt)
  qed
  have "counters_ok cmux'"
    using ok m c n a fin by (simp add: mux_ok_def counters_ok_alt queued_del act_keys_del)
  moreover have "active pd' = ident_at (?m(k := None)) ` act_keys (?m(k := None))"
  proof -
    have sub: "act_keys ?m - {k} \<subseteq> dom ?m" "{k} \<subseteq> dom ?m" using m by (auto simp: act_keys_def)
    have "ident_at (?m(k := None)) ` (act_keys ?m - {k}) = ident_at ?m ` (act_keys ?m - {k})"
      by (intro image_cong) (auto simp: ident_at_def)
    moreover have "ident_at ?m ` (act_keys ?m - {k}) = ident_at ?m ` act_keys ?m - {ident_at ?m k}"
      using inj_on_image_set_diff [OF ident_inj [OF entries [OF ok]], of "act_keys ?m" "{k}"] sub by simp
    ultimately show ?thesis using pd'(2) act by (simp add: act_keys_del)
  qed
  moreover have "\<forall>j e. chanid_circid_map cmux' j = Some e \<longrightarrow> entry_ok ch circs j e"
    using entries [OF ok] c(1) by (simp del: split_paired_All)
  ultimately show ?thesis
    using ok c(2,3) pd'(1) unfolding mux_ok_def c(1) by simp
qed

lemma attach_new_ok:
  assumes ok: "mux_ok ch circs cmux" and ids: "well_named ch circs" and m: "chanid_circid_map cmux k = None"
    and key: "key_of circs (c, dir) = Some k" "fst k = ch"
    and r: "attach_new_circuit g c (circs c) k dir n cmux = Some cmux'"
  shows "mux_ok ch circs cmux' \<and>
    (\<exists>e'. chanid_circid_map cmux' = (chanid_circid_map cmux)(k \<mapsto> e') \<and> cell_count e' = n \<and> direction e' = dir)"
proof -
  obtain pd where pd: "policy_data cmux = Some pd" "pd_ok pd" "policy cmux = Some pol"
    and act: "active pd = ident_at (chanid_circid_map cmux) ` act_keys (chanid_circid_map cmux)"
    using ok unfolding mux_ok_def by blast
  obtain cdo where al: "alloc g (Some pd) c dir n = Some cdo"
    using r pd callbacks(4,6) by (auto simp: attach_new_circuit_def split: bind_splits)
  from alloc_ok [OF al] obtain cd where cd: "cdo = Some cd" "ident cd = (c, dir)" "idle cd" by blast
  let ?e = "\<lparr>cell_count = n, direction = dir, mi_policy_data = Some cd\<rparr>"
  define cmux1 where "cmux1 = cmux\<lparr>chanid_circid_map := (chanid_circid_map cmux)(k \<mapsto> ?e), n_circuits := n_circuits cmux + 1\<rparr>"
  have new: "ident cd \<notin> active pd"
  proof
    assume "ident cd \<in> active pd"
    then obtain j where j: "j \<in> act_keys (chanid_circid_map cmux)" "ident_at (chanid_circid_map cmux) j = ident cd"
      using act by auto
    then have d: "j \<in> dom (chanid_circid_map cmux)" by (simp add: act_keys_def)
    then have "key_of circs (c, dir) = Some j" using ident_key [OF entries [OF ok] d] j(2) cd(2) by simp
    then show False using d m key(1) by auto
  qed
  have en: "entry_ok ch circs k ?e" using cd key by (simp add: entry_ok_def)
  show ?thesis
  proof (cases "n > 0")
    case True
    let ?c1 = "cmux1\<lparr>n_active_circuits := n_active_circuits cmux1 + 1\<rparr>"
    obtain cmux2 where mk: "circuitmux_make_circuit_active g c (circs c) ?c1 = Some cmux2"
      and c': "cmux' = cmux2\<lparr>n_cells := n_cells cmux2 + n\<rparr>"
      using r pd callbacks(4,6) al cd(1) True
      by (auto simp: attach_new_circuit_def cmux1_def Let_def split: bind_splits)
    have f: "circuitmux_find_map_entry ?c1 (circs c) = Some (Some (k, ?e))"
    proof (cases dir)
      case CELL_DIRECTION_OUT
      then show ?thesis using key by (simp add: find_iff key_of_def cmux1_def)
    next
      case CELL_DIRECTION_IN
      have "chanid_circid_map cmux j = None \<and> j \<noteq> k" if "n_key (circs c) = Some j" for j
        using other_channel [OF ids] CELL_DIRECTION_IN key that entries [OF ok] 
        by (metis entry_ok_def not_None_eq)
      then show ?thesis
        using CELL_DIRECTION_IN key by (cases "n_key (circs c)") (simp_all add: find_iff key_of_def cmux1_def)
    qed
    from make_active_result [OF mk _ f _ _ _ pd(2) cd(3) new] obtain pd' cd' where
      h: "cmux2 = ?c1\<lparr>policy_data := Some pd', chanid_circid_map := (chanid_circid_map cmux1)(k \<mapsto> ?e\<lparr>mi_policy_data := Some cd'\<rparr>)\<rparr>"
        "pd_ok pd'" "active pd' = insert (ident cd) (active pd)" "ident cd' = ident cd"
      using pd by (auto simp: cmux1_def)
    let ?e' = "?e\<lparr>mi_policy_data := Some cd'\<rparr>"
    have en': "entry_ok ch circs k ?e'" using cd key h(4) True by (auto simp: entry_ok_def)
    have "mux_ok ch circs cmux'"
      using mux_insert [OF ok m pd(1) en' h(2), of cmux'] h(3,4) True by (simp add: c' h(1) cmux1_def)
    then show ?thesis by (intro conjI exI [of _ ?e']) (simp_all add: c' h(1) cmux1_def)
  next
    case False
    then have c': "cmux' = cmux1\<lparr>n_cells := n_cells cmux1 + n\<rparr>"
      using r pd callbacks(4,6) al cd(1) by (simp add: attach_new_circuit_def cmux1_def Let_def)
    have "mux_ok ch circs cmux'"
      using mux_insert [OF ok m pd(1) en pd(2), of cmux'] False pd(1) by (simp add: c' cmux1_def)
    then show ?thesis by (intro conjI exI [of _ ?e]) (simp_all add: c' cmux1_def)
  qed
qed

text \<open>Attaching.\<close>

lemma attach_ok:
  assumes ok: "mux_ok ch circs cmux" and ids: "well_named ch circs"
    and chan: "(if dir = CELL_DIRECTION_OUT then n_chan (circs c) else p_chan (circs c)) = Some ch"
    and r: "circuitmux_attach_circuit g c (circs c) dir cmux = Some cmux'"
  shows "mux_ok ch circs cmux' \<and>
    (\<exists>k e'. key_of circs (c, dir) = Some k \<and> chanid_circid_map cmux' = (chanid_circid_map cmux)(k \<mapsto> e') \<and> direction e' = dir \<and>
      cell_count e' = of_int (if dir = CELL_DIRECTION_OUT then n_chan_cells_n (circs c) else p_chan_cells_n (circs c)))"
proof -
  define k where "k = (ch, if dir = CELL_DIRECTION_OUT then n_circ_id (circs c) else p_circ_id (circs c))"
  define n :: u32 where "n = of_int (if dir = CELL_DIRECTION_OUT then n_chan_cells_n (circs c) else p_chan_cells_n (circs c))"
  have chan': "dir = CELL_DIRECTION_OUT \<Longrightarrow> n_chan (circs c) = Some ch" "dir \<noteq> CELL_DIRECTION_OUT \<Longrightarrow> p_chan (circs c) = Some ch"
    using chan by (auto split: if_splits)
  have key: "key_of circs (c, dir) = Some k" "fst k = ch"
    using r chan' by (cases dir; force simp: key_of_def n_key_def p_key_def k_def circuitmux_attach_circuit_def Let_def split: if_splits)+
  have step: "(case chanid_circid_map cmux k of
        Some e \<Rightarrow> if direction e \<noteq> dir then None else reattach_circuit g c (circs c) k e n cmux
      | None \<Rightarrow> attach_new_circuit g c (circs c) k dir n cmux) = Some cmux'"
    using r unfolding circuitmux_attach_circuit_def chan Let_def n_def k_def by (simp split: if_splits)
  show ?thesis
  proof (cases "chanid_circid_map cmux k")
    case None
    then have "attach_new_circuit g c (circs c) k dir n cmux = Some cmux'" using step by simp
    from attach_new_ok [OF ok ids None key this] key(1) show ?thesis unfolding n_def by blast
  next
    case (Some e)
    then have d: "direction e = dir" and "reattach_circuit g c (circs c) k e n cmux = Some cmux'"
      using step by (auto split: if_splits)
    from reattach_ok [OF ok ids Some _ this(2)] key(1) d show ?thesis unfolding n_def by blast
  qed
qed

text \<open>Detaching.\<close>

lemma detach_ok:
  assumes ok: "mux_ok ch circs cmux" and ids: "well_named ch circs"
    and r: "circuitmux_detach_circuit g c (circs c) cmux = Some cmux'"
  shows "mux_ok ch circs cmux' \<and>
    (circuitmux_find_map_entry cmux (circs c) = Some None \<and> cmux' = cmux \<or>
     (\<exists>k e. circuitmux_find_map_entry cmux (circs c) = Some (Some (k, e)) \<and>
        chanid_circid_map cmux' = (chanid_circid_map cmux)(k := None)))"
proof -
  let ?found = "if HT_FIND cmux (n_key (circs c)) \<noteq> None then HT_FIND cmux (n_key (circs c)) else HT_FIND cmux (p_key (circs c))"
  obtain pd where pd: "policy_data cmux = Some pd" "pd_ok pd" "policy cmux = Some pol"
    using ok unfolding mux_ok_def by blast
  show ?thesis
  proof (cases ?found)
    case None
    then have "circuitmux_find_map_entry cmux (circs c) = Some None"
      by (simp add: circuitmux_find_map_entry_def split: if_splits option.splits)
    moreover have "cmux' = cmux" using r None by (auto simp: circuitmux_detach_circuit_def Let_def split: if_splits)
    ultimately show ?thesis using ok by simp
  next
    case (Some ke)
    obtain k e where ke: "ke = (k, e)" by (cases ke)
    define searched where "searched = (if HT_FIND cmux (n_key (circs c)) = None \<and> p_key (circs c) \<noteq> None then Some CELL_DIRECTION_IN
        else if n_chan (circs c) \<noteq> None then Some CELL_DIRECTION_OUT else None)"
    define cmux1 where "cmux1 = cmux\<lparr>n_circuits := n_circuits cmux - 1\<rparr>"
    obtain cmux2 e3 where r2: "(if cell_count e > 0
          then circuitmux_make_circuit_inactive g c (circs c) (cmux1\<lparr>n_active_circuits := n_active_circuits cmux1 - 1\<rparr>)
          else Some cmux1) = Some cmux2"
      and e3: "chanid_circid_map cmux2 k = Some e3" and s: "searched = Some (direction e)"
      and c': "cmux' = cmux2\<lparr>n_cells := n_cells cmux2 - cell_count e, chanid_circid_map := (chanid_circid_map cmux2)(k := None)\<rparr>"
      using r unfolding circuitmux_detach_circuit_def Let_def searched_def [symmetric] Some ke cmux1_def
      by (auto split: if_splits bind_splits)
    have m: "chanid_circid_map cmux k = Some e"
      using Some ke by (auto simp: HT_FIND_def split: if_splits option.splits)
    have f: "circuitmux_find_map_entry cmux (circs c) = Some (Some (k, e))"
      using Some s unfolding ke searched_def
      by (auto simp: circuitmux_find_map_entry_def HT_FIND_def n_key_def simp del: split_paired_All split_paired_Ex
          split: if_splits option.splits)
    note fe = find_entry [OF ok f ids]
    obtain cd where cd: "mi_policy_data e = Some cd" using fe by (auto simp: entry_ok_def)
    have idk: "ident_at (chanid_circid_map cmux) k = ident cd" using m cd by (simp add: ident_at_def)
    have act: "ident cd \<in> active pd \<longleftrightarrow> cell_count e > 0" using active_iff [OF ok m pd(1)] idk by simp
    have "mux_ok ch circs cmux' \<and> chanid_circid_map cmux' = (chanid_circid_map cmux)(k := None)"
    proof (cases "cell_count e > 0")
      case True
      let ?c1 = "cmux1\<lparr>n_active_circuits := n_active_circuits cmux1 - 1\<rparr>"
      have mi: "circuitmux_make_circuit_inactive g c (circs c) ?c1 = Some cmux2" using r2 True by simp
      have f1: "circuitmux_find_map_entry ?c1 (circs c) = Some (Some (k, e))"
        using find_entry_cong [OF _ f, of ?c1] m by (auto simp: fun_eq_iff cmux1_def)
      from make_inactive_result [OF mi _ f1 _ _ cd pd(2)] obtain pd' cd' where
        h: "cmux2 = ?c1\<lparr>policy_data := Some pd', chanid_circid_map := (chanid_circid_map cmux)(k \<mapsto> e\<lparr>mi_policy_data := Some cd'\<rparr>)\<rparr>"
          "pd_ok pd'" "active pd' = active pd - {ident cd}"
        using pd m act True by (auto simp: cmux1_def)
      show ?thesis
        using mux_delete [OF ok m pd(1) h(2), of cmux'] h(3) idk True by (simp add: c' h(1) cmux1_def)
    next
      case False
      then have "cmux2 = cmux1" using r2 by simp
      then show ?thesis
        using mux_delete [OF ok m pd(1,2), of cmux'] act idk pd(1) False by (simp add: c' cmux1_def)
    qed
    then show ?thesis using f by blast
  qed
qed

text \<open>Choosing a circuit. Each flow on the channel is another circuit.\<close>

lemma one_direction:
  assumes ok: "mux_ok ch circs cmux" and ids: "well_named ch circs" and pd: "policy_data cmux = Some pd"
    and a: "(c, dir) \<in> active pd" "(c, dir') \<in> active pd"
  shows "dir = dir'"
proof -
  have "\<exists>k. key_of circs (c, d) = Some k \<and> fst k = ch" if "(c, d) \<in> active pd" for d
  proof -
    have "(c, d) \<in> ident_at (chanid_circid_map cmux) ` act_keys (chanid_circid_map cmux)"
      using ok pd that unfolding mux_ok_def by (simp del: split_paired_All)
    then obtain k where k: "k \<in> act_keys (chanid_circid_map cmux)" "ident_at (chanid_circid_map cmux) k = (c, d)"
      by (elim imageE) metis
    then have "k \<in> dom (chanid_circid_map cmux)" by (simp add: act_keys_def)
    then show ?thesis
      using ident_key [OF entries [OF ok]] k(2) entries [OF ok] unfolding entry_ok_def by fastforce
  qed
  then have key: "\<exists>k. key_of circs (c, d) = Some k \<and> fst k = ch" if "d \<in> {dir, dir'}" for d
    using a that by blast
  show ?thesis
  proof (rule ccontr)
    assume "dir \<noteq> dir'"
    then have "{dir, dir'} = {CELL_DIRECTION_IN, CELL_DIRECTION_OUT}"
      by (cases dir; cases dir') auto
    with key [of CELL_DIRECTION_IN] key [of CELL_DIRECTION_OUT] obtain k j where
        "key_of circs (c, CELL_DIRECTION_IN) = Some k" "fst k = ch"
        "key_of circs (c, CELL_DIRECTION_OUT) = Some j" "fst j = ch"
      by blast
    then show False using other_channel [OF ids, of c k j] by (simp add: key_of_def)
  qed
qed

lemma get_first_ok:
  assumes ok: "mux_ok ch circs cmux"
    and small: "(\<Sum>k \<in> dom (chanid_circid_map cmux). unat (cell_count (the (chanid_circid_map cmux k)))) < 2 ^ 32"
  shows "if destroy_cell_queue cmux \<noteq> [] \<and> (\<not> last_cell_was_destroy cmux \<or> act_keys (chanid_circid_map cmux) = {})
    then circuitmux_get_first_active_circuit cmux = Some (None, True, cmux\<lparr>last_cell_was_destroy := True\<rparr>)
    else if act_keys (chanid_circid_map cmux) \<noteq> {}
    then \<exists>c k e. circuitmux_get_first_active_circuit cmux = Some (Some c, False, cmux\<lparr>last_cell_was_destroy := False\<rparr>) \<and>
      pick_active_circuit pol (policy_data cmux) = Some (Some c) \<and>
      chanid_circid_map cmux k = Some e \<and> cell_count e > 0 \<and> key_of circs (c, direction e) = Some k
    else circuitmux_get_first_active_circuit cmux = Some (None, False, cmux)"
proof -
  let ?m = "chanid_circid_map cmux"
  have fin: "finite (dom ?m)" and cnt: "n_active_circuits cmux = of_nat (card (act_keys ?m))" "n_cells cmux = queued ?m"
    using ok by (auto simp: mux_ok_def counters_ok_alt)
  obtain pd where pd: "policy_data cmux = Some pd" "pd_ok pd" "policy cmux = Some pol" "active pd = ident_at ?m ` act_keys ?m"
    using ok unfolding mux_ok_def by blast
  have q: "queued ?m = of_nat (\<Sum>k \<in> dom ?m. unat (cell_count (the (?m k))))"
    by (simp add: queued_def)
  have le: "card (act_keys ?m) \<le> (\<Sum>k \<in> dom ?m. unat (cell_count (the (?m k))))"
  proof -
    have "card (act_keys ?m) = (\<Sum>k \<in> act_keys ?m. 1)" by simp
    also have "\<dots> \<le> (\<Sum>k \<in> act_keys ?m. unat (cell_count (the (?m k))))"
      by (rule sum_mono) (auto simp: act_keys_def unat_gt_0 Suc_le_eq word_gt_0)
    also have "\<dots> \<le> (\<Sum>k \<in> dom ?m. unat (cell_count (the (?m k))))"
      by (rule sum_mono2) (auto simp: fin act_keys_def)
    finally show ?thesis .
  qed
  have act0: "n_active_circuits cmux = 0 \<longleftrightarrow> act_keys ?m = {}"
    unfolding cnt(1) using of_nat_u32_0 [OF order_le_less_trans [OF le small]] act_keys_finite [OF fin] by simp
  have cells0: "n_cells cmux = 0 \<longleftrightarrow> act_keys ?m = {}"
  proof -
    have "n_cells cmux = 0 \<longleftrightarrow> (\<Sum>k \<in> dom ?m. unat (cell_count (the (?m k)))) = 0"
      unfolding cnt(2) q by (rule of_nat_u32_0 [OF small])
    also have "\<dots> \<longleftrightarrow> act_keys ?m = {}"
      using fin by (auto simp: act_keys_def unat_eq_zero word_gt_0)
    finally show ?thesis .
  qed
  show ?thesis
  proof (cases "act_keys ?m = {}")
    case True
    then show ?thesis using act0 cells0 pd(3) by (simp add: circuitmux_get_first_active_circuit_def)
  next
    case False
    then have "active pd \<noteq> {}" using pd(4) by simp
    from pick_ok [OF pd(2) this] obtain c dir where p: "pick_active_circuit pol (Some pd) = Some (Some c)" "(c, dir) \<in> active pd" by blast
    then obtain k where k: "k \<in> act_keys ?m" "ident_at ?m k = (c, dir)" using pd(4) by auto
    then obtain e where e: "?m k = Some e" "cell_count e > 0" by (auto simp: act_keys_def)
    have "entry_ok ch circs k e" using entries [OF ok] e(1) by blast
    then have "direction e = dir" "key_of circs (c, dir) = Some k" using k(2) e(1) by (auto simp: entry_ok_def ident_at_def)
    then show ?thesis
      using False act0 cells0 pd p(1) e
      by (auto simp: circuitmux_get_first_active_circuit_def word_gt_0 simp del: split_paired_Ex)
  qed
qed

lemma picked_xmit:
  assumes ok: "mux_ok ch circs cmux" and ids: "well_named ch circs"
    and p: "pick_active_circuit pol (policy_data cmux) = Some (Some c)"
    and f: "circuitmux_find_map_entry cmux (circs c) = Some (Some (k, e))" and n: "0 < n" "n \<le> cell_count e"
  shows "circuitmux_notify_xmit_cells g c (circs c) n cmux \<noteq> None"
proof -
  note fe = find_entry [OF ok f ids]
  obtain pd where pd: "policy_data cmux = Some pd" "pd_ok pd" "policy cmux = Some pol"
    using ok unfolding mux_ok_def by blast
  obtain cd where cd: "mi_policy_data e = Some cd" using fe by (auto simp: entry_ok_def)
  have idc: "ident_at (chanid_circid_map cmux) k = ident cd" "ident cd = (c, direction e)"
    using fe cd by (auto simp: ident_at_def)
  have m: "chanid_circid_map cmux k = Some e" using fe by blast
  have act: "ident cd \<in> active pd" using active_iff [OF ok m pd(1)] idc(1) n by (auto simp: word_gt_0)
  have "\<forall>dir. (c, dir) \<in> active pd \<longrightarrow> dir = snd (ident cd)"
    using one_direction [OF ok ids pd(1)] act idc(2) by auto
  then obtain rg where x: "xmit g (Some pd) c (Some cd) n = Some rg"
    using picked_returns [OF pd(2) _ act _ _ n(1)] p pd(1) idc(2) by fastforce
  from xmit_ok [OF pd(2) act x] obtain g2 pd' cd' where
    rg: "rg = (g2, Some pd', Some cd')" "pd_ok pd'" "active pd' = active pd" "ident cd' = ident cd" by blast
  let ?cmux2 = "HT_UPDATE k (\<lambda>e. e\<lparr>mi_policy_data := Some cd'\<rparr>)
    (HT_UPDATE k (\<lambda>e. e\<lparr>cell_count := cell_count e - n\<rparr>) (cmux\<lparr>n_cells := n_cells cmux - n\<rparr>)\<lparr>policy_data := Some pd'\<rparr>)"
  have "circuitmux_make_circuit_inactive g2 c (circs c) (?cmux2\<lparr>n_active_circuits := a\<rparr>) \<noteq> None" for a
  proof -
    have "circuitmux_find_map_entry (?cmux2\<lparr>n_active_circuits := a\<rparr>) (circs c) =
        Some (Some (k, e\<lparr>cell_count := cell_count e - n, mi_policy_data := Some cd'\<rparr>))"
      using find_entry_cong [OF _ f, of "?cmux2\<lparr>n_active_circuits := a\<rparr>"] m by (cases e) (auto simp: fun_eq_iff HT_UPDATE_def)
    then show ?thesis
      using inact_returns [OF rg(2), of cd' g2 c] act rg(3,4) pd(3) callbacks(2)
      by (auto simp: circuitmux_make_circuit_inactive_def HT_UPDATE_def)
  qed
  then show ?thesis
    using f n x rg(1) pd callbacks(3) cd m
    by (auto simp: circuitmux_notify_xmit_cells_def Let_def HT_UPDATE_def)
qed

end

end
