(* ===== verification/Circuitmux_Ewma.thy ===== *)
theory Circuitmux_Ewma
  imports Circuitmux Smartlist_Pqueue Net_Params "HOL-Library.Signed_Division"
begin

text \<open>
  The policy of circuit multiplexers that is in use (\<open>src/core/or/circuitmux_ewma.c\<close>): the circuit
  that has sent least lately goes first. Each attached circuit has an exponentially weighted count of
  its cells; the counts of the active circuits are in a binary heap (\<open>Smartlist_Pqueue\<close>).

  The heap and the mux point to the same objects. Here the object of a circuit is the item of the
  heap while it is queued, and the copy in the entry of the mux while it is not; \<open>circ\<close> and
  \<open>is_for_p_chan\<close> tell objects apart. \<open>double\<close> is a linearly ordered type, so no NaN, with its operations
  in a record; a time is a number of nanoseconds, as \<open>monotime_coarse_diff_msec32\<close> of a 64-bit
  \<open>clock_gettime\<close> platform (\<open>src/lib/time/compat_time.c\<close>) reads it. The reading of the clock and the
  next random tick number are fields of the module's state.
\<close>

section \<open>Data\<close>

record 'r double_ops =
  d_add :: "'r \<Rightarrow> 'r \<Rightarrow> 'r"
  d_mul :: "'r \<Rightarrow> 'r \<Rightarrow> 'r"
  d_div :: "'r \<Rightarrow> 'r \<Rightarrow> 'r"
  d_pow :: "'r \<Rightarrow> 'r \<Rightarrow> 'r"
  d_exp :: "'r \<Rightarrow> 'r"
  d_neg :: "'r \<Rightarrow> 'r"
  d_of_int :: "int \<Rightarrow> 'r"
  d_epsilon :: 'r
  d_log_onehalf :: 'r

record 'r cell_ewma_t =
  last_adjusted_tick :: u32
  ewma_cell_count :: 'r
  is_for_p_chan :: bool
  heap_index :: int

record 'r ewma_policy_circ_data_t = "'r cell_ewma_t" +
  circ :: circuit_name

record 'r ewma_policy_data_t =
  active_circuit_pqueue :: "'r ewma_policy_circ_data_t list"
  last_recalibrated :: u32

record 'r ewma_t =
  ewma_tick_len :: int
  ewma_scale_factor :: 'r
  ewma_ticks_initialized :: bool
  start_of_current_tick :: int
  current_tick_num :: u32
  clock :: int
  random_tick :: u32

section \<open>Ticks\<close>

definition monotime_coarse_diff_msec32 :: "int \<Rightarrow> int \<Rightarrow> int" where
  "monotime_coarse_diff_msec32 start end = i32 ((end - start) sdiv 1000000)"

definition cell_ewma_initialize_ticks :: "'r ewma_t \<Rightarrow> 'r ewma_t" where
  "cell_ewma_initialize_ticks g =
     (if ewma_ticks_initialized g then g
      else g\<lparr>start_of_current_tick := clock g, current_tick_num := random_tick g, ewma_ticks_initialized := True\<rparr>)"

definition cell_ewma_get_tick :: "'r ewma_t \<Rightarrow> u32" where
  "cell_ewma_get_tick g =
     (let msec_diff = monotime_coarse_diff_msec32 (start_of_current_tick g) (clock g)
      in current_tick_num g + of_int (msec_diff sdiv (1000 * ewma_tick_len g)))"

definition cell_ewma_get_current_tick_and_fraction :: "'r double_ops \<Rightarrow> 'r ewma_t \<Rightarrow> u32 \<times> 'r \<times> 'r ewma_t" where
  "cell_ewma_get_current_tick_and_fraction ops g0 =
     (let g = (if \<not> ewma_ticks_initialized g0 then cell_ewma_initialize_ticks g0 else g0);
          msec_diff = monotime_coarse_diff_msec32 (start_of_current_tick g) (clock g);
          late = msec_diff > 1000 * ewma_tick_len g;
          ticks_difference = msec_diff sdiv (1000 * ewma_tick_len g);
          g1 = (if late
                then g\<lparr>start_of_current_tick := start_of_current_tick g + ticks_difference * 1000 * ewma_tick_len g * 1000000,
                       current_tick_num := current_tick_num g + of_int ticks_difference\<rparr>
                else g);
          msec_diff1 = (if late then msec_diff smod (1000 * ewma_tick_len g) else msec_diff)
      in (current_tick_num g1, d_div ops (d_of_int ops msec_diff1) (d_mul ops (d_of_int ops 1000) (d_of_int ops (ewma_tick_len g))), g1))"

section \<open>The scale factor\<close>

definition get_circuit_priority_halflife ::
    "('r::linorder) double_ops \<Rightarrow> 'r option \<Rightarrow> networkstatus option \<Rightarrow> networkstatus option \<Rightarrow> 'r option" where
  "get_circuit_priority_halflife ops option latest consensus =
     (let halflife_default = d_div ops (d_of_int ops 30000) (d_of_int ops 1000)
      in map_option (\<lambda>halflife. if halflife < d_epsilon ops then halflife_default else halflife)
           (case Option.bind option (\<lambda>hl. if hl \<ge> d_neg ops (d_epsilon ops) then Some hl else None) of
              Some hl \<Rightarrow> Some hl
            | None \<Rightarrow> map_option (\<lambda>ms. d_div ops (d_of_int ops ms) (d_of_int ops 1000))
                (networkstatus_get_param latest consensus ''CircuitPriorityHalflifeMsec'' 30000 1 INT32_MAX)))"

definition cmux_ewma_set_options ::
    "('r::linorder) double_ops \<Rightarrow> 'r option \<Rightarrow> networkstatus option \<Rightarrow> networkstatus option \<Rightarrow> 'r ewma_t \<Rightarrow> 'r ewma_t option" where
  "cmux_ewma_set_options ops option latest consensus g0 = do {
     let g = cell_ewma_initialize_ticks g0;
     halflife \<leftarrow> get_circuit_priority_halflife ops option latest consensus;
     tick_len \<leftarrow> networkstatus_get_param latest consensus ''CircuitPriorityTickSecs'' 10 1 600;
     Some (g\<lparr>ewma_tick_len := tick_len,
             ewma_scale_factor := d_exp ops (d_div ops (d_log_onehalf ops) (d_div ops halflife (d_of_int ops tick_len)))\<rparr>)
   }"

definition circuitmux_ewma_free_all :: "'r ewma_t \<Rightarrow> 'r ewma_t" where
  "circuitmux_ewma_free_all g = g\<lparr>ewma_ticks_initialized := False\<rparr>"

definition get_scale_factor :: "'r double_ops \<Rightarrow> 'r ewma_t \<Rightarrow> u32 \<Rightarrow> u32 \<Rightarrow> 'r" where
  "get_scale_factor ops g from_tick to_tick = d_pow ops (ewma_scale_factor g) (d_of_int ops (sint (to_tick - from_tick)))"

definition scale_single_cell_ewma :: "'r double_ops \<Rightarrow> 'r ewma_t \<Rightarrow> u32 \<Rightarrow> ('r, 'z) cell_ewma_t_scheme \<Rightarrow> ('r, 'z) cell_ewma_t_scheme" where
  "scale_single_cell_ewma ops g cur_tick e =
     (let factor = get_scale_factor ops g (last_adjusted_tick e) cur_tick
      in e\<lparr>ewma_cell_count := d_mul ops (ewma_cell_count e) factor, last_adjusted_tick := cur_tick\<rparr>)"

definition scale_active_circuits :: "'r double_ops \<Rightarrow> 'r ewma_t \<Rightarrow> u32 \<Rightarrow> 'r ewma_policy_data_t \<Rightarrow> 'r ewma_policy_data_t option" where
  "scale_active_circuits ops g cur_tick pol =
     (let factor = get_scale_factor ops g (last_recalibrated pol) cur_tick
      in if \<not> list_all (\<lambda>e. last_adjusted_tick e = last_recalibrated pol) (active_circuit_pqueue pol) then None
         else Some (pol\<lparr>active_circuit_pqueue :=
                map (\<lambda>e. e\<lparr>ewma_cell_count := d_mul ops (ewma_cell_count e) factor, last_adjusted_tick := cur_tick\<rparr>) (active_circuit_pqueue pol),
              last_recalibrated := cur_tick\<rparr>))"

section \<open>The queue of active circuits\<close>

definition compare_cell_ewma_counts :: "('r::linorder, 'z) cell_ewma_t_scheme \<Rightarrow> ('r, 'z) cell_ewma_t_scheme \<Rightarrow> int" where
  "compare_cell_ewma_counts e1 e2 =
     (if ewma_cell_count e1 < ewma_cell_count e2 then -1
      else if ewma_cell_count e1 > ewma_cell_count e2 then 1 else 0)"

abbreviation set_heap_index :: "int \<Rightarrow> ('r, 'z) cell_ewma_t_scheme \<Rightarrow> ('r, 'z) cell_ewma_t_scheme" where
  "set_heap_index i e \<equiv> e\<lparr>heap_index := i\<rparr>"

definition cell_ewma_to_circuit :: "'r ewma_policy_circ_data_t \<Rightarrow> circuit_name" where
  "cell_ewma_to_circuit e = circ e"

definition add_cell_ewma ::
    "('r::linorder) double_ops \<Rightarrow> 'r ewma_t \<Rightarrow> 'r ewma_policy_data_t \<Rightarrow> 'r ewma_policy_circ_data_t \<Rightarrow> 'r ewma_policy_data_t option" where
  "add_cell_ewma ops g pol e =
     (if heap_index e \<noteq> -1 then None
      else do {
        q \<leftarrow> smartlist_pqueue_add compare_cell_ewma_counts set_heap_index (active_circuit_pqueue pol)
               (scale_single_cell_ewma ops g (last_recalibrated pol) e);
        Some (pol\<lparr>active_circuit_pqueue := q\<rparr>)
      })"

definition remove_cell_ewma ::
    "('r::linorder) ewma_policy_data_t \<Rightarrow> 'r ewma_policy_circ_data_t \<Rightarrow> ('r ewma_policy_circ_data_t \<times> 'r ewma_policy_data_t) option" where
  "remove_cell_ewma pol e =
     (if heap_index e = -1 then None
      else do {
        (e1, q) \<leftarrow> smartlist_pqueue_remove compare_cell_ewma_counts set_heap_index heap_index (active_circuit_pqueue pol) e;
        Some (e1, pol\<lparr>active_circuit_pqueue := q\<rparr>)
      })"

definition pop_first_cell_ewma ::
    "('r::linorder) ewma_policy_data_t \<Rightarrow> ('r ewma_policy_circ_data_t \<times> 'r ewma_policy_data_t) option" where
  "pop_first_cell_ewma pol = do {
     (e, q) \<leftarrow> smartlist_pqueue_pop compare_cell_ewma_counts set_heap_index (active_circuit_pqueue pol);
     Some (e, pol\<lparr>active_circuit_pqueue := q\<rparr>)
   }"

text \<open>The object that a circuit's data stands for.\<close>

definition ewma_ident :: "'r ewma_policy_circ_data_t \<Rightarrow> flow" where
  "ewma_ident e = (circ e, if is_for_p_chan e then CELL_DIRECTION_IN else CELL_DIRECTION_OUT)"

definition ewma_object :: "'r ewma_policy_data_t \<Rightarrow> 'r ewma_policy_circ_data_t \<Rightarrow> 'r ewma_policy_circ_data_t" where
  "ewma_object pol cdata =
     (case find (\<lambda>e. ewma_ident e = ewma_ident cdata) (active_circuit_pqueue pol) of Some e \<Rightarrow> e | None \<Rightarrow> cdata)"

section \<open>The callbacks\<close>

definition ewma_alloc_cmux_data :: "'r ewma_t \<Rightarrow> 'r ewma_policy_data_t option" where
  "ewma_alloc_cmux_data g = Some \<lparr>active_circuit_pqueue = [], last_recalibrated = cell_ewma_get_tick g\<rparr>"

definition ewma_alloc_circ_data ::
    "'r double_ops \<Rightarrow> 'r ewma_t \<Rightarrow> 'r ewma_policy_data_t option \<Rightarrow> circuit_name \<Rightarrow> cell_direction_t \<Rightarrow> u32 \<Rightarrow> 'r ewma_policy_circ_data_t option option" where
  "ewma_alloc_circ_data ops g pol_data c dir n =
     (if pol_data = None then None
      else Some (Some \<lparr>last_adjusted_tick = cell_ewma_get_tick g, ewma_cell_count = d_of_int ops 0,
             is_for_p_chan = (dir = CELL_DIRECTION_IN), heap_index = -1, circ = c\<rparr>))"

definition ewma_notify_circ_active ::
    "('r::linorder) double_ops \<Rightarrow> 'r ewma_t \<Rightarrow> 'r ewma_policy_data_t option \<Rightarrow> circuit_name \<Rightarrow> 'r ewma_policy_circ_data_t option
      \<Rightarrow> ('r ewma_policy_data_t option \<times> 'r ewma_policy_circ_data_t option) option" where
  "ewma_notify_circ_active ops g pol_data c pol_circ_data = do {
     pol \<leftarrow> pol_data;
     cdata \<leftarrow> pol_circ_data;
     pol1 \<leftarrow> add_cell_ewma ops g pol (ewma_object pol cdata);
     Some (Some pol1, Some cdata)
   }"

definition ewma_notify_circ_inactive ::
    "('r::linorder) ewma_t \<Rightarrow> 'r ewma_policy_data_t option \<Rightarrow> circuit_name \<Rightarrow> 'r ewma_policy_circ_data_t option
      \<Rightarrow> ('r ewma_policy_data_t option \<times> 'r ewma_policy_circ_data_t option) option" where
  "ewma_notify_circ_inactive g pol_data c pol_circ_data = do {
     pol \<leftarrow> pol_data;
     cdata \<leftarrow> pol_circ_data;
     (e, pol1) \<leftarrow> remove_cell_ewma pol (ewma_object pol cdata);
     Some (Some pol1, Some e)
   }"

text \<open>A circuit that is not queued is not at the head, so the change of its count is not needed: the
  function aborts.\<close>

definition ewma_notify_xmit_cells ::
    "('r::linorder) double_ops \<Rightarrow> 'r ewma_t \<Rightarrow> 'r ewma_policy_data_t option \<Rightarrow> circuit_name \<Rightarrow> 'r ewma_policy_circ_data_t option \<Rightarrow> u32
      \<Rightarrow> ('r ewma_t \<times> 'r ewma_policy_data_t option \<times> 'r ewma_policy_circ_data_t option) option" where
  "ewma_notify_xmit_cells ops g pol_data c pol_circ_data n = do {
     pol \<leftarrow> pol_data;
     cdata \<leftarrow> pol_circ_data;
     if \<not> n > 0 then None
     else do {
       let (tick, fractional_tick, g1) = cell_ewma_get_current_tick_and_fraction ops g;
       pol1 \<leftarrow> (if tick \<noteq> last_recalibrated pol then scale_active_circuits ops g1 tick pol else Some pol);
       let ewma_increment = d_mul ops (d_of_int ops (uint n)) (d_pow ops (ewma_scale_factor g1) (d_neg ops fractional_tick));
       let pol2 = pol1\<lparr>active_circuit_pqueue :=
             map (\<lambda>e. if ewma_ident e = ewma_ident cdata
                       then e\<lparr>ewma_cell_count := d_add ops (ewma_cell_count e) ewma_increment\<rparr> else e) (active_circuit_pqueue pol1)\<rparr>;
       (tmp, pol3) \<leftarrow> pop_first_cell_ewma pol2;
       if ewma_ident tmp \<noteq> ewma_ident cdata then None
       else do {
         pol4 \<leftarrow> add_cell_ewma ops g1 pol3 tmp;
         Some (g1, Some pol4, Some cdata)
       }
     }
   }"

definition ewma_pick_active_circuit :: "'r ewma_policy_data_t option \<Rightarrow> circuit_name option option" where
  "ewma_pick_active_circuit pol_data = do {
     pol \<leftarrow> pol_data;
     Some (if length (active_circuit_pqueue pol) > 0 then Some (cell_ewma_to_circuit (active_circuit_pqueue pol ! 0)) else None)
   }"

text \<open>For two muxes whose policy data are not the same object.\<close>

definition ewma_cmp_cmux :: "('r::linorder) ewma_policy_data_t option \<Rightarrow> 'r ewma_policy_data_t option \<Rightarrow> int option" where
  "ewma_cmp_cmux pol_data_1 pol_data_2 = do {
     p1 \<leftarrow> pol_data_1;
     p2 \<leftarrow> pol_data_2;
     let ce1 = (if length (active_circuit_pqueue p1) > 0 then Some (active_circuit_pqueue p1 ! 0) else None);
     let ce2 = (if length (active_circuit_pqueue p2) > 0 then Some (active_circuit_pqueue p2 ! 0) else None);
     Some (case (ce1, ce2) of
             (Some e1, Some e2) \<Rightarrow> compare_cell_ewma_counts e1 e2
           | (Some _, None) \<Rightarrow> -1
           | (None, Some _) \<Rightarrow> 1
           | (None, None) \<Rightarrow> 0)
   }"

definition ewma_policy ::
    "('r::linorder) double_ops \<Rightarrow> ('r ewma_t, 'r ewma_policy_data_t, 'r ewma_policy_circ_data_t) circuitmux_policy_t" where
  "ewma_policy ops = \<lparr>pol_id = 1, alloc_cmux_data = Some ewma_alloc_cmux_data, free_cmux_data = True,
     alloc_circ_data = Some (ewma_alloc_circ_data ops), free_circ_data = True,
     notify_circ_active = Some (ewma_notify_circ_active ops), notify_circ_inactive = Some ewma_notify_circ_inactive,
     notify_set_n_cells = None, notify_xmit_cells = Some (ewma_notify_xmit_cells ops),
     pick_active_circuit = ewma_pick_active_circuit, cmp_cmux = Some ewma_cmp_cmux\<rparr>"

section \<open>The queue as a priority queue\<close>

lemma ewma_heap_order:
  "heap_order (compare_cell_ewma_counts :: ('r::linorder) ewma_policy_circ_data_t \<Rightarrow> _) set_heap_index heap_index ewma_cell_count"
  by unfold_locales (auto simp: compare_cell_ewma_counts_def)

interpretation ewmaq: heap_order "compare_cell_ewma_counts :: ('r::linorder) ewma_policy_circ_data_t \<Rightarrow> 'r ewma_policy_circ_data_t \<Rightarrow> int"
    set_heap_index heap_index ewma_cell_count
  by (rule ewma_heap_order)

text \<open>What the mux relies on, whether or not the queue is in heap order.\<close>

definition ewma_pd_ok :: "('r::linorder) ewma_policy_data_t \<Rightarrow> bool" where
  "ewma_pd_ok pol \<longleftrightarrow> ewmaq.indexed (active_circuit_pqueue pol) \<and> distinct (map ewma_ident (active_circuit_pqueue pol)) \<and>
     list_all (\<lambda>e. last_adjusted_tick e = last_recalibrated pol) (active_circuit_pqueue pol) \<and>
     length (active_circuit_pqueue pol) \<le> INT_MAX"

definition ewma_active :: "'r ewma_policy_data_t \<Rightarrow> flow set" where
  "ewma_active pol = ewma_ident ` set (active_circuit_pqueue pol)"

lemma ident_set_index [simp]: "ewma_ident (set_heap_index i e) = ewma_ident e"
  by (simp add: ewma_ident_def)

text \<open>What does not depend on the index fields can be read off the bag.\<close>

lemma mset_map_bag:
  assumes "\<And>i e. f (set_heap_index i e) = f e"
  shows "mset (map f q) = image_mset f (ewmaq.bag q)"
  by (simp add: ewmaq.bag_def image_mset.compositionality comp_def assms)

lemma bag_facts:
  assumes "ewmaq.bag q' = add_mset (set_heap_index 0 x) (ewmaq.bag q)"
  shows "set (map ewma_ident q') = insert (ewma_ident x) (set (map ewma_ident q))"
    and "distinct (map ewma_ident q') \<longleftrightarrow> distinct (map ewma_ident q) \<and> ewma_ident x \<notin> set (map ewma_ident q)"
    and "list_all (\<lambda>e. last_adjusted_tick e = t) q' \<longleftrightarrow> list_all (\<lambda>e. last_adjusted_tick e = t) q \<and> last_adjusted_tick x = t"
proof -
  have i: "mset (map ewma_ident q') = mset (ewma_ident x # map ewma_ident q)"
    using assms by (simp add: mset_map_bag del: mset_map)
  then show "set (map ewma_ident q') = insert (ewma_ident x) (set (map ewma_ident q))"
    by (metis list.simps(15) mset_eq_setD)
  show "distinct (map ewma_ident q') \<longleftrightarrow> distinct (map ewma_ident q) \<and> ewma_ident x \<notin> set (map ewma_ident q)"
    using mset_eq_imp_distinct_iff [OF i] by auto
  have "mset (map last_adjusted_tick q') = mset (last_adjusted_tick x # map last_adjusted_tick q)"
    using assms by (simp add: mset_map_bag del: mset_map)
  then have "set (map last_adjusted_tick q') = insert (last_adjusted_tick x) (set (map last_adjusted_tick q))"
    by (metis list.simps(15) mset_eq_setD)
  then show "list_all (\<lambda>e. last_adjusted_tick e = t) q' \<longleftrightarrow> list_all (\<lambda>e. last_adjusted_tick e = t) q \<and> last_adjusted_tick x = t"
    unfolding list_all_iff by auto
qed

lemma object_queued:
  assumes "distinct (map ewma_ident (active_circuit_pqueue pol))" and "ewma_ident cd \<in> ewma_active pol"
  shows "\<exists>i < length (active_circuit_pqueue pol). ewma_object pol cd = active_circuit_pqueue pol ! i \<and>
    ewma_ident (active_circuit_pqueue pol ! i) = ewma_ident cd"
proof -
  have "find (\<lambda>e. ewma_ident e = ewma_ident cd) (active_circuit_pqueue pol) \<noteq> None"
    using assms(2) by (auto simp: ewma_active_def find_None_iff)
  then obtain e where e: "find (\<lambda>e. ewma_ident e = ewma_ident cd) (active_circuit_pqueue pol) = Some e" by blast
  then obtain i where "i < length (active_circuit_pqueue pol)" "e = active_circuit_pqueue pol ! i" "ewma_ident e = ewma_ident cd"
    by (auto simp: find_Some_iff)
  then show ?thesis using e by (auto simp: ewma_object_def)
qed

lemma object_idle: "ewma_ident cd \<notin> ewma_active pol \<Longrightarrow> ewma_object pol cd = cd"
  unfolding ewma_object_def ewma_active_def
  by (auto simp: find_Some_iff split: option.splits) (metis imageI nth_mem)

lemma add_cell_ok:
  assumes ok: "ewma_pd_ok pol" and new: "ewma_ident e \<notin> ewma_active pol" and r: "add_cell_ewma ops g pol e = Some pol'"
  shows "ewma_pd_ok pol' \<and> ewma_active pol' = insert (ewma_ident e) (ewma_active pol) \<and> last_recalibrated pol' = last_recalibrated pol"
proof -
  let ?e = "scale_single_cell_ewma ops g (last_recalibrated pol) e"
  have i: "ewma_ident ?e = ewma_ident e" "last_adjusted_tick ?e = last_recalibrated pol"
    by (simp_all add: scale_single_cell_ewma_def ewma_ident_def Let_def)
  obtain q where q: "smartlist_pqueue_add compare_cell_ewma_counts set_heap_index (active_circuit_pqueue pol) ?e = Some q"
    and pol': "pol' = pol\<lparr>active_circuit_pqueue := q\<rparr>"
    using r by (auto simp: add_cell_ewma_def split: if_splits bind_splits)
  have "ewmaq.indexed (active_circuit_pqueue pol)" using ok by (simp add: ewma_pd_ok_def)
  from ewmaq.add_keeps [OF this q] have b: "ewmaq.indexed q" "length q \<le> INT_MAX"
      "ewmaq.bag q = add_mset (set_heap_index 0 ?e) (ewmaq.bag (active_circuit_pqueue pol))" by auto
  show ?thesis
    using ok new b(1,2) bag_facts [OF b(3)] i by (simp add: pol' ewma_pd_ok_def ewma_active_def)
qed

lemma remove_cell_ok:
  assumes ok: "ewma_pd_ok pol" and e: "i < length (active_circuit_pqueue pol)"
    and r: "remove_cell_ewma pol (active_circuit_pqueue pol ! i) = Some (e', pol')"
  shows "ewma_pd_ok pol' \<and> ewma_active pol' = ewma_active pol - {ewma_ident e'} \<and> e' = set_heap_index (-1) (active_circuit_pqueue pol ! i)"
proof -
  let ?q = "active_circuit_pqueue pol"
  obtain q where q: "smartlist_pqueue_remove compare_cell_ewma_counts set_heap_index heap_index ?q (?q ! i) = Some (e', q)"
    and pol': "pol' = pol\<lparr>active_circuit_pqueue := q\<rparr>"
    using r by (auto simp: remove_cell_ewma_def split: if_splits bind_splits)
  have "ewmaq.indexed ?q" using ok by (simp add: ewma_pd_ok_def)
  from ewmaq.remove_keeps [OF this e q] have b: "ewmaq.indexed q" "length ?q = Suc (length q)" "e' = set_heap_index (-1) (?q ! i)"
      "ewmaq.bag ?q = add_mset (set_heap_index 0 e') (ewmaq.bag q)" by auto
  show ?thesis
    using ok b(1-3) bag_facts [OF b(4)] by (auto simp: pol' ewma_pd_ok_def ewma_active_def)
qed

lemma remove_cell_returns:
  assumes ok: "ewma_pd_ok pol" and e: "i < length (active_circuit_pqueue pol)"
  shows "remove_cell_ewma pol (active_circuit_pqueue pol ! i) \<noteq> None"
proof -
  have ix: "ewmaq.indexed (active_circuit_pqueue pol)" using ok by (simp add: ewma_pd_ok_def)
  then have "heap_index (active_circuit_pqueue pol ! i) = int i" using e by (simp add: ewmaq.indexed_def)
  then show ?thesis using ewmaq.remove_refilled [OF ix e] by (simp add: remove_cell_ewma_def)
qed

lemma pop_first_ok:
  assumes ok: "ewma_pd_ok pol" and r: "pop_first_cell_ewma pol = Some (e', pol')"
  shows "ewma_pd_ok pol' \<and> ewma_active pol' = ewma_active pol - {ewma_ident e'} \<and> active_circuit_pqueue pol \<noteq> [] \<and>
    e' = set_heap_index (-1) (active_circuit_pqueue pol ! 0) \<and> Suc (length (active_circuit_pqueue pol')) = length (active_circuit_pqueue pol) \<and>
    last_recalibrated pol' = last_recalibrated pol"
proof -
  let ?q = "active_circuit_pqueue pol"
  obtain q where q: "smartlist_pqueue_pop compare_cell_ewma_counts set_heap_index ?q = Some (e', q)"
    and pol': "pol' = pol\<lparr>active_circuit_pqueue := q\<rparr>"
    using r by (auto simp: pop_first_cell_ewma_def split: bind_splits)
  have "ewmaq.indexed ?q" using ok by (simp add: ewma_pd_ok_def)
  from ewmaq.pop_keeps [OF this q] have b: "?q \<noteq> []" "ewmaq.indexed q" "length ?q = Suc (length q)" "e' = set_heap_index (-1) (?q ! 0)"
      "ewmaq.bag ?q = add_mset (set_heap_index 0 e') (ewmaq.bag q)" by auto
  show ?thesis
    using ok b(1-4) bag_facts [OF b(5)] by (auto simp: pol' ewma_pd_ok_def ewma_active_def)
qed

section \<open>What the policy owes the mux\<close>

text \<open>Rescaling and counting leave the queue's objects in place.\<close>

lemma map_queue_ok:
  assumes ok: "ewma_pd_ok pol" and F: "\<And>e. ewma_ident (F e) = ewma_ident e" "\<And>e. heap_index (F e) = heap_index e"
      "\<And>e. last_adjusted_tick e = last_recalibrated pol \<Longrightarrow> last_adjusted_tick (F e) = t"
    and pol': "pol' = pol\<lparr>active_circuit_pqueue := map F (active_circuit_pqueue pol), last_recalibrated := t\<rparr>"
  shows "ewma_pd_ok pol' \<and> ewma_active pol' = ewma_active pol \<and>
    map ewma_ident (active_circuit_pqueue pol') = map ewma_ident (active_circuit_pqueue pol)"
proof -
  have m: "map ewma_ident (map F q) = map ewma_ident q" for q by (simp add: F(1))
  have "set (map ewma_ident (map F q)) = set (map ewma_ident q)" for q by (simp only: m)
  then have s: "ewma_ident ` F ` set q = ewma_ident ` set q" for q by (simp add: image_image)
  show ?thesis
    using ok F(2,3) m [of "active_circuit_pqueue pol"]
    by (simp add: pol' ewma_pd_ok_def ewma_active_def s ewmaq.indexed_def list_all_iff del: map_map)
qed

lemma scale_active_ok:
  assumes "ewma_pd_ok pol"
  shows "\<exists>pol'. scale_active_circuits ops g t pol = Some pol' \<and> ewma_pd_ok pol' \<and> ewma_active pol' = ewma_active pol \<and>
    map ewma_ident (active_circuit_pqueue pol') = map ewma_ident (active_circuit_pqueue pol)"
  using assms map_queue_ok [OF assms _ _ _ refl, of "\<lambda>e. e\<lparr>ewma_cell_count := d_mul ops (ewma_cell_count e)
      (get_scale_factor ops g (last_recalibrated pol) t), last_adjusted_tick := t\<rparr>" t]
  by (simp add: scale_active_circuits_def Let_def ewma_pd_ok_def ewma_ident_def)

definition count_cells :: "'r double_ops \<Rightarrow> flow \<Rightarrow> 'r \<Rightarrow> 'r ewma_policy_data_t \<Rightarrow> 'r ewma_policy_data_t" where
  "count_cells ops f x pol = pol\<lparr>active_circuit_pqueue :=
     map (\<lambda>e. if ewma_ident e = f then e\<lparr>ewma_cell_count := d_add ops (ewma_cell_count e) x\<rparr> else e) (active_circuit_pqueue pol)\<rparr>"

lemma count_cells_ok:
  assumes "ewma_pd_ok pol"
  shows "ewma_pd_ok (count_cells ops f x pol) \<and> ewma_active (count_cells ops f x pol) = ewma_active pol \<and>
    map ewma_ident (active_circuit_pqueue (count_cells ops f x pol)) = map ewma_ident (active_circuit_pqueue pol)"
  by (rule map_queue_ok [OF assms, where t = "last_recalibrated pol"
        and F = "\<lambda>e. if ewma_ident e = f then e\<lparr>ewma_cell_count := d_add ops (ewma_cell_count e) x\<rparr> else e"])
    (auto simp: count_cells_def ewma_ident_def)

text \<open>The function, after the rescaling.\<close>

lemma xmit_cells_unfold:
  assumes "ewma_notify_xmit_cells ops g (Some pol) c (Some cd) n = r" and "0 < n" and "ewma_pd_ok pol"
  shows "\<exists>g1 pol2. ewma_pd_ok pol2 \<and> ewma_active pol2 = ewma_active pol \<and>
    map ewma_ident (active_circuit_pqueue pol2) = map ewma_ident (active_circuit_pqueue pol) \<and>
    r = do {
      (tmp, pol3) \<leftarrow> pop_first_cell_ewma pol2;
      if ewma_ident tmp \<noteq> ewma_ident cd then None
      else do {
        pol4 \<leftarrow> add_cell_ewma ops g1 pol3 tmp;
        Some (g1, Some pol4, Some cd)
      }
    }"
proof -
  obtain tick frac g1 where tk: "cell_ewma_get_current_tick_and_fraction ops g = (tick, frac, g1)" by (cases rule: prod_cases3)
  obtain pol1 where p1: "(if tick \<noteq> last_recalibrated pol then scale_active_circuits ops g1 tick pol else Some pol) = Some pol1"
      "ewma_pd_ok pol1" "ewma_active pol1 = ewma_active pol"
      "map ewma_ident (active_circuit_pqueue pol1) = map ewma_ident (active_circuit_pqueue pol)"
    using scale_active_ok [OF assms(3), of ops g1 tick] assms(3) by (cases "tick = last_recalibrated pol") auto
  let ?x = "d_mul ops (d_of_int ops (uint n)) (d_pow ops (ewma_scale_factor g1) (d_neg ops frac))"
  show ?thesis
    using count_cells_ok [OF p1(2), of ops "ewma_ident cd" ?x] p1(3,4) assms(1,2) p1(1) tk
    by (intro exI [of _ g1] exI [of _ "count_cells ops (ewma_ident cd) ?x pol1"])
      (simp add: ewma_notify_xmit_cells_def count_cells_def Let_def)
qed

text \<open>Sending from the head of the queue.\<close>

lemma head_xmit:
  assumes ok: "ewma_pd_ok pol2" and same: "map ewma_ident (active_circuit_pqueue pol2) = map ewma_ident q"
    and ne: "q \<noteq> []" and id: "ewma_ident cd = ewma_ident (q ! 0)"
  shows "\<exists>tmp pol3 pol4. pop_first_cell_ewma pol2 = Some (tmp, pol3) \<and> ewma_ident tmp = ewma_ident cd \<and>
    add_cell_ewma ops g1 pol3 tmp = Some pol4"
proof -
  have ne2: "active_circuit_pqueue pol2 \<noteq> []" using same ne by auto
  then obtain tmp pol3 where p: "pop_first_cell_ewma pol2 = Some (tmp, pol3)"
    by (auto simp: pop_first_cell_ewma_def smartlist_pqueue_pop_def)
  note po = pop_first_ok [OF ok p]
  have "ewma_ident (active_circuit_pqueue pol2 ! 0) = ewma_ident (q ! 0)"
    using same ne2 ne by (metis length_greater_0_conv length_map nth_map)
  then have i: "ewma_ident tmp = ewma_ident cd" using po id by simp
  have "length (active_circuit_pqueue pol2) \<le> INT_MAX" using ok by (simp add: ewma_pd_ok_def)
  then have "add_cell_ewma ops g1 pol3 tmp \<noteq> None"
    using po by (simp add: add_cell_ewma_def smartlist_pqueue_add_def smartlist_add_def)
  then show ?thesis using p i by auto
qed

lemma ewma_mux_policy:
  "mux_policy (ewma_policy ops) (ewma_notify_circ_active ops) ewma_notify_circ_inactive (ewma_notify_xmit_cells ops)
     (ewma_alloc_circ_data ops) ewma_pd_ok ewma_active ewma_ident (\<lambda>e. heap_index e = -1)"
proof (unfold_locales, goal_cases)
  case (7 g pd c dir n cdo)
  then show ?case
    by (intro exI [of _ "the cdo"]) (cases dir; auto simp: ewma_alloc_circ_data_def ewma_ident_def)
next
  case (8 pd cd g c r)
  then obtain pd' where "add_cell_ewma ops g pd cd = Some pd'" "r = (Some pd', Some cd)"
    by (auto simp: ewma_notify_circ_active_def object_idle split: bind_splits)
  then show ?case using add_cell_ok [OF 8(1,3)] by auto
next
  case (9 pd cd g c r)
  have "distinct (map ewma_ident (active_circuit_pqueue pd))" using 9(1) by (simp add: ewma_pd_ok_def)
  from object_queued [OF this 9(2)] obtain i where i: "i < length (active_circuit_pqueue pd)"
      "ewma_object pd cd = active_circuit_pqueue pd ! i" "ewma_ident (active_circuit_pqueue pd ! i) = ewma_ident cd" by blast
  then obtain e pd' where "remove_cell_ewma pd (active_circuit_pqueue pd ! i) = Some (e, pd')" "r = (Some pd', Some e)"
    using 9(3) by (auto simp: ewma_notify_circ_inactive_def split: bind_splits)
  then show ?case using remove_cell_ok [OF 9(1) i(1)] i(3) by auto
next
  case (10 pd cd g c n rg)
  have n: "0 < n" using 10(3) by (auto simp: ewma_notify_xmit_cells_def split: if_splits)
  from xmit_cells_unfold [OF 10(3) n 10(1)] obtain g1 pol2 where
    x2: "ewma_pd_ok pol2" "ewma_active pol2 = ewma_active pd" and
    r: "Some rg = do {
      (tmp, pol3) \<leftarrow> pop_first_cell_ewma pol2;
      if ewma_ident tmp \<noteq> ewma_ident cd then None
      else do {
        pol4 \<leftarrow> add_cell_ewma ops g1 pol3 tmp;
        Some (g1, Some pol4, Some cd)
      }
    }" by blast
  from r obtain tmp pol3 pol4 where
    x: "ewma_pd_ok pol2" "ewma_active pol2 = ewma_active pd" "pop_first_cell_ewma pol2 = Some (tmp, pol3)"
      "ewma_ident tmp = ewma_ident cd" "add_cell_ewma ops g1 pol3 tmp = Some pol4" "rg = (g1, Some pol4, Some cd)"
    using x2 by (cases "pop_first_cell_ewma pol2") (auto split: bind_splits if_splits)
  note p = pop_first_ok [OF x(1,3)]
  then have "ewma_ident tmp \<notin> ewma_active pol3" by auto
  from add_cell_ok [OF _ this x(5)] p x 10(2) show ?case by auto
next
  case (11 pd cd g c)
  have "distinct (map ewma_ident (active_circuit_pqueue pd))" using 11(1) by (simp add: ewma_pd_ok_def)
  from object_queued [OF this 11(2)] obtain i where i: "i < length (active_circuit_pqueue pd)"
      "ewma_object pd cd = active_circuit_pqueue pd ! i" by blast
  then show ?case using remove_cell_returns [OF 11(1) i(1)] by (auto simp: ewma_notify_circ_inactive_def)
next
  case (12 pd)
  then have "active_circuit_pqueue pd \<noteq> []" by (auto simp: ewma_active_def)
  then show ?case
    by (auto simp: ewma_policy_def ewma_pick_active_circuit_def cell_ewma_to_circuit_def ewma_active_def ewma_ident_def image_iff)
      (metis length_greater_0_conv nth_mem)
next
  case (13 pd c cd n g)
  let ?q = "active_circuit_pqueue pd"
  have q: "?q \<noteq> []" "circ (?q ! 0) = c"
    using 13(2) by (auto simp: ewma_policy_def ewma_pick_active_circuit_def cell_ewma_to_circuit_def split: if_splits)
  have "ewma_ident (?q ! 0) \<in> ewma_active pd" using q(1) by (auto simp: ewma_active_def)
  then have hd: "ewma_ident (?q ! 0) = ewma_ident cd"
    using 13(4,5) q(2) by (metis ewma_ident_def fst_conv prod.collapse)
  from xmit_cells_unfold [OF refl 13(6,1)] obtain g1 pol2 where
    x: "ewma_pd_ok pol2" "map ewma_ident (active_circuit_pqueue pol2) = map ewma_ident ?q"
      "ewma_notify_xmit_cells ops g (Some pd) c (Some cd) n = do {
      (tmp, pol3) \<leftarrow> pop_first_cell_ewma pol2;
      if ewma_ident tmp \<noteq> ewma_ident cd then None
      else do {
        pol4 \<leftarrow> add_cell_ewma ops g1 pol3 tmp;
        Some (g1, Some pol4, Some cd)
      }
    }" by blast
  from head_xmit [OF x(1,2) q(1) hd [symmetric], of ops g1] x(3) show ?case by (elim exE conjE) simp
qed (simp_all add: ewma_policy_def)

interpretation ewma: mux_policy "ewma_policy ops" "ewma_notify_circ_active ops" ewma_notify_circ_inactive "ewma_notify_xmit_cells ops"
    "ewma_alloc_circ_data ops" ewma_pd_ok ewma_active ewma_ident "\<lambda>e. heap_index e = -1"
  for ops :: "('r::linorder) double_ops"
  by (rule ewma_mux_policy)

section \<open>A mux at work\<close>

text \<open>The calls other code makes, in any order. Circuits change between calls, but keep the channels and
  IDs they are attached under. \<open>CLOCK\<close> is the passing of time.\<close>

datatype mux_event =
    ATTACH circuit_name cell_direction_t
  | DETACH circuit_name
  | SET_NUM_CELLS circuit_name u32
  | CLEAR_NUM_CELLS circuit_name
  | XMIT_CELLS circuit_name u32
  | GET_FIRST
  | APPEND_DESTROY u32 u8
  | CLOCK int

type_synonym 'r ewma_mux_t = "('r ewma_t, 'r ewma_policy_data_t, 'r ewma_policy_circ_data_t) circuitmux_t"

fun mux_step ::
    "(circuit_name \<Rightarrow> mux_circuit_t) \<Rightarrow> mux_event \<Rightarrow> ('r::linorder) ewma_t \<times> 'r ewma_mux_t \<Rightarrow> ('r ewma_t \<times> 'r ewma_mux_t) option" where
  "mux_step circs (ATTACH c dir) (g, cmux) = map_option (Pair g) (circuitmux_attach_circuit g c (circs c) dir cmux)"
| "mux_step circs (DETACH c) (g, cmux) = map_option (Pair g) (circuitmux_detach_circuit g c (circs c) cmux)"
| "mux_step circs (SET_NUM_CELLS c n) (g, cmux) = map_option (Pair g) (circuitmux_set_num_cells g c (circs c) n cmux)"
| "mux_step circs (CLEAR_NUM_CELLS c) (g, cmux) = map_option (Pair g) (circuitmux_clear_num_cells g c (circs c) cmux)"
| "mux_step circs (XMIT_CELLS c n) (g, cmux) = circuitmux_notify_xmit_cells g c (circs c) n cmux"
| "mux_step circs GET_FIRST (g, cmux) = map_option (\<lambda>r. (g, snd (snd r))) (circuitmux_get_first_active_circuit cmux)"
| "mux_step circs (APPEND_DESTROY circ_id reason) (g, cmux) =
     Some (g, fst (snd (circuitmux_append_destroy_cell True 0 cmux circ_id reason)))"
| "mux_step circs (CLOCK t) (g, cmux) = Some (g\<lparr>clock := t\<rparr>, cmux)"

fun mux_run ::
    "((circuit_name \<Rightarrow> mux_circuit_t) \<times> mux_event) list \<Rightarrow> ('r::linorder) ewma_t \<times> 'r ewma_mux_t \<Rightarrow> ('r ewma_t \<times> 'r ewma_mux_t) option" where
  "mux_run [] st = Some st"
| "mux_run ((circs, ev) # evs) st = Option.bind (mux_step circs ev st) (mux_run evs)"

definition ewma_mux_new :: "('r::linorder) double_ops \<Rightarrow> 'r ewma_t \<Rightarrow> 'r ewma_mux_t option" where
  "ewma_mux_new ops g = circuitmux_set_policy g (\<lambda>_. None) [] (Some (ewma_policy ops)) circuitmux_alloc"

text \<open>What callers see to: the circuits keep their names, and only a circuit of this channel is attached.\<close>

definition same_names :: "(circuit_name \<Rightarrow> mux_circuit_t) \<Rightarrow> (circuit_name \<Rightarrow> mux_circuit_t) \<Rightarrow> bool" where
  "same_names circs circs' \<longleftrightarrow> (\<forall>c. n_chan (circs' c) = n_chan (circs c) \<and> n_circ_id (circs' c) = n_circ_id (circs c) \<and>
     p_chan (circs' c) = p_chan (circs c) \<and> p_circ_id (circs' c) = p_circ_id (circs c) \<and> is_origin (circs' c) = is_origin (circs c))"

definition fit_event :: "u64 \<Rightarrow> (circuit_name \<Rightarrow> mux_circuit_t) \<Rightarrow> (circuit_name \<Rightarrow> mux_circuit_t) \<times> mux_event \<Rightarrow> bool" where
  "fit_event ch circs ce \<longleftrightarrow> same_names circs (fst ce) \<and>
     (case snd ce of ATTACH c dir \<Rightarrow> (if dir = CELL_DIRECTION_OUT then n_chan (circs c) else p_chan (circs c)) = Some ch | _ \<Rightarrow> True)"

lemma same_names_key: "same_names circs circs' \<Longrightarrow> key_of circs' = key_of circs"
  by (auto simp: fun_eq_iff key_of_def same_names_def n_key_def p_key_def)

lemma same_names_well: "same_names circs circs' \<Longrightarrow> well_named ch circs' = well_named ch circs"
  by (simp add: well_named_def same_names_key) (simp add: same_names_def)

lemma same_names_ok: "same_names circs circs' \<Longrightarrow> ewma.mux_ok ops ch circs' cmux = ewma.mux_ok ops ch circs cmux"
  unfolding ewma.mux_ok_def ewma.entry_ok_def by (simp add: same_names_key)

lemma mux_ok_irrelevant:
  "ewma.mux_ok ops ch circs cmux \<Longrightarrow> ewma.mux_ok ops ch circs (cmux\<lparr>last_cell_was_destroy := b, destroy_cell_queue := q, destroy_ctr := d\<rparr>)"
  by (simp add: ewma.mux_ok_def counters_ok_def)

lemma mux_step_ok:
  assumes ids: "well_named ch circs" and fit: "fit_event ch circs (circs', ev)"
    and ok: "ewma.mux_ok ops ch circs cmux" and r: "mux_step circs' ev (g, cmux) = Some (g', cmux')"
  shows "ewma.mux_ok ops ch circs cmux'"
proof -
  have sn: "same_names circs circs'" using fit by (simp add: fit_event_def)
  have ok': "ewma.mux_ok ops ch circs' cmux" and ids': "well_named ch circs'"
    using ok ids sn by (simp_all add: same_names_ok same_names_well)
  have "ewma.mux_ok ops ch circs' cmux'"
  proof (cases ev)
    case (ATTACH c dir)
    then have "(if dir = CELL_DIRECTION_OUT then n_chan (circs' c) else p_chan (circs' c)) = Some ch"
      using fit sn by (auto simp: fit_event_def same_names_def)
    then show ?thesis using ewma.attach_ok [OF ok' ids'] r ATTACH by auto
  next
    case (DETACH c)
    then show ?thesis using ewma.detach_ok [OF ok' ids'] r by auto
  next
    case (SET_NUM_CELLS c n)
    then show ?thesis using ewma.set_num_cells_ok [OF ok' ids'] r by auto
  next
    case (CLEAR_NUM_CELLS c)
    then show ?thesis using ewma.set_num_cells_ok [OF ok' ids'] r by (auto simp: circuitmux_clear_num_cells_def)
  next
    case (XMIT_CELLS c n)
    then show ?thesis
      using ewma.xmit_cells_ok [OF ok' ids', of n g c g' cmux'] r ok'
      by (cases "n = 0") (auto simp: circuitmux_notify_xmit_cells_def word_gt_0)
  next
    case GET_FIRST
    then have "cmux' \<in> {cmux\<lparr>last_cell_was_destroy := True\<rparr>, cmux\<lparr>last_cell_was_destroy := False\<rparr>, cmux}"
      using r by (auto simp: circuitmux_get_first_active_circuit_def split: bind_splits if_splits)
    then show ?thesis
      using ok' mux_ok_irrelevant [OF ok', where q = "destroy_cell_queue cmux" and d = "destroy_ctr cmux"] by auto
  next
    case (APPEND_DESTROY i w)
    then show ?thesis
      using r mux_ok_irrelevant [OF ok', where b = "last_cell_was_destroy cmux"] by (auto simp: circuitmux_append_destroy_cell_def)
  next
    case (CLOCK t)
    then show ?thesis using r ok' by simp
  qed
  then show ?thesis using sn by (simp add: same_names_ok)
qed

lemma mux_new_ok:
  assumes "ewma_mux_new ops g = Some cmux"
  shows "ewma.mux_ok ops ch circs cmux"
proof -
  have "cmux = circuitmux_alloc\<lparr>policy := Some (ewma_policy ops), policy_data := ewma_alloc_cmux_data g\<rparr>"
    using assms by (auto simp: ewma_mux_new_def circuitmux_set_policy_def circuitmux_alloc_def ewma_policy_def split: if_splits bind_splits)
  then show ?thesis
    by (simp add: ewma.mux_ok_def counters_ok_def circuitmux_alloc_def ewma_alloc_cmux_data_def ewma_pd_ok_def ewmaq.indexed_def
        ewma_active_def act_keys_def)
qed

lemma mux_run_ok:
  assumes "well_named ch circs" and "list_all (fit_event ch circs) evs"
    and "ewma.mux_ok ops ch circs cmux" and "mux_run evs (g, cmux) = Some (g', cmux')"
  shows "ewma.mux_ok ops ch circs cmux'"
  using assms(2-4)
proof (induction evs arbitrary: g cmux)
  case (Cons ce evs)
  obtain circs' ev where ce: "ce = (circs', ev)" by (cases ce)
  obtain g1 cmux1 where "mux_step circs' ev (g, cmux) = Some (g1, cmux1)" "mux_run evs (g1, cmux1) = Some (g', cmux')"
    using Cons.prems(3) ce by (auto split: bind_splits)
  moreover have "fit_event ch circs (circs', ev)" "list_all (fit_event ch circs) evs" using Cons.prems(1) ce by auto
  ultimately show ?case
    using mux_step_ok [OF assms(1) _ Cons.prems(2)] Cons.IH by blast
qed simp

lemma mux_run_new:
  assumes "well_named ch circs" and "list_all (fit_event ch circs) evs"
    and "ewma_mux_new ops g = Some cmux" and "mux_run evs (g, cmux) = Some (g', cmux')"
  shows "ewma.mux_ok ops ch circs cmux'"
  using mux_run_ok [OF assms(1,2) mux_new_ok [OF assms(3)] assms(4)] .

lemma mux_ok_active:
  assumes ok: "ewma.mux_ok ops ch circs cmux" and ids: "well_named ch circs"
  shows "\<exists>pd. policy_data cmux = Some pd \<and> distinct (map ewma_ident (active_circuit_pqueue pd)) \<and>
    (\<forall>f. f \<in> set (map ewma_ident (active_circuit_pqueue pd)) \<longleftrightarrow>
       (\<exists>k e. key_of circs f = Some k \<and> chanid_circid_map cmux k = Some e \<and> direction e = snd f \<and> cell_count e > 0))"
proof -
  let ?m = "chanid_circid_map cmux"
  obtain pd where pd: "policy_data cmux = Some pd" "ewma_pd_ok pd" "ewma_active pd = ewma.ident_at ?m ` act_keys ?m"
    using ok unfolding ewma.mux_ok_def by blast
  note ent = ewma.entries [OF ok]
  have "f \<in> ewma_active pd \<longleftrightarrow> (\<exists>k e. key_of circs f = Some k \<and> ?m k = Some e \<and> direction e = snd f \<and> cell_count e > 0)" for f
  proof
    assume "f \<in> ewma_active pd"
    then have "f \<in> ewma.ident_at ?m ` act_keys ?m" by (simp only: pd(3))
    then obtain k where k: "k \<in> act_keys ?m" "ewma.ident_at ?m k = f" by (elim imageE) simp
    then obtain e where e: "?m k = Some e" "cell_count e > 0" by (auto simp: act_keys_def)
    with ent have "ewma.entry_ok ch circs k e" by blast
    then obtain cd where cd: "mi_policy_data e = Some cd" "snd (ewma_ident cd) = direction e" "key_of circs (ewma_ident cd) = Some k"
      unfolding ewma.entry_ok_def by blast
    have "ewma_ident cd = f" using k(2) e(1) cd(1) by (simp add: ewma.ident_at_def)
    then show "\<exists>k e. key_of circs f = Some k \<and> ?m k = Some e \<and> direction e = snd f \<and> cell_count e > 0"
      using e cd by (intro exI [of _ k] exI [of _ e]) simp
  next
    assume "\<exists>k e. key_of circs f = Some k \<and> ?m k = Some e \<and> direction e = snd f \<and> cell_count e > 0"
    then obtain k e where k: "key_of circs f = Some k" "?m k = Some e" "cell_count e > 0" by blast
    with ent have en: "ewma.entry_ok ch circs k e" by blast
    have "key_of circs (ewma.ident_at ?m k) = Some k" using ewma.ident_key [OF ent domI [of ?m k e]] k(2) by simp
    moreover have "fst k = ch" using en unfolding ewma.entry_ok_def by blast
    ultimately have "ewma.ident_at ?m k = f" using k(1) ids unfolding well_named_def by blast
    moreover have "k \<in> act_keys ?m" using k by (auto simp: act_keys_def)
    ultimately show "f \<in> ewma_active pd" using pd(3) by blast
  qed
  moreover have "distinct (map ewma_ident (active_circuit_pqueue pd))" using pd(2) by (simp add: ewma_pd_ok_def)
  ultimately show ?thesis using pd(1) unfolding ewma_active_def set_map by blast
qed

section \<open>Properties\<close>

text \<open>Integers for \<open>double\<close>, and two circuits of channel 7: the instance the witnesses run on.\<close>

definition int_ops :: "int double_ops" where
  "int_ops = \<lparr>d_add = (+), d_mul = (*), d_div = (\<lambda>x y. x div y), d_pow = (\<lambda>_ _. 1), d_exp = id, d_neg = uminus,
     d_of_int = id, d_epsilon = 0, d_log_onehalf = 0\<rparr>"

definition ewma_demo :: "int ewma_t" where
  "ewma_demo = \<lparr>ewma_tick_len = 10, ewma_scale_factor = 1, ewma_ticks_initialized = True, start_of_current_tick = 0,
     current_tick_num = 5, clock = 0, random_tick = 0\<rparr>"

definition circ_demo :: "bool \<Rightarrow> int \<Rightarrow> int \<Rightarrow> u64 option \<Rightarrow> u32 \<Rightarrow> u64 option \<Rightarrow> u32 \<Rightarrow> mux_circuit_t" where
  "circ_demo origin n p nch nid pch pid =
     \<lparr>global_identifier = 0, is_origin = origin, package_window = 0, deliver_window = 0, ccontrol = None, cpath = [],
      or_sendme_digest = [], sendme_last_digests = None, n_chan_cells_n = n, p_chan_cells_n = p,
      circuit_blocked_on_n_chan = False, circuit_blocked_on_p_chan = False, n_chan_attached = True, marked_for_close = False,
      n_chan = nch, n_circ_id = nid, p_chan = pch, p_circ_id = pid\<rparr>"

definition circs_demo :: "circuit_name \<Rightarrow> mux_circuit_t" where
  "circs_demo c = (if c = 1 then circ_demo True 2 0 (Some 7) 11 None 0
     else if c = 2 then circ_demo False 0 0 None 0 (Some 7) 12 else circ_demo True 0 0 None 0 None 0)"

lemma demo_named: "well_named 7 circs_demo"
  by (auto simp: well_named_def circs_demo_def circ_demo_def key_of_def n_key_def p_key_def prod_eq_iff split: if_splits)
    (metis cell_direction_t.exhaust)

definition evs_demo :: "((circuit_name \<Rightarrow> mux_circuit_t) \<times> mux_event) list" where
  "evs_demo = map (Pair circs_demo) [ATTACH 1 CELL_DIRECTION_OUT, ATTACH 2 CELL_DIRECTION_IN, SET_NUM_CELLS 2 1, GET_FIRST]"

definition mux_demo :: "int ewma_mux_t" where
  "mux_demo = the (ewma_mux_new int_ops ewma_demo)"

lemma demo_runs: "list_all (fit_event 7 circs_demo) evs_demo" "ewma_mux_new int_ops ewma_demo = Some mux_demo"
    "\<exists>st. mux_run evs_demo (ewma_demo, mux_demo) = Some st"
proof -
  show "list_all (fit_event 7 circs_demo) evs_demo"
    by (simp add: evs_demo_def fit_event_def same_names_def circs_demo_def circ_demo_def)
  show "ewma_mux_new int_ops ewma_demo = Some mux_demo"
    by (simp add: mux_demo_def ewma_mux_new_def circuitmux_set_policy_def circuitmux_alloc_def ewma_policy_def ewma_alloc_cmux_data_def)
  have "mux_run evs_demo (ewma_demo, mux_demo) \<noteq> None" by code_simp
  then show "\<exists>st. mux_run evs_demo (ewma_demo, mux_demo) = Some st" by blast
qed

definition evs_one :: "((circuit_name \<Rightarrow> mux_circuit_t) \<times> mux_event) list" where
  "evs_one = [(circs_demo, ATTACH 1 CELL_DIRECTION_OUT)]"

lemma one_runs: "list_all (fit_event 7 circs_demo) evs_one"
    "\<exists>cmux e. mux_run evs_one (ewma_demo, mux_demo) = Some (ewma_demo, cmux) \<and>
      chanid_circid_map cmux = [(7, 11) \<mapsto> e] \<and> cell_count e = 2 \<and> destroy_cell_queue cmux = [] \<and>
      map_option (\<lambda>(c, d, _). (c, d)) (circuitmux_get_first_active_circuit cmux) = Some (Some 1, False) \<and>
      circuitmux_num_cells_for_circuit cmux (circs_demo 1) = Some 2"
proof -
  show "list_all (fit_event 7 circs_demo) evs_one"
    by (simp add: evs_one_def fit_event_def same_names_def circs_demo_def circ_demo_def)
  define r where "r = circuitmux_attach_circuit ewma_demo 1 (circs_demo 1) CELL_DIRECTION_OUT mux_demo"
  have "map_option (\<lambda>cmux. (map_option (\<lambda>(c, d, _). (c, d)) (circuitmux_get_first_active_circuit cmux),
      circuitmux_num_cells_for_circuit cmux (circs_demo 1), destroy_cell_queue cmux)) r = Some (Some (Some 1, False), Some 2, [])"
    unfolding r_def by code_simp
  then obtain cmux where c: "r = Some cmux" "map_option (\<lambda>(c, d, _). (c, d)) (circuitmux_get_first_active_circuit cmux) = Some (Some 1, False)"
      "circuitmux_num_cells_for_circuit cmux (circs_demo 1) = Some 2" "destroy_cell_queue cmux = []" by auto
  have ok: "ewma.mux_ok int_ops 7 circs_demo mux_demo" by (rule mux_new_ok [OF demo_runs(2)])
  have "chanid_circid_map mux_demo = Map.empty"
    by (simp add: mux_demo_def ewma_mux_new_def circuitmux_set_policy_def circuitmux_alloc_def ewma_policy_def ewma_alloc_cmux_data_def)
  then have "\<exists>e. chanid_circid_map cmux = [(7, 11) \<mapsto> e] \<and> cell_count e = 2"
    using ewma.attach_ok [OF ok demo_named _ c(1) [unfolded r_def]]
    by (auto simp: circs_demo_def circ_demo_def key_of_def n_key_def)
  then show "\<exists>cmux e. mux_run evs_one (ewma_demo, mux_demo) = Some (ewma_demo, cmux) \<and>
      chanid_circid_map cmux = [(7, 11) \<mapsto> e] \<and> cell_count e = 2 \<and> destroy_cell_queue cmux = [] \<and>
      map_option (\<lambda>(c, d, _). (c, d)) (circuitmux_get_first_active_circuit cmux) = Some (Some 1, False) \<and>
      circuitmux_num_cells_for_circuit cmux (circs_demo 1) = Some 2"
    using c by (auto simp: evs_one_def r_def)
qed

text \<open>
  C25. The counters of a mux are exact. Take a new mux with the EWMA policy and any sequence of calls
  that return (attaching, detaching, new counts, cells sent, choosing, DESTROY cells), with the clock
  moving in between: the numbers of circuits, of active circuits and of cells are those of the
  entries of its map (modulo the width of the counters), and the policy's queue holds exactly one
  item for each attached circuit that has cells, and none for the others.
\<close>

theorem mux_counts_exact:
  assumes "well_named ch circs" and "list_all (fit_event ch circs) evs"
    and "ewma_mux_new ops g = Some cmux" and "mux_run evs (g, cmux) = Some (g', cmux')"
  shows "counters_ok cmux' \<and>
    (\<exists>pd. policy_data cmux' = Some pd \<and> distinct (map ewma_ident (active_circuit_pqueue pd)) \<and>
      (\<forall>f. f \<in> set (map ewma_ident (active_circuit_pqueue pd)) \<longleftrightarrow>
         (\<exists>k e. key_of circs f = Some k \<and> chanid_circid_map cmux' k = Some e \<and> direction e = snd f \<and> cell_count e > 0)))"
proof -
  note ok = mux_run_new [OF assms]
  have "counters_ok cmux'" using ok unfolding ewma.mux_ok_def by blast
  with mux_ok_active [OF ok assms(1)] show ?thesis by blast
qed

theorem mux_counts_exact_witness:
  "\<exists>g' cmux'. mux_run evs_demo (ewma_demo, mux_demo) = Some (g', cmux') \<and> counters_ok cmux'"
proof -
  obtain g' cmux' where r: "mux_run evs_demo (ewma_demo, mux_demo) = Some (g', cmux')" using demo_runs(3) by auto
  from mux_counts_exact [OF demo_named demo_runs(1,2) r] r show ?thesis by blast
qed

text \<open>
  C26. A mux always knows what to send next. After any such sequence, if the cells queued in all its
  entries are fewer than \<open>2 ^ 32\<close>, choosing does not abort. DESTROY cells that wait get their turn
  when the last choice was not one, or when no circuit is active; else, when circuits are active, the
  choice is an attached circuit that has cells; and nothing is chosen only when nothing waits.
\<close>

theorem mux_serves:
  assumes "well_named ch circs" and "list_all (fit_event ch circs) evs"
    and "ewma_mux_new ops g = Some cmux0" and "mux_run evs (g, cmux0) = Some (g', cmux)"
    and small: "(\<Sum>k \<in> dom (chanid_circid_map cmux). unat (cell_count (the (chanid_circid_map cmux k)))) < 2 ^ 32"
  shows "if destroy_cell_queue cmux \<noteq> [] \<and> (\<not> last_cell_was_destroy cmux \<or> act_keys (chanid_circid_map cmux) = {})
    then circuitmux_get_first_active_circuit cmux = Some (None, True, cmux\<lparr>last_cell_was_destroy := True\<rparr>)
    else if act_keys (chanid_circid_map cmux) \<noteq> {}
    then \<exists>c k e. circuitmux_get_first_active_circuit cmux = Some (Some c, False, cmux\<lparr>last_cell_was_destroy := False\<rparr>) \<and>
      chanid_circid_map cmux k = Some e \<and> cell_count e > 0 \<and> key_of circs (c, direction e) = Some k
    else circuitmux_get_first_active_circuit cmux = Some (None, False, cmux)"
  using ewma.get_first_ok [OF mux_run_new [OF assms(1-4)] small] by (auto simp del: split_paired_Ex split: if_splits)

theorem mux_serves_witness:
  "\<exists>(cmux :: int ewma_mux_t) c k e. circuitmux_get_first_active_circuit cmux = Some (Some c, False, cmux\<lparr>last_cell_was_destroy := False\<rparr>) \<and>
      chanid_circid_map cmux k = Some e \<and> cell_count e > 0 \<and> key_of circs_demo (c, direction e) = Some k"
proof -
  obtain cmux e where r: "mux_run evs_one (ewma_demo, mux_demo) = Some (ewma_demo, cmux)" "chanid_circid_map cmux = [(7, 11) \<mapsto> e]"
      "cell_count e = 2" "destroy_cell_queue cmux = []" using one_runs(2) by blast
  have "act_keys (chanid_circid_map cmux) \<noteq> {}" using r(2,3) by (auto simp: act_keys_def)
  moreover have "(\<Sum>k \<in> dom (chanid_circid_map cmux). unat (cell_count (the (chanid_circid_map cmux k)))) < 2 ^ 32"
    using r(2,3) by simp
  ultimately show ?thesis
    using mux_serves [OF demo_named one_runs(1) demo_runs(2) r(1)] r(4) by (simp only: simp_thms if_False if_True) blast
qed

text \<open>
  C27. What is chosen can be sent. When the mux of such a sequence chooses a circuit, reporting up to as
  many cells as the circuit has queued returns: the policy finds the circuit at the head of its queue
  and does not abort. The count of the circuit goes down by what was sent, and the total with it.
\<close>

theorem mux_picked_sends:
  assumes "well_named ch circs" and "list_all (fit_event ch circs) evs"
    and "ewma_mux_new ops g = Some cmux0" and "mux_run evs (g, cmux0) = Some (g', cmux)"
    and pick: "circuitmux_get_first_active_circuit cmux = Some (Some c, d, cmux1)"
    and cells: "circuitmux_num_cells_for_circuit cmux (circs c) = Some m" "0 < n" "n \<le> m"
  shows "\<exists>g2 cmux2. circuitmux_notify_xmit_cells g' c (circs c) n cmux1 = Some (g2, cmux2) \<and>
    circuitmux_num_cells_for_circuit cmux2 (circs c) = Some (m - n) \<and> n_cells cmux2 = n_cells cmux - n"
proof -
  note ok = mux_run_new [OF assms(1-4)]
  have c1: "cmux1 = cmux\<lparr>last_cell_was_destroy := False\<rparr>" and p: "pick_active_circuit (ewma_policy ops) (policy_data cmux) = Some (Some c)"
    using pick ok by (auto simp: circuitmux_get_first_active_circuit_def ewma.mux_ok_def split: if_splits bind_splits)
  have ok1: "ewma.mux_ok ops ch circs cmux1"
    using mux_ok_irrelevant [OF ok, where b = False and q = "destroy_cell_queue cmux" and d = "destroy_ctr cmux"] by (simp add: c1)
  have m: "m \<noteq> 0" using cells by auto
  then obtain k e where f: "circuitmux_find_map_entry cmux1 (circs c) = Some (Some (k, e))" "cell_count e = m"
    using cells(1) by (auto simp: circuitmux_num_cells_for_circuit_def circuitmux_find_map_entry_def HT_FIND_def c1 split: option.splits)
  have "circuitmux_notify_xmit_cells g' c (circs c) n cmux1 \<noteq> None"
    using p cells(3) f(2) by (intro ewma.picked_xmit [OF ok1 assms(1) _ f(1) cells(2)]) (simp_all add: c1)
  then obtain g2 cmux2 where x: "circuitmux_notify_xmit_cells g' c (circs c) n cmux1 = Some (g2, cmux2)"
    by auto
  from ewma.xmit_cells_ok [OF ok1 assms(1) cells(2) x] f(1) obtain e' where
    r: "ewma.mux_ok ops ch circs cmux2" "chanid_circid_map cmux2 = (chanid_circid_map cmux1)(k \<mapsto> e')"
      "cell_count e' = m - n" "direction e' = direction e"
    using f(2) by auto
  have mk: "chanid_circid_map cmux1 k = Some e" using ewma.find_entry [OF ok1 f(1) assms(1)] by blast
  have "circuitmux_find_map_entry cmux2 (circs c) = Some (Some (k, e'))"
    using ewma.find_entry_cong [OF _ f(1), of cmux2] r(2,4) mk by (auto simp: fun_eq_iff)
  moreover have "n_cells cmux2 = n_cells cmux - n"
  proof -
    have "n_cells cmux2 = queued (chanid_circid_map cmux2)" "n_cells cmux1 = queued (chanid_circid_map cmux1)" "finite (dom (chanid_circid_map cmux1))"
      using r(1) ok1 by (auto simp: ewma.mux_ok_def counters_ok_alt)
    then show ?thesis using r(2,3) mk f(2) by (simp add: queued_upd c1)
  qed
  ultimately show ?thesis using x r(3) by (auto simp: circuitmux_num_cells_for_circuit_def)
qed

theorem mux_picked_sends_witness:
  "\<exists>(cmux :: int ewma_mux_t) g2 cmux2. circuitmux_notify_xmit_cells ewma_demo 1 (circs_demo 1) 1 cmux = Some (g2, cmux2) \<and>
    circuitmux_num_cells_for_circuit cmux2 (circs_demo 1) = Some 1"
proof -
  obtain cmux where r: "mux_run evs_one (ewma_demo, mux_demo) = Some (ewma_demo, cmux)"
      "map_option (\<lambda>(c, d, _). (c, d)) (circuitmux_get_first_active_circuit cmux) = Some (Some 1, False)"
      "circuitmux_num_cells_for_circuit cmux (circs_demo 1) = Some 2" using one_runs(2) by blast
  then obtain cmux1 where p: "circuitmux_get_first_active_circuit cmux = Some (Some 1, False, cmux1)" by auto
  from mux_picked_sends [OF demo_named one_runs(1) demo_runs(2) r(1) p r(3), of 1] obtain g2 cmux2 where
    "circuitmux_notify_xmit_cells ewma_demo 1 (circs_demo 1) 1 cmux1 = Some (g2, cmux2)"
    "circuitmux_num_cells_for_circuit cmux2 (circs_demo 1) = Some (2 - 1)" by auto
  then show ?thesis by (intro exI [of _ cmux1] exI [of _ g2] exI [of _ cmux2]) simp
qed

lemma xmit_scaled:
  assumes scale: "\<And>x y d. x \<le> y \<Longrightarrow> d_mul ops x (d_pow ops (ewma_scale_factor g) d) \<le> d_mul ops y (d_pow ops (ewma_scale_factor g) d)"
    and heap: "ewmaq.heap (active_circuit_pqueue pd)" and s: "ewma_scale_factor g1 = ewma_scale_factor g"
    and r: "scale_active_circuits ops g1 t pd = Some pd'"
  shows "ewmaq.heap (active_circuit_pqueue pd')"
proof -
  have "active_circuit_pqueue pd' = map (\<lambda>e. e\<lparr>ewma_cell_count := d_mul ops (ewma_cell_count e) (get_scale_factor ops g1 (last_recalibrated pd) t),
      last_adjusted_tick := t\<rparr>) (active_circuit_pqueue pd)"
    using r by (auto simp: scale_active_circuits_def Let_def split: if_splits)
  then show ?thesis
    using heap scale by (simp add: ewmaq.heap_def get_scale_factor_def s)
qed

lemma tick_keeps_scale: "cell_ewma_get_current_tick_and_fraction ops g = (t, f, g1) \<Longrightarrow> ewma_scale_factor g1 = ewma_scale_factor g"
  by (auto simp: cell_ewma_get_current_tick_and_fraction_def Let_def cell_ewma_initialize_ticks_def split: if_splits)

text \<open>Only the count of the top of a queue changes when the cells are those of the top.\<close>

lemma count_cells_top:
  assumes "distinct (map ewma_ident q)" and "q \<noteq> []" and "f = ewma_ident (q ! 0)"
  shows "map (\<lambda>e. if ewma_ident e = f then F e else e) q = q[0 := F (q ! 0)]"
proof -
  obtain x xs where q: "q = x # xs" using assms(2) by (cases q) auto
  then have "map (\<lambda>e. if ewma_ident e = f then F e else e) xs = xs"
    using assms(1,3) by (intro map_idI) (auto simp: image_iff)
  then show ?thesis using q assms(3) by simp
qed

lemma xmit_heap:
  assumes scale: "\<And>x y d. x \<le> y \<Longrightarrow> d_mul ops x (d_pow ops (ewma_scale_factor g) d) \<le> d_mul ops y (d_pow ops (ewma_scale_factor g) d)"
    and ok: "ewma_pd_ok pd" and heap: "ewmaq.heap (active_circuit_pqueue pd)" and n: "0 < n"
    and id: "ewma_ident cd = ewma_ident (active_circuit_pqueue pd ! 0)"
    and r: "ewma_notify_xmit_cells ops g (Some pd) c (Some cd) n = Some (g', Some pd', cd')"
  shows "ewmaq.heap (active_circuit_pqueue pd') \<and> ewmaq.indexed (active_circuit_pqueue pd')"
proof -
  obtain tick frac g1 where tk: "cell_ewma_get_current_tick_and_fraction ops g = (tick, frac, g1)" by (cases rule: prod_cases3)
  obtain pd1 where p1: "(if tick \<noteq> last_recalibrated pd then scale_active_circuits ops g1 tick pd else Some pd) = Some pd1"
      "ewma_pd_ok pd1" "map ewma_ident (active_circuit_pqueue pd1) = map ewma_ident (active_circuit_pqueue pd)"
    using scale_active_ok [OF ok, of ops g1 tick] ok by (cases "tick = last_recalibrated pd") auto
  let ?q = "active_circuit_pqueue pd1"
  have heap1: "ewmaq.heap ?q"
    using p1(1) heap xmit_scaled [OF scale heap tick_keeps_scale [OF tk], of tick pd1] by (auto split: if_splits)
  let ?x = "d_mul ops (d_of_int ops (uint n)) (d_pow ops (ewma_scale_factor g1) (d_neg ops frac))"
  let ?pd2 = "count_cells ops (ewma_ident cd) ?x pd1"
  obtain tmp pd3 where pop: "pop_first_cell_ewma ?pd2 = Some (tmp, pd3)" and add: "add_cell_ewma ops g1 pd3 tmp = Some pd'"
    using r n p1(1) tk by (auto simp: ewma_notify_xmit_cells_def count_cells_def Let_def split: bind_splits if_splits)
  have ne: "?q \<noteq> []"
    using pop_first_ok [OF _ pop] count_cells_ok [OF p1(2)] by (auto simp: count_cells_def)
  then have "ewma_ident cd = ewma_ident (?q ! 0)"
    using p1(3) id by (metis length_greater_0_conv length_map nth_map)
  moreover have dis: "distinct (map ewma_ident ?q)" and ix: "ewmaq.indexed ?q" and len: "length ?q \<le> INT_MAX"
    using p1(2) by (simp_all add: ewma_pd_ok_def)
  ultimately have q2: "active_circuit_pqueue ?pd2 = ?q[0 := (?q ! 0)\<lparr>ewma_cell_count := d_add ops (ewma_cell_count (?q ! 0)) ?x\<rparr>]"
    using count_cells_top [OF dis ne, of "ewma_ident cd"] by (simp add: count_cells_def)
  obtain top rest where pq: "smartlist_pqueue_pop compare_cell_ewma_counts set_heap_index ?q = Some (top, rest)"
    using ne by (auto simp: smartlist_pqueue_pop_def)
  from ewmaq.pop_ok [OF heap1 ix len pq] have rest: "ewmaq.heap rest" "ewmaq.indexed rest" by auto
  have "active_circuit_pqueue pd3 = rest"
    using pop ewmaq.pop_top_update [OF pq] by (auto simp: pop_first_cell_ewma_def q2 split: bind_splits)
  then obtain e where "smartlist_pqueue_add compare_cell_ewma_counts set_heap_index rest e = Some (active_circuit_pqueue pd')"
    using add by (auto simp: add_cell_ewma_def split: if_splits bind_splits)
  from ewmaq.add_ok [OF rest this] show ?thesis by blast
qed

text \<open>
  C28. The quietest circuit goes first, and its turn keeps the order. On a queue in heap order, when
  scaling by a power of the scale factor does not turn the order of two counts around, the policy picks a circuit whose
  weighted count is least; reporting cells for it returns, whatever the clock says, and leaves the
  queue in heap order, with the same circuits in it.
\<close>

theorem ewma_quietest_first:
  assumes scale: "\<And>x y d. x \<le> y \<Longrightarrow> d_mul ops x (d_pow ops (ewma_scale_factor g) d) \<le> d_mul ops y (d_pow ops (ewma_scale_factor g) d)"
    and ok: "ewma_pd_ok pd" and heap: "smartlist_pqueue_assert_ok compare_cell_ewma_counts heap_index (active_circuit_pqueue pd)"
    and ne: "active_circuit_pqueue pd \<noteq> []"
  shows "\<exists>e \<in> set (active_circuit_pqueue pd). ewma_pick_active_circuit (Some pd) = Some (Some (circ e)) \<and>
    (\<forall>e' \<in> set (active_circuit_pqueue pd). ewma_cell_count e \<le> ewma_cell_count e') \<and>
    (\<forall>cd n. 0 < n \<longrightarrow> ewma_ident cd = ewma_ident e \<longrightarrow>
       (\<exists>g' pd'. ewma_notify_xmit_cells ops g (Some pd) (circ e) (Some cd) n = Some (g', Some pd', Some cd) \<and>
          smartlist_pqueue_assert_ok compare_cell_ewma_counts heap_index (active_circuit_pqueue pd') \<and>
          ewma_active pd' = ewma_active pd))"
proof (intro bexI conjI ballI allI impI)
  let ?q = "active_circuit_pqueue pd"
  show in0: "?q ! 0 \<in> set ?q" using ne by simp
  show p: "ewma_pick_active_circuit (Some pd) = Some (Some (circ (?q ! 0)))"
    using ne by (simp add: ewma_pick_active_circuit_def cell_ewma_to_circuit_def)
  have h: "ewmaq.heap ?q" using heap by (simp add: ewmaq.assert_ok_iff)
  show "ewma_cell_count (?q ! 0) \<le> ewma_cell_count e'" if "e' \<in> set ?q" for e'
    using ewmaq.heap_top [OF h] that by (metis in_set_conv_nth)
  show "\<exists>g' pd'. ewma_notify_xmit_cells ops g (Some pd) (circ (?q ! 0)) (Some cd) n = Some (g', Some pd', Some cd) \<and>
      smartlist_pqueue_assert_ok compare_cell_ewma_counts heap_index (active_circuit_pqueue pd') \<and> ewma_active pd' = ewma_active pd"
    if n: "0 < n" and id: "ewma_ident cd = ewma_ident (?q ! 0)" for cd n
  proof -
    have d: "distinct (map ewma_ident ?q)" using ok by (simp add: ewma_pd_ok_def)
    have act: "ewma_ident cd \<in> ewma_active pd" using id in0 by (auto simp: ewma_active_def)
    from xmit_cells_unfold [OF refl n ok, of ops g "circ (?q ! 0)" cd] obtain g1 pol2 where
      x: "ewma_pd_ok pol2" "map ewma_ident (active_circuit_pqueue pol2) = map ewma_ident ?q"
        "ewma_notify_xmit_cells ops g (Some pd) (circ (?q ! 0)) (Some cd) n = do {
        (tmp, pol3) \<leftarrow> pop_first_cell_ewma pol2;
        if ewma_ident tmp \<noteq> ewma_ident cd then None
        else do {
          pol4 \<leftarrow> add_cell_ewma ops g1 pol3 tmp;
          Some (g1, Some pol4, Some cd)
        }
      }" by blast
    from head_xmit [OF x(1,2) ne id] obtain tmp pol3 pol4 where
      "pop_first_cell_ewma pol2 = Some (tmp, pol3)" "ewma_ident tmp = ewma_ident cd" "add_cell_ewma ops g1 pol3 tmp = Some pol4" by blast
    then have r: "ewma_notify_xmit_cells ops g (Some pd) (circ (?q ! 0)) (Some cd) n = Some (g1, Some pol4, Some cd)"
      using x(3) by simp
    from ewma.xmit_ok [OF ok act r] have "ewma_active pol4 = ewma_active pd" by auto
    moreover from xmit_heap [OF scale ok h n id r] have "smartlist_pqueue_assert_ok compare_cell_ewma_counts heap_index (active_circuit_pqueue pol4)"
      by (simp add: ewmaq.assert_ok_iff)
    ultimately show ?thesis using r by blast
  qed
qed

definition pd_demo :: "int ewma_policy_data_t" where
  "pd_demo = \<lparr>active_circuit_pqueue =
     [\<lparr>last_adjusted_tick = 5, ewma_cell_count = 3, is_for_p_chan = False, heap_index = 0, circ = 1\<rparr>,
      \<lparr>last_adjusted_tick = 5, ewma_cell_count = 4, is_for_p_chan = True, heap_index = 1, circ = 2\<rparr>], last_recalibrated = 5\<rparr>"

theorem ewma_quietest_first_witness:
  "\<exists>e \<in> set (active_circuit_pqueue pd_demo). ewma_pick_active_circuit (Some pd_demo) = Some (Some (circ e)) \<and> ewma_cell_count e \<le> 4"
proof -
  have h: "smartlist_pqueue_assert_ok compare_cell_ewma_counts heap_index (active_circuit_pqueue pd_demo)" by code_simp
  then have i: "ewmaq.indexed (active_circuit_pqueue pd_demo)" by (simp add: ewmaq.assert_ok_iff)
  have ok: "ewma_pd_ok pd_demo" using i by (simp add: ewma_pd_ok_def pd_demo_def ewma_ident_def)
  have "active_circuit_pqueue pd_demo \<noteq> []" by (simp add: pd_demo_def)
  from ewma_quietest_first [of int_ops ewma_demo, OF _ ok h this] obtain e where
    "e \<in> set (active_circuit_pqueue pd_demo)" "ewma_pick_active_circuit (Some pd_demo) = Some (Some (circ e))"
    "\<forall>e' \<in> set (active_circuit_pqueue pd_demo). ewma_cell_count e \<le> ewma_cell_count e'"
    by (auto simp: int_ops_def)
  then show ?thesis by (intro bexI [of _ e]) (auto simp: pd_demo_def)
qed

text \<open>
  C29. The two readings of the clock agree but for an instant. While no time runs backwards, the tick
  that \<open>cell_ewma_get_tick\<close> reads is the one that
  \<open>cell_ewma_get_current_tick_and_fraction\<close> returns, except when exactly one tick has passed,
  where the first is one ahead: one compares with \<open>>\<close>, the other divides.
\<close>

theorem ewma_ticks_agree:
  assumes init: "ewma_ticks_initialized g" and len: "1 \<le> ewma_tick_len g" "ewma_tick_len g \<le> 600"
    and diff: "0 \<le> monotime_coarse_diff_msec32 (start_of_current_tick g) (clock g)"
  shows "cell_ewma_get_tick g = fst (cell_ewma_get_current_tick_and_fraction ops g) +
    (if monotime_coarse_diff_msec32 (start_of_current_tick g) (clock g) = 1000 * ewma_tick_len g then 1 else 0)"
proof -
  let ?d = "monotime_coarse_diff_msec32 (start_of_current_tick g) (clock g)" and ?l = "1000 * ewma_tick_len g"
  have l: "0 < ?l" using len by simp
  have q: "?d sdiv ?l = ?d div ?l" using diff l by (cases "?d = 0") (simp_all add: signed_divide_int_def sgn_if)
  consider "?d < ?l" | "?d = ?l" | "?d > ?l" by linarith
  then show ?thesis
  proof cases
    case 1
    then have "?d div ?l = 0" using diff by simp
    then show ?thesis using 1 q init by (simp add: cell_ewma_get_tick_def cell_ewma_get_current_tick_and_fraction_def Let_def)
  next
    case 2
    then have "?d div ?l = 1" using l by simp
    then show ?thesis using 2 q init by (simp add: cell_ewma_get_tick_def cell_ewma_get_current_tick_and_fraction_def Let_def)
  next
    case 3
    then show ?thesis using init by (simp add: cell_ewma_get_tick_def cell_ewma_get_current_tick_and_fraction_def Let_def)
  qed
qed

theorem ewma_ticks_agree_witness:
  "cell_ewma_get_tick (ewma_demo\<lparr>clock := 10000000000\<rparr>) =
     fst (cell_ewma_get_current_tick_and_fraction int_ops (ewma_demo\<lparr>clock := 10000000000\<rparr>)) + 1"
  using ewma_ticks_agree [of "ewma_demo\<lparr>clock := 10000000000\<rparr>" int_ops]
  by (simp add: ewma_demo_def monotime_coarse_diff_msec32_def signed_divide_int_def)

end
