(* ===== verification/Conflux_Link.thy ===== *)
theory Conflux_Link
  imports Conflux
begin

text \<open>
  The two ends of a conflux set and the circuits between them. A circuit is a reliable channel
  that keeps the order; the legs interleave freely. The steps are those of the programs at the two
  ends (\<open>relay_send_conflux\<close>, \<open>conflux_update_rtt\<close>,
  \<open>conflux_process_switch_command\<close>, \<open>relay_recv_conflux\<close>); which circuits are
  blocked, full or fast, and the parameters, may change at every step. Both ends name a leg by the
  same name.

  The property: the receiver processes the cells in the order in which the sender sent them, each
  once, and nothing is left behind when the circuits are empty.
\<close>

section \<open>The link\<close>

datatype 'c wire_cell = SWITCH bytes | CELL 'c

record 'c conflux_link =
  sender :: "'c conflux_t"
  receiver :: "'c conflux_t"
  receiver_bytes :: u64
  wire :: "circuit_name \<Rightarrow> 'c wire_cell list"
  sent :: "'c list"
  delivered :: "'c list"
  closed :: bool

definition put_wire :: "circuit_name \<Rightarrow> 'c wire_cell list \<Rightarrow> (circuit_name \<Rightarrow> 'c wire_cell list) \<Rightarrow> circuit_name \<Rightarrow> 'c wire_cell list" where
  "put_wire c cells w = w(c := w c @ cells)"

definition put_switch :: "(circuit_name \<times> bytes) option \<Rightarrow> (circuit_name \<Rightarrow> 'c wire_cell list) \<Rightarrow> circuit_name \<Rightarrow> 'c wire_cell list" where
  "put_switch switch w = (case switch of None \<Rightarrow> w | Some (c, payload) \<Rightarrow> put_wire c [SWITCH payload] w)"

text \<open>A multiplexed cell is sent (DATA only when a circuit can send, as the callers check with
  \<open>conflux_can_send\<close> or the package window), or decided about and then dropped; a new RTT is
  measured; the first cell of a circuit arrives, from the last hop.\<close>

inductive conflux_step :: "'c conflux_link \<Rightarrow> 'c conflux_link \<Rightarrow> bool" where
  send: "conflux_should_multiplex cmd \<Longrightarrow>
    (cmd = RELAY_COMMAND_DATA \<Longrightarrow> \<exists>r. conflux_can_send p circs (sender st) = Some (True, r)) \<Longrightarrow>
    relay_send_conflux p circs (sender st) orig lay cmd queued = Some (c, layer, switch, s') \<Longrightarrow>
    Suc (length (sent st)) < 2 ^ 64 \<Longrightarrow>
    conflux_step st (st\<lparr>sender := s',
      wire := put_wire c (if queued then [CELL x] else []) (put_switch switch (wire st)),
      sent := sent st @ (if queued then [x] else [])\<rparr>)"
| rtt: "conflux_step st (st\<lparr>sender := conflux_update_rtt (sender st) c usec\<rparr>)"
| recv_switch: "wire st c = SWITCH payload # cells \<Longrightarrow>
    conflux_is_enabled g p (Some (circs c)) = Some True \<Longrightarrow>
    conflux_validate_source_hop (circs c) layer \<Longrightarrow>
    conflux_process_switch_command g p circs (Some (receiver st)) c layer payload (nat RELAY_PAYLOAD_SIZE)
      = Some (ret, close, Some r') \<Longrightarrow>
    conflux_step st (st\<lparr>receiver := r', wire := (wire st)(c := cells), closed := closed st \<or> close \<noteq> None\<rparr>)"
| recv_cell: "wire st c = CELL x # cells \<Longrightarrow>
    conflux_validate_source_hop (circs c) layer \<Longrightarrow>
    relay_recv_conflux circs (receiver st) (receiver_bytes st) c layer x = Some (cs, close, b', r') \<Longrightarrow>
    conflux_step st (st\<lparr>receiver := r', receiver_bytes := b', wire := (wire st)(c := cells),
      delivered := delivered st @ cs, closed := closed st \<or> close \<noteq> None\<rparr>)"

inductive_cases conflux_stepE: "conflux_step st st'"

text \<open>A set just linked: the legs of both ends, with no cell counted.\<close>

definition fresh_set :: "conflux_alg_t \<Rightarrow> (circuit_name \<times> u64) list \<Rightarrow> 'c conflux_t" where
  "fresh_set a circs = \<lparr>params_alg = a,
     legs = map (\<lambda>(c, rtt). \<lparr>last_seq_recv = 0, last_seq_sent = 0, circ_rtts_usec = rtt, linked_sent_usec = 0, leg_circ = c\<rparr>) circs,
     ooo_q = [], last_seq_delivered = 0, cells_until_switch = 0, curr_leg = None, prev_leg = None,
     set_nonce = [], in_full_teardown = False\<rparr>"

definition fresh_link :: "conflux_alg_t \<Rightarrow> (circuit_name \<times> u64) list \<Rightarrow> 'c conflux_link" where
  "fresh_link a circs = \<lparr>sender = fresh_set a circs, receiver = fresh_set a circs, receiver_bytes = 0,
     wire = (\<lambda>_. []), sent = [], delivered = [], closed = False\<rparr>"

inductive reachable :: "conflux_alg_t \<Rightarrow> (circuit_name \<times> u64) list \<Rightarrow> 'c conflux_link \<Rightarrow> bool" for a circs where
  start: "reachable a circs (fresh_link a circs)"
| step: "reachable a circs st \<Longrightarrow> conflux_step st st' \<Longrightarrow> reachable a circs st'"

section \<open>The invariant\<close>

text \<open>The sequence numbers the receiver will give to the cells of a circuit.\<close>

fun numbered :: "u64 \<Rightarrow> 'c wire_cell list \<Rightarrow> (u64 \<times> 'c) list" where
  "numbered n [] = []"
| "numbered n (SWITCH payload # ws) = numbered (n + switch_amount payload) ws"
| "numbered n (CELL x # ws) = (n + 1, x) # numbered (n + 1) ws"

fun wire_end :: "u64 \<Rightarrow> 'c wire_cell list \<Rightarrow> u64" where
  "wire_end n [] = n"
| "wire_end n (SWITCH payload # ws) = wire_end (n + switch_amount payload) ws"
| "wire_end n (CELL x # ws) = wire_end (n + 1) ws"

lemma wire_append [simp]:
  "numbered n (ws @ us) = numbered n ws @ numbered (wire_end n ws) us"
  "wire_end n (ws @ us) = wire_end (wire_end n ws) us"
  by (induction n ws rule: numbered.induct) simp_all

definition recv_at :: "'c conflux_t \<Rightarrow> circuit_name \<Rightarrow> u64" where
  "recv_at r c = last_seq_recv (the (conflux_get_leg r c))"

definition sent_at :: "'c conflux_t \<Rightarrow> circuit_name \<Rightarrow> u64" where
  "sent_at s c = last_seq_sent (the (conflux_get_leg s c))"

definition names :: "'c conflux_t \<Rightarrow> circuit_name set" where
  "names cfx = leg_circ ` set (legs cfx)"

definition on_wires :: "'c conflux_t \<Rightarrow> (circuit_name \<Rightarrow> 'c wire_cell list) \<Rightarrow> (u64 \<times> 'c) multiset" where
  "on_wires r w = (\<Sum>c \<in> names r. mset (numbered (recv_at r c) (w c)))"

definition link_ok :: "'c conflux_link \<Rightarrow> bool" where
  "link_ok st \<longleftrightarrow> names (receiver st) = names (sender st) \<and> sending (sender st) (length (sent st)) \<and>
     (\<forall>c. wire st c \<noteq> [] \<longrightarrow> c \<in> names (sender st)) \<and>
     (\<forall>c \<in> names (sender st). wire_end (recv_at (receiver st) c) (wire st c) = sent_at (sender st) c) \<and>
     reordering (sent st) (on_wires (receiver st) (wire st)) (receiver st) (receiver_bytes st) (length (delivered st)) \<and>
     drained (receiver st) \<and> delivered st = take (length (delivered st)) (sent st) \<and> \<not> closed st"

lemma names_iff: "c \<in> names cfx \<longleftrightarrow> (\<exists>l. conflux_get_leg cfx c = Some l)"
  using get_leg_some [of c cfx] by (auto simp: names_def)

lemma names_cong: "map leg_circ (legs cfx) = map leg_circ (legs cfx') \<Longrightarrow> names cfx = names cfx'"
  by (metis names_def set_map)

lemma finite_names [simp]: "finite (names cfx)"
  by (simp add: names_def)

text \<open>A sum in which one summand changes.\<close>

lemma sum_one:
  fixes f g :: "'a \<Rightarrow> 'b multiset"
  assumes "finite A" and "c \<in> A" and "\<And>x. x \<in> A \<Longrightarrow> x \<noteq> c \<Longrightarrow> f x = g x"
  obtains R where "sum f A = f c + R" "sum g A = g c + R"
proof -
  have "sum f (A - {c}) = sum g (A - {c})" by (rule sum.cong) (use assms in auto)
  then show ?thesis
    using that [of "sum g (A - {c})"] sum.remove [OF assms(1,2), of f] sum.remove [OF assms(1,2), of g] by simp
qed

lemma link_okI:
  assumes "names (receiver st) = names (sender st)" and "sending (sender st) (length (sent st))"
    and "\<And>c. wire st c \<noteq> [] \<Longrightarrow> c \<in> names (sender st)"
    and "\<And>c. c \<in> names (sender st) \<Longrightarrow> wire_end (recv_at (receiver st) c) (wire st c) = sent_at (sender st) c"
    and "reordering (sent st) (on_wires (receiver st) (wire st)) (receiver st) (receiver_bytes st) (length (delivered st))"
    and "drained (receiver st)" and "delivered st = take (length (delivered st)) (sent st)" and "\<not> closed st"
  shows "link_ok st"
  using assms unfolding link_ok_def by blast

lemma link_send:
  assumes ok: "link_ok st"
    and m: "conflux_should_multiplex cmd"
    and can: "cmd = RELAY_COMMAND_DATA \<Longrightarrow> \<exists>r. conflux_can_send p circs (sender st) = Some (True, r)"
    and r: "relay_send_conflux p circs (sender st) orig lay cmd queued = Some (c, layer, switch, s')"
    and len: "Suc (length (sent st)) < 2 ^ 64"
  shows "link_ok (st\<lparr>sender := s',
      wire := put_wire c (if queued then [CELL x] else []) (put_switch switch (wire st)),
      sent := sent st @ (if queued then [x] else [])\<rparr>)"
proof -
  let ?n = "length (sent st)" and ?cs = "if queued then [CELL x] else []" and ?xs = "if queued then [x] else []"
  let ?w = "put_wire c ?cs (put_switch switch (wire st))"
  have s: "sending (sender st) ?n" and nm: "names (receiver st) = names (sender st)"
    using ok by (simp_all add: link_ok_def)
  from relay_send_sending [OF r m s can] obtain l k where
    s': "sending s' (length (sent st @ ?xs))" "names s' = names (sender st)"
    and l: "conflux_get_leg (sender st) c = Some l" "announced c switch k" "last_seq_sent l + k = of_nat ?n"
      "conflux_get_leg s' = (conflux_get_leg (sender st))(c \<mapsto> set_sent (of_nat (if queued then Suc ?n else ?n)) l)"
    using names_cong [of s' "sender st"] by (auto split: if_splits)
  have c: "c \<in> names (sender st)" using l(1) by (simp add: names_iff)
  then have e: "wire_end (recv_at (receiver st) c) (wire st c) = last_seq_sent l"
    using ok l(1) by (simp add: link_ok_def sent_at_def)
  define sw :: "'a wire_cell list" where "sw = (case switch of None \<Rightarrow> [] | Some (_, payload) \<Rightarrow> [SWITCH payload])"
  have w: "?w = (wire st)(c := wire st c @ sw @ ?cs)"
    using l(2) by (auto simp: announced_def put_switch_def put_wire_def sw_def split: option.splits)
  have sw: "wire_end n sw = n + k" "numbered n sw = []" for n
    using l(2) by (auto simp: announced_def sw_def split: option.splits)
  have we: "wire_end (recv_at (receiver st) c) (?w c) = sent_at s' c"
    using l(3) by (simp add: w e sw sent_at_def l(4) add.commute)
  have nw: "numbered (recv_at (receiver st) c) (?w c)
      = numbered (recv_at (receiver st) c) (wire st c) @ (if queued then [(of_nat (Suc ?n), x)] else [])"
    using l(3) by (simp add: w e sw add.commute)
  obtain R where R: "on_wires (receiver st) (wire st) = mset (numbered (recv_at (receiver st) c) (wire st c)) + R"
      "on_wires (receiver st) ?w = mset (numbered (recv_at (receiver st) c) (?w c)) + R"
    unfolding on_wires_def
    by (rule sum_one [of "names (receiver st)" c "\<lambda>c. mset (numbered (recv_at (receiver st) c) (wire st c))"
          "\<lambda>c. mset (numbered (recv_at (receiver st) c) (?w c))"]) (use c nm in \<open>auto simp: w\<close>)
  have "on_wires (receiver st) ?w = (if queued then {#(of_nat (Suc ?n), x)#} else {#}) + on_wires (receiver st) (wire st)"
    by (auto simp: R nw)
  then have "reordering (sent st @ ?xs) (on_wires (receiver st) ?w) (receiver st) (receiver_bytes st) (length (delivered st))"
    using ok len by (auto simp: link_ok_def reordering_def pending_pairs_append)
  moreover have "wire_end (recv_at (receiver st) d) (?w d) = sent_at s' d" if "d \<in> names s'" for d
  proof (cases "d = c")
    case False
    then show ?thesis using ok that s'(2) by (simp add: link_ok_def w sent_at_def l(4))
  qed (simp add: we)
  moreover have "\<forall>d. ?w d \<noteq> [] \<longrightarrow> d \<in> names s'"
    using c ok s'(2) by (auto simp: link_ok_def w)
  moreover have "delivered st = take (length (delivered st)) (sent st @ ?xs)"
    using ok by (auto simp: link_ok_def reordering_def)
  ultimately show ?thesis
    using ok s' by (auto simp: link_ok_def)
qed

lemma link_rtt:
  assumes "link_ok st"
  shows "link_ok (st\<lparr>sender := conflux_update_rtt (sender st) c usec\<rparr>)"
proof -
  let ?s = "conflux_update_rtt (sender st) c usec"
  have g: "conflux_get_leg ?s d = (if d = c then map_option (\<lambda>leg. leg\<lparr>circ_rtts_usec := usec\<rparr>) (conflux_get_leg (sender st) c)
      else conflux_get_leg (sender st) d)" for d
    by (simp add: conflux_update_rtt_def get_set_leg)
  have nm: "map leg_circ (legs ?s) = map leg_circ (legs (sender st))"
    by (simp add: conflux_update_rtt_def names_set_leg)
  have all: "(\<forall>l \<in> set (legs ?s). last_seq_sent l = 0) \<longleftrightarrow> (\<forall>l \<in> set (legs (sender st)). last_seq_sent l = 0)"
  proof -
    have "last_seq_sent ` set (update_leg c (\<lambda>leg. leg\<lparr>circ_rtts_usec := usec\<rparr>) ls) = last_seq_sent ` set ls" for ls
      by (induction ls) auto
    then have "last_seq_sent ` set (legs ?s) = last_seq_sent ` set (legs (sender st))"
      by (simp add: conflux_update_rtt_def conflux_set_leg_def)
    moreover have "(\<forall>l \<in> A. last_seq_sent l = 0) \<longleftrightarrow> last_seq_sent ` A \<subseteq> {0}" for A :: "conflux_leg_t set" by auto
    ultimately show ?thesis by metis
  qed
  have "legs ?s = [] \<longleftrightarrow> legs (sender st) = []" using nm by (metis map_is_Nil_conv)
  then have fr: "curr_leg ?s = curr_leg (sender st)" "in_full_teardown ?s = in_full_teardown (sender st)"
      "legs ?s = [] \<longleftrightarrow> legs (sender st) = []"
    by (simp_all add: conflux_update_rtt_def)
  have "sending (sender st) (length (sent st))" using assms by (simp add: link_ok_def)
  then have "sending ?s (length (sent st))"
    unfolding sending_def fr all by (cases "curr_leg (sender st)") (auto simp: g)
  moreover have "sent_at ?s d = sent_at (sender st) d" if "d \<in> names (sender st)" for d
    using that by (auto simp: sent_at_def g names_iff)
  ultimately show ?thesis
    using assms names_cong [OF nm] by (simp add: link_ok_def)
qed

lemma link_recv_switch:
  assumes ok: "link_ok st" and w: "wire st c = SWITCH payload # cells"
    and en: "conflux_is_enabled g p (Some (circs c)) = Some True"
    and val: "conflux_validate_source_hop (circs c) layer"
    and proc: "conflux_process_switch_command g p circs (Some (receiver st)) c layer payload (nat RELAY_PAYLOAD_SIZE)
      = Some (ret, close, Some r')"
  shows "link_ok (st\<lparr>receiver := r', wire := (wire st)(c := cells), closed := closed st \<or> close \<noteq> None\<rparr>)"
proof -
  let ?f = "\<lambda>leg. leg\<lparr>last_seq_recv := last_seq_recv leg + switch_amount payload\<rparr>"
  have c: "c \<in> names (sender st)" and nm: "names (receiver st) = names (sender st)"
    using ok w by (auto simp: link_ok_def)
  then obtain l where l: "conflux_get_leg (receiver st) c = Some l" by (metis names_iff)
  then have r': "r' = conflux_set_leg c ?f (receiver st)" "close = None"
    using proc en val by (simp_all add: conflux_process_switch_command_def switch_amount_def)
  have g: "conflux_get_leg r' d = (if d = c then Some (?f l) else conflux_get_leg (receiver st) d)" for d
    using l by (simp add: r'(1) get_set_leg)
  have at: "recv_at r' d = (if d = c then recv_at (receiver st) c + switch_amount payload else recv_at (receiver st) d)" for d
    using l by (simp add: recv_at_def g)
  have nm': "names r' = names (receiver st)"
    by (rule names_cong) (simp add: r'(1) names_set_leg)
  have "on_wires r' ((wire st)(c := cells)) = on_wires (receiver st) (wire st)"
    unfolding on_wires_def nm' by (rule sum.cong) (auto simp: at w)
  moreover have we: "wire_end (recv_at r' d) (((wire st)(c := cells)) d) = sent_at (sender st) d" if "d \<in> names (sender st)" for d
  proof -
    have "wire_end (recv_at (receiver st) d) (wire st d) = sent_at (sender st) d"
      using ok that by (simp add: link_ok_def)
    then show ?thesis by (auto simp: at w)
  qed
  moreover have "ooo_q r' = ooo_q (receiver st)" "last_seq_delivered r' = last_seq_delivered (receiver st)"
    by (simp_all add: r'(1))
  moreover from this(1) have "queue_pairs r' = queue_pairs (receiver st)" by (rule queue_pairs_cong)
  moreover have "reordering (sent st) (on_wires (receiver st) (wire st)) (receiver st) (receiver_bytes st) (length (delivered st))"
      "drained (receiver st)"
    using ok unfolding link_ok_def by blast+
  ultimately have q: "reordering (sent st) (on_wires r' ((wire st)(c := cells))) r' (receiver_bytes st) (length (delivered st))"
      "drained r'"
    by (simp_all only: reordering_def queue_ok_def drained_def)
  show ?thesis
    by (rule link_okI) (use ok we q nm nm' r'(2) c in \<open>simp_all add: link_ok_def split: if_splits\<close>)
qed

lemma link_recv_cell:
  assumes ok: "link_ok st" and w: "wire st c = CELL x # cells"
    and val: "conflux_validate_source_hop (circs c) layer"
    and recv: "relay_recv_conflux circs (receiver st) (receiver_bytes st) c layer x = Some (cs, close, b', r')"
  shows "link_ok (st\<lparr>receiver := r', receiver_bytes := b', wire := (wire st)(c := cells),
      delivered := delivered st @ cs, closed := closed st \<or> close \<noteq> None\<rparr>)"
proof -
  let ?f = "\<lambda>leg. leg\<lparr>last_seq_recv := last_seq_recv leg + 1\<rparr>" and ?d = "length (delivered st)"
  have c: "c \<in> names (sender st)" and nm: "names (receiver st) = names (sender st)"
    using ok w by (auto simp: link_ok_def)
  then obtain l where l: "conflux_get_leg (receiver st) c = Some l" by (metis names_iff)
  obtain R where R: "on_wires (receiver st) (wire st) = mset (numbered (recv_at (receiver st) c) (wire st c)) + R"
      "on_wires (receiver st) ((wire st)(c := cells))
        = mset (numbered (recv_at (receiver st) c) cells) + R"
    unfolding on_wires_def
    by (rule sum_one [of "names (receiver st)" c "\<lambda>c. mset (numbered (recv_at (receiver st) c) (wire st c))"
          "\<lambda>d. mset (numbered (recv_at (receiver st) d) (((wire st)(c := cells)) d))"]) (use c nm in auto)
  have "reordering (sent st) (add_mset (last_seq_recv l + 1, x) (mset (numbered (last_seq_recv l + 1) cells) + R))
      (receiver st) (receiver_bytes st) ?d"
    using ok R(1) l by (simp add: link_ok_def w recv_at_def)
  from relay_recv_reordering [OF this _ l val recv] ok
  have q: "close = None" "cs = take (length cs) (drop ?d (sent st))"
      "reordering (sent st) (mset (numbered (last_seq_recv l + 1) cells) + R) r' b' (?d + length cs)" "drained r'"
      "legs r' = legs (conflux_set_leg c ?f (receiver st))"
    by (auto simp: link_ok_def)
  have g: "conflux_get_leg r' d = (if d = c then Some (?f l) else conflux_get_leg (receiver st) d)" for d
    using l by (simp add: get_leg_cong [OF q(5)] get_set_leg)
  have at: "recv_at r' d = (if d = c then last_seq_recv l + 1 else recv_at (receiver st) d)" for d
    by (simp add: recv_at_def g)
  have nm': "names r' = names (receiver st)"
    by (rule names_cong) (simp add: q(5) names_set_leg)
  obtain R' where R': "on_wires (receiver st) ((wire st)(c := cells)) = mset (numbered (recv_at (receiver st) c) cells) + R'"
      "on_wires r' ((wire st)(c := cells)) = mset (numbered (last_seq_recv l + 1) cells) + R'"
    unfolding on_wires_def nm'
    by (rule sum_one [of "names (receiver st)" c "\<lambda>d. mset (numbered (recv_at (receiver st) d) (((wire st)(c := cells)) d))"
          "\<lambda>d. mset (numbered (recv_at r' d) (((wire st)(c := cells)) d))"]) (use c nm in \<open>auto simp: at\<close>)
  have "R' = R" using R(2) R'(1) by simp
  then have re: "reordering (sent st) (on_wires r' ((wire st)(c := cells))) r' b' (?d + length cs)"
    using q(3) R'(2) by simp
  have de: "delivered st @ cs = take (?d + length cs) (sent st)"
  proof -
    have "delivered st = take ?d (sent st)" using ok by (simp add: link_ok_def)
    then show ?thesis using q(2) by (metis take_add)
  qed
  have we: "wire_end (recv_at r' d) (((wire st)(c := cells)) d) = sent_at (sender st) d" if "d \<in> names (sender st)" for d
  proof -
    have "wire_end (recv_at (receiver st) d) (wire st d) = sent_at (sender st) d"
      using ok that by (simp add: link_ok_def)
    moreover have "recv_at (receiver st) c = last_seq_recv l" by (simp add: recv_at_def l)
    ultimately show ?thesis by (auto simp: at w)
  qed
  show ?thesis
  proof (rule link_okI, goal_cases)
    case 7
    then show ?case by simp (rule de)
  qed (use ok we re q(1,4) nm nm' c in \<open>simp_all add: link_ok_def split: if_splits\<close>)
qed

lemma link_start:
  assumes "circs \<noteq> []"
  shows "link_ok (fresh_link a circs :: 'c conflux_link)"
proof -
  define s :: "'c conflux_t" where "s = fresh_set a circs"
  have r: "recv_at s c = sent_at s c" if "c \<in> names s" for c
  proof -
    have "\<exists>l. conflux_get_leg s c = Some l" using that by (simp add: names_iff)
    then obtain l where l: "conflux_get_leg s c = Some l" ..
    then have "l \<in> set (legs s)" by (simp add: get_leg_circ)
    then show ?thesis using l by (auto simp: recv_at_def sent_at_def s_def fresh_set_def)
  qed
  have "on_wires s (\<lambda>_. []) = {#}" by (simp add: on_wires_def)
  moreover have "sending s 0" using assms by (auto simp: sending_def s_def fresh_set_def)
  moreover have "reordering [] {#} s 0 0"
    by (simp add: reordering_def queue_ok_def pending_pairs_def queue_pairs_def s_def fresh_set_def smartlist_pqueue_assert_ok_def)
  moreover have "drained s" by (simp add: drained_def s_def fresh_set_def)
  ultimately show ?thesis
    using r by (simp add: link_ok_def fresh_link_def s_def)
qed

lemma link_step: "conflux_step st st' \<Longrightarrow> link_ok st \<Longrightarrow> link_ok st'"
  by (induction rule: conflux_step.induct)
    (rule link_send link_rtt link_recv_switch link_recv_cell; assumption)+

section \<open>Running the link\<close>

text \<open>The steps as an executable function of the next action, with fixed parameters and circuits
  that belong to an exit.\<close>

datatype 'c link_action = Send nat 'c | Rtt circuit_name u64 | Receive circuit_name

fun link_act :: "cc_globals \<Rightarrow> cfx_params \<Rightarrow> circuits \<Rightarrow> 'c conflux_link \<Rightarrow> 'c link_action \<Rightarrow> 'c conflux_link option" where
  "link_act g p circs st (Send cmd x) =
     (if \<not> conflux_should_multiplex cmd \<or> \<not> int (length (sent st)) + 1 < 2 ^ 64 then None
      else do {
        (can, _) \<leftarrow> conflux_can_send p circs (sender st);
        if \<not> can then None
        else do {
          (c, layer, switch, s') \<leftarrow> relay_send_conflux p circs (sender st) 0 None cmd True;
          Some (st\<lparr>sender := s', wire := put_wire c [CELL x] (put_switch switch (wire st)), sent := sent st @ [x]\<rparr>)
        }
      })"
| "link_act g p circs st (Rtt c usec) = Some (st\<lparr>sender := conflux_update_rtt (sender st) c usec\<rparr>)"
| "link_act g p circs st (Receive c) =
     (if \<not> conflux_validate_source_hop (circs c) None \<or> conflux_is_enabled g p (Some (circs c)) \<noteq> Some True then None
      else case wire st c of
             [] \<Rightarrow> None
           | SWITCH payload # cells \<Rightarrow>
               (case conflux_process_switch_command g p circs (Some (receiver st)) c None payload (nat RELAY_PAYLOAD_SIZE) of
                  Some (ret, close, Some r') \<Rightarrow>
                    Some (st\<lparr>receiver := r', wire := (wire st)(c := cells), closed := closed st \<or> close \<noteq> None\<rparr>)
                | _ \<Rightarrow> None)
           | CELL x # cells \<Rightarrow> do {
               (cs, close, b', r') \<leftarrow> relay_recv_conflux circs (receiver st) (receiver_bytes st) c None x;
               Some (st\<lparr>receiver := r', receiver_bytes := b', wire := (wire st)(c := cells),
                        delivered := delivered st @ cs, closed := closed st \<or> close \<noteq> None\<rparr>)
             })"

lemma link_act_step:
  assumes "link_act g p circs st a = Some st'"
  shows "conflux_step st st'"
proof (cases a)
  case (Send cmd x)
  then obtain r c layer switch s' where "conflux_should_multiplex cmd" "int (length (sent st)) + 1 < 2 ^ 64"
    "conflux_can_send p circs (sender st) = Some (True, r)"
    "relay_send_conflux p circs (sender st) 0 None cmd True = Some (c, layer, switch, s')"
    "st' = st\<lparr>sender := s', wire := put_wire c [CELL x] (put_switch switch (wire st)), sent := sent st @ [x]\<rparr>"
    using assms by (auto split: bind_splits if_splits)
  then show ?thesis
    using conflux_step.send [of cmd p circs st 0 None True c layer switch s' x] by force
next
  case (Rtt c usec)
  then show ?thesis using assms conflux_step.rtt by auto
next
  case (Receive c)
  then show ?thesis
    using assms by (auto split: bind_splits if_splits list.splits wire_cell.splits option.splits
        intro!: conflux_step.recv_switch conflux_step.recv_cell simp del: not_None_eq)
qed

lemma run_reachable:
  "run (link_act g p circs) st acts = Some st' \<Longrightarrow> reachable a ls st \<Longrightarrow> reachable a ls st'"
  by (induction rule: run_induct) (auto intro: reachable.step link_act_step)

lemma reachable_ok: "reachable a circs st \<Longrightarrow> circs \<noteq> [] \<Longrightarrow> link_ok st"
  by (induction rule: reachable.induct) (auto intro: link_step link_start)

section \<open>Properties\<close>

text \<open>
  C15. A conflux set delivers in order, without loss or repetition. Whatever the legs' speeds, the
  congestion on them, the choices of the sender and the interleaving of the legs, in every reachable
  state the cells the receiver processed are exactly the first cells the sender sent, in order;
  no circuit was closed because of a sequence number; the counter of queued bytes is exact; and when the
  circuits have nothing left in transit, everything was processed and the queue is empty.
\<close>

theorem conflux_in_order:
  assumes "reachable a circs st" and "circs \<noteq> []"
  shows "delivered st = take (length (delivered st)) (sent st) \<and> \<not> closed st \<and>
    receiver_bytes st = SIZEOF_CELL * of_nat (length (ooo_q (receiver st))) \<and>
    (list_all (\<lambda>leg. wire st (leg_circ leg) = []) (legs (sender st)) \<longrightarrow>
      delivered st = sent st \<and> ooo_q (receiver st) = [])"
proof -
  have ok: "link_ok st" by (rule reachable_ok [OF assms])
  have re: "reordering (sent st) (on_wires (receiver st) (wire st)) (receiver st) (receiver_bytes st) (length (delivered st))"
    and dr: "drained (receiver st)" and dl: "delivered st = take (length (delivered st)) (sent st)"
    using ok unfolding link_ok_def by blast+
  have "delivered st = sent st \<and> ooo_q (receiver st) = []" if "list_all (\<lambda>leg. wire st (leg_circ leg) = []) (legs (sender st))"
  proof -
    let ?d = "length (delivered st)"
    have e: "\<forall>c. wire st c = []"
      using that ok by (fastforce simp: link_ok_def names_def list_all_iff)
    have p: "queue_pairs (receiver st) = pending_pairs (sent st) ?d" and le: "?d \<le> length (sent st)"
      using re e by (simp_all add: reordering_def on_wires_def)
    have "\<not> ?d < length (sent st)"
    proof
      assume "?d < length (sent st)"
      then have "(of_nat (Suc ?d), sent st ! ?d) \<in># queue_pairs (receiver st)"
        by (simp only: p pending_pairs_next) simp
      then show False using reordering_drained [OF re] dr by (auto simp: add.commute)
    qed
    then have "?d = length (sent st)" using le by simp
    then show ?thesis using dl p by (simp add: pending_pairs_def queue_pairs_def)
  qed
  then show ?thesis
    using ok re dl by (simp add: link_ok_def reordering_def queue_ok_def)
qed

text \<open>The second cell travels on the second leg, which became faster, and arrives first.\<close>

theorem conflux_in_order_witness:
  "\<exists>st. reachable CONFLUX_ALG_MINRTT [(1, 100), (2, 200)] st \<and> sent st = [5, 6 :: nat] \<and>
    delivered st = sent st \<and> ooo_q (receiver st) = []"
proof -
  let ?r = "run (link_act (cc_globals_init False False) (conflux_params_init (-1)) (\<lambda>_. example_exit_circ))
    (fresh_link CONFLUX_ALG_MINRTT [(1, 100), (2, 200)])
    [Send RELAY_COMMAND_BEGIN (5 :: nat), Rtt 1 300, Send RELAY_COMMAND_DATA 6, Receive 2, Receive 2, Receive 1]"
  have e: "map_option (\<lambda>st. (sent st, wire st 1, wire st 2, map leg_circ (legs (sender st)))) ?r
      = Some ([5, 6], [], [], [1, 2])" by code_simp
  then obtain st where r: "?r = Some st" and s: "sent st = [5, 6]" "list_all (\<lambda>c. wire st c = []) (map leg_circ (legs (sender st)))"
    by (cases ?r) auto
  have re: "reachable CONFLUX_ALG_MINRTT [(1, 100), (2, 200)] st"
    by (rule run_reachable [OF r reachable.start])
  show ?thesis
    using re s conflux_in_order [OF re] by (auto simp: list.pred_map comp_def)
qed

end
