(* ===== verification/Sendme.thy ===== *)
theory Sendme
  imports Conflux
begin

text \<open>
  Circuit-level SENDMEs (\<open>src/core/or/sendme.c\<close>), with the dispatch to congestion control
  (\<open>congestion_control_dispatch_cc_alg\<close> in \<open>congestion_control_common.c\<close>): the
  windows, the digests that authenticate a SENDME, and the versions of the cell.

  The running digest of a cell is what the relay cryptography computes; it is an argument of the
  operations that record it. \<open>latest\<close> is the consensus. The current time and the result of
  \<open>relay_send_command_from_edge\<close> are arguments, the payloads it is asked to send are
  results. Negative results of C functions stay integers; \<open>None\<close> is an abort, or a loop that
  does not end.
\<close>

section \<open>The state at a hop\<close>

definition layer_deliver_window :: "circuit_t \<Rightarrow> layer_hint \<Rightarrow> int" where
  "layer_deliver_window circ layer =
     (case layer of Some i \<Rightarrow> cp_deliver_window (cpath circ ! i) | None \<Rightarrow> deliver_window circ)"

definition layer_sendme_digest :: "circuit_t \<Rightarrow> layer_hint \<Rightarrow> bytes" where
  "layer_sendme_digest circ layer =
     (case layer of Some i \<Rightarrow> cp_sendme_digest (cpath circ ! i) | None \<Rightarrow> or_sendme_digest circ)"

definition set_hop :: "nat \<Rightarrow> (crypt_path_t \<Rightarrow> crypt_path_t) \<Rightarrow> circuit_t \<Rightarrow> circuit_t" where
  "set_hop i f circ = circ\<lparr>cpath := (cpath circ)[i := f (cpath circ ! i)]\<rparr>"

definition set_layer_deliver_window :: "layer_hint \<Rightarrow> int \<Rightarrow> circuit_t \<Rightarrow> circuit_t" where
  "set_layer_deliver_window layer w circ =
     (case layer of Some i \<Rightarrow> set_hop i (\<lambda>h. h\<lparr>cp_deliver_window := w\<rparr>) circ | None \<Rightarrow> circ\<lparr>deliver_window := w\<rparr>)"

definition set_layer_package_window :: "layer_hint \<Rightarrow> int \<Rightarrow> circuit_t \<Rightarrow> circuit_t" where
  "set_layer_package_window layer w circ =
     (case layer of Some i \<Rightarrow> set_hop i (\<lambda>h. h\<lparr>cp_package_window := w\<rparr>) circ | None \<Rightarrow> circ\<lparr>package_window := w\<rparr>)"

definition set_layer_ccontrol :: "layer_hint \<Rightarrow> congestion_control_t \<Rightarrow> circuit_t \<Rightarrow> circuit_t" where
  "set_layer_ccontrol layer cc circ =
     (case layer of Some i \<Rightarrow> set_hop i (\<lambda>h. h\<lparr>cp_ccontrol := Some cc\<rparr>) circ | None \<Rightarrow> circ\<lparr>ccontrol := Some cc\<rparr>)"

definition set_layer_sendme_digest :: "layer_hint \<Rightarrow> bytes \<Rightarrow> circuit_t \<Rightarrow> circuit_t" where
  "set_layer_sendme_digest layer d circ =
     (case layer of Some i \<Rightarrow> set_hop i (\<lambda>h. h\<lparr>cp_sendme_digest := d\<rparr>) circ | None \<Rightarrow> circ\<lparr>or_sendme_digest := d\<rparr>)"

section \<open>Versions\<close>

abbreviation SENDME_MAX_SUPPORTED_VERSION :: int where "SENDME_MAX_SUPPORTED_VERSION \<equiv> 1"

definition get_emit_min_version :: "networkstatus option \<Rightarrow> int option" where
  "get_emit_min_version latest = networkstatus_get_param latest None ''sendme_emit_min_version'' 1 0 UINT8_MAX"

definition get_accept_min_version :: "networkstatus option \<Rightarrow> int option" where
  "get_accept_min_version latest = networkstatus_get_param latest None ''sendme_accept_min_version'' 0 0 UINT8_MAX"

definition cell_version_can_be_handled :: "networkstatus option \<Rightarrow> u8 \<Rightarrow> bool option" where
  "cell_version_can_be_handled latest cell_version = do {
     accept_version \<leftarrow> get_accept_min_version latest;
     Some (if accept_version > SENDME_MAX_SUPPORTED_VERSION then False
           else if uint cell_version < accept_version then False
           else if uint cell_version > SENDME_MAX_SUPPORTED_VERSION then False
           else True)
   }"

section \<open>Digests\<close>

definition pop_first_cell_digest :: "circuit_t \<Rightarrow> bytes option \<times> circuit_t" where
  "pop_first_cell_digest circ =
     (case sendme_last_digests circ of
        None \<Rightarrow> (None, circ)
      | Some [] \<Rightarrow> (None, circ)
      | Some (d # ds) \<Rightarrow> (Some d, circ\<lparr>sendme_last_digests := Some ds\<rparr>))"

definition v1_digest_matches :: "bytes \<Rightarrow> bytes \<Rightarrow> bool" where
  "v1_digest_matches circ_digest cell_digest \<longleftrightarrow>
     take TRUNNEL_SENDME_V1_DIGEST_LEN circ_digest = take TRUNNEL_SENDME_V1_DIGEST_LEN cell_digest"

definition cell_v1_is_valid :: "sendme_cell_t \<Rightarrow> bytes \<Rightarrow> bool" where
  "cell_v1_is_valid cell circ_digest = v1_digest_matches circ_digest (sm_v1_digest cell)"

abbreviation DIGEST_LEN :: nat where "DIGEST_LEN \<equiv> 20"

definition record_cell_digest_on_circ :: "circuit_t \<Rightarrow> bytes \<Rightarrow> circuit_t" where
  "record_cell_digest_on_circ circ digest =
     circ\<lparr>sendme_last_digests :=
       Some ((case sendme_last_digests circ of None \<Rightarrow> [] | Some ds \<Rightarrow> ds) @ [take DIGEST_LEN digest])\<rparr>"

text \<open>The C operator \<open>%\<close>; the increment is never negative, and a zero increment divides by
  zero.\<close>

definition circuit_sendme_cell_is_next :: "int \<Rightarrow> int \<Rightarrow> bool option" where
  "circuit_sendme_cell_is_next window sendme_increment =
     (if \<not> window \<le> CIRCWINDOW_START then None
      else if sendme_increment = 0 then None
      else Some ((CIRCWINDOW_START - (window - 1)) mod sendme_increment = 0))"

definition sendme_record_cell_digest_on_circ :: "circuit_t \<Rightarrow> layer_hint \<Rightarrow> circuit_t option" where
  "sendme_record_cell_digest_on_circ circ layer = do {
     last \<leftarrow> circuit_sent_cell_for_sendme circ layer;
     Some (if \<not> last then circ else record_cell_digest_on_circ circ (layer_sendme_digest circ layer))
   }"

definition sendme_record_received_cell_digest :: "circuit_t \<Rightarrow> layer_hint \<Rightarrow> bytes \<Rightarrow> circuit_t option" where
  "sendme_record_received_cell_digest circ layer running_digest = do {
     is_next \<leftarrow> circuit_sendme_cell_is_next (layer_deliver_window circ layer) (sendme_get_inc_count circ layer);
     Some (if \<not> is_next then circ else set_layer_sendme_digest layer running_digest circ)
   }"

definition sendme_record_sending_cell_digest :: "circuit_t \<Rightarrow> layer_hint \<Rightarrow> bytes \<Rightarrow> circuit_t option" where
  "sendme_record_sending_cell_digest circ layer running_digest = do {
     last \<leftarrow> circuit_sent_cell_for_sendme circ layer;
     Some (if \<not> last then circ else set_layer_sendme_digest layer running_digest circ)
   }"

section \<open>Building, validating\<close>

definition build_cell_payload_v1 :: "bytes \<Rightarrow> bytes option" where
  "build_cell_payload_v1 cell_digest =
     sendme_cell_encode (nat RELAY_PAYLOAD_SIZE)
       \<lparr>sm_version = 1, sm_data_len = of_nat TRUNNEL_SENDME_V1_DIGEST_LEN,
        sm_v1_digest = take TRUNNEL_SENDME_V1_DIGEST_LEN cell_digest\<rparr>"

text \<open>The answer, and the circuit after the first digest was taken from it.\<close>

definition sendme_is_valid :: "networkstatus option \<Rightarrow> circuit_t \<Rightarrow> bytes \<Rightarrow> (bool \<times> circuit_t) option" where
  "sendme_is_valid latest circ payload =
     (case (if length payload = 0 then Some (0, None)
            else map_option (\<lambda>(cell, _). (sm_version cell, Some cell)) (sendme_cell_parse payload)) of
        None \<Rightarrow> Some (False, circ)
      | Some (cell_version, cell) \<Rightarrow> do {
          can \<leftarrow> cell_version_can_be_handled latest cell_version;
          if \<not> can then Some (False, circ)
          else case pop_first_cell_digest circ of
                 (None, circ1) \<Rightarrow> Some (False, circ1)
               | (Some circ_digest, circ1) \<Rightarrow>
                   if cell_version = 1
                   then (case cell of None \<Rightarrow> None | Some cell \<Rightarrow> Some (cell_v1_is_valid cell circ_digest, circ1))
                   else Some (True, circ1)
        })"

section \<open>Sending\<close>

text \<open>The payload of the SENDME to send; \<open>Some None\<close> when it cannot be encoded.\<close>

definition send_circuit_level_sendme :: "networkstatus option \<Rightarrow> bytes \<Rightarrow> bytes option option" where
  "send_circuit_level_sendme latest cell_digest = do {
     emit \<leftarrow> get_emit_min_version latest;
     let emit_version = (word_of_int emit :: u8);
     Some (if emit_version = 1 then build_cell_payload_v1 cell_digest else Some [])
   }"

text \<open>\<open>send_ok\<close> says whether the cell could be sent. The result is the payloads in order and
  the circuit.\<close>

partial_function (option) consider_loop ::
    "networkstatus option \<Rightarrow> bool \<Rightarrow> int \<Rightarrow> layer_hint \<Rightarrow> bytes list \<Rightarrow> circuit_t \<Rightarrow> (bytes list \<times> circuit_t) option" where
  "consider_loop latest send_ok inc layer sent circ =
     (if \<not> layer_deliver_window circ layer \<le> CIRCWINDOW_START - inc then Some (sent, circ)
      else do {
        payload \<leftarrow> send_circuit_level_sendme latest (layer_sendme_digest circ layer);
        let circ1 = set_layer_deliver_window layer (layer_deliver_window circ layer + inc) circ;
        case payload of
          None \<Rightarrow> Some (sent, circ1)
        | Some p \<Rightarrow> if \<not> send_ok then Some (sent @ [p], circ1)
                    else consider_loop latest send_ok inc layer (sent @ [p]) circ1
      })"

declare consider_loop.simps [code]

definition sendme_circuit_consider_sending ::
    "networkstatus option \<Rightarrow> bool \<Rightarrow> circuit_t \<Rightarrow> layer_hint \<Rightarrow> (bytes list \<times> circuit_t) option" where
  "sendme_circuit_consider_sending latest send_ok circ layer =
     consider_loop latest send_ok (sendme_get_inc_count circ layer) layer [] circ"

section \<open>Receiving\<close>

abbreviation END_TORPROTOCOL :: int where "END_TORPROTOCOL \<equiv> 1"

text \<open>Congestion control: the algorithm, the ceiling of the window, the RTT of a conflux leg.\<close>

definition congestion_control_dispatch_cc_alg ::
    "cc_globals \<Rightarrow> congestion_control_t \<Rightarrow> circuit_t \<Rightarrow> circuit_name \<Rightarrow> 'c conflux_t option \<Rightarrow> u64
      \<Rightarrow> (int \<times> cc_globals \<times> congestion_control_t \<times> 'c conflux_t option) option" where
  "congestion_control_dispatch_cc_alg g cc circ name conflux now = do {
     (ret, g1, cc1) \<leftarrow> congestion_control_vegas_process_sendme g cc circ now;
     let cc2 = (if cwnd cc1 > ucast (cwnd_max g1) then cc1\<lparr>cwnd := ucast (cwnd_max g1)\<rparr> else cc1);
     Some (ret, g1, cc2,
           if ewma_rtt_usec cc2 \<noteq> 0 then map_option (\<lambda>cfx. conflux_update_rtt cfx name (ewma_rtt_usec cc2)) conflux
           else conflux)
   }"

definition sendme_process_circuit_level_impl :: "layer_hint \<Rightarrow> circuit_t \<Rightarrow> int \<times> circuit_t" where
  "sendme_process_circuit_level_impl layer circ =
     (if is_origin circ
      then case layer of
             None \<Rightarrow> (- END_TORPROTOCOL, circ)
           | Some i \<Rightarrow>
               if layer_package_window circ layer + CIRCWINDOW_INCREMENT > CIRCWINDOW_START_MAX then (- END_TORPROTOCOL, circ)
               else (0, set_layer_package_window layer (layer_package_window circ layer + CIRCWINDOW_INCREMENT) circ)
      else if package_window circ + CIRCWINDOW_INCREMENT > CIRCWINDOW_START_MAX then (- END_TORPROTOCOL, circ)
      else (0, circ\<lparr>package_window := package_window circ + CIRCWINDOW_INCREMENT\<rparr>))"

definition sendme_process_circuit_level ::
    "networkstatus option \<Rightarrow> cc_globals \<Rightarrow> layer_hint \<Rightarrow> circuit_t \<Rightarrow> bytes \<Rightarrow> circuit_name \<Rightarrow> 'c conflux_t option \<Rightarrow> u64
      \<Rightarrow> (int \<times> cc_globals \<times> circuit_t \<times> 'c conflux_t option) option" where
  "sendme_process_circuit_level latest g layer circ payload name conflux now = do {
     (valid, circ1) \<leftarrow> sendme_is_valid latest circ payload;
     if \<not> valid then Some (- END_TORPROTOCOL, g, circ1, conflux)
     else case layer_ccontrol circ1 layer of
            None \<Rightarrow> (let (ret, circ2) = sendme_process_circuit_level_impl layer circ1 in Some (ret, g, circ2, conflux))
          | Some cc \<Rightarrow> do {
              (ret, g1, cc1, conflux1) \<leftarrow> congestion_control_dispatch_cc_alg g cc circ1 name conflux now;
              Some (ret, g1, set_layer_ccontrol layer cc1 circ1, conflux1)
            }
   }"

section \<open>Data cells\<close>

definition sendme_circuit_data_received :: "circuit_t \<Rightarrow> layer_hint \<Rightarrow> (int \<times> circuit_t) option" where
  "sendme_circuit_data_received circ layer =
     (if is_origin circ \<noteq> (layer \<noteq> None) then None
      else let w = layer_deliver_window circ layer - 1
           in Some (w, set_layer_deliver_window layer w circ))"

definition sendme_note_circuit_data_packaged :: "circuit_t \<Rightarrow> layer_hint \<Rightarrow> u64 \<Rightarrow> (int \<times> circuit_t) option" where
  "sendme_note_circuit_data_packaged circ layer now = do {
     circ1 \<leftarrow>
       (case layer_ccontrol circ layer of
          Some cc \<Rightarrow> map_option (\<lambda>cc1. set_layer_ccontrol layer cc1 circ) (congestion_control_note_cell_sent cc circ layer now)
        | None \<Rightarrow>
            if is_origin circ \<noteq> (layer \<noteq> None) then None
            else Some (set_layer_package_window layer (layer_package_window circ layer - 1) circ));
     Some (congestion_control_get_package_window circ1 layer, circ1)
   }"

section \<open>Reading what was written\<close>

definition valid_layer :: "circuit_t \<Rightarrow> layer_hint \<Rightarrow> bool" where
  "valid_layer circ layer \<longleftrightarrow>
     (case layer of Some i \<Rightarrow> is_origin circ \<and> i < length (cpath circ) | None \<Rightarrow> \<not> is_origin circ)"

lemmas layer_getters = layer_ccontrol_def layer_package_window_def layer_deliver_window_def layer_sendme_digest_def
lemmas layer_setters = set_layer_deliver_window_def set_layer_package_window_def set_layer_ccontrol_def
  set_layer_sendme_digest_def set_hop_def

lemma layer_get_set [simp]:
  assumes "valid_layer circ layer"
  shows "layer_deliver_window (set_layer_deliver_window layer w circ) layer = w"
    and "layer_ccontrol (set_layer_deliver_window layer w circ) layer = layer_ccontrol circ layer"
    and "layer_package_window (set_layer_deliver_window layer w circ) layer = layer_package_window circ layer"
    and "layer_sendme_digest (set_layer_deliver_window layer w circ) layer = layer_sendme_digest circ layer"
    and "layer_deliver_window (set_layer_package_window layer w circ) layer = layer_deliver_window circ layer"
    and "layer_ccontrol (set_layer_package_window layer w circ) layer = layer_ccontrol circ layer"
    and "layer_package_window (set_layer_package_window layer w circ) layer = w"
    and "layer_sendme_digest (set_layer_package_window layer w circ) layer = layer_sendme_digest circ layer"
    and "layer_deliver_window (set_layer_ccontrol layer cc circ) layer = layer_deliver_window circ layer"
    and "layer_ccontrol (set_layer_ccontrol layer cc circ) layer = Some cc"
    and "layer_package_window (set_layer_ccontrol layer cc circ) layer = layer_package_window circ layer"
    and "layer_sendme_digest (set_layer_ccontrol layer cc circ) layer = layer_sendme_digest circ layer"
    and "layer_deliver_window (set_layer_sendme_digest layer d circ) layer = layer_deliver_window circ layer"
    and "layer_ccontrol (set_layer_sendme_digest layer d circ) layer = layer_ccontrol circ layer"
    and "layer_package_window (set_layer_sendme_digest layer d circ) layer = layer_package_window circ layer"
    and "layer_sendme_digest (set_layer_sendme_digest layer d circ) layer = d"
  using assms by (auto simp: valid_layer_def layer_getters layer_setters split: option.splits)

lemma layer_set_frame [simp]:
  "sendme_last_digests (set_layer_deliver_window layer w circ) = sendme_last_digests circ"
  "sendme_last_digests (set_layer_package_window layer w circ) = sendme_last_digests circ"
  "sendme_last_digests (set_layer_ccontrol layer cc circ) = sendme_last_digests circ"
  "sendme_last_digests (set_layer_sendme_digest layer d circ) = sendme_last_digests circ"
  "is_origin (set_layer_deliver_window layer w circ) = is_origin circ"
  "is_origin (set_layer_package_window layer w circ) = is_origin circ"
  "is_origin (set_layer_ccontrol layer cc circ) = is_origin circ"
  "is_origin (set_layer_sendme_digest layer d circ) = is_origin circ"
  "valid_layer (set_layer_deliver_window layer w circ) = valid_layer circ"
  "valid_layer (set_layer_package_window layer w circ) = valid_layer circ"
  "valid_layer (set_layer_ccontrol layer cc circ) = valid_layer circ"
  "valid_layer (set_layer_sendme_digest layer d circ) = valid_layer circ"
  by (auto simp: valid_layer_def layer_setters fun_eq_iff split: option.splits)

lemma layer_last_digests [simp]:
  "layer_deliver_window (circ\<lparr>sendme_last_digests := ds\<rparr>) layer = layer_deliver_window circ layer"
  "layer_ccontrol (circ\<lparr>sendme_last_digests := ds\<rparr>) layer = layer_ccontrol circ layer"
  "layer_package_window (circ\<lparr>sendme_last_digests := ds\<rparr>) layer = layer_package_window circ layer"
  "layer_sendme_digest (circ\<lparr>sendme_last_digests := ds\<rparr>) layer = layer_sendme_digest circ layer"
  "valid_layer (circ\<lparr>sendme_last_digests := ds\<rparr>) layer = valid_layer circ layer"
  by (simp_all add: layer_getters valid_layer_def split: option.splits)

lemma sendme_get_inc_count_cong:
  "layer_ccontrol c layer = layer_ccontrol c' layer \<Longrightarrow> sendme_get_inc_count c layer = sendme_get_inc_count c' layer"
  by (simp add: sendme_get_inc_count_def)

section \<open>The sender's account\<close>

text \<open>Cells sent and not yet acknowledged, with congestion control or with the fixed window; and the
  number of cells per SENDME.\<close>

definition outstanding :: "circuit_t \<Rightarrow> layer_hint \<Rightarrow> nat" where
  "outstanding circ layer =
     (case layer_ccontrol circ layer of
        Some cc \<Rightarrow> unat (inflight cc) | None \<Rightarrow> nat (CIRCWINDOW_START - layer_package_window circ layer))"

definition sender_ok :: "circuit_t \<Rightarrow> layer_hint \<Rightarrow> nat \<Rightarrow> bool" where
  "sender_ok circ layer inc \<longleftrightarrow> valid_layer circ layer \<and> sendme_get_inc_count circ layer = int inc \<and> 2 \<le> inc \<and>
     (layer_ccontrol circ layer = None \<longrightarrow> layer_package_window circ layer \<le> CIRCWINDOW_START)"

lemma inc_cc: "layer_ccontrol circ layer = Some cc \<Longrightarrow> sendme_get_inc_count circ layer = int (unat (sendme_inc cc))"
  by (simp add: sendme_get_inc_count_def)

lemma inc_fixed: "layer_ccontrol circ layer = None \<Longrightarrow> sendme_get_inc_count circ layer = 100"
  by (simp add: sendme_get_inc_count_def)

lemma outstanding_cong:
  "layer_ccontrol c' layer = layer_ccontrol c layer \<Longrightarrow> layer_package_window c' layer = layer_package_window c layer \<Longrightarrow>
    outstanding c' layer = outstanding c layer"
  by (cases "layer_ccontrol c layer") (simp_all add: outstanding_def)

lemma sender_ok_cong:
  "layer_ccontrol c' layer = layer_ccontrol c layer \<Longrightarrow> layer_package_window c' layer = layer_package_window c layer \<Longrightarrow>
    valid_layer c' layer = valid_layer c layer \<Longrightarrow> sender_ok c' layer inc = sender_ok c layer inc"
  by (simp add: sender_ok_def sendme_get_inc_count_def)

lemma sender_records:
  assumes ok: "sender_ok circ layer inc" and lt: "outstanding circ layer < 2 ^ 64 - 1"
  shows "circuit_sent_cell_for_sendme circ layer = Some (Suc (outstanding circ layer) mod inc = 0)"
proof (cases "layer_ccontrol circ layer")
  case (Some cc)
  then have "unat (sendme_inc cc) = inc"
    using ok by (simp add: sender_ok_def inc_cc) (simp only: unat_eq_nat_uint nat_int)
  then show ?thesis
    using sent_cell_for_sendme_cc [OF Some] ok lt Some by (simp add: sender_ok_def outstanding_def)
next
  case None
  define w where "w = layer_package_window circ layer"
  have w: "w \<le> 1000" "inc = 100" using ok None by (auto simp: sender_ok_def inc_fixed w_def)
  have "(w - 1) mod 100 = 0 \<longleftrightarrow> (1000 - w + 1) mod 100 = 0"
    by presburger
  moreover have "int (Suc (nat (1000 - w)) mod 100) = (1000 - w + 1) mod 100"
    using w(1) by (simp add: zmod_int add.commute)
  ultimately have "(w - 1) mod 100 = 0 \<longleftrightarrow> Suc (nat (1000 - w)) mod 100 = 0" by linarith
  then show ?thesis
    using None w by (auto simp: circuit_sent_cell_for_sendme_def outstanding_def w_def [symmetric] Let_def)
qed

lemma sender_packaged:
  assumes ok: "sender_ok circ layer inc" and lt: "outstanding circ layer < 2 ^ 64 - 1"
    and p: "sendme_note_circuit_data_packaged circ layer now = Some (w, circ')"
  shows "sender_ok circ' layer inc \<and> outstanding circ' layer = Suc (outstanding circ layer) \<and>
    sendme_last_digests circ' = sendme_last_digests circ"
proof (cases "layer_ccontrol circ layer")
  case (Some cc)
  from p Some obtain cc1 where n: "congestion_control_note_cell_sent cc circ layer now = Some cc1"
    and c: "circ' = set_layer_ccontrol layer cc1 circ"
    by (auto simp: sendme_note_circuit_data_packaged_def split: bind_splits)
  have "sendme_inc cc1 = sendme_inc cc \<and> inflight cc1 = inflight cc + 1"
    using n by (auto simp: congestion_control_note_cell_sent_def Let_def split: bind_splits)
  moreover have "unat (inflight cc + 1) = Suc (unat (inflight cc))"
    using lt Some by (subst unat_add_id) (simp_all add: outstanding_def)
  ultimately show ?thesis
    using ok Some by (auto simp: sender_ok_def c outstanding_def inc_cc)
next
  case None
  then have "circ' = set_layer_package_window layer (layer_package_window circ layer - 1) circ"
    using p by (auto simp: sendme_note_circuit_data_packaged_def split: bind_splits if_splits)
  then show ?thesis
    using ok None by (auto simp: sender_ok_def outstanding_def inc_fixed Suc_nat_eq_nat_zadd1)
qed

lemma sender_processed:
  assumes ok: "sender_ok circ layer inc" and out: "inc \<le> outstanding circ layer"
    and p: "sendme_process_circuit_level latest g layer circ payload name conflux now = Some (ret, g', circ', conflux')"
    and v: "sendme_is_valid latest circ payload = Some (True, circ1)"
  shows "ret = 0 \<and> sender_ok circ' layer inc \<and> outstanding circ' layer = outstanding circ layer - inc \<and>
    sendme_last_digests circ' = sendme_last_digests circ1"
proof -
  have c1: "\<exists>ds. circ1 = circ\<lparr>sendme_last_digests := ds\<rparr>"
    using v by (auto simp: sendme_is_valid_def pop_first_cell_digest_def
        split: option.splits bind_splits if_splits list.splits)
  then have ok1: "sender_ok circ1 layer inc" "outstanding circ1 layer = outstanding circ layer"
    using ok sender_ok_cong [of circ1 layer circ] by (auto intro!: outstanding_cong)
  show ?thesis
  proof (cases "layer_ccontrol circ1 layer")
    case (Some cc)
    from p v Some obtain cc2 where
      d: "congestion_control_dispatch_cc_alg g cc circ1 name conflux now = Some (ret, g', cc2, conflux')"
      and c: "circ' = set_layer_ccontrol layer cc2 circ1"
      by (auto simp: sendme_process_circuit_level_def split: bind_splits)
    from d obtain cc1 where vp: "congestion_control_vegas_process_sendme g cc circ1 now = Some (ret, g', cc1)"
      and e: "cc2 = (if cwnd cc1 > ucast (cwnd_max g') then cc1\<lparr>cwnd := ucast (cwnd_max g')\<rparr> else cc1)"
      by (auto simp: congestion_control_dispatch_cc_alg_def Let_def split: bind_splits)
    have cc2: "cc2 = cc1 \<or> (\<exists>w. cc2 = cc1\<lparr>cwnd := w\<rparr>)" unfolding e by auto
    note fr = process_frame [OF vp]
    have inc: "unat (sendme_inc cc) = inc"
      using ok1 Some by (simp add: sender_ok_def inc_cc) (simp only: unat_eq_nat_uint nat_int)
    have i2: "inflight cc2 = inflight cc - ucast (sendme_inc cc)" "sendme_inc cc2 = sendme_inc cc"
      using cc2 fr by (auto simp: same_config_def)
    have "unat (inflight cc - ucast (sendme_inc cc)) = unat (inflight cc) - inc"
      using out ok1 Some inc by (subst unat_sub) (simp_all add: outstanding_def word_le_nat_alt inc_unat)
    then show ?thesis
      using ok1 Some fr(1) i2 inc by (auto simp: c sender_ok_def outstanding_def inc_cc)
  next
    case None
    define w where "w = layer_package_window circ1 layer"
    have w: "w \<le> 900" "inc = 100" "nat (1000 - w) = outstanding circ layer"
      using ok1 None out by (auto simp: sender_ok_def outstanding_def inc_fixed w_def)
    have val: "valid_layer circ1 layer" using ok1 by (simp add: sender_ok_def)
    have "ret = 0 \<and> circ' = set_layer_package_window layer (w + 100) circ1"
      using p v None w val
      by (auto simp: sendme_process_circuit_level_def sendme_process_circuit_level_impl_def valid_layer_def w_def
          set_layer_package_window_def layer_package_window_def split: option.splits if_splits)
    then show ?thesis
      using ok1 None w by (auto simp: sender_ok_def outstanding_def inc_fixed)
  qed
qed

text \<open>Recording the digest of a data cell.\<close>

abbreviation last_digests :: "circuit_t \<Rightarrow> bytes list" where
  "last_digests circ \<equiv> (case sendme_last_digests circ of None \<Rightarrow> [] | Some ds \<Rightarrow> ds)"

lemma sender_recorded:
  assumes ok: "sender_ok circ layer inc" and lt: "outstanding circ layer < 2 ^ 64 - 1"
    and r1: "sendme_record_sending_cell_digest circ layer d = Some circ1"
    and r2: "sendme_record_cell_digest_on_circ circ1 layer = Some circ2"
  shows "sender_ok circ2 layer inc \<and> outstanding circ2 layer = outstanding circ layer \<and>
    last_digests circ2 = last_digests circ @ (if Suc (outstanding circ layer) mod inc = 0 then [take DIGEST_LEN d] else [])"
proof -
  have val: "valid_layer circ layer" using ok by (simp add: sender_ok_def)
  have c1: "circ1 = (if Suc (outstanding circ layer) mod inc = 0 then set_layer_sendme_digest layer d circ else circ)"
    using r1 by (auto simp: sendme_record_sending_cell_digest_def sender_records [OF ok lt])
  have ok1: "sender_ok circ1 layer inc" "outstanding circ1 layer = outstanding circ layer"
    using ok val sender_ok_cong [of circ1 layer circ] by (auto simp: c1 intro!: outstanding_cong)
  then have c2: "circ2 = (if Suc (outstanding circ layer) mod inc = 0 then record_cell_digest_on_circ circ1 (layer_sendme_digest circ1 layer) else circ1)"
    using r2 lt by (auto simp: sendme_record_cell_digest_on_circ_def sender_records [OF ok1(1)])
  have "layer_ccontrol circ2 layer = layer_ccontrol circ1 layer"
      "layer_package_window circ2 layer = layer_package_window circ1 layer" "valid_layer circ2 layer = valid_layer circ1 layer"
    by (simp_all add: c2 record_cell_digest_on_circ_def)
  then have "sender_ok circ2 layer inc" "outstanding circ2 layer = outstanding circ1 layer"
    using ok1 sender_ok_cong [of circ2 layer circ1 inc] outstanding_cong [of circ2 layer circ1] by blast+
  moreover have "last_digests circ2 = last_digests circ @ (if Suc (outstanding circ layer) mod inc = 0 then [take DIGEST_LEN d] else [])"
    using val by (simp add: c2 c1 record_cell_digest_on_circ_def)
  ultimately show ?thesis using ok1 by simp
qed

section \<open>The receiver's account\<close>

lemma inc_count_le: "sendme_get_inc_count circ layer \<le> 255"
proof (cases "layer_ccontrol circ layer")
  case (Some cc)
  have "uint (sendme_inc cc) < 256" using uint_bounded [of "sendme_inc cc"] by simp
  then show ?thesis using Some by (simp add: sendme_get_inc_count_def)
qed (simp add: sendme_get_inc_count_def)

text \<open>\<open>n\<close> data cells received since the last SENDME was sent.\<close>

definition receiver_ok :: "circuit_t \<Rightarrow> layer_hint \<Rightarrow> nat \<Rightarrow> nat \<Rightarrow> bool" where
  "receiver_ok circ layer inc n \<longleftrightarrow> valid_layer circ layer \<and> sendme_get_inc_count circ layer = int inc \<and>
     0 < inc \<and> n < inc \<and> layer_deliver_window circ layer = CIRCWINDOW_START - int n"

lemma receiver_next:
  assumes "receiver_ok circ layer inc n"
  shows "circuit_sendme_cell_is_next (layer_deliver_window circ layer) (sendme_get_inc_count circ layer) = Some (Suc n = inc)"
proof -
  have n: "0 < inc" "n < inc" "layer_deliver_window circ layer = 1000 - int n" "sendme_get_inc_count circ layer = int inc"
    using assms by (simp_all add: receiver_ok_def)
  have "(1 + int n) mod int inc = 0 \<longleftrightarrow> Suc n = inc"
  proof (cases "Suc n = inc")
    case True
    then have e: "1 + int n = int inc" by linarith
    show ?thesis unfolding e using True by simp
  next
    case False
    then have "(1 + int n) mod int inc = 1 + int n" using n by (intro mod_pos_pos_trivial) auto
    then show ?thesis using False by simp
  qed
  then show ?thesis
    using n by (simp add: circuit_sendme_cell_is_next_def)
qed

lemma receiver_recorded:
  assumes ok: "receiver_ok circ layer inc n" and r: "sendme_record_received_cell_digest circ layer d = Some circ'"
  shows "receiver_ok circ' layer inc n \<and> (Suc n = inc \<longrightarrow> layer_sendme_digest circ' layer = d)"
proof -
  have "circ' = (if Suc n = inc then set_layer_sendme_digest layer d circ else circ)"
    using r by (auto simp: sendme_record_received_cell_digest_def receiver_next [OF ok])
  then show ?thesis
    using ok by (auto simp: receiver_ok_def sendme_get_inc_count_def)
qed

text \<open>What the receiver answers to the data cell: nothing, or one SENDME with the recorded digest.\<close>

lemma receiver_answers:
  assumes ok: "receiver_ok circ layer inc n" and d: "sendme_circuit_data_received circ layer = Some (w, circ1)"
    and c: "sendme_circuit_consider_sending latest True circ1 layer = Some (ps, circ2)"
    and p: "Suc n = inc \<Longrightarrow> send_circuit_level_sendme latest (layer_sendme_digest circ layer) = Some (Some payload)"
  shows "w = 999 - int n \<and> receiver_ok circ2 layer inc (if Suc n = inc then 0 else Suc n) \<and>
    ps = (if Suc n = inc then [payload] else [])"
proof -
  have val: "valid_layer circ layer" and n: "n < inc" "0 < inc" and i: "sendme_get_inc_count circ layer = int inc"
    and dw: "layer_deliver_window circ layer = 1000 - int n"
    using ok by (simp_all add: receiver_ok_def)
  have c1: "w = 999 - int n" "circ1 = set_layer_deliver_window layer (999 - int n) circ"
    using d dw by (auto simp: sendme_circuit_data_received_def Let_def split: if_splits)
  have val1: "valid_layer circ1 layer" using val by (simp add: c1)
  have i1: "sendme_get_inc_count circ1 layer = int inc"
    using i val by (simp add: c1 sendme_get_inc_count_def)
  have stop: "consider_loop latest True (int inc) layer qs c = Some (qs, c)"
    if "\<not> layer_deliver_window c layer \<le> 1000 - int inc" for qs c
    using that by (subst consider_loop.simps) simp
  show ?thesis
  proof (cases "Suc n = inc")
    case True
    define c2 where "c2 = set_layer_deliver_window layer 1000 circ1"
    have w: "layer_deliver_window c2 layer = 1000" "999 - int n + int inc = 1000" "999 - int n \<le> 1000 - int inc"
      using val1 True by (simp add: c2_def, linarith, linarith)
    then have "consider_loop latest True (int inc) layer [] circ1 = Some ([payload], c2)"
      using w(1,3) p [OF True] val stop [of c2 "[payload]"] n
      by (subst consider_loop.simps) (simp add: c1 c2_def Let_def w(2))
    then show ?thesis
      using c i1 True ok val1 val c1 by (auto simp: sendme_circuit_consider_sending_def receiver_ok_def c2_def sendme_get_inc_count_def)
  next
    case False
    then have "consider_loop latest True (int inc) layer [] circ1 = Some ([], circ1)"
      using n val by (intro stop) (simp add: c1)
    then show ?thesis
      using c i1 False n val1 val ok by (auto simp: sendme_circuit_consider_sending_def receiver_ok_def c1)
  qed
qed

section \<open>An honest answer is accepted\<close>

text \<open>The version a SENDME really has, and the condition under which the other end takes it.\<close>

definition emitted_version :: "networkstatus option \<Rightarrow> int option" where
  "emitted_version latest = map_option (\<lambda>v. if v = 1 then 1 else 0) (get_emit_min_version latest)"

definition versions_agree :: "networkstatus option \<Rightarrow> networkstatus option \<Rightarrow> bool" where
  "versions_agree emitter acceptor \<longleftrightarrow>
     (case (emitted_version emitter, get_accept_min_version acceptor) of
        (Some e, Some a) \<Rightarrow> a \<le> e | _ \<Rightarrow> False)"

lemma answer_cases:
  assumes "send_circuit_level_sendme latest d = Some (Some payload)" and "DIGEST_LEN \<le> length d"
  shows "emitted_version latest = Some 1 \<and> length payload = 23 \<and>
      sendme_cell_parse payload = Some (\<lparr>sm_version = 1, sm_data_len = 20, sm_v1_digest = take DIGEST_LEN d\<rparr>, [])
    \<or> emitted_version latest = Some 0 \<and> payload = []"
proof -
  obtain e where e: "get_emit_min_version latest = Some e"
    using assms(1) by (auto simp: send_circuit_level_sendme_def split: bind_splits)
  then have r: "0 \<le> e" "e \<le> 255"
    by (auto simp: get_emit_min_version_def)
  have one: "(word_of_int e :: u8) = 1 \<longleftrightarrow> e = 1"
  proof
    assume "(word_of_int e :: u8) = 1"
    then have "uint (word_of_int e :: u8) = 1" by simp
    then show "e = 1" using r by (simp add: uint_word_of_int)
  qed simp
  show ?thesis
  proof (cases "e = 1")
    case True
    then have "build_cell_payload_v1 d = Some payload"
      using assms(1) e by (simp add: send_circuit_level_sendme_def)
    then show ?thesis
      using sendme_cell_parse_encode_v1 [of "take DIGEST_LEN d" _ _ payload "[]"] assms(2) e True
      by (auto simp: build_cell_payload_v1_def emitted_version_def)
  next
    case False
    then show ?thesis
      using assms(1) e one by (simp add: send_circuit_level_sendme_def emitted_version_def)
  qed
qed

lemma answer_exists:
  assumes "DIGEST_LEN \<le> length d" and "emitted_version latest \<noteq> None"
  shows "\<exists>payload. send_circuit_level_sendme latest d = Some (Some payload)"
  using assms sendme_cell_encode_v1_fits [of 498 "take DIGEST_LEN d" "of_nat 20"]
  by (auto simp: send_circuit_level_sendme_def emitted_version_def build_cell_payload_v1_def)

lemma answer_valid:
  assumes "send_circuit_level_sendme emitter d = Some (Some payload)" and "DIGEST_LEN \<le> length d"
    and "versions_agree emitter acceptor" and "last_digests circ = take DIGEST_LEN d # ds"
  shows "sendme_is_valid acceptor circ payload = Some (True, circ\<lparr>sendme_last_digests := Some ds\<rparr>)"
proof -
  obtain e a where e: "emitted_version emitter = Some e" and a: "get_accept_min_version acceptor = Some a" "a \<le> e"
    using assms(3) by (auto simp: versions_agree_def split: option.splits)
  have "0 \<le> a" using a by (auto simp: get_accept_min_version_def)
  moreover have "pop_first_cell_digest circ = (Some (take DIGEST_LEN d), circ\<lparr>sendme_last_digests := Some ds\<rparr>)"
    using assms(4) by (auto simp: pop_first_cell_digest_def split: option.splits)
  ultimately show ?thesis
    using answer_cases [OF assms(1,2)] e a
    by (auto simp: sendme_is_valid_def cell_version_can_be_handled_def cell_v1_is_valid_def v1_digest_matches_def)
qed

section \<open>Properties\<close>

text \<open>
  C16. When a SENDME is accepted. With the minimum version \<open>a\<close> of the consensus, a SENDME
  is valid exactly if a digest was recorded, and the payload is empty and \<open>a\<close> is 0, or it
  parses as a cell of version 0 or 1 that is not below \<open>a\<close>, and a cell of version 1
  carries the digest that was recorded first. The digest is taken from the circuit whenever the
  version was acceptable, valid or not, and the circuit is unchanged otherwise.
\<close>

theorem sendme_is_valid_decides:
  assumes "get_accept_min_version latest = Some a"
  shows "\<exists>valid circ'. sendme_is_valid latest circ payload = Some (valid, circ') \<and>
    (valid \<longleftrightarrow> (\<exists>d ds. last_digests circ = d # ds \<and>
       (payload = [] \<and> a = 0 \<or>
        (\<exists>cell rest. payload \<noteq> [] \<and> sendme_cell_parse payload = Some (cell, rest) \<and> a \<le> uint (sm_version cell) \<and>
          (sm_version cell = 1 \<longrightarrow> take DIGEST_LEN (sm_v1_digest cell) = take DIGEST_LEN d))))) \<and>
    (circ' = circ \<or> circ' = circ\<lparr>sendme_last_digests := Some (tl (last_digests circ))\<rparr>) \<and>
    (valid \<longrightarrow> last_digests circ' = tl (last_digests circ))"
proof -
  have a: "0 \<le> a" "a \<le> 255" using assms by (auto simp: get_accept_min_version_def)
  have can: "cell_version_can_be_handled latest v = Some (a \<le> 1 \<and> a \<le> uint v \<and> uint v \<le> 1)" for v :: u8
    using assms by (auto simp: cell_version_can_be_handled_def)
  have ver: "sm_version cell = 0 \<or> sm_version cell = 1" if "sendme_cell_parse bs = Some (cell, rest)" for bs cell rest
    using that by (auto simp: sendme_cell_parse_def split: bind_splits if_splits)
  show ?thesis
  proof (cases "payload = [] \<or> sendme_cell_parse payload = None")
    case True
    then show ?thesis
      using a by (auto simp: sendme_is_valid_def can pop_first_cell_digest_def split: option.splits list.splits)
  next
    case False
    then obtain cell rest where p: "payload \<noteq> []" "sendme_cell_parse payload = Some (cell, rest)" by auto
    show ?thesis
      using ver [OF p(2)] p a
      by (auto simp: sendme_is_valid_def can pop_first_cell_digest_def cell_v1_is_valid_def v1_digest_matches_def
          split: option.splits list.splits)
  qed
qed

theorem sendme_is_valid_decides_witness:
  "\<exists>valid circ'. sendme_is_valid None (example_circ\<lparr>sendme_last_digests := Some [[1], [2]]\<rparr>) [] = Some (valid, circ') \<and> valid \<and>
    last_digests circ' = [[2]]"
proof -
  have "get_accept_min_version None = Some 0" by (simp add: get_accept_min_version_def param_lookup_def)
  from sendme_is_valid_decides [OF this, of "example_circ\<lparr>sendme_last_digests := Some [[1], [2]]\<rparr>" "[]"]
  show ?thesis by auto
qed

text \<open>
  C17. The fixed window never grows past its start. Without congestion control, an accepted SENDME
  adds exactly one increment to the window of the hop it came from, and one that would bring the
  window above 1000 closes the circuit with a protocol error and leaves the window as it was.
\<close>

theorem sendme_fixed_window:
  assumes "sendme_process_circuit_level latest g layer circ payload name conflux now = Some (ret, g', circ', conflux')"
    and "layer_ccontrol circ layer = None" and "valid_layer circ layer"
  shows "(ret = 0 \<or> ret = - END_TORPROTOCOL) \<and> g' = g \<and> conflux' = conflux \<and>
    layer_package_window circ' layer = layer_package_window circ layer + (if ret = 0 then CIRCWINDOW_INCREMENT else 0) \<and>
    (ret = 0 \<longrightarrow> layer_package_window circ' layer \<le> CIRCWINDOW_START_MAX \<and>
       (\<exists>circ1. sendme_is_valid latest circ payload = Some (True, circ1))) \<and>
    (layer_package_window circ layer \<le> 900 \<and> (\<exists>circ1. sendme_is_valid latest circ payload = Some (True, circ1)) \<longrightarrow> ret = 0)"
proof -
  obtain valid circ1 where v: "sendme_is_valid latest circ payload = Some (valid, circ1)"
    using assms(1) by (auto simp: sendme_process_circuit_level_def split: bind_splits)
  have "circ1 = circ \<or> (\<exists>ds. circ1 = circ\<lparr>sendme_last_digests := ds\<rparr>)"
    using v by (auto simp: sendme_is_valid_def pop_first_cell_digest_def
        split: option.splits bind_splits if_splits list.splits)
  moreover have "circ = circ\<lparr>sendme_last_digests := sendme_last_digests circ\<rparr>" by simp
  ultimately have c1: "\<exists>ds. circ1 = circ\<lparr>sendme_last_digests := ds\<rparr>" by blast
  then have k: "valid_layer circ1 layer" "layer_ccontrol circ1 layer = None"
      "layer_package_window circ1 layer = layer_package_window circ layer"
    using assms(2,3) by auto
  have impl: "sendme_process_circuit_level_impl layer circ1 =
      (if layer_package_window circ1 layer + 100 > 1000 then (-1, circ1)
       else (0, set_layer_package_window layer (layer_package_window circ1 layer + 100) circ1))"
    using k(1) by (auto simp: sendme_process_circuit_level_impl_def valid_layer_def set_layer_package_window_def
        layer_package_window_def split: option.splits)
  show ?thesis
    using assms(1) v k by (auto simp: sendme_process_circuit_level_def impl split: if_splits)
qed

theorem sendme_fixed_window_witness:
  "\<exists>ret g' circ' cfx. sendme_process_circuit_level None (cc_globals_init False False) None
      (example_exit_circ\<lparr>ccontrol := None, package_window := 950, sendme_last_digests := Some [[1]]\<rparr>) [] 1
      (None :: nat conflux_t option) 5 = Some (ret, g', circ', cfx) \<and>
    (ret = 0 \<or> ret = -1) \<and> layer_package_window circ' None \<le> 1000"
proof -
  let ?c = "example_exit_circ\<lparr>ccontrol := None, package_window := 950, sendme_last_digests := Some [[1]]\<rparr>"
  let ?p = "sendme_process_circuit_level None (cc_globals_init False False) None ?c [] 1 (None :: nat conflux_t option) 5"
  have "?p \<noteq> None"
    by (simp add: sendme_process_circuit_level_def sendme_is_valid_def cell_version_can_be_handled_def
        get_accept_min_version_def pop_first_cell_digest_def layer_ccontrol_def param_lookup_def split: prod.split)
  then obtain ret g' circ' cfx where p: "?p = Some (ret, g', circ', cfx)" by (cases ?p) auto
  have "valid_layer ?c None" by (simp add: valid_layer_def example_exit_circ_def)
  moreover have "layer_ccontrol ?c None = None" "layer_package_window ?c None = 950"
    by (simp_all add: layer_ccontrol_def layer_package_window_def)
  ultimately show ?thesis using p sendme_fixed_window [OF p] by (auto split: if_splits)
qed

text \<open>A loop without progress does not end: with an increment of 0 nothing is ever returned.\<close>

lemma consider_loop_stuck:
  assumes "consider_loop latest True 0 layer qs circ = Some r" and "valid_layer circ layer"
    and "layer_deliver_window circ layer \<le> 1000" and "DIGEST_LEN \<le> length (layer_sendme_digest circ layer)"
    and "emitted_version latest \<noteq> None"
  shows False
proof -
  define P where "P latest send_ok inc layer (qs :: bytes list) circ (r :: bytes list \<times> circuit_t) \<longleftrightarrow>
      \<not> (valid_layer circ layer \<and> layer_deliver_window circ layer \<le> 1000 \<and> DIGEST_LEN \<le> length (layer_sendme_digest circ layer) \<and>
         emitted_version latest \<noteq> None \<and> send_ok \<and> inc = 0)"
    for latest send_ok and inc :: int and layer qs circ r
  have "P latest True 0 layer qs circ r"
  proof (rule consider_loop.raw_induct [of P, OF _ assms(1)])
    fix f latest send_ok inc layer qs circ r
    assume ih: "\<And>latest send_ok inc layer qs circ r. f latest send_ok inc layer qs circ = Some r \<Longrightarrow> P latest send_ok inc layer qs circ r"
      and st: "(if \<not> layer_deliver_window circ layer \<le> CIRCWINDOW_START - inc then Some (qs, circ)
         else send_circuit_level_sendme latest (layer_sendme_digest circ layer) \<bind>
           (\<lambda>payload. let circ1 = set_layer_deliver_window layer (layer_deliver_window circ layer + inc) circ
             in case payload of None \<Rightarrow> Some (qs, circ1)
              | Some p \<Rightarrow> if \<not> send_ok then Some (qs @ [p], circ1) else f latest send_ok inc layer (qs @ [p]) circ1)) = Some r"
    show "P latest send_ok inc layer qs circ r"
      unfolding P_def
    proof
      assume h: "valid_layer circ layer \<and> layer_deliver_window circ layer \<le> 1000 \<and> DIGEST_LEN \<le> length (layer_sendme_digest circ layer) \<and>
         emitted_version latest \<noteq> None \<and> send_ok \<and> inc = 0"
      then obtain p where p: "send_circuit_level_sendme latest (layer_sendme_digest circ layer) = Some (Some p)"
        using answer_exists [of "layer_sendme_digest circ layer" latest] by blast
      with st h have "f latest send_ok inc layer (qs @ [p]) (set_layer_deliver_window layer (layer_deliver_window circ layer + inc) circ) = Some r"
        by (simp add: Let_def)
      from ih [OF this] show False using h by (simp add: P_def)
    qed
  qed
  then show ?thesis using assms by (simp add: P_def)
qed

text \<open>
  C18. The receiver acknowledges all it received, and stops. With an increment of at least one
  cell, \<open>sendme_circuit_consider_sending\<close> returns: it sends the smallest number of SENDMEs that
  brings the window above one increment below its start, each adds one increment, and
  the window ends at most at its start.
\<close>

theorem sendme_consider_returns:
  assumes "valid_layer circ layer" and "sendme_get_inc_count circ layer = int inc" and "0 < inc"
    and "DIGEST_LEN \<le> length (layer_sendme_digest circ layer)" and "emitted_version latest \<noteq> None"
    and "layer_deliver_window circ layer \<le> CIRCWINDOW_START"
  shows "\<exists>ps circ'. sendme_circuit_consider_sending latest True circ layer = Some (ps, circ') \<and>
    layer_deliver_window circ' layer = layer_deliver_window circ layer + int inc * int (length ps) \<and>
    CIRCWINDOW_START - int inc < layer_deliver_window circ' layer \<and> layer_deliver_window circ' layer \<le> CIRCWINDOW_START \<and>
    list_all (\<lambda>p. send_circuit_level_sendme latest (layer_sendme_digest circ layer) = Some (Some p)) ps"
proof -
  obtain p where p: "send_circuit_level_sendme latest (layer_sendme_digest circ layer) = Some (Some p)"
    using answer_exists [OF assms(4,5)] by blast
  have "\<exists>k circ'. consider_loop latest True (int inc) layer qs c = Some (qs @ replicate k p, circ') \<and>
      layer_deliver_window circ' layer = layer_deliver_window c layer + int inc * int k \<and>
      1000 - int inc < layer_deliver_window circ' layer \<and> layer_deliver_window circ' layer \<le> 1000"
    if "valid_layer c layer" "layer_sendme_digest c layer = layer_sendme_digest circ layer"
      "layer_deliver_window c layer \<le> 1000" for qs c
    using that
  proof (induction "nat (1000 - layer_deliver_window c layer)" arbitrary: qs c rule: less_induct)
    case less
    show ?case
    proof (cases "layer_deliver_window c layer \<le> 1000 - int inc")
      case True
      let ?c = "set_layer_deliver_window layer (layer_deliver_window c layer + int inc) c"
      have "nat (1000 - layer_deliver_window ?c layer) < nat (1000 - layer_deliver_window c layer)"
        using True assms(3) less.prems(1) by simp
      from less.hyps [OF this, of "qs @ [p]"] less.prems True obtain k circ' where
        k: "consider_loop latest True (int inc) layer (qs @ [p]) ?c = Some ((qs @ [p]) @ replicate k p, circ')"
          "layer_deliver_window circ' layer = layer_deliver_window c layer + int inc + int inc * int k"
          "1000 - int inc < layer_deliver_window circ' layer" "layer_deliver_window circ' layer \<le> 1000"
        by auto
      have "consider_loop latest True (int inc) layer qs c = Some (qs @ replicate (Suc k) p, circ')"
        using True p k(1) less.prems(2) by (subst consider_loop.simps) (simp add: Let_def)
      then show ?thesis using k(2-) by (intro exI [of _ "Suc k"] exI [of _ circ']) (simp add: algebra_simps)
    next
      case False
      then have "consider_loop latest True (int inc) layer qs c = Some (qs @ replicate 0 p, c)"
        by (subst consider_loop.simps) simp
      then show ?thesis using False less.prems by (intro exI [of _ 0] exI [of _ c]) simp
    qed
  qed
  from this [of circ "[]"] assms(1,6) show ?thesis
    using p by (auto simp: sendme_circuit_consider_sending_def assms(2) list_all_iff)
qed

theorem sendme_consider_returns_witness:
  "\<exists>ps circ'. sendme_circuit_consider_sending None True
      (example_exit_circ\<lparr>deliver_window := 938, or_sendme_digest := replicate 20 7\<rparr>) None = Some (ps, circ') \<and>
    layer_deliver_window circ' None = 938 + 31 * int (length ps) \<and> 969 < layer_deliver_window circ' None"
proof -
  let ?c = "example_exit_circ\<lparr>deliver_window := 938, or_sendme_digest := replicate 20 7\<rparr>"
  have "valid_layer ?c None" by (simp add: valid_layer_def example_exit_circ_def)
  moreover have "sendme_get_inc_count ?c None = int 31"
    by (simp add: sendme_get_inc_count_def layer_ccontrol_def example_exit_circ_def example_circ_def example_cc_def)
  moreover have "emitted_version None \<noteq> None" by (simp add: emitted_version_def get_emit_min_version_def)
  moreover have "layer_deliver_window ?c None = 938" "layer_sendme_digest ?c None = replicate 20 7"
    by (simp_all add: layer_deliver_window_def layer_sendme_digest_def)
  ultimately show ?thesis using sendme_consider_returns [of ?c None 31 None] by auto
qed

end
