(* ===== verification/Sendme_Link.thy ===== *)
theory Sendme_Link
  imports Sendme
begin

text \<open>
  The two ends of a circuit and their SENDMEs: the sender's and the receiver's circuit, the data
  cells under way (each by the running digest both ends compute for it), and the SENDMEs on
  their way back. Either end may be the client (the hop is then a \<open>layer_hint\<close>) or the exit
  (\<open>None\<close>), and the circuit may use congestion control or the fixed window. Cells of other
  kinds pass between and are recorded too. The steps are the calls \<open>relay.c\<close> and
  \<open>relay_crypto.c\<close> make when a cell is sent or received.

  The property: no SENDME of an honest receiver is ever refused, and the sender always knows exactly
  how many cells are outstanding.
\<close>

record sendme_link =
  at_sender :: circuit_t
  sender_globals :: cc_globals
  at_receiver :: circuit_t
  data_wire :: "bytes list"
  back_wire :: "bytes list"
  sent_cells :: "bytes list"
  received_cells :: nat
  acked :: nat
  link_closed :: bool

inductive sendme_step ::
    "networkstatus option \<Rightarrow> networkstatus option \<Rightarrow> layer_hint \<Rightarrow> layer_hint \<Rightarrow> sendme_link \<Rightarrow> sendme_link \<Rightarrow> bool"
    for emitter acceptor slayer rlayer where
  send_data: "DIGEST_LEN \<le> length d \<Longrightarrow> Suc (length (sent_cells st)) < 2 ^ 64 - 1 \<Longrightarrow>
    sendme_record_sending_cell_digest (at_sender st) slayer d = Some s1 \<Longrightarrow>
    sendme_record_cell_digest_on_circ s1 slayer = Some s2 \<Longrightarrow>
    sendme_note_circuit_data_packaged s2 slayer now = Some (w, s3) \<Longrightarrow>
    sendme_step emitter acceptor slayer rlayer st
      (st\<lparr>at_sender := s3, data_wire := data_wire st @ [d], sent_cells := sent_cells st @ [d]\<rparr>)"
| send_other: "sendme_record_sending_cell_digest (at_sender st) slayer d = Some s1 \<Longrightarrow>
    sendme_step emitter acceptor slayer rlayer st (st\<lparr>at_sender := s1\<rparr>)"
| recv_other: "sendme_record_received_cell_digest (at_receiver st) rlayer d = Some r1 \<Longrightarrow>
    sendme_step emitter acceptor slayer rlayer st (st\<lparr>at_receiver := r1\<rparr>)"
| recv_data: "data_wire st = d # ds \<Longrightarrow>
    sendme_record_received_cell_digest (at_receiver st) rlayer d = Some r1 \<Longrightarrow>
    sendme_circuit_data_received r1 rlayer = Some (w, r2) \<Longrightarrow>
    sendme_circuit_consider_sending emitter True r2 rlayer = Some (ps, r3) \<Longrightarrow>
    sendme_step emitter acceptor slayer rlayer st
      (st\<lparr>at_receiver := r3, data_wire := ds, back_wire := back_wire st @ ps,
         received_cells := Suc (received_cells st), link_closed := link_closed st \<or> w < 0\<rparr>)"
| recv_sendme: "back_wire st = p # ps \<Longrightarrow>
    sendme_process_circuit_level acceptor (sender_globals st) slayer (at_sender st) p name (None :: unit conflux_t option) now
      = Some (ret, g', s', cfx) \<Longrightarrow>
    sendme_step emitter acceptor slayer rlayer st
      (st\<lparr>at_sender := s', sender_globals := g', back_wire := ps, acked := Suc (acked st),
         link_closed := link_closed st \<or> ret < 0\<rparr>)"

text \<open>A circuit just built: equal increments, nothing sent.\<close>

definition fresh_sendme_link :: "cc_globals \<Rightarrow> circuit_t \<Rightarrow> circuit_t \<Rightarrow> sendme_link" where
  "fresh_sendme_link g s r = \<lparr>at_sender = s, sender_globals = g, at_receiver = r, data_wire = [], back_wire = [],
     sent_cells = [], received_cells = 0, acked = 0, link_closed = False\<rparr>"

definition sendme_link_start :: "layer_hint \<Rightarrow> layer_hint \<Rightarrow> nat \<Rightarrow> circuit_t \<Rightarrow> circuit_t \<Rightarrow> bool" where
  "sendme_link_start slayer rlayer inc s r \<longleftrightarrow>
     sender_ok s slayer inc \<and> outstanding s slayer = 0 \<and> last_digests s = [] \<and> receiver_ok r rlayer inc 0"

inductive sendme_reachable ::
    "networkstatus option \<Rightarrow> networkstatus option \<Rightarrow> layer_hint \<Rightarrow> layer_hint \<Rightarrow> sendme_link \<Rightarrow> sendme_link \<Rightarrow> bool"
    for emitter acceptor slayer rlayer st0 where
  start: "sendme_reachable emitter acceptor slayer rlayer st0 st0"
| step: "sendme_reachable emitter acceptor slayer rlayer st0 st \<Longrightarrow> sendme_step emitter acceptor slayer rlayer st st' \<Longrightarrow>
    sendme_reachable emitter acceptor slayer rlayer st0 st'"

section \<open>The invariant\<close>

text \<open>The digest of the last cell of the \<open>j\<close>-th increment.\<close>

definition digest_at :: "bytes list \<Rightarrow> nat \<Rightarrow> nat \<Rightarrow> bytes" where
  "digest_at cells inc j = cells ! (Suc j * inc - 1)"

definition answer :: "networkstatus option \<Rightarrow> bytes \<Rightarrow> bytes" where
  "answer emitter d = the (the (send_circuit_level_sendme emitter d))"

definition sendme_inv :: "networkstatus option \<Rightarrow> layer_hint \<Rightarrow> layer_hint \<Rightarrow> nat \<Rightarrow> sendme_link \<Rightarrow> bool" where
  "sendme_inv emitter slayer rlayer inc st \<longleftrightarrow>
     (let n = length (sent_cells st); k = received_cells st; p = acked st
      in n < 2 ^ 64 - 1 \<and> (\<forall>d \<in> set (sent_cells st). DIGEST_LEN \<le> length d) \<and>
         k \<le> n \<and> p \<le> k div inc \<and> data_wire st = drop k (sent_cells st) \<and>
         sender_ok (at_sender st) slayer inc \<and> outstanding (at_sender st) slayer = n - p * inc \<and>
         last_digests (at_sender st) = map (\<lambda>j. take DIGEST_LEN (digest_at (sent_cells st) inc j)) [p ..< n div inc] \<and>
         receiver_ok (at_receiver st) rlayer inc (k mod inc) \<and>
         back_wire st = map (\<lambda>j. answer emitter (digest_at (sent_cells st) inc j)) [p ..< k div inc] \<and>
         \<not> link_closed st)"

lemma digest_at_append:
  assumes "j < length cells div inc" and "0 < inc"
  shows "digest_at (cells @ [d]) inc j = digest_at cells inc j"
proof -
  have "Suc j * inc \<le> length cells div inc * inc" using assms by (intro mult_le_mono1) simp
  also have "\<dots> \<le> length cells" by (rule div_times_less_eq_dividend)
  finally have "Suc j * inc - 1 < length cells" using assms(2) by (cases inc) auto
  then show ?thesis by (simp add: digest_at_def nth_append)
qed

lemma last_of_increment:
  assumes "Suc n mod inc = 0" and "0 < inc"
  shows "Suc n div inc = Suc (n div inc)" and "Suc (n div inc) * inc - 1 = n"
proof -
  show *: "Suc n div inc = Suc (n div inc)" using assms by (simp add: div_Suc)
  have "Suc n div inc * inc = Suc n" using assms(1) by auto
  then show "Suc (n div inc) * inc - 1 = n" unfolding * by simp
qed

lemma acked_outstanding:
  assumes "p \<le> n div inc" and "0 < inc"
  shows "p * inc \<le> n" and "Suc (n - p * inc) mod inc = Suc n mod inc"
proof -
  show *: "p * inc \<le> n" using assms by (meson div_times_less_eq_dividend le_trans mult_le_mono1)
  have "Suc n mod inc = (Suc (n - p * inc) + p * inc) mod inc" using * by simp
  then show "Suc (n - p * inc) mod inc = Suc n mod inc" by (simp only: mod_mult_self1)
qed

lemma recorded_digests:
  assumes p: "p \<le> length cells div inc" and i: "0 < inc"
  shows "map (\<lambda>j. f (digest_at (cells @ [d]) inc j)) [p ..< Suc (length cells) div inc]
    = map (\<lambda>j. f (digest_at cells inc j)) [p ..< length cells div inc] @ (if Suc (length cells) mod inc = 0 then [f d] else [])"
proof -
  have old: "map (\<lambda>j. f (digest_at (cells @ [d]) inc j)) [p ..< length cells div inc]
      = map (\<lambda>j. f (digest_at cells inc j)) [p ..< length cells div inc]"
    by (rule map_cong) (simp_all add: digest_at_append i)
  show ?thesis
  proof (cases "Suc (length cells) mod inc = 0")
    case True
    then have "digest_at (cells @ [d]) inc (length cells div inc) = d"
      using last_of_increment [OF True i] by (simp add: digest_at_def nth_append)
    then show ?thesis
      using True last_of_increment(1) [OF True i] p old by simp
  next
    case False
    then have "Suc (length cells) div inc = length cells div inc" by (simp add: div_Suc)
    then show ?thesis using False old by simp
  qed
qed

lemma inv_send_data:
  assumes inv: "sendme_inv emitter slayer rlayer inc st" and d: "DIGEST_LEN \<le> length d"
    and n: "Suc (length (sent_cells st)) < 2 ^ 64 - 1"
    and r1: "sendme_record_sending_cell_digest (at_sender st) slayer d = Some s1"
    and r2: "sendme_record_cell_digest_on_circ s1 slayer = Some s2"
    and pk: "sendme_note_circuit_data_packaged s2 slayer now = Some (w, s3)"
  shows "sendme_inv emitter slayer rlayer inc
    (st\<lparr>at_sender := s3, data_wire := data_wire st @ [d], sent_cells := sent_cells st @ [d]\<rparr>)"
proof -
  let ?n = "length (sent_cells st)" and ?k = "received_cells st" and ?p = "acked st"
  note i = inv [unfolded sendme_inv_def Let_def]
  have ok: "sender_ok (at_sender st) slayer inc" and out: "outstanding (at_sender st) slayer = ?n - ?p * inc"
    and le: "?k \<le> ?n" "?p \<le> ?k div inc"
    using i by blast+
  have inc: "0 < inc" using ok by (simp add: sender_ok_def)
  have p: "?p \<le> ?n div inc" using le by (meson div_le_mono le_trans)
  note ao = acked_outstanding [OF p inc]
  have lt: "outstanding (at_sender st) slayer < 2 ^ 64 - 1" using out n by simp
  from sender_recorded [OF ok lt r1 r2] have
    s2: "sender_ok s2 slayer inc" "outstanding s2 slayer = ?n - ?p * inc"
      "last_digests s2 = last_digests (at_sender st) @ (if Suc ?n mod inc = 0 then [take DIGEST_LEN d] else [])"
    using out ao(2) by auto
  have s3: "sender_ok s3 slayer inc" "outstanding s3 slayer = Suc ?n - ?p * inc" "last_digests s3 = last_digests s2"
    using sender_packaged [OF s2(1) _ pk] s2(2) lt out ao(1) by (auto simp: Suc_diff_le)
  have ld: "last_digests s3 = map (\<lambda>j. take DIGEST_LEN (digest_at (sent_cells st @ [d]) inc j)) [?p ..< Suc ?n div inc]"
    using recorded_digests [OF p inc, of "take DIGEST_LEN" d] i s2(3) s3(3) by simp
  have bw: "back_wire st = map (\<lambda>j. answer emitter (digest_at (sent_cells st @ [d]) inc j)) [?p ..< ?k div inc]"
  proof -
    have "j < ?n div inc" if "j < ?k div inc" for j using that div_le_mono [OF le(1), of inc] by linarith
    then have "map (\<lambda>j. answer emitter (digest_at (sent_cells st @ [d]) inc j)) [?p ..< ?k div inc]
        = map (\<lambda>j. answer emitter (digest_at (sent_cells st) inc j)) [?p ..< ?k div inc]"
      by (intro map_cong) (simp_all add: digest_at_append inc)
    then show ?thesis using i by simp
  qed
  show ?thesis
    unfolding sendme_inv_def Let_def using i n d s3(1,2) ld bw by auto
qed

lemma inv_send_other:
  assumes inv: "sendme_inv emitter slayer rlayer inc st"
    and r1: "sendme_record_sending_cell_digest (at_sender st) slayer d = Some s1"
  shows "sendme_inv emitter slayer rlayer inc (st\<lparr>at_sender := s1\<rparr>)"
proof -
  note i = inv [unfolded sendme_inv_def Let_def]
  have val: "valid_layer (at_sender st) slayer" using i by (simp add: sender_ok_def)
  have s1: "s1 = at_sender st \<or> s1 = set_layer_sendme_digest slayer d (at_sender st)"
    using r1 by (auto simp: sendme_record_sending_cell_digest_def split: bind_splits if_splits)
  have c: "layer_ccontrol s1 slayer = layer_ccontrol (at_sender st) slayer"
      "layer_package_window s1 slayer = layer_package_window (at_sender st) slayer"
      "valid_layer s1 slayer = valid_layer (at_sender st) slayer" "last_digests s1 = last_digests (at_sender st)"
    using s1 val by auto
  show ?thesis
    using i sender_ok_cong [OF c(1-3)] outstanding_cong [OF c(1,2)] c(4) by (simp add: sendme_inv_def Let_def)
qed

lemma inv_recv_other:
  assumes inv: "sendme_inv emitter slayer rlayer inc st"
    and r1: "sendme_record_received_cell_digest (at_receiver st) rlayer d = Some r1"
  shows "sendme_inv emitter slayer rlayer inc (st\<lparr>at_receiver := r1\<rparr>)"
  using inv receiver_recorded [OF _ r1] by (auto simp: sendme_inv_def Let_def)

lemma inv_recv_data:
  assumes inv: "sendme_inv emitter slayer rlayer inc st" and em: "emitted_version emitter \<noteq> None"
    and w: "data_wire st = d # ds" and r1: "sendme_record_received_cell_digest (at_receiver st) rlayer d = Some r1"
    and r2: "sendme_circuit_data_received r1 rlayer = Some (v, r2)"
    and r3: "sendme_circuit_consider_sending emitter True r2 rlayer = Some (ps, r3)"
  shows "sendme_inv emitter slayer rlayer inc
    (st\<lparr>at_receiver := r3, data_wire := ds, back_wire := back_wire st @ ps,
       received_cells := Suc (received_cells st), link_closed := link_closed st \<or> v < 0\<rparr>)"
proof -
  let ?cells = "sent_cells st" and ?k = "received_cells st" and ?p = "acked st"
  note i = inv [unfolded sendme_inv_def Let_def]
  have ok: "receiver_ok (at_receiver st) rlayer inc (?k mod inc)" and inc: "0 < inc" and dw: "data_wire st = drop ?k ?cells"
    using i by (auto simp: receiver_ok_def)
  have k: "?k < length ?cells" "d = ?cells ! ?k" "ds = drop (Suc ?k) ?cells"
    using w dw by (metis drop_eq_Nil list.distinct(1) not_le, metis nth_via_drop, metis drop_Suc list.sel(3) tl_drop)
  have dl: "DIGEST_LEN \<le> length d" using i k by auto
  from receiver_recorded [OF ok r1] have ok1: "receiver_ok r1 rlayer inc (?k mod inc)"
    and sd: "Suc (?k mod inc) = inc \<Longrightarrow> layer_sendme_digest r1 rlayer = d" by auto
  have dl1: "\<exists>p. send_circuit_level_sendme emitter d = Some (Some p)" using answer_exists [OF dl em] .
  have le255: "inc \<le> 255"
    using inc_count_le [of "at_receiver st" rlayer] ok by (simp add: receiver_ok_def)
  obtain pl where "Suc (?k mod inc) = inc \<Longrightarrow> send_circuit_level_sendme emitter (layer_sendme_digest r1 rlayer) = Some (Some pl)"
      "Suc (?k mod inc) = inc \<Longrightarrow> pl = answer emitter d"
    using dl1 sd by (auto simp: answer_def)
  from receiver_answers [OF ok1 r2 r3 this(1)] this(2)
  have ans: "receiver_ok r3 rlayer inc (if Suc (?k mod inc) = inc then 0 else Suc (?k mod inc))"
      "ps = (if Suc (?k mod inc) = inc then [answer emitter d] else [])" "v = 999 - int (?k mod inc)"
    by auto
  have "?k mod inc < 255" using inc le255 by (meson less_le_trans mod_less_divisor)
  then have v: "\<not> v < 0" using ans(3) by linarith
  have m: "Suc ?k mod inc = (if Suc (?k mod inc) = inc then 0 else Suc (?k mod inc))" by (simp add: mod_Suc)
  have nx: "Suc (?k mod inc) = inc \<longleftrightarrow> Suc ?k mod inc = 0" using inc by (simp add: mod_Suc)
  have bw: "back_wire st @ ps = map (\<lambda>j. answer emitter (digest_at ?cells inc j)) [?p ..< Suc ?k div inc]"
  proof (cases "Suc ?k mod inc = 0")
    case True
    have "digest_at ?cells inc (?k div inc) = d"
      using last_of_increment(2) [OF True inc] k(2) by (simp add: digest_at_def)
    then show ?thesis
      using True i nx ans(2) last_of_increment(1) [OF True inc] by simp
  next
    case False
    then have "Suc ?k div inc = ?k div inc" by (simp add: div_Suc)
    then show ?thesis using False i nx ans(2) by simp
  qed
  have "?p \<le> Suc ?k div inc" using i div_le_mono [of ?k "Suc ?k" inc] by linarith
  then show ?thesis
    unfolding sendme_inv_def Let_def using i k ans(1) m bw v by auto
qed

lemma inv_recv_sendme:
  assumes inv: "sendme_inv emitter slayer rlayer inc st" and va: "versions_agree emitter acceptor"
    and w: "back_wire st = pl # ps"
    and pr: "sendme_process_circuit_level acceptor (sender_globals st) slayer (at_sender st) pl name conflux now
      = Some (ret, g', s', cfx)"
  shows "sendme_inv emitter slayer rlayer inc
    (st\<lparr>at_sender := s', sender_globals := g', back_wire := ps, acked := Suc (acked st),
       link_closed := link_closed st \<or> ret < 0\<rparr>)"
proof -
  let ?cells = "sent_cells st" and ?n = "length (sent_cells st)" and ?k = "received_cells st" and ?p = "acked st"
  let ?d = "digest_at ?cells inc ?p"
  note i = inv [unfolded sendme_inv_def Let_def]
  have ok: "sender_ok (at_sender st) slayer inc" and out: "outstanding (at_sender st) slayer = ?n - ?p * inc"
    and inc: "0 < inc" and k: "?k \<le> ?n"
    using i by (auto simp: sender_ok_def)
  have lt: "?p < ?k div inc"
    using i w by (metis list.discI list.map_disc_iff not_le upt_conv_Nil)
  then have ltn: "?p < ?n div inc" using div_le_mono [OF k, of inc] by linarith
  have pl: "pl = answer emitter ?d" "ps = map (\<lambda>j. answer emitter (digest_at ?cells inc j)) [Suc ?p ..< ?k div inc]"
    using i w lt by (simp_all add: upt_conv_Cons)
  have ld: "last_digests (at_sender st) = take DIGEST_LEN ?d # map (\<lambda>j. take DIGEST_LEN (digest_at ?cells inc j)) [Suc ?p ..< ?n div inc]"
    using i ltn by (simp add: upt_conv_Cons)
  have full: "Suc ?p * inc \<le> ?n"
    using ltn by (meson Suc_leI div_times_less_eq_dividend le_trans mult_le_mono1)
  then have "?d \<in> set ?cells" using inc by (cases inc) (auto simp: digest_at_def intro!: nth_mem)
  then have dl: "DIGEST_LEN \<le> length ?d" using i by blast
  have em: "emitted_version emitter \<noteq> None" using va by (auto simp: versions_agree_def split: option.splits)
  have "send_circuit_level_sendme emitter ?d = Some (Some pl)"
    using answer_exists [OF dl em] by (auto simp: pl(1) answer_def)
  from answer_valid [OF this dl va ld] have
    v: "sendme_is_valid acceptor (at_sender st) pl = Some (True, at_sender st
      \<lparr>sendme_last_digests := Some (map (\<lambda>j. take DIGEST_LEN (digest_at ?cells inc j)) [Suc ?p ..< ?n div inc])\<rparr>)" .
  have oi: "inc \<le> outstanding (at_sender st) slayer" using full out by simp
  have "?n - ?p * inc - inc = ?n - Suc ?p * inc" by simp
  then show ?thesis
    unfolding sendme_inv_def Let_def
    using i lt sender_processed [OF ok oi pr v] out pl(2) by auto
qed

lemma sendme_inv_step:
  assumes "sendme_step emitter acceptor slayer rlayer st st'" and "versions_agree emitter acceptor"
    and "sendme_inv emitter slayer rlayer inc st"
  shows "sendme_inv emitter slayer rlayer inc st'"
proof -
  have "emitted_version emitter \<noteq> None" using assms(2) by (auto simp: versions_agree_def split: option.splits)
  with assms show ?thesis
    by cases (blast intro: inv_send_data inv_send_other inv_recv_other inv_recv_data inv_recv_sendme)+
qed

lemma sendme_inv_start:
  "sendme_link_start slayer rlayer inc s r \<Longrightarrow> sendme_inv emitter slayer rlayer inc (fresh_sendme_link g s r)"
  by (auto simp: sendme_link_start_def sendme_inv_def fresh_sendme_link_def)

section \<open>Runs\<close>

text \<open>The steps as functions, to compute with.\<close>

datatype link_action = Send bytes u64 | Recv | Ack u64

definition run_action :: "networkstatus option \<Rightarrow> networkstatus option \<Rightarrow> layer_hint \<Rightarrow> layer_hint \<Rightarrow> link_action
    \<Rightarrow> sendme_link \<Rightarrow> sendme_link option" where
  "run_action emitter acceptor slayer rlayer act st =
     (case act of
        Send d now \<Rightarrow>
          if length d < DIGEST_LEN then None
          else do {
            s1 \<leftarrow> sendme_record_sending_cell_digest (at_sender st) slayer d;
            s2 \<leftarrow> sendme_record_cell_digest_on_circ s1 slayer;
            (w, s3) \<leftarrow> sendme_note_circuit_data_packaged s2 slayer now;
            Some (st\<lparr>at_sender := s3, data_wire := data_wire st @ [d], sent_cells := sent_cells st @ [d]\<rparr>)
          }
      | Recv \<Rightarrow>
          (case data_wire st of
             [] \<Rightarrow> None
           | d # ds \<Rightarrow> do {
               r1 \<leftarrow> sendme_record_received_cell_digest (at_receiver st) rlayer d;
               (w, r2) \<leftarrow> sendme_circuit_data_received r1 rlayer;
               (ps, r3) \<leftarrow> sendme_circuit_consider_sending emitter True r2 rlayer;
               Some (st\<lparr>at_receiver := r3, data_wire := ds, back_wire := back_wire st @ ps,
                 received_cells := Suc (received_cells st), link_closed := link_closed st \<or> w < 0\<rparr>)
             })
      | Ack now \<Rightarrow>
          (case back_wire st of
             [] \<Rightarrow> None
           | p # ps \<Rightarrow> do {
               (ret, g', s', cfx) \<leftarrow> sendme_process_circuit_level acceptor (sender_globals st) slayer (at_sender st) p 0
                 (None :: unit conflux_t option) now;
               Some (st\<lparr>at_sender := s', sender_globals := g', back_wire := ps, acked := Suc (acked st),
                 link_closed := link_closed st \<or> ret < 0\<rparr>)
             }))"

fun run_actions :: "networkstatus option \<Rightarrow> networkstatus option \<Rightarrow> layer_hint \<Rightarrow> layer_hint \<Rightarrow> link_action list
    \<Rightarrow> sendme_link \<Rightarrow> sendme_link option" where
  "run_actions emitter acceptor slayer rlayer [] st = Some st"
| "run_actions emitter acceptor slayer rlayer (act # acts) st =
     Option.bind (run_action emitter acceptor slayer rlayer act st) (run_actions emitter acceptor slayer rlayer acts)"

lemma run_action_step:
  assumes "run_action emitter acceptor slayer rlayer act st = Some st'" and "Suc (length (sent_cells st)) < 2 ^ 64 - 1"
  shows "sendme_step emitter acceptor slayer rlayer st st' \<and> length (sent_cells st') \<le> Suc (length (sent_cells st))"
  using assms
  by (auto simp: run_action_def Let_def intro: sendme_step.intros split: link_action.splits list.splits if_splits bind_splits)

lemma run_actions_reachable:
  assumes "run_actions emitter acceptor slayer rlayer acts st = Some st'"
    and "sendme_reachable emitter acceptor slayer rlayer st0 st" and "length (sent_cells st) + length acts < 2 ^ 64 - 1"
  shows "sendme_reachable emitter acceptor slayer rlayer st0 st'"
  using assms
proof (induction acts arbitrary: st)
  case (Cons act acts)
  then obtain st1 where r: "run_action emitter acceptor slayer rlayer act st = Some st1"
      "run_actions emitter acceptor slayer rlayer acts st1 = Some st'"
    by (auto split: bind_splits)
  have "Suc (length (sent_cells st)) < 2 ^ 64 - 1" using Cons.prems(3) by simp
  from run_action_step [OF r(1) this] Cons.prems(2,3) show ?case
    by (intro Cons.IH [OF r(2)]) (auto intro: sendme_reachable.step)
qed simp

section \<open>The property\<close>


definition example_sender :: circuit_t where
  "example_sender = example_circ\<lparr>is_origin := False, ccontrol := Some (example_cc\<lparr>sendme_inc := 2, inflight := 0,
     sendme_pending_timestamps := [], cwnd_inc_rate := 1\<rparr>)\<rparr>"

definition example_receiver :: circuit_t where
  "example_receiver = example_circ\<lparr>cpath := [\<lparr>cp_package_window = 1000, cp_deliver_window = 1000, 
     cp_ccontrol = Some (example_cc\<lparr>sendme_inc := 2\<rparr>), cp_sendme_digest = []\<rparr>]\<rparr>"

definition example_run :: "sendme_link option" where
  "example_run = run_actions None None None (Some 0)
     [Send (replicate 20 1) 1000, Send (replicate 20 2) 1100, Send (replicate 20 3) 1200, Recv, Recv, Ack 1500]
     (fresh_sendme_link (cc_globals_init False False) example_sender example_receiver)"


end
