(* ===== verification/Token_Bucket.thy ===== *)
theory Token_Bucket
  imports Tor_Prelude
begin

text \<open>
  \<open>src/lib/evloop/token_bucket.c\<close>: the token buckets that rate-limit connections and the
  denial-of-service counters. A raw bucket is a level; \<open>token_bucket_rw\<close> couples a read and a
  write bucket with a coarse clock, \<open>token_bucket_ctr\<close> one counter with a clock in seconds.
  The level and the burst are \<open>int32_t\<close> in the source and an \<open>int\<close> here, with the
  truncating conversions written as \<open>i32\<close>; rates and clock stamps keep their 32-bit words.
  A refill divides by the rate, so it is partial: \<open>None\<close> is the division by zero.

  The lemmas give the exact level after a refill or a withdrawal, the refinement of a run of
  operations to the ideal bucket on integers, and the rate limit itself.
\<close>

section \<open>State\<close>

record token_bucket_cfg =
  rate :: u32
  burst :: int

record token_bucket_raw =
  bucket :: int

record token_bucket_rw =
  rw_cfg :: token_bucket_cfg
  read_bucket :: token_bucket_raw
  write_bucket :: token_bucket_raw
  rw_last_refilled_at :: u32

record token_bucket_ctr =
  ctr_cfg :: token_bucket_cfg
  counter :: token_bucket_raw
  ctr_last_refilled_at :: u32

abbreviation TB_READ :: int where "TB_READ \<equiv> 1"
abbreviation TB_WRITE :: int where "TB_WRITE \<equiv> 2"
abbreviation TICKS_PER_STEP :: "'a::len word" where "TICKS_PER_STEP \<equiv> 16"

section \<open>Raw buckets\<close>

definition token_bucket_cfg_init :: "u32 \<Rightarrow> u32 \<Rightarrow> token_bucket_cfg" where
  "token_bucket_cfg_init r b =
     \<lparr>rate = r, burst = (if uint b > INT32_MAX then INT32_MAX else uint b)\<rparr>"

definition token_bucket_raw_reset :: "token_bucket_raw \<Rightarrow> token_bucket_cfg \<Rightarrow> token_bucket_raw" where
  "token_bucket_raw_reset b cfg = b\<lparr>bucket := burst cfg\<rparr>"

definition token_bucket_raw_adjust :: "token_bucket_raw \<Rightarrow> token_bucket_cfg \<Rightarrow> token_bucket_raw" where
  "token_bucket_raw_adjust b cfg = b\<lparr>bucket := min (bucket b) (burst cfg)\<rparr>"

text \<open>The gap is computed in \<open>size_t\<close>, where a negative level wraps to a huge value and
  the subtraction wraps back.\<close>

definition token_bucket_raw_refill_steps ::
    "token_bucket_raw \<Rightarrow> token_bucket_cfg \<Rightarrow> u32 \<Rightarrow> (bool \<times> token_bucket_raw) option" where
  "token_bucket_raw_refill_steps b cfg elapsed =
     (let was_empty = bucket b \<le> 0;
          gap = (word_of_int (burst cfg) :: u64) - word_of_int (bucket b)
      in if rate cfg = 0 then None
         else let b' = (if ucast elapsed > gap div ucast (rate cfg)
                        then b\<lparr>bucket := burst cfg\<rparr>
                        else b\<lparr>bucket := i32 (bucket b + uint (rate cfg * elapsed))\<rparr>)
              in Some (was_empty \<and> bucket b' > 0, b'))"

definition token_bucket_raw_dec :: "token_bucket_raw \<Rightarrow> int \<Rightarrow> bool \<times> token_bucket_raw" where
  "token_bucket_raw_dec b n =
     (if n < 0 then (False, b)
      else (bucket b > 0 \<and> n \<ge> bucket b, b\<lparr>bucket := i32 (bucket b - n)\<rparr>))"

definition token_bucket_raw_get :: "token_bucket_raw \<Rightarrow> int" where
  "token_bucket_raw_get b = (if bucket b \<ge> 0 then bucket b else 0)"

section \<open>Read-write buckets\<close>

text \<open>The conversion of clock stamps to milliseconds depends on the platform's clock and is the
  parameter \<open>units_to_msec\<close>.\<close>

definition rate_per_sec_to_rate_per_step :: "(u64 \<Rightarrow> u64) \<Rightarrow> u32 \<Rightarrow> u32" where
  "rate_per_sec_to_rate_per_step units_to_msec r =
     (let units = ucast r * TICKS_PER_STEP :: u64;
          val = ucast (units_to_msec units div 1000) :: u32
      in if val \<noteq> 0 then val else 1)"

definition token_bucket_rw_adjust ::
    "(u64 \<Rightarrow> u64) \<Rightarrow> token_bucket_rw \<Rightarrow> u32 \<Rightarrow> u32 \<Rightarrow> token_bucket_rw" where
  "token_bucket_rw_adjust units_to_msec b r bu =
     (let cfg = token_bucket_cfg_init (rate_per_sec_to_rate_per_step units_to_msec r) bu
      in b\<lparr>rw_cfg := cfg,
           read_bucket := token_bucket_raw_adjust (read_bucket b) cfg,
           write_bucket := token_bucket_raw_adjust (write_bucket b) cfg\<rparr>)"

definition token_bucket_rw_reset :: "token_bucket_rw \<Rightarrow> u32 \<Rightarrow> token_bucket_rw" where
  "token_bucket_rw_reset b now =
     b\<lparr>read_bucket := token_bucket_raw_reset (read_bucket b) (rw_cfg b),
       write_bucket := token_bucket_raw_reset (write_bucket b) (rw_cfg b),
       rw_last_refilled_at := now\<rparr>"

text \<open>The \<open>memset\<close> of the initialisers.\<close>

abbreviation zero_raw :: token_bucket_raw where "zero_raw \<equiv> \<lparr>bucket = 0\<rparr>"
abbreviation zero_cfg :: token_bucket_cfg where "zero_cfg \<equiv> \<lparr>rate = 0, burst = 0\<rparr>"

definition token_bucket_rw_init :: "(u64 \<Rightarrow> u64) \<Rightarrow> u32 \<Rightarrow> u32 \<Rightarrow> u32 \<Rightarrow> token_bucket_rw" where
  "token_bucket_rw_init units_to_msec r bu now =
     token_bucket_rw_reset
       (token_bucket_rw_adjust units_to_msec
          \<lparr>rw_cfg = zero_cfg, read_bucket = zero_raw, write_bucket = zero_raw,
           rw_last_refilled_at = 0\<rparr> r bu) now"

definition token_bucket_rw_refill ::
    "token_bucket_rw \<Rightarrow> u32 \<Rightarrow> (int \<times> token_bucket_rw) option" where
  "token_bucket_rw_refill b now =
     (let elapsed_ticks = now - rw_last_refilled_at b
      in if elapsed_ticks \<le> UINT32_MAX div 4
         then let elapsed_steps = elapsed_ticks div TICKS_PER_STEP
              in if elapsed_steps = 0 then Some (0, b)
                 else do {
                   (r, rb) \<leftarrow> token_bucket_raw_refill_steps (read_bucket b) (rw_cfg b) elapsed_steps;
                   (w, wb) \<leftarrow> token_bucket_raw_refill_steps (write_bucket b) (rw_cfg b) elapsed_steps;
                   Some ((if r then TB_READ else 0) OR (if w then TB_WRITE else 0),
                         b\<lparr>read_bucket := rb, write_bucket := wb, rw_last_refilled_at := now\<rparr>)
                 }
         else Some (0, b\<lparr>rw_last_refilled_at := now\<rparr>))"

definition token_bucket_rw_dec_read :: "token_bucket_rw \<Rightarrow> int \<Rightarrow> bool \<times> token_bucket_rw" where
  "token_bucket_rw_dec_read b n =
     (let (e, rb) = token_bucket_raw_dec (read_bucket b) n in (e, b\<lparr>read_bucket := rb\<rparr>))"

definition token_bucket_rw_dec_write :: "token_bucket_rw \<Rightarrow> int \<Rightarrow> bool \<times> token_bucket_rw" where
  "token_bucket_rw_dec_write b n =
     (let (e, wb) = token_bucket_raw_dec (write_bucket b) n in (e, b\<lparr>write_bucket := wb\<rparr>))"

definition token_bucket_rw_dec :: "token_bucket_rw \<Rightarrow> int \<Rightarrow> int \<Rightarrow> int \<times> token_bucket_rw" where
  "token_bucket_rw_dec b n_read n_written =
     (let (r, b1) = token_bucket_rw_dec_read b n_read;
          (w, b2) = token_bucket_rw_dec_write b1 n_written
      in ((if r then TB_READ else 0) OR (if w then TB_WRITE else 0), b2))"

section \<open>Counters\<close>

definition token_bucket_ctr_adjust :: "token_bucket_ctr \<Rightarrow> u32 \<Rightarrow> u32 \<Rightarrow> token_bucket_ctr" where
  "token_bucket_ctr_adjust b r bu =
     (let cfg = token_bucket_cfg_init r bu
      in b\<lparr>ctr_cfg := cfg, counter := token_bucket_raw_adjust (counter b) cfg\<rparr>)"

definition token_bucket_ctr_reset :: "token_bucket_ctr \<Rightarrow> u32 \<Rightarrow> token_bucket_ctr" where
  "token_bucket_ctr_reset b now =
     b\<lparr>counter := token_bucket_raw_reset (counter b) (ctr_cfg b), ctr_last_refilled_at := now\<rparr>"

definition token_bucket_ctr_init :: "u32 \<Rightarrow> u32 \<Rightarrow> u32 \<Rightarrow> token_bucket_ctr" where
  "token_bucket_ctr_init r bu now =
     token_bucket_ctr_reset
       (token_bucket_ctr_adjust
          \<lparr>ctr_cfg = zero_cfg, counter = zero_raw, ctr_last_refilled_at = 0\<rparr> r bu) now"

definition token_bucket_ctr_refill :: "token_bucket_ctr \<Rightarrow> u32 \<Rightarrow> token_bucket_ctr option" where
  "token_bucket_ctr_refill b now =
     (let elapsed_sec = now - ctr_last_refilled_at b
      in if elapsed_sec \<le> UINT32_MAX div 4
         then do {
           (_, c) \<leftarrow> token_bucket_raw_refill_steps (counter b) (ctr_cfg b) elapsed_sec;
           Some (b\<lparr>counter := c, ctr_last_refilled_at := now\<rparr>)
         }
         else Some (b\<lparr>ctr_last_refilled_at := now\<rparr>))"

definition token_bucket_ctr_dec :: "token_bucket_ctr \<Rightarrow> int \<Rightarrow> bool \<times> token_bucket_ctr" where
  "token_bucket_ctr_dec b n =
     (let (e, c) = token_bucket_raw_dec (counter b) n in (e, b\<lparr>counter := c\<rparr>))"

section \<open>The level of a bucket\<close>

definition cfg_ok :: "token_bucket_cfg \<Rightarrow> bool" where
  "cfg_ok cfg \<longleftrightarrow> rate cfg \<noteq> 0 \<and> 0 \<le> burst cfg \<and> burst cfg \<le> INT32_MAX"

definition raw_ok :: "token_bucket_cfg \<Rightarrow> token_bucket_raw \<Rightarrow> bool" where
  "raw_ok cfg b \<longleftrightarrow> INT32_MIN \<le> bucket b \<and> bucket b \<le> burst cfg"

lemma level_up [simp]: "i \<le> l \<Longrightarrow> i \<le> l + uint (r :: u32) * uint (k :: u32)"
  by (simp add: add_increasing2)

lemma cfg_init_ok [intro]: "r \<noteq> 0 \<Longrightarrow> cfg_ok (token_bucket_cfg_init r b)"
  by (auto simp: cfg_ok_def token_bucket_cfg_init_def)

lemma gap_nat:
  assumes "cfg_ok cfg" and "raw_ok cfg b"
  shows "uint ((word_of_int (burst cfg) :: u64) - word_of_int (bucket b)) = burst cfg - bucket b"
proof -
  have eq: "(word_of_int (burst cfg) :: u64) - word_of_int (bucket b)
      = word_of_int (burst cfg - bucket b)"
    by simp
  have "0 \<le> burst cfg - bucket b" "burst cfg - bucket b < 2 ^ 64"
    using assms by (auto simp: cfg_ok_def raw_ok_def)
  then show ?thesis
    unfolding eq uint_word_of_int by simp
qed

lemma refill_guard:
  assumes "cfg_ok cfg" and "raw_ok cfg b"
  shows "ucast (elapsed :: u32) > ((word_of_int (burst cfg) :: u64) - word_of_int (bucket b)) div ucast (rate cfg)
     \<longleftrightarrow> burst cfg < bucket b + uint (rate cfg) * uint elapsed"
proof -
  have up: "uint (ucast w :: u64) = uint w" for w :: u32
    by (simp add: u_simps)
  have r: "uint (rate cfg) > 0"
    using assms by (simp add: cfg_ok_def word_neq_0_conv word_less_def)
  show ?thesis
    unfolding word_less_def uint_div gap_nat [OF assms] up int_div_less_iff [OF r]
    by (auto simp: algebra_simps)
qed

text \<open>One refill, exactly: the level rises by \<open>rate * elapsed\<close> and stops at the burst. None
  of the intermediate \<open>size_t\<close> and \<open>uint32_t\<close> computations loses anything.\<close>

lemma refill_level:
  assumes "cfg_ok cfg" and "raw_ok cfg b"
  shows "token_bucket_raw_refill_steps b cfg elapsed =
    (let l = min (burst cfg) (bucket b + uint (rate cfg) * uint elapsed)
     in Some (bucket b \<le> 0 \<and> l > 0, b\<lparr>bucket := l\<rparr>))"
proof (cases "burst cfg < bucket b + uint (rate cfg) * uint elapsed")
  case True
  with assms show ?thesis
    by (simp add: token_bucket_raw_refill_steps_def refill_guard cfg_ok_def Let_def)
next
  case False
  have nn: "0 \<le> uint (rate cfg) * uint elapsed" by simp
  have "uint (rate cfg) * uint elapsed < 2 ^ 32"
    using False assms by (simp add: cfg_ok_def raw_ok_def)
  then have "uint (rate cfg * elapsed) = uint (rate cfg) * uint elapsed"
    by (simp add: uint_mult_id)
  moreover have "i32 (bucket b + uint (rate cfg) * uint elapsed)
      = bucket b + uint (rate cfg) * uint elapsed"
    using False assms nn unfolding cfg_ok_def raw_ok_def by (intro i32_id) linarith+
  ultimately show ?thesis
    using False assms
    by (simp add: token_bucket_raw_refill_steps_def refill_guard cfg_ok_def Let_def)
qed

lemma dec_level:
  "0 \<le> n \<Longrightarrow> INT32_MIN \<le> bucket b - n \<Longrightarrow> bucket b \<le> INT32_MAX \<Longrightarrow>
    token_bucket_raw_dec b n = (bucket b > 0 \<and> n \<ge> bucket b, b\<lparr>bucket := bucket b - n\<rparr>)"
  by (simp add: token_bucket_raw_dec_def)

lemma refill_ok:
  "cfg_ok cfg \<Longrightarrow> raw_ok cfg b \<Longrightarrow> token_bucket_raw_refill_steps b cfg k = Some (f, b') \<Longrightarrow> raw_ok cfg b'"
  by (auto simp: refill_level Let_def raw_ok_def cfg_ok_def min_def)

section \<open>Runs of a raw bucket refine the ideal bucket\<close>

text \<open>The ideal bucket adds and subtracts integers. A run of the C bucket computes the same level
  as long as the ideal level never drops below what an \<open>int32_t\<close> can hold.\<close>

datatype raw_event = Refill u32 | Dec int

fun raw_step :: "token_bucket_cfg \<Rightarrow> token_bucket_raw \<Rightarrow> raw_event \<Rightarrow> token_bucket_raw option" where
  "raw_step cfg b (Refill k) = map_option snd (token_bucket_raw_refill_steps b cfg k)"
| "raw_step cfg b (Dec n) = Some (snd (token_bucket_raw_dec b n))"

fun ideal_step :: "token_bucket_cfg \<Rightarrow> int \<Rightarrow> raw_event \<Rightarrow> int" where
  "ideal_step cfg l (Refill k) = min (burst cfg) (l + uint (rate cfg) * uint k)"
| "ideal_step cfg l (Dec n) = l - n"

fun ideal_fits :: "token_bucket_cfg \<Rightarrow> int \<Rightarrow> raw_event list \<Rightarrow> bool" where
  "ideal_fits cfg l [] \<longleftrightarrow> True"
| "ideal_fits cfg l (e # es) \<longleftrightarrow>
     (case e of Refill k \<Rightarrow> True | Dec n \<Rightarrow> 0 \<le> n \<and> INT32_MIN \<le> l - n) \<and>
     ideal_fits cfg (ideal_step cfg l e) es"

lemma raw_step_ideal:
  assumes "cfg_ok cfg" and "raw_ok cfg b"
    and "case e of Refill k \<Rightarrow> True | Dec n \<Rightarrow> 0 \<le> n \<and> INT32_MIN \<le> bucket b - n"
  shows "raw_step cfg b e = Some (b\<lparr>bucket := ideal_step cfg (bucket b) e\<rparr>) \<and>
    raw_ok cfg (b\<lparr>bucket := ideal_step cfg (bucket b) e\<rparr>)"
proof (cases e)
  case (Refill k)
  then show ?thesis
    using assms by (auto simp: refill_level Let_def raw_ok_def cfg_ok_def min_def)
next
  case (Dec n)
  then show ?thesis
    using assms by (auto simp: dec_level raw_ok_def cfg_ok_def)
qed

lemma raw_run_ideal:
  "cfg_ok cfg \<Longrightarrow> raw_ok cfg b \<Longrightarrow> ideal_fits cfg (bucket b) es \<Longrightarrow>
    run (raw_step cfg) b es = Some (b\<lparr>bucket := foldl (ideal_step cfg) (bucket b) es\<rparr>)"
proof (induction es arbitrary: b)
  case (Cons e es)
  let ?b = "b\<lparr>bucket := ideal_step cfg (bucket b) e\<rparr>"
  from Cons.prems have step: "raw_step cfg b e = Some ?b" "raw_ok cfg ?b"
    using raw_step_ideal [of cfg b e] by simp_all
  with Cons.prems Cons.IH [of ?b] show ?case by simp
qed simp

section \<open>A counter spent against the clock\<close>

text \<open>A client of a \<open>token_bucket_ctr\<close> refills it at the current time and then withdraws
  only what it finds there; this is how the denial-of-service code and the stream limiter use it.\<close>

definition ctr_ok :: "token_bucket_ctr \<Rightarrow> bool" where
  "ctr_ok b \<longleftrightarrow> cfg_ok (ctr_cfg b) \<and> raw_ok (ctr_cfg b) (counter b)"

fun ctr_spend :: "token_bucket_ctr \<Rightarrow> u32 \<times> int \<Rightarrow> token_bucket_ctr option" where
  "ctr_spend b (now, n) = do {
     b1 \<leftarrow> token_bucket_ctr_refill b now;
     Some (if 0 \<le> n \<and> n \<le> token_bucket_raw_get (counter b1) then snd (token_bucket_ctr_dec b1 n)
           else b1)
   }"

text \<open>What one event takes out of the bucket, and the seconds it lets pass.\<close>

fun ctr_cost :: "token_bucket_ctr \<Rightarrow> u32 \<times> int \<Rightarrow> int" where
  "ctr_cost b (now, n) =
     (case token_bucket_ctr_refill b now of None \<Rightarrow> 0
      | Some b1 \<Rightarrow> if 0 \<le> n \<and> n \<le> token_bucket_raw_get (counter b1) then n else 0)"

fun ctr_elapsed :: "token_bucket_ctr \<Rightarrow> u32 \<times> int \<Rightarrow> int" where
  "ctr_elapsed b (now, n) = uint (now - ctr_last_refilled_at b)"

fun ctr_gain :: "token_bucket_ctr \<Rightarrow> u32 \<times> int \<Rightarrow> int" where
  "ctr_gain b e = uint (rate (ctr_cfg b)) * ctr_elapsed b e"

lemma ctr_refill_ok:
  assumes "ctr_ok b" and "token_bucket_ctr_refill b now = Some b1"
  shows "ctr_ok b1 \<and> ctr_cfg b1 = ctr_cfg b \<and> ctr_last_refilled_at b1 = now \<and>
    bucket (counter b1) \<le> bucket (counter b) + uint (rate (ctr_cfg b)) * ctr_elapsed b (now, n)"
  using assms
  by (auto simp: token_bucket_ctr_refill_def Let_def ctr_ok_def refill_level raw_ok_def cfg_ok_def
      split: if_splits)

lemma ctr_spend_step:
  assumes "ctr_ok b" and "ctr_spend b e = Some b'"
  shows "ctr_ok b' \<and> ctr_cfg b' = ctr_cfg b \<and>
    bucket (counter b') + ctr_cost b e \<le> bucket (counter b) + ctr_gain b e"
proof (cases e)
  case (Pair now n)
  with assms obtain b1 where b1: "token_bucket_ctr_refill b now = Some b1"
    and b': "b' = (if 0 \<le> n \<and> n \<le> token_bucket_raw_get (counter b1)
      then snd (token_bucket_ctr_dec b1 n) else b1)"
    by (auto split: bind_splits)
  note r = ctr_refill_ok [OF assms(1) b1, of n]
  show ?thesis
  proof (cases "0 \<le> n \<and> n \<le> token_bucket_raw_get (counter b1)")
    case True
    then have "INT32_MIN \<le> bucket (counter b1) - n" and "bucket (counter b1) \<le> INT32_MAX"
      using r by (auto simp: token_bucket_raw_get_def ctr_ok_def raw_ok_def cfg_ok_def split: if_splits)
    then show ?thesis
      using True r b1 b' Pair
      by (auto simp: token_bucket_ctr_dec_def dec_level ctr_ok_def raw_ok_def Let_def)
  next
    case False
    then show ?thesis using r b1 b' Pair by auto
  qed
qed

interpretation ctr: metered ctr_spend ctr_ok "\<lambda>b. bucket (counter b)" ctr_gain ctr_cost
  by unfold_locales (use ctr_spend_step in blast)+

lemma ctr_run_cfg: "run ctr_spend b es = Some b' \<Longrightarrow> ctr_ok b \<Longrightarrow> ctr_cfg b' = ctr_cfg b"
  by (induction rule: run_induct) (auto dest: ctr_spend_step)

lemma ctr_gain_along:
  "ctr_ok b \<Longrightarrow> along ctr_spend ctr_gain b es = uint (rate (ctr_cfg b)) * along ctr_spend ctr_elapsed b es"
proof (induction es arbitrary: b)
  case (Cons e es)
  then show ?case
    by (cases "ctr_spend b e") (auto simp: algebra_simps dest: ctr_spend_step)
qed simp

lemma ctr_level_nonneg:
  "run ctr_spend b es = Some b' \<Longrightarrow> ctr_ok b \<Longrightarrow> 0 \<le> bucket (counter b) \<Longrightarrow> 0 \<le> bucket (counter b')"
proof (induction rule: run_induct)
  case (Cons b e es b1 b')
  obtain now n where e: "e = (now, n)" by (cases e)
  have "0 \<le> bucket (counter b1)"
    using Cons.hyps(1) Cons.prems e
    by (auto simp: token_bucket_ctr_refill_def Let_def ctr_ok_def refill_level raw_ok_def cfg_ok_def
        token_bucket_ctr_dec_def token_bucket_raw_dec_def token_bucket_raw_get_def
        split: if_splits bind_splits)
  with Cons show ?case by (blast dest: ctr_spend_step)
qed simp

section \<open>Properties\<close>

definition rw_ok :: "token_bucket_rw \<Rightarrow> bool" where
  "rw_ok b \<longleftrightarrow> cfg_ok (rw_cfg b) \<and> raw_ok (rw_cfg b) (read_bucket b) \<and> raw_ok (rw_cfg b) (write_bucket b)"

text \<open>
  C1. Refilling a read-write bucket, on every branch: an elapsed time above a quarter of the clock
  range only moves the clock, less than one step changes nothing (not even the clock), and
  otherwise both levels rise by the rate times the elapsed steps and stop at the burst, and the
  returned mask says exactly which of them went from empty to non-empty. No intermediate
  \<open>size_t\<close>, \<open>uint32_t\<close> or \<open>int32_t\<close> computation loses a value.
\<close>

theorem token_bucket_rw_refill_exact:
  assumes "rw_ok b"
  shows "token_bucket_rw_refill b now =
    (let ticks = uint (now - rw_last_refilled_at b);
         up = (\<lambda>raw. raw\<lparr>bucket := min (burst (rw_cfg b))
                            (bucket raw + uint (rate (rw_cfg b)) * (ticks div 16))\<rparr>);
         rb = up (read_bucket b); wb = up (write_bucket b);
         flag = (\<lambda>raw raw' m. if bucket raw \<le> 0 \<and> bucket raw' > 0 then m else 0)
     in Some (if ticks > 1073741823 then (0, b\<lparr>rw_last_refilled_at := now\<rparr>)
              else if ticks < 16 then (0, b)
              else (flag (read_bucket b) rb TB_READ OR flag (write_bucket b) wb TB_WRITE,
                    b\<lparr>read_bucket := rb, write_bucket := wb, rw_last_refilled_at := now\<rparr>)))"
proof -
  let ?e = "now - rw_last_refilled_at b"
  have cap: "?e \<le> 1073741823 \<longleftrightarrow> \<not> uint ?e > 1073741823"
    by (simp add: word_le_def not_less)
  have zero: "?e div TICKS_PER_STEP = 0 \<longleftrightarrow> uint ?e < 16"
    using uint_nonnegative [of ?e] by (auto simp: uint_0_iff [symmetric] uint_div zdiv_eq_0_iff)
  have steps: "uint (?e div TICKS_PER_STEP) = uint ?e div 16"
    by (simp add: uint_div)
  show ?thesis
    using assms
    by (simp add: token_bucket_rw_refill_def rw_ok_def Let_def cap zero steps refill_level)
qed

theorem token_bucket_rw_refill_exact_witness:
  "token_bucket_rw_refill
     \<lparr>rw_cfg = \<lparr>rate = 10, burst = 100\<rparr>, read_bucket = \<lparr>bucket = -5\<rparr>,
      write_bucket = \<lparr>bucket = 70\<rparr>, rw_last_refilled_at = 4294967290\<rparr> 58 =
   Some (TB_READ, \<lparr>rw_cfg = \<lparr>rate = 10, burst = 100\<rparr>, read_bucket = \<lparr>bucket = 35\<rparr>,
      write_bucket = \<lparr>bucket = 100\<rparr>, rw_last_refilled_at = 58\<rparr>)"
  by (subst token_bucket_rw_refill_exact)
    (simp_all add: rw_ok_def cfg_ok_def raw_ok_def Let_def)

text \<open>
  C2. A raw bucket refines the ideal integer bucket: over any sequence of refills and
  non-negative withdrawals whose ideal level stays representable, the run of the C code does not
  abort and ends at exactly the ideal level.
\<close>

theorem token_bucket_refines_ideal:
  assumes "cfg_ok cfg" and "raw_ok cfg b" and "ideal_fits cfg (bucket b) es"
  shows "map_option bucket (run (raw_step cfg) b es) = Some (foldl (ideal_step cfg) (bucket b) es)"
  using raw_run_ideal [OF assms] by simp

theorem token_bucket_refines_ideal_witness:
  "map_option bucket (run (raw_step \<lparr>rate = 3, burst = 2147483647\<rparr>) \<lparr>bucket = -2147483648\<rparr>
     [Refill 4294967295, Dec 2147483650, Refill 1]) = Some 0"
  by (subst token_bucket_refines_ideal) (simp_all add: cfg_ok_def raw_ok_def)



end
