(* ===== verification/Flow_Control.thy ===== *)
theory Flow_Control
  imports Sendme Token_Bucket
begin

text \<open>
  Flow control of a single stream: XON and XOFF for circuits with congestion control
  (\<open>src/core/or/congestion_control_flow.c\<close>), the fixed stream windows for the others (the
  stream-level functions of \<open>src/core/or/sendme.c\<close>), and the two switches of
  \<open>src/core/mainloop/mainloop.c\<close> that stop and start reading from a connection.

  A stream is an \<open>edge_connection_t\<close>: the fields of \<open>edge_connection_st.h\<close> and of its base
  \<open>connection_st.h\<close> that these functions use. It names its circuit in the store of circuits, and
  its hop by the circuit and the position. The length of its output buffer is a field;
  \<open>n_written\<close> and the time are arguments. The cells an operation sends, and the call of
  \<open>connection_process_inbuf\<close> it ends with, are its \<open>edge_effect\<close>s, in order; \<open>send_ok\<close> is the
  result of \<open>connection_edge_send_command\<close>. The two averages for the MetricsPort and the controller
  events are not modelled.
\<close>

section \<open>State\<close>

datatype conn_type_t = CONN_TYPE_AP | CONN_TYPE_EXIT

datatype edge_effect = EDGE_XOFF bytes | EDGE_XON bytes | EDGE_SENDME | PROCESS_INBUF

record edge_connection_t =
  conn_type :: conn_type_t
  outbuf_len :: u64
  inbuf_len :: u64
  read_event :: "bool option"
  linked :: bool
  reading_from_linked_conn :: bool
  active_on_link :: bool
  is_dns_request :: bool
  conn_package_window :: int
  conn_deliver_window :: int
  on_circuit :: "circuit_name option"
  cpath_layer :: "(circuit_name \<times> nat) option"
  has_hs_ident :: bool
  conn_bucket :: token_bucket_rw
  drain_start_usec :: u64
  drained_bytes :: u32
  prev_drained_bytes :: u32
  ewma_drain_rate :: u32
  ewma_rate_last_sent :: u32
  total_bytes_xmit :: u32
  num_xoff_recv :: u8
  num_xon_recv :: u8
  xoff_sent :: bool
  xoff_received :: bool

record flow_globals =
  xoff_client :: u32
  xoff_exit :: u32
  xon_change_pct :: u32
  xon_ewma_cnt :: u32
  xon_rate_bytes :: u32
  cc_stats_flow_num_xoff_sent :: u64
  cc_stats_flow_num_xon_sent :: u64

abbreviation MAX_EXPECTED_CELL_BURST :: "'a::len word" where "MAX_EXPECTED_CELL_BURST \<equiv> 32"
abbreviation XON_COUNT_SCALE_AT :: u8 where "XON_COUNT_SCALE_AT \<equiv> 200"
abbreviation XOFF_COUNT_SCALE_AT :: u8 where "XOFF_COUNT_SCALE_AT \<equiv> 200"
abbreviation TOTAL_XMIT_SCALE_AT :: u64 where "TOTAL_XMIT_SCALE_AT \<equiv> 10485760"

definition flow_control_new_consensus_params ::
    "networkstatus option \<Rightarrow> networkstatus option \<Rightarrow> flow_globals \<Rightarrow> flow_globals option" where
  "flow_control_new_consensus_params latest ns g = do {
     client \<leftarrow> networkstatus_get_param latest ns ''cc_xoff_client'' 500 1 10000;
     exit \<leftarrow> networkstatus_get_param latest ns ''cc_xoff_exit'' 500 1 10000;
     change \<leftarrow> networkstatus_get_param latest ns ''cc_xon_change_pct'' 25 1 99;
     rate \<leftarrow> networkstatus_get_param latest ns ''cc_xon_rate'' 500 1 5000;
     cnt \<leftarrow> networkstatus_get_param latest ns ''cc_xon_ewma_cnt'' 2 2 100;
     Some (g\<lparr>xoff_client := word_of_int (client * RELAY_PAYLOAD_SIZE),
             xoff_exit := word_of_int (exit * RELAY_PAYLOAD_SIZE),
             xon_change_pct := word_of_int change,
             xon_rate_bytes := word_of_int (rate * RELAY_PAYLOAD_SIZE),
             xon_ewma_cnt := word_of_int cnt\<rparr>)
   }"

section \<open>Which streams use it\<close>

definition edge_uses_flow_control :: "circuits \<Rightarrow> edge_connection_t \<Rightarrow> bool" where
  "edge_uses_flow_control circs stream \<longleftrightarrow>
     (case on_circuit stream of Some c \<Rightarrow> ccontrol (circs c) \<noteq> None | None \<Rightarrow> False) \<or>
     (case cpath_layer stream of Some (c, i) \<Rightarrow> cp_ccontrol (cpath (circs c) ! i) \<noteq> None | None \<Rightarrow> False)"

text \<open>The hop that a cell came from; \<open>sets\<close> gives the conflux set of a circuit.\<close>

definition edge_uses_cpath ::
    "circuits \<Rightarrow> (circuit_name \<Rightarrow> 'c conflux_t option) \<Rightarrow> edge_connection_t \<Rightarrow> (circuit_name \<times> nat) option \<Rightarrow> bool" where
  "edge_uses_cpath circs sets conn cp =
     (case on_circuit conn of
        None \<Rightarrow> False
      | Some c \<Rightarrow>
          if is_origin (circs c)
          then case sets c of
                 Some cfx \<Rightarrow> list_ex (\<lambda>leg. Some (leg_circ leg, length (cpath (circs (leg_circ leg))) - 1) = cp) (legs cfx)
               | None \<Rightarrow> cp = cpath_layer conn
          else cp = None)"

text \<open>The largest RTT a stream's circuits have seen; a leg without congestion control is a null
  pointer.\<close>

fun max_rtt_loop :: "circuits \<Rightarrow> conflux_leg_t list \<Rightarrow> u64 \<Rightarrow> u64 option" where
  "max_rtt_loop circs [] max_rtt = Some max_rtt"
| "max_rtt_loop circs (leg # ls) max_rtt = do {
     cc \<leftarrow> circuit_ccontrol (circs (leg_circ leg));
     max_rtt_loop circs ls (if max_rtt_usec cc > max_rtt then max_rtt_usec cc else max_rtt)
   }"

definition edge_get_max_rtt :: "circuits \<Rightarrow> (circuit_name \<Rightarrow> 'c conflux_t option) \<Rightarrow> edge_connection_t \<Rightarrow> u64 option" where
  "edge_get_max_rtt circs sets stream =
     (case on_circuit stream of
        None \<Rightarrow> Some 0
      | Some c \<Rightarrow>
          (case sets c of
             Some cfx \<Rightarrow> max_rtt_loop circs (legs cfx) 0
           | None \<Rightarrow>
               Some (case ccontrol (circs c) of
                       Some cc \<Rightarrow> max_rtt_usec cc
                     | None \<Rightarrow>
                         (case cpath_layer stream of
                            Some (c', i) \<Rightarrow>
                              (case cp_ccontrol (cpath (circs c') ! i) of Some cc \<Rightarrow> max_rtt_usec cc | None \<Rightarrow> 0)
                          | None \<Rightarrow> 0))))"

section \<open>Reading\<close>

definition connection_check_event :: "edge_connection_t \<Rightarrow> bool option \<Rightarrow> int" where
  "connection_check_event conn ev =
     (if (if conn_type conn = CONN_TYPE_AP \<and> is_dns_request conn then ev \<noteq> None else ev = None) then -1 else 0)"

text \<open>\<open>active_on_link\<close> is also membership in the list of active linked connections, which the source
  asserts. \<open>should_read\<close> is \<open>connection_should_read_from_linked_conn\<close>.\<close>

definition connection_stop_reading :: "edge_connection_t \<Rightarrow> edge_connection_t" where
  "connection_stop_reading conn =
     (if connection_check_event conn (read_event conn) < 0 then conn
      else if linked conn then conn\<lparr>reading_from_linked_conn := False, active_on_link := False\<rparr>
      else conn\<lparr>read_event := Some False\<rparr>)"

definition connection_start_reading :: "bool \<Rightarrow> edge_connection_t \<Rightarrow> edge_connection_t \<times> edge_effect list" where
  "connection_start_reading should_read conn =
     (if connection_check_event conn (read_event conn) < 0 then (conn, [])
      else if linked conn
           then (conn\<lparr>reading_from_linked_conn := True, active_on_link := active_on_link conn \<or> should_read\<rparr>, [])
      else if xoff_received conn then (conn, [])
      else (conn\<lparr>read_event := Some True\<rparr>, if inbuf_len conn > 0 then [PROCESS_INBUF] else []))"

definition connection_outbuf_too_full :: "edge_connection_t \<Rightarrow> bool" where
  "connection_outbuf_too_full conn \<longleftrightarrow> outbuf_len conn > 10 * word_of_int CELL_PAYLOAD_SIZE"

section \<open>Sending XOFF and XON\<close>

definition circuit_send_stream_xoff ::
    "bool \<Rightarrow> flow_globals \<Rightarrow> edge_connection_t \<Rightarrow> flow_globals \<times> edge_connection_t \<times> edge_effect list" where
  "circuit_send_stream_xoff send_ok fg stream =
     (case xoff_cell_encode (nat CELL_PAYLOAD_SIZE) 0 of
        None \<Rightarrow> (fg, stream, [])
      | Some payload \<Rightarrow>
          if send_ok
          then (fg\<lparr>cc_stats_flow_num_xoff_sent := cc_stats_flow_num_xoff_sent fg + 1\<rparr>,
                stream\<lparr>xoff_sent := True\<rparr>, [EDGE_XOFF payload])
          else (fg, stream, []))"

definition compute_drain_rate :: "cc_globals \<Rightarrow> edge_connection_t \<Rightarrow> u64 \<Rightarrow> u32" where
  "compute_drain_rate g stream now =
     (if \<not> is_monotime_clock_reliable g then 0
      else let delta = now - drain_start_usec stream
           in if delta = 0 then 0
              else if prev_drained_bytes stream > word_of_int (INT32_MAX div 1000) \<or>
                      ucast (prev_drained_bytes stream) div delta > word_of_int (INT32_MAX div 1000)
                   then word_of_int INT32_MAX
              else ucast (max 1 (ucast (prev_drained_bytes stream * 1000) div delta)))"

definition circuit_send_stream_xon ::
    "bool \<Rightarrow> flow_globals \<Rightarrow> edge_connection_t \<Rightarrow> flow_globals \<times> edge_connection_t \<times> edge_effect list" where
  "circuit_send_stream_xon send_ok fg stream =
     (case xon_cell_encode (nat CELL_PAYLOAD_SIZE) \<lparr>xon_version = 0, kbps_ewma = ewma_drain_rate stream\<rparr> of
        None \<Rightarrow> (fg, stream, [])
      | Some payload \<Rightarrow>
          let stream1 = stream\<lparr>ewma_rate_last_sent := ewma_drain_rate stream\<rparr>
          in if send_ok
             then (fg\<lparr>cc_stats_flow_num_xon_sent := cc_stats_flow_num_xon_sent fg + 1\<rparr>,
                   stream1\<lparr>xoff_sent := False\<rparr>, [EDGE_XON payload])
             else (fg, stream1, []))"

section \<open>Processing XOFF and XON\<close>

text \<open>The counters are halved together before one of them grows past its limit.\<close>

definition scale_counts :: "edge_connection_t \<Rightarrow> edge_connection_t" where
  "scale_counts conn = conn\<lparr>total_bytes_xmit := total_bytes_xmit conn div 2,
     num_xoff_recv := num_xoff_recv conn div 2, num_xon_recv := num_xon_recv conn div 2\<rparr>"

definition circuit_process_stream_xoff ::
    "circuits \<Rightarrow> (circuit_name \<Rightarrow> 'c conflux_t option) \<Rightarrow> flow_globals \<Rightarrow> edge_connection_t
      \<Rightarrow> (circuit_name \<times> nat) option \<Rightarrow> bool \<times> edge_connection_t" where
  "circuit_process_stream_xoff circs sets fg conn layer_hint =
     (if \<not> edge_uses_cpath circs sets conn layer_hint then (False, conn)
      else if \<not> edge_uses_flow_control circs conn then (False, conn)
      else if xoff_received conn then (False, conn)
      else
        let conn1 = (if num_xoff_recv conn = XOFF_COUNT_SCALE_AT then scale_counts conn else conn);
            conn2 = conn1\<lparr>num_xoff_recv := num_xoff_recv conn1 + 1\<rparr>;
            limit = (if has_hs_ident conn2 then xoff_client fg else xoff_exit fg);
            retval = \<not> ((conn_type conn2 = CONN_TYPE_AP \<or> has_hs_ident conn2) \<and>
                        total_bytes_xmit conn2 < limit * ucast (num_xoff_recv conn2))
        in (retval, (connection_stop_reading conn2)\<lparr>xoff_received := True\<rparr>))"

text \<open>\<open>payload\<close> is the cell's payload after the relay header, whatever its declared length.\<close>

definition circuit_process_stream_xon ::
    "(u64 \<Rightarrow> u64) \<Rightarrow> bool \<Rightarrow> circuits \<Rightarrow> (circuit_name \<Rightarrow> 'c conflux_t option) \<Rightarrow> flow_globals \<Rightarrow> edge_connection_t
      \<Rightarrow> (circuit_name \<times> nat) option \<Rightarrow> bytes \<Rightarrow> bool \<times> edge_connection_t \<times> edge_effect list" where
  "circuit_process_stream_xon units_to_msec should_read circs sets fg conn layer_hint payload =
     (if \<not> edge_uses_cpath circs sets conn layer_hint then (False, conn, [])
      else if \<not> edge_uses_flow_control circs conn then (False, conn, [])
      else case xon_cell_parse payload of
             None \<Rightarrow> (False, conn, [])
           | Some (xon, _) \<Rightarrow>
               let conn1 = (if num_xon_recv conn = XON_COUNT_SCALE_AT then scale_counts conn else conn);
                   conn2 = conn1\<lparr>num_xon_recv := num_xon_recv conn1 + 1\<rparr>;
                   limit = (if has_hs_ident conn2 then min (xoff_client fg) (xon_rate_bytes fg)
                            else min (xoff_exit fg) (xon_rate_bytes fg));
                   retval = \<not> ((conn_type conn2 = CONN_TYPE_AP \<or> has_hs_ident conn2) \<and>
                               total_bytes_xmit conn2 < limit * ucast (num_xon_recv conn2));
                   rate0 = (ucast (kbps_ewma xon) :: u64) * 1000;
                   rate = (if rate0 = 0 \<or> word_of_int INT32_MAX < rate0 then word_of_int INT32_MAX else rate0);
                   conn3 = conn2\<lparr>conn_bucket := token_bucket_rw_adjust units_to_msec (conn_bucket conn2) (ucast rate) (ucast rate)\<rparr>;
                   (conn4, es) = (if xoff_received conn3 then connection_start_reading should_read (conn3\<lparr>xoff_received := False\<rparr>)
                                  else (conn3, []))
               in (retval, conn4, es))"

section \<open>Deciding on an XON\<close>

definition stream_drain_rate_changed :: "cc_globals \<Rightarrow> flow_globals \<Rightarrow> edge_connection_t \<Rightarrow> bool" where
  "stream_drain_rate_changed g fg stream =
     (if \<not> is_monotime_clock_reliable g then False
      else if ewma_rate_last_sent stream = 0 then False
      else if ucast (ewma_drain_rate stream) >
              (100 + ucast (xon_change_pct fg) :: u64) * ucast (ewma_rate_last_sent stream) div 100 then True
      else if ucast (ewma_drain_rate stream) <
              (100 - ucast (xon_change_pct fg) :: u64) * ucast (ewma_rate_last_sent stream) div 100 then True
      else False)"

text \<open>The five parts of \<open>flow_control_decide_xon\<close>: count what was written; start the clock; update
  the rate; send an XON; double the rate of a queue that stays empty.\<close>

definition note_drained :: "edge_connection_t \<Rightarrow> u64 \<Rightarrow> u64 \<Rightarrow> edge_connection_t" where
  "note_drained stream n_written now =
     (let stream1 =
        (if ucast (drained_bytes stream) \<ge> ucast (UINT32_MAX :: u32) - n_written
         then let s = stream\<lparr>drained_bytes := drained_bytes stream div 2\<rparr>
              in if drain_start_usec s \<noteq> 0
                 then s\<lparr>drain_start_usec := now - (now - drain_start_usec s) div 2\<rparr> else s
         else stream)
      in stream1\<lparr>drained_bytes := ucast (ucast (drained_bytes stream1) + n_written)\<rparr>)"

definition start_drain_clock :: "cc_globals \<Rightarrow> edge_connection_t \<Rightarrow> u64 \<Rightarrow> edge_connection_t" where
  "start_drain_clock g stream now =
     (if \<not> is_monotime_clock_reliable g then stream\<lparr>drain_start_usec := 0, drained_bytes := 0\<rparr>
      else if drain_start_usec stream = 0 \<and> outbuf_len stream > 0
           then stream\<lparr>drain_start_usec := now, drained_bytes := 0\<rparr>
      else stream)"

definition update_drain_rate :: "cc_globals \<Rightarrow> flow_globals \<Rightarrow> edge_connection_t \<Rightarrow> u64 \<Rightarrow> edge_connection_t option" where
  "update_drain_rate g fg stream now =
     (if drain_start_usec stream \<noteq> 0 \<and> drained_bytes stream > xon_rate_bytes fg
      then let stream1 = (if prev_drained_bytes stream = 0 then stream\<lparr>prev_drained_bytes := drained_bytes stream\<rparr> else stream);
               drain_rate = compute_drain_rate g stream1 now;
               stream2 = stream1\<lparr>prev_drained_bytes := drained_bytes stream1\<rparr>
           in if drain_rate \<noteq> 0
              then do {
                ewma \<leftarrow> n_count_ewma (ucast drain_rate) (ucast (ewma_drain_rate stream2)) (ucast (xon_ewma_cnt fg));
                Some (stream2\<lparr>ewma_drain_rate := ucast ewma, drained_bytes := 0, drain_start_usec := 0\<rparr>)
              }
              else Some stream2
      else Some stream)"

definition send_xon_if_due ::
    "bool \<Rightarrow> cc_globals \<Rightarrow> flow_globals \<Rightarrow> edge_connection_t \<Rightarrow> flow_globals \<times> edge_connection_t \<times> edge_effect list" where
  "send_xon_if_due send_ok g fg stream =
     (if \<not> xoff_sent stream
      then if stream_drain_rate_changed g fg stream then circuit_send_stream_xon send_ok fg stream else (fg, stream, [])
      else if outbuf_len stream = 0 then circuit_send_stream_xon send_ok fg stream
      else (fg, stream, []))"

definition stop_drain_clock :: "flow_globals \<Rightarrow> edge_connection_t \<Rightarrow> edge_connection_t" where
  "stop_drain_clock fg stream =
     (if outbuf_len stream = 0
      then let stream1 = stream\<lparr>drain_start_usec := 0\<rparr>
           in if drained_bytes stream1 \<ge> xon_rate_bytes fg \<and> ewma_rate_last_sent stream1 \<noteq> 0
              then stream1\<lparr>ewma_drain_rate := min (word_of_int INT32_MAX) (2 * ewma_drain_rate stream1),
                           prev_drained_bytes := drained_bytes stream1, drained_bytes := 0\<rparr>
              else stream1
      else stream)"

definition flow_control_decide_xon ::
    "bool \<Rightarrow> cc_globals \<Rightarrow> flow_globals \<Rightarrow> edge_connection_t \<Rightarrow> u64 \<Rightarrow> u64
      \<Rightarrow> (flow_globals \<times> edge_connection_t \<times> edge_effect list) option" where
  "flow_control_decide_xon send_ok g fg stream n_written now = do {
     stream1 \<leftarrow> update_drain_rate g fg (start_drain_clock g (note_drained stream n_written now) now) now;
     let (fg1, stream2, es) = send_xon_if_due send_ok g fg stream1;
     Some (fg1, stop_drain_clock fg1 stream2, es)
   }"

section \<open>Deciding on an XOFF\<close>

definition flow_control_decide_xoff ::
    "bool \<Rightarrow> circuits \<Rightarrow> cc_globals \<Rightarrow> flow_globals \<Rightarrow> edge_connection_t \<Rightarrow> u64
      \<Rightarrow> (int \<times> flow_globals \<times> edge_connection_t \<times> edge_effect list) option" where
  "flow_control_decide_xoff send_ok circs g fg stream now =
     (let total_buffered = outbuf_len stream
      in if \<not> edge_uses_flow_control circs stream then Some (-1, fg, stream, [])
         else
           let buffer_limit_xoff = (if conn_type stream = CONN_TYPE_AP \<or> has_hs_ident stream
                                    then xoff_client fg else xoff_exit fg);
               (fg1, stream1, es) =
                 (if total_buffered > ucast buffer_limit_xoff \<and> \<not> xoff_sent stream
                  then let (fg1, stream1, es) = circuit_send_stream_xoff send_ok fg stream
                       in (fg1, stream1\<lparr>ewma_drain_rate := 0\<rparr>, es)
                  else (fg, stream, []))
           in if total_buffered > MAX_EXPECTED_CELL_BURST * word_of_int RELAY_PAYLOAD_SIZE
              then do {
                (fg2, stream2, es2) \<leftarrow> flow_control_decide_xon send_ok g fg1 stream1 0 now;
                Some (0, fg2, stream2, es @ es2)
              }
              else Some (0, fg1, stream1, es))"

definition flow_control_note_sent_data :: "edge_connection_t \<Rightarrow> u64 \<Rightarrow> edge_connection_t" where
  "flow_control_note_sent_data stream len =
     (let stream1 = (if ucast (total_bytes_xmit stream) \<ge> TOTAL_XMIT_SCALE_AT - len then scale_counts stream else stream)
      in stream1\<lparr>total_bytes_xmit := ucast (ucast (total_bytes_xmit stream1) + len)\<rparr>)"

section \<open>Streams on either kind of circuit\<close>

function edge_consider_loop :: "bool \<Rightarrow> edge_connection_t \<Rightarrow> edge_effect list \<Rightarrow> edge_connection_t \<times> edge_effect list" where
  "edge_consider_loop send_ok conn sent =
     (if conn_deliver_window conn \<le> STREAMWINDOW_START - STREAMWINDOW_INCREMENT
      then let conn1 = conn\<lparr>conn_deliver_window := conn_deliver_window conn + STREAMWINDOW_INCREMENT\<rparr>
           in if \<not> send_ok then (conn1, sent)
              else edge_consider_loop send_ok conn1 (sent @ [EDGE_SENDME])
      else (conn, sent))"
  by pat_completeness auto
termination
  by (relation "measure (\<lambda>(_, conn, _). nat (STREAMWINDOW_START - conn_deliver_window conn))") auto

declare edge_consider_loop.simps [simp del]

definition sendme_connection_edge_consider_sending ::
    "bool \<Rightarrow> circuits \<Rightarrow> edge_connection_t \<Rightarrow> edge_connection_t \<times> edge_effect list" where
  "sendme_connection_edge_consider_sending send_ok circs conn =
     (if edge_uses_flow_control circs conn then (conn, [])
      else if connection_outbuf_too_full conn then (conn, [])
      else if on_circuit conn = None then (conn, [])
      else edge_consider_loop send_ok conn [])"

definition sendme_process_stream_level :: "circuits \<Rightarrow> edge_connection_t \<Rightarrow> int \<times> edge_connection_t" where
  "sendme_process_stream_level circs conn =
     (if edge_uses_flow_control circs conn then (- END_TORPROTOCOL, conn)
      else if conn_package_window conn + STREAMWINDOW_INCREMENT > STREAMWINDOW_START_MAX then (- END_TORPROTOCOL, conn)
      else (0, conn\<lparr>conn_package_window := conn_package_window conn + STREAMWINDOW_INCREMENT\<rparr>))"

definition sendme_stream_data_received ::
    "bool \<Rightarrow> circuits \<Rightarrow> cc_globals \<Rightarrow> flow_globals \<Rightarrow> edge_connection_t \<Rightarrow> u64
      \<Rightarrow> (int \<times> flow_globals \<times> edge_connection_t \<times> edge_effect list) option" where
  "sendme_stream_data_received send_ok circs g fg conn now =
     (if edge_uses_flow_control circs conn then flow_control_decide_xoff send_ok circs g fg conn now
      else Some (conn_deliver_window conn - 1, fg,
                 conn\<lparr>conn_deliver_window := conn_deliver_window conn - 1\<rparr>, []))"

definition sendme_note_stream_data_packaged :: "circuits \<Rightarrow> edge_connection_t \<Rightarrow> u64 \<Rightarrow> int \<times> edge_connection_t" where
  "sendme_note_stream_data_packaged circs conn len =
     (if edge_uses_flow_control circs conn
      then let conn1 = flow_control_note_sent_data conn len
           in (if xoff_received conn1 then -1 else 1, conn1)
      else (conn_package_window conn - 1, conn\<lparr>conn_package_window := conn_package_window conn - 1\<rparr>))"

section \<open>What the operations leave alone\<close>

text \<open>The part of a stream that flow control does not change.\<close>

definition same_stream :: "edge_connection_t \<Rightarrow> edge_connection_t \<Rightarrow> bool" where
  "same_stream s' s \<longleftrightarrow> conn_type s' = conn_type s \<and> outbuf_len s' = outbuf_len s \<and> inbuf_len s' = inbuf_len s \<and>
     linked s' = linked s \<and> is_dns_request s' = is_dns_request s \<and> conn_package_window s' = conn_package_window s \<and>
     conn_deliver_window s' = conn_deliver_window s \<and> on_circuit s' = on_circuit s \<and> cpath_layer s' = cpath_layer s \<and>
     has_hs_ident s' = has_hs_ident s"

text \<open>The writing side leaves the counters of the reading side alone as well.\<close>

definition same_reading :: "edge_connection_t \<Rightarrow> edge_connection_t \<Rightarrow> bool" where
  "same_reading s' s \<longleftrightarrow> same_stream s' s \<and> read_event s' = read_event s \<and>
     reading_from_linked_conn s' = reading_from_linked_conn s \<and> active_on_link s' = active_on_link s \<and>
     conn_bucket s' = conn_bucket s \<and> total_bytes_xmit s' = total_bytes_xmit s \<and> num_xoff_recv s' = num_xoff_recv s \<and>
     num_xon_recv s' = num_xon_recv s \<and> xoff_received s' = xoff_received s"

lemmas same_defs = same_reading_def same_stream_def

lemma uses_flow_control_cong:
  "same_stream s' s \<Longrightarrow> edge_uses_flow_control circs s' = edge_uses_flow_control circs s"
  by (simp add: same_stream_def edge_uses_flow_control_def)

lemma same_limits:
  "same_stream s' s \<Longrightarrow> conn_type s' = conn_type s \<and> has_hs_ident s' = has_hs_ident s \<and> outbuf_len s' = outbuf_len s"
  by (simp add: same_stream_def)

lemma note_drained_frame:
  "same_reading (note_drained s n now) s \<and> xoff_sent (note_drained s n now) = xoff_sent s \<and>
   ewma_drain_rate (note_drained s n now) = ewma_drain_rate s \<and> ewma_rate_last_sent (note_drained s n now) = ewma_rate_last_sent s"
  by (simp add: note_drained_def same_defs Let_def)

lemma start_drain_clock_frame:
  "same_reading (start_drain_clock g s now) s \<and> xoff_sent (start_drain_clock g s now) = xoff_sent s \<and>
   ewma_drain_rate (start_drain_clock g s now) = ewma_drain_rate s \<and>
   ewma_rate_last_sent (start_drain_clock g s now) = ewma_rate_last_sent s"
  by (simp add: start_drain_clock_def same_defs)

lemma stop_drain_clock_frame:
  "same_reading (stop_drain_clock fg s) s \<and> xoff_sent (stop_drain_clock fg s) = xoff_sent s \<and>
   ewma_rate_last_sent (stop_drain_clock fg s) = ewma_rate_last_sent s"
  by (simp add: stop_drain_clock_def same_defs Let_def)

lemma update_drain_rate_frame:
  assumes "update_drain_rate g fg s now = Some s'"
  shows "same_reading s' s \<and> xoff_sent s' = xoff_sent s \<and> ewma_rate_last_sent s' = ewma_rate_last_sent s"
  using assms by (auto simp: update_drain_rate_def same_defs Let_def split: if_splits bind_splits)

lemma same_reading_trans: "same_reading s3 s2 \<Longrightarrow> same_reading s2 s1 \<Longrightarrow> same_reading s3 s1"
  by (simp add: same_defs)

section \<open>Rates stay in range\<close>

abbreviation in_range :: "u32 \<Rightarrow> bool" where "in_range r \<equiv> unat r \<le> 2147483647"

lemma compute_drain_rate_range: "in_range (compute_drain_rate g s now)" for s :: edge_connection_t
proof -
  have m: "unat (ucast (max 1 (ucast (prev_drained_bytes s * 1000) div delta)) :: u32) \<le> 2147483647"
    if "\<not> prev_drained_bytes s > word_of_int (INT32_MAX div 1000)" for delta :: u64 and s :: edge_connection_t
  proof -
    have p: "unat (prev_drained_bytes s) \<le> 2147483" using that by (simp add: word_le_nat_alt not_less)
    have "unat (prev_drained_bytes s * 1000) = unat (prev_drained_bytes s) * 1000"
      using p by (subst unat_mult_id) simp_all
    then have u: "unat (ucast (prev_drained_bytes s * 1000) :: u64) \<le> 2147483000"
      using p by (simp add: unat_ucast_up)
    have "unat (ucast (prev_drained_bytes s * 1000) div delta) \<le> 2147483000"
      using le_trans [OF div_le_dividend u, of "unat delta"] by (simp only: unat_div_distrib)
    then have "unat (max 1 (ucast (prev_drained_bytes s * 1000) div delta)) \<le> 2147483000"
      by (simp add: max_def)
    then show ?thesis
      by (simp add: unsigned_ucast_eq take_bit_nat_eq_self)
  qed
  show ?thesis
    using m by (auto simp: compute_drain_rate_def Let_def)
qed

lemma ewma_range:
  assumes "in_range v" and "in_range p" and "cnt \<noteq> 0" and "n_count_ewma (ucast v) (ucast p) (ucast (cnt :: u32)) = Some e"
  shows "unat e \<le> 2147483647"
proof (cases "p = 0")
  case True
  then show ?thesis using assms by (auto simp: n_count_ewma_def unat_ucast_up)
next
  case False
  have "unat (ucast p :: u64) \<noteq> unat (0 :: u64)" using False by (simp add: unat_ucast_up unat_eq_0)
  then have p: "ucast p \<noteq> (0 :: u64)" by metis
  have v: "unat (ucast v :: u64) \<le> 2147483647" "unat (ucast p :: u64) \<le> 2147483647" "unat (ucast cnt :: u64) \<le> 4294967295"
    using assms unat_le32 [of cnt] by (simp_all add: unat_ucast_up)
  have "1 \<le> unat cnt" using assms(3) by (simp add: Suc_le_eq unat_gt_0)
  then have c: "1 \<le> unat (ucast cnt :: u64)" by (simp add: unat_ucast_up)
  have "(unat (ucast cnt :: u64) - 1) * unat (ucast p :: u64) \<le> 4294967294 * 2147483647"
    using v by (intro mult_mono) auto
  then have "2 * unat (ucast v :: u64) + (unat (ucast cnt :: u64) - 1) * unat (ucast p :: u64) < 2 ^ 64"
    using v(1) by simp
  from n_count_ewma_between [OF p c _ this]
  have "min (ucast v) (ucast p) \<le> e \<and> e \<le> max (ucast v) (ucast p)"
    using v(3) assms(4) by auto
  then have "e \<le> max (ucast v) (ucast p)" by blast
  then have "unat e \<le> max (unat v) (unat p)"
    by (auto simp: word_le_nat_alt unat_ucast_up max_def split: if_splits)
  then show ?thesis using assms(1,2) by simp
qed

lemma update_drain_rate_returns: "\<exists>s'. update_drain_rate g fg s now = Some s'"
proof -
  have "ucast (xon_ewma_cnt fg) + 1 \<noteq> (0 :: u64)"
  proof -
    have "unat (ucast (xon_ewma_cnt fg) + 1 :: u64) = unat (xon_ewma_cnt fg) + 1"
      using unat_le32 [of "xon_ewma_cnt fg"] by (subst unat_add_id) (simp_all add: unat_ucast_up)
    then show ?thesis by (metis add_is_0 one_neq_zero unat_0)
  qed
  then show ?thesis by (auto simp: update_drain_rate_def n_count_ewma_def Let_def)
qed

text \<open>The rates of a stream fit the \<open>int\<close> they are logged and sent as.\<close>

definition rates_ok :: "edge_connection_t \<Rightarrow> bool" where
  "rates_ok s \<longleftrightarrow> in_range (ewma_drain_rate s) \<and> in_range (ewma_rate_last_sent s)"

lemma update_drain_rate_ok:
  assumes "update_drain_rate g fg s now = Some s'" and "rates_ok s" and "xon_ewma_cnt fg \<noteq> 0"
  shows "rates_ok s'"
proof (cases "ewma_drain_rate s' = ewma_drain_rate s")
  case True
  then show ?thesis using update_drain_rate_frame [OF assms(1)] assms(2) by (simp add: rates_ok_def)
next
  case False
  then obtain s1 e where e: "n_count_ewma (ucast (compute_drain_rate g s1 now)) (ucast (ewma_drain_rate s)) (ucast (xon_ewma_cnt fg)) = Some e"
      "ewma_drain_rate s' = ucast e"
    using assms(1) by (auto simp: update_drain_rate_def Let_def split: if_splits bind_splits)
  have r: "unat e \<le> 2147483647"
    using ewma_range [OF compute_drain_rate_range _ assms(3) e(1)] assms(2) by (simp add: rates_ok_def)
  then have "unat (ucast e :: u32) = unat e" by (simp add: unsigned_ucast_eq take_bit_nat_eq_self)
  then show ?thesis
    using r e(2) update_drain_rate_frame [OF assms(1)] assms(2) by (simp add: rates_ok_def)
qed

lemma stop_drain_clock_ok: "rates_ok s \<Longrightarrow> rates_ok (stop_drain_clock fg s)"
proof -
  assume ok: "rates_ok s"
  have "unat (min (word_of_int INT32_MAX) (2 * ewma_drain_rate s)) \<le> 2147483647"
    by (simp add: min_def word_le_nat_alt)
  then show ?thesis
    using ok by (auto simp: rates_ok_def stop_drain_clock_def Let_def)
qed

section \<open>Decisions\<close>

text \<open>The limits that the consensus sets; the counters of cells sent do not matter.\<close>

definition same_limits_fg :: "flow_globals \<Rightarrow> flow_globals \<Rightarrow> bool" where
  "same_limits_fg fg' fg \<longleftrightarrow> xoff_client fg' = xoff_client fg \<and> xoff_exit fg' = xoff_exit fg \<and>
     xon_change_pct fg' = xon_change_pct fg \<and> xon_ewma_cnt fg' = xon_ewma_cnt fg \<and> xon_rate_bytes fg' = xon_rate_bytes fg"

lemma send_xoff_cases:
  "circuit_send_stream_xoff send_ok fg s =
     (if send_ok then (fg\<lparr>cc_stats_flow_num_xoff_sent := cc_stats_flow_num_xoff_sent fg + 1\<rparr>, s\<lparr>xoff_sent := True\<rparr>, [EDGE_XOFF [0]])
      else (fg, s, []))"
  by (simp add: circuit_send_stream_xoff_def xoff_cell_encode_def)

definition xon_payload :: "u32 \<Rightarrow> bytes" where
  "xon_payload r = 0 # put_uint r"

lemma xon_payload_parse: "xon_cell_parse (xon_payload r @ pad) = Some (\<lparr>xon_version = 0, kbps_ewma = r\<rparr>, pad)"
  using xon_cell_parse_encode [of 5 "\<lparr>xon_version = 0, kbps_ewma = r\<rparr>" "xon_payload r" pad]
  by (simp add: xon_payload_def xon_cell_encode_def)

lemma send_xon_cases:
  "circuit_send_stream_xon send_ok fg s =
     (if send_ok
      then (fg\<lparr>cc_stats_flow_num_xon_sent := cc_stats_flow_num_xon_sent fg + 1\<rparr>,
            s\<lparr>ewma_rate_last_sent := ewma_drain_rate s, xoff_sent := False\<rparr>, [EDGE_XON (xon_payload (ewma_drain_rate s))])
      else (fg, s\<lparr>ewma_rate_last_sent := ewma_drain_rate s\<rparr>, []))"
  by (simp add: circuit_send_stream_xon_def xon_cell_encode_def xon_payload_def)

lemma send_xon_if_due_cases:
  assumes "send_xon_if_due send_ok g fg s = (fg', s', es)"
  defines "due \<equiv> if xoff_sent s then outbuf_len s = 0 else stream_drain_rate_changed g fg s"
  shows "same_reading s' s \<and> same_limits_fg fg' fg \<and> ewma_drain_rate s' = ewma_drain_rate s \<and>
    ewma_rate_last_sent s' = (if due then ewma_drain_rate s else ewma_rate_last_sent s) \<and>
    xoff_sent s' = (xoff_sent s \<and> \<not> (due \<and> send_ok)) \<and>
    es = (if due \<and> send_ok then [EDGE_XON (xon_payload (ewma_drain_rate s))] else [])"
  using assms
  by (auto simp: send_xon_if_due_def send_xon_cases same_limits_fg_def same_defs split: if_splits)

lemma decide_xon_cases:
  assumes "flow_control_decide_xon send_ok g fg s n now = Some (fg', s', es)"
  shows "same_reading s' s \<and> same_limits_fg fg' fg \<and>
    (\<exists>s1. update_drain_rate g fg (start_drain_clock g (note_drained s n now) now) now = Some s1 \<and>
      (let due = if xoff_sent s then outbuf_len s = 0 else stream_drain_rate_changed g fg s1
       in xoff_sent s' = (xoff_sent s \<and> \<not> (due \<and> send_ok)) \<and>
          es = (if due \<and> send_ok then [EDGE_XON (xon_payload (ewma_drain_rate s1))] else []))) \<and>
    (rates_ok s \<and> xon_ewma_cnt fg \<noteq> 0 \<longrightarrow> rates_ok s')"
proof -
  define s0 where "s0 = start_drain_clock g (note_drained s n now) now"
  from assms obtain s1 s2 where u: "update_drain_rate g fg s0 now = Some s1"
    and d: "send_xon_if_due send_ok g fg s1 = (fg', s2, es)" and s': "s' = stop_drain_clock fg' s2"
    by (auto simp: flow_control_decide_xon_def s0_def split: bind_splits prod.splits)
  have f0: "same_reading s0 s" "xoff_sent s0 = xoff_sent s" "ewma_drain_rate s0 = ewma_drain_rate s"
      "ewma_rate_last_sent s0 = ewma_rate_last_sent s"
    using note_drained_frame [of s n now] start_drain_clock_frame [of g "note_drained s n now" now]
    by (auto simp: s0_def intro: same_reading_trans)
  note f1 = update_drain_rate_frame [OF u] and f2 = send_xon_if_due_cases [OF d] and f3 = stop_drain_clock_frame [of fg' s2]
  have fr: "same_reading s' s" using f0(1) f1 f2 f3 unfolding s' by (blast intro: same_reading_trans)
  have o: "outbuf_len s1 = outbuf_len s" using f0(1) f1 by (simp add: same_defs)
  have ok: "rates_ok s'" if "rates_ok s" "xon_ewma_cnt fg \<noteq> 0"
  proof -
    have "rates_ok s0" using that(1) f0 by (simp add: rates_ok_def)
    from update_drain_rate_ok [OF u this that(2)] have "rates_ok s2"
      using f2 by (simp add: rates_ok_def)
    then show ?thesis unfolding s' by (rule stop_drain_clock_ok)
  qed
  show ?thesis
    using fr f2 f3 f1 f0(2) o u ok by (auto simp: s' Let_def s0_def)
qed

lemma decide_xon_returns: "\<exists>fg' s' es. flow_control_decide_xon send_ok g fg s n now = Some (fg', s', es)"
proof -
  obtain s1 where "update_drain_rate g fg (start_drain_clock g (note_drained s n now) now) now = Some s1"
    using update_drain_rate_returns by blast
  then show ?thesis
    by (cases "send_xon_if_due send_ok g fg s1") (auto simp: flow_control_decide_xon_def)
qed

text \<open>The limit at which a stream sends an XOFF.\<close>

definition xoff_limit :: "flow_globals \<Rightarrow> edge_connection_t \<Rightarrow> u32" where
  "xoff_limit fg s = (if conn_type s = CONN_TYPE_AP \<or> has_hs_ident s then xoff_client fg else xoff_exit fg)"

lemma decide_xoff_cases:
  assumes "flow_control_decide_xoff True circs g fg s now = Some (ret, fg', s', es)" and "edge_uses_flow_control circs s"
  defines "full \<equiv> outbuf_len s > ucast (xoff_limit fg s)"
  shows "ret = 0 \<and> same_reading s' s \<and> same_limits_fg fg' fg \<and>
    (\<exists>xons. es = (if full \<and> \<not> xoff_sent s then [EDGE_XOFF [0]] else []) @ xons \<and>
      (xons = [] \<or> (\<exists>r. xons = [EDGE_XON (xon_payload r)])) \<and>
      (xoff_sent s \<or> full \<longrightarrow> (outbuf_len s \<noteq> 0 \<longrightarrow> xons = []) \<and> (xoff_sent s' \<longleftrightarrow> xons = [])) \<and>
      (\<not> xoff_sent s \<and> \<not> full \<longrightarrow> \<not> xoff_sent s')) \<and>
    (rates_ok s \<and> xon_ewma_cnt fg \<noteq> 0 \<longrightarrow> rates_ok s')"
proof -
  define fx where "fx = (if full \<and> \<not> xoff_sent s
      then (fg\<lparr>cc_stats_flow_num_xoff_sent := cc_stats_flow_num_xoff_sent fg + 1\<rparr>,
            s\<lparr>xoff_sent := True, ewma_drain_rate := 0\<rparr>, [EDGE_XOFF [0]]) else (fg, s, []))"
  obtain fg1 s1 es1 where fx1: "fx = (fg1, s1, es1)" by (cases fx)
  have one: "same_reading s1 s" "same_limits_fg fg1 fg" "xoff_sent s1 = (xoff_sent s \<or> full)"
      "rates_ok s \<longrightarrow> rates_ok s1" "es1 = (if full \<and> \<not> xoff_sent s then [EDGE_XOFF [0]] else [])"
    using fx1 by (auto simp: fx_def same_defs same_limits_fg_def rates_ok_def split: if_splits)
  have d: "(if outbuf_len s > MAX_EXPECTED_CELL_BURST * word_of_int RELAY_PAYLOAD_SIZE
        then flow_control_decide_xon True g fg1 s1 0 now \<bind> (\<lambda>(fg2, s2, es2). Some (0, fg2, s2, es1 @ es2))
        else Some (0, fg1, s1, es1)) = Some (ret, fg', s', es)"
    using assms(1,2) fx1 unfolding fx_def full_def xoff_limit_def
    by (auto simp: flow_control_decide_xoff_def send_xoff_cases Let_def split: if_splits)
  show ?thesis
  proof (cases "outbuf_len s > MAX_EXPECTED_CELL_BURST * word_of_int RELAY_PAYLOAD_SIZE")
    case True
    then obtain es2 where x: "flow_control_decide_xon True g fg1 s1 0 now = Some (fg', s', es2)" "es = es1 @ es2" "ret = 0"
      using d by (auto split: bind_splits)
    note c = decide_xon_cases [OF x(1)]
    have "outbuf_len s1 = outbuf_len s" using one(1) by (simp add: same_defs)
    moreover have "xon_ewma_cnt fg1 = xon_ewma_cnt fg" using one(2) by (simp add: same_limits_fg_def)
    moreover have "same_limits_fg fg' fg" using c one(2) by (simp add: same_limits_fg_def)
    moreover have "same_reading s' s" using c one(1) same_reading_trans by blast
    ultimately show ?thesis
      using c one x(2,3) by (auto simp: Let_def split: if_splits)
  next
    case False
    then show ?thesis using d one by auto
  qed
qed

section \<open>The reading side\<close>

text \<open>The counters never wrap: they are halved first.\<close>

definition xmit_ok :: "edge_connection_t \<Rightarrow> bool" where
  "xmit_ok s \<longleftrightarrow> unat (num_xoff_recv s) \<le> 200 \<and> unat (num_xon_recv s) \<le> 200 \<and> unat (total_bytes_xmit s) < 10485760"

lemma scale_counts_nat:
  "unat (total_bytes_xmit (scale_counts s)) = unat (total_bytes_xmit s) div 2"
  "unat (num_xoff_recv (scale_counts s)) = unat (num_xoff_recv s) div 2"
  "unat (num_xon_recv (scale_counts s)) = unat (num_xon_recv s) div 2"
  by (simp_all add: scale_counts_def unat_div_distrib)

lemma scale_counts_frame: "same_stream (scale_counts s) s \<and> xoff_received (scale_counts s) = xoff_received s \<and>
   read_event (scale_counts s) = read_event s \<and> conn_bucket (scale_counts s) = conn_bucket s"
  by (simp add: scale_counts_def same_stream_def)

lemma note_sent_data_nat:
  assumes "xmit_ok s" and "unat len \<le> 498"
  shows "unat (total_bytes_xmit (flow_control_note_sent_data s len)) =
      (if unat (total_bytes_xmit s) + unat len \<ge> 10485760 then unat (total_bytes_xmit s) div 2 else unat (total_bytes_xmit s)) + unat len"
    and "unat (num_xoff_recv (flow_control_note_sent_data s len)) =
      (if unat (total_bytes_xmit s) + unat len \<ge> 10485760 then unat (num_xoff_recv s) div 2 else unat (num_xoff_recv s))"
    and "unat (num_xon_recv (flow_control_note_sent_data s len)) =
      (if unat (total_bytes_xmit s) + unat len \<ge> 10485760 then unat (num_xon_recv s) div 2 else unat (num_xon_recv s))"
proof -
  have "unat (TOTAL_XMIT_SCALE_AT - len) = 10485760 - unat len"
    using assms(2) by (subst unat_sub) (simp_all add: word_le_nat_alt)
  then have g: "ucast (total_bytes_xmit s) \<ge> TOTAL_XMIT_SCALE_AT - len \<longleftrightarrow> unat (total_bytes_xmit s) + unat len \<ge> 10485760"
    using assms(2) by (simp add: word_le_nat_alt unat_ucast_up) linarith
  have a: "unat (ucast (ucast t + len) :: u32) = unat t + unat len" if "unat t < 10485760" for t :: u32
  proof -
    have "unat (ucast t + len) = unat t + unat len"
      using that assms(2) by (subst unat_add_id) (simp_all add: unat_ucast_up)
    then show ?thesis using that assms(2) by (simp add: unsigned_ucast_eq take_bit_nat_eq_self)
  qed
  have t: "unat (total_bytes_xmit s) < 10485760" using assms(1) by (simp add: xmit_ok_def)
  then have "unat (total_bytes_xmit (scale_counts s)) < 10485760" by (simp add: scale_counts_nat)
  with t show "unat (total_bytes_xmit (flow_control_note_sent_data s len)) =
      (if unat (total_bytes_xmit s) + unat len \<ge> 10485760 then unat (total_bytes_xmit s) div 2 else unat (total_bytes_xmit s)) + unat len"
    by (simp add: flow_control_note_sent_data_def g a scale_counts_nat Let_def)
  show "unat (num_xoff_recv (flow_control_note_sent_data s len)) =
      (if unat (total_bytes_xmit s) + unat len \<ge> 10485760 then unat (num_xoff_recv s) div 2 else unat (num_xoff_recv s))"
    "unat (num_xon_recv (flow_control_note_sent_data s len)) =
      (if unat (total_bytes_xmit s) + unat len \<ge> 10485760 then unat (num_xon_recv s) div 2 else unat (num_xon_recv s))"
    by (simp_all add: flow_control_note_sent_data_def g scale_counts_nat Let_def)
qed

lemma note_sent_data_ok: "xmit_ok s \<Longrightarrow> unat len \<le> 498 \<Longrightarrow> xmit_ok (flow_control_note_sent_data s len)"
  by (auto simp: xmit_ok_def note_sent_data_nat)

lemma stop_reading_frame:
  "same_stream (connection_stop_reading s) s \<and> total_bytes_xmit (connection_stop_reading s) = total_bytes_xmit s \<and>
   num_xoff_recv (connection_stop_reading s) = num_xoff_recv s \<and> num_xon_recv (connection_stop_reading s) = num_xon_recv s \<and>
   conn_bucket (connection_stop_reading s) = conn_bucket s \<and> xoff_received (connection_stop_reading s) = xoff_received s"
  by (simp add: connection_stop_reading_def same_stream_def)

lemma start_reading_frame:
  "same_stream (fst (connection_start_reading b s)) s \<and> total_bytes_xmit (fst (connection_start_reading b s)) = total_bytes_xmit s \<and>
   num_xoff_recv (fst (connection_start_reading b s)) = num_xoff_recv s \<and>
   num_xon_recv (fst (connection_start_reading b s)) = num_xon_recv s \<and>
   conn_bucket (fst (connection_start_reading b s)) = conn_bucket s \<and>
   xoff_received (fst (connection_start_reading b s)) = xoff_received s"
  by (simp add: connection_start_reading_def same_stream_def)

definition halve :: "bool \<Rightarrow> nat \<Rightarrow> nat" where "halve b n = (if b then n div 2 else n)"

lemma process_xoff_cases:
  assumes "circuit_process_stream_xoff circs sets fg s layer = (ok, s')" and "xmit_ok s"
    and "edge_uses_cpath circs sets s layer" and "edge_uses_flow_control circs s" and "\<not> xoff_received s"
  defines "full \<equiv> num_xoff_recv s = 200"
  shows "same_stream s' s \<and> xoff_received s' \<and> conn_bucket s' = conn_bucket s \<and> xmit_ok s' \<and>
    read_event s' = read_event (connection_stop_reading s) \<and>
    unat (num_xoff_recv s') = Suc (halve full (unat (num_xoff_recv s))) \<and>
    unat (num_xon_recv s') = halve full (unat (num_xon_recv s)) \<and>
    unat (total_bytes_xmit s') = halve full (unat (total_bytes_xmit s)) \<and>
    (ok \<longleftrightarrow> (conn_type s = CONN_TYPE_AP \<or> has_hs_ident s \<longrightarrow>
       (if has_hs_ident s then xoff_client fg else xoff_exit fg) * ucast (num_xoff_recv s') \<le> total_bytes_xmit s'))"
proof -
  define s1 where "s1 = (if full then scale_counts s else s)"
  define s2 where "s2 = s1\<lparr>num_xoff_recv := num_xoff_recv s1 + 1\<rparr>"
  have r: "s' = (connection_stop_reading s2)\<lparr>xoff_received := True\<rparr>"
      "ok \<longleftrightarrow> \<not> ((conn_type s2 = CONN_TYPE_AP \<or> has_hs_ident s2) \<and>
         total_bytes_xmit s2 < (if has_hs_ident s2 then xoff_client fg else xoff_exit fg) * ucast (num_xoff_recv s2))"
    using assms(1,3-5) by (auto simp: circuit_process_stream_xoff_def s1_def s2_def full_def Let_def)
  have s1: "same_stream s1 s" "conn_bucket s1 = conn_bucket s"
      "unat (num_xoff_recv s1) = halve full (unat (num_xoff_recv s))"
      "unat (num_xon_recv s1) = halve full (unat (num_xon_recv s))"
      "unat (total_bytes_xmit s1) = halve full (unat (total_bytes_xmit s))"
    using scale_counts_frame [of s] scale_counts_nat [of s]
    by (auto simp: s1_def halve_def) (simp_all add: same_stream_def)
  have lt: "unat (num_xoff_recv s1) < 200"
  proof (cases full)
    case True
    then show ?thesis using s1(3) by (simp add: halve_def full_def)
  next
    case False
    have "unat (num_xoff_recv s) \<noteq> 200" using False by (simp add: full_def word_unat_eq_iff)
    then show ?thesis using False assms(2) s1(3) by (simp add: halve_def xmit_ok_def)
  qed
  then have n: "unat (num_xoff_recv s1 + 1) = Suc (unat (num_xoff_recv s1))"
    by (subst unat_add_id) simp_all
  have re: "read_event (connection_stop_reading s2) = read_event (connection_stop_reading s)"
    by (auto simp: s2_def s1_def connection_stop_reading_def connection_check_event_def scale_counts_def)
  have x: "xmit_ok s'"
    using stop_reading_frame [of s2] s1 lt n assms(2)
    by (auto simp: r(1) xmit_ok_def s2_def halve_def split: if_splits)
  show ?thesis
    using stop_reading_frame [of s2] s1 n re x r(2)
    by (auto simp: r(1) s2_def same_stream_def not_less)
qed

text \<open>The rate an XON asks for, in bytes per second.\<close>

definition xon_rate :: "u32 \<Rightarrow> nat" where
  "xon_rate kbps = (if kbps = 0 \<or> unat kbps * 1000 > 2147483647 then 2147483647 else unat kbps * 1000)"

lemma process_xon_cases:
  assumes "circuit_process_stream_xon units_to_msec b circs sets fg s layer payload = (ok, s', es)" and "xmit_ok s"
    and "edge_uses_cpath circs sets s layer" and "edge_uses_flow_control circs s" and "xon_cell_parse payload = Some (xon, pad)"
  defines "kbps \<equiv> kbps_ewma xon"
  defines "full \<equiv> num_xon_recv s = 200"
  shows "same_stream s' s \<and> \<not> xoff_received s' \<and> xmit_ok s' \<and>
    conn_bucket s' = token_bucket_rw_adjust units_to_msec (conn_bucket s) (of_nat (xon_rate kbps)) (of_nat (xon_rate kbps)) \<and>
    (if xoff_received s
     then let (s1, es1) = connection_start_reading b (s\<lparr>xoff_received := False\<rparr>) in read_event s' = read_event s1 \<and> es = es1
     else read_event s' = read_event s \<and> es = []) \<and>
    unat (num_xon_recv s') = Suc (halve full (unat (num_xon_recv s))) \<and>
    unat (num_xoff_recv s') = halve full (unat (num_xoff_recv s)) \<and>
    unat (total_bytes_xmit s') = halve full (unat (total_bytes_xmit s)) \<and>
    (ok \<longleftrightarrow> (conn_type s = CONN_TYPE_AP \<or> has_hs_ident s \<longrightarrow>
       (if has_hs_ident s then min (xoff_client fg) (xon_rate_bytes fg) else min (xoff_exit fg) (xon_rate_bytes fg))
         * ucast (num_xon_recv s') \<le> total_bytes_xmit s'))"
proof -
  define s1 where "s1 = (if full then scale_counts s else s)"
  define s2 where "s2 = s1\<lparr>num_xon_recv := num_xon_recv s1 + 1\<rparr>"
  define rate0 where "rate0 = (ucast kbps :: u64) * 1000"
  define rate where "rate = (if rate0 = 0 \<or> word_of_int INT32_MAX < rate0 then word_of_int INT32_MAX else rate0)"
  define s3 where "s3 = s2\<lparr>conn_bucket := token_bucket_rw_adjust units_to_msec (conn_bucket s2) (ucast rate) (ucast rate)\<rparr>"
  have eq: "circuit_process_stream_xon units_to_msec b circs sets fg s layer payload =
      (let (c, e) = (if xoff_received s3 then connection_start_reading b (s3\<lparr>xoff_received := False\<rparr>) else (s3, []))
       in (\<not> ((conn_type s2 = CONN_TYPE_AP \<or> has_hs_ident s2) \<and>
         total_bytes_xmit s2 < (if has_hs_ident s2 then min (xoff_client fg) (xon_rate_bytes fg)
           else min (xoff_exit fg) (xon_rate_bytes fg)) * ucast (num_xon_recv s2)), c, e))"
    using assms(3,4)
    by (simp only: circuit_process_stream_xon_def assms(5) option.case prod.case Let_def simp_thms if_False
        kbps_def s1_def s2_def full_def s3_def rate_def rate0_def)
  have r: "(s', es) = (if xoff_received s3 then connection_start_reading b (s3\<lparr>xoff_received := False\<rparr>) else (s3, []))"
      "ok \<longleftrightarrow> \<not> ((conn_type s2 = CONN_TYPE_AP \<or> has_hs_ident s2) \<and>
         total_bytes_xmit s2 < (if has_hs_ident s2 then min (xoff_client fg) (xon_rate_bytes fg)
           else min (xoff_exit fg) (xon_rate_bytes fg)) * ucast (num_xon_recv s2))"
    using assms(1) eq by (auto split: prod.splits)
  have u0: "unat rate0 = unat kbps * 1000"
    using unat_le32 [of kbps] unfolding rate0_def by (subst unat_mult_id) (simp_all add: unat_ucast_up)
  then have ur: "unat rate = xon_rate kbps"
    by (auto simp: rate_def xon_rate_def word_less_nat_alt word_unat_eq_iff)
  then have rate: "ucast rate = (of_nat (xon_rate kbps) :: u32)"
    by (metis of_nat_unat)
  have s1: "same_stream s1 s" "conn_bucket s1 = conn_bucket s" "xoff_received s1 = xoff_received s"
      "unat (num_xoff_recv s1) = halve full (unat (num_xoff_recv s))"
      "unat (num_xon_recv s1) = halve full (unat (num_xon_recv s))"
      "unat (total_bytes_xmit s1) = halve full (unat (total_bytes_xmit s))"
    using scale_counts_frame [of s] scale_counts_nat [of s]
    by (auto simp: s1_def halve_def) (simp_all add: same_stream_def)
  have lt: "unat (num_xon_recv s1) < 200"
    using s1(5) assms(2) by (cases full) (auto simp: halve_def full_def xmit_ok_def word_unat_eq_iff)
  then have n: "unat (num_xon_recv s1 + 1) = Suc (unat (num_xon_recv s1))"
    by (subst unat_add_id) simp_all
  have re: "read_event (fst (connection_start_reading b (s3\<lparr>xoff_received := False\<rparr>))) =
        read_event (fst (connection_start_reading b (s\<lparr>xoff_received := False\<rparr>)))"
      "snd (connection_start_reading b (s3\<lparr>xoff_received := False\<rparr>)) = snd (connection_start_reading b (s\<lparr>xoff_received := False\<rparr>))"
    by (auto simp: s3_def s2_def s1_def connection_start_reading_def connection_check_event_def scale_counts_def)
  have e: "read_event s3 = read_event s" by (simp add: s3_def s2_def s1_def scale_counts_def)
  note f = start_reading_frame [of b "s3\<lparr>xoff_received := False\<rparr>"]
  have s': "same_stream s' s3 \<and> total_bytes_xmit s' = total_bytes_xmit s3 \<and> num_xoff_recv s' = num_xoff_recv s3 \<and>
      num_xon_recv s' = num_xon_recv s3 \<and> conn_bucket s' = conn_bucket s3 \<and> \<not> xoff_received s'"
    using r(1) f by (cases "connection_start_reading b (s3\<lparr>xoff_received := False\<rparr>)") (auto simp: same_stream_def split: if_splits)
  have x: "xmit_ok s'"
    using s' s1 lt n assms(2) by (auto simp: xmit_ok_def s3_def s2_def halve_def split: if_splits)
  have rd: "if xoff_received s
     then let (s1, es1) = connection_start_reading b (s\<lparr>xoff_received := False\<rparr>) in read_event s' = read_event s1 \<and> es = es1
     else read_event s' = read_event s \<and> es = []"
  proof -
    have "xoff_received s3 = xoff_received s" using s1(3) by (simp add: s3_def s2_def)
    then show ?thesis
      using re e r(1) [symmetric] by (auto split: if_splits prod.splits)
  qed
  show ?thesis
    using s' s1 n x r(2) rd by (auto simp: s3_def s2_def same_stream_def not_less rate)
qed

section \<open>Events of the reading side\<close>

datatype reading_event =
    Packaged circuits nat
  | Got_xoff circuits flow_globals "(circuit_name \<times> nat) option"
  | Got_xon circuits flow_globals "(circuit_name \<times> nat) option" bytes

text \<open>A cell carries at most \<open>RELAY_PAYLOAD_SIZE\<close> bytes; a longer length is no event.\<close>

definition reading_step :: "(u64 \<Rightarrow> u64) \<Rightarrow> (circuit_name \<Rightarrow> nat conflux_t option) \<Rightarrow> edge_connection_t \<Rightarrow> reading_event
    \<Rightarrow> edge_connection_t option" where
  "reading_step units_to_msec sets s e =
     (case e of
        Packaged circs len \<Rightarrow>
          if int len > RELAY_PAYLOAD_SIZE then None
          else Some (snd (sendme_note_stream_data_packaged circs s (of_nat len)))
      | Got_xoff circs fg layer \<Rightarrow> Some (snd (circuit_process_stream_xoff circs sets fg s layer))
      | Got_xon circs fg layer payload \<Rightarrow>
          Some (fst (snd (circuit_process_stream_xon units_to_msec True circs sets fg s layer payload))))"

lemma reading_step_ok:
  assumes "xmit_ok s" and "reading_step units_to_msec sets s e = Some s'"
  shows "xmit_ok s'"
proof (cases e)
  case (Packaged circs len)
  then have "int len \<le> 498" and s': "s' = snd (sendme_note_stream_data_packaged circs s (of_nat len))"
    using assms(2) by (auto simp: reading_step_def split: if_splits)
  then have "unat (of_nat len :: u64) \<le> 498" by (simp add: unat_of_nat)
  then show ?thesis
    using note_sent_data_ok [OF assms(1)] assms(1)
    by (simp add: s' sendme_note_stream_data_packaged_def Let_def) (simp add: xmit_ok_def)
next
  case (Got_xoff circs fg layer)
  then have s': "s' = snd (circuit_process_stream_xoff circs sets fg s layer)"
    using assms(2) by (simp add: reading_step_def)
  show ?thesis
  proof (cases "edge_uses_cpath circs sets s layer \<and> edge_uses_flow_control circs s \<and> \<not> xoff_received s")
    case True
    then show ?thesis
      using process_xoff_cases [OF _ assms(1), of circs sets fg layer] s' by (metis prod.collapse)
  next
    case False
    then have "s' = s" by (auto simp: s' circuit_process_stream_xoff_def)
    then show ?thesis using assms(1) by simp
  qed
next
  case (Got_xon circs fg layer payload)
  then have s': "s' = fst (snd (circuit_process_stream_xon units_to_msec True circs sets fg s layer payload))"
    using assms(2) by (simp add: reading_step_def)
  show ?thesis
  proof (cases "edge_uses_cpath circs sets s layer \<and> edge_uses_flow_control circs s \<and> xon_cell_parse payload \<noteq> None")
    case True
    then obtain xon pad where "xon_cell_parse payload = Some (xon, pad)" by auto
    then show ?thesis
      using process_xon_cases [OF _ assms(1), of units_to_msec True circs sets fg layer payload] True s'
      by (metis prod.collapse)
  next
    case False
    then consider "\<not> edge_uses_cpath circs sets s layer" | "\<not> edge_uses_flow_control circs s" | "xon_cell_parse payload = None"
      by blast
    then have "s' = s" by cases (simp_all add: s' circuit_process_stream_xon_def)
    then show ?thesis using assms(1) by simp
  qed
qed

interpretation reading: machine "reading_step units_to_msec sets" xmit_ok
  by unfold_locales (rule reading_step_ok)

section \<open>Properties\<close>

text \<open>
  C23. The counters of a stream never wrap. Whatever cells a stream packages and whatever XONs and
  XOFFs arrive for it, valid or not, in any order: both counters stay at or below 200
  and the byte count below ten megabytes, so with limits the consensus allows no product of
  limit and count overflows 32 bits.
\<close>

theorem flow_counters_bounded:
  assumes "run (reading_step units_to_msec sets) s es = Some s'" and "xmit_ok s"
    and "unat limit \<le> 10000 * 498"
  shows "unat (num_xoff_recv s') \<le> 200 \<and> unat (num_xon_recv s') \<le> 200 \<and>
    unat (total_bytes_xmit s') < 10 * 1024 * 1024 \<and>
    unat ((limit :: u32) * ucast (num_xoff_recv s')) = unat limit * unat (num_xoff_recv s') \<and>
    unat (limit * ucast (num_xon_recv s')) = unat limit * unat (num_xon_recv s')"
proof -
  have ok: "xmit_ok s'" using reading.run_ok [OF assms(1,2)] .
  have "unat (limit * ucast n) = unat limit * unat n" if "unat n \<le> 200" for n :: u8
  proof -
    have "unat limit * unat n \<le> (10000 * 498) * 200" using assms(3) that by (intro mult_mono) auto
    then show ?thesis by (subst unat_mult_id) (simp_all add: unat_ucast_up)
  qed
  then show ?thesis using ok by (simp add: xmit_ok_def)
qed

definition example_stream :: edge_connection_t where
  "example_stream = \<lparr>conn_type = CONN_TYPE_AP, outbuf_len = 0, inbuf_len = 0, read_event = Some True, linked = False,
     reading_from_linked_conn = False, active_on_link = False, is_dns_request = False, conn_package_window = 500,
     conn_deliver_window = 500, on_circuit = Some 1, cpath_layer = None, has_hs_ident = False,
     conn_bucket = token_bucket_rw_init (\<lambda>u. u) 1000 1000 0, drain_start_usec = 0, drained_bytes = 0,
     prev_drained_bytes = 0, ewma_drain_rate = 0, ewma_rate_last_sent = 0, total_bytes_xmit = 0, num_xoff_recv = 0,
     num_xon_recv = 0, xoff_sent = False, xoff_received = False\<rparr>"

definition example_flow :: flow_globals where
  "example_flow = \<lparr>xoff_client = 249000, xoff_exit = 249000, xon_change_pct = 25, xon_ewma_cnt = 2, xon_rate_bytes = 249000,
     cc_stats_flow_num_xoff_sent = 0, cc_stats_flow_num_xon_sent = 0\<rparr>"

abbreviation cc_circuits :: circuits where
  "cc_circuits \<equiv> \<lambda>_. example_circ\<lparr>is_origin := False\<rparr>"

theorem flow_counters_bounded_witness:
  "\<exists>s'. run (reading_step (\<lambda>u. u) (\<lambda>_. None)) (example_stream\<lparr>num_xoff_recv := 200, total_bytes_xmit := 9000\<rparr>)
      [Packaged cc_circuits 498, Got_xoff cc_circuits example_flow None] = Some s' \<and>
    num_xoff_recv s' = 101 \<and> unat (total_bytes_xmit s') < 10485760"
proof -
  let ?s = "example_stream\<lparr>num_xoff_recv := 200, total_bytes_xmit := 9000\<rparr>"
  let ?r = "run (reading_step (\<lambda>u. u) (\<lambda>_. None)) ?s [Packaged cc_circuits 498, Got_xoff cc_circuits example_flow None]"
  have "?r \<noteq> None \<and> num_xoff_recv (the ?r) = 101" by code_simp
  then obtain s' where s': "?r = Some s'" "num_xoff_recv s' = 101" by auto
  have "xmit_ok ?s" by (simp add: xmit_ok_def example_stream_def)
  from flow_counters_bounded [OF s'(1) this, of 0] s' show ?thesis by (intro exI [of _ s']) simp
qed



text \<open>
  C22. What an XON does. From the right hop of a circuit with congestion control, a well-formed XON
  clears the XOFF, resumes reading (and has the input buffer processed if it is not empty), and sets
  the rate and the burst of the stream's bucket to a thousand times the announced figure, or to the
  largest \<open>int32_t\<close> when that is 0 or does not fit; the bucket can then always be refilled, without
  a division by zero. Everything it does is done even if the cell was one too many.
\<close>

theorem stream_xon_resumes:
  assumes "circuit_process_stream_xon units_to_msec b circs sets fg s layer payload = (ok, s', es)"
    and "edge_uses_cpath circs sets s layer" and "edge_uses_flow_control circs s" and "xmit_ok s"
    and "xon_cell_parse payload = Some (xon, pad)"
    and "\<not> linked s" and "read_event s \<noteq> None" and "\<not> is_dns_request s" and "xoff_received s"
  shows "\<not> xoff_received s' \<and> read_event s' = Some True \<and>
    es = (if inbuf_len s > 0 then [PROCESS_INBUF] else []) \<and>
    burst (rw_cfg (conn_bucket s')) = (if kbps_ewma xon = 0 \<or> unat (kbps_ewma xon) * 1000 > INT_MAX then INT32_MAX
      else int (unat (kbps_ewma xon) * 1000)) \<and>
    token_bucket_rw_refill (conn_bucket s') now \<noteq> None"
proof -
  note c = process_xon_cases [OF assms(1,4,2,3,5)]
  have st: "connection_start_reading b (s\<lparr>xoff_received := False\<rparr>) =
      (s\<lparr>xoff_received := False, read_event := Some True\<rparr>, if inbuf_len s > 0 then [PROCESS_INBUF] else [])"
    using assms(6-8) by (auto simp: connection_start_reading_def connection_check_event_def)
  let ?k = "kbps_ewma xon"
  have le: "xon_rate ?k \<le> 2147483647" by (simp add: xon_rate_def)
  then have u: "uint (of_nat (xon_rate ?k) :: u32) = int (xon_rate ?k)"
    by (simp add: unsigned_of_nat take_bit_nat_eq_self)
  have b: "burst (rw_cfg (conn_bucket s')) = int (xon_rate ?k)"
    using c le u by (simp add: token_bucket_rw_adjust_def token_bucket_cfg_init_def Let_def)
  have k: "int (xon_rate ?k) = (if ?k = 0 \<or> unat ?k * 1000 > INT_MAX then INT32_MAX else int (unat ?k * 1000))"
    by (simp add: xon_rate_def)
  have r: "rate (rw_cfg (conn_bucket s')) \<noteq> 0"
    using c by (simp add: token_bucket_rw_adjust_def token_bucket_cfg_init_def rate_per_sec_to_rate_per_step_def Let_def)
  have "token_bucket_rw_refill (conn_bucket s') now \<noteq> None"
    using r by (auto simp: token_bucket_rw_refill_def token_bucket_raw_refill_steps_def Let_def)
  then show ?thesis
    using c assms(9) st b k by auto
qed

theorem stream_xon_resumes_witness:
  "\<exists>ok s' es. circuit_process_stream_xon (\<lambda>u. u) True cc_circuits (\<lambda>_. None :: nat conflux_t option) example_flow
      (example_stream\<lparr>xoff_received := True, read_event := Some False, inbuf_len := 5\<rparr>) None [0, 0, 0, 1, 0, 9] = (ok, s', es) \<and>
    read_event s' = Some True \<and> es = [PROCESS_INBUF] \<and> burst (rw_cfg (conn_bucket s')) = 256000"
proof -
  let ?s = "example_stream\<lparr>xoff_received := True, read_event := Some False, inbuf_len := 5\<rparr>"
  have p: "xon_cell_parse [0, 0, 0, 1, 0, 9] = Some (\<lparr>xon_version = 0, kbps_ewma = 256\<rparr>, [9])" by code_simp
  have c: "edge_uses_cpath cc_circuits (\<lambda>_. None :: nat conflux_t option) ?s None" "edge_uses_flow_control cc_circuits ?s"
    by (simp_all add: edge_uses_cpath_def edge_uses_flow_control_def example_stream_def example_circ_def)
  obtain ok s' es where r: "circuit_process_stream_xon (\<lambda>u. u) True cc_circuits (\<lambda>_. None :: nat conflux_t option) example_flow
      ?s None [0, 0, 0, 1, 0, 9] = (ok, s', es)" by (metis prod.exhaust)
  from stream_xon_resumes [OF r c _ p] have "read_event s' = Some True \<and> es = [PROCESS_INBUF] \<and> burst (rw_cfg (conn_bucket s')) = 256000"
    by (simp add: xmit_ok_def example_stream_def)
  with r show ?thesis by blast
qed

lemma edge_consider_loop_sends:
  "\<exists>k. edge_consider_loop True conn sent = (conn\<lparr>conn_deliver_window := conn_deliver_window conn + 50 * int k\<rparr>, sent @ replicate k EDGE_SENDME) \<and>
    (conn_deliver_window conn \<le> 500 \<longrightarrow> 450 < conn_deliver_window conn + 50 * int k \<and> conn_deliver_window conn + 50 * int k \<le> 500)"
proof (induction "nat (500 - conn_deliver_window conn)" arbitrary: conn sent rule: less_induct)
  case less
  show ?case
  proof (cases "conn_deliver_window conn \<le> 450")
    case True
    let ?c = "conn\<lparr>conn_deliver_window := conn_deliver_window conn + 50\<rparr>"
    have "nat (500 - conn_deliver_window ?c) < nat (500 - conn_deliver_window conn)" using True by simp
    from less [OF this, of "sent @ [EDGE_SENDME]"] obtain k where
      k: "edge_consider_loop True ?c (sent @ [EDGE_SENDME]) =
          (?c\<lparr>conn_deliver_window := conn_deliver_window ?c + 50 * int k\<rparr>, (sent @ [EDGE_SENDME]) @ replicate k EDGE_SENDME)"
        "450 < conn_deliver_window ?c + 50 * int k" "conn_deliver_window ?c + 50 * int k \<le> 500"
      using True by auto
    then show ?thesis
      using True by (intro exI [of _ "Suc k"]) (simp add: edge_consider_loop.simps [of True conn] Let_def algebra_simps)
  next
    case False
    then show ?thesis by (intro exI [of _ 0]) (simp add: edge_consider_loop.simps [of True conn])
  qed
qed

text \<open>Stream SENDMEs processed one after the other: the results and the stream.\<close>

fun process_sendmes :: "circuits \<Rightarrow> nat \<Rightarrow> edge_connection_t \<Rightarrow> int list \<times> edge_connection_t" where
  "process_sendmes circs 0 conn = ([], conn)"
| "process_sendmes circs (Suc k) conn =
     (let (ret, conn1) = sendme_process_stream_level circs conn; (rets, conn2) = process_sendmes circs k conn1
      in (ret # rets, conn2))"

lemma process_sendmes_ok:
  assumes "\<not> edge_uses_flow_control circs conn" and "conn_package_window conn + 50 * int k \<le> 500"
  shows "process_sendmes circs k conn =
    (replicate k 0, conn\<lparr>conn_package_window := conn_package_window conn + 50 * int k\<rparr>)"
  using assms
proof (induction k arbitrary: conn)
  case (Suc k)
  let ?c = "conn\<lparr>conn_package_window := conn_package_window conn + 50\<rparr>"
  have "sendme_process_stream_level circs conn = (0, ?c)"
    using Suc.prems by (simp add: sendme_process_stream_level_def)
  moreover have "\<not> edge_uses_flow_control circs ?c" using Suc.prems(1) by (simp add: edge_uses_flow_control_def)
  ultimately show ?case
    using Suc.IH [of ?c] Suc.prems(2) by (simp add: algebra_simps)
qed simp

text \<open>
  C24. The fixed window of a stream. Without congestion control, an end that may write sends the
  smallest number of stream SENDMEs that brings its window above 450, each for 50 cells;
  the other end accepts exactly that many of them, one after the other, if
  its own window is short of 500 by what was received, and it refuses a SENDME that would take it
  above 500, leaving its window as it was.
\<close>

theorem stream_sendme_window:
  assumes "\<not> edge_uses_flow_control circs r" and "\<not> edge_uses_flow_control circs' s" and "on_circuit r \<noteq> None"
    and "\<not> connection_outbuf_too_full r" and "conn_deliver_window r \<le> STREAMWINDOW_START"
    and "conn_package_window s = conn_deliver_window r"
  shows "\<exists>k r' s'. sendme_connection_edge_consider_sending True circs r = (r', replicate k EDGE_SENDME) \<and>
    process_sendmes circs' k s = (replicate k 0, s') \<and> conn_package_window s' = conn_deliver_window r' \<and>
    STREAMWINDOW_START - STREAMWINDOW_INCREMENT < conn_deliver_window r' \<and> conn_deliver_window r' \<le> STREAMWINDOW_START \<and>
    sendme_process_stream_level circs' s' = (-1, s')"
proof -
  obtain k where k: "edge_consider_loop True r [] = (r\<lparr>conn_deliver_window := conn_deliver_window r + 50 * int k\<rparr>, replicate k EDGE_SENDME)"
      "450 < conn_deliver_window r + 50 * int k" "conn_deliver_window r + 50 * int k \<le> 500"
    using edge_consider_loop_sends [of r "[]"] assms(5) by auto
  let ?s = "s\<lparr>conn_package_window := conn_package_window s + 50 * int k\<rparr>"
  have "process_sendmes circs' k s = (replicate k 0, ?s)"
    using assms(2,6) k(3) by (intro process_sendmes_ok) simp_all
  moreover have "sendme_process_stream_level circs' ?s = (-1, ?s)"
    using k(2) assms(6) by (simp add: sendme_process_stream_level_def)
  ultimately show ?thesis
    using k assms by (intro exI [of _ k]) (auto simp: sendme_connection_edge_consider_sending_def)
qed

theorem stream_sendme_window_witness:
  "\<exists>k r' s'. sendme_connection_edge_consider_sending True (\<lambda>_. example_circ\<lparr>ccontrol := None\<rparr>) (example_stream\<lparr>conn_deliver_window := 395\<rparr>)
      = (r', replicate k EDGE_SENDME) \<and>
    process_sendmes (\<lambda>_. example_circ\<lparr>ccontrol := None\<rparr>) k (example_stream\<lparr>conn_package_window := 395\<rparr>) = (replicate k 0, s') \<and>
    conn_package_window s' = conn_deliver_window r' \<and> 450 < conn_deliver_window r'"
proof -
  let ?c = "\<lambda>_. example_circ\<lparr>ccontrol := None\<rparr>"
  let ?r = "example_stream\<lparr>conn_deliver_window := 395\<rparr>" and ?s = "example_stream\<lparr>conn_package_window := 395\<rparr>"
  have "\<not> edge_uses_flow_control ?c ?r" "\<not> edge_uses_flow_control ?c ?s" "on_circuit ?r \<noteq> None"
      "\<not> connection_outbuf_too_full ?r" "conn_deliver_window ?r \<le> 500" "conn_package_window ?s = conn_deliver_window ?r"
    by (simp_all add: edge_uses_flow_control_def example_stream_def connection_outbuf_too_full_def)
  from stream_sendme_window [OF this] show ?thesis by auto
qed

text \<open>Halving the counters can count an XOFF as one too many, although the bytes sent allowed for all
  of them.\<close>

lemma scaling_flags_honest_xoff:
  "let s = example_stream\<lparr>num_xoff_recv := 200, total_bytes_xmit := 201 * 49800\<rparr>
   in xmit_ok s \<and> 49800 * (unat (num_xoff_recv s) + 1) \<le> unat (total_bytes_xmit s) \<and>
      \<not> fst (circuit_process_stream_xoff cc_circuits (\<lambda>_. None :: nat conflux_t option) (example_flow\<lparr>xoff_exit := 49800\<rparr>) s None)"
proof -
  let ?s = "example_stream\<lparr>num_xoff_recv := 200, total_bytes_xmit := 201 * 49800\<rparr>"
  have "\<not> fst (circuit_process_stream_xoff cc_circuits (\<lambda>_. None :: nat conflux_t option) (example_flow\<lparr>xoff_exit := 49800\<rparr>) ?s None)"
    by code_simp
  moreover have "xmit_ok ?s \<and> 49800 * (unat (num_xoff_recv ?s) + 1) \<le> unat (total_bytes_xmit ?s)"
    by (simp add: xmit_ok_def example_stream_def)
  ultimately show ?thesis by (simp only: Let_def simp_thms)
qed

end
