(* ===== verification/Flow_Link.thy ===== *)
theory Flow_Link
  imports Flow_Control
begin

text \<open>
  The two ends of a stream and their XONs and XOFFs: the end that packages data into cells, the
  end that delivers it from its output buffer, the data cells under way (by their length) and the
  flow control cells on their way back. The steps are the calls \<open>relay.c\<close> and
  \<open>connection.c\<close> make when a cell is packaged or received and when the buffer was written to the
  socket. The state of the circuits, the clock and what is pending otherwise may change freely from
  step to step, as long as the circuits keep using congestion control and cells come from the right hop.

  The property: the ends never lose track of whether the stream is stopped, and an honest end sends
  no more XOFFs than the bytes it was sent allow.
\<close>

record flow_link =
  packager :: edge_connection_t
  deliverer :: edge_connection_t
  flow_fg :: flow_globals
  cell_wire :: "nat list"
  flow_wire :: "edge_effect list"
  bytes_sent :: nat
  bytes_received :: nat
  xoffs :: nat
  xons :: nat
  flagged_xoff :: bool
  stream_closed :: bool

fun is_xoff :: "edge_effect \<Rightarrow> bool" where
  "is_xoff (EDGE_XOFF p) = True" | "is_xoff _ = False"

fun is_xon :: "edge_effect \<Rightarrow> bool" where
  "is_xon (EDGE_XON p) = True" | "is_xon _ = False"

abbreviation count_xoff :: "edge_effect list \<Rightarrow> nat" where "count_xoff es \<equiv> length (filter is_xoff es)"
abbreviation count_xon :: "edge_effect list \<Rightarrow> nat" where "count_xon es \<equiv> length (filter is_xon es)"

inductive flow_step :: "(u64 \<Rightarrow> u64) \<Rightarrow> flow_link \<Rightarrow> flow_link \<Rightarrow> bool" for units_to_msec where
  package_cell: "edge_uses_flow_control circs (packager st) \<Longrightarrow> int len \<le> RELAY_PAYLOAD_SIZE \<Longrightarrow>
    sendme_note_stream_data_packaged circs (packager st) (of_nat len) = (w, s1) \<Longrightarrow>
    flow_step units_to_msec st
      (st\<lparr>packager := (if w < 0 then connection_stop_reading s1 else s1), cell_wire := cell_wire st @ [len],
         bytes_sent := bytes_sent st + len\<rparr>)"
| receive_cell: "cell_wire st = len # ls \<Longrightarrow> edge_uses_flow_control circs (deliverer st) \<Longrightarrow>
    unat (outbuf_len (deliverer st)) + len < 2 ^ 64 \<Longrightarrow>
    sendme_stream_data_received True circs g (flow_fg st) (deliverer st) now = Some (ret, fg', r1, es) \<Longrightarrow>
    flow_step units_to_msec st
      (st\<lparr>deliverer := r1\<lparr>outbuf_len := outbuf_len r1 + of_nat len\<rparr>, flow_fg := fg', cell_wire := ls,
         flow_wire := flow_wire st @ es, bytes_received := bytes_received st + len,
         xoffs := xoffs st + count_xoff es, xons := xons st + count_xon es, stream_closed := stream_closed st \<or> ret < 0\<rparr>)"
| write_socket: "n \<le> unat (outbuf_len (deliverer st)) \<Longrightarrow>
    flow_control_decide_xon True g (flow_fg st)
      ((deliverer st)\<lparr>outbuf_len := outbuf_len (deliverer st) - of_nat n\<rparr>) (of_nat n) now = Some (fg', r1, es) \<Longrightarrow>
    flow_step units_to_msec st
      (st\<lparr>deliverer := r1, flow_fg := fg', flow_wire := flow_wire st @ es,
         xoffs := xoffs st + count_xoff es, xons := xons st + count_xon es\<rparr>)"
| receive_xoff: "flow_wire st = EDGE_XOFF p # es \<Longrightarrow> edge_uses_flow_control circs (packager st) \<Longrightarrow>
    edge_uses_cpath circs (sets :: circuit_name \<Rightarrow> nat conflux_t option) (packager st) layer \<Longrightarrow>
    circuit_process_stream_xoff circs sets (flow_fg st) (packager st) layer = (ok, s1) \<Longrightarrow>
    flow_step units_to_msec st (st\<lparr>packager := s1, flow_wire := es, flagged_xoff := flagged_xoff st \<or> \<not> ok\<rparr>)"
| receive_xon: "flow_wire st = EDGE_XON p # es \<Longrightarrow> edge_uses_flow_control circs (packager st) \<Longrightarrow>
    edge_uses_cpath circs (sets :: circuit_name \<Rightarrow> nat conflux_t option) (packager st) layer \<Longrightarrow>
    circuit_process_stream_xon units_to_msec b circs sets (flow_fg st) (packager st) layer (p @ pad) = (ok, s1, out) \<Longrightarrow>
    flow_step units_to_msec st (st\<lparr>packager := s1, flow_wire := es\<rparr>)"

inductive flow_reachable :: "(u64 \<Rightarrow> u64) \<Rightarrow> flow_link \<Rightarrow> flow_link \<Rightarrow> bool" for units_to_msec st0 where
  flow_start: "flow_reachable units_to_msec st0 st0"
| flow_next: "flow_reachable units_to_msec st0 st \<Longrightarrow> flow_step units_to_msec st st' \<Longrightarrow> flow_reachable units_to_msec st0 st'"

text \<open>A stream just opened. The end whose XOFFs are checked by the other, a client or an onion service,
  takes the limit the other end uses.\<close>

definition fresh_flow_link :: "flow_globals \<Rightarrow> edge_connection_t \<Rightarrow> edge_connection_t \<Rightarrow> flow_link" where
  "fresh_flow_link fg s r = \<lparr>packager = s, deliverer = r, flow_fg = fg, cell_wire = [], flow_wire = [], bytes_sent = 0,
     bytes_received = 0, xoffs = 0, xons = 0, flagged_xoff = False, stream_closed = False\<rparr>"

definition same_limit :: "edge_connection_t \<Rightarrow> edge_connection_t \<Rightarrow> bool" where
  "same_limit s r \<longleftrightarrow> (conn_type s = CONN_TYPE_AP \<or> has_hs_ident s \<longrightarrow>
     has_hs_ident r = has_hs_ident s \<and> (has_hs_ident s \<or> conn_type r = CONN_TYPE_EXIT))"

definition flow_link_start :: "edge_connection_t \<Rightarrow> edge_connection_t \<Rightarrow> bool" where
  "flow_link_start s r \<longleftrightarrow> \<not> linked s \<and> \<not> is_dns_request s \<and> read_event s = Some True \<and> \<not> xoff_received s \<and>
     num_xoff_recv s = 0 \<and> num_xon_recv s = 0 \<and> total_bytes_xmit s = 0 \<and>
     outbuf_len r = 0 \<and> \<not> xoff_sent r \<and> same_limit s r"

section \<open>The invariant\<close>

text \<open>What the cells under way do to a stopped or running packager; \<open>None\<close> when one would be refused.\<close>

fun stopped_after :: "bool \<Rightarrow> edge_effect list \<Rightarrow> bool option" where
  "stopped_after b [] = Some b"
| "stopped_after b (EDGE_XOFF p # es) = (if b then None else stopped_after True es)"
| "stopped_after b (EDGE_XON p # es) = stopped_after False es"
| "stopped_after b (_ # es) = None"

lemma stopped_after_append: "stopped_after b (es @ fs) = Option.bind (stopped_after b es) (\<lambda>c. stopped_after c fs)"
  by (induction b es rule: stopped_after.induct) auto

definition xons_parse :: "edge_effect list \<Rightarrow> bool" where
  "xons_parse es \<longleftrightarrow> (\<forall>p. EDGE_XON p \<in> set es \<longrightarrow> (\<exists>r. p = xon_payload r))"

definition flow_inv :: "flow_link \<Rightarrow> bool" where
  "flow_inv st \<longleftrightarrow>
     (let s = packager st; r = deliverer st; L = unat (xoff_limit (flow_fg st) r)
      in xmit_ok s \<and> \<not> linked s \<and> \<not> is_dns_request s \<and> read_event s = Some (\<not> xoff_received s) \<and>
         stopped_after (xoff_received s) (flow_wire st) = Some (xoff_sent r) \<and> xons_parse (flow_wire st) \<and>
         (xoff_sent r \<longrightarrow> outbuf_len r \<noteq> 0) \<and>
         bytes_sent st = bytes_received st + sum_list (cell_wire st) \<and>
         L * xoffs st + (if xoff_sent r then 0 else unat (outbuf_len r)) \<le> bytes_received st \<and>
         same_limit s r \<and> \<not> stream_closed st \<and>
         (bytes_sent st < 10485760 \<and> xoffs st \<le> 200 \<and> xons st \<le> 200 \<longrightarrow>
            unat (total_bytes_xmit s) = bytes_sent st \<and>
            unat (num_xoff_recv s) + count_xoff (flow_wire st) = xoffs st \<and>
            unat (num_xon_recv s) + count_xon (flow_wire st) = xons st \<and> \<not> flagged_xoff st))"

lemma same_limit_cong: "same_stream s' s \<Longrightarrow> same_stream r' r \<Longrightarrow> same_limit s' r' = same_limit s r"
  by (simp add: same_limit_def same_stream_def)

lemma xoff_limit_cong: "same_limits_fg fg' fg \<Longrightarrow> same_stream r' r \<Longrightarrow> xoff_limit fg' r' = xoff_limit fg r"
  by (simp add: xoff_limit_def same_limits_fg_def same_stream_def)

lemma inv_package:
  assumes inv: "flow_inv st" and fc: "edge_uses_flow_control circs (packager st)" and len: "int len \<le> RELAY_PAYLOAD_SIZE"
    and p: "sendme_note_stream_data_packaged circs (packager st) (of_nat len) = (w, s1)"
  shows "flow_inv (st\<lparr>packager := (if w < 0 then connection_stop_reading s1 else s1), cell_wire := cell_wire st @ [len],
    bytes_sent := bytes_sent st + len\<rparr>)"
proof -
  let ?s = "packager st"
  define s2 where "s2 = (if w < 0 then connection_stop_reading s1 else s1)"
  note i = inv [unfolded flow_inv_def Let_def]
  have s1: "s1 = flow_control_note_sent_data ?s (of_nat len)" "w = (if xoff_received s1 then -1 else 1)"
    using p fc by (auto simp: sendme_note_stream_data_packaged_def Let_def)
  have l: "unat (of_nat len :: u64) = len" using len by (simp add: unat_of_nat take_bit_nat_eq_self)
  then have le: "unat (of_nat len :: u64) \<le> 498" using len by simp
  have ok: "xmit_ok ?s" using i by blast
  have fr: "same_stream s1 ?s" "xoff_received s1 = xoff_received ?s" "read_event s1 = read_event ?s"
    by (simp_all add: s1 flow_control_note_sent_data_def scale_counts_def same_stream_def Let_def)
  have s2: "same_stream s2 ?s" "xoff_received s2 = xoff_received ?s" "xmit_ok s2" "read_event s2 = Some (\<not> xoff_received ?s)"
      "unat (total_bytes_xmit s2) = unat (total_bytes_xmit s1)" "num_xoff_recv s2 = num_xoff_recv s1" "num_xon_recv s2 = num_xon_recv s1"
    using fr note_sent_data_ok [OF ok le] i stop_reading_frame [of s1]
    by (auto simp: s2_def s1(2) xmit_ok_def s1(1) [symmetric])
      (auto simp: same_stream_def connection_stop_reading_def connection_check_event_def)
  have sl: "same_limit s2 (deliverer st)" "\<not> linked s2" "\<not> is_dns_request s2"
    using s2(1) i by (auto simp: same_limit_def same_stream_def)
  show ?thesis
    unfolding s2_def [symmetric] flow_inv_def Let_def
    using i s2 sl note_sent_data_nat [OF ok le] l by (auto simp: s1(1))
qed

lemma xon_effects: "es = [] \<or> (\<exists>r. es = [EDGE_XON (xon_payload r)]) \<Longrightarrow>
    count_xoff es = 0 \<and> xons_parse es \<and> stopped_after b es = Some (b \<and> es = [])"
  by (auto simp: xons_parse_def)

lemma xons_parse_append: "xons_parse (es @ fs) \<longleftrightarrow> xons_parse es \<and> xons_parse fs"
  by (auto simp: xons_parse_def)

lemma inv_receive_cell:
  assumes inv: "flow_inv st" and w: "cell_wire st = len # ls" and fc: "edge_uses_flow_control circs (deliverer st)"
    and fits: "unat (outbuf_len (deliverer st)) + len < 2 ^ 64"
    and d: "sendme_stream_data_received True circs g (flow_fg st) (deliverer st) now = Some (ret, fg', r1, es)"
  shows "flow_inv (st\<lparr>deliverer := r1\<lparr>outbuf_len := outbuf_len r1 + of_nat len\<rparr>, flow_fg := fg', cell_wire := ls,
     flow_wire := flow_wire st @ es, bytes_received := bytes_received st + len,
     xoffs := xoffs st + count_xoff es, xons := xons st + count_xon es, stream_closed := stream_closed st \<or> ret < 0\<rparr>)"
proof -
  let ?r = "deliverer st" and ?s = "packager st"
  let ?L = "unat (xoff_limit (flow_fg st) ?r)"
  define r2 where "r2 = r1\<lparr>outbuf_len := outbuf_len r1 + of_nat len\<rparr>"
  define full where "full \<longleftrightarrow> outbuf_len ?r > ucast (xoff_limit (flow_fg st) ?r)"
  note i = inv [unfolded flow_inv_def Let_def]
  have "flow_control_decide_xoff True circs g (flow_fg st) ?r now = Some (ret, fg', r1, es)"
    using d fc by (simp add: sendme_stream_data_received_def)
  from decide_xoff_cases [OF this fc, folded full_def] obtain xs where
    c: "ret = 0" "same_reading r1 ?r" "same_limits_fg fg' (flow_fg st)"
      "es = (if full \<and> \<not> xoff_sent ?r then [EDGE_XOFF [0]] else []) @ xs" "xs = [] \<or> (\<exists>r. xs = [EDGE_XON (xon_payload r)])"
      "xoff_sent ?r \<or> full \<Longrightarrow> (outbuf_len ?r \<noteq> 0 \<longrightarrow> xs = []) \<and> (xoff_sent r1 \<longleftrightarrow> xs = [])"
      "\<not> xoff_sent ?r \<Longrightarrow> \<not> full \<Longrightarrow> \<not> xoff_sent r1"
    by blast
  have fl: "full \<Longrightarrow> outbuf_len ?r \<noteq> 0" "full \<longleftrightarrow> ?L < unat (outbuf_len ?r)"
    by (auto simp: full_def word_less_nat_alt unat_ucast_up)
  have xs: "xoff_sent ?r \<or> full \<Longrightarrow> xs = [] \<and> xoff_sent r1"
    using c(6) fl(1) i by blast
  have st1: "same_stream r1 ?r" using c(2) by (simp add: same_reading_def)
  then have o: "unat (outbuf_len r2) = unat (outbuf_len ?r) + len"
    using fits by (simp add: r2_def same_stream_def unat_add_id unat_of_nat take_bit_nat_eq_self)
  have L: "xoff_limit fg' r2 = xoff_limit (flow_fg st) ?r"
    using xoff_limit_cong [OF c(3) st1] by (simp add: r2_def xoff_limit_def)
  have sl: "same_limit ?s r2" using i same_limit_cong [of ?s ?s r1 ?r] st1
    by (simp add: same_limit_def r2_def same_stream_def)
  have w2: "stopped_after (xoff_received ?s) (flow_wire st @ es) = Some (xoff_sent r2)"
  proof -
    have "stopped_after (xoff_received ?s) (flow_wire st @ es) = stopped_after (xoff_sent ?r) es"
      using i by (simp add: stopped_after_append)
    also have "\<dots> = Some (xoff_sent r1)"
      using xs c(4,5,7) by (cases "xoff_sent ?r"; cases full; auto)
    finally show ?thesis by (simp add: r2_def)
  qed
  have cx: "count_xoff es = (if full \<and> \<not> xoff_sent ?r then 1 else 0)" "xons_parse es"
    using c(4) xon_effects [OF c(5)] by (auto simp: xons_parse_def)
  have budget: "?L * (xoffs st + count_xoff es) + (if xoff_sent r2 then 0 else unat (outbuf_len r2)) \<le> bytes_received st + len"
    using i xs c(7) cx(1) o fl(2) by (cases "xoff_sent ?r"; cases full; simp add: r2_def)
  have ne: "outbuf_len r2 \<noteq> 0" if "xoff_sent r2"
  proof -
    have "xoff_sent ?r \<or> full" using that c(7) by (auto simp: r2_def)
    then have "outbuf_len ?r \<noteq> 0" using i fl(1) by blast
    then have "unat (outbuf_len r2) \<noteq> 0" using o by (simp add: unat_eq_0)
    then show ?thesis by auto
  qed
  show ?thesis
    unfolding r2_def [symmetric] flow_inv_def Let_def
    using i w w2 cx(2) budget ne L sl c(1) by (auto simp: xons_parse_append)
qed

lemma inv_write_socket:
  assumes inv: "flow_inv st" and n: "n \<le> unat (outbuf_len (deliverer st))"
    and d: "flow_control_decide_xon True g (flow_fg st)
      ((deliverer st)\<lparr>outbuf_len := outbuf_len (deliverer st) - of_nat n\<rparr>) (of_nat n) now = Some (fg', r1, es)"
  shows "flow_inv (st\<lparr>deliverer := r1, flow_fg := fg', flow_wire := flow_wire st @ es,
    xoffs := xoffs st + count_xoff es, xons := xons st + count_xon es\<rparr>)"
proof -
  let ?r = "deliverer st" and ?s = "packager st"
  define r0 where "r0 = ?r\<lparr>outbuf_len := outbuf_len ?r - of_nat n\<rparr>"
  note i = inv [unfolded flow_inv_def Let_def]
  have "n < 2 ^ 64" using le_less_trans [OF n unat_lt64] by simp
  then have nn: "unat (of_nat n :: u64) = n" by (simp add: unat_of_nat take_bit_nat_eq_self)
  then have o: "unat (outbuf_len r0) = unat (outbuf_len ?r) - n"
    using n by (simp add: r0_def unat_sub word_le_nat_alt)
  note c = decide_xon_cases [OF d [folded r0_def]]
  obtain s2 where s2: "xoff_sent r1 = (xoff_sent r0 \<and> \<not> ((if xoff_sent r0 then outbuf_len r0 = 0
         else stream_drain_rate_changed g (flow_fg st) s2) \<and> True))"
      "es = (if (if xoff_sent r0 then outbuf_len r0 = 0 else stream_drain_rate_changed g (flow_fg st) s2) \<and> True
        then [EDGE_XON (xon_payload (ewma_drain_rate s2))] else [])"
    using c unfolding Let_def by blast
  define due where "due \<longleftrightarrow> (if xoff_sent r0 then outbuf_len r0 = 0 else stream_drain_rate_changed g (flow_fg st) s2)"
  define rate where "rate = ewma_drain_rate s2"
  have e: "same_stream r1 r0" "same_limits_fg fg' (flow_fg st)"
      "xoff_sent r1 = (xoff_sent r0 \<and> \<not> due)" "es = (if due then [EDGE_XON (xon_payload rate)] else [])"
    using c s2(1,2) by (simp_all only: due_def rate_def same_reading_def if_True simp_thms)
  have due: "xoff_sent r0 \<Longrightarrow> due = (outbuf_len r0 = 0)" by (simp add: due_def)
  have x0: "xoff_sent r0 = xoff_sent ?r" by (simp add: r0_def)
  have o1: "outbuf_len r1 = outbuf_len r0" using e(1) by (simp add: same_stream_def)
  have L: "xoff_limit fg' r1 = xoff_limit (flow_fg st) ?r"
    using xoff_limit_cong [OF e(2,1)] by (simp add: r0_def xoff_limit_def)
  have sl: "same_limit ?s r1"
    using i e(1) by (simp add: same_limit_def r0_def same_stream_def)
  have w2: "stopped_after (xoff_received ?s) (flow_wire st @ es) = Some (xoff_sent r1)"
    using i e(3,4) x0 by (cases due; simp add: stopped_after_append)
  have cx: "count_xoff es = 0" "xons_parse es"
    using e(4) by (auto simp: xons_parse_def)
  have ne: "xoff_sent r1 \<Longrightarrow> outbuf_len r1 \<noteq> 0" using e(3) due o1 by auto
  have out: "unat (outbuf_len r1) \<le> unat (outbuf_len ?r)" using o o1 by simp
  have empty: "unat (outbuf_len r1) = 0" if "xoff_sent ?r" "\<not> xoff_sent r1"
    using that e(3) due x0 o1 by auto
  have budget: "unat (xoff_limit (flow_fg st) ?r) * xoffs st + (if xoff_sent r1 then 0 else unat (outbuf_len r1)) \<le> bytes_received st"
    using i out empty e(3) x0 by (cases "xoff_sent ?r"; cases "xoff_sent r1"; simp)
  show ?thesis
    unfolding flow_inv_def Let_def
    using i w2 cx L sl ne budget by (auto simp: xons_parse_append split: if_splits)
qed

lemma inv_receive_xoff:
  assumes inv: "flow_inv st" and w: "flow_wire st = EDGE_XOFF p # es" and fc: "edge_uses_flow_control circs (packager st)"
    and cp: "edge_uses_cpath circs sets (packager st) layer"
    and x: "circuit_process_stream_xoff circs sets (flow_fg st) (packager st) layer = (ok, s1)"
  shows "flow_inv (st\<lparr>packager := s1, flow_wire := es, flagged_xoff := flagged_xoff st \<or> \<not> ok\<rparr>)"
proof -
  let ?r = "deliverer st" and ?s = "packager st"
  let ?L = "unat (xoff_limit (flow_fg st) ?r)"
  note i = inv [unfolded flow_inv_def Let_def]
  have nx: "\<not> xoff_received ?s" and ws: "stopped_after True es = Some (xoff_sent ?r)" "xons_parse es"
    using i w by (auto simp: xons_parse_def split: if_splits)
  have xok: "xmit_ok ?s" using i by blast
  note c = process_xoff_cases [OF x xok cp fc nx]
  have re: "read_event s1 = Some False"
    using c i by (auto simp: connection_stop_reading_def connection_check_event_def)
  have sl: "same_limit s1 ?r" "\<not> linked s1" "\<not> is_dns_request s1"
    using c i by (auto simp: same_limit_def same_stream_def)
  have exact: "unat (total_bytes_xmit s1) = bytes_sent st \<and> unat (num_xoff_recv s1) + count_xoff es = xoffs st \<and>
      unat (num_xon_recv s1) + count_xon es = xons st \<and> ok"
    if small: "bytes_sent st < 10485760" "xoffs st \<le> 200" "xons st \<le> 200"
  proof -
    have e: "unat (total_bytes_xmit ?s) = bytes_sent st" "Suc (unat (num_xoff_recv ?s) + count_xoff es) = xoffs st"
        "unat (num_xon_recv ?s) + count_xon es = xons st"
      using i w small by auto
    have "num_xoff_recv ?s \<noteq> 200"
    proof
      assume "num_xoff_recv ?s = 200"
      then have "unat (num_xoff_recv ?s) = 200" by simp
      then show False using e(2) small(2) by linarith
    qed
    then have n: "unat (total_bytes_xmit s1) = bytes_sent st" "unat (num_xoff_recv s1) = Suc (unat (num_xoff_recv ?s))"
        "unat (num_xon_recv s1) = unat (num_xon_recv ?s)"
      using c e by (simp_all add: halve_def)
    have "?L * unat (num_xoff_recv s1) \<le> ?L * xoffs st"
      using n(2) e(2) by (intro mult_le_mono2) linarith
    also have "\<dots> \<le> bytes_sent st" using i by auto
    finally have le: "?L * unat (num_xoff_recv s1) \<le> bytes_sent st" .
    then have "unat (xoff_limit (flow_fg st) ?r * ucast (num_xoff_recv s1)) = ?L * unat (num_xoff_recv s1)"
      using small(1) by (subst unat_mult_id) (simp_all add: unat_ucast_up)
    then have "xoff_limit (flow_fg st) ?r * ucast (num_xoff_recv s1) \<le> total_bytes_xmit s1"
      using le n(1) by (simp add: word_le_nat_alt)
    moreover have "conn_type ?s = CONN_TYPE_AP \<or> has_hs_ident ?s \<longrightarrow>
        xoff_limit (flow_fg st) ?r = (if has_hs_ident ?s then xoff_client (flow_fg st) else xoff_exit (flow_fg st))"
      using i by (auto simp: same_limit_def xoff_limit_def)
    ultimately have ok using c by auto
    then show ?thesis using n e by simp
  qed
  show ?thesis
    unfolding flow_inv_def Let_def using i c re sl ws exact by auto
qed

lemma inv_receive_xon:
  assumes inv: "flow_inv st" and w: "flow_wire st = EDGE_XON p # es" and fc: "edge_uses_flow_control circs (packager st)"
    and cp: "edge_uses_cpath circs sets (packager st) layer"
    and x: "circuit_process_stream_xon units_to_msec b circs sets (flow_fg st) (packager st) layer (p @ pad) = (ok, s1, out)"
  shows "flow_inv (st\<lparr>packager := s1, flow_wire := es\<rparr>)"
proof -
  let ?r = "deliverer st" and ?s = "packager st"
  note i = inv [unfolded flow_inv_def Let_def]
  obtain rate where p: "p = xon_payload rate" and ws: "stopped_after False es = Some (xoff_sent ?r)" "xons_parse es"
    using i w by (auto simp: xons_parse_def)
  have xok: "xmit_ok ?s" using i by blast
  note c = process_xon_cases [OF x xok cp fc xon_payload_parse [of rate pad, folded p]]
  have re: "read_event s1 = Some True"
    using c i by (auto simp: connection_start_reading_def connection_check_event_def split: if_splits prod.splits)
  have sl: "same_limit s1 ?r" "\<not> linked s1" "\<not> is_dns_request s1"
    using c i by (auto simp: same_limit_def same_stream_def)
  have exact: "unat (total_bytes_xmit s1) = bytes_sent st \<and> unat (num_xoff_recv s1) + count_xoff es = xoffs st \<and>
      unat (num_xon_recv s1) + count_xon es = xons st"
    if small: "bytes_sent st < 10485760" "xoffs st \<le> 200" "xons st \<le> 200"
  proof -
    have e: "unat (total_bytes_xmit ?s) = bytes_sent st" "unat (num_xoff_recv ?s) + count_xoff es = xoffs st"
        "Suc (unat (num_xon_recv ?s) + count_xon es) = xons st"
      using i w small by auto
    have "num_xon_recv ?s \<noteq> 200"
    proof
      assume "num_xon_recv ?s = 200"
      then have "unat (num_xon_recv ?s) = 200" by simp
      then show False using e(3) small(3) by linarith
    qed
    then show ?thesis using c e by (simp add: halve_def)
  qed
  show ?thesis
    unfolding flow_inv_def Let_def using i c re sl ws exact by auto
qed

lemma flow_inv_step: "flow_step units_to_msec st st' \<Longrightarrow> flow_inv st \<Longrightarrow> flow_inv st'"
  by (induction rule: flow_step.induct)
    (blast intro: inv_package inv_receive_cell inv_write_socket inv_receive_xoff inv_receive_xon)+

lemma flow_inv_start: "flow_link_start s r \<Longrightarrow> flow_inv (fresh_flow_link fg s r)"
  by (auto simp: flow_link_start_def flow_inv_def fresh_flow_link_def xmit_ok_def xons_parse_def)

section \<open>The property\<close>


section \<open>A run\<close>

datatype flow_action = Package nat | Deliver u64 | Write nat u64 | Back

text \<open>The steps as functions, on circuits that keep using congestion control.\<close>

abbreviation no_sets :: "circuit_name \<Rightarrow> nat conflux_t option" where "no_sets \<equiv> \<lambda>_. None"

definition run_flow_action :: "flow_action \<Rightarrow> flow_link \<Rightarrow> flow_link option" where
  "run_flow_action act st =
     (case act of
        Package len \<Rightarrow>
          if \<not> edge_uses_flow_control cc_circuits (packager st) \<or> 498 < len then None
          else let (w, s1) = sendme_note_stream_data_packaged cc_circuits (packager st) (of_nat len)
               in Some (st\<lparr>packager := (if w < 0 then connection_stop_reading s1 else s1), cell_wire := cell_wire st @ [len],
                    bytes_sent := bytes_sent st + len\<rparr>)
      | Deliver now \<Rightarrow>
          (case cell_wire st of
             [] \<Rightarrow> None
           | len # ls \<Rightarrow>
               if \<not> edge_uses_flow_control cc_circuits (deliverer st) \<or> 498 < len \<or> outbuf_len (deliverer st) > 1000000 then None
               else do {
                 (ret, fg', r1, es) \<leftarrow> sendme_stream_data_received True cc_circuits (cc_globals_init False False) (flow_fg st) (deliverer st) now;
                 Some (st\<lparr>deliverer := r1\<lparr>outbuf_len := outbuf_len r1 + of_nat len\<rparr>, flow_fg := fg', cell_wire := ls,
                   flow_wire := flow_wire st @ es, bytes_received := bytes_received st + len, xoffs := xoffs st + count_xoff es,
                   xons := xons st + count_xon es, stream_closed := stream_closed st \<or> ret < 0\<rparr>)
               })
      | Write n now \<Rightarrow>
          if unat (outbuf_len (deliverer st)) < n then None
          else do {
            (fg', r1, es) \<leftarrow> flow_control_decide_xon True (cc_globals_init False False) (flow_fg st)
              ((deliverer st)\<lparr>outbuf_len := outbuf_len (deliverer st) - of_nat n\<rparr>) (of_nat n) now;
            Some (st\<lparr>deliverer := r1, flow_fg := fg', flow_wire := flow_wire st @ es,
              xoffs := xoffs st + count_xoff es, xons := xons st + count_xon es\<rparr>)
          }
      | Back \<Rightarrow>
          if \<not> edge_uses_flow_control cc_circuits (packager st) \<or> \<not> edge_uses_cpath cc_circuits no_sets (packager st) None then None
          else (case flow_wire st of
             EDGE_XOFF p # es \<Rightarrow>
               let (ok, s1) = circuit_process_stream_xoff cc_circuits no_sets (flow_fg st) (packager st) None
               in Some (st\<lparr>packager := s1, flow_wire := es, flagged_xoff := flagged_xoff st \<or> \<not> ok\<rparr>)
           | EDGE_XON p # es \<Rightarrow>
               let (ok, s1, out) = circuit_process_stream_xon (\<lambda>u. u) True cc_circuits no_sets (flow_fg st) (packager st) None (p @ [])
               in Some (st\<lparr>packager := s1, flow_wire := es\<rparr>)
           | _ \<Rightarrow> None))"

fun run_flow_actions :: "flow_action list \<Rightarrow> flow_link \<Rightarrow> flow_link option" where
  "run_flow_actions [] st = Some st"
| "run_flow_actions (act # acts) st = Option.bind (run_flow_action act st) (run_flow_actions acts)"

lemma run_flow_action_step:
  assumes "run_flow_action act st = Some st'"
  shows "flow_step (\<lambda>u. u) st st'"
proof (cases act)
  case (Package len)
  then obtain w s1 where h: "edge_uses_flow_control cc_circuits (packager st)" "int len \<le> RELAY_PAYLOAD_SIZE"
      "sendme_note_stream_data_packaged cc_circuits (packager st) (of_nat len) = (w, s1)"
      "st' = st\<lparr>packager := (if w < 0 then connection_stop_reading s1 else s1), cell_wire := cell_wire st @ [len],
         bytes_sent := bytes_sent st + len\<rparr>"
    using assms by (cases "sendme_note_stream_data_packaged cc_circuits (packager st) (of_nat len)")
      (simp add: run_flow_action_def split: if_splits)
  from package_cell [OF h(1-3)] show ?thesis by (simp only: h(4))
next
  case (Deliver now)
  then obtain len ls where w: "cell_wire st = len # ls"
    using assms by (auto simp: run_flow_action_def split: list.splits)
  with Deliver assms obtain ret fg' r1 es where
    h: "edge_uses_flow_control cc_circuits (deliverer st)" "len \<le> 498" "outbuf_len (deliverer st) \<le> 1000000"
      "sendme_stream_data_received True cc_circuits (cc_globals_init False False) (flow_fg st) (deliverer st) now = Some (ret, fg', r1, es)"
      "st' = st\<lparr>deliverer := r1\<lparr>outbuf_len := outbuf_len r1 + of_nat len\<rparr>, flow_fg := fg', cell_wire := ls,
         flow_wire := flow_wire st @ es, bytes_received := bytes_received st + len, xoffs := xoffs st + count_xoff es,
         xons := xons st + count_xon es, stream_closed := stream_closed st \<or> ret < 0\<rparr>"
    by (auto simp: run_flow_action_def split: if_splits bind_splits)
  have "unat (outbuf_len (deliverer st)) \<le> 1000000" using h(3) by (simp add: word_le_nat_alt)
  then have "unat (outbuf_len (deliverer st)) + len < 2 ^ 64" using h(2) by simp
  from receive_cell [OF w h(1) this h(4)] show ?thesis by (simp add: h(5))
next
  case (Write n now)
  then show ?thesis
    using assms by (auto simp: run_flow_action_def not_less split: if_splits bind_splits intro!: write_socket)
next
  case Back
  then show ?thesis
    using assms
    by (auto simp: run_flow_action_def split: if_splits prod.splits list.splits edge_effect.splits
        intro: receive_xoff receive_xon [where pad = "[]", simplified])
qed

lemma run_flow_actions_reachable:
  "run_flow_actions acts st = Some st' \<Longrightarrow> flow_reachable (\<lambda>u. u) st0 st \<Longrightarrow> flow_reachable (\<lambda>u. u) st0 st'"
proof (induction acts arbitrary: st)
  case (Cons act acts)
  then obtain st1 where r: "run_flow_action act st = Some st1" "run_flow_actions acts st1 = Some st'"
    by (auto split: bind_splits)
  show ?case
    by (rule Cons.IH [OF r(2) flow_next [OF Cons.prems(2) run_flow_action_step [OF r(1)]]])
qed simp

definition example_exit_stream :: edge_connection_t where
  "example_exit_stream = example_stream\<lparr>conn_type := CONN_TYPE_EXIT\<rparr>"

definition example_flow_run :: "flow_link option" where
  "example_flow_run = run_flow_actions
     [Package 498, Package 498, Package 498, Deliver 1000, Deliver 1100, Deliver 1200, Back, Write 900 1300, Write 594 1400]
     (fresh_flow_link (example_flow\<lparr>xoff_exit := 498\<rparr>) example_stream example_exit_stream)"


end
