(* ===== verification/Scheduler.thy ===== *)
theory Scheduler
  imports Circuitmux Smartlist_Pqueue Net_Params "HOL-Library.Signed_Division"
begin

text \<open>
  Which channels the scheduler serves (\<open>src/core/or/scheduler.c\<close>), and when it runs
  (\<open>scheduler_kist.c\<close>, \<open>scheduler_vanilla.c\<close>). Each channel has a scheduling state; the
  channels with cells to send and room to send them are in a binary heap, ordered by their muxes.

  A channel (\<open>channel_t\<close>, \<open>src/core/or/channel.h\<close>) is known by its global identifier: \<open>chans\<close> maps the
  identifiers of the channels in memory to their fields, and a pointer to a channel is its identifier.
  To follow a pointer to freed memory is \<open>None\<close>, like an abort. The heap holds pointers and keeps each
  position in the field \<open>sched_heap_idx\<close> of the channel. The model is of the time between
  \<open>scheduler_init\<close> and \<open>scheduler_free_all\<close>. The methods of the transport below
  (\<open>channel_t\<close> has a table of them) are parameters where they are used.
\<close>

section \<open>Channels\<close>

datatype channel_state_t =
  CHANNEL_STATE_CLOSED | CHANNEL_STATE_OPENING | CHANNEL_STATE_OPEN | CHANNEL_STATE_MAINT
| CHANNEL_STATE_CLOSING | CHANNEL_STATE_ERROR | CHANNEL_STATE_LAST

datatype reason_for_closing_t =
  CHANNEL_NOT_CLOSING | CHANNEL_CLOSE_REQUESTED | CHANNEL_CLOSE_FROM_BELOW | CHANNEL_CLOSE_FOR_ERROR

datatype scheduler_state_t =
  SCHED_CHAN_IDLE | SCHED_CHAN_WAITING_FOR_CELLS | SCHED_CHAN_WAITING_TO_WRITE | SCHED_CHAN_PENDING

datatype circ_id_type_t = CIRC_ID_TYPE_LOWER | CIRC_ID_TYPE_HIGHER | CIRC_ID_TYPE_NEITHER

type_synonym chan_ref = u64

record ('g, 'pd, 'cd) channel_t =
  chan_state :: channel_state_t
  registered :: bool
  has_been_open :: bool
  is_canonical_to_peer :: bool
  reason_for_closing :: reason_for_closing_t
  scheduler_state :: scheduler_state_t
  sched_heap_idx :: int
  timestamp_created :: int
  identity_digest :: "u8 list"
  ed25519_identity :: "u8 list"
  cmux :: "('g, 'pd, 'cd) circuitmux_t option"
  circ_id_type :: circ_id_type_t
  wide_circ_ids :: bool
  num_n_circuits :: u32
  num_p_circuits :: u32
  is_bad_for_new_circs :: bool
  is_client :: bool
  is_incoming :: bool
  is_local :: bool
  n_cells_xmitted :: u64
  n_bytes_xmitted :: u64

section \<open>The state of the scheduler\<close>

datatype scheduler_types_t = SCHEDULER_VANILLA | SCHEDULER_KIST | SCHEDULER_KIST_LITE

record socket_table_ent_t =
  ent_limit :: u64
  ent_written :: u64

text \<open>\<open>run_sched_ev\<close> is the time in microseconds until the scheduler runs, if its event is
  pending; the clock is in nanoseconds.\<close>

record ('g, 'pd, 'cd) sched_t =
  chans :: "chan_ref \<Rightarrow> ('g, 'pd, 'cd) channel_t option"
  channels_pending :: "chan_ref list"
  the_scheduler :: scheduler_types_t
  run_sched_ev :: "int option"
  socket_table :: "chan_ref \<Rightarrow> socket_table_ent_t option"
  sched_clock :: int
  scheduler_last_run :: int
  sched_run_interval :: int

definition set_chan ::
    "chan_ref \<Rightarrow> (('g, 'pd, 'cd) channel_t \<Rightarrow> ('g, 'pd, 'cd) channel_t) \<Rightarrow> ('g, 'pd, 'cd, 'z) sched_t_scheme \<Rightarrow> ('g, 'pd, 'cd, 'z) sched_t_scheme" where
  "set_chan c f s = s\<lparr>chans := (chans s)(c := map_option f (chans s c))\<rparr>"

definition scheduler_set_channel_state :: "chan_ref \<Rightarrow> scheduler_state_t \<Rightarrow> ('g, 'pd, 'cd, 'z) sched_t_scheme \<Rightarrow> ('g, 'pd, 'cd, 'z) sched_t_scheme" where
  "scheduler_set_channel_state c new_state s = set_chan c (\<lambda>ch. ch\<lparr>scheduler_state := new_state\<rparr>) s"

section \<open>The pending channels\<close>

text \<open>Two policies are compared by their addresses; \<open>NULL\<close> is 0.\<close>

definition scheduler_compare_channels :: "('g, 'pd, 'cd, 'z) sched_t_scheme \<Rightarrow> chan_ref \<Rightarrow> chan_ref \<Rightarrow> int option" where
  "scheduler_compare_channels s c1 c2 =
     (if c1 \<noteq> c2 then do {
        ch1 \<leftarrow> chans s c1;
        ch2 \<leftarrow> chans s c2;
        m1 \<leftarrow> cmux ch1;
        m2 \<leftarrow> cmux ch2;
        if map_option pol_id (policy m1) = map_option pol_id (policy m2)
        then circuitmux_compare_muxes False m1 m2
        else let addr = (\<lambda>m. case policy m of None \<Rightarrow> 0 | Some p \<Rightarrow> Suc (pol_id p))
             in Some (if addr m1 < addr m2 then -1 else 1)
      } else Some 0)"

text \<open>The heap operations, on pairs of a pointer and the index field behind it. The result of a
  comparison is read only; that it does not abort is a matter of the policy.\<close>

definition pending_items :: "('g, 'pd, 'cd, 'z) sched_t_scheme \<Rightarrow> (chan_ref \<times> int) list" where
  "pending_items s = map (\<lambda>c. (c, sched_heap_idx (the (chans s c)))) (channels_pending s)"

definition compare_items :: "('g, 'pd, 'cd, 'z) sched_t_scheme \<Rightarrow> chan_ref \<times> int \<Rightarrow> chan_ref \<times> int \<Rightarrow> int" where
  "compare_items s x y = the (scheduler_compare_channels s (fst x) (fst y))"

abbreviation item_set_idx :: "int \<Rightarrow> chan_ref \<times> int \<Rightarrow> chan_ref \<times> int" where
  "item_set_idx i x \<equiv> (fst x, i)"

definition put_items :: "(chan_ref \<times> int) list \<Rightarrow> (chan_ref \<times> int) list \<Rightarrow> ('g, 'pd, 'cd, 'z) sched_t_scheme \<Rightarrow> ('g, 'pd, 'cd, 'z) sched_t_scheme" where
  "put_items removed items s =
     s\<lparr>chans := (\<lambda>c. case map_of (removed @ items) c of
          Some i \<Rightarrow> map_option (\<lambda>ch. ch\<lparr>sched_heap_idx := i\<rparr>) (chans s c)
        | None \<Rightarrow> chans s c),
       channels_pending := map fst items\<rparr>"

definition channels_pending_add :: "chan_ref \<Rightarrow> ('g, 'pd, 'cd, 'z) sched_t_scheme \<Rightarrow> ('g, 'pd, 'cd, 'z) sched_t_scheme option" where
  "channels_pending_add c s = do {
     ch \<leftarrow> chans s c;
     items \<leftarrow> smartlist_pqueue_add (compare_items s) item_set_idx (pending_items s) (c, sched_heap_idx ch);
     Some (put_items [] items s)
   }"

definition channels_pending_remove :: "chan_ref \<Rightarrow> ('g, 'pd, 'cd, 'z) sched_t_scheme \<Rightarrow> ('g, 'pd, 'cd, 'z) sched_t_scheme option" where
  "channels_pending_remove c s = do {
     ch \<leftarrow> chans s c;
     (item, items) \<leftarrow> smartlist_pqueue_remove (compare_items s) item_set_idx snd (pending_items s) (c, sched_heap_idx ch);
     Some (put_items [item] items s)
   }"

definition channels_pending_pop :: "('g, 'pd, 'cd, 'z) sched_t_scheme \<Rightarrow> (chan_ref \<times> ('g, 'pd, 'cd, 'z) sched_t_scheme) option" where
  "channels_pending_pop s = do {
     (item, items) \<leftarrow> smartlist_pqueue_pop (compare_items s) item_set_idx (pending_items s);
     Some (fst item, put_items [item] items s)
   }"

section \<open>When to run\<close>

definition have_work :: "('g, 'pd, 'cd, 'z) sched_t_scheme \<Rightarrow> bool" where
  "have_work s \<longleftrightarrow> length (channels_pending s) > 0"

definition vanilla_scheduler_schedule :: "('g, 'pd, 'cd, 'z) sched_t_scheme \<Rightarrow> ('g, 'pd, 'cd, 'z) sched_t_scheme" where
  "vanilla_scheduler_schedule s = (if \<not> have_work s then s else s\<lparr>run_sched_ev := Some 0\<rparr>)"

definition kist_scheduler_schedule :: "('g, 'pd, 'cd, 'z) sched_t_scheme \<Rightarrow> ('g, 'pd, 'cd, 'z) sched_t_scheme" where
  "kist_scheduler_schedule s =
     (if \<not> have_work s then s
      else let diff0 = (sched_clock s - scheduler_last_run s) sdiv 1000000;
               diff = (if diff0 < 0 then 0 else diff0)
           in if diff < sched_run_interval s
              then s\<lparr>run_sched_ev := Some ((sched_run_interval s - diff) * 1000)\<rparr>
              else s\<lparr>run_sched_ev := Some 0\<rparr>)"

definition the_scheduler_schedule :: "('g, 'pd, 'cd, 'z) sched_t_scheme \<Rightarrow> ('g, 'pd, 'cd, 'z) sched_t_scheme" where
  "the_scheduler_schedule s =
     (case the_scheduler s of SCHEDULER_VANILLA \<Rightarrow> vanilla_scheduler_schedule s | _ \<Rightarrow> kist_scheduler_schedule s)"

definition free_socket_info_by_chan :: "chan_ref \<Rightarrow> ('g, 'pd, 'cd, 'z) sched_t_scheme \<Rightarrow> ('g, 'pd, 'cd, 'z) sched_t_scheme" where
  "free_socket_info_by_chan c s = s\<lparr>socket_table := (socket_table s)(c := None)\<rparr>"

definition the_scheduler_on_channel_free :: "chan_ref \<Rightarrow> ('g, 'pd, 'cd, 'z) sched_t_scheme \<Rightarrow> ('g, 'pd, 'cd, 'z) sched_t_scheme" where
  "the_scheduler_on_channel_free c s =
     (case the_scheduler s of SCHEDULER_VANILLA \<Rightarrow> s | _ \<Rightarrow> free_socket_info_by_chan c s)"

section \<open>What the scheduler is told\<close>

definition make_pending :: "chan_ref \<Rightarrow> ('g, 'pd, 'cd, 'z) sched_t_scheme \<Rightarrow> ('g, 'pd, 'cd, 'z) sched_t_scheme option" where
  "make_pending c s = do {
     let s1 = scheduler_set_channel_state c SCHED_CHAN_PENDING s;
     ch \<leftarrow> chans s1 c;
     if sched_heap_idx ch \<noteq> -1 then Some s1 else channels_pending_add c s1
   }"

definition scheduler_channel_doesnt_want_writes :: "chan_ref \<Rightarrow> ('g, 'pd, 'cd, 'z) sched_t_scheme \<Rightarrow> ('g, 'pd, 'cd, 'z) sched_t_scheme option" where
  "scheduler_channel_doesnt_want_writes c s = do {
     ch \<leftarrow> chans s c;
     if scheduler_state ch = SCHED_CHAN_PENDING
     then do {
       s1 \<leftarrow> channels_pending_remove c s;
       Some (scheduler_set_channel_state c SCHED_CHAN_WAITING_TO_WRITE s1)
     }
     else if scheduler_state ch = SCHED_CHAN_WAITING_FOR_CELLS
     then Some (scheduler_set_channel_state c SCHED_CHAN_IDLE s)
     else Some s
   }"

definition scheduler_channel_has_waiting_cells :: "chan_ref \<Rightarrow> ('g, 'pd, 'cd, 'z) sched_t_scheme \<Rightarrow> ('g, 'pd, 'cd, 'z) sched_t_scheme option" where
  "scheduler_channel_has_waiting_cells c s = do {
     ch \<leftarrow> chans s c;
     if scheduler_state ch = SCHED_CHAN_WAITING_FOR_CELLS
     then map_option the_scheduler_schedule (make_pending c s)
     else if scheduler_state ch = SCHED_CHAN_IDLE
     then Some (scheduler_set_channel_state c SCHED_CHAN_WAITING_TO_WRITE s)
     else Some s
   }"

definition scheduler_channel_wants_writes :: "chan_ref \<Rightarrow> ('g, 'pd, 'cd, 'z) sched_t_scheme \<Rightarrow> ('g, 'pd, 'cd, 'z) sched_t_scheme option" where
  "scheduler_channel_wants_writes c s = do {
     ch \<leftarrow> chans s c;
     if scheduler_state ch = SCHED_CHAN_WAITING_TO_WRITE
     then map_option the_scheduler_schedule (make_pending c s)
     else if scheduler_state ch = SCHED_CHAN_IDLE
     then Some (scheduler_set_channel_state c SCHED_CHAN_WAITING_FOR_CELLS s)
     else Some s
   }"

definition scheduler_release_channel :: "chan_ref \<Rightarrow> ('g, 'pd, 'cd, 'z) sched_t_scheme \<Rightarrow> ('g, 'pd, 'cd, 'z) sched_t_scheme option" where
  "scheduler_release_channel c s = do {
     ch \<leftarrow> chans s c;
     s1 \<leftarrow> (if sched_heap_idx ch \<noteq> -1 then channels_pending_remove c s else Some s);
     Some (scheduler_set_channel_state c SCHED_CHAN_IDLE (the_scheduler_on_channel_free c s1))
   }"

section \<open>The invariant of the pending list\<close>

interpretation pending: indexed_queue "compare_items s" item_set_idx snd
  for s :: "('g, 'pd, 'cd, 'z) sched_t_scheme"
  by unfold_locales auto

text \<open>The index field of a channel is its position in the list, and \<open>-1\<close> when it is not there.\<close>

definition sched_ok :: "('g, 'pd, 'cd, 'z) sched_t_scheme \<Rightarrow> bool" where
  "sched_ok s \<longleftrightarrow> distinct (channels_pending s) \<and> length (channels_pending s) \<le> INT_MAX \<and>
     (\<forall>i < length (channels_pending s). \<exists>ch. chans s (channels_pending s ! i) = Some ch \<and> sched_heap_idx ch = int i) \<and>
     (\<forall>c ch. chans s c = Some ch \<longrightarrow> c \<notin> set (channels_pending s) \<longrightarrow> sched_heap_idx ch = -1)"

definition pending_exact :: "('g, 'pd, 'cd, 'z) sched_t_scheme \<Rightarrow> bool" where
  "pending_exact s \<longleftrightarrow> (\<forall>c ch. chans s c = Some ch \<longrightarrow> (scheduler_state ch = SCHED_CHAN_PENDING \<longleftrightarrow> c \<in> set (channels_pending s)))"

text \<open>The same but for the order of the list and the index fields.\<close>

definition same_but_idx :: "('g, 'pd, 'cd, 'z) sched_t_scheme \<Rightarrow> ('g, 'pd, 'cd, 'z) sched_t_scheme \<Rightarrow> bool" where
  "same_but_idx s s' \<longleftrightarrow> s' = s\<lparr>chans := chans s', channels_pending := channels_pending s'\<rparr> \<and>
     (\<forall>c. map_option (\<lambda>ch. ch\<lparr>sched_heap_idx := 0\<rparr>) (chans s' c) = map_option (\<lambda>ch. ch\<lparr>sched_heap_idx := 0\<rparr>) (chans s c))"

lemma map_fst_pending [simp]: "map fst (pending_items s) = channels_pending s"
  by (simp add: pending_items_def comp_def)

lemma sched_ok_indexed: "sched_ok s \<Longrightarrow> pending.indexed (pending_items s)"
  by (auto simp: sched_ok_def pending.indexed_def pending_items_def)

lemma sched_ok_alloc: "sched_ok s \<Longrightarrow> c \<in> set (channels_pending s) \<Longrightarrow>
    \<exists>i ch. i < length (channels_pending s) \<and> channels_pending s ! i = c \<and> chans s c = Some ch \<and> sched_heap_idx ch = int i"
  by (metis in_set_conv_nth sched_ok_def)

lemma sched_heap_idx_iff: "sched_ok s \<Longrightarrow> chans s c = Some ch \<Longrightarrow> sched_heap_idx ch = -1 \<longleftrightarrow> c \<notin> set (channels_pending s)"
  using sched_ok_alloc [of s c] by (auto simp: sched_ok_def)

lemma pending_put_items [simp]: "channels_pending (put_items removed items s) = map fst items"
  by (simp add: put_items_def)

lemma put_items_same: "same_but_idx s (put_items removed items s)"
  by (auto simp: same_but_idx_def put_items_def option.map_comp comp_def fun_eq_iff split: option.splits)

lemma put_items_ok:
  assumes ix: "\<And>i. i < length items \<Longrightarrow> snd (items ! i) = int i" and dis: "distinct (map fst (removed @ items))"
    and len: "length items \<le> INT_MAX" and rem: "\<And>x. x \<in> set removed \<Longrightarrow> snd x = -1"
    and dom: "set (map fst items) \<subseteq> dom (chans s)"
    and rest: "\<And>c ch. chans s c = Some ch \<Longrightarrow> c \<notin> set (map fst (removed @ items)) \<Longrightarrow> sched_heap_idx ch = -1"
  shows "sched_ok (put_items removed items s)"
proof -
  have at: "map_of (removed @ items) (fst (items ! i)) = Some (int i)" if "i < length items" for i
  proof -
    have "(fst (items ! i), int i) \<in> set (removed @ items)" using that ix [OF that] by (metis Un_iff nth_mem prod.collapse set_append)
    then show ?thesis using dis by (intro map_of_is_SomeI)
  qed
  have "\<exists>ch. chans (put_items removed items s) (map fst items ! i) = Some ch \<and> sched_heap_idx ch = int i"
    if "i < length items" for i
  proof -
    have "fst (items ! i) \<in> set (map fst items)" using that by simp
    then have "fst (items ! i) \<in> dom (chans s)" using dom by blast
    then show ?thesis using at [OF that] that by (auto simp: put_items_def)
  qed
  moreover have "sched_heap_idx ch = -1" if "chans (put_items removed items s) c = Some ch" "c \<notin> set (map fst items)" for c ch
  proof (cases "map_of (removed @ items) c")
    case None
    then have "chans s c = Some ch" using that(1) by (simp add: put_items_def del: map_of_append)
    moreover have "c \<notin> set (map fst (removed @ items))" using None by (simp only: map_of_eq_None_iff set_map not_False_eq_True)
    ultimately show ?thesis by (rule rest)
  next
    case (Some i)
    then have "(c, i) \<in> set (removed @ items)" by (rule map_of_SomeD)
    then have "(c, i) \<in> set removed" using that(2) by force
    then have "i = -1" using rem by force
    then show ?thesis using that(1) Some by (auto simp: put_items_def simp del: map_of_append)
  qed
  ultimately show ?thesis
    using dis len by (simp add: sched_ok_def put_items_def)
qed

lemma bag_fst:
  assumes "pending.bag q' = add_mset x (pending.bag q)"
  shows "mset (map fst q') = add_mset (fst x) (mset (map fst q))"
proof -
  have f: "image_mset fst (pending.bag q) = mset (map fst q)" for q :: "(chan_ref \<times> int) list"
    by (simp add: pending.bag_def image_mset.compositionality comp_def)
  have "image_mset fst (pending.bag q') = image_mset fst (add_mset x (pending.bag q))" by (simp only: assms)
  then show ?thesis by (simp only: f image_mset_add_mset)
qed

lemma pending_add_ok:
  assumes ok: "sched_ok s" and ch: "chans s c = Some ch" and new: "c \<notin> set (channels_pending s)"
    and len: "length (channels_pending s) < INT_MAX"
  shows "\<exists>s'. channels_pending_add c s = Some s' \<and> sched_ok s' \<and> same_but_idx s s' \<and>
    set (channels_pending s') = insert c (set (channels_pending s)) \<and> length (channels_pending s') = Suc (length (channels_pending s))"
proof -
  obtain items where it: "smartlist_pqueue_add (compare_items s) item_set_idx (pending_items s) (c, sched_heap_idx ch) = Some items"
    using len by (auto simp: smartlist_pqueue_add_def smartlist_add_def pending_items_def)
  from pending.add_keeps [OF sched_ok_indexed [OF ok] it] have k: "pending.indexed items" "length items \<le> INT_MAX"
      "pending.bag items = add_mset (c, 0) (pending.bag (pending_items s))" by auto
  have m: "mset (map fst items) = add_mset c (mset (channels_pending s))" using bag_fst [OF k(3)] by simp
  then have s: "set (map fst items) = insert c (set (channels_pending s))" by (metis set_mset_add_mset_insert set_mset_mset)
  have "distinct (c # channels_pending s)" using ok new by (simp add: sched_ok_def)
  then have d: "distinct (map fst items)" using m mset_eq_imp_distinct_iff [of "map fst items" "c # channels_pending s"] by simp
  have "sched_ok (put_items [] items s)"
  proof (rule put_items_ok)
    show "set (map fst items) \<subseteq> dom (chans s)" using ch sched_ok_alloc [OF ok] unfolding s by auto
    show "sched_heap_idx ch' = -1" if "chans s c' = Some ch'" "c' \<notin> set (map fst ([] @ items))" for c' ch'
      using ok that s by (auto simp: sched_ok_def)
  qed (use k d in \<open>auto simp: pending.indexed_def\<close>)
  moreover have "length items = Suc (length (channels_pending s))"
    using arg_cong [OF m, of size] by simp
  ultimately show ?thesis
    using it ch s put_items_same [of s "[]" items] by (intro exI [of _ "put_items [] items s"]) (simp add: channels_pending_add_def)
qed

lemma pending_taken:
  assumes ok: "sched_ok s" and k: "pending.indexed items" "length items \<le> INT_MAX"
      "pending.bag (pending_items s) = add_mset (c, 0) (pending.bag items)"
  shows "sched_ok (put_items [(c, -1)] items s) \<and> c \<in> set (channels_pending s) \<and> c \<notin> set (map fst items) \<and>
    set (map fst items) = set (channels_pending s) - {c}"
proof -
  have m: "mset (channels_pending s) = add_mset c (mset (map fst items))" using bag_fst [OF k(3)] by simp
  then have s: "set (channels_pending s) = insert c (set (map fst items))" by (metis set_mset_add_mset_insert set_mset_mset)
  have "distinct (channels_pending s)" using ok by (simp add: sched_ok_def)
  then have d: "distinct (c # map fst items)" using m mset_eq_imp_distinct_iff [of "channels_pending s" "c # map fst items"] by simp
  have "sched_ok (put_items [(c, -1)] items s)"
  proof (rule put_items_ok)
    show "set (map fst items) \<subseteq> dom (chans s)" using s sched_ok_alloc [OF ok] by blast
    show "sched_heap_idx ch' = -1" if "chans s c' = Some ch'" "c' \<notin> set (map fst ([(c, -1)] @ items))" for c' ch'
      using ok that s by (auto simp: sched_ok_def)
  qed (use k d in \<open>auto simp: pending.indexed_def\<close>)
  then show ?thesis using s d by auto
qed

lemma pending_remove_ok:
  assumes ok: "sched_ok s" and c: "c \<in> set (channels_pending s)"
  shows "\<exists>s'. channels_pending_remove c s = Some s' \<and> sched_ok s' \<and> same_but_idx s s' \<and>
    set (channels_pending s') = set (channels_pending s) - {c}"
proof -
  obtain i where i: "i < length (channels_pending s)" "channels_pending s ! i = c" using c by (auto simp: in_set_conv_nth)
  then obtain ch where ch: "chans s c = Some ch" "sched_heap_idx ch = int i" using ok by (auto simp: sched_ok_def)
  have it: "i < length (pending_items s)" "pending_items s ! i = (c, int i)" using i ch by (auto simp: pending_items_def)
  note ix = sched_ok_indexed [OF ok]
  obtain items where r: "smartlist_pqueue_remove (compare_items s) item_set_idx snd (pending_items s) (c, int i) = Some ((c, -1), items)"
    using pending.remove_refilled [OF ix it(1)] it(2) by auto
  have r': "smartlist_pqueue_remove (compare_items s) item_set_idx snd (pending_items s) (pending_items s ! i) = Some ((c, -1), items)"
    using r it(2) by simp
  from pending.remove_keeps [OF ix it(1) r'] have k: "pending.indexed items" "length (pending_items s) = Suc (length items)"
      "pending.bag (pending_items s) = add_mset (c, 0) (pending.bag items)" by auto
  have "length items \<le> INT_MAX" using k(2) ok by (simp add: sched_ok_def pending_items_def)
  from pending_taken [OF ok k(1) this k(3)] show ?thesis
    using r ch put_items_same [of s "[(c, -1)]" items]
    by (intro exI [of _ "put_items [(c, -1)] items s"]) (simp add: channels_pending_remove_def)
qed

lemma pending_pop_ok:
  assumes ok: "sched_ok s" and ne: "channels_pending s \<noteq> []"
  shows "\<exists>c s'. channels_pending_pop s = Some (c, s') \<and> sched_ok s' \<and> same_but_idx s s' \<and> c = channels_pending s ! 0 \<and>
    c \<in> set (channels_pending s) \<and> set (channels_pending s') = set (channels_pending s) - {c} \<and>
    length (channels_pending s) = Suc (length (channels_pending s'))"
proof -
  have ne': "pending_items s \<noteq> []" using ne by (simp add: pending_items_def)
  then obtain item items where r: "smartlist_pqueue_pop (compare_items s) item_set_idx (pending_items s) = Some (item, items)"
    by (auto simp: smartlist_pqueue_pop_def)
  from pending.pop_keeps [OF sched_ok_indexed [OF ok] r] have
    k: "item = (fst (pending_items s ! 0), -1)" "pending.indexed items" "length (pending_items s) = Suc (length items)"
      "pending.bag (pending_items s) = add_mset (fst item, 0) (pending.bag items)" by auto
  have c: "fst item = channels_pending s ! 0" using k(1) ne by (simp add: pending_items_def)
  have "length items \<le> INT_MAX" using k(3) ok by (simp add: sched_ok_def pending_items_def)
  from pending_taken [OF ok k(2) this k(4)] show ?thesis
    using r k(1,3) put_items_same [of s "[item]" items] c
    by (intro exI [of _ "fst item"] exI [of _ "put_items [item] items s"]) (simp add: channels_pending_pop_def pending_items_def)
qed

section \<open>The state machine\<close>

datatype sched_event = HAS_WAITING_CELLS chan_ref | WANTS_WRITES chan_ref | DOESNT_WANT_WRITES chan_ref | RELEASE chan_ref

fun sched_step :: "sched_event \<Rightarrow> ('g, 'pd, 'cd, 'z) sched_t_scheme \<Rightarrow> ('g, 'pd, 'cd, 'z) sched_t_scheme option" where
  "sched_step (HAS_WAITING_CELLS c) s = scheduler_channel_has_waiting_cells c s"
| "sched_step (WANTS_WRITES c) s = scheduler_channel_wants_writes c s"
| "sched_step (DOESNT_WANT_WRITES c) s = scheduler_channel_doesnt_want_writes c s"
| "sched_step (RELEASE c) s = scheduler_release_channel c s"

fun sched_run :: "sched_event list \<Rightarrow> ('g, 'pd, 'cd, 'z) sched_t_scheme \<Rightarrow> ('g, 'pd, 'cd, 'z) sched_t_scheme option" where
  "sched_run [] s = Some s"
| "sched_run (ev # evs) s = Option.bind (sched_step ev s) (sched_run evs)"

text \<open>What the states stand for: whether the channel has cells, and whether it has room.\<close>

definition chan_bits :: "scheduler_state_t \<Rightarrow> bool \<times> bool" where
  "chan_bits st = (case st of SCHED_CHAN_IDLE \<Rightarrow> (False, False) | SCHED_CHAN_WAITING_FOR_CELLS \<Rightarrow> (False, True)
     | SCHED_CHAN_WAITING_TO_WRITE \<Rightarrow> (True, False) | SCHED_CHAN_PENDING \<Rightarrow> (True, True))"

fun bits_step :: "sched_event \<Rightarrow> (chan_ref \<Rightarrow> bool \<times> bool) \<Rightarrow> (chan_ref \<Rightarrow> bool \<times> bool)" where
  "bits_step (HAS_WAITING_CELLS c) b = b(c := (True, snd (b c)))"
| "bits_step (WANTS_WRITES c) b = b(c := (fst (b c), True))"
| "bits_step (DOESNT_WANT_WRITES c) b = b(c := (fst (b c), False))"
| "bits_step (RELEASE c) b = b(c := (False, False))"

fun event_chan :: "sched_event \<Rightarrow> chan_ref" where
  "event_chan (HAS_WAITING_CELLS c) = c" | "event_chan (WANTS_WRITES c) = c"
| "event_chan (DOESNT_WANT_WRITES c) = c" | "event_chan (RELEASE c) = c"

text \<open>Between two runs of the scheduler.\<close>

definition sched_settled :: "('g, 'pd, 'cd, 'z) sched_t_scheme \<Rightarrow> bool" where
  "sched_settled s \<longleftrightarrow> sched_ok s \<and> pending_exact s \<and> (have_work s \<longrightarrow> run_sched_ev s \<noteq> None)"

definition bits_of :: "('g, 'pd, 'cd, 'z) sched_t_scheme \<Rightarrow> chan_ref \<Rightarrow> bool \<times> bool" where
  "bits_of s c = (case chans s c of Some ch \<Rightarrow> chan_bits (scheduler_state ch) | None \<Rightarrow> (False, False))"

lemma chan_bits_simps [simp]:
  "chan_bits SCHED_CHAN_IDLE = (False, False)" "chan_bits SCHED_CHAN_WAITING_FOR_CELLS = (False, True)"
  "chan_bits SCHED_CHAN_WAITING_TO_WRITE = (True, False)" "chan_bits SCHED_CHAN_PENDING = (True, True)"
  by (simp_all add: chan_bits_def)

lemma set_state_simps [simp]:
  "channels_pending (scheduler_set_channel_state c st s) = channels_pending s"
  "run_sched_ev (scheduler_set_channel_state c st s) = run_sched_ev s"
  "chans (scheduler_set_channel_state c st s) c' =
     (if c' = c then map_option (\<lambda>ch. ch\<lparr>scheduler_state := st\<rparr>) (chans s c) else chans s c')"
  by (simp_all add: scheduler_set_channel_state_def set_chan_def)

lemma set_state_ok: "sched_ok (scheduler_set_channel_state c st s) = sched_ok s"
proof -
  have i: "(\<exists>ch'. chans (scheduler_set_channel_state c st s) d = Some ch' \<and> sched_heap_idx ch' = x) \<longleftrightarrow>
      (\<exists>ch'. chans s d = Some ch' \<and> sched_heap_idx ch' = x)" for d x
    by (cases "chans s d") auto
  have j: "(\<forall>ch'. chans (scheduler_set_channel_state c st s) d = Some ch' \<longrightarrow> P \<longrightarrow> sched_heap_idx ch' = x) \<longleftrightarrow>
      (\<forall>ch'. chans s d = Some ch' \<longrightarrow> P \<longrightarrow> sched_heap_idx ch' = x)" for d x P
    by (cases "chans s d") auto
  show ?thesis unfolding sched_ok_def i j by simp
qed

lemma bits_set_state: "chans s c \<noteq> None \<Longrightarrow> bits_of (scheduler_set_channel_state c st s) = (bits_of s)(c := chan_bits st)"
  by (auto simp: bits_of_def fun_eq_iff)

lemma same_but_idx_chan:
  assumes "same_but_idx s s'"
  shows "(\<exists>ch ch'. chans s c = Some ch \<and> chans s' c = Some ch' \<and> ch' = ch\<lparr>sched_heap_idx := sched_heap_idx ch'\<rparr>) \<or>
    chans s c = None \<and> chans s' c = None"
proof -
  have eq: "map_option (\<lambda>ch. ch\<lparr>sched_heap_idx := 0\<rparr>) (chans s' c) = map_option (\<lambda>ch. ch\<lparr>sched_heap_idx := 0\<rparr>) (chans s c)"
    using assms by (simp add: same_but_idx_def)
  have put: "ch' = ch\<lparr>sched_heap_idx := sched_heap_idx ch'\<rparr>" if "ch'\<lparr>sched_heap_idx := 0\<rparr> = ch\<lparr>sched_heap_idx := 0\<rparr>" for ch ch' :: "('a, 'b, 'c) channel_t"
    using arg_cong [OF that, of "sched_heap_idx_update (\<lambda>_. sched_heap_idx ch')"] by simp
  show ?thesis
  proof (cases "chans s c")
    case None
    then have "chans s' c = None" using eq by (simp only: option.map_disc_iff option.map(1))
    then show ?thesis using None by simp
  next
    case (Some ch)
    then obtain ch' where c': "chans s' c = Some ch'" using eq by (cases "chans s' c") simp_all
    have "ch'\<lparr>sched_heap_idx := 0\<rparr> = ch\<lparr>sched_heap_idx := 0\<rparr>" using eq unfolding Some c' by (simp only: option.map option.inject)
    from put [OF this] show ?thesis using Some c' by metis
  qed
qed

lemma same_but_idx_dest:
  assumes "same_but_idx s s'"
  shows "dom (chans s') = dom (chans s)" and "bits_of s' = bits_of s" and "run_sched_ev s' = run_sched_ev s"
proof -
  have d: "c \<in> dom (chans s') \<longleftrightarrow> c \<in> dom (chans s)" for c using same_but_idx_chan [OF assms, of c] by (auto simp only: domIff option.distinct)
  then show "dom (chans s') = dom (chans s)" by blast
  have "bits_of s' c = bits_of s c" for c using same_but_idx_chan [OF assms, of c]
  proof (elim disjE exE conjE)
    fix ch ch' assume a: "chans s c = Some ch" "chans s' c = Some ch'" "ch' = ch\<lparr>sched_heap_idx := sched_heap_idx ch'\<rparr>"
    have "scheduler_state ch' = scheduler_state ch" by (subst a(3)) simp
    then show ?thesis using a(1,2) by (simp add: bits_of_def)
  qed (simp add: bits_of_def)
  then show "bits_of s' = bits_of s" by blast
  have e: "s' = s\<lparr>chans := chans s', channels_pending := channels_pending s'\<rparr>" using assms by (simp add: same_but_idx_def)
  show "run_sched_ev s' = run_sched_ev s" by (subst e) simp
qed

lemma pending_exact_iff: "pending_exact s \<longleftrightarrow> (\<forall>c. chans s c \<noteq> None \<longrightarrow> (bits_of s c = (True, True) \<longleftrightarrow> c \<in> set (channels_pending s)))"
proof -
  have "chan_bits st = (True, True) \<longleftrightarrow> st = SCHED_CHAN_PENDING" for st by (cases st) simp_all
  then show ?thesis unfolding pending_exact_def bits_of_def by (auto split: option.splits)
qed

lemma the_scheduler_schedule_simps [simp]:
  "channels_pending (the_scheduler_schedule s) = channels_pending s" "chans (the_scheduler_schedule s) = chans s"
  "channels_pending s \<noteq> [] \<Longrightarrow> run_sched_ev (the_scheduler_schedule s) \<noteq> None"
  by (auto simp: the_scheduler_schedule_def vanilla_scheduler_schedule_def kist_scheduler_schedule_def have_work_def Let_def
      split: scheduler_types_t.splits)

lemma the_scheduler_on_channel_free_simps [simp]:
  "channels_pending (the_scheduler_on_channel_free c s) = channels_pending s" "chans (the_scheduler_on_channel_free c s) = chans s"
  "run_sched_ev (the_scheduler_on_channel_free c s) = run_sched_ev s"
  by (auto simp: the_scheduler_on_channel_free_def free_socket_info_by_chan_def split: scheduler_types_t.splits)

lemma sched_ok_cong: "chans s' = chans s \<Longrightarrow> channels_pending s' = channels_pending s \<Longrightarrow> sched_ok s' = sched_ok s"
  by (simp add: sched_ok_def)

lemma bits_of_cong: "chans s' = chans s \<Longrightarrow> bits_of s' = bits_of s"
  by (simp add: bits_of_def fun_eq_iff)

text \<open>The list of pending channels never overflows: it has at most the channels in memory.\<close>

definition sched_room :: "('g, 'pd, 'cd, 'z) sched_t_scheme \<Rightarrow> bool" where
  "sched_room s \<longleftrightarrow> finite (dom (chans s)) \<and> card (dom (chans s)) \<le> INT_MAX"

lemma sched_room_length:
  assumes "sched_room s" and ok: "sched_ok s" and "chans s c \<noteq> None" and "c \<notin> set (channels_pending s)"
  shows "length (channels_pending s) < INT_MAX"
proof -
  have "distinct (c # channels_pending s)" using assms by (simp add: sched_ok_def)
  moreover have "set (c # channels_pending s) \<subseteq> dom (chans s)" using sched_ok_alloc [OF ok] assms(3) by auto
  ultimately have "length (c # channels_pending s) \<le> card (dom (chans s))"
    using assms(1) unfolding sched_room_def by (metis card_mono distinct_card)
  then show ?thesis using assms(1) by (simp add: sched_room_def)
qed

lemma dom_set_state [simp]: "dom (chans (scheduler_set_channel_state c st s)) = dom (chans s)"
  by (auto simp: dom_def)

lemma settled_set_state:
  assumes "sched_settled s" and "c \<notin> set (channels_pending s)" and "chans s c \<noteq> None" and "st \<noteq> SCHED_CHAN_PENDING"
  shows "sched_settled (scheduler_set_channel_state c st s)"
proof -
  have "chan_bits st \<noteq> (True, True)" using assms(4) by (cases st) simp_all
  then show ?thesis using assms(1,2) bits_set_state [OF assms(3), of st]
    by (simp add: sched_settled_def set_state_ok have_work_def pending_exact_iff)
qed

lemma settled_schedule:
  assumes "sched_settled s" and ch: "chans s c = Some ch" and new: "c \<notin> set (channels_pending s)" and room: "sched_room s"
  shows "\<exists>s'. map_option the_scheduler_schedule (make_pending c s) = Some s' \<and> sched_settled s' \<and> dom (chans s') = dom (chans s) \<and>
    bits_of s' = (bits_of s)(c := (True, True))"
proof -
  let ?s1 = "scheduler_set_channel_state c SCHED_CHAN_PENDING s"
  have ok: "sched_ok s" using assms(1) by (simp add: sched_settled_def)
  then have ok1: "sched_ok ?s1" by (simp add: set_state_ok)
  have ch1: "chans ?s1 c = Some (ch\<lparr>scheduler_state := SCHED_CHAN_PENDING\<rparr>)" using ch by simp
  have len: "length (channels_pending ?s1) < INT_MAX" using sched_room_length [OF room ok _ new] ch by simp
  have new1: "c \<notin> set (channels_pending ?s1)" using new by simp
  have i: "sched_heap_idx ch = -1" using ok ch new by (simp add: sched_heap_idx_iff)
  from pending_add_ok [OF ok1 ch1 new1 len] obtain s' where s': "channels_pending_add c ?s1 = Some s'" "sched_ok s'"
      "same_but_idx ?s1 s'" "set (channels_pending s') = insert c (set (channels_pending s))"
      "length (channels_pending s') = Suc (length (channels_pending ?s1))" by auto
  have b: "bits_of s' = (bits_of s)(c := (True, True))" using same_but_idx_dest(2) [OF s'(3)] bits_set_state [of s c] ch by simp
  have d: "dom (chans s') = dom (chans s)" using same_but_idx_dest(1) [OF s'(3)] by simp
  have ne: "channels_pending s' \<noteq> []" using s'(5) by auto
  have "pending_exact s'" unfolding pending_exact_iff b s'(4) 
  proof (intro allI impI)
    fix c' assume "chans s' c' \<noteq> None"
    then have "chans s c' \<noteq> None" using d by (metis domIff)
    then show "((bits_of s)(c := (True, True))) c' = (True, True) \<longleftrightarrow> c' \<in> insert c (set (channels_pending s))"
      using assms(1) by (simp add: sched_settled_def pending_exact_iff)
  qed
  then have "sched_settled (the_scheduler_schedule s')"
    using s'(2) ne by (simp add: sched_settled_def pending_exact_def sched_ok_cong [of "the_scheduler_schedule s'" s'])
  moreover have "make_pending c s = Some s'" using s'(1) ch i by (simp add: make_pending_def Let_def)
  ultimately show ?thesis using d b
    by (intro exI [of _ "the_scheduler_schedule s'"]) (simp add: bits_of_cong [of "the_scheduler_schedule s'" s'])
qed

lemma settled_remove:
  assumes "sched_settled s" and "c \<in> set (channels_pending s)" and st: "st \<noteq> SCHED_CHAN_PENDING"
  shows "\<exists>s'. channels_pending_remove c s = Some s' \<and> sched_settled (scheduler_set_channel_state c st s') \<and>
    dom (chans s') = dom (chans s) \<and> c \<notin> set (channels_pending s') \<and>
    bits_of (scheduler_set_channel_state c st s') = (bits_of s)(c := chan_bits st)"
proof -
  have ok: "sched_ok s" and px: "pending_exact s" and ev: "have_work s \<longrightarrow> run_sched_ev s \<noteq> None" using assms(1) by (simp_all add: sched_settled_def)
  from pending_remove_ok [OF ok assms(2)] obtain s' where s': "channels_pending_remove c s = Some s'" "sched_ok s'" "same_but_idx s s'"
      "set (channels_pending s') = set (channels_pending s) - {c}" by auto
  note d = same_but_idx_dest [OF s'(3)]
  have c: "chans s' c \<noteq> None" using d(1) sched_ok_alloc [OF ok assms(2)] by (metis domIff option.distinct(1))
  have b: "bits_of (scheduler_set_channel_state c st s') = (bits_of s)(c := chan_bits st)" using bits_set_state [OF c] d(2) by simp
  have n: "chan_bits st \<noteq> (True, True)" using st by (cases st) simp_all
  have "pending_exact (scheduler_set_channel_state c st s')" unfolding pending_exact_iff b
  proof (intro allI impI)
    fix c' assume "chans (scheduler_set_channel_state c st s') c' \<noteq> None"
    then have "c' \<in> dom (chans (scheduler_set_channel_state c st s'))" by (simp only: domIff not_False_eq_True)
    then have "chans s c' \<noteq> None" unfolding dom_set_state d(1) by (simp only: domIff not_False_eq_True)
    then show "((bits_of s)(c := chan_bits st)) c' = (True, True) \<longleftrightarrow> c' \<in> set (channels_pending (scheduler_set_channel_state c st s'))"
      using px n s'(4) by (simp add: pending_exact_iff)
  qed
  moreover have "channels_pending s \<noteq> []" using assms(2) by auto
  then have "run_sched_ev s' \<noteq> None" using ev d(3) by (simp add: have_work_def)
  ultimately have "sched_settled (scheduler_set_channel_state c st s')" using s'(2) by (simp add: sched_settled_def set_state_ok)
  then show ?thesis using s' b d(1) by simp
qed

lemma settled_cong:
  assumes "chans s' = chans s" "channels_pending s' = channels_pending s" "run_sched_ev s' = run_sched_ev s"
  shows "sched_settled s' = sched_settled s"
  using assms by (simp add: sched_settled_def sched_ok_cong [OF assms(1,2)] pending_exact_def have_work_def)

lemma chans_set_free [simp]:
  "chans (scheduler_set_channel_state c st (the_scheduler_on_channel_free c s)) = chans (scheduler_set_channel_state c st s)"
  by (simp add: fun_eq_iff)

lemma sched_step_ok:
  assumes ok: "sched_settled s" and room: "sched_room s" and al: "chans s (event_chan ev) \<noteq> None"
  shows "\<exists>s'. sched_step ev s = Some s' \<and> sched_settled s' \<and> dom (chans s') = dom (chans s) \<and> bits_of s' = bits_step ev (bits_of s)"
proof -
  define c where "c = event_chan ev"
  obtain ch where ch: "chans s c = Some ch" using al by (auto simp: c_def)
  have px: "scheduler_state ch = SCHED_CHAN_PENDING \<longleftrightarrow> c \<in> set (channels_pending s)"
    using ok ch by (simp add: sched_settled_def pending_exact_def)
  have b: "bits_of s c = chan_bits (scheduler_state ch)" using ch by (simp add: bits_of_def)
  have ix: "sched_heap_idx ch = -1 \<longleftrightarrow> c \<notin> set (channels_pending s)"
    using ok ch sched_heap_idx_iff by (auto simp: sched_settled_def)
  note set = settled_set_state [OF ok, of c] bits_set_state [of s c]
  note rem = settled_remove [OF ok, of c]
  note sched = settled_schedule [OF ok ch _ room]
  have same: "(bits_of s)(c := chan_bits (scheduler_state ch)) = bits_of s" using b by auto
  show ?thesis
  proof (cases ev)
    case (HAS_WAITING_CELLS d)
    then have "d = c" by (simp add: c_def)
    then show ?thesis using HAS_WAITING_CELLS ch b px set sched ok same
      by (cases "scheduler_state ch") (simp_all add: scheduler_channel_has_waiting_cells_def)
  next
    case (WANTS_WRITES d)
    then have "d = c" by (simp add: c_def)
    then show ?thesis using WANTS_WRITES ch b px set sched ok same
      by (cases "scheduler_state ch") (simp_all add: scheduler_channel_wants_writes_def)
  next
    case (DOESNT_WANT_WRITES d)
    then have "d = c" by (simp add: c_def)
    then show ?thesis using DOESNT_WANT_WRITES ch b px set rem [of SCHED_CHAN_WAITING_TO_WRITE] ok same
      by (cases "scheduler_state ch") (auto simp: scheduler_channel_doesnt_want_writes_def)
  next
    case (RELEASE d)
    then have d: "d = c" by (simp add: c_def)
    have free: "sched_settled (scheduler_set_channel_state c st (the_scheduler_on_channel_free c s1)) =
        sched_settled (scheduler_set_channel_state c st s1)" for st and s1 :: "('a, 'b, 'c, 'd) sched_t_scheme"
      by (rule settled_cong) simp_all
    have freeb: "bits_of (scheduler_set_channel_state c st (the_scheduler_on_channel_free c s1)) =
        bits_of (scheduler_set_channel_state c st s1)" for st and s1 :: "('a, 'b, 'c, 'd) sched_t_scheme"
      by (rule bits_of_cong) simp
    show ?thesis
    proof (cases "c \<in> set (channels_pending s)")
      case True
      from rem [OF True, of SCHED_CHAN_IDLE] show ?thesis using RELEASE d ch ix True
        by (auto simp: scheduler_release_channel_def free freeb)
    next
      case False
      then show ?thesis using RELEASE d ch ix set [of SCHED_CHAN_IDLE]
        by (simp add: scheduler_release_channel_def free freeb)
    qed
  qed
qed


definition idle_channel :: "(nat, nat, nat) channel_t" where
  "idle_channel = \<lparr>chan_state = CHANNEL_STATE_OPEN, registered = True, has_been_open = True, is_canonical_to_peer = True,
     reason_for_closing = CHANNEL_NOT_CLOSING, scheduler_state = SCHED_CHAN_IDLE, sched_heap_idx = -1, timestamp_created = 0,
     identity_digest = [], ed25519_identity = [], cmux = None, circ_id_type = CIRC_ID_TYPE_HIGHER, wide_circ_ids = True,
     num_n_circuits = 0, num_p_circuits = 0, is_bad_for_new_circs = False, is_client = False, is_incoming = False,
     is_local = False, n_cells_xmitted = 0, n_bytes_xmitted = 0\<rparr>"

definition quiet_scheduler :: "(nat, nat, nat) sched_t" where
  "quiet_scheduler = \<lparr>chans = [1 \<mapsto> idle_channel, 2 \<mapsto> idle_channel], channels_pending = [], the_scheduler = SCHEDULER_KIST,
     run_sched_ev = None, socket_table = Map.empty, sched_clock = 0, scheduler_last_run = 0, sched_run_interval = 10\<rparr>"

definition some_events :: "sched_event list" where
  "some_events = [HAS_WAITING_CELLS 1, WANTS_WRITES 1, WANTS_WRITES 2, HAS_WAITING_CELLS 2, DOESNT_WANT_WRITES 1]"


end
