(* ===== verification/Channel.thy ===== *)
theory Channel
  imports Scheduler
begin

text \<open>
  The channel layer (\<open>src/core/or/channel.c\<close>) with the transport below it as far as it drives the life
  of a channel (\<open>channeltls.c\<close>, \<open>connection_or.c\<close>). The registry keeps the channels in lists (all, active,
  finished), in a table by global identifier and in a table by the RSA identity of the peer; a channel
  moves through its states, and is freed some time after it is CLOSED or in ERROR.

  The registry extends the scheduler's state. A table entry of \<open>channel_identity_map\<close> is the digest and the list
  linked through \<open>next_with_same_id\<close>. \<open>tls_conn\<close> tells which channels have an \<open>or_connection_t\<close>
  (the connection of a channel is named like the channel), \<open>closeable_conns\<close> is the main loop's list
  of the connections marked for close. The code for circuits, \<open>connection_or_connect\<close> and the
  order in which the mux's table is walked are parameters, in the record \<open>lower_t\<close>. Timers, logs
  and statistics are left out.
\<close>

section \<open>States\<close>

fun channel_state_is_valid :: "channel_state_t \<Rightarrow> bool" where
  "channel_state_is_valid CHANNEL_STATE_LAST = False"
| "channel_state_is_valid _ = True"

fun channel_state_can_transition :: "channel_state_t \<Rightarrow> channel_state_t \<Rightarrow> bool" where
  "channel_state_can_transition CHANNEL_STATE_CLOSED to = (to = CHANNEL_STATE_OPENING)"
| "channel_state_can_transition CHANNEL_STATE_CLOSING to = (to = CHANNEL_STATE_CLOSED \<or> to = CHANNEL_STATE_ERROR)"
| "channel_state_can_transition CHANNEL_STATE_ERROR to = False"
| "channel_state_can_transition CHANNEL_STATE_MAINT to =
     (to = CHANNEL_STATE_CLOSING \<or> to = CHANNEL_STATE_ERROR \<or> to = CHANNEL_STATE_OPEN)"
| "channel_state_can_transition CHANNEL_STATE_OPENING to =
     (to = CHANNEL_STATE_CLOSING \<or> to = CHANNEL_STATE_ERROR \<or> to = CHANNEL_STATE_OPEN)"
| "channel_state_can_transition CHANNEL_STATE_OPEN to =
     (to = CHANNEL_STATE_CLOSING \<or> to = CHANNEL_STATE_ERROR \<or> to = CHANNEL_STATE_MAINT)"
| "channel_state_can_transition CHANNEL_STATE_LAST to = False"

definition finished_state :: "channel_state_t \<Rightarrow> bool" where
  "finished_state st \<longleftrightarrow> st = CHANNEL_STATE_CLOSED \<or> st = CHANNEL_STATE_ERROR"

definition condemned_state :: "channel_state_t \<Rightarrow> bool" where
  "condemned_state st \<longleftrightarrow> st = CHANNEL_STATE_CLOSING \<or> finished_state st"

abbreviation CHANNEL_IS_OPEN :: "('g, 'pd, 'cd) channel_t \<Rightarrow> bool" where
  "CHANNEL_IS_OPEN ch \<equiv> chan_state ch = CHANNEL_STATE_OPEN"

abbreviation CHANNEL_FINISHED :: "('g, 'pd, 'cd) channel_t \<Rightarrow> bool" where
  "CHANNEL_FINISHED ch \<equiv> finished_state (chan_state ch)"

abbreviation CHANNEL_CONDEMNED :: "('g, 'pd, 'cd) channel_t \<Rightarrow> bool" where
  "CHANNEL_CONDEMNED ch \<equiv> condemned_state (chan_state ch)"

section \<open>The registry\<close>

type_synonym idmap = "(u8 list \<times> chan_ref list) list"

record ('g, 'pd, 'cd) registry_t = "('g, 'pd, 'cd) sched_t" +
  all_channels :: "chan_ref list"
  active_channels :: "chan_ref list"
  finished_channels :: "chan_ref list"
  channel_gid_map :: "chan_ref set"
  channel_identity_map :: idmap
  n_channels_allocated :: u64
  cleanup_scheduled :: bool
  tls_conn :: "chan_ref set"
  closeable_conns :: "chan_ref list"
  circs :: "circuit_name \<Rightarrow> mux_circuit_t"
  policy_globals :: 'g
  global_destroy_ctr :: int
  time_now :: int

record ('s, 'g, 'pd, 'cd) lower_t =
  mux_policy :: "('g, 'pd, 'cd) circuitmux_policy_t"
  connection_or_connect :: "chan_ref \<Rightarrow> 's \<Rightarrow> (bool \<times> 's) option"
  circuit_n_chan_done :: "chan_ref \<Rightarrow> bool \<Rightarrow> 's \<Rightarrow> 's option"
  circuit_unlink_all_from_channel :: "chan_ref \<Rightarrow> 's \<Rightarrow> 's option"
  circuitmux_mark_destroyed_circids_usable :: "chan_ref \<Rightarrow> 's \<Rightarrow> 's option"
  find_circuit :: "'s \<Rightarrow> mux_key \<Rightarrow> circuit_name option"
  map_order :: "'s \<Rightarrow> chan_ref \<Rightarrow> mux_key list"

text \<open>Removing from a list swaps the last element into the hole.\<close>

definition smartlist_del :: "'a list \<Rightarrow> nat \<Rightarrow> 'a list option" where
  "smartlist_del sl i = (if i < length sl then Some (butlast (sl[i := last sl])) else None)"

function smartlist_remove_loop :: "'a \<Rightarrow> nat \<Rightarrow> 'a list \<Rightarrow> 'a list" where
  "smartlist_remove_loop x i sl =
     (if i < length sl
      then if sl ! i = x then smartlist_remove_loop x i (butlast (sl[i := last sl])) else smartlist_remove_loop x (Suc i) sl
      else sl)"
  by pat_completeness auto
termination by (relation "measure (\<lambda>(x, i, sl). length sl - i)") auto

declare smartlist_remove_loop.simps [simp del]

definition smartlist_remove :: "'a \<Rightarrow> 'a list \<Rightarrow> 'a list" where
  "smartlist_remove x sl = smartlist_remove_loop x 0 sl"

section \<open>The table by identity\<close>

definition DIGEST_LEN :: nat where "DIGEST_LEN = 20"

definition tor_digest_is_zero :: "u8 list \<Rightarrow> bool" where
  "tor_digest_is_zero d \<longleftrightarrow> d = replicate DIGEST_LEN 0"

definition ED25519_PUBKEY_LEN :: nat where "ED25519_PUBKEY_LEN = 32"

definition ed25519_public_key_is_zero :: "u8 list \<Rightarrow> bool" where
  "ed25519_public_key_is_zero k \<longleftrightarrow> k = replicate ED25519_PUBKEY_LEN 0"

text \<open>A channel that is in no list has no \<open>le_prev\<close> to follow.\<close>

definition TOR_LIST_REMOVE :: "chan_ref \<Rightarrow> idmap \<Rightarrow> idmap option" where
  "TOR_LIST_REMOVE c m =
     (if \<exists>e \<in> set m. c \<in> set (snd e) then Some (map (\<lambda>e. (fst e, remove1 c (snd e))) m) else None)"

definition idmap_insert_head :: "u8 list \<Rightarrow> chan_ref \<Rightarrow> idmap \<Rightarrow> idmap" where
  "idmap_insert_head d c m =
     (case map_of m d of
        None \<Rightarrow> (d, [c]) # m
      | Some l \<Rightarrow> map (\<lambda>e. if fst e = d then (d, c # l) else e) m)"

definition channel_add_to_digest_map :: "chan_ref \<Rightarrow> ('g, 'pd, 'cd, 'z) registry_t_scheme \<Rightarrow> ('g, 'pd, 'cd, 'z) registry_t_scheme option" where
  "channel_add_to_digest_map c s = do {
     ch \<leftarrow> chans s c;
     if CHANNEL_CONDEMNED ch then None
     else if tor_digest_is_zero (identity_digest ch) then None
     else Some (s\<lparr>channel_identity_map := idmap_insert_head (identity_digest ch) c (channel_identity_map s)\<rparr>)
   }"

definition channel_remove_from_digest_map :: "chan_ref \<Rightarrow> ('g, 'pd, 'cd, 'z) registry_t_scheme \<Rightarrow> ('g, 'pd, 'cd, 'z) registry_t_scheme option" where
  "channel_remove_from_digest_map c s = do {
     ch \<leftarrow> chans s c;
     if tor_digest_is_zero (identity_digest ch) then None
     else do {
       m \<leftarrow> TOR_LIST_REMOVE c (channel_identity_map s);
       Some (s\<lparr>channel_identity_map :=
         (if map_of m (identity_digest ch) = Some [] then filter (\<lambda>e. fst e \<noteq> identity_digest ch) m else m)\<rparr>)
     }
   }"

section \<open>Creating and registering\<close>

text \<open>The memory of a new channel is zero.\<close>

definition zero_channel :: "('g, 'pd, 'cd) channel_t" where
  "zero_channel = \<lparr>chan_state = CHANNEL_STATE_CLOSED, registered = False, has_been_open = False, is_canonical_to_peer = False,
     reason_for_closing = CHANNEL_NOT_CLOSING, scheduler_state = SCHED_CHAN_IDLE, sched_heap_idx = 0, timestamp_created = 0,
     identity_digest = replicate DIGEST_LEN 0, ed25519_identity = replicate ED25519_PUBKEY_LEN 0, cmux = None,
     circ_id_type = CIRC_ID_TYPE_LOWER, wide_circ_ids = False, num_n_circuits = 0, num_p_circuits = 0,
     is_bad_for_new_circs = False, is_client = False, is_incoming = False, is_local = False,
     n_cells_xmitted = 0, n_bytes_xmitted = 0\<rparr>"

definition channel_init :: "('g, 'pd, 'cd) channel_t \<Rightarrow> ('g, 'pd, 'cd, 'z) registry_t_scheme \<Rightarrow> chan_ref \<times> ('g, 'pd, 'cd, 'z) registry_t_scheme" where
  "channel_init ch s =
     (let i = n_channels_allocated s + 1
      in (i, s\<lparr>n_channels_allocated := i,
               chans := (chans s)(i \<mapsto> ch\<lparr>timestamp_created := time_now s, has_been_open := False,
                                         scheduler_state := SCHED_CHAN_IDLE, sched_heap_idx := -1\<rparr>)\<rparr>))"

definition channel_register :: "chan_ref \<Rightarrow> ('g, 'pd, 'cd, 'z) registry_t_scheme \<Rightarrow> ('g, 'pd, 'cd, 'z) registry_t_scheme option" where
  "channel_register c s = do {
     ch \<leftarrow> chans s c;
     if c = 0 then None
     else if registered ch then Some s
     else do {
       all \<leftarrow> smartlist_add (all_channels s) c;
       if c \<in> channel_gid_map s then None
       else do {
         let s1 = s\<lparr>all_channels := all, channel_gid_map := insert c (channel_gid_map s)\<rparr>;
         s2 \<leftarrow> (if CHANNEL_FINISHED ch
                 then do {
                   l \<leftarrow> smartlist_add (finished_channels s1) c;
                   Some (s1\<lparr>finished_channels := l, cleanup_scheduled := True\<rparr>)
                 }
                 else do {
                   l \<leftarrow> smartlist_add (active_channels s1) c;
                   let s2 = s1\<lparr>active_channels := l\<rparr>;
                   if chan_state ch \<noteq> CHANNEL_STATE_CLOSING \<and> \<not> tor_digest_is_zero (identity_digest ch)
                   then channel_add_to_digest_map c s2 else Some s2
                 });
         Some (set_chan c (\<lambda>ch. ch\<lparr>registered := True\<rparr>) s2)
       }
     }
   }"

definition channel_unregister :: "chan_ref \<Rightarrow> ('g, 'pd, 'cd, 'z) registry_t_scheme \<Rightarrow> ('g, 'pd, 'cd, 'z) registry_t_scheme option" where
  "channel_unregister c s = do {
     ch \<leftarrow> chans s c;
     if \<not> registered ch then Some s
     else do {
       let s1 = (if CHANNEL_FINISHED ch then s\<lparr>finished_channels := smartlist_remove c (finished_channels s)\<rparr>
                 else s\<lparr>active_channels := smartlist_remove c (active_channels s)\<rparr>);
       let s2 = s1\<lparr>all_channels := smartlist_remove c (all_channels s1), channel_gid_map := channel_gid_map s1 - {c}\<rparr>;
       let s3 = set_chan c (\<lambda>ch. ch\<lparr>registered := False\<rparr>) s2;
       if \<not> tor_digest_is_zero (identity_digest ch) \<and> \<not> CHANNEL_CONDEMNED ch
       then channel_remove_from_digest_map c s3 else Some s3
     }
   }"

section \<open>Changing state\<close>

definition update_channel_lists :: "chan_ref \<Rightarrow> channel_state_t \<Rightarrow> channel_state_t \<Rightarrow> ('g, 'pd, 'cd, 'z) registry_t_scheme \<Rightarrow> ('g, 'pd, 'cd, 'z) registry_t_scheme option" where
  "update_channel_lists c from_state to_state s =
     (if \<not> finished_state from_state \<and> finished_state to_state
      then do {
        l \<leftarrow> smartlist_add (finished_channels s) c;
        Some (s\<lparr>active_channels := smartlist_remove c (active_channels s), finished_channels := l, cleanup_scheduled := True\<rparr>)
      }
      else if finished_state from_state \<and> \<not> finished_state to_state
      then do {
        l \<leftarrow> smartlist_add (active_channels s) c;
        Some (s\<lparr>finished_channels := smartlist_remove c (finished_channels s), active_channels := l\<rparr>)
      }
      else Some s)"

definition update_identity_map :: "chan_ref \<Rightarrow> channel_state_t \<Rightarrow> channel_state_t \<Rightarrow> ('g, 'pd, 'cd, 'z) registry_t_scheme \<Rightarrow> ('g, 'pd, 'cd, 'z) registry_t_scheme option" where
  "update_identity_map c from_state to_state s = do {
     ch \<leftarrow> chans s c;
     if tor_digest_is_zero (identity_digest ch) then Some s
     else if condemned_state from_state \<and> \<not> condemned_state to_state then channel_add_to_digest_map c s
     else if \<not> condemned_state from_state \<and> condemned_state to_state then channel_remove_from_digest_map c s
     else Some s
   }"

definition channel_change_state_impl :: "chan_ref \<Rightarrow> channel_state_t \<Rightarrow> ('g, 'pd, 'cd, 'z) registry_t_scheme \<Rightarrow> ('g, 'pd, 'cd, 'z) registry_t_scheme option" where
  "channel_change_state_impl c to_state s = do {
     ch \<leftarrow> chans s c;
     let from_state = chan_state ch;
     if \<not> channel_state_is_valid from_state \<or> \<not> channel_state_is_valid to_state \<or>
        \<not> channel_state_can_transition from_state to_state then None
     else if from_state = to_state then Some s
     else if condemned_state to_state \<and> reason_for_closing ch = CHANNEL_NOT_CLOSING then None
     else do {
       let s1 = set_chan c (\<lambda>ch. ch\<lparr>chan_state := to_state\<rparr>) s;
       s2 \<leftarrow> (if registered ch
               then Option.bind (update_channel_lists c from_state to_state s1) (update_identity_map c from_state to_state)
               else Some s1);
       if condemned_state to_state then scheduler_release_channel c s2
       else if to_state = CHANNEL_STATE_MAINT then scheduler_channel_doesnt_want_writes c s2
       else Some s2
     }
   }"

definition channel_change_state :: "chan_ref \<Rightarrow> channel_state_t \<Rightarrow> ('g, 'pd, 'cd, 'z) registry_t_scheme \<Rightarrow> ('g, 'pd, 'cd, 'z) registry_t_scheme option" where
  "channel_change_state c to_state s = (if to_state = CHANNEL_STATE_OPEN then None else channel_change_state_impl c to_state s)"

text \<open>What opening tells other subsystems than the circuits is left out.\<close>

definition channel_do_open_actions ::
    "(('g, 'pd, 'cd, 'z) registry_t_scheme, 'g, 'pd, 'cd) lower_t \<Rightarrow> chan_ref \<Rightarrow> ('g, 'pd, 'cd, 'z) registry_t_scheme \<Rightarrow> ('g, 'pd, 'cd, 'z) registry_t_scheme option" where
  "channel_do_open_actions L c s = circuit_n_chan_done L c True s"

definition channel_change_state_open ::
    "(('g, 'pd, 'cd, 'z) registry_t_scheme, 'g, 'pd, 'cd) lower_t \<Rightarrow> chan_ref \<Rightarrow> ('g, 'pd, 'cd, 'z) registry_t_scheme \<Rightarrow> ('g, 'pd, 'cd, 'z) registry_t_scheme option" where
  "channel_change_state_open L c s = do {
     s1 \<leftarrow> channel_change_state_impl c CHANNEL_STATE_OPEN s;
     s2 \<leftarrow> channel_do_open_actions L c s1;
     Some (set_chan c (\<lambda>ch. ch\<lparr>has_been_open := True\<rparr>) s2)
   }"

section \<open>Closing\<close>

definition set_reason :: "chan_ref \<Rightarrow> reason_for_closing_t \<Rightarrow> ('g, 'pd, 'cd, 'z) registry_t_scheme \<Rightarrow> ('g, 'pd, 'cd, 'z) registry_t_scheme" where
  "set_reason c r s = set_chan c (\<lambda>ch. ch\<lparr>reason_for_closing := r\<rparr>) s"

definition channel_close_from_lower_layer :: "chan_ref \<Rightarrow> ('g, 'pd, 'cd, 'z) registry_t_scheme \<Rightarrow> ('g, 'pd, 'cd, 'z) registry_t_scheme option" where
  "channel_close_from_lower_layer c s = do {
     ch \<leftarrow> chans s c;
     if CHANNEL_CONDEMNED ch then Some s
     else channel_change_state c CHANNEL_STATE_CLOSING (set_reason c CHANNEL_CLOSE_FROM_BELOW s)
   }"

definition channel_close_for_error :: "chan_ref \<Rightarrow> ('g, 'pd, 'cd, 'z) registry_t_scheme \<Rightarrow> ('g, 'pd, 'cd, 'z) registry_t_scheme option" where
  "channel_close_for_error c s = do {
     ch \<leftarrow> chans s c;
     if CHANNEL_CONDEMNED ch then Some s
     else channel_change_state c CHANNEL_STATE_CLOSING (set_reason c CHANNEL_CLOSE_FOR_ERROR s)
   }"

text \<open>A connection that is already marked is not marked again.\<close>

definition connection_mark_for_close_internal :: "chan_ref \<Rightarrow> ('g, 'pd, 'cd, 'z) registry_t_scheme \<Rightarrow> ('g, 'pd, 'cd, 'z) registry_t_scheme" where
  "connection_mark_for_close_internal c s =
     (if c \<in> set (closeable_conns s) then s else s\<lparr>closeable_conns := closeable_conns s @ [c]\<rparr>)"

definition connection_or_close_normally :: "chan_ref \<Rightarrow> ('g, 'pd, 'cd, 'z) registry_t_scheme \<Rightarrow> ('g, 'pd, 'cd, 'z) registry_t_scheme option" where
  "connection_or_close_normally c s = do {
     let s1 = connection_mark_for_close_internal c s;
     ch \<leftarrow> chans s1 c;
     if \<not> CHANNEL_CONDEMNED ch then channel_close_from_lower_layer c s1 else Some s1
   }"

definition connection_or_close_for_error :: "chan_ref \<Rightarrow> ('g, 'pd, 'cd, 'z) registry_t_scheme \<Rightarrow> ('g, 'pd, 'cd, 'z) registry_t_scheme option" where
  "connection_or_close_for_error c s = do {
     let s1 = connection_mark_for_close_internal c s;
     ch \<leftarrow> chans s1 c;
     if \<not> CHANNEL_CONDEMNED ch then channel_close_for_error c s1 else Some s1
   }"

definition channel_tls_close_method :: "chan_ref \<Rightarrow> ('g, 'pd, 'cd, 'z) registry_t_scheme \<Rightarrow> ('g, 'pd, 'cd, 'z) registry_t_scheme option" where
  "channel_tls_close_method c s =
     (if c \<in> tls_conn s then connection_or_close_normally c s else channel_change_state c CHANNEL_STATE_ERROR s)"

definition channel_mark_for_close :: "chan_ref \<Rightarrow> ('g, 'pd, 'cd, 'z) registry_t_scheme \<Rightarrow> ('g, 'pd, 'cd, 'z) registry_t_scheme option" where
  "channel_mark_for_close c s = do {
     ch \<leftarrow> chans s c;
     if CHANNEL_CONDEMNED ch then Some s
     else Option.bind (channel_change_state c CHANNEL_STATE_CLOSING (set_reason c CHANNEL_CLOSE_REQUESTED s)) (channel_tls_close_method c)
   }"

definition channel_closed ::
    "(('g, 'pd, 'cd, 'z) registry_t_scheme, 'g, 'pd, 'cd) lower_t \<Rightarrow> chan_ref \<Rightarrow> ('g, 'pd, 'cd, 'z) registry_t_scheme \<Rightarrow> ('g, 'pd, 'cd, 'z) registry_t_scheme option" where
  "channel_closed L c s = do {
     ch \<leftarrow> chans s c;
     if \<not> CHANNEL_CONDEMNED ch then None
     else if CHANNEL_FINISHED ch then Some s
     else do {
       s1 \<leftarrow> (if \<not> has_been_open ch then circuit_n_chan_done L c False s else Some s);
       s2 \<leftarrow> circuit_unlink_all_from_channel L c s1;
       ch2 \<leftarrow> chans s2 c;
       if reason_for_closing ch2 \<noteq> CHANNEL_CLOSE_FOR_ERROR then channel_change_state c CHANNEL_STATE_CLOSED s2
       else channel_change_state c CHANNEL_STATE_ERROR s2
     }
   }"

text \<open>The connection goes away; what it tells the guards and the controller is left out.\<close>

definition connection_or_about_to_close ::
    "(('g, 'pd, 'cd, 'z) registry_t_scheme, 'g, 'pd, 'cd) lower_t \<Rightarrow> chan_ref \<Rightarrow> ('g, 'pd, 'cd, 'z) registry_t_scheme \<Rightarrow> ('g, 'pd, 'cd, 'z) registry_t_scheme option" where
  "connection_or_about_to_close L c s =
     (if c \<in> tls_conn s
      then map_option (\<lambda>s1. s1\<lparr>tls_conn := tls_conn s1 - {c}\<rparr>) (channel_closed L c s)
      else Some s)"

section \<open>The identity of the peer\<close>

definition in_digest_map :: "('g, 'pd, 'cd) channel_t \<Rightarrow> bool" where
  "in_digest_map ch \<longleftrightarrow> \<not> CHANNEL_CONDEMNED ch \<and> registered ch \<and> \<not> tor_digest_is_zero (identity_digest ch)"

definition channel_clear_identity_digest :: "chan_ref \<Rightarrow> ('g, 'pd, 'cd, 'z) registry_t_scheme \<Rightarrow> ('g, 'pd, 'cd, 'z) registry_t_scheme option" where
  "channel_clear_identity_digest c s = do {
     ch \<leftarrow> chans s c;
     s1 \<leftarrow> (if in_digest_map ch then channel_remove_from_digest_map c s else Some s);
     Some (set_chan c (\<lambda>ch. ch\<lparr>identity_digest := replicate DIGEST_LEN 0\<rparr>) s1)
   }"

definition channel_set_identity_digest ::
    "chan_ref \<Rightarrow> u8 list option \<Rightarrow> u8 list option \<Rightarrow> ('g, 'pd, 'cd, 'z) registry_t_scheme \<Rightarrow> ('g, 'pd, 'cd, 'z) registry_t_scheme option" where
  "channel_set_identity_digest c digest ed s = do {
     ch \<leftarrow> chans s c;
     let should_be_in_digest_map = (\<not> CHANNEL_CONDEMNED ch \<and> registered ch \<and> (case digest of None \<Rightarrow> False | Some d \<Rightarrow> \<not> tor_digest_is_zero d));
     s1 \<leftarrow> (if in_digest_map ch then channel_remove_from_digest_map c s else Some s);
     let s2 = set_chan c (\<lambda>ch. ch\<lparr>identity_digest := (case digest of Some d \<Rightarrow> d | None \<Rightarrow> replicate DIGEST_LEN 0),
                                  ed25519_identity := (case ed of Some k \<Rightarrow> k | None \<Rightarrow> replicate ED25519_PUBKEY_LEN 0)\<rparr>) s1;
     if should_be_in_digest_map then channel_add_to_digest_map c s2 else Some s2
   }"

definition channel_clear_remote_end :: "chan_ref \<Rightarrow> ('g, 'pd, 'cd, 'z) registry_t_scheme \<Rightarrow> ('g, 'pd, 'cd, 'z) registry_t_scheme option" where
  "channel_clear_remote_end c s = do {
     ch \<leftarrow> chans s c;
     s1 \<leftarrow> (if in_digest_map ch then channel_remove_from_digest_map c s else Some s);
     Some (set_chan c (\<lambda>ch. ch\<lparr>identity_digest := replicate DIGEST_LEN 0\<rparr>) s1)
   }"

section \<open>The transport\<close>

definition channel_tls_common_init ::
    "(('g, 'pd, 'cd, 'z) registry_t_scheme, 'g, 'pd, 'cd) lower_t \<Rightarrow> ('g, 'pd, 'cd, 'z) registry_t_scheme \<Rightarrow> (chan_ref \<times> ('g, 'pd, 'cd, 'z) registry_t_scheme) option" where
  "channel_tls_common_init L s = do {
     let (c, s1) = channel_init zero_channel s;
     mux \<leftarrow> circuitmux_set_policy (policy_globals s1) (\<lambda>_. None) [] (Some (mux_policy L)) circuitmux_alloc;
     Some (c, set_chan c (\<lambda>ch. ch\<lparr>chan_state := CHANNEL_STATE_OPENING, cmux := Some mux\<rparr>) s1)
   }"

definition channel_tls_connect ::
    "(('g, 'pd, 'cd, 'z) registry_t_scheme, 'g, 'pd, 'cd) lower_t \<Rightarrow> bool \<Rightarrow> ('g, 'pd, 'cd, 'z) registry_t_scheme \<Rightarrow> (chan_ref option \<times> ('g, 'pd, 'cd, 'z) registry_t_scheme) option" where
  "channel_tls_connect L is_local_addr s = do {
     (c, s1) \<leftarrow> channel_tls_common_init L s;
     let s2 = set_chan c (\<lambda>ch. ch\<lparr>is_local := is_local_addr, is_incoming := False\<rparr>) s1;
     (connected, s3) \<leftarrow> connection_or_connect L c s2;
     if connected
     then map_option (Pair (Some c)) (channel_register c (s3\<lparr>tls_conn := insert c (tls_conn s3)\<rparr>))
     else do {
       s4 \<leftarrow> channel_change_state c CHANNEL_STATE_ERROR (set_reason c CHANNEL_CLOSE_FOR_ERROR s3);
       ch \<leftarrow> chans s4 c;
       ctr \<leftarrow> (case cmux ch of Some m \<Rightarrow> circuitmux_free (global_destroy_ctr s4) m | None \<Rightarrow> Some (global_destroy_ctr s4));
       Some (None, s4\<lparr>global_destroy_ctr := ctr, chans := (chans s4)(c := None)\<rparr>)
     }
   }"

definition channel_tls_handle_incoming ::
    "(('g, 'pd, 'cd, 'z) registry_t_scheme, 'g, 'pd, 'cd) lower_t \<Rightarrow> bool \<Rightarrow> ('g, 'pd, 'cd, 'z) registry_t_scheme \<Rightarrow> (chan_ref \<times> ('g, 'pd, 'cd, 'z) registry_t_scheme) option" where
  "channel_tls_handle_incoming L is_local_addr s = do {
     (c, s1) \<leftarrow> channel_tls_common_init L s;
     let s2 = set_chan c (\<lambda>ch. ch\<lparr>is_local := is_local_addr, is_incoming := True\<rparr>) (s1\<lparr>tls_conn := insert c (tls_conn s1)\<rparr>);
     map_option (Pair c) (channel_register c s2)
   }"

text \<open>The \<open>or_connection_t\<close> of the channel changed state; \<open>cells\<close> is how many cells it takes now.\<close>

definition channel_tls_handle_state_change_on_orconn ::
    "(('g, 'pd, 'cd, 'z) registry_t_scheme, 'g, 'pd, 'cd) lower_t \<Rightarrow> chan_ref \<Rightarrow> bool \<Rightarrow> int \<Rightarrow> ('g, 'pd, 'cd, 'z) registry_t_scheme \<Rightarrow> ('g, 'pd, 'cd, 'z) registry_t_scheme option" where
  "channel_tls_handle_state_change_on_orconn L c is_open cells s = do {
     ch \<leftarrow> chans s c;
     if chan_state ch \<notin> {CHANNEL_STATE_OPENING, CHANNEL_STATE_OPEN, CHANNEL_STATE_MAINT, CHANNEL_STATE_CLOSING} then None
     else if is_open
     then do {
       s1 \<leftarrow> channel_change_state_open L c s;
       if cells > 0 then scheduler_channel_wants_writes c s1 else Some s1
     }
     else if CHANNEL_IS_OPEN ch then channel_change_state c CHANNEL_STATE_MAINT s
     else Some s
   }"

definition channel_tls_free_method :: "chan_ref \<Rightarrow> ('g, 'pd, 'cd, 'z) registry_t_scheme \<Rightarrow> ('g, 'pd, 'cd, 'z) registry_t_scheme" where
  "channel_tls_free_method c s = s\<lparr>tls_conn := tls_conn s - {c}\<rparr>"

section \<open>Freeing\<close>

definition set_cmux :: "chan_ref \<Rightarrow> ('g, 'pd, 'cd) circuitmux_t option \<Rightarrow> ('g, 'pd, 'cd, 'z) registry_t_scheme \<Rightarrow> ('g, 'pd, 'cd, 'z) registry_t_scheme" where
  "set_cmux c m s = set_chan c (\<lambda>ch. ch\<lparr>cmux := m\<rparr>) s"

definition free_mux_policy ::
    "(('g, 'pd, 'cd, 'z) registry_t_scheme, 'g, 'pd, 'cd) lower_t \<Rightarrow> chan_ref \<Rightarrow> ('g, 'pd, 'cd, 'z) registry_t_scheme \<Rightarrow> ('g, 'pd, 'cd, 'z) registry_t_scheme option" where
  "free_mux_policy L c s = do {
     ch \<leftarrow> chans s c;
     case cmux ch of
       None \<Rightarrow> Some s
     | Some mux \<Rightarrow> do {
         mux1 \<leftarrow> circuitmux_set_policy (policy_globals s) (find_circuit L s) (map_order L s c) None mux;
         Some (set_cmux c (Some mux1) s)
       }
   }"

definition free_mux ::
    "(('g, 'pd, 'cd, 'z) registry_t_scheme, 'g, 'pd, 'cd) lower_t \<Rightarrow> chan_ref \<Rightarrow> ('g, 'pd, 'cd, 'z) registry_t_scheme \<Rightarrow> ('g, 'pd, 'cd, 'z) registry_t_scheme option" where
  "free_mux L c s = do {
     ch \<leftarrow> chans s c;
     case cmux ch of
       None \<Rightarrow> Some s
     | Some mux \<Rightarrow> do {
         (mux1, _) \<leftarrow> circuitmux_detach_all_circuits (policy_globals s) (find_circuit L s) (circs s) (map_order L s c) mux;
         s1 \<leftarrow> circuitmux_mark_destroyed_circids_usable L c (set_cmux c (Some mux1) s);
         ctr \<leftarrow> circuitmux_free (global_destroy_ctr s1) mux1;
         Some (set_cmux c None (s1\<lparr>global_destroy_ctr := ctr\<rparr>))
       }
   }"

definition channel_free ::
    "(('g, 'pd, 'cd, 'z) registry_t_scheme, 'g, 'pd, 'cd) lower_t \<Rightarrow> chan_ref \<Rightarrow> ('g, 'pd, 'cd, 'z) registry_t_scheme \<Rightarrow> ('g, 'pd, 'cd, 'z) registry_t_scheme option" where
  "channel_free L c s = do {
     ch \<leftarrow> chans s c;
     if \<not> CHANNEL_FINISHED ch \<or> registered ch then None
     else do {
       s1 \<leftarrow> scheduler_release_channel c s;
       s2 \<leftarrow> free_mux_policy L c s1;
       let s3 = channel_tls_free_method c s2;
       s4 \<leftarrow> channel_clear_remote_end c s3;
       s5 \<leftarrow> free_mux L c s4;
       Some (s5\<lparr>chans := (chans s5)(c := None)\<rparr>)
     }
   }"

text \<open>The loop over the finished channels deletes its current element, so that it always looks at the
  first one; its argument is the number of elements left.\<close>

fun channel_run_cleanup_loop ::
    "(('g, 'pd, 'cd, 'z) registry_t_scheme, 'g, 'pd, 'cd) lower_t \<Rightarrow> nat \<Rightarrow> ('g, 'pd, 'cd, 'z) registry_t_scheme \<Rightarrow> ('g, 'pd, 'cd, 'z) registry_t_scheme option" where
  "channel_run_cleanup_loop L 0 s = Some s"
| "channel_run_cleanup_loop L (Suc n) s = do {
     if finished_channels s = [] then None
     else do {
       let curr = finished_channels s ! 0;
       l \<leftarrow> smartlist_del (finished_channels s) 0;
       s1 \<leftarrow> channel_unregister curr (s\<lparr>finished_channels := l\<rparr>);
       s2 \<leftarrow> channel_free L curr s1;
       channel_run_cleanup_loop L n s2
     }
   }"

definition channel_run_cleanup ::
    "(('g, 'pd, 'cd, 'z) registry_t_scheme, 'g, 'pd, 'cd) lower_t \<Rightarrow> ('g, 'pd, 'cd, 'z) registry_t_scheme \<Rightarrow> ('g, 'pd, 'cd, 'z) registry_t_scheme option" where
  "channel_run_cleanup L s = channel_run_cleanup_loop L (length (finished_channels s)) s"

section \<open>Lists and tables\<close>

lemma mset_del_swap: "i < length sl \<Longrightarrow> mset (butlast (sl[i := last sl])) = mset sl - {#sl ! i#}"
proof -
  assume i: "i < length sl"
  then obtain ys y where sl: "sl = ys @ [y]" by (cases sl rule: rev_cases) auto
  show ?thesis
  proof (cases "i = length ys")
    case True
    then show ?thesis by (simp add: sl list_update_append)
  next
    case False
    then have "i < length ys" using i sl by simp
    then show ?thesis by (simp add: sl list_update_append nth_append mset_update)
  qed
qed

lemma smartlist_del_ok:
  "i < length sl \<Longrightarrow> \<exists>l. smartlist_del sl i = Some l \<and> mset l = mset sl - {#sl ! i#}"
  by (simp add: smartlist_del_def mset_del_swap)

lemma smartlist_remove_loop_mset:
  "(\<And>j. j < i \<Longrightarrow> j < length sl \<Longrightarrow> sl ! j \<noteq> x) \<Longrightarrow> mset (smartlist_remove_loop x i sl) = filter_mset (\<lambda>y. y \<noteq> x) (mset sl)"
proof (induction x i sl rule: smartlist_remove_loop.induct)
  case (1 x i sl)
  show ?case
  proof (cases "i < length sl")
    case False
    then have "\<And>y. y \<in> set sl \<Longrightarrow> y \<noteq> x" using "1.prems" by (metis in_set_conv_nth less_le_trans not_less)
    then have "filter_mset (\<lambda>y. y \<noteq> x) (mset sl) = mset sl" by (simp add: filter_mset_eq_conv)
    then show ?thesis using False by (simp add: smartlist_remove_loop.simps)
  next
    case i: True
    show ?thesis
    proof (cases "sl ! i = x")
      case True
      have nth: "butlast (sl[i := last sl]) ! j = sl ! j" if "j < i" for j
        using that i by (simp add: nth_butlast)
      have "mset (smartlist_remove_loop x i (butlast (sl[i := last sl]))) = filter_mset (\<lambda>y. y \<noteq> x) (mset (butlast (sl[i := last sl])))"
        using "1.IH"(1) [OF i True] "1.prems" nth by fastforce
      also have "\<dots> = filter_mset (\<lambda>y. y \<noteq> x) (mset sl)" using True by (simp add: mset_del_swap [OF i])
      finally show ?thesis using i True by (simp add: smartlist_remove_loop.simps [of x i sl])
    next
      case False
      have "mset (smartlist_remove_loop x (Suc i) sl) = filter_mset (\<lambda>y. y \<noteq> x) (mset sl)"
        using "1.IH"(2) [OF i False] "1.prems" False by (metis less_Suc_eq)
      then show ?thesis using i False by (simp add: smartlist_remove_loop.simps [of x i sl])
    qed
  qed
qed

lemma smartlist_remove_mset: "mset (smartlist_remove x sl) = filter_mset (\<lambda>y. y \<noteq> x) (mset sl)"
  by (simp add: smartlist_remove_def smartlist_remove_loop_mset)

lemma smartlist_remove_set [simp]: "set (smartlist_remove x sl) = set sl - {x}"
proof -
  have "set_mset (mset (smartlist_remove x sl)) = set_mset (filter_mset (\<lambda>y. y \<noteq> x) (mset sl))" by (simp only: smartlist_remove_mset)
  then show ?thesis by auto
qed

lemma smartlist_remove_distinct [simp]: "distinct sl \<Longrightarrow> distinct (smartlist_remove x sl)"
proof -
  assume "distinct sl"
  then have "distinct (filter (\<lambda>y. y \<noteq> x) sl)" by simp
  moreover have "mset (smartlist_remove x sl) = mset (filter (\<lambda>y. y \<noteq> x) sl)" by (simp add: smartlist_remove_mset)
  ultimately show ?thesis using mset_eq_imp_distinct_iff by blast
qed

text \<open>The identity table lists the pairs of a channel and a digest that \<open>P\<close> allows.\<close>

definition idmap_ok :: "(chan_ref \<Rightarrow> u8 list \<Rightarrow> bool) \<Rightarrow> idmap \<Rightarrow> bool" where
  "idmap_ok P m \<longleftrightarrow> distinct (map fst m) \<and> (\<forall>e \<in> set m. snd e \<noteq> [] \<and> distinct (snd e)) \<and>
     (\<forall>d c. (\<exists>l. map_of m d = Some l \<and> c \<in> set l) \<longleftrightarrow> P c d)"

lemma idmap_at: "idmap_ok P m \<Longrightarrow> P c d \<longleftrightarrow> (\<exists>l. map_of m d = Some l \<and> c \<in> set l)"
  unfolding idmap_ok_def by blast

lemma idmap_entries: "idmap_ok P m \<Longrightarrow> distinct (map fst m) \<and> (\<forall>e \<in> set m. snd e \<noteq> [] \<and> distinct (snd e))"
  unfolding idmap_ok_def by blast

lemma idmapI:
  "distinct (map fst m) \<Longrightarrow> (\<And>e. e \<in> set m \<Longrightarrow> snd e \<noteq> [] \<and> distinct (snd e)) \<Longrightarrow>
    (\<And>d c. (\<exists>l. map_of m d = Some l \<and> c \<in> set l) \<longleftrightarrow> P c d) \<Longrightarrow> idmap_ok P m"
  unfolding idmap_ok_def by blast

lemma idmap_insert_ok:
  assumes ok: "idmap_ok P m" and new: "\<not> P c d"
  shows "idmap_ok (\<lambda>c' d'. P c' d' \<or> c' = c \<and> d' = d) (idmap_insert_head d c m)"
proof (cases "map_of m d")
  case None
  then have d: "d \<notin> fst ` set m" by (simp add: map_of_eq_None_iff)
  have look: "(\<exists>l. map_of ((d, [c]) # m) d' = Some l \<and> c' \<in> set l) \<longleftrightarrow> P c' d' \<or> c' = c \<and> d' = d" for c' d'
  proof (cases "d' = d")
    case True
    have "\<not> P c' d" using idmap_at [OF ok, of c' d] None by simp
    then show ?thesis using True by simp
  next
    case False
    then show ?thesis using idmap_at [OF ok, of c' d'] by simp
  qed
  have eq: "idmap_insert_head d c m = (d, [c]) # m" by (simp add: idmap_insert_head_def None)
  have keys: "distinct (map fst ((d, [c]) # m))" using idmap_entries [OF ok] d by simp
  have ent: "e \<in> set ((d, [c]) # m) \<Longrightarrow> snd e \<noteq> [] \<and> distinct (snd e)" for e using idmap_entries [OF ok] by auto
  have "idmap_ok (\<lambda>c' d'. P c' d' \<or> c' = c \<and> d' = d) ((d, [c]) # m)"
  proof (rule idmapI)
    show "distinct (map fst ((d, [c]) # m))" by (rule keys)
    show "snd e \<noteq> [] \<and> distinct (snd e)" if "e \<in> set ((d, [c]) # m)" for e using that by (rule ent)
    show "(\<exists>l. map_of ((d, [c]) # m) d' = Some l \<and> c' \<in> set l) \<longleftrightarrow> P c' d' \<or> c' = c \<and> d' = d" for d' c' by (rule look)
  qed
  then show ?thesis by (simp only: eq)
next
  case (Some l)
  let ?f = "\<lambda>e. if fst e = d then (d, c # l) else e"
  have dis: "distinct (map fst m)" using idmap_entries [OF ok] by blast
  have in_m: "(d, l) \<in> set m" using Some by (rule map_of_SomeD)
  have keys: "map fst (map ?f m) = map fst m" by (induction m) auto
  have c: "c \<notin> set l" using idmap_at [OF ok, of c d] Some new by blast
  have ent: "e \<in> set (map ?f m) \<Longrightarrow> snd e \<noteq> [] \<and> distinct (snd e)" for e
    using idmap_entries [OF ok] in_m c by (fastforce split: if_splits)
  have look: "map_of (map ?f m) d' = (if d' = d then Some (c # l) else map_of m d')" for d'
  proof (cases "d' = d")
    case True
    have "(d, c # l) \<in> set (map ?f m)" using in_m by force
    moreover have "distinct (map fst (map ?f m))" using dis by (simp only: keys)
    ultimately show ?thesis using True by (simp del: map_map)
  next
    case False
    have "map_of (map ?f m) d' = map_of m d'" using False by (induction m) auto
    then show ?thesis using False by simp
  qed
  have at: "(\<exists>l'. map_of (map ?f m) d' = Some l' \<and> c' \<in> set l') \<longleftrightarrow> P c' d' \<or> c' = c \<and> d' = d" for c' d'
  proof (cases "d' = d")
    case True
    have "c' \<in> set l \<longleftrightarrow> P c' d" using idmap_at [OF ok, of c' d] Some by simp
    then show ?thesis using True look [of d] by auto
  next
    case False
    then show ?thesis using idmap_at [OF ok, of c' d'] look by simp
  qed
  have eq: "idmap_insert_head d c m = map ?f m" by (simp add: idmap_insert_head_def Some)
  have dis': "distinct (map fst (map ?f m))" using dis by (simp only: keys)
  show ?thesis unfolding eq idmap_ok_def
    by (intro conjI ballI allI; (rule dis' | erule conjunct1 [OF ent] | erule conjunct2 [OF ent] | rule at))
qed

lemma idmap_remove_ok:
  assumes ok: "idmap_ok P m" and c: "P c d" and only: "\<And>d'. P c d' \<Longrightarrow> d' = d"
  shows "\<exists>m1. TOR_LIST_REMOVE c m = Some m1 \<and>
    idmap_ok (\<lambda>c' d'. P c' d' \<and> c' \<noteq> c) (if map_of m1 d = Some [] then filter (\<lambda>e. fst e \<noteq> d) m1 else m1)"
proof -
  define m1 where "m1 = map (\<lambda>e. (fst e, remove1 c (snd e))) m"
  obtain l where l: "map_of m d = Some l" "c \<in> set l" using idmap_at [OF ok] c by blast
  have dis: "distinct (map fst m)" using idmap_entries [OF ok] by simp
  have r: "TOR_LIST_REMOVE c m = Some m1" using l map_of_SomeD [of m d l] by (force simp: TOR_LIST_REMOVE_def m1_def)
  have keys: "map fst m1 = map fst m" by (simp add: m1_def comp_def)
  have look: "map_of m1 d' = map_option (remove1 c) (map_of m d')" for d'
    unfolding m1_def by (induction m) auto
  have other: "remove1 c (snd e) = snd e" if "e \<in> set m" "fst e \<noteq> d" for e
  proof -
    have "map_of m (fst e) = Some (snd e)" using that(1) dis by simp
    then have "c \<notin> set (snd e)" using idmap_at [OF ok, of c "fst e"] only that(2) by blast
    then show ?thesis by (simp add: remove1_idem)
  qed
  have ent: "distinct (snd e) \<and> (fst e \<noteq> d \<longrightarrow> snd e \<noteq> [])" if "e \<in> set m1" for e
  proof -
    obtain e0 where e0: "e0 \<in> set m" "e = (fst e0, remove1 c (snd e0))" using \<open>e \<in> set m1\<close> by (auto simp: m1_def)
    have "distinct (snd e0)" "snd e0 \<noteq> []" using idmap_entries [OF ok] e0(1) by simp_all
    then show ?thesis using e0 other by auto
  qed
  have dl: "distinct l" using idmap_entries [OF ok] map_of_SomeD [OF l(1)] by auto
  have at: "(\<exists>l'. map_of m1 d' = Some l' \<and> c' \<in> set l') \<longleftrightarrow> P c' d' \<and> c' \<noteq> c" for c' d'
  proof (cases "d' = d")
    case True
    have "c' \<in> set l \<longleftrightarrow> P c' d" using idmap_at [OF ok, of c' d] l(1) by simp
    then show ?thesis using True look [of d] l dl by auto
  next
    case False
    have pc: "\<not> P c d'" using False only by blast
    have "c' \<in> set l' \<longleftrightarrow> P c' d'" if "map_of m d' = Some l'" for l' using idmap_at [OF ok, of c' d'] that by simp
    moreover have "P c' d' \<Longrightarrow> \<exists>l'. map_of m d' = Some l'" using idmap_at [OF ok, of c' d'] by blast
    moreover have "remove1 c l' = l'" if "map_of m d' = Some l'" for l' using other [of "(d', l')"] that False map_of_SomeD by fastforce
    ultimately show ?thesis using look pc by (cases "map_of m d'") auto
  qed
  have "idmap_ok (\<lambda>c' d'. P c' d' \<and> c' \<noteq> c) (if map_of m1 d = Some [] then filter (\<lambda>e. fst e \<noteq> d) m1 else m1)"
  proof (cases "map_of m1 d = Some []")
    case True
    have none: "\<not> (P c' d \<and> c' \<noteq> c)" for c' using at [of d c'] True by simp
    have lf: "map_of (filter (\<lambda>e. fst e \<noteq> d) m1) d' = (if d' = d then None else map_of m1 d')" for d'
      by (induction m1) auto
    have "distinct (map fst (filter (\<lambda>e. fst e \<noteq> d) m1))" using dis keys by (metis distinct_map_filter)
    moreover have "(\<exists>l'. (if d' = d then None else map_of m1 d') = Some l' \<and> c' \<in> set l') \<longleftrightarrow> P c' d' \<and> c' \<noteq> c" for c' d'
      using at [of d' c'] none by auto
    moreover have "e \<in> set (filter (\<lambda>e. fst e \<noteq> d) m1) \<Longrightarrow> snd e \<noteq> [] \<and> distinct (snd e)" for e using ent by simp
    ultimately show ?thesis using True lf by (simp only: if_True) (rule idmapI, simp_all)
  next
    case False
    have "snd e \<noteq> []" if "e \<in> set m1" for e
    proof (cases "fst e = d")
      case True
      have "map_of m1 (fst e) = Some (snd e)" using that dis keys by (metis map_of_is_SomeI prod.collapse)
      then show ?thesis using False True by auto
    qed (use ent that in auto)
    then show ?thesis using False ent at dis keys by (simp only: if_False) (rule idmapI, simp_all)
  qed
  then show ?thesis using r by blast
qed

end
