(* ===== verification/Channel_Registry.thy ===== *)
theory Channel_Registry
  imports Channel
begin

text \<open>
  The registry of \<open>Channel\<close> through the life of its channels: every operation on it is a step on
  what the outside sees of the channels, and the lists, the tables and the scheduler stay exact.
\<close>

section \<open>What the scheduler leaves alone\<close>

definition strip_sched :: "('g, 'pd, 'cd) channel_t \<Rightarrow> ('g, 'pd, 'cd) channel_t" where
  "strip_sched ch = ch\<lparr>scheduler_state := SCHED_CHAN_IDLE, sched_heap_idx := 0\<rparr>"

definition sched_frame :: "('g, 'pd, 'cd, 'z) sched_t_scheme \<Rightarrow> ('g, 'pd, 'cd, 'z) sched_t_scheme \<Rightarrow> bool" where
  "sched_frame s s' \<longleftrightarrow> sched_t.more s' = sched_t.more s \<and>
     (\<forall>c. map_option strip_sched (chans s' c) = map_option strip_sched (chans s c))"

lemma sched_frame_refl [simp]: "sched_frame s s"
  by (simp add: sched_frame_def)

lemma sched_frame_trans: "sched_frame s s1 \<Longrightarrow> sched_frame s1 s2 \<Longrightarrow> sched_frame s s2"
  by (simp add: sched_frame_def)

lemma strip_simps [simp]:
  "strip_sched (ch\<lparr>scheduler_state := x\<rparr>) = strip_sched ch" "strip_sched (ch\<lparr>sched_heap_idx := i\<rparr>) = strip_sched ch"
  by (simp_all add: strip_sched_def)

lemma frame_set_state: "sched_frame s (scheduler_set_channel_state c st s)"
  by (auto simp: sched_frame_def scheduler_set_channel_state_def set_chan_def option.map_comp comp_def)

lemma frame_put_items: "sched_frame s (put_items removed items s)"
  by (auto simp: sched_frame_def put_items_def option.map_comp comp_def split: option.splits)

lemma frame_schedule: "sched_frame s (the_scheduler_schedule s)"
  by (auto simp: sched_frame_def the_scheduler_schedule_def vanilla_scheduler_schedule_def kist_scheduler_schedule_def Let_def
      split: scheduler_types_t.splits)

lemma frame_on_free: "sched_frame s (the_scheduler_on_channel_free c s)"
  by (auto simp: sched_frame_def the_scheduler_on_channel_free_def free_socket_info_by_chan_def split: scheduler_types_t.splits)

lemma frame_pending:
  "channels_pending_add c s = Some s' \<Longrightarrow> sched_frame s s'" "channels_pending_remove c s = Some s' \<Longrightarrow> sched_frame s s'"
  by (auto simp: channels_pending_add_def channels_pending_remove_def frame_put_items split: bind_splits)

lemma frame_make_pending: "make_pending c s = Some s' \<Longrightarrow> sched_frame s s'"
  by (auto simp: make_pending_def Let_def frame_set_state split: bind_splits if_splits
      intro: sched_frame_trans [OF frame_set_state frame_pending(1)])

lemmas sched_frames = frame_set_state frame_schedule frame_on_free frame_pending frame_make_pending

lemma sched_step_frame:
  assumes "sched_step ev s = Some s'"
  shows "sched_frame s s'"
proof (cases ev)
  case (HAS_WAITING_CELLS c)
  then show ?thesis using assms
    by (auto simp: scheduler_channel_has_waiting_cells_def split: bind_splits if_splits
        intro: sched_frames sched_frame_trans [OF frame_make_pending frame_schedule])
next
  case (WANTS_WRITES c)
  then show ?thesis using assms
    by (auto simp: scheduler_channel_wants_writes_def split: bind_splits if_splits
        intro: sched_frames sched_frame_trans [OF frame_make_pending frame_schedule])
next
  case (DOESNT_WANT_WRITES c)
  then show ?thesis using assms
    by (auto simp: scheduler_channel_doesnt_want_writes_def split: bind_splits if_splits
        intro: sched_frames sched_frame_trans [OF frame_pending(2) frame_set_state])
next
  case (RELEASE c)
  then show ?thesis using assms
    by (auto simp: scheduler_release_channel_def split: bind_splits if_splits
        intro: sched_frames sched_frame_trans [OF frame_pending(2) sched_frame_trans [OF frame_on_free frame_set_state]]
          sched_frame_trans [OF frame_on_free frame_set_state])
qed

section \<open>The registry as the outside sees it\<close>

type_synonym ('g, 'pd, 'cd) chan_view =
  "channel_state_t \<times> bool \<times> u8 list \<times> reason_for_closing_t \<times> ('g, 'pd, 'cd) circuitmux_t option"

definition view_of :: "('g, 'pd, 'cd) channel_t \<Rightarrow> ('g, 'pd, 'cd) chan_view" where
  "view_of ch = (chan_state ch, registered ch, identity_digest ch, reason_for_closing ch, cmux ch)"

definition view :: "('g, 'pd, 'cd, 'z) registry_t_scheme \<Rightarrow> chan_ref \<Rightarrow> ('g, 'pd, 'cd) chan_view option" where
  "view s c = map_option view_of (chans s c)"

definition reg :: "(chan_ref \<Rightarrow> ('g, 'pd, 'cd) chan_view option) \<Rightarrow> chan_ref \<Rightarrow> bool" where
  "reg v c \<longleftrightarrow> (\<exists>st d r m. v c = Some (st, True, d, r, m))"

definition reg_finished :: "(chan_ref \<Rightarrow> ('g, 'pd, 'cd) chan_view option) \<Rightarrow> chan_ref \<Rightarrow> bool" where
  "reg_finished v c \<longleftrightarrow> (\<exists>st d r m. v c = Some (st, True, d, r, m) \<and> finished_state st)"

definition named :: "(chan_ref \<Rightarrow> ('g, 'pd, 'cd) chan_view option) \<Rightarrow> chan_ref \<Rightarrow> u8 list \<Rightarrow> bool" where
  "named v c d \<longleftrightarrow> (\<exists>st r m. v c = Some (st, True, d, r, m) \<and> \<not> condemned_state st \<and> \<not> tor_digest_is_zero d)"

lemma view_simps [simp]:
  "reg (v(x \<mapsto> (st, b, d, r, m))) c = (if c = x then b else reg v c)"
  "reg_finished (v(x \<mapsto> (st, b, d, r, m))) c = (if c = x then b \<and> finished_state st else reg_finished v c)"
  "named (v(x \<mapsto> (st, b, d, r, m))) c d' = (if c = x then b \<and> d' = d \<and> \<not> condemned_state st \<and> \<not> tor_digest_is_zero d else named v c d')"
  "reg (v(x := None)) c = (c \<noteq> x \<and> reg v c)"
  "reg_finished (v(x := None)) c = (c \<noteq> x \<and> reg_finished v c)"
  "named (v(x := None)) c d = (c \<noteq> x \<and> named v c d)"
  by (auto simp: reg_def reg_finished_def named_def)

lemma view_at:
  assumes "v c = Some (st, b, d, r, m)"
  shows "reg v c = b" "reg_finished v c = (b \<and> finished_state st)"
    "named v c d' = (b \<and> d' = d \<and> \<not> condemned_state st \<and> \<not> tor_digest_is_zero d)"
  using assms by (auto simp: reg_def reg_finished_def named_def)

definition mux_idle :: "('g, 'pd, 'cd) circuitmux_t \<Rightarrow> bool" where
  "mux_idle m \<longleftrightarrow> chanid_circid_map m = Map.empty \<and> n_circuits m = 0 \<and> n_active_circuits m = 0 \<and>
     (policy_data m \<noteq> None \<longrightarrow> (\<exists>pol. policy m = Some pol \<and> free_cmux_data pol))"

text \<open>The lists and tables hold the channels they should.\<close>

definition lists_ok :: "('g, 'pd, 'cd, 'z) registry_t_scheme \<Rightarrow> bool" where
  "lists_ok s \<longleftrightarrow>
     distinct (all_channels s) \<and> (\<forall>c. c \<in> set (all_channels s) \<longleftrightarrow> reg (view s) c) \<and>
     (\<forall>c. c \<in> channel_gid_map s \<longleftrightarrow> reg (view s) c) \<and>
     distinct (active_channels s) \<and> (\<forall>c. c \<in> set (active_channels s) \<longleftrightarrow> reg (view s) c \<and> \<not> reg_finished (view s) c) \<and>
     distinct (finished_channels s) \<and> (\<forall>c. c \<in> set (finished_channels s) \<longleftrightarrow> reg_finished (view s) c)"

text \<open>Each channel by itself.\<close>

definition view_ok :: "u64 \<Rightarrow> (chan_ref \<Rightarrow> ('g, 'pd, 'cd) chan_view option) \<Rightarrow> bool" where
  "view_ok n v \<longleftrightarrow> (\<forall>c st b d r m. v c = Some (st, b, d, r, m) \<longrightarrow>
     0 < c \<and> c \<le> n \<and> st \<noteq> CHANNEL_STATE_LAST \<and> (condemned_state st \<longrightarrow> r \<noteq> CHANNEL_NOT_CLOSING) \<and>
     (finished_state st \<longrightarrow> (\<forall>mux. m = Some mux \<longrightarrow> mux_idle mux)))"

definition link_ok :: "(chan_ref \<Rightarrow> ('g, 'pd, 'cd) chan_view option) \<Rightarrow> chan_ref set \<Rightarrow> bool" where
  "link_ok v t \<longleftrightarrow> t \<subseteq> dom v \<and> (\<forall>c st d r m. v c = Some (st, True, d, r, m) \<longrightarrow> \<not> condemned_state st \<longrightarrow> c \<in> t)"

definition channels_ok :: "('g, 'pd, 'cd, 'z) registry_t_scheme \<Rightarrow> bool" where
  "channels_ok s \<longleftrightarrow> lists_ok s \<and> idmap_ok (named (view s)) (channel_identity_map s) \<and>
     view_ok (n_channels_allocated s) (view s) \<and> link_ok (view s) (tls_conn s) \<and> sched_settled s"

text \<open>The operations on the registry are steps on three things: the counter of identifiers, the view of
  the channels, and the set of channels with a connection.\<close>

definition okv ::
    "('g, 'pd, 'cd, 'z) registry_t_scheme \<Rightarrow> u64 \<Rightarrow> (chan_ref \<Rightarrow> ('g, 'pd, 'cd) chan_view option) \<Rightarrow> chan_ref set \<Rightarrow> bool" where
  "okv s n v t \<longleftrightarrow> channels_ok s \<and> n_channels_allocated s = n \<and> view s = v \<and> tls_conn s = t"

lemma view_set_chan: "view (set_chan c f s) = (view s)(c := map_option (\<lambda>ch. view_of (f ch)) (chans s c))"
  by (auto simp: view_def set_chan_def fun_eq_iff option.map_comp comp_def)

lemma view_Some: "view s c = Some (st, b, d, r, m) \<Longrightarrow>
    \<exists>ch. chans s c = Some ch \<and> chan_state ch = st \<and> registered ch = b \<and> identity_digest ch = d \<and> reason_for_closing ch = r \<and> cmux ch = m"
  by (auto simp: view_def view_of_def)

lemma dom_chans: "dom (chans s) = dom (view s)"
  by (auto simp: view_def dom_def)

lemma view_of_strip: "view_of (strip_sched ch) = view_of ch"
  by (simp add: view_of_def strip_sched_def)

lemma more_fields:
  fixes s s' :: "('g, 'pd, 'cd, 'z) registry_t_scheme"
  assumes "sched_t.more s' = sched_t.more s"
  shows "all_channels s' = all_channels s" "active_channels s' = active_channels s" "finished_channels s' = finished_channels s"
    "channel_gid_map s' = channel_gid_map s" "channel_identity_map s' = channel_identity_map s"
    "n_channels_allocated s' = n_channels_allocated s" "tls_conn s' = tls_conn s"
  using assms by (cases s, cases s', simp)+

lemma sched_frame_view:
  assumes "sched_frame s s'"
  shows "view s' = view s"
proof -
  have "map_option view_of (map_option strip_sched (chans s' c)) = map_option view_of (map_option strip_sched (chans s c))" for c
    using assms by (simp add: sched_frame_def)
  then show ?thesis by (simp add: view_def fun_eq_iff option.map_comp comp_def view_of_strip)
qed

lemma okv_sched_step:
  assumes ok: "okv s n v t" and room: "sched_room s" and al: "v (event_chan ev) \<noteq> None"
  shows "\<exists>s'. sched_step ev s = Some s' \<and> okv s' n v t \<and> (\<forall>c. ev = RELEASE c \<longrightarrow> c \<notin> set (channels_pending s'))"
proof -
  have "chans s (event_chan ev) \<noteq> None" using ok al by (auto simp: okv_def view_def)
  moreover have "sched_settled s" using ok by (simp add: okv_def channels_ok_def)
  ultimately obtain s' where s': "sched_step ev s = Some s'" "sched_settled s'" "dom (chans s') = dom (chans s)"
      "bits_of s' = bits_step ev (bits_of s)"
    using sched_step_ok room by blast
  have gone: "c \<notin> set (channels_pending s')" if "ev = RELEASE c" for c
  proof -
    have "chans s c \<noteq> None" using ok al that by (auto simp: okv_def view_def)
    then have "chans s' c \<noteq> None" using s'(3) by (metis domIff)
    moreover have "bits_of s' c \<noteq> (True, True)" using s'(4) that by simp
    ultimately show ?thesis using s'(2) by (simp add: sched_settled_def pending_exact_iff)
  qed
  have f: "sched_frame s s'" by (rule sched_step_frame) (rule s'(1))
  then have m: "sched_t.more s' = sched_t.more s" by (simp add: sched_frame_def)
  have eqs: "v = view s" "n = n_channels_allocated s" "t = tls_conn s" and cs: "channels_ok s" using ok by (simp_all add: okv_def)
  show ?thesis using s'(1,2) gone cs sched_frame_view [OF f] more_fields [OF m] unfolding eqs
    by (simp add: okv_def channels_ok_def lists_ok_def)
qed

lemma sched_room_dom: "okv s n v t \<Longrightarrow> card (dom v) \<le> INT_MAX \<Longrightarrow> sched_room s"
  by (auto simp: okv_def sched_room_def dom_chans)

text \<open>A change of a channel that its scheduling does not see.\<close>

lemma settled_set_chan:
  assumes "\<And>ch. scheduler_state (f ch) = scheduler_state ch" and "\<And>ch. sched_heap_idx (f ch) = sched_heap_idx ch"
  shows "sched_settled (set_chan c f s) = sched_settled s"
proof -
  have i: "(\<exists>ch'. chans (set_chan c f s) d = Some ch' \<and> sched_heap_idx ch' = x) \<longleftrightarrow> (\<exists>ch'. chans s d = Some ch' \<and> sched_heap_idx ch' = x)" for d x
    using assms by (cases "chans s d") (auto simp: set_chan_def)
  have j: "(\<forall>ch'. chans (set_chan c f s) d = Some ch' \<longrightarrow> P \<longrightarrow> sched_heap_idx ch' = x) \<longleftrightarrow>
      (\<forall>ch'. chans s d = Some ch' \<longrightarrow> P \<longrightarrow> sched_heap_idx ch' = x)" for d x P
    using assms by (cases "chans s d") (auto simp: set_chan_def)
  have k: "(\<forall>ch'. chans (set_chan c f s) d = Some ch' \<longrightarrow> (scheduler_state ch' = SCHED_CHAN_PENDING \<longleftrightarrow> P)) \<longleftrightarrow>
      (\<forall>ch'. chans s d = Some ch' \<longrightarrow> (scheduler_state ch' = SCHED_CHAN_PENDING \<longleftrightarrow> P))" for d P
    using assms by (cases "chans s d") (auto simp: set_chan_def)
  have "channels_pending (set_chan c f s) = channels_pending s" "run_sched_ev (set_chan c f s) = run_sched_ev s"
    by (simp_all add: set_chan_def)
  then show ?thesis unfolding sched_settled_def sched_ok_def pending_exact_def have_work_def i j k by simp
qed

lemma settled_same: "chans s' = chans s \<Longrightarrow> channels_pending s' = channels_pending s \<Longrightarrow> run_sched_ev s' = run_sched_ev s \<Longrightarrow>
    sched_settled s \<Longrightarrow> sched_settled s'"
  using settled_cong by blast

lemma set_chan_fields [simp]:
  "all_channels (set_chan c f s) = all_channels s" "active_channels (set_chan c f s) = active_channels s"
  "finished_channels (set_chan c f s) = finished_channels s" "channel_gid_map (set_chan c f s) = channel_gid_map s"
  "channel_identity_map (set_chan c f s) = channel_identity_map s" "n_channels_allocated (set_chan c f s) = n_channels_allocated s"
  "tls_conn (set_chan c f s) = tls_conn s" "closeable_conns (set_chan c f s) = closeable_conns s"
  "global_destroy_ctr (set_chan c f s) = global_destroy_ctr s"
  by (simp_all add: set_chan_def)

lemma view_ok_upd:
  assumes "view_ok n v" and "v c = Some (st, b, d, r, m)" and "st' \<noteq> CHANNEL_STATE_LAST"
    and "condemned_state st' \<longrightarrow> r' \<noteq> CHANNEL_NOT_CLOSING" and "finished_state st' \<longrightarrow> (\<forall>mux. m' = Some mux \<longrightarrow> mux_idle mux)"
  shows "view_ok n (v(c \<mapsto> (st', b', d', r', m')))"
  using assms unfolding view_ok_def by auto

lemma view_ok_at: "view_ok n v \<Longrightarrow> v c = Some (st, b, d, r, m) \<Longrightarrow>
    0 < c \<and> c \<le> n \<and> st \<noteq> CHANNEL_STATE_LAST \<and> (condemned_state st \<longrightarrow> r \<noteq> CHANNEL_NOT_CLOSING) \<and>
    (finished_state st \<longrightarrow> (\<forall>mux. m = Some mux \<longrightarrow> mux_idle mux))"
  unfolding view_ok_def by blast

lemma link_ok_upd:
  assumes "link_ok v t" and "v c = Some (st, b, d, r, m)" and "b' \<longrightarrow> \<not> condemned_state st' \<longrightarrow> b \<and> \<not> condemned_state st \<or> c \<in> t"
  shows "link_ok (v(c \<mapsto> (st', b', d', r', m'))) t"
  unfolding link_ok_def
proof (intro conjI allI impI)
  have "t \<subseteq> dom v" using assms(1) by (simp add: link_ok_def)
  then show "t \<subseteq> dom (v(c \<mapsto> (st', b', d', r', m')))" by (simp only: dom_fun_upd option.distinct if_False) blast
  fix x st0 d0 r0 m0
  assume "(v(c \<mapsto> (st', b', d', r', m'))) x = Some (st0, True, d0, r0, m0)" "\<not> condemned_state st0"
  then show "x \<in> t" using assms unfolding link_ok_def by (auto split: if_splits)
qed

text \<open>A change that no list and no table sees.\<close>

lemma okv_update:
  assumes ok: "okv s n v t" and c: "v c = Some (st, b, d, r, m)"
    and sched: "\<And>ch. scheduler_state (f ch) = scheduler_state ch" "\<And>ch. sched_heap_idx (f ch) = sched_heap_idx ch"
    and f: "\<And>ch. view_of ch = (st, b, d, r, m) \<Longrightarrow> view_of (f ch) = (st', b, d', r', m')"
    and out: "b \<Longrightarrow> st' = st \<and> d' = d" and last: "st' \<noteq> CHANNEL_STATE_LAST"
    and r': "condemned_state st' \<longrightarrow> r' \<noteq> CHANNEL_NOT_CLOSING" and m': "finished_state st' \<longrightarrow> (\<forall>mux. m' = Some mux \<longrightarrow> mux_idle mux)"
  shows "okv (set_chan c f s) n (v(c \<mapsto> (st', b, d', r', m'))) t"
proof -
  have v: "view s = v" and cs: "channels_ok s" using ok by (simp_all add: okv_def)
  then obtain ch where ch: "chans s c = Some ch" "view_of ch = (st, b, d, r, m)" using c by (auto simp: view_def)
  have v': "view (set_chan c f s) = v(c \<mapsto> (st', b, d', r', m'))" using v ch f by (simp add: view_set_chan)
  have e: "reg (v(c \<mapsto> (st', b, d', r', m'))) x = reg v x" "reg_finished (v(c \<mapsto> (st', b, d', r', m'))) x = reg_finished v x"
      "named (v(c \<mapsto> (st', b, d', r', m'))) x y = named v x y" for x y
    using out view_at [of v c st b d r m, OF c] by (cases b; simp)+
  have "lists_ok (set_chan c f s)" using cs by (simp add: channels_ok_def lists_ok_def v v' e del: view_simps)
  moreover have "idmap_ok (named (v(c \<mapsto> (st', b, d', r', m')))) (channel_identity_map s)"
  proof -
    have "named (v(c \<mapsto> (st', b, d', r', m'))) = named v" by (intro ext) (rule e(3))
    then show ?thesis using cs v by (simp add: channels_ok_def)
  qed
  moreover have "view_ok n (v(c \<mapsto> (st', b, d', r', m')))"
    using cs ok v c last r' m' by (intro view_ok_upd [where st = st and b = b and d = d and r = r and m = m]) (simp_all add: channels_ok_def okv_def)
  moreover have "link_ok (v(c \<mapsto> (st', b, d', r', m'))) (tls_conn s)" using cs v c out
    by (intro link_ok_upd [where st = st and b = b and d = d and r = r and m = m]) (auto simp: channels_ok_def)
  moreover have "sched_settled (set_chan c f s)" using settled_set_chan [of f c s, OF sched] cs by (simp add: channels_ok_def)
  ultimately show ?thesis using ok v' by (simp add: okv_def channels_ok_def)
qed

lemma list_room:
  assumes "distinct l" and "set l \<subseteq> dom v" and "c \<in> dom v" and "c \<notin> set l" and "card (dom (v :: chan_ref \<Rightarrow> 'a option)) \<le> INT_MAX"
  shows "smartlist_add l c = Some (l @ [c])"
proof -
  have "length (c # l) = card (set (c # l))" using assms(1,4) by (metis distinct.simps(2) distinct_card)
  also have "\<dots> \<le> card (dom v)" using assms(2,3) by (intro card_mono) auto
  finally show ?thesis using assms(5) by (simp add: smartlist_add_def)
qed

lemma idmap_ok_eq: "idmap_ok P m \<Longrightarrow> (\<And>c d. P c d = Q c d) \<Longrightarrow> idmap_ok Q m"
proof -
  assume "idmap_ok P m" and "\<And>c d. P c d = Q c d"
  moreover from this(2) have "P = Q" by (intro ext)
  ultimately show ?thesis by simp
qed

lemma digest_map_add_ok:
  assumes "idmap_ok P (channel_identity_map s)" and "view s c = Some (st, b, d, r, m)" and "\<not> condemned_state st"
    and "\<not> tor_digest_is_zero d" and "\<not> P c d" and "\<And>c' d'. Q c' d' \<longleftrightarrow> P c' d' \<or> c' = c \<and> d' = d"
  shows "\<exists>mm. channel_add_to_digest_map c s = Some (s\<lparr>channel_identity_map := mm\<rparr>) \<and> idmap_ok Q mm"
proof -
  obtain ch where ch: "chans s c = Some ch" "chan_state ch = st" "identity_digest ch = d" using view_Some [OF assms(2)] by blast
  have "idmap_ok Q (idmap_insert_head d c (channel_identity_map s))"
    by (rule idmap_ok_eq [OF idmap_insert_ok [OF assms(1,5)]]) (simp only: assms(6))
  then show ?thesis using ch assms(3,4)
    by (intro exI [of _ "idmap_insert_head d c (channel_identity_map s)"]) (simp add: channel_add_to_digest_map_def)
qed

lemma digest_map_remove_ok:
  assumes "idmap_ok P (channel_identity_map s)" and "view s c = Some (st, b, d, r, m)" and "\<not> tor_digest_is_zero d"
    and "P c d" and "\<And>d'. P c d' \<Longrightarrow> d' = d" and "\<And>c' d'. Q c' d' \<longleftrightarrow> P c' d' \<and> c' \<noteq> c"
  shows "\<exists>mm. channel_remove_from_digest_map c s = Some (s\<lparr>channel_identity_map := mm\<rparr>) \<and> idmap_ok Q mm"
proof -
  obtain ch where ch: "chans s c = Some ch" "identity_digest ch = d" using view_Some [OF assms(2)] by blast
  obtain m1 where m1: "TOR_LIST_REMOVE c (channel_identity_map s) = Some m1"
      "idmap_ok (\<lambda>c' d'. P c' d' \<and> c' \<noteq> c) (if map_of m1 d = Some [] then filter (\<lambda>e. fst e \<noteq> d) m1 else m1)"
    using idmap_remove_ok [of P _ c d, OF assms(1,4,5)] by blast
  have "idmap_ok Q (if map_of m1 d = Some [] then filter (\<lambda>e. fst e \<noteq> d) m1 else m1)"
    by (rule idmap_ok_eq [OF m1(2)]) (simp only: assms(6))
  then show ?thesis using ch assms(3) m1(1)
    by (intro exI [of _ "if map_of m1 d = Some [] then filter (\<lambda>e. fst e \<noteq> d) m1 else m1"]) (simp add: channel_remove_from_digest_map_def)
qed

section \<open>Changing state keeps the registry\<close>

lemma same_scheduling:
  "chans s' = chans s \<Longrightarrow> channels_pending s' = channels_pending s \<Longrightarrow> run_sched_ev s' = run_sched_ev s \<Longrightarrow>
    view s' = view s \<and> sched_settled s' = sched_settled s"
  using settled_cong [of s' s] by (simp add: view_def fun_eq_iff)

lemma update_channel_lists_ok:
  assumes lists: "lists_ok s" and c: "view s c = Some (st, True, d, r, m)" and room: "card (dom (view s)) \<le> INT_MAX"
    and s1: "view s1 = (view s)(c \<mapsto> (to_state, True, d, r', m))" "all_channels s1 = all_channels s" "active_channels s1 = active_channels s"
      "finished_channels s1 = finished_channels s" "channel_gid_map s1 = channel_gid_map s"
  shows "\<exists>s2. update_channel_lists c st to_state s1 = Some s2 \<and> lists_ok s2 \<and> view s2 = view s1 \<and>
    channel_identity_map s2 = channel_identity_map s1 \<and> n_channels_allocated s2 = n_channels_allocated s1 \<and> tls_conn s2 = tls_conn s1 \<and>
    sched_settled s2 = sched_settled s1"
proof -
  have cd: "c \<in> dom (view s)" using c by blast
  have sub: "reg (view s) x \<Longrightarrow> x \<in> dom (view s)" "reg_finished (view s) x \<Longrightarrow> x \<in> dom (view s)" for x
    by (auto simp: reg_def reg_finished_def)
  have at: "reg (view s) c" "reg_finished (view s) c = finished_state st" using c by (auto simp: view_at)
  have fin: "smartlist_add (finished_channels s) c = Some (finished_channels s @ [c])" if "\<not> finished_state st"
  proof (rule list_room [OF _ _ cd _ room])
    show "set (finished_channels s) \<subseteq> dom (view s)" using lists sub(2) unfolding lists_ok_def by blast
  qed (use lists at that in \<open>auto simp: lists_ok_def\<close>)
  have act: "smartlist_add (active_channels s) c = Some (active_channels s @ [c])" if "finished_state st"
  proof (rule list_room [OF _ _ cd _ room])
    show "set (active_channels s) \<subseteq> dom (view s)" using lists sub(1) unfolding lists_ok_def by blast
  qed (use lists at that in \<open>auto simp: lists_ok_def\<close>)
  consider (finish) "\<not> finished_state st" "finished_state to_state" | (revive) "finished_state st" "\<not> finished_state to_state"
    | (stay) "finished_state st = finished_state to_state" by blast
  then show ?thesis
  proof cases
    case finish
    let ?s2 = "s1\<lparr>active_channels := smartlist_remove c (active_channels s), finished_channels := finished_channels s @ [c], cleanup_scheduled := True\<rparr>"
    have v: "view ?s2 = view s1 \<and> sched_settled ?s2 = sched_settled s1" by (rule same_scheduling) simp_all
    have "lists_ok ?s2" using lists at finish s1 by (auto simp: lists_ok_def v)
    moreover have "update_channel_lists c st to_state s1 = Some ?s2" using finish fin s1 by (simp add: update_channel_lists_def)
    ultimately show ?thesis using v by simp
  next
    case revive
    let ?s2 = "s1\<lparr>finished_channels := smartlist_remove c (finished_channels s), active_channels := active_channels s @ [c]\<rparr>"
    have v: "view ?s2 = view s1 \<and> sched_settled ?s2 = sched_settled s1" by (rule same_scheduling) simp_all
    have "lists_ok ?s2" using lists at revive s1 by (auto simp: lists_ok_def v)
    moreover have "update_channel_lists c st to_state s1 = Some ?s2" using revive act s1 by (simp add: update_channel_lists_def)
    ultimately show ?thesis using v by simp
  next
    case stay
    have "lists_ok s1" using lists at stay s1 by (auto simp: lists_ok_def)
    then show ?thesis using stay by (simp add: update_channel_lists_def)
  qed
qed

lemma update_identity_map_ok:
  assumes idm: "idmap_ok (named v) (channel_identity_map s)" and c: "v c = Some (st, True, d, r, m)"
    and s: "view s = v(c \<mapsto> (to_state, True, d, r', m))"
  shows "\<exists>mm. update_identity_map c st to_state s = Some (s\<lparr>channel_identity_map := mm\<rparr>) \<and> idmap_ok (named (view s)) mm"
proof -
  have vc: "view s c = Some (to_state, True, d, r', m)" using s by simp
  obtain ch where ch: "chans s c = Some ch" "identity_digest ch = d" using view_Some [OF vc] by blast
  have at: "named v c d' = (d' = d \<and> \<not> condemned_state st \<and> \<not> tor_digest_is_zero d)" for d' using c by (simp add: view_at)
  have new: "named (view s) c' d' = (if c' = c then d' = d \<and> \<not> condemned_state to_state \<and> \<not> tor_digest_is_zero d else named v c' d')" for c' d'
    using s by simp
  have same: "s\<lparr>channel_identity_map := channel_identity_map s\<rparr> = s" by simp
  consider (zero) "tor_digest_is_zero d" | (into) "\<not> tor_digest_is_zero d" "condemned_state st" "\<not> condemned_state to_state"
    | (out) "\<not> tor_digest_is_zero d" "\<not> condemned_state st" "condemned_state to_state"
    | (stay) "\<not> tor_digest_is_zero d" "condemned_state st = condemned_state to_state" by blast
  then show ?thesis
  proof cases
    case into
    have "\<not> named v c d" using at into by simp
    then have "\<exists>mm. channel_add_to_digest_map c s = Some (s\<lparr>channel_identity_map := mm\<rparr>) \<and> idmap_ok (named (view s)) mm"
      by (rule digest_map_add_ok [OF idm vc into(3,1)]) (auto simp: new at into)
    then show ?thesis using ch into by (simp add: update_identity_map_def)
  next
    case out
    have "\<exists>mm. channel_remove_from_digest_map c s = Some (s\<lparr>channel_identity_map := mm\<rparr>) \<and> idmap_ok (named (view s)) mm"
      by (rule digest_map_remove_ok [OF idm vc out(1)]) (auto simp: new at out)
    then show ?thesis using ch out by (simp add: update_identity_map_def)
  next
    case zero
    then have "idmap_ok (named (view s)) (channel_identity_map s)" by (intro idmap_ok_eq [OF idm]) (simp add: new at)
    then show ?thesis using ch zero same by (intro exI [of _ "channel_identity_map s"]) (simp add: update_identity_map_def)
  next
    case stay
    then have "idmap_ok (named (view s)) (channel_identity_map s)" by (intro idmap_ok_eq [OF idm]) (simp add: new at)
    then show ?thesis using ch stay same by (intro exI [of _ "channel_identity_map s"]) (simp add: update_identity_map_def)
  qed
qed

lemma change_state_ok:
  assumes ok: "okv s n v t" and room: "card (dom v) \<le> INT_MAX" and c: "v c = Some (st, b, d, r, m)"
    and can: "channel_state_can_transition st to_state" and reason: "condemned_state to_state \<longrightarrow> r \<noteq> CHANNEL_NOT_CLOSING"
    and idle: "finished_state to_state \<longrightarrow> (\<forall>mux. m = Some mux \<longrightarrow> mux_idle mux)"
    and link: "condemned_state st \<longrightarrow> condemned_state to_state"
  shows "\<exists>s'. channel_change_state_impl c to_state s = Some s' \<and> okv s' n (v(c \<mapsto> (to_state, b, d, r, m))) t \<and>
    (condemned_state to_state \<longrightarrow> c \<notin> set (channels_pending s'))"
proof -
  have eqs: "v = view s" "n = n_channels_allocated s" "t = tls_conn s" and cs: "channels_ok s" using ok by (simp_all add: okv_def)
  let ?v = "v(c \<mapsto> (to_state, b, d, r, m))"
  let ?s1 = "set_chan c (\<lambda>ch. ch\<lparr>chan_state := to_state\<rparr>) s"
  obtain ch where ch: "chans s c = Some ch" "view_of ch = (st, b, d, r, m)" using c unfolding eqs by (auto simp: view_def)
  have f: "chan_state ch = st" "registered ch = b" "reason_for_closing ch = r" using ch(2) by (simp_all add: view_of_def)
  have last: "to_state \<noteq> CHANNEL_STATE_LAST" "st \<noteq> to_state" "st \<noteq> CHANNEL_STATE_LAST" using can by (cases st; cases to_state; simp)+
  have valid: "channel_state_is_valid st" "channel_state_is_valid to_state" using last by (cases st; simp) (cases to_state; use last in simp)
  have s2: "\<exists>s2. (if b then Option.bind (update_channel_lists c st to_state ?s1) (update_identity_map c st to_state) else Some ?s1) = Some s2 \<and>
      okv s2 n ?v t"
  proof (cases b)
    case False
    have "okv ?s1 n ?v t" by (rule okv_update [OF ok c]) (use last reason idle False in \<open>auto simp: view_of_def\<close>)
    then show ?thesis using False by simp
  next
    case True
    have v1: "view ?s1 = ?v" using ch unfolding eqs by (simp add: view_set_chan view_of_def)
    have "lists_ok s" using cs by (simp add: channels_ok_def)
    then obtain s2 where s2: "update_channel_lists c st to_state ?s1 = Some s2" "lists_ok s2" "view s2 = view ?s1"
        "channel_identity_map s2 = channel_identity_map s" "n_channels_allocated s2 = n" "tls_conn s2 = t" "sched_settled s2 = sched_settled ?s1"
      using update_channel_lists_ok [of s c st d r m ?s1 to_state r] c room v1 True unfolding eqs by auto
    have "idmap_ok (named v) (channel_identity_map s2)" using cs s2(4) eqs by (simp add: channels_ok_def)
    then obtain mm where mm: "update_identity_map c st to_state s2 = Some (s2\<lparr>channel_identity_map := mm\<rparr>)" "idmap_ok (named (view s2)) mm"
      using update_identity_map_ok [of v s2 c st d r m to_state r] c s2(3) v1 True by auto
    let ?s3 = "s2\<lparr>channel_identity_map := mm\<rparr>"
    have v3: "view ?s3 = view s2 \<and> sched_settled ?s3 = sched_settled s2" by (rule same_scheduling) simp_all
    have "sched_settled ?s1" using cs by (subst settled_set_chan) (simp_all add: channels_ok_def)
    moreover have "lists_ok ?s3" using s2(2) v3 by (simp add: lists_ok_def)
    moreover have "view_ok n ?v" using cs c last reason idle unfolding eqs
      by (intro view_ok_upd [where st = st and b = b and d = d and r = r and m = m]) (simp_all add: channels_ok_def)
    moreover have "link_ok ?v t" using cs c link unfolding eqs
      by (intro link_ok_upd [where st = st and b = b and d = d and r = r and m = m]) (auto simp: channels_ok_def)
    ultimately have "okv ?s3 n ?v t" using mm s2 v3 v1 by (simp add: okv_def channels_ok_def)
    then show ?thesis using s2(1) mm(1) True by simp
  qed
  then obtain s2 where s2: "(if b then Option.bind (update_channel_lists c st to_state ?s1) (update_identity_map c st to_state) else Some ?s1) = Some s2"
      "okv s2 n ?v t" by blast
  have "dom ?v = dom v" using c by auto
  then have room2: "sched_room s2" using sched_room_dom [OF s2(2)] room by simp
  have "\<exists>s3. (if condemned_state to_state then scheduler_release_channel c s2
      else if to_state = CHANNEL_STATE_MAINT then scheduler_channel_doesnt_want_writes c s2 else Some s2) = Some s3 \<and> okv s3 n ?v t \<and>
      (condemned_state to_state \<longrightarrow> c \<notin> set (channels_pending s3))"
    using okv_sched_step [OF s2(2) room2, of "RELEASE c"] okv_sched_step [OF s2(2) room2, of "DOESNT_WANT_WRITES c"] s2(2)
    by (cases "condemned_state to_state"; cases "to_state = CHANNEL_STATE_MAINT"; simp)
  then obtain s3 where s3: "(if condemned_state to_state then scheduler_release_channel c s2
      else if to_state = CHANNEL_STATE_MAINT then scheduler_channel_doesnt_want_writes c s2 else Some s2) = Some s3" "okv s3 n ?v t"
      "condemned_state to_state \<longrightarrow> c \<notin> set (channels_pending s3)"
    by blast
  have no_reason: "\<not> (condemned_state to_state \<and> r = CHANNEL_NOT_CLOSING)" using reason by blast
  have "channel_change_state_impl c to_state s =
      Option.bind (if b then Option.bind (update_channel_lists c st to_state ?s1) (update_identity_map c st to_state) else Some ?s1)
        (\<lambda>s2. if condemned_state to_state then scheduler_release_channel c s2
          else if to_state = CHANNEL_STATE_MAINT then scheduler_channel_doesnt_want_writes c s2 else Some s2)"
    using ch(1) f can valid last by (simp add: channel_change_state_impl_def Let_def no_reason)
  also have "\<dots> = Some s3" unfolding s2(1) bind.bind_lunit by (rule s3(1))
  finally show ?thesis using s3(2,3) by blast
qed

section \<open>Registering, closing and naming\<close>

lemma view_eq: "okv s n v t \<Longrightarrow> view s = v"
  by (simp add: okv_def)

lemma okv_chan:
  assumes "okv s n v t" and "v c = Some (st, b, d, r, m)"
  shows "\<exists>ch. chans s c = Some ch \<and> chan_state ch = st \<and> registered ch = b \<and> identity_digest ch = d \<and> reason_for_closing ch = r \<and> cmux ch = m"
  by (rule view_Some) (use assms in \<open>simp add: okv_def\<close>)

lemma okv_same_rest:
  assumes "okv s n v t" and "chans s' = chans s" "channels_pending s' = channels_pending s" "run_sched_ev s' = run_sched_ev s"
    "all_channels s' = all_channels s" "active_channels s' = active_channels s" "finished_channels s' = finished_channels s"
    "channel_gid_map s' = channel_gid_map s" "channel_identity_map s' = channel_identity_map s"
    "n_channels_allocated s' = n_channels_allocated s" "tls_conn s' = tls_conn s"
  shows "okv s' n v t"
proof -
  have eqs: "v = view s" "n = n_channels_allocated s" "t = tls_conn s" and cs: "channels_ok s" using assms(1) by (simp_all add: okv_def)
  show ?thesis using cs assms(2-) same_scheduling [OF assms(2-4)] unfolding eqs by (simp add: okv_def channels_ok_def lists_ok_def)
qed

lemma bind_Some_map: "Option.bind x (\<lambda>y. Some (f y)) = map_option f x"
  by (cases x) simp_all

lemma channel_register_ok:
  assumes ok: "okv s n v t" and room: "card (dom v) \<le> INT_MAX" and c: "v c = Some (st, False, d, r, m)"
    and link: "c \<in> t"
  shows "\<exists>s'. channel_register c s = Some s' \<and> okv s' n (v(c \<mapsto> (st, True, d, r, m))) t"
proof -
  have eqs: "v = view s" "n = n_channels_allocated s" "t = tls_conn s" and cs: "channels_ok s" using ok by (simp_all add: okv_def)
  obtain ch where ch: "chans s c = Some ch" "chan_state ch = st" "\<not> registered ch" "identity_digest ch = d" "reason_for_closing ch = r" "cmux ch = m"
    using okv_chan [OF ok c] by blast
  let ?v = "v(c \<mapsto> (st, True, d, r, m))"
  have vc: "view_ok n v" and idm: "idmap_ok (named v) (channel_identity_map s)" and lists: "lists_ok s" and lk: "link_ok v t" and set: "sched_settled s"
    using cs unfolding eqs by (simp_all add: channels_ok_def)
  note at = view_ok_at [OF vc c]
  have no: "\<not> reg v c" "\<not> reg_finished v c" "\<not> named v c d'" for d' using view_at [of v c st False d r m, OF c] by simp_all
  have sub: "reg v x \<Longrightarrow> x \<in> dom v" "reg_finished v x \<Longrightarrow> x \<in> dom v" for x
    by (auto simp: reg_def reg_finished_def)
  have cd: "c \<in> dom v" using c by blast
  have all: "smartlist_add (all_channels s) c = Some (all_channels s @ [c])"
  proof (rule list_room [OF _ _ cd _ room])
    show "set (all_channels s) \<subseteq> dom v" using lists sub(1) unfolding lists_ok_def eqs by blast
  qed (use lists no in \<open>auto simp: lists_ok_def eqs\<close>)
  have act: "smartlist_add (active_channels s) c = Some (active_channels s @ [c])"
  proof (rule list_room [OF _ _ cd _ room])
    show "set (active_channels s) \<subseteq> dom v" using lists sub(1) unfolding lists_ok_def eqs by blast
  qed (use lists no in \<open>auto simp: lists_ok_def eqs\<close>)
  have fin: "smartlist_add (finished_channels s) c = Some (finished_channels s @ [c])"
  proof (rule list_room [OF _ _ cd _ room])
    show "set (finished_channels s) \<subseteq> dom v" using lists sub(2) unfolding lists_ok_def eqs by blast
  qed (use lists no in \<open>auto simp: lists_ok_def eqs\<close>)
  have nz: "c \<noteq> 0" using at by auto
  have gid: "c \<notin> channel_gid_map s" using lists no by (simp add: lists_ok_def eqs)
  let ?s1 = "s\<lparr>all_channels := all_channels s @ [c], channel_gid_map := insert c (channel_gid_map s)\<rparr>"
  let ?f = "\<lambda>ch. ch\<lparr>registered := True\<rparr> :: ('a, 'b, 'c) channel_t"
  have new: "named ?v c' d' \<longleftrightarrow> (if c' = c then d' = d \<and> \<not> condemned_state st \<and> \<not> tor_digest_is_zero d else named v c' d')" for c' d' by simp
  have finish: "okv (set_chan c ?f s2) n ?v t"
    if s2: "chans s2 = chans s" "channels_pending s2 = channels_pending s" "run_sched_ev s2 = run_sched_ev s"
        "n_channels_allocated s2 = n" "tls_conn s2 = t" "idmap_ok (named ?v) (channel_identity_map s2)"
        "all_channels s2 = all_channels s @ [c]" "channel_gid_map s2 = insert c (channel_gid_map s)"
        "active_channels s2 = (if finished_state st then active_channels s else active_channels s @ [c])"
        "finished_channels s2 = (if finished_state st then finished_channels s @ [c] else finished_channels s)" for s2 :: "('a, 'b, 'c, 'd) registry_t_scheme"
  proof -
    have v2: "view s2 = v" "sched_settled s2" using same_scheduling [of s2 s, OF s2(1-3)] set eqs by simp_all
    have "view (set_chan c ?f s2) = ?v" using ch s2(1) v2(1) by (simp add: view_set_chan view_of_def)
    moreover have "lists_ok (set_chan c ?f s2)"
      using lists no s2 \<open>view (set_chan c ?f s2) = ?v\<close> unfolding lists_ok_def eqs by auto
    moreover have "view_ok n ?v" using at by (intro view_ok_upd [OF vc c]) auto
    moreover have "link_ok ?v t" using link by (intro link_ok_upd [OF lk c]) simp
    moreover have "sched_settled (set_chan c ?f s2)" using v2(2) by (subst settled_set_chan) simp_all
    ultimately show ?thesis using s2 by (simp add: okv_def channels_ok_def)
  qed
  have reg: "channel_register c s = (if finished_state st
      then Some (set_chan c ?f (?s1\<lparr>finished_channels := finished_channels s @ [c], cleanup_scheduled := True\<rparr>))
      else map_option (set_chan c ?f) (if st \<noteq> CHANNEL_STATE_CLOSING \<and> \<not> tor_digest_is_zero d
        then channel_add_to_digest_map c (?s1\<lparr>active_channels := active_channels s @ [c]\<rparr>)
        else Some (?s1\<lparr>active_channels := active_channels s @ [c]\<rparr>)))"
    using ch nz all act fin gid by (simp add: channel_register_def Let_def bind_Some_map)
  consider (fin) "finished_state st" | (map) "\<not> condemned_state st" "\<not> tor_digest_is_zero d"
    | (bare) "\<not> finished_state st" "condemned_state st \<or> tor_digest_is_zero d" by (auto simp: condemned_state_def)
  then show ?thesis
  proof cases
    case fin
    have "idmap_ok (named ?v) (channel_identity_map s)"
      by (rule idmap_ok_eq [OF idm]) (use no fin in \<open>auto simp: new condemned_state_def\<close>)
    then have "okv (set_chan c ?f (?s1\<lparr>finished_channels := finished_channels s @ [c], cleanup_scheduled := True\<rparr>)) n ?v t"
      by (intro finish) (use fin eqs in simp_all)
    then show ?thesis using reg fin by simp
  next
    case bare
    have "idmap_ok (named ?v) (channel_identity_map s)"
      by (rule idmap_ok_eq [OF idm]) (use no bare in \<open>auto simp: new\<close>)
    then have "okv (set_chan c ?f (?s1\<lparr>active_channels := active_channels s @ [c]\<rparr>)) n ?v t"
      by (intro finish) (use bare eqs in simp_all)
    then show ?thesis using reg bare by (auto simp: condemned_state_def)
  next
    case map
    let ?s2 = "?s1\<lparr>active_channels := active_channels s @ [c]\<rparr>"
    have nf: "\<not> finished_state st" "st \<noteq> CHANNEL_STATE_CLOSING" using map by (auto simp: condemned_state_def)
    have v2: "view ?s2 c = Some (st, False, d, r, m)" using same_scheduling [of ?s2 s] c eqs by simp
    have "\<exists>mm. channel_add_to_digest_map c ?s2 = Some (?s2\<lparr>channel_identity_map := mm\<rparr>) \<and> idmap_ok (named ?v) mm"
      by (rule digest_map_add_ok [of "named v", OF _ v2 map no(3)]) (use idm no map in \<open>auto simp: new\<close>)
    then obtain mm where mm: "channel_add_to_digest_map c ?s2 = Some (?s2\<lparr>channel_identity_map := mm\<rparr>)" "idmap_ok (named ?v) mm" by blast
    have "okv (set_chan c ?f (?s2\<lparr>channel_identity_map := mm\<rparr>)) n ?v t"
      by (intro finish) (use mm(2) nf eqs in simp_all)
    then show ?thesis using reg mm(1) nf map by simp
  qed
qed

text \<open>Changes of the table by identity alone.\<close>

lemma okv_idmap:
  assumes ok: "okv s n v t" and idm: "idmap_ok (named v') mm" and chan: "\<And>c. v' c = v c"
  shows "okv (s\<lparr>channel_identity_map := mm\<rparr>) n v t"
proof -
  have eqs: "v = view s" "n = n_channels_allocated s" "t = tls_conn s" and cs: "channels_ok s" using ok by (simp_all add: okv_def)
  have "v' = v" using chan by blast
  then show ?thesis using cs idm same_scheduling [of "s\<lparr>channel_identity_map := mm\<rparr>" s]
    unfolding eqs by (simp add: okv_def channels_ok_def lists_ok_def)
qed

text \<open>A new digest, put in where the old one was taken out.\<close>

lemma rename_ok:
  assumes ok: "okv s n v t" and c: "v c = Some (st, b, d, r, m)"
    and f: "\<And>ch. view_of (f ch) = (chan_state ch, registered ch, d', reason_for_closing ch, cmux ch)"
      "\<And>ch. scheduler_state (f ch) = scheduler_state ch" "\<And>ch. sched_heap_idx (f ch) = sched_heap_idx ch"
  shows "\<exists>s1. (if \<not> condemned_state st \<and> b \<and> \<not> tor_digest_is_zero d then channel_remove_from_digest_map c s else Some s) = Some s1 \<and>
    (\<exists>s2. (if \<not> condemned_state st \<and> b \<and> \<not> tor_digest_is_zero d' then channel_add_to_digest_map c (set_chan c f s1)
          else Some (set_chan c f s1)) = Some s2 \<and> okv s2 n (v(c \<mapsto> (st, b, d', r, m))) t)"
proof -
  have eqs: "v = view s" "n = n_channels_allocated s" "t = tls_conn s" and cs: "channels_ok s" using ok by (simp_all add: okv_def)
  have vc: "view_ok n v" and idm: "idmap_ok (named v) (channel_identity_map s)" and lists: "lists_ok s" and lk: "link_ok v t" and set: "sched_settled s"
    using cs unfolding eqs by (simp_all add: channels_ok_def)
  let ?v = "v(c \<mapsto> (st, b, d', r, m))"
  let ?P = "\<lambda>c' d'. named v c' d' \<and> c' \<noteq> c"
  note at = view_at [of v c st b d r m, OF c]
  have vsc: "view s c = Some (st, b, d, r, m)" using c eqs by simp
  have "\<exists>mm. (if \<not> condemned_state st \<and> b \<and> \<not> tor_digest_is_zero d then channel_remove_from_digest_map c s else Some s) =
      Some (s\<lparr>channel_identity_map := mm\<rparr>) \<and> idmap_ok ?P mm"
  proof (cases "\<not> condemned_state st \<and> b \<and> \<not> tor_digest_is_zero d")
    case True
    have "\<exists>mm. channel_remove_from_digest_map c s = Some (s\<lparr>channel_identity_map := mm\<rparr>) \<and> idmap_ok ?P mm"
      by (rule digest_map_remove_ok [OF idm vsc]) (use True at in auto)
    then show ?thesis using True by simp
  next
    case False
    have "idmap_ok ?P (channel_identity_map s)" by (rule idmap_ok_eq [OF idm]) (use False at in auto)
    then show ?thesis by (intro exI [of _ "channel_identity_map s"], subst if_not_P [OF False]) simp
  qed
  then obtain mm where mm: "(if \<not> condemned_state st \<and> b \<and> \<not> tor_digest_is_zero d then channel_remove_from_digest_map c s else Some s) =
      Some (s\<lparr>channel_identity_map := mm\<rparr>)" "idmap_ok ?P mm" by blast
  let ?s1 = "set_chan c f (s\<lparr>channel_identity_map := mm\<rparr>)"
  have v1: "view ?s1 = ?v"
  proof -
    obtain ch where ch: "chans s c = Some ch" "view_of ch = (st, b, d, r, m)" using vsc by (auto simp: view_def)
    have "view (s\<lparr>channel_identity_map := mm\<rparr>) = v" using same_scheduling [of "s\<lparr>channel_identity_map := mm\<rparr>" s] eqs by simp
    moreover have "view_of (f ch) = (st, b, d', r, m)" using ch(2) by (simp add: f(1)) (simp add: view_of_def)
    ultimately show ?thesis using ch by (simp add: view_set_chan)
  qed
  have base: "lists_ok (?s1\<lparr>channel_identity_map := m2\<rparr>) \<and> view_ok n ?v \<and> link_ok ?v t \<and> sched_settled (?s1\<lparr>channel_identity_map := m2\<rparr>) \<and>
      view (?s1\<lparr>channel_identity_map := m2\<rparr>) = ?v" for m2
  proof -
    let ?s2 = "?s1\<lparr>channel_identity_map := m2\<rparr>"
    have s2: "view ?s2 = ?v \<and> sched_settled ?s2 = sched_settled ?s1" using same_scheduling [of ?s2 ?s1] v1 by simp
    have "reg ?v x = reg v x" "reg_finished ?v x = reg_finished v x" for x using at by auto
    then have "lists_ok ?s2" using lists s2 unfolding lists_ok_def eqs by (simp del: view_simps)
    moreover have "sched_settled (s\<lparr>channel_identity_map := mm\<rparr>)" using same_scheduling [of "s\<lparr>channel_identity_map := mm\<rparr>" s] set by simp
    then have "sched_settled ?s1" using settled_set_chan [OF f(2,3)] by blast
    moreover have "view_ok n ?v" using view_ok_at [OF vc c] by (intro view_ok_upd [OF vc c]) auto
    moreover have "link_ok ?v t" by (intro link_ok_upd [OF lk c]) simp
    ultimately show ?thesis using s2 by simp
  qed
  have okv2: "okv (?s1\<lparr>channel_identity_map := m2\<rparr>) n ?v t" if "idmap_ok (named ?v) m2" for m2
    using that base [of m2] eqs by (simp add: okv_def channels_ok_def)
  have new: "named ?v c' x \<longleftrightarrow> ?P c' x \<or> (\<not> condemned_state st \<and> b \<and> \<not> tor_digest_is_zero d') \<and> c' = c \<and> x = d'" for c' x by auto
  show ?thesis
  proof (cases "\<not> condemned_state st \<and> b \<and> \<not> tor_digest_is_zero d'")
    case True
    have v1c: "view ?s1 c = Some (st, b, d', r, m)" using v1 by simp
    have "\<exists>m2. channel_add_to_digest_map c ?s1 = Some (?s1\<lparr>channel_identity_map := m2\<rparr>) \<and> idmap_ok (named ?v) m2"
      by (rule digest_map_add_ok [of ?P, OF _ v1c]) (use mm(2) True new in auto)
    then show ?thesis using mm(1) True okv2 by auto
  next
    case False
    have "idmap_ok (named ?v) mm" by (rule idmap_ok_eq [OF mm(2)]) (use False new in auto)
    then have "okv (?s1\<lparr>channel_identity_map := mm\<rparr>) n ?v t" by (rule okv2)
    moreover have "?s1\<lparr>channel_identity_map := mm\<rparr> = ?s1" by (simp add: set_chan_def)
    ultimately show ?thesis using mm(1) False by auto
  qed
qed

lemma set_identity_ok:
  assumes ok: "okv s n v t" and c: "v c = Some (st, b, d, r, m)"
  shows "\<exists>s'. channel_set_identity_digest c digest ed s = Some s' \<and>
    okv s' n (v(c \<mapsto> (st, b, case digest of Some d' \<Rightarrow> d' | None \<Rightarrow> replicate DIGEST_LEN 0, r, m))) t"
proof -
  obtain ch where ch: "chans s c = Some ch" "chan_state ch = st" "registered ch = b" "identity_digest ch = d"
    using okv_chan [OF ok c] by blast
  let ?d = "case digest of Some d' \<Rightarrow> d' | None \<Rightarrow> replicate DIGEST_LEN 0"
  let ?f = "\<lambda>ch. ch\<lparr>identity_digest := ?d, ed25519_identity := (case ed of Some k \<Rightarrow> k | None \<Rightarrow> replicate ED25519_PUBKEY_LEN 0)\<rparr> :: ('a, 'b, 'c) channel_t"
  obtain s1 s2 where s: "(if \<not> condemned_state st \<and> b \<and> \<not> tor_digest_is_zero d then channel_remove_from_digest_map c s else Some s) = Some s1"
      "(if \<not> condemned_state st \<and> b \<and> \<not> tor_digest_is_zero ?d then channel_add_to_digest_map c (set_chan c ?f s1) else Some (set_chan c ?f s1)) = Some s2"
      "okv s2 n (v(c \<mapsto> (st, b, ?d, r, m))) t"
    using rename_ok [OF ok c, of ?f ?d] by (auto simp: view_of_def)
  have z: "(case digest of None \<Rightarrow> False | Some d' \<Rightarrow> \<not> tor_digest_is_zero d') \<longleftrightarrow> \<not> tor_digest_is_zero ?d"
    by (cases digest) (simp_all add: tor_digest_is_zero_def)
  have "channel_set_identity_digest c digest ed s = Some s2"
    using s(1,2) ch unfolding channel_set_identity_digest_def Let_def in_digest_map_def z by simp
  then show ?thesis using s(3) by blast
qed

lemma clear_identity_ok:
  assumes ok: "okv s n v t" and c: "v c = Some (st, b, d, r, m)"
  shows "\<exists>s'. channel_clear_identity_digest c s = Some s' \<and> channel_clear_remote_end c s = Some s' \<and>
    okv s' n (v(c \<mapsto> (st, b, replicate DIGEST_LEN 0, r, m))) t"
proof -
  obtain ch where ch: "chans s c = Some ch" "chan_state ch = st" "registered ch = b" "identity_digest ch = d"
    using okv_chan [OF ok c] by blast
  let ?f = "\<lambda>ch. ch\<lparr>identity_digest := replicate DIGEST_LEN 0\<rparr> :: ('a, 'b, 'c) channel_t"
  have z: "tor_digest_is_zero (replicate DIGEST_LEN 0)" by (simp add: tor_digest_is_zero_def)
  obtain s1 where s: "(if \<not> condemned_state st \<and> b \<and> \<not> tor_digest_is_zero d then channel_remove_from_digest_map c s else Some s) = Some s1"
      "okv (set_chan c ?f s1) n (v(c \<mapsto> (st, b, replicate DIGEST_LEN 0, r, m))) t"
    using rename_ok [OF ok c, of ?f "replicate DIGEST_LEN 0"] z by (auto simp: view_of_def)
  then show ?thesis using ch
    by (simp add: channel_clear_identity_digest_def channel_clear_remote_end_def in_digest_map_def)
qed

text \<open>Closing for a reason.\<close>

lemma okv_set_reason:
  assumes "okv s n v t" and c: "v c = Some (st, b, d, r, m)" and "r' \<noteq> CHANNEL_NOT_CLOSING"
  shows "okv (set_reason c r' s) n (v(c \<mapsto> (st, b, d, r', m))) t"
proof -
  have vc: "view_ok n v" using assms(1) by (auto simp: okv_def channels_ok_def)
  show ?thesis unfolding set_reason_def
    by (rule okv_update [OF assms(1) c]) (use assms(3) view_ok_at [OF vc c] in \<open>auto simp: view_of_def\<close>)
qed

lemma close_reason_ok:
  assumes ok: "okv s n v t" and room: "card (dom v) \<le> INT_MAX" and c: "v c = Some (st, b, d, r, m)"
    and live: "\<not> condemned_state st" and r': "r' \<noteq> CHANNEL_NOT_CLOSING"
  shows "\<exists>s'. channel_change_state c CHANNEL_STATE_CLOSING (set_reason c r' s) = Some s' \<and>
    okv s' n (v(c \<mapsto> (CHANNEL_STATE_CLOSING, b, d, r', m))) t"
proof -
  have vc: "view_ok n v" using ok by (auto simp: okv_def channels_ok_def)
  note at = view_ok_at [OF vc c]
  let ?v1 = "v(c \<mapsto> (st, b, d, r', m))"
  note ok1 = okv_set_reason [OF ok c r']
  have c1: "?v1 c = Some (st, b, d, r', m)" by simp
  have "dom ?v1 = dom v" using c by auto
  then have room1: "card (dom ?v1) \<le> INT_MAX" using room by simp
  have can: "channel_state_can_transition st CHANNEL_STATE_CLOSING"
    using live at by (cases st) (auto simp: condemned_state_def finished_state_def)
  have "\<exists>s'. channel_change_state_impl c CHANNEL_STATE_CLOSING (set_reason c r' s) = Some s' \<and>
      okv s' n (?v1(c \<mapsto> (CHANNEL_STATE_CLOSING, b, d, r', m))) t \<and>
      (condemned_state CHANNEL_STATE_CLOSING \<longrightarrow> c \<notin> set (channels_pending s'))"
    by (rule change_state_ok [OF ok1 room1 c1 can]) (use r' live in \<open>auto simp: finished_state_def\<close>)
  then show ?thesis by (simp only: channel_change_state_def channel_state_t.distinct if_False fun_upd_upd) blast
qed

definition closing_view ::
    "chan_ref \<Rightarrow> reason_for_closing_t \<Rightarrow> (chan_ref \<Rightarrow> ('g, 'pd, 'cd) chan_view option) \<Rightarrow> chan_ref \<Rightarrow> ('g, 'pd, 'cd) chan_view option" where
  "closing_view c r' v =
     (case v c of None \<Rightarrow> v
      | Some (st, b, d, r, m) \<Rightarrow> if condemned_state st then v else v(c \<mapsto> (CHANNEL_STATE_CLOSING, b, d, r', m)))"

lemma closing_view_twice: "closing_view c r'' (closing_view c r' v) = closing_view c r' v"
  by (auto simp: closing_view_def condemned_state_def split: option.splits)

lemma close_below_ok:
  assumes ok: "okv s n v t" and room: "card (dom v) \<le> INT_MAX" and c: "v c \<noteq> None"
  shows "\<exists>s'. channel_close_from_lower_layer c s = Some s' \<and> okv s' n (closing_view c CHANNEL_CLOSE_FROM_BELOW v) t"
    and "\<exists>s'. channel_close_for_error c s = Some s' \<and> okv s' n (closing_view c CHANNEL_CLOSE_FOR_ERROR v) t"
proof -
  obtain st b d r m where vc: "v c = Some (st, b, d, r, m)" using c by (metis option.exhaust prod_cases5)
  obtain ch where ch: "chans s c = Some ch" "chan_state ch = st" using okv_chan [OF ok vc] by blast
  note close = close_reason_ok [OF ok room vc]
  show "\<exists>s'. channel_close_from_lower_layer c s = Some s' \<and> okv s' n (closing_view c CHANNEL_CLOSE_FROM_BELOW v) t"
    using ch vc ok close by (cases "condemned_state st") (simp_all add: channel_close_from_lower_layer_def closing_view_def)
  show "\<exists>s'. channel_close_for_error c s = Some s' \<and> okv s' n (closing_view c CHANNEL_CLOSE_FOR_ERROR v) t"
    using ch vc ok close by (cases "condemned_state st") (simp_all add: channel_close_for_error_def closing_view_def)
qed

lemma okv_mark_conn: "okv s n v t \<Longrightarrow> okv (connection_mark_for_close_internal c s) n v t"
  by (erule okv_same_rest) (simp_all add: connection_mark_for_close_internal_def)

lemma or_close_ok:
  assumes ok: "okv s n v t" and room: "card (dom v) \<le> INT_MAX" and c: "v c \<noteq> None"
  shows "\<exists>s'. connection_or_close_normally c s = Some s' \<and> okv s' n (closing_view c CHANNEL_CLOSE_FROM_BELOW v) t"
    and "\<exists>s'. connection_or_close_for_error c s = Some s' \<and> okv s' n (closing_view c CHANNEL_CLOSE_FOR_ERROR v) t"
proof -
  obtain st b d r m where vc: "v c = Some (st, b, d, r, m)" using c by (metis option.exhaust prod_cases5)
  note ok1 = okv_mark_conn [OF ok, of c]
  obtain ch where ch: "chans (connection_mark_for_close_internal c s) c = Some ch" "chan_state ch = st" using okv_chan [OF ok1 vc] by blast
  note close = close_below_ok [OF ok1 room c]
  show "\<exists>s'. connection_or_close_normally c s = Some s' \<and> okv s' n (closing_view c CHANNEL_CLOSE_FROM_BELOW v) t"
    using ch vc ok1 close(1) by (cases "condemned_state st") (simp_all add: connection_or_close_normally_def Let_def closing_view_def)
  show "\<exists>s'. connection_or_close_for_error c s = Some s' \<and> okv s' n (closing_view c CHANNEL_CLOSE_FOR_ERROR v) t"
    using ch vc ok1 close(2) by (cases "condemned_state st") (simp_all add: connection_or_close_for_error_def Let_def closing_view_def)
qed

lemma mark_for_close_ok:
  assumes ok: "okv s n v t" and room: "card (dom v) \<le> INT_MAX" and c: "reg v c"
  shows "\<exists>s'. channel_mark_for_close c s = Some s' \<and> okv s' n (closing_view c CHANNEL_CLOSE_REQUESTED v) t"
proof -
  obtain st d r m where vc: "v c = Some (st, True, d, r, m)" using c by (auto simp: reg_def)
  obtain ch where ch: "chans s c = Some ch" "chan_state ch = st" using okv_chan [OF ok vc] by blast
  show ?thesis
  proof (cases "condemned_state st")
    case True
    then show ?thesis using ok ch vc by (simp add: channel_mark_for_close_def closing_view_def)
  next
    case False
    have t: "c \<in> t" using ok vc False by (auto simp: okv_def channels_ok_def link_ok_def)
    let ?v1 = "closing_view c CHANNEL_CLOSE_REQUESTED v"
    have v1: "?v1 = v(c \<mapsto> (CHANNEL_STATE_CLOSING, True, d, CHANNEL_CLOSE_REQUESTED, m))" using vc False by (simp add: closing_view_def)
    obtain s1 where s1: "channel_change_state c CHANNEL_STATE_CLOSING (set_reason c CHANNEL_CLOSE_REQUESTED s) = Some s1" "okv s1 n ?v1 t"
      using close_reason_ok [OF ok room vc False] unfolding v1 by blast
    have "dom ?v1 = dom v" using v1 vc by auto
    then have room1: "card (dom ?v1) \<le> INT_MAX" using room by simp
    have "?v1 c \<noteq> None" using v1 by simp
    from or_close_ok(1) [OF s1(2) room1 this] obtain s2 where s2: "connection_or_close_normally c s1 = Some s2" "okv s2 n ?v1 t"
      unfolding closing_view_twice by blast
    have "c \<in> tls_conn s1" using s1(2) t by (simp add: okv_def)
    then show ?thesis using ch False s1(1) s2 by (simp add: channel_mark_for_close_def channel_tls_close_method_def)
  qed
qed

section \<open>What the other subsystems do\<close>

definition same_but_mux :: "(chan_ref \<Rightarrow> ('g, 'pd, 'cd) chan_view option) \<Rightarrow> (chan_ref \<Rightarrow> ('g, 'pd, 'cd) chan_view option) \<Rightarrow> bool" where
  "same_but_mux v v' \<longleftrightarrow> (\<forall>c. case v c of
      None \<Rightarrow> v' c = None
    | Some (st, b, d, r, m) \<Rightarrow> \<exists>m'. v' c = Some (st, b, d, r, m') \<and> (finished_state st \<longrightarrow> m' = m))"

text \<open>The code for circuits sends, attaches and detaches on muxes of channels that are not finished, which may tell
  the scheduler about cells, and keeps what the channel layer promises; detaching all circuits of a
  channel empties its mux. \<open>connection_or_connect\<close> may name the peer of the new channel. The walk of the mux's
  table meets only its entries. The policy that a mux starts with is one it can be freed with.\<close>

definition lower_ok :: "(('g, 'pd, 'cd, 'z) registry_t_scheme, 'g, 'pd, 'cd) lower_t \<Rightarrow> bool" where
  "lower_ok L \<longleftrightarrow>
     (\<forall>s n v t c b. okv s n v t \<and> v c \<noteq> None \<longrightarrow>
        (\<exists>s' v'. circuit_n_chan_done L c b s = Some s' \<and> okv s' n v' t \<and> same_but_mux v v')) \<and>
     (\<forall>s n v t c. okv s n v t \<and> v c \<noteq> None \<longrightarrow>
        (\<exists>s' v'. circuit_unlink_all_from_channel L c s = Some s' \<and> okv s' n v' t \<and> same_but_mux v v' \<and>
          (\<forall>st b d r mux. v' c = Some (st, b, d, r, Some mux) \<longrightarrow> mux_idle mux))) \<and>
     (\<forall>s n v t c d r m. okv s n v t \<and> v c = Some (CHANNEL_STATE_OPENING, False, d, r, m) \<longrightarrow>
        (\<exists>connected s' v' d'. connection_or_connect L c s = Some (connected, s') \<and> okv s' n (v'(c \<mapsto> (CHANNEL_STATE_OPENING, False, d', r, m))) t \<and>
          same_but_mux (v(c := None)) (v'(c := None)))) \<and>
     (\<forall>s n v t c. okv s n v t \<and> v c \<noteq> None \<longrightarrow>
        (\<exists>s'. circuitmux_mark_destroyed_circids_usable L c s = Some s' \<and> okv s' n v t \<and> channels_pending s' = channels_pending s)) \<and>
     (\<forall>s c ch mux. chans s c = Some ch \<and> cmux ch = Some mux \<longrightarrow> set (map_order L s c) \<subseteq> dom (chanid_circid_map mux)) \<and>
     (case alloc_cmux_data (mux_policy L) of None \<Rightarrow> True | Some alloc \<Rightarrow> free_cmux_data (mux_policy L) \<and> (\<forall>g. alloc g \<noteq> None))"

section \<open>Opening, creating and finishing\<close>

lemma same_but_mux_at:
  "same_but_mux v v' \<Longrightarrow> v c = Some (st, b, d, r, m) \<Longrightarrow> \<exists>m'. v' c = Some (st, b, d, r, m') \<and> (finished_state st \<longrightarrow> m' = m)"
  unfolding same_but_mux_def by (drule spec [of _ c]) simp

lemma same_but_mux_dom:
  assumes "same_but_mux v v'"
  shows "dom v' = dom v"
proof -
  have "c \<in> dom v' \<longleftrightarrow> c \<in> dom v" for c
  proof (cases "v c")
    case None
    then have "v' c = None" using spec [OF assms [unfolded same_but_mux_def], of c] by simp
    then show ?thesis using None by (simp only: domIff)
  next
    case (Some x)
    obtain st b d r m where "x = (st, b, d, r, m)" by (rule prod_cases5)
    then have "v' c \<noteq> None" using same_but_mux_at [OF assms, of c] Some by auto
    then show ?thesis using Some by (simp only: domIff option.distinct not_False_eq_True)
  qed
  then show ?thesis by blast
qed

lemma lower_dest:
  assumes "lower_ok L" and "okv s n v t"
  shows "v c \<noteq> None \<Longrightarrow> \<exists>s' v'. circuit_n_chan_done L c b s = Some s' \<and> okv s' n v' t \<and> same_but_mux v v'"
    and "v c \<noteq> None \<Longrightarrow> \<exists>s' v'. circuit_unlink_all_from_channel L c s = Some s' \<and> okv s' n v' t \<and> same_but_mux v v' \<and>
      (\<forall>st b d r mux. v' c = Some (st, b, d, r, Some mux) \<longrightarrow> mux_idle mux)"
    and "v c = Some (CHANNEL_STATE_OPENING, False, d, r, m) \<Longrightarrow>
      \<exists>connected s' v' d'. connection_or_connect L c s = Some (connected, s') \<and>
        okv s' n (v'(c \<mapsto> (CHANNEL_STATE_OPENING, False, d', r, m))) t \<and> same_but_mux (v(c := None)) (v'(c := None))"
    and "v c \<noteq> None \<Longrightarrow> \<exists>s'. circuitmux_mark_destroyed_circids_usable L c s = Some s' \<and> okv s' n v t \<and>
      channels_pending s' = channels_pending s"
  using assms unfolding lower_ok_def by simp_all

lemma same_but_mux_refl [simp]: "same_but_mux v v"
  by (auto simp: same_but_mux_def split: option.splits)

lemma same_but_mux_trans:
  assumes "same_but_mux v v1" and "same_but_mux v1 v2"
  shows "same_but_mux v v2"
  unfolding same_but_mux_def
proof
  fix c
  show "case v c of None \<Rightarrow> v2 c = None | Some (st, b, d, r, m) \<Rightarrow> \<exists>m'. v2 c = Some (st, b, d, r, m') \<and> (finished_state st \<longrightarrow> m' = m)"
  proof (cases "v c")
    case None
    then have "c \<notin> dom v" by (simp only: domIff not_not)
    then have "c \<notin> dom v2" using same_but_mux_dom [OF assms(1)] same_but_mux_dom [OF assms(2)] by blast
    then show ?thesis using None by (simp only: domIff not_not option.case)
  next
    case (Some x)
    obtain st b d r m where x: "x = (st, b, d, r, m)" by (rule prod_cases5)
    from same_but_mux_at [OF assms(1), of c] obtain m1 where m1: "v1 c = Some (st, b, d, r, m1)" "finished_state st \<longrightarrow> m1 = m" using Some x by blast
    from same_but_mux_at [OF assms(2) m1(1)] obtain m2 where "v2 c = Some (st, b, d, r, m2)" "finished_state st \<longrightarrow> m2 = m1" by blast
    then show ?thesis using Some x m1(2) by simp
  qed
qed

lemma channel_closed_ok:
  assumes L: "lower_ok L" and ok: "okv s n v t" and room: "card (dom v) \<le> INT_MAX" and c: "v c = Some (st, b, d, r, m)"
    and con: "condemned_state st"
  shows "\<exists>s' v' m' st'. channel_closed L c s = Some s' \<and> okv s' n (v'(c \<mapsto> (st', b, d, r, m'))) t \<and> same_but_mux v v' \<and>
    (if finished_state st then st' = st else finished_state st')"
proof -
  obtain ch where ch: "chans s c = Some ch" "chan_state ch = st" using okv_chan [OF ok c] by blast
  show ?thesis
  proof (cases "finished_state st")
    case True
    have "v(c \<mapsto> (st, b, d, r, m)) = v" using c by auto
    then show ?thesis using True ok ch con
      by (intro exI [of _ s] exI [of _ v] exI [of _ m] exI [of _ st]) (simp add: channel_closed_def)
  next
    case False
    have "\<exists>s1 v1. (if \<not> has_been_open ch then circuit_n_chan_done L c False s else Some s) = Some s1 \<and> okv s1 n v1 t \<and> same_but_mux v v1"
    proof (cases "has_been_open ch")
      case True
      then show ?thesis using ok same_but_mux_refl by (intro exI [of _ s] exI [of _ v]) simp
    next
      case False
      have "v c \<noteq> None" using c by simp
      then show ?thesis using lower_dest(1) [OF L ok] False by simp
    qed
    then obtain s1 v1 where s1: "(if \<not> has_been_open ch then circuit_n_chan_done L c False s else Some s) = Some s1"
        "okv s1 n v1 t" "same_but_mux v v1" by blast
    from same_but_mux_at [OF s1(3) c] obtain m1 where m1: "v1 c = Some (st, b, d, r, m1)" by blast
    then have "v1 c \<noteq> None" by simp
    then obtain s2 v2 where s2: "circuit_unlink_all_from_channel L c s1 = Some s2" "okv s2 n v2 t" "same_but_mux v1 v2"
        "\<And>st b d r mux. v2 c = Some (st, b, d, r, Some mux) \<Longrightarrow> mux_idle mux"
      using lower_dest(2) [OF L s1(2)] by metis
    from same_but_mux_at [OF s2(3) m1] obtain m2 where m2: "v2 c = Some (st, b, d, r, m2)" by blast
    obtain ch2 where ch2: "chans s2 c = Some ch2" "reason_for_closing ch2 = r" using okv_chan [OF s2(2) m2] by blast
    have room2: "card (dom v2) \<le> INT_MAX" using room same_but_mux_dom [OF s1(3)] same_but_mux_dom [OF s2(3)] by simp
    define st' where "st' = (if r \<noteq> CHANNEL_CLOSE_FOR_ERROR then CHANNEL_STATE_CLOSED else CHANNEL_STATE_ERROR)"
    have fin: "finished_state st'" "st' \<noteq> CHANNEL_STATE_OPEN" by (auto simp: st'_def finished_state_def)
    have "st = CHANNEL_STATE_CLOSING" using con False by (simp add: condemned_state_def)
    then have can: "channel_state_can_transition st st'" by (simp add: st'_def)
    have vc: "view_ok n v" using ok by (auto simp: okv_def channels_ok_def)
    have r: "r \<noteq> CHANNEL_NOT_CLOSING" using view_ok_at [OF vc c] con by blast
    have idle: "finished_state st' \<longrightarrow> (\<forall>mux. m2 = Some mux \<longrightarrow> mux_idle mux)" using s2(4) m2 by blast
    obtain s3 where s3: "channel_change_state_impl c st' s2 = Some s3" "okv s3 n (v2(c \<mapsto> (st', b, d, r, m2))) t"
      using change_state_ok [OF s2(2) room2 m2 can _ idle] r fin by (auto simp: condemned_state_def)
    have "channel_closed L c s = channel_change_state c st' s2"
      using ch con False s1(1) s2(1) ch2 by (simp add: channel_closed_def st'_def)
    then have "channel_closed L c s = Some s3" using s3(1) fin(2) by (simp add: channel_change_state_def)
    then show ?thesis using s3(2) same_but_mux_trans [OF s1(3) s2(3)] fin False by auto
  qed
qed

lemma change_state_open_ok:
  assumes L: "lower_ok L" and ok: "okv s n v t" and room: "card (dom v) \<le> INT_MAX" and c: "v c = Some (st, b, d, r, m)"
    and st: "st = CHANNEL_STATE_OPENING \<or> st = CHANNEL_STATE_MAINT"
  shows "\<exists>s' v'. channel_change_state_open L c s = Some s' \<and> okv s' n v' t \<and>
    same_but_mux (v(c \<mapsto> (CHANNEL_STATE_OPEN, b, d, r, m))) v'"
proof -
  let ?v = "v(c \<mapsto> (CHANNEL_STATE_OPEN, b, d, r, m))"
  have can: "channel_state_can_transition st CHANNEL_STATE_OPEN" using st by auto
  obtain s1 where s1: "channel_change_state_impl c CHANNEL_STATE_OPEN s = Some s1" "okv s1 n ?v t"
    using change_state_ok [OF ok room c can] st by (auto simp: condemned_state_def finished_state_def)
  have "?v c \<noteq> None" by simp
  then obtain s2 v2 where s2: "circuit_n_chan_done L c True s1 = Some s2" "okv s2 n v2 t" "same_but_mux ?v v2"
    using lower_dest(1) [OF L s1(2)] by blast
  have "?v c = Some (CHANNEL_STATE_OPEN, b, d, r, m)" by simp
  from same_but_mux_at [OF s2(3) this] obtain m2 where m2: "v2 c = Some (CHANNEL_STATE_OPEN, b, d, r, m2)" by blast
  have "okv (set_chan c (\<lambda>ch. ch\<lparr>has_been_open := True\<rparr>) s2) n (v2(c \<mapsto> (CHANNEL_STATE_OPEN, b, d, r, m2))) t"
    by (rule okv_update [OF s2(2) m2]) (auto simp: view_of_def condemned_state_def finished_state_def)
  moreover have "v2(c \<mapsto> (CHANNEL_STATE_OPEN, b, d, r, m2)) = v2" using m2 by auto
  ultimately show ?thesis using s1(1) s2
    by (intro exI [of _ "set_chan c (\<lambda>ch. ch\<lparr>has_been_open := True\<rparr>) s2"] exI [of _ v2])
      (simp add: channel_change_state_open_def channel_do_open_actions_def)
qed

lemma new_policy_ok:
  assumes "lower_ok L"
  shows "\<exists>mux. circuitmux_set_policy g (\<lambda>_. None) [] (Some (mux_policy L)) circuitmux_alloc = Some mux \<and> mux_idle mux"
proof (cases "alloc_cmux_data (mux_policy L)")
  case None
  then show ?thesis by (simp add: circuitmux_set_policy_def circuitmux_alloc_def mux_idle_def)
next
  case (Some alloc)
  then have "free_cmux_data (mux_policy L)" "\<exists>x. alloc g = Some x" using assms by (auto simp: lower_ok_def)
  then show ?thesis using Some by (auto simp: circuitmux_set_policy_def circuitmux_alloc_def mux_idle_def)
qed

lemma next_id: "(n :: u64) + 1 \<noteq> 0 \<Longrightarrow> c \<le> n \<Longrightarrow> c \<le> n + 1 \<and> c \<noteq> n + 1"
  by uint_arith

lemma fresh_id:
  assumes "view_ok n v" and "n + 1 \<noteq> 0"
  shows "v (n + 1) = None"
proof (cases "v (n + 1)")
  case (Some x)
  obtain st b d r m where "x = (st, b, d, r, m)" by (rule prod_cases5)
  then have "n + 1 \<le> n" using Some view_ok_at [OF assms(1), of "n + 1"] by blast
  then show ?thesis using next_id [OF assms(2), of "n + 1"] by simp
qed

lemma common_init_ok:
  assumes L: "lower_ok L" and ok: "okv s n v t" and n: "n + 1 \<noteq> 0"
  shows "\<exists>s' mux. channel_tls_common_init L s = Some (n + 1, s') \<and> mux_idle mux \<and>
    okv s' (n + 1) (v(n + 1 \<mapsto> (CHANNEL_STATE_OPENING, False, replicate DIGEST_LEN 0, CHANNEL_NOT_CLOSING, Some mux))) t \<and>
    closeable_conns s' = closeable_conns s"
proof -
  let ?c = "n + 1"
  have eqs: "v = view s" "n = n_channels_allocated s" "t = tls_conn s" and cs: "channels_ok s" using ok by (simp_all add: okv_def)
  have vc: "view_ok n v" and idm: "idmap_ok (named v) (channel_identity_map s)" and lists: "lists_ok s" and lk: "link_ok v t" and set: "sched_settled s"
    using cs unfolding eqs by (simp_all add: channels_ok_def)
  obtain mux where mux: "circuitmux_set_policy (policy_globals s) (\<lambda>_. None) [] (Some (mux_policy L)) circuitmux_alloc = Some mux" "mux_idle mux"
    using new_policy_ok [OF L] by blast
  let ?ch0 = "zero_channel\<lparr>timestamp_created := time_now s, has_been_open := False, scheduler_state := SCHED_CHAN_IDLE, sched_heap_idx := -1\<rparr>
    :: ('a, 'b, 'c) channel_t"
  let ?ch = "?ch0\<lparr>chan_state := CHANNEL_STATE_OPENING, cmux := Some mux\<rparr>"
  let ?s' = "s\<lparr>n_channels_allocated := ?c, chans := (chans s)(?c \<mapsto> ?ch)\<rparr>"
  have init: "channel_tls_common_init L s = Some (?c, ?s')"
    using mux(1) eqs(2) by (simp add: channel_tls_common_init_def channel_init_def Let_def set_chan_def)
  let ?v = "v(?c \<mapsto> (CHANNEL_STATE_OPENING, False, replicate DIGEST_LEN 0, CHANNEL_NOT_CLOSING, Some mux))"
  have v': "view ?s' = ?v" unfolding eqs by (auto simp: view_def view_of_def zero_channel_def fun_eq_iff)
  have fresh: "v ?c = None" by (rule fresh_id [OF vc n])
  have no: "\<not> reg v ?c" "\<not> reg_finished v ?c" "\<not> named v ?c d" for d using fresh by (auto simp: reg_def reg_finished_def named_def)
  have e: "reg ?v x = reg v x" "reg_finished ?v x = reg_finished v x" "named ?v x y = named v x y" for x y using no by auto
  have "named ?v = named v" by (intro ext) (rule e(3))
  then have "idmap_ok (named ?v) (channel_identity_map s)" using idm by simp
  moreover have "lists_ok ?s'" using lists unfolding lists_ok_def v' e eqs(1) [symmetric] by simp
  moreover have "view_ok ?c ?v"
  proof -
    have "x \<le> n + 1" if "x \<le> n" for x using next_id [OF n that] by blast
    then show ?thesis using vc n unfolding view_ok_def
      by (auto simp: word_gt_0 condemned_state_def finished_state_def)
  qed
  moreover have "link_ok ?v t" using lk fresh unfolding link_ok_def by (auto split: if_splits)
  moreover have "sched_settled ?s'"
  proof -
    have "chans s ?c = None" using fresh eqs by (simp add: view_def)
    then have "?c \<notin> set (channels_pending s)" using set sched_ok_alloc by (fastforce simp: sched_settled_def)
    then show ?thesis using set
      by (auto simp: sched_settled_def sched_ok_def pending_exact_def have_work_def zero_channel_def)
  qed
  ultimately have "okv ?s' ?c ?v t" using v' eqs by (simp add: okv_def channels_ok_def)
  then show ?thesis using init mux(2) by (intro exI [of _ ?s'] exI [of _ mux]) simp
qed

lemma okv_conn:
  assumes ok: "okv s n v t" and "v c \<noteq> None"
  shows "okv (s\<lparr>tls_conn := insert c (tls_conn s)\<rparr>) n v (insert c t)"
proof -
  have eqs: "v = view s" "n = n_channels_allocated s" "t = tls_conn s" and cs: "channels_ok s" using ok by (simp_all add: okv_def)
  have "c \<in> dom (view s)" using assms(2) eqs by (simp only: domIff not_False_eq_True)
  then have "link_ok (view s) (insert c (tls_conn s))" using cs unfolding channels_ok_def link_ok_def by blast
  then show ?thesis using cs same_scheduling [of "s\<lparr>tls_conn := insert c (tls_conn s)\<rparr>" s] unfolding eqs
    by (simp add: okv_def channels_ok_def lists_ok_def)
qed

text \<open>Memory goes back.\<close>

lemma settled_drop:
  assumes "sched_settled s" and c: "c \<notin> set (channels_pending s)"
  shows "sched_settled (s\<lparr>chans := (chans s)(c := None)\<rparr>)"
proof -
  have ne: "channels_pending s ! i \<noteq> c" if "i < length (channels_pending s)" for i using c that nth_mem by metis
  have "sched_ok (s\<lparr>chans := (chans s)(c := None)\<rparr>)" using assms(1) ne by (simp add: sched_settled_def sched_ok_def)
  moreover have "pending_exact (s\<lparr>chans := (chans s)(c := None)\<rparr>)" using assms(1) by (simp add: sched_settled_def pending_exact_def)
  ultimately show ?thesis using assms(1) by (simp add: sched_settled_def have_work_def)
qed

lemma okv_drop:
  assumes ok: "okv s n v t" and c: "v c = Some (st, False, d, r, m)" and idle: "c \<notin> set (channels_pending s)" and t: "c \<notin> t"
  shows "okv (s\<lparr>chans := (chans s)(c := None)\<rparr>) n (v(c := None)) t"
proof -
  let ?s = "s\<lparr>chans := (chans s)(c := None)\<rparr>"
  have eqs: "v = view s" "n = n_channels_allocated s" "t = tls_conn s" and cs: "channels_ok s" using ok by (simp_all add: okv_def)
  have v': "view ?s = v(c := None)" unfolding eqs by (auto simp: view_def)
  have no: "\<not> reg v c" "\<not> reg_finished v c" "\<not> named v c d'" for d' using c by (simp_all add: reg_def reg_finished_def named_def)
  have e: "reg (v(c := None)) x = reg v x" "reg_finished (v(c := None)) x = reg_finished v x" "named (v(c := None)) x y = named v x y" for x y
    using no by (cases "x = c"; simp)+
  have "named (v(c := None)) = named v" by (intro ext) (rule e(3))
  then have "idmap_ok (named (v(c := None))) (channel_identity_map s)" using cs eqs by (simp add: channels_ok_def)
  moreover have "lists_ok ?s" using cs unfolding channels_ok_def lists_ok_def v' e eqs(1) [symmetric] by simp
  moreover have "view_ok n (v(c := None))" unfolding view_ok_def
  proof (intro allI impI)
    fix x st0 b0 d0 r0 m0 assume "(v(c := None)) x = Some (st0, b0, d0, r0, m0)"
    then have x: "v x = Some (st0, b0, d0, r0, m0)" by (cases "x = c") simp_all
    have vc: "view_ok n v" using cs eqs by (simp add: channels_ok_def)
    show "0 < x \<and> x \<le> n \<and> st0 \<noteq> CHANNEL_STATE_LAST \<and> (condemned_state st0 \<longrightarrow> r0 \<noteq> CHANNEL_NOT_CLOSING) \<and>
        (finished_state st0 \<longrightarrow> (\<forall>mux. m0 = Some mux \<longrightarrow> mux_idle mux))" by (rule view_ok_at [OF vc x])
  qed
  moreover have "link_ok (v(c := None)) t"
  proof -
    have "t \<subseteq> dom v" using cs eqs by (simp add: channels_ok_def link_ok_def)
    then have "t \<subseteq> dom v - {c}" using t by blast
    then have "t \<subseteq> dom (v(c := None))" by simp
    moreover have "x \<in> t" if "(v(c := None)) x = Some (st0, True, d0, r0, m0)" "\<not> condemned_state st0" for x st0 d0 r0 m0
    proof -
      have "v x = Some (st0, True, d0, r0, m0)" using that(1) by (cases "x = c") simp_all
      moreover have "link_ok v t" using cs eqs by (simp add: channels_ok_def)
      ultimately show ?thesis using that(2) by (simp add: link_ok_def)
    qed
    ultimately show ?thesis unfolding link_ok_def by simp
  qed
  moreover have "sched_settled ?s" using settled_drop [OF _ idle] cs by (simp add: channels_ok_def)
  ultimately show ?thesis using v' eqs by (simp add: okv_def channels_ok_def)
qed

lemma circuitmux_free_idle: "mux_idle mux \<Longrightarrow> \<exists>ctr. circuitmux_free g mux = Some ctr"
  by (auto simp: circuitmux_free_def mux_idle_def)

lemma upd_same: "v c = Some x \<Longrightarrow> v(c \<mapsto> x) = v"
  by auto

lemma dom_upd_some: "v c \<noteq> None \<Longrightarrow> dom (v(c \<mapsto> x)) = dom v"
  by auto

lemma connect_ok:
  assumes L: "lower_ok L" and ok: "okv s n v t" and n: "n + 1 \<noteq> 0" and room: "card (dom v) < INT_MAX"
  shows "\<exists>r s' v' t'. channel_tls_connect L loc s = Some (r, s') \<and> okv s' (n + 1) v' t' \<and>
    same_but_mux v (v'(n + 1 := None)) \<and> (\<forall>x. v' (n + 1) = Some x \<longrightarrow> fst x = CHANNEL_STATE_OPENING)"
proof -
  let ?c = "n + 1"
  obtain s1 mux where s1: "channel_tls_common_init L s = Some (?c, s1)" "mux_idle mux"
      "okv s1 ?c (v(?c \<mapsto> (CHANNEL_STATE_OPENING, False, replicate DIGEST_LEN 0, CHANNEL_NOT_CLOSING, Some mux))) t"
    using common_init_ok [OF L ok n] by blast
  define v1 where "v1 = v(?c \<mapsto> (CHANNEL_STATE_OPENING, False, replicate DIGEST_LEN 0, CHANNEL_NOT_CLOSING, Some mux))"
  have v1c: "v1 ?c = Some (CHANNEL_STATE_OPENING, False, replicate DIGEST_LEN 0, CHANNEL_NOT_CLOSING, Some mux)" by (simp add: v1_def)
  have vc: "view_ok n v" and lk: "link_ok v t" using ok by (auto simp: okv_def channels_ok_def)
  have fresh: "v ?c = None" by (rule fresh_id [OF vc n])
  then have ct: "?c \<notin> t" using lk by (auto simp: link_ok_def)
  let ?f = "\<lambda>ch. ch\<lparr>is_local := loc, is_incoming := False\<rparr> :: ('a, 'b, 'c) channel_t"
  have "okv (set_chan ?c ?f s1) ?c (v1(?c \<mapsto> (CHANNEL_STATE_OPENING, False, replicate DIGEST_LEN 0, CHANNEL_NOT_CLOSING, Some mux))) t"
    by (rule okv_update [OF s1(3) [folded v1_def] v1c]) (auto simp: view_of_def condemned_state_def finished_state_def)
  then have ok2: "okv (set_chan ?c ?f s1) ?c v1 t" by (simp only: upd_same [where v = v1, OF v1c])
  obtain conn s3 v3 d where s3: "connection_or_connect L ?c (set_chan ?c ?f s1) = Some (conn, s3)"
      "okv s3 ?c (v3(?c \<mapsto> (CHANNEL_STATE_OPENING, False, d, CHANNEL_NOT_CLOSING, Some mux))) t"
      "same_but_mux (v1(?c := None)) (v3(?c := None))"
    using lower_dest(3) [OF L ok2 v1c] by blast
  define v4 where "v4 = v3(?c \<mapsto> (CHANNEL_STATE_OPENING, False, d, CHANNEL_NOT_CLOSING, Some mux))"
  have v4c: "v4 ?c = Some (CHANNEL_STATE_OPENING, False, d, CHANNEL_NOT_CLOSING, Some mux)" by (simp add: v4_def)
  note ok4 = s3(2) [folded v4_def]
  have "v1(?c := None) = v" using fresh by (auto simp: v1_def)
  then have same: "same_but_mux v (v3(?c := None))" using s3(3) by simp
  have "dom v4 = insert ?c (dom (v3(?c := None)))" by (auto simp: v4_def)
  then have "dom v4 = insert ?c (dom v)" using same_but_mux_dom [OF same] by (simp only:)
  then have room4: "card (dom v4) \<le> INT_MAX" using room card_insert_le_m1 [of INT_MAX "dom v" ?c] by (simp add: card_insert_if)
  show ?thesis
  proof (cases conn)
    case True
    have ok5: "okv (s3\<lparr>tls_conn := insert ?c (tls_conn s3)\<rparr>) ?c v4 (insert ?c t)" by (rule okv_conn [OF ok4]) (simp add: v4c)
    obtain s6 where s6: "channel_register ?c (s3\<lparr>tls_conn := insert ?c (tls_conn s3)\<rparr>) = Some s6"
        "okv s6 ?c (v4(?c \<mapsto> (CHANNEL_STATE_OPENING, True, d, CHANNEL_NOT_CLOSING, Some mux))) (insert ?c t)"
      using channel_register_ok [OF ok5 room4 v4c] by blast
    have "channel_tls_connect L loc s = Some (Some ?c, s6)" using s1(1) s3(1) s6(1) True by (simp add: channel_tls_connect_def Let_def)
    moreover have "(v4(?c \<mapsto> (CHANNEL_STATE_OPENING, True, d, CHANNEL_NOT_CLOSING, Some mux)))(?c := None) = v3(?c := None)"
      by (simp add: v4_def)
    ultimately show ?thesis using s6(2) same
      by (intro exI [of _ "Some ?c"] exI [of _ s6] exI [of _ "v4(?c \<mapsto> (CHANNEL_STATE_OPENING, True, d, CHANNEL_NOT_CLOSING, Some mux))"]
          exI [of _ "insert ?c t"]) simp
  next
    case False
    have "okv (set_reason ?c CHANNEL_CLOSE_FOR_ERROR s3) ?c (v4(?c \<mapsto> (CHANNEL_STATE_OPENING, False, d, CHANNEL_CLOSE_FOR_ERROR, Some mux))) t"
      by (rule okv_set_reason [OF ok4 v4c]) simp
    define v5 where "v5 = v4(?c \<mapsto> (CHANNEL_STATE_OPENING, False, d, CHANNEL_CLOSE_FOR_ERROR, Some mux))"
    have v5c: "v5 ?c = Some (CHANNEL_STATE_OPENING, False, d, CHANNEL_CLOSE_FOR_ERROR, Some mux)" by (simp add: v5_def)
    have ok5: "okv (set_reason ?c CHANNEL_CLOSE_FOR_ERROR s3) ?c v5 t"
      unfolding v5_def by (rule okv_set_reason [OF ok4 v4c]) simp
    have "dom v5 = dom v4" unfolding v5_def by (rule dom_upd_some) (simp add: v4c)
    then have room5: "card (dom v5) \<le> INT_MAX" using room4 by simp
    have can: "channel_state_can_transition CHANNEL_STATE_OPENING CHANNEL_STATE_ERROR" by simp
    obtain s6 where s6: "channel_change_state_impl ?c CHANNEL_STATE_ERROR (set_reason ?c CHANNEL_CLOSE_FOR_ERROR s3) = Some s6"
        "okv s6 ?c (v5(?c \<mapsto> (CHANNEL_STATE_ERROR, False, d, CHANNEL_CLOSE_FOR_ERROR, Some mux))) t" "?c \<notin> set (channels_pending s6)"
      using change_state_ok [OF ok5 room5 v5c can] s1(2) by (auto simp: condemned_state_def finished_state_def)
    define v6 where "v6 = v5(?c \<mapsto> (CHANNEL_STATE_ERROR, False, d, CHANNEL_CLOSE_FOR_ERROR, Some mux))"
    have v6c: "v6 ?c = Some (CHANNEL_STATE_ERROR, False, d, CHANNEL_CLOSE_FOR_ERROR, Some mux)" by (simp add: v6_def)
    note ok6 = s6(2) [folded v6_def]
    obtain ch where ch: "chans s6 ?c = Some ch" "cmux ch = Some mux" using okv_chan [OF ok6 v6c] by blast
    obtain ctr where ctr: "circuitmux_free (global_destroy_ctr s6) mux = Some ctr" using circuitmux_free_idle [OF s1(2)] by blast
    have "okv (s6\<lparr>global_destroy_ctr := ctr\<rparr>) ?c v6 t" using ok6 by (rule okv_same_rest) simp_all
    from okv_drop [OF this v6c _ ct] s6(3) have ok7: "okv (s6\<lparr>global_destroy_ctr := ctr, chans := (chans s6)(?c := None)\<rparr>) ?c (v6(?c := None)) t" by simp
    have "channel_tls_connect L loc s = Some (None, s6\<lparr>global_destroy_ctr := ctr, chans := (chans s6)(?c := None)\<rparr>)"
      using s1(1) s3(1) s6(1) ch ctr False by (simp add: channel_tls_connect_def Let_def channel_change_state_def)
    moreover have "v6(?c := None) = v3(?c := None)" by (simp add: v6_def v5_def v4_def)
    ultimately show ?thesis using ok7 same
      by (intro exI [of _ None] exI [of _ "s6\<lparr>global_destroy_ctr := ctr, chans := (chans s6)(?c := None)\<rparr>"] exI [of _ "v6(?c := None)"] exI [of _ t]) simp
  qed
qed

lemma incoming_ok:
  assumes L: "lower_ok L" and ok: "okv s n v t" and n: "n + 1 \<noteq> 0" and room: "card (dom v) < INT_MAX"
  shows "\<exists>s' v' t'. channel_tls_handle_incoming L loc s = Some (n + 1, s') \<and> okv s' (n + 1) v' t' \<and> v'(n + 1 := None) = v \<and>
    (\<forall>x. v' (n + 1) = Some x \<longrightarrow> fst x = CHANNEL_STATE_OPENING)"
proof -
  let ?c = "n + 1"
  obtain s1 mux where s1: "channel_tls_common_init L s = Some (?c, s1)" "mux_idle mux"
      "okv s1 ?c (v(?c \<mapsto> (CHANNEL_STATE_OPENING, False, replicate DIGEST_LEN 0, CHANNEL_NOT_CLOSING, Some mux))) t"
    using common_init_ok [OF L ok n] by blast
  define v1 where "v1 = v(?c \<mapsto> (CHANNEL_STATE_OPENING, False, replicate DIGEST_LEN 0, CHANNEL_NOT_CLOSING, Some mux))"
  have v1c: "v1 ?c = Some (CHANNEL_STATE_OPENING, False, replicate DIGEST_LEN 0, CHANNEL_NOT_CLOSING, Some mux)" by (simp add: v1_def)
  have vc: "view_ok n v" using ok by (auto simp: okv_def channels_ok_def)
  have fresh: "v ?c = None" by (rule fresh_id [OF vc n])
  have ok2: "okv (s1\<lparr>tls_conn := insert ?c (tls_conn s1)\<rparr>) ?c v1 (insert ?c t)"
    by (rule okv_conn [OF s1(3) [folded v1_def]]) (simp add: v1c)
  let ?f = "\<lambda>ch. ch\<lparr>is_local := loc, is_incoming := True\<rparr> :: ('a, 'b, 'c) channel_t"
  let ?s2 = "set_chan ?c ?f (s1\<lparr>tls_conn := insert ?c (tls_conn s1)\<rparr>)"
  have "okv ?s2 ?c (v1(?c \<mapsto> (CHANNEL_STATE_OPENING, False, replicate DIGEST_LEN 0, CHANNEL_NOT_CLOSING, Some mux))) (insert ?c t)"
    by (rule okv_update [OF ok2 v1c]) (auto simp: view_of_def condemned_state_def finished_state_def)
  then have ok3: "okv ?s2 ?c v1 (insert ?c t)" by (simp only: upd_same [where v = v1, OF v1c])
  have "dom v1 = insert ?c (dom v)" by (auto simp: v1_def)
  then have room1: "card (dom v1) \<le> INT_MAX" using room card_insert_le_m1 [of INT_MAX "dom v" ?c] by (simp add: card_insert_if)
  have cin: "?c \<in> insert ?c t" by simp
  obtain s4 where s4: "channel_register ?c ?s2 = Some s4"
      "okv s4 ?c (v1(?c \<mapsto> (CHANNEL_STATE_OPENING, True, replicate DIGEST_LEN 0, CHANNEL_NOT_CLOSING, Some mux))) (insert ?c t)"
    using channel_register_ok [OF ok3 room1 v1c cin] by blast
  define v4 where "v4 = v1(?c \<mapsto> (CHANNEL_STATE_OPENING, True, replicate DIGEST_LEN 0, CHANNEL_NOT_CLOSING, Some mux))"
  have "channel_tls_handle_incoming L loc s = Some (?c, s4)" using s1(1) s4(1) by (simp add: channel_tls_handle_incoming_def Let_def)
  moreover have "v4(?c := None) = v" using fresh by (auto simp: v4_def v1_def)
  moreover have "\<forall>x. v4 ?c = Some x \<longrightarrow> fst x = CHANNEL_STATE_OPENING" by (simp add: v4_def)
  ultimately show ?thesis using s4(2) [folded v4_def] by blast
qed

section \<open>Cleaning up\<close>

lemma unregister_finished:
  assumes ok: "okv s n v t" and c: "c \<in> set (finished_channels s)"
    and l: "mset l = mset (finished_channels s) - {#c#}"
  shows "\<exists>s' st d r m. channel_unregister c (s\<lparr>finished_channels := l\<rparr>) = Some s' \<and> v c = Some (st, True, d, r, m) \<and> finished_state st \<and>
    okv s' n (v(c \<mapsto> (st, False, d, r, m))) t \<and> mset (finished_channels s') = mset (finished_channels s) - {#c#}"
proof -
  have eqs: "v = view s" "n = n_channels_allocated s" "t = tls_conn s" and cs: "channels_ok s" using ok by (simp_all add: okv_def)
  have vc: "view_ok n v" and idm: "idmap_ok (named v) (channel_identity_map s)" and lists: "lists_ok s" and lk: "link_ok v t" and set: "sched_settled s"
    using cs unfolding eqs by (simp_all add: channels_ok_def)
  have "reg_finished v c" using lists c eqs by (simp add: lists_ok_def)
  then obtain st d r m where v: "v c = Some (st, True, d, r, m)" "finished_state st" by (auto simp: reg_finished_def)
  have con: "condemned_state st" using v(2) by (simp add: condemned_state_def)
  obtain ch where ch: "chans s c = Some ch" "chan_state ch = st" "registered ch" "identity_digest ch = d" "reason_for_closing ch = r" "cmux ch = m"
    using okv_chan [OF ok v(1)] by blast
  have dl: "distinct l" "set l = set (finished_channels s) - {c}"
  proof -
    have dis: "distinct (finished_channels s)" using lists by (simp add: lists_ok_def)
    then have r: "mset (remove1 c (finished_channels s)) = mset l" using l by simp
    then show "distinct l" using dis mset_eq_imp_distinct_iff distinct_remove1 by metis
    show "set l = set (finished_channels s) - {c}" using r dis by (metis set_mset_mset set_remove1_eq)
  qed
  let ?v = "v(c \<mapsto> (st, False, d, r, m))"
  let ?f = "\<lambda>ch. ch\<lparr>registered := False\<rparr> :: ('a, 'b, 'c) channel_t"
  let ?s1 = "s\<lparr>finished_channels := smartlist_remove c l, all_channels := smartlist_remove c (all_channels s),
    channel_gid_map := channel_gid_map s - {c}\<rparr>"
  have un: "channel_unregister c (s\<lparr>finished_channels := l\<rparr>) = Some (set_chan c ?f ?s1)"
    using ch v(2) con by (simp add: channel_unregister_def Let_def)
  have s1: "view ?s1 = view s \<and> sched_settled ?s1 = sched_settled s" by (rule same_scheduling) simp_all
  have v': "view (set_chan c ?f ?s1) = ?v" using ch s1 eqs by (simp add: view_set_chan view_of_def)
  have e: "reg ?v x = (x \<noteq> c \<and> reg v x)" "reg_finished ?v x = (x \<noteq> c \<and> reg_finished v x)" "named ?v x y = named v x y" for x y
    using view_at [of v c st True d r m, OF v(1)] con by (cases "x = c"; simp)+
  have "named ?v = named v" by (intro ext) (rule e(3))
  then have "idmap_ok (named ?v) (channel_identity_map s)" using idm by simp
  moreover have "lists_ok (set_chan c ?f ?s1)"
  proof -
    have fin: "reg_finished v c" using v by (auto simp: view_at)
    have act: "x \<in> set (active_channels s) \<longleftrightarrow> x \<noteq> c \<and> reg v x \<and> \<not> (x \<noteq> c \<and> reg_finished v x)" for x
      using lists fin unfolding lists_ok_def eqs by metis
    show ?thesis using lists dl act unfolding lists_ok_def v' e eqs(1) [symmetric] by auto
  qed
  moreover have "view_ok n ?v" using view_ok_at [OF vc v(1)] by (intro view_ok_upd [OF vc v(1)]) auto
  moreover have "link_ok ?v t" by (intro link_ok_upd [OF lk v(1)]) simp
  moreover have "sched_settled (set_chan c ?f ?s1)" using s1 set by (subst settled_set_chan) simp_all
  ultimately have "okv (set_chan c ?f ?s1) n ?v t" using v' eqs by (simp add: okv_def channels_ok_def)
  moreover have "mset (smartlist_remove c l) = mset l"
    using dl(2) by (simp add: smartlist_remove_mset filter_mset_eq_conv)
  then have "mset (finished_channels (set_chan c ?f ?s1)) = mset (finished_channels s) - {#c#}" using l by simp
  ultimately show ?thesis using un v by blast
qed

lemma channel_free_ok:
  assumes L: "lower_ok L" and ok: "okv s n v t" and room: "card (dom v) \<le> INT_MAX" and c: "v c = Some (st, False, d, r, m)" and fin: "finished_state st"
  shows "\<exists>s'. channel_free L c s = Some s' \<and> okv s' n (v(c := None)) (t - {c})"
proof -
  obtain ch where ch: "chans s c = Some ch" "chan_state ch = st" "\<not> registered ch" using okv_chan [OF ok c] by blast
  have vc: "view_ok n v" using ok by (auto simp: okv_def channels_ok_def)
  note at = view_ok_at [OF vc c]
  have al: "v c \<noteq> None" using c by simp
  obtain s1 where s1: "scheduler_release_channel c s = Some s1" "okv s1 n v t" "c \<notin> set (channels_pending s1)"
    using okv_sched_step [OF ok sched_room_dom [OF ok room], of "RELEASE c"] al by auto
  have set_mux: "okv (set_cmux c m2 s0) n (v0(c \<mapsto> (st, False, d0, r, m2))) t0"
    if "okv s0 n v0 t0" "v0 c = Some (st, False, d0, r, m1)" "\<forall>mux. m2 = Some mux \<longrightarrow> mux_idle mux"
    for s0 :: "('a, 'b, 'c, 'd) registry_t_scheme" and v0 t0 d0 m1 m2
    unfolding set_cmux_def by (rule okv_update [OF that(1,2)]) (use that at in \<open>auto simp: view_of_def\<close>)
  have "\<exists>s2 m2. free_mux_policy L c s1 = Some s2 \<and> okv s2 n (v(c \<mapsto> (st, False, d, r, m2))) t \<and>
      (\<forall>mux. m2 = Some mux \<longrightarrow> mux_idle mux \<and> policy mux = None \<and> policy_data mux = None) \<and> channels_pending s2 = channels_pending s1"
  proof -
    obtain ch1 where ch1: "chans s1 c = Some ch1" "cmux ch1 = m" using okv_chan [OF s1(2) c] by blast
    show ?thesis
    proof (cases m)
      case None
      then show ?thesis using ch1 s1(2) upd_same [where v = v and c = c, OF c] by (intro exI [of _ s1] exI [of _ None]) (simp add: free_mux_policy_def)
    next
      case (Some mux)
      have idle: "mux_idle mux" using at fin Some by blast
      have "set (map_order L s1 c) \<subseteq> dom (chanid_circid_map mux)" using L ch1 Some unfolding lower_ok_def by blast
      then have keys: "map_order L s1 c = []" using idle by (simp add: mux_idle_def)
      have "\<exists>mux1. circuitmux_set_policy (policy_globals s1) (find_circuit L s1) [] None mux = Some mux1 \<and> mux_idle mux1 \<and>
          policy mux1 = None \<and> policy_data mux1 = None"
        using idle by (cases "policy mux") (auto simp: circuitmux_set_policy_def mux_idle_def)
      then obtain mux1 where mux1: "circuitmux_set_policy (policy_globals s1) (find_circuit L s1) [] None mux = Some mux1" "mux_idle mux1"
          "policy mux1 = None" "policy_data mux1 = None" by blast
      have "okv (set_cmux c (Some mux1) s1) n (v(c \<mapsto> (st, False, d, r, Some mux1))) t" using set_mux [OF s1(2) c] mux1(2) by simp
      moreover have "channels_pending (set_cmux c (Some mux1) s1) = channels_pending s1" by (simp add: set_cmux_def set_chan_def)
      ultimately show ?thesis using ch1 keys mux1 Some
        by (intro exI [of _ "set_cmux c (Some mux1) s1"] exI [of _ "Some mux1"]) (simp add: free_mux_policy_def)
    qed
  qed
  then obtain s2 m2 where s2: "free_mux_policy L c s1 = Some s2" "okv s2 n (v(c \<mapsto> (st, False, d, r, m2))) t"
      "\<And>mux. m2 = Some mux \<Longrightarrow> mux_idle mux" "channels_pending s2 = channels_pending s1" by blast
  define v2 where "v2 = v(c \<mapsto> (st, False, d, r, m2))"
  have v2c: "v2 c = Some (st, False, d, r, m2)" by (simp add: v2_def)
  let ?s3 = "channel_tls_free_method c s2"
  have ok3: "okv ?s3 n v2 (t - {c})"
  proof -
    have eqs: "v2 = view s2" "n = n_channels_allocated s2" "t = tls_conn s2" and cs: "channels_ok s2" using s2(2) [folded v2_def] by (simp_all add: okv_def)
    have "x \<in> t - {c}" if "v2 x = Some (st0, True, d0, r0, m0)" "\<not> condemned_state st0" for x st0 d0 r0 m0
    proof -
      have "link_ok v2 t" using cs eqs by (simp add: channels_ok_def)
      then have "x \<in> t" using that by (simp add: link_ok_def)
      moreover have "x \<noteq> c" using that v2c by auto
      ultimately show ?thesis by simp
    qed
    moreover have "t - {c} \<subseteq> dom v2"
    proof -
      have "t \<subseteq> dom v2" using cs eqs by (simp add: channels_ok_def link_ok_def)
      then show ?thesis by blast
    qed
    ultimately have "link_ok v2 (t - {c})" by (simp add: link_ok_def)
    then show ?thesis using cs same_scheduling [of ?s3 s2] unfolding eqs
      by (simp add: okv_def channels_ok_def lists_ok_def channel_tls_free_method_def)
  qed
  have p3: "channels_pending ?s3 = channels_pending s1" using s2(4) by (simp add: channel_tls_free_method_def)
  let ?z = "replicate DIGEST_LEN (0 :: u8)"
  obtain s4 where s4: "channel_clear_remote_end c ?s3 = Some s4" "okv s4 n (v2(c \<mapsto> (st, False, ?z, r, m2))) (t - {c})"
    using clear_identity_ok [OF ok3 v2c] by blast
  have p4: "channels_pending s4 = channels_pending s1"
  proof -
    obtain ch3 where "chans ?s3 c = Some ch3" "registered ch3 = False" using okv_chan [OF ok3 v2c] by blast
    then show ?thesis using s4(1) p3 by (auto simp: channel_clear_remote_end_def in_digest_map_def set_chan_def)
  qed
  define v4 where "v4 = v2(c \<mapsto> (st, False, ?z, r, m2))"
  have v4c: "v4 c = Some (st, False, ?z, r, m2)" by (simp add: v4_def)
  note ok4 = s4(2) [folded v4_def]
  have "\<exists>s5. free_mux L c s4 = Some s5 \<and> okv s5 n (v4(c \<mapsto> (st, False, ?z, r, None))) (t - {c}) \<and> channels_pending s5 = channels_pending s4"
  proof -
    obtain ch4 where ch4: "chans s4 c = Some ch4" "cmux ch4 = m2" using okv_chan [OF ok4 v4c] by blast
    show ?thesis
    proof (cases m2)
      case None
      then show ?thesis using ch4 ok4 v4c upd_same [where v = v4 and c = c, OF v4c] by (intro exI [of _ s4]) (simp add: free_mux_def)
    next
      case (Some mux)
      have idle: "mux_idle mux" using s2(3) Some by blast
      have "set (map_order L s4 c) \<subseteq> dom (chanid_circid_map mux)" using L ch4 Some unfolding lower_ok_def by blast
      then have keys: "map_order L s4 c = []" using idle by (simp add: mux_idle_def)
      let ?mux1 = "mux\<lparr>n_circuits := 0, n_active_circuits := 0, n_cells := 0\<rparr>"
      have det: "circuitmux_detach_all_circuits (policy_globals s4) (find_circuit L s4) (circs s4) (map_order L s4 c) mux = Some (?mux1, [])"
        unfolding keys by (simp add: circuitmux_detach_all_circuits_def)
      have idle1: "mux_idle ?mux1" using idle by (simp add: mux_idle_def)
      have oka: "okv (set_cmux c (Some ?mux1) s4) n (v4(c \<mapsto> (st, False, ?z, r, Some ?mux1))) (t - {c})"
        using set_mux [OF ok4 v4c] idle1 by simp
      define va where "va = v4(c \<mapsto> (st, False, ?z, r, Some ?mux1))"
      have vac: "va c = Some (st, False, ?z, r, Some ?mux1)" by (simp add: va_def)
      have "va c \<noteq> None" by (simp add: vac)
      then obtain sb where sb: "circuitmux_mark_destroyed_circids_usable L c (set_cmux c (Some ?mux1) s4) = Some sb" "okv sb n va (t - {c})"
          "channels_pending sb = channels_pending (set_cmux c (Some ?mux1) s4)"
        using lower_dest(4) [OF L oka [folded va_def]] by blast
      obtain ctr where ctr: "circuitmux_free (global_destroy_ctr sb) ?mux1 = Some ctr" using circuitmux_free_idle [OF idle1] by blast
      have "okv (sb\<lparr>global_destroy_ctr := ctr\<rparr>) n va (t - {c})" using sb(2) by (rule okv_same_rest) simp_all
      from set_mux [OF this vac, of None] have "okv (set_cmux c None (sb\<lparr>global_destroy_ctr := ctr\<rparr>)) n (va(c \<mapsto> (st, False, ?z, r, None))) (t - {c})" by simp
      moreover have "va(c \<mapsto> (st, False, ?z, r, None)) = v4(c \<mapsto> (st, False, ?z, r, None))" by (simp add: va_def)
      moreover have "channels_pending (set_cmux c None (sb\<lparr>global_destroy_ctr := ctr\<rparr>)) = channels_pending s4"
        using sb(3) by (simp add: set_cmux_def set_chan_def)
      ultimately show ?thesis using ch4 Some det sb(1) ctr
        by (intro exI [of _ "set_cmux c None (sb\<lparr>global_destroy_ctr := ctr\<rparr>)"]) (simp add: free_mux_def)
    qed
  qed
  then obtain s5 where s5: "free_mux L c s4 = Some s5" "okv s5 n (v4(c \<mapsto> (st, False, ?z, r, None))) (t - {c})" "channels_pending s5 = channels_pending s4"
    by blast
  have v5c: "(v4(c \<mapsto> (st, False, ?z, r, None))) c = Some (st, False, ?z, r, None)" by simp
  have p5: "c \<notin> set (channels_pending s5)" using s5(3) p4 s1(3) by simp
  have ct: "c \<notin> t - {c}" by simp
  have "(v4(c \<mapsto> (st, False, ?z, r, None)))(c := None) = v(c := None)" by (simp add: v4_def v2_def)
  then have "okv (s5\<lparr>chans := (chans s5)(c := None)\<rparr>) n (v(c := None)) (t - {c})"
    using okv_drop [OF s5(2) v5c p5 ct] by (simp only:)
  moreover have "channel_free L c s = Some (s5\<lparr>chans := (chans s5)(c := None)\<rparr>)"
    using ch fin s1(1) s2(1) s4(1) s5(1) by (simp add: channel_free_def Let_def)
  ultimately show ?thesis by simp
qed

lemma cleanup_loop_ok:
  assumes L: "lower_ok L"
  shows "okv s n v t \<Longrightarrow> card (dom v) \<le> INT_MAX \<Longrightarrow> length (finished_channels s) = k \<Longrightarrow>
    \<exists>s' t'. channel_run_cleanup_loop L k s = Some s' \<and> okv s' n (\<lambda>c. if reg_finished v c then None else v c) t'"
proof (induction k arbitrary: s v t)
  case 0
  have "\<not> reg_finished v c" for c
  proof -
    have "lists_ok s" "view s = v" using 0 by (simp_all add: okv_def channels_ok_def)
    then show ?thesis using 0(3) by (auto simp: lists_ok_def)
  qed
  then show ?case using 0 by auto
next
  case (Suc k)
  define c where "c = finished_channels s ! 0"
  have ne: "0 < length (finished_channels s)" using Suc.prems(3) by simp
  then have c: "c \<in> set (finished_channels s)" by (simp add: c_def)
  obtain l where l: "smartlist_del (finished_channels s) 0 = Some l" "mset l = mset (finished_channels s) - {#c#}"
    using smartlist_del_ok [OF ne] by (auto simp: c_def)
  obtain s1 st d r m where s1: "channel_unregister c (s\<lparr>finished_channels := l\<rparr>) = Some s1" "v c = Some (st, True, d, r, m)" "finished_state st"
      "okv s1 n (v(c \<mapsto> (st, False, d, r, m))) t"
    using unregister_finished [OF Suc.prems(1) c l(2)] by blast
  define v1 where "v1 = v(c \<mapsto> (st, False, d, r, m))"
  have v1c: "v1 c = Some (st, False, d, r, m)" by (simp add: v1_def)
  have "dom v1 = dom v" unfolding v1_def by (rule dom_upd_some) (simp add: s1(2))
  then have room1: "card (dom v1) \<le> INT_MAX" using Suc.prems(2) by simp
  obtain s2 where s2: "channel_free L c s1 = Some s2" "okv s2 n (v1(c := None)) (t - {c})"
    using channel_free_ok [OF L s1(4) [folded v1_def] room1 v1c s1(3)] by blast
  define v2 where "v2 = v(c := None)"
  have ok2: "okv s2 n v2 (t - {c})" using s2(2) by (simp add: v1_def v2_def)
  have rf: "reg_finished v2 x \<longleftrightarrow> x \<noteq> c \<and> reg_finished v x" for x by (simp add: v2_def)
  have rc: "reg_finished v c" using s1(2,3) by (auto simp: reg_finished_def)
  have "dom v2 \<subseteq> dom v" by (auto simp: v2_def)
  then have room2: "card (dom v2) \<le> INT_MAX" using Suc.prems(2) card_mono [of "dom v" "dom v2"] by simp
  have fl: "distinct (finished_channels s)" "distinct (finished_channels s2)" "set (finished_channels s2) = set (finished_channels s) - {c}"
  proof -
    have "lists_ok s" "view s = v" "lists_ok s2" "view s2 = v2" using Suc.prems(1) ok2 by (simp_all add: okv_def channels_ok_def)
    then show "distinct (finished_channels s)" "distinct (finished_channels s2)" "set (finished_channels s2) = set (finished_channels s) - {c}"
      using rf by (auto simp: lists_ok_def)
  qed
  have "length (finished_channels s2) = card (set (finished_channels s) - {c})" using fl by (metis distinct_card)
  also have "\<dots> = length (finished_channels s) - 1" using c fl(1) by (simp add: distinct_card)
  finally have len: "length (finished_channels s2) = k" using Suc.prems(3) by simp
  obtain s3 t' where s3: "channel_run_cleanup_loop L k s2 = Some s3" "okv s3 n (\<lambda>x. if reg_finished v2 x then None else v2 x) t'"
    using Suc.IH [OF ok2 room2 len] by blast
  have "(\<lambda>x. if reg_finished v2 x then None else v2 x) = (\<lambda>x. if reg_finished v x then None else v x)"
    using rf rc by (auto simp: v2_def)
  moreover have "channel_run_cleanup_loop L (Suc k) s = Some s3"
    using ne l(1) s1(1) s2(1) s3(1) by (simp add: Let_def c_def)
  ultimately show ?case using s3(2) by auto
qed

section \<open>All events\<close>

datatype channel_event =
  TLS_CONNECT bool | TLS_INCOMING bool | ORCONN_STATE chan_ref bool int
| SET_IDENTITY chan_ref "u8 list option" "u8 list option" | CLEAR_IDENTITY chan_ref
| MARK_FOR_CLOSE chan_ref | CLOSE_NORMALLY chan_ref | CLOSE_FOR_ERROR chan_ref | ABOUT_TO_CLOSE chan_ref
| RUN_CLEANUP | SCHEDULER sched_event

fun channel_step ::
    "(('g, 'pd, 'cd, 'z) registry_t_scheme, 'g, 'pd, 'cd) lower_t \<Rightarrow> channel_event \<Rightarrow> ('g, 'pd, 'cd, 'z) registry_t_scheme \<Rightarrow> ('g, 'pd, 'cd, 'z) registry_t_scheme option" where
  "channel_step L (TLS_CONNECT loc) s = map_option snd (channel_tls_connect L loc s)"
| "channel_step L (TLS_INCOMING loc) s = map_option snd (channel_tls_handle_incoming L loc s)"
| "channel_step L (ORCONN_STATE c is_open cells) s = channel_tls_handle_state_change_on_orconn L c is_open cells s"
| "channel_step L (SET_IDENTITY c d ed) s = channel_set_identity_digest c d ed s"
| "channel_step L (CLEAR_IDENTITY c) s = channel_clear_identity_digest c s"
| "channel_step L (MARK_FOR_CLOSE c) s = channel_mark_for_close c s"
| "channel_step L (CLOSE_NORMALLY c) s = connection_or_close_normally c s"
| "channel_step L (CLOSE_FOR_ERROR c) s = connection_or_close_for_error c s"
| "channel_step L (ABOUT_TO_CLOSE c) s = connection_or_about_to_close L c s"
| "channel_step L RUN_CLEANUP s = channel_run_cleanup L s"
| "channel_step L (SCHEDULER ev) s = sched_step ev s"

fun channel_run ::
    "(('g, 'pd, 'cd, 'z) registry_t_scheme, 'g, 'pd, 'cd) lower_t \<Rightarrow> channel_event list \<Rightarrow> ('g, 'pd, 'cd, 'z) registry_t_scheme \<Rightarrow> ('g, 'pd, 'cd, 'z) registry_t_scheme option" where
  "channel_run L [] s = Some s"
| "channel_run L (ev # evs) s = Option.bind (channel_step L ev s) (channel_run L evs)"

text \<open>What the callers see to: the channel is in memory; a connection opens once, from OPENING or MAINT; and it
  goes away only after its channel was told to close.\<close>

fun event_ok :: "channel_event \<Rightarrow> ('g, 'pd, 'cd, 'z) registry_t_scheme \<Rightarrow> bool" where
  "event_ok (ORCONN_STATE c is_open cells) s =
     (case chans s c of None \<Rightarrow> False
      | Some ch \<Rightarrow> chan_state ch \<in> {CHANNEL_STATE_OPENING, CHANNEL_STATE_MAINT} \<or>
                   \<not> is_open \<and> chan_state ch \<in> {CHANNEL_STATE_OPEN, CHANNEL_STATE_CLOSING})"
| "event_ok (SET_IDENTITY c d ed) s = (chans s c \<noteq> None)"
| "event_ok (CLEAR_IDENTITY c) s = (chans s c \<noteq> None)"
| "event_ok (MARK_FOR_CLOSE c) s = (case chans s c of None \<Rightarrow> False | Some ch \<Rightarrow> registered ch)"
| "event_ok (CLOSE_NORMALLY c) s = (chans s c \<noteq> None)"
| "event_ok (CLOSE_FOR_ERROR c) s = (chans s c \<noteq> None)"
| "event_ok (ABOUT_TO_CLOSE c) s =
     (c \<in> tls_conn s \<longrightarrow> (case chans s c of None \<Rightarrow> False | Some ch \<Rightarrow> CHANNEL_CONDEMNED ch))"
| "event_ok (SCHEDULER ev) s = (chans s (event_chan ev) \<noteq> None)"
| "event_ok _ s = True"

text \<open>What one event may do to a channel.\<close>

definition life :: "u64 \<Rightarrow> (chan_ref \<Rightarrow> ('g, 'pd, 'cd) chan_view option) \<Rightarrow> (chan_ref \<Rightarrow> ('g, 'pd, 'cd) chan_view option) \<Rightarrow> bool" where
  "life n v v' \<longleftrightarrow> (\<forall>c. case v c of
      None \<Rightarrow> (case v' c of None \<Rightarrow> True | Some y \<Rightarrow> n < c \<and> fst y = CHANNEL_STATE_OPENING)
    | Some x \<Rightarrow> (case v' c of None \<Rightarrow> finished_state (fst x)
                 | Some y \<Rightarrow> fst y = fst x \<or> channel_state_can_transition (fst x) (fst y)))"

lemma life_refl [simp]: "life n v v"
  by (simp add: life_def split: option.splits)

lemma life_upd: "v c = Some x \<Longrightarrow> fst y = fst x \<or> channel_state_can_transition (fst x) (fst y) \<Longrightarrow> life n v (v(c \<mapsto> y))"
  by (auto simp: life_def split: option.split)

lemma life_closing:
  assumes "view_ok n v"
  shows "life n v (closing_view c r v)"
proof (cases "v c")
  case (Some x)
  obtain st b d r0 m where x: "x = (st, b, d, r0, m)" by (rule prod_cases5)
  have "st \<noteq> CHANNEL_STATE_LAST" using view_ok_at [OF assms, of c] Some x by blast
  then have "condemned_state st \<or> channel_state_can_transition st CHANNEL_STATE_CLOSING"
    by (cases st) (auto simp: condemned_state_def finished_state_def)
  then show ?thesis using Some x by (auto simp: closing_view_def intro!: life_upd)
qed (simp add: closing_view_def)

lemma life_same: "same_but_mux v v' \<Longrightarrow> v1 c = Some x \<Longrightarrow> v = v1(c \<mapsto> y) \<Longrightarrow>
    fst y = fst x \<or> channel_state_can_transition (fst x) (fst y) \<Longrightarrow> life n v1 v'"
  unfolding life_def
proof
  fix a assume a: "same_but_mux v v'" "v1 c = Some x" "v = v1(c \<mapsto> y)" "fst y = fst x \<or> channel_state_can_transition (fst x) (fst y)"
  show "case v1 a of
      None \<Rightarrow> (case v' a of None \<Rightarrow> True | Some y \<Rightarrow> n < a \<and> fst y = CHANNEL_STATE_OPENING)
    | Some x \<Rightarrow> (case v' a of None \<Rightarrow> finished_state (fst x)
                 | Some y \<Rightarrow> fst y = fst x \<or> channel_state_can_transition (fst x) (fst y))"
  proof (cases "v a")
    case None
    then have "v' a = None" using spec [OF a(1) [unfolded same_but_mux_def], of a] by simp
    then show ?thesis using None a(3) by (simp split: if_splits)
  next
    case (Some z)
    obtain st b d r m where z: "z = (st, b, d, r, m)" by (rule prod_cases5)
    obtain m' where "v' a = Some (st, b, d, r, m')" using same_but_mux_at [OF a(1), of a] Some z by blast
    then show ?thesis using Some z a(2-4) by (auto split: if_splits)
  qed
qed

lemma life_new:
  assumes same: "same_but_mux v (v'(n + 1 := None))" and n: "n + 1 \<noteq> 0" and fresh: "v (n + 1) = None"
    and new: "\<And>x. v' (n + 1) = Some x \<Longrightarrow> fst x = CHANNEL_STATE_OPENING"
  shows "life n v v' \<and> card (dom v') \<le> Suc (card (dom v))"
proof
  have nn: "n < n + 1" using n by uint_arith
  have sub: "dom v' \<subseteq> insert (n + 1) (dom v)"
  proof -
    have "dom v' - {n + 1} = dom (v'(n + 1 := None))" by simp
    then show ?thesis using same_but_mux_dom [OF same] by blast
  qed
  have "card (dom v') \<le> card (insert (n + 1) (dom v))" using sub by (rule card_mono [rotated]) simp
  then show "card (dom v') \<le> Suc (card (dom v))" by (metis card_insert_if finite le_Suc_eq)
  show "life n v v'" unfolding life_def
  proof
    fix a
    show "case v a of
        None \<Rightarrow> (case v' a of None \<Rightarrow> True | Some y \<Rightarrow> n < a \<and> fst y = CHANNEL_STATE_OPENING)
      | Some x \<Rightarrow> (case v' a of None \<Rightarrow> finished_state (fst x)
                   | Some y \<Rightarrow> fst y = fst x \<or> channel_state_can_transition (fst x) (fst y))"
    proof (cases "a = n + 1")
      case True
      then show ?thesis using fresh new nn by (cases "v' a") simp_all
    next
      case False
      then have v': "(v'(n + 1 := None)) a = v' a" by simp
      show ?thesis
      proof (cases "v a")
        case None
        then have "v' a = None" using spec [OF same [unfolded same_but_mux_def], of a] v' by simp
        then show ?thesis using None by simp
      next
        case (Some z)
        obtain st b d r m where z: "z = (st, b, d, r, m)" by (rule prod_cases5)
        obtain m' where "v' a = Some (st, b, d, r, m')" using same_but_mux_at [OF same, of a] Some z v' by auto
        then show ?thesis using Some z by simp
      qed
    qed
  qed
qed

lemma orconn_state_ok:
  assumes L: "lower_ok L" and ok: "okv s n v t" and room: "card (dom v) \<le> INT_MAX" and ev: "event_ok (ORCONN_STATE c is_open cells) s"
  shows "\<exists>s' v'. channel_tls_handle_state_change_on_orconn L c is_open cells s = Some s' \<and> okv s' n v' t \<and> dom v' = dom v \<and> life n v v'"
proof -
  have vs: "v = view s" using ok by (simp add: okv_def)
  obtain ch where ch: "chans s c = Some ch" "chan_state ch \<in> {CHANNEL_STATE_OPENING, CHANNEL_STATE_MAINT} \<or>
      \<not> is_open \<and> chan_state ch \<in> {CHANNEL_STATE_OPEN, CHANNEL_STATE_CLOSING}" using ev by (auto split: option.splits)
  define st where "st = chan_state ch"
  obtain b d r m where c: "v c = Some (st, b, d, r, m)" using ch(1) vs by (simp add: view_def view_of_def st_def)
  show ?thesis
  proof (cases is_open)
    case True
    then have st: "st = CHANNEL_STATE_OPENING \<or> st = CHANNEL_STATE_MAINT" using ch(2) st_def by simp
    obtain s1 v1 where s1: "channel_change_state_open L c s = Some s1" "okv s1 n v1 t"
        "same_but_mux (v(c \<mapsto> (CHANNEL_STATE_OPEN, b, d, r, m))) v1"
      using change_state_open_ok [OF L ok room c st] by blast
    have d1: "dom v1 = dom v" using same_but_mux_dom [OF s1(3)] c by auto
    have "(v(c \<mapsto> (CHANNEL_STATE_OPEN, b, d, r, m))) c = Some (CHANNEL_STATE_OPEN, b, d, r, m)" by simp
    from same_but_mux_at [OF s1(3) this] have v1c: "v1 (event_chan (WANTS_WRITES c)) \<noteq> None" by auto
    have "\<exists>s2. (if cells > 0 then scheduler_channel_wants_writes c s1 else Some s1) = Some s2 \<and> okv s2 n v1 t"
      using okv_sched_step [OF s1(2) sched_room_dom [OF s1(2)] v1c] d1 room s1(2) by auto
    moreover have "life n v v1" by (rule life_same [OF s1(3) c refl]) (use st in auto)
    ultimately show ?thesis using ch(1) st True s1(1) d1
      by (auto simp: channel_tls_handle_state_change_on_orconn_def st_def)
  next
    case False
    show ?thesis
    proof (cases "st = CHANNEL_STATE_OPEN")
      case True
      have can: "channel_state_can_transition st CHANNEL_STATE_MAINT" using True by simp
      obtain s1 where s1: "channel_change_state_impl c CHANNEL_STATE_MAINT s = Some s1" "okv s1 n (v(c \<mapsto> (CHANNEL_STATE_MAINT, b, d, r, m))) t"
        using change_state_ok [OF ok room c can] True by (auto simp: condemned_state_def finished_state_def)
      have "life n v (v(c \<mapsto> (CHANNEL_STATE_MAINT, b, d, r, m)))" by (rule life_upd [of v c, OF c]) (use can in simp)
      moreover have "dom (v(c \<mapsto> (CHANNEL_STATE_MAINT, b, d, r, m))) = dom v" by (rule dom_upd_some) (simp add: c)
      ultimately show ?thesis using ch(1) False True s1
        by (intro exI [of _ s1] exI [of _ "v(c \<mapsto> (CHANNEL_STATE_MAINT, b, d, r, m))"])
          (simp add: channel_tls_handle_state_change_on_orconn_def st_def channel_change_state_def)
    next
      case nope: False
      then show ?thesis using ch False ok
        by (intro exI [of _ s] exI [of _ v]) (auto simp: channel_tls_handle_state_change_on_orconn_def st_def)
    qed
  qed
qed

lemma life_upd2:
  assumes "life n v v1" and c: "v c = Some x" and "fst y = fst x \<or> channel_state_can_transition (fst x) (fst y)"
  shows "life n v (v1(c \<mapsto> y))"
  unfolding life_def
proof
  fix a
  show "case v a of
      None \<Rightarrow> (case (v1(c \<mapsto> y)) a of None \<Rightarrow> True | Some y \<Rightarrow> n < a \<and> fst y = CHANNEL_STATE_OPENING)
    | Some x \<Rightarrow> (case (v1(c \<mapsto> y)) a of None \<Rightarrow> finished_state (fst x)
                 | Some y \<Rightarrow> fst y = fst x \<or> channel_state_can_transition (fst x) (fst y))"
  proof (cases "a = c")
    case True
    then have "(v1(c \<mapsto> y)) a = Some y" by simp
    then show ?thesis using c assms(3) True by (simp only: option.case)
  next
    case False
    then have "(v1(c \<mapsto> y)) a = v1 a" by simp
    then show ?thesis using spec [OF assms(1) [unfolded life_def], of a] by (simp only:)
  qed
qed

lemma okv_unlink:
  assumes ok: "okv s n v t" and c: "v c = Some (st, b, d, r, m)" and con: "condemned_state st"
  shows "okv (s\<lparr>tls_conn := tls_conn s - {c}\<rparr>) n v (t - {c})"
proof -
  have eqs: "v = view s" "n = n_channels_allocated s" "t = tls_conn s" and cs: "channels_ok s" using ok by (simp_all add: okv_def)
  have lk: "link_ok v t" using cs eqs by (simp add: channels_ok_def)
  have "x \<in> t - {c}" if "v x = Some (st0, True, d0, r0, m0)" "\<not> condemned_state st0" for x st0 d0 r0 m0
  proof -
    have "x \<in> t" using lk that by (simp add: link_ok_def)
    moreover have "x \<noteq> c" using that c con by auto
    ultimately show ?thesis by simp
  qed
  moreover have "t - {c} \<subseteq> dom v"
  proof -
    have "t \<subseteq> dom v" using lk by (simp add: link_ok_def)
    then show ?thesis by blast
  qed
  ultimately have "link_ok v (t - {c})" by (simp add: link_ok_def)
  then show ?thesis using cs same_scheduling [of "s\<lparr>tls_conn := tls_conn s - {c}\<rparr>" s] unfolding eqs
    by (simp add: okv_def channels_ok_def lists_ok_def)
qed

lemma about_to_close_ok:
  assumes L: "lower_ok L" and ok: "okv s n v t" and room: "card (dom v) \<le> INT_MAX" and ev: "event_ok (ABOUT_TO_CLOSE c) s"
  shows "\<exists>s' v' t'. connection_or_about_to_close L c s = Some s' \<and> okv s' n v' t' \<and> dom v' = dom v \<and> life n v v'"
proof (cases "c \<in> t")
  case False
  then show ?thesis using ok by (intro exI [of _ s] exI [of _ v] exI [of _ t]) (auto simp: connection_or_about_to_close_def okv_def)
next
  case True
  have vs: "v = view s" "t = tls_conn s" using ok by (simp_all add: okv_def)
  obtain ch where ch: "chans s c = Some ch" "CHANNEL_CONDEMNED ch" using ev True vs by (auto split: option.splits)
  define st where "st = chan_state ch"
  obtain b d r m where c: "v c = Some (st, b, d, r, m)" using ch(1) vs by (simp add: view_def view_of_def st_def)
  have con: "condemned_state st" using ch(2) by (simp add: st_def)
  obtain s1 v1 m1 st1 where s1: "channel_closed L c s = Some s1" "okv s1 n (v1(c \<mapsto> (st1, b, d, r, m1))) t" "same_but_mux v v1"
      "if finished_state st then st1 = st else finished_state st1"
    using channel_closed_ok [OF L ok room c con] by blast
  define v2 where "v2 = v1(c \<mapsto> (st1, b, d, r, m1))"
  have v2c: "v2 c = Some (st1, b, d, r, m1)" by (simp add: v2_def)
  have con1: "condemned_state st1" using s1(4) con by (auto simp: condemned_state_def split: if_splits)
  from okv_unlink [OF s1(2) [folded v2_def] v2c con1] have ok2: "okv (s1\<lparr>tls_conn := tls_conn s1 - {c}\<rparr>) n v2 (t - {c})" .
  obtain m0 where m0: "v1 c = Some (st, b, d, r, m0)" using same_but_mux_at [OF s1(3) c] by blast
  have "st1 = st \<or> channel_state_can_transition st st1"
    using s1(4) con by (auto simp: condemned_state_def finished_state_def split: if_splits)
  moreover have "dom v2 = dom v" using same_but_mux_dom [OF s1(3)] m0 by (auto simp: v2_def)
  moreover have "life n v v2"
  proof -
    have "life n v v1" by (rule life_same [OF s1(3), of v c "(st, b, d, r, m)" "(st, b, d, r, m)"]) (use c in auto)
    then have "life n v (v1(c \<mapsto> (st1, b, d, r, m1)))"
      by (rule life_upd2 [where v = v and c = c, OF _ c]) (use \<open>st1 = st \<or> channel_state_can_transition st st1\<close> in simp)
    then show ?thesis by (simp add: v2_def)
  qed
  moreover have "connection_or_about_to_close L c s = Some (s1\<lparr>tls_conn := tls_conn s1 - {c}\<rparr>)"
    using True vs s1(1) by (simp add: connection_or_about_to_close_def)
  ultimately show ?thesis using ok2 by blast
qed

lemma channel_step_ok:
  assumes L: "lower_ok L" and ok: "okv s n v t" and n: "n + 1 \<noteq> 0" and room: "card (dom v) < INT_MAX" and ev: "event_ok ev s"
  shows "\<exists>s' n' v' t'. channel_step L ev s = Some s' \<and> okv s' n' v' t' \<and> n' \<in> {n, n + 1} \<and> card (dom v') \<le> Suc (card (dom v)) \<and> life n v v'"
proof -
  have room': "card (dom v) \<le> INT_MAX" using room by simp
  have vn: "view_ok n v" and vs: "v = view s" and lists: "lists_ok s" using ok by (auto simp: okv_def channels_ok_def)
  have at: "chans s c \<noteq> None \<Longrightarrow> v c \<noteq> None" for c using vs by (simp add: view_def)
  have fresh: "v (n + 1) = None" by (rule fresh_id [OF vn n])
  have keep: ?thesis if ex: "\<exists>s' v' t'. channel_step L ev s = Some s' \<and> okv s' n v' t' \<and> dom v' \<subseteq> dom v \<and> life n v v'"
  proof -
    obtain s' v' t' where s': "channel_step L ev s = Some s'" "okv s' n v' t'" "dom v' \<subseteq> dom v" "life n v v'" using ex by blast
    have "card (dom v') \<le> card (dom v)" using s'(3) by (rule card_mono [rotated]) simp
    then have "card (dom v') \<le> Suc (card (dom v))" by simp
    then show ?thesis using s' by blast
  qed
  have closing: "\<exists>v'. okv s' n v' t \<and> dom v' \<subseteq> dom v \<and> life n v v'" if "okv s' n (closing_view c r v) t"
    for s' :: "('a, 'b, 'c, 'd) registry_t_scheme" and c r
  proof -
    have "dom (closing_view c r v) = dom v"
    proof (cases "v c")
      case (Some x)
      obtain st b d r0 m where "x = (st, b, d, r0, m)" by (rule prod_cases5)
      moreover from this have "dom (v(c \<mapsto> (CHANNEL_STATE_CLOSING, b, d, r, m))) = dom v" using Some by (intro dom_upd_some) simp
      ultimately show ?thesis using Some by (simp add: closing_view_def)
    qed (simp add: closing_view_def)
    then show ?thesis using that life_closing [OF vn] by blast
  qed
  show ?thesis
  proof (cases ev)
    case (TLS_CONNECT loc)
    obtain r s' v' t' where s': "channel_tls_connect L loc s = Some (r, s')" "okv s' (n + 1) v' t'" "same_but_mux v (v'(n + 1 := None))"
        "\<And>x. v' (n + 1) = Some x \<Longrightarrow> fst x = CHANNEL_STATE_OPENING"
      using connect_ok [OF L ok n room] by blast
    from life_new [OF s'(3) n fresh s'(4)] s'(1,2) show ?thesis by (simp add: TLS_CONNECT) blast
  next
    case (TLS_INCOMING loc)
    obtain s' v' t' where s': "channel_tls_handle_incoming L loc s = Some (n + 1, s')" "okv s' (n + 1) v' t'" "v'(n + 1 := None) = v"
        "\<And>x. v' (n + 1) = Some x \<Longrightarrow> fst x = CHANNEL_STATE_OPENING"
      using incoming_ok [OF L ok n room] by blast
    have "same_but_mux v (v'(n + 1 := None))" using s'(3) by simp
    from life_new [OF this n fresh s'(4)] s'(1,2) show ?thesis by (simp add: TLS_INCOMING) blast
  next
    case (ORCONN_STATE c is_open cells)
    obtain s' v' where "channel_tls_handle_state_change_on_orconn L c is_open cells s = Some s'" "okv s' n v' t" "dom v' = dom v" "life n v v'"
      using orconn_state_ok [OF L ok room'] ev ORCONN_STATE by blast
    then show ?thesis by (intro keep exI [of _ s'] exI [of _ v'] exI [of _ t]) (simp add: ORCONN_STATE)
  next
    case (SET_IDENTITY c d ed)
    then have "v c \<noteq> None" using ev at by simp
    then obtain st b d0 r m where c: "v c = Some (st, b, d0, r, m)" by (metis option.exhaust prod_cases5)
    let ?y = "(st, b, case d of Some d' \<Rightarrow> d' | None \<Rightarrow> replicate DIGEST_LEN 0, r, m)"
    obtain s' where s': "channel_set_identity_digest c d ed s = Some s'" "okv s' n (v(c \<mapsto> ?y)) t" using set_identity_ok [OF ok c] by blast
    have "life n v (v(c \<mapsto> ?y))" "dom (v(c \<mapsto> ?y)) \<subseteq> dom v" using life_upd [of v c, OF c] dom_upd_some [of v c] c by simp_all
    then show ?thesis using s' by (intro keep exI [of _ s'] exI [of _ "v(c \<mapsto> ?y)"] exI [of _ t]) (simp add: SET_IDENTITY)
  next
    case (CLEAR_IDENTITY c)
    then have "v c \<noteq> None" using ev at by simp
    then obtain st b d0 r m where c: "v c = Some (st, b, d0, r, m)" by (metis option.exhaust prod_cases5)
    let ?y = "(st, b, replicate DIGEST_LEN (0 :: u8), r, m)"
    obtain s' where s': "channel_clear_identity_digest c s = Some s'" "okv s' n (v(c \<mapsto> ?y)) t" using clear_identity_ok [OF ok c] by blast
    have "life n v (v(c \<mapsto> ?y))" "dom (v(c \<mapsto> ?y)) \<subseteq> dom v" using life_upd [of v c, OF c] dom_upd_some [of v c] c by simp_all
    then show ?thesis using s' by (intro keep exI [of _ s'] exI [of _ "v(c \<mapsto> ?y)"] exI [of _ t]) (simp add: CLEAR_IDENTITY)
  next
    case (MARK_FOR_CLOSE c)
    then have "reg v c" using ev vs by (auto simp: view_def view_of_def reg_def split: option.splits)
    from mark_for_close_ok [OF ok room' this] closing show ?thesis by (intro keep) (simp add: MARK_FOR_CLOSE, blast)
  next
    case (CLOSE_NORMALLY c)
    then have "v c \<noteq> None" using ev at by simp
    from or_close_ok(1) [OF ok room' this] closing show ?thesis by (intro keep) (simp add: CLOSE_NORMALLY, blast)
  next
    case (CLOSE_FOR_ERROR c)
    then have "v c \<noteq> None" using ev at by simp
    from or_close_ok(2) [OF ok room' this] closing show ?thesis by (intro keep) (simp add: CLOSE_FOR_ERROR, blast)
  next
    case (ABOUT_TO_CLOSE c)
    then obtain s' v' t' where "connection_or_about_to_close L c s = Some s'" "okv s' n v' t'" "dom v' = dom v" "life n v v'"
      using about_to_close_ok [OF L ok room'] ev by blast
    then show ?thesis by (intro keep exI [of _ s'] exI [of _ v'] exI [of _ t']) (simp add: ABOUT_TO_CLOSE)
  next
    case RUN_CLEANUP
    let ?v = "\<lambda>c. if reg_finished v c then None else v c"
    obtain s' t' where s': "channel_run_cleanup_loop L (length (finished_channels s)) s = Some s'" "okv s' n ?v t'"
      using cleanup_loop_ok [OF L ok room' refl] by blast
    have "life n v ?v" unfolding life_def by (auto simp: reg_finished_def split: option.split)
    moreover have "dom ?v \<subseteq> dom v" by (rule subsetI) (simp add: domIff split: if_splits)
    ultimately show ?thesis using s' by (intro keep exI [of _ s'] exI [of _ ?v] exI [of _ t']) (simp add: RUN_CLEANUP channel_run_cleanup_def)
  next
    case (SCHEDULER e)
    then have "v (event_chan e) \<noteq> None" using ev at by simp
    then obtain s' :: "('a, 'b, 'c, 'd) registry_t_scheme" where "sched_step e s = Some s'" "okv s' n v t" using okv_sched_step [OF ok sched_room_dom [OF ok room']] by blast
    then show ?thesis by (intro keep exI [of _ s'] exI [of _ v] exI [of _ t]) (simp add: SCHEDULER)
  qed
qed

text \<open>Every event comes when it may.\<close>

fun rules_kept ::
    "(('g, 'pd, 'cd, 'z) registry_t_scheme, 'g, 'pd, 'cd) lower_t \<Rightarrow> channel_event list \<Rightarrow> ('g, 'pd, 'cd, 'z) registry_t_scheme \<Rightarrow> bool" where
  "rules_kept L [] s = True"
| "rules_kept L (ev # evs) s =
     (event_ok ev s \<and> (case channel_step L ev s of None \<Rightarrow> True | Some s1 \<Rightarrow> rules_kept L evs s1))"

lemma step_channels_ok:
  assumes L: "lower_ok L" and ok: "channels_ok s" and n: "unat (n_channels_allocated s) + 1 < 2 ^ 64"
    and room: "card (dom (chans s)) < INT_MAX" and ev: "event_ok ev s"
  shows "\<exists>s'. channel_step L ev s = Some s' \<and> channels_ok s' \<and> n_channels_allocated s \<le> n_channels_allocated s' \<and>
    unat (n_channels_allocated s') \<le> Suc (unat (n_channels_allocated s)) \<and> card (dom (chans s')) \<le> Suc (card (dom (chans s))) \<and>
    life (n_channels_allocated s) (view s) (view s')"
proof -
  let ?n = "n_channels_allocated s"
  have n0: "?n + 1 \<noteq> 0"
  proof
    assume "?n + 1 = 0"
    then have "?n = -1" by (simp add: eq_neg_iff_add_eq_0)
    moreover have "unat (-1 :: u64) = 2 ^ 64 - 1" by (simp add: unsigned_minus_1_eq_mask mask_eq_exp_minus_1)
    ultimately show False using n by simp
  qed
  have okv: "okv s ?n (view s) (tls_conn s)" using ok by (simp add: okv_def)
  have room': "card (dom (view s)) < INT_MAX" using room by (simp add: dom_chans)
  obtain s' n' v' t' where s': "channel_step L ev s = Some s'" "okv s' n' v' t'" "n' \<in> {?n, ?n + 1}"
      "card (dom v') \<le> Suc (card (dom (view s)))" "life ?n (view s) v'"
    using channel_step_ok [OF L okv n0 room' ev] by blast
  have e: "n_channels_allocated s' = n'" "view s' = v'" "channels_ok s'" using s'(2) by (simp_all add: okv_def)
  have "?n \<le> n'" "unat n' \<le> Suc (unat ?n)" using s'(3) n0 by (auto, unat_arith+)
  then show ?thesis using s' e by (simp add: dom_chans)
qed

lemma life_none: "life n v v' \<Longrightarrow> c \<le> n \<Longrightarrow> v c = None \<Longrightarrow> v' c = None"
  unfolding life_def by (drule spec [of _ c]) (auto split: option.splits)

lemma channel_run_ok:
  assumes L: "lower_ok L"
  shows "channels_ok s \<Longrightarrow> unat (n_channels_allocated s) + length evs < 2 ^ 64 \<Longrightarrow> card (dom (chans s)) + length evs \<le> INT_MAX \<Longrightarrow>
    rules_kept L evs s \<Longrightarrow> \<exists>s'. channel_run L evs s = Some s' \<and> channels_ok s' \<and> n_channels_allocated s \<le> n_channels_allocated s' \<and>
         (\<forall>c. c \<le> n_channels_allocated s \<longrightarrow> chans s c = None \<longrightarrow> chans s' c = None)"
proof (induction evs arbitrary: s)
  case (Cons ev evs)
  have ev: "event_ok ev s" using Cons.prems(4) by simp
  obtain s1 where s1: "channel_step L ev s = Some s1" "channels_ok s1" "n_channels_allocated s \<le> n_channels_allocated s1"
      "unat (n_channels_allocated s1) \<le> Suc (unat (n_channels_allocated s))" "card (dom (chans s1)) \<le> Suc (card (dom (chans s)))"
      "life (n_channels_allocated s) (view s) (view s1)"
    using step_channels_ok [OF L Cons.prems(1) _ _ ev] Cons.prems(2,3) by auto
  have same: "chans s1 c = None" if "c \<le> n_channels_allocated s" "chans s c = None" for c
    using life_none [OF s1(6) that(1)] that(2) by (simp add: view_def)
  obtain s' where s': "channel_run L evs s1 = Some s'" "channels_ok s'" "n_channels_allocated s1 \<le> n_channels_allocated s'"
      "\<And>c. c \<le> n_channels_allocated s1 \<Longrightarrow> chans s1 c = None \<Longrightarrow> chans s' c = None"
    using Cons.IH [OF s1(2)] s1(1,4,5) Cons.prems(2-4) by auto
  show ?case using s' s1(1,3) same by (auto intro: order_trans)
qed simp



definition plain_policy :: "(nat, nat, nat) circuitmux_policy_t" where
  "plain_policy = \<lparr>pol_id = 0, alloc_cmux_data = None, free_cmux_data = False, alloc_circ_data = None, free_circ_data = False,
     notify_circ_active = None, notify_circ_inactive = None, notify_set_n_cells = None, notify_xmit_cells = None,
     pick_active_circuit = (\<lambda>_. Some None), cmp_cmux = None\<rparr>"

definition quiet_lower :: "((nat, nat, nat) registry_t, nat, nat, nat) lower_t" where
  "quiet_lower = \<lparr>mux_policy = plain_policy, connection_or_connect = (\<lambda>c s. Some (True, s)), circuit_n_chan_done = (\<lambda>c b s. Some s),
     circuit_unlink_all_from_channel = (\<lambda>c s. Some (case chans s c of
        Some ch \<Rightarrow> if CHANNEL_FINISHED ch then s else set_cmux c None s | None \<Rightarrow> s)),
     circuitmux_mark_destroyed_circids_usable = (\<lambda>c s. Some s), find_circuit = (\<lambda>s k. None), map_order = (\<lambda>s c. [])\<rparr>"

definition no_channels :: "(nat, nat, nat) registry_t" where
  "no_channels = \<lparr>chans = Map.empty, channels_pending = [], the_scheduler = SCHEDULER_KIST, run_sched_ev = None,
     socket_table = Map.empty, sched_clock = 0, scheduler_last_run = 0, sched_run_interval = 10,
     all_channels = [], active_channels = [], finished_channels = [], channel_gid_map = {}, channel_identity_map = [],
     n_channels_allocated = 0, cleanup_scheduled = False, tls_conn = {}, closeable_conns = [],
     circs = (\<lambda>_. undefined), policy_globals = 0, global_destroy_ctr = 0, time_now = 0\<rparr>"

lemma quiet_lower_ok: "lower_ok quiet_lower"
proof -
  have unlink: "\<exists>s' v'. circuit_unlink_all_from_channel quiet_lower c s = Some s' \<and> okv s' n v' t \<and> same_but_mux v v' \<and>
      (\<forall>st b d r mux. v' c = Some (st, b, d, r, Some mux) \<longrightarrow> mux_idle mux)" if ok: "okv s n v t" and al: "v c \<noteq> None" for s n v t c
  proof -
    obtain st b d r m where c: "v c = Some (st, b, d, r, m)" using al by (metis option.exhaust prod_cases5)
    obtain ch where ch: "chans s c = Some ch" "chan_state ch = st" using okv_chan [OF ok c] by blast
    have vn: "view_ok n v" using ok by (auto simp: okv_def channels_ok_def)
    note at = view_ok_at [OF vn c]
    show ?thesis
    proof (cases "finished_state st")
      case True
      then show ?thesis using ok ch c at by (intro exI [of _ s] exI [of _ v]) (simp add: quiet_lower_def)
    next
      case False
      let ?v = "v(c \<mapsto> (st, b, d, r, None))"
      have "okv (set_cmux c None s) n ?v t" unfolding set_cmux_def
        by (rule okv_update [OF ok c]) (use at False in \<open>auto simp: view_of_def\<close>)
      moreover have "same_but_mux v ?v" using c False by (auto simp: same_but_mux_def split: option.splits)
      ultimately show ?thesis using ch False
        by (intro exI [of _ "set_cmux c None s"] exI [of _ ?v]) (simp add: quiet_lower_def)
    qed
  qed
  have connect: "\<exists>connected s' v' d'. connection_or_connect quiet_lower c s = Some (connected, s') \<and>
      okv s' n (v'(c \<mapsto> (CHANNEL_STATE_OPENING, False, d', r, m))) t \<and> same_but_mux (v(c := None)) (v'(c := None))"
    if "okv s n v t" and c: "v c = Some (CHANNEL_STATE_OPENING, False, d, r, m)" for s n v t c d r m
    using that upd_same [where v = v and c = c, OF c]
    by (intro exI [of _ True] exI [of _ s] exI [of _ v] exI [of _ d]) (simp add: quiet_lower_def)
  show ?thesis unfolding lower_ok_def
  proof (intro conjI allI impI; (elim conjE)?)
    fix s :: "(nat, nat, nat) registry_t" and n v t c b
    assume "okv s n v t"
    then show "\<exists>s' v'. circuit_n_chan_done quiet_lower c b s = Some s' \<and> okv s' n v' t \<and> same_but_mux v v'"
      by (intro exI [of _ s] exI [of _ v]) (simp add: quiet_lower_def)
  qed (use unlink connect in \<open>auto simp: quiet_lower_def plain_policy_def\<close>)
qed

lemma no_channels_ok: "channels_ok no_channels"
  by (simp add: channels_ok_def lists_ok_def idmap_ok_def view_ok_def link_ok_def sched_settled_def sched_ok_def pending_exact_def
      have_work_def no_channels_def view_def reg_def reg_finished_def named_def)

text \<open>Two channels to one peer; the first is opened, closed and freed.\<close>

definition some_lives :: "channel_event list" where
  "some_lives = [TLS_CONNECT False, TLS_INCOMING True, SET_IDENTITY 1 (Some (replicate 20 7)) None, SET_IDENTITY 2 (Some (replicate 20 7)) None,
     ORCONN_STATE 1 True 5, MARK_FOR_CLOSE 1, ABOUT_TO_CLOSE 1, RUN_CLEANUP]"

definition survivors :: "(nat, nat, nat) registry_t option \<Rightarrow> (chan_ref list \<times> chan_ref list \<times> idmap) option" where
  "survivors r = map_option (\<lambda>s. (all_channels s, active_channels s, channel_identity_map s)) r"

lemma some_lives_kept: "rules_kept quiet_lower some_lives no_channels"
  by code_simp



end
