(* ===== verification/Channel_Extend.thy ===== *)
theory Channel_Extend
  imports Channel_Registry CC_Common
begin

text \<open>
  Finding channels: by identifier, by the identity of the peer, and the one that a circuit is extended over
  (\<open>channel_get_for_extend\<close> in \<open>src/core/or/channel.c\<close>); and how many cells a channel takes
  (\<open>channeltls.c\<close>).

  A pointer into the list linked through \<open>next_with_same_id\<close> is the rest of the list from there on. Whether
  a channel is canonical and whether its connection goes to an address are methods of
  the transport; here they are the arguments \<open>is_canonical\<close> and \<open>matches_target\<close>.
\<close>

section \<open>Lookup\<close>

definition channel_find_by_global_id :: "u64 \<Rightarrow> ('g, 'pd, 'cd, 'z) registry_t_scheme \<Rightarrow> chan_ref option" where
  "channel_find_by_global_id i s = (if i \<in> channel_gid_map s then Some i else None)"

definition channel_remote_identity_matches :: "('g, 'pd, 'cd) channel_t \<Rightarrow> u8 list option \<Rightarrow> u8 list option \<Rightarrow> bool" where
  "channel_remote_identity_matches ch rsa_id_digest ed_id =
     (if (case rsa_id_digest of Some d \<Rightarrow> d \<noteq> identity_digest ch | None \<Rightarrow> False) then False
      else if (case ed_id of Some k \<Rightarrow> k \<noteq> ed25519_identity ch | None \<Rightarrow> False) then False
      else True)"

definition channel_next_with_rsa_identity :: "chan_ref list \<Rightarrow> chan_ref list" where
  "channel_next_with_rsa_identity p = tl p"

lemma next_with_rsa_identity_Cons [simp]: "channel_next_with_rsa_identity (c # cs) = cs"
  by (simp add: channel_next_with_rsa_identity_def)

fun find_matching :: "('g, 'pd, 'cd, 'z) registry_t_scheme \<Rightarrow> u8 list \<Rightarrow> u8 list option \<Rightarrow> chan_ref list \<Rightarrow> chan_ref list option" where
  "find_matching s d ed [] = Some []"
| "find_matching s d ed (c # cs) = do {
     ch \<leftarrow> chans s c;
     if channel_remote_identity_matches ch (Some d) ed then Some (c # cs)
     else find_matching s d ed (channel_next_with_rsa_identity (c # cs))
   }"

definition channel_find_by_remote_identity :: "u8 list \<Rightarrow> u8 list option \<Rightarrow> ('g, 'pd, 'cd, 'z) registry_t_scheme \<Rightarrow> chan_ref list option" where
  "channel_find_by_remote_identity rsa_id_digest ed_id s =
     (let ed = (case ed_id of Some k \<Rightarrow> if ed25519_public_key_is_zero k then None else Some k | None \<Rightarrow> None);
          rv = (case map_of (channel_identity_map s) rsa_id_digest of Some l \<Rightarrow> l | None \<Rightarrow> [])
      in find_matching s rsa_id_digest ed rv)"

section \<open>Which channel is better\<close>

definition channel_num_circuits :: "('g, 'pd, 'cd) channel_t \<Rightarrow> u32" where
  "channel_num_circuits ch = num_n_circuits ch + num_p_circuits ch"

definition channel_is_better :: "(chan_ref \<Rightarrow> bool) \<Rightarrow> chan_ref \<times> ('g, 'pd, 'cd) channel_t \<Rightarrow> chan_ref \<times> ('g, 'pd, 'cd) channel_t \<Rightarrow> bool" where
  "channel_is_better is_canonical a b =
     (let cha = snd a; chb = snd b; a_is_canonical = is_canonical (fst a); b_is_canonical = is_canonical (fst b) in
      if \<not> is_bad_for_new_circs cha \<and> is_bad_for_new_circs chb then True
      else if is_bad_for_new_circs cha \<and> \<not> is_bad_for_new_circs chb then False
      else if a_is_canonical \<and> \<not> b_is_canonical then True
      else if \<not> a_is_canonical \<and> b_is_canonical then False
      else if is_canonical_to_peer cha \<and> \<not> is_canonical_to_peer chb then True
      else if \<not> is_canonical_to_peer cha \<and> is_canonical_to_peer chb then False
      else if timestamp_created cha < timestamp_created chb then True
      else if timestamp_created cha > timestamp_created chb then False
      else if channel_num_circuits cha > channel_num_circuits chb then True
      else False)"

definition channel_matches_target_addr_for_extend :: "(chan_ref \<Rightarrow> 'addr \<Rightarrow> bool) \<Rightarrow> chan_ref \<Rightarrow> 'addr option \<Rightarrow> 'addr option \<Rightarrow> bool" where
  "channel_matches_target_addr_for_extend matches_target c target_ipv4_addr target_ipv6_addr =
     (if target_ipv4_addr = None \<and> target_ipv6_addr = None then False
      else if (case target_ipv4_addr of Some a \<Rightarrow> matches_target c a | None \<Rightarrow> False) then True
      else if (case target_ipv6_addr of Some a \<Rightarrow> matches_target c a | None \<Rightarrow> False) then True
      else False)"

section \<open>The channel to extend over\<close>

datatype extend_msg = MSG_FINE | MSG_IN_PROGRESS | MSG_TOO_OLD | MSG_NOT_CONNECTED

text \<open>The channels marked by \<open>channel_mark_as_used_for_origin_circuit\<close> are the last field.\<close>

record ('g, 'pd, 'cd) extend_loop_t =
  best :: "(chan_ref \<times> ('g, 'pd, 'cd) channel_t) option"
  n_inprogress_goodaddr :: int
  n_old :: int
  n_noncanonical :: int
  used_for_origin :: "chan_ref list"

fun extend_loop ::
    "(chan_ref \<Rightarrow> bool) \<Rightarrow> (chan_ref \<Rightarrow> 'addr \<Rightarrow> bool) \<Rightarrow> ('g, 'pd, 'cd, 'z) registry_t_scheme \<Rightarrow> u8 list \<Rightarrow> u8 list option
      \<Rightarrow> 'addr option \<Rightarrow> 'addr option \<Rightarrow> bool \<Rightarrow> chan_ref list \<Rightarrow> ('g, 'pd, 'cd) extend_loop_t \<Rightarrow> ('g, 'pd, 'cd) extend_loop_t option" where
  "extend_loop canon matches s d ed v4 v6 for_origin_circ [] st = Some st"
| "extend_loop canon matches s d ed v4 v6 for_origin_circ (c # cs) st = do {
     ch \<leftarrow> chans s c;
     if identity_digest ch \<noteq> d then None
     else do {
       let matches_target = channel_matches_target_addr_for_extend matches c v4 v6;
       let st1 =
         (if CHANNEL_CONDEMNED ch then st
          else if is_client ch then st
          else if \<not> channel_remote_identity_matches ch (Some d) ed then st
          else if \<not> CHANNEL_IS_OPEN ch
          then (if matches_target
                then st\<lparr>n_inprogress_goodaddr := n_inprogress_goodaddr st + 1,
                        used_for_origin := (if for_origin_circ then used_for_origin st @ [c] else used_for_origin st)\<rparr>
                else st)
          else if is_bad_for_new_circs ch then st\<lparr>n_old := n_old st + 1\<rparr>
          else if \<not> canon c \<and> \<not> matches_target then st\<lparr>n_noncanonical := n_noncanonical st + 1\<rparr>
          else (case best st of
                  None \<Rightarrow> st\<lparr>best := Some (c, ch)\<rparr>
                | Some b \<Rightarrow> if channel_is_better canon (c, ch) b then st\<lparr>best := Some (c, ch)\<rparr> else st));
       extend_loop canon matches s d ed v4 v6 for_origin_circ (channel_next_with_rsa_identity (c # cs)) st1
     }
   }"

text \<open>The channel, the message, whether to launch a new one, and the channels marked.\<close>

definition channel_get_for_extend ::
    "(chan_ref \<Rightarrow> bool) \<Rightarrow> (chan_ref \<Rightarrow> 'addr \<Rightarrow> bool) \<Rightarrow> u8 list \<Rightarrow> u8 list option \<Rightarrow> 'addr option \<Rightarrow> 'addr option \<Rightarrow> bool
      \<Rightarrow> ('g, 'pd, 'cd, 'z) registry_t_scheme \<Rightarrow> (chan_ref option \<times> extend_msg \<times> bool \<times> chan_ref list) option" where
  "channel_get_for_extend canon matches rsa_id_digest ed_id v4 v6 for_origin_circ s = do {
     chan \<leftarrow> channel_find_by_remote_identity rsa_id_digest ed_id s;
     st \<leftarrow> extend_loop canon matches s rsa_id_digest ed_id v4 v6 for_origin_circ chan
             \<lparr>best = None, n_inprogress_goodaddr = 0, n_old = 0, n_noncanonical = 0, used_for_origin = []\<rparr>;
     Some (case best st of
         Some b \<Rightarrow> (Some (fst b), MSG_FINE, False, used_for_origin st)
       | None \<Rightarrow>
           if n_inprogress_goodaddr st \<noteq> 0 then (None, MSG_IN_PROGRESS, False, used_for_origin st)
           else if n_old st \<noteq> 0 \<or> n_noncanonical st \<noteq> 0 then (None, MSG_TOO_OLD, True, used_for_origin st)
           else (None, MSG_NOT_CONNECTED, True, used_for_origin st))
   }"

section \<open>How many cells a channel takes\<close>

definition get_cell_network_size :: "bool \<Rightarrow> u64" where
  "get_cell_network_size wide = (if wide then 514 else 514 - 2)"

definition CEIL_DIV :: "u64 \<Rightarrow> u64 \<Rightarrow> u64" where
  "CEIL_DIV a b = (a + (b - 1)) div b"

text \<open>\<open>n\<close> is signed, the computation is not.\<close>

definition channel_tls_num_cells_writeable_method :: "cc_globals \<Rightarrow> bool \<Rightarrow> u64 \<Rightarrow> int" where
  "channel_tls_num_cells_writeable_method g wide outbuf_len =
     (let cell_network_size = get_cell_network_size wide;
          n = sint (CEIL_DIV (ucast (or_conn_highwatermark g) - outbuf_len) cell_network_size);
          n1 = (if n < 0 then 0 else n)
      in if n1 > int INT_MAX then int INT_MAX else n1)"

definition connection_or_num_cells_writeable :: "cc_globals \<Rightarrow> bool \<Rightarrow> u64 \<Rightarrow> int" where
  "connection_or_num_cells_writeable g wide datalen =
     (if datalen < ucast (or_conn_highwatermark g)
      then sint (CEIL_DIV (ucast (or_conn_highwatermark g) - datalen) (get_cell_network_size wide))
      else 0)"

definition channel_num_cells_writeable :: "cc_globals \<Rightarrow> u64 \<Rightarrow> ('g, 'pd, 'cd) channel_t \<Rightarrow> int" where
  "channel_num_cells_writeable g outbuf_len ch =
     (if CHANNEL_IS_OPEN ch
      then let result = channel_tls_num_cells_writeable_method g (wide_circ_ids ch) outbuf_len
           in if result < 0 then 0 else result
      else 0)"

text \<open>Which half of the identifiers for circuits is ours; \<open>crypto_pk_cmp_keys\<close> compares two keys.\<close>

definition channel_set_circid_type ::
    "('k \<Rightarrow> 'k \<Rightarrow> int) \<Rightarrow> 'k \<Rightarrow> 'k \<Rightarrow> 'k option \<Rightarrow> bool \<Rightarrow> ('g, 'pd, 'cd) channel_t \<Rightarrow> ('g, 'pd, 'cd) channel_t" where
  "channel_set_circid_type crypto_pk_cmp_keys tlsclient_identity_key server_identity_key identity_rcvd consider_identity ch =
     (let started_here = \<not> is_incoming ch in
      if \<not> consider_identity
      then ch\<lparr>circ_id_type := (if started_here then CIRC_ID_TYPE_HIGHER else CIRC_ID_TYPE_LOWER)\<rparr>
      else let our_identity = (if started_here then tlsclient_identity_key else server_identity_key)
           in case identity_rcvd of
                Some k \<Rightarrow> ch\<lparr>circ_id_type := (if crypto_pk_cmp_keys our_identity k < 0 then CIRC_ID_TYPE_LOWER else CIRC_ID_TYPE_HIGHER)\<rparr>
              | None \<Rightarrow> ch\<lparr>circ_id_type := CIRC_ID_TYPE_NEITHER\<rparr>)"

section \<open>The best channel\<close>

lemma better_irrefl: "\<not> channel_is_better canon a a"
  by (simp add: channel_is_better_def)

lemma better_trans: "channel_is_better canon a b \<Longrightarrow> channel_is_better canon b c \<Longrightarrow> channel_is_better canon a c"
  unfolding channel_is_better_def Let_def by (auto split: if_splits)

text \<open>What the loop is after.\<close>

definition usable ::
    "(chan_ref \<Rightarrow> bool) \<Rightarrow> (chan_ref \<Rightarrow> 'addr \<Rightarrow> bool) \<Rightarrow> u8 list \<Rightarrow> u8 list option \<Rightarrow> 'addr option \<Rightarrow> 'addr option \<Rightarrow> chan_ref \<Rightarrow> ('g, 'pd, 'cd) channel_t \<Rightarrow> bool" where
  "usable canon matches d ed v4 v6 c ch \<longleftrightarrow> CHANNEL_IS_OPEN ch \<and> \<not> is_client ch \<and> \<not> is_bad_for_new_circs ch \<and>
     identity_digest ch = d \<and> (ed = None \<or> ed = Some (ed25519_identity ch)) \<and>
     (canon c \<or> (\<exists>a. (v4 = Some a \<or> v6 = Some a) \<and> matches c a))"

definition under_way ::
    "(chan_ref \<Rightarrow> 'addr \<Rightarrow> bool) \<Rightarrow> u8 list \<Rightarrow> u8 list option \<Rightarrow> 'addr option \<Rightarrow> 'addr option \<Rightarrow> chan_ref \<Rightarrow> ('g, 'pd, 'cd) channel_t \<Rightarrow> bool" where
  "under_way matches d ed v4 v6 c ch \<longleftrightarrow> (chan_state ch = CHANNEL_STATE_OPENING \<or> chan_state ch = CHANNEL_STATE_MAINT) \<and> \<not> is_client ch \<and>
     identity_digest ch = d \<and> (ed = None \<or> ed = Some (ed25519_identity ch)) \<and>
     (\<exists>a. (v4 = Some a \<or> v6 = Some a) \<and> matches c a)"

lemma matches_target_iff:
  "channel_matches_target_addr_for_extend matches c v4 v6 \<longleftrightarrow> (\<exists>a. (v4 = Some a \<or> v6 = Some a) \<and> matches c a)"
  by (auto simp: channel_matches_target_addr_for_extend_def split: option.splits)

lemma identity_matches_iff:
  "channel_remote_identity_matches ch (Some d) ed \<longleftrightarrow> identity_digest ch = d \<and> (ed = None \<or> ed = Some (ed25519_identity ch))"
  by (auto simp: channel_remote_identity_matches_def split: option.splits)

text \<open>The loop's state after the channels \<open>seen\<close>.\<close>

definition loop_inv ::
    "(chan_ref \<Rightarrow> bool) \<Rightarrow> (chan_ref \<Rightarrow> ('g, 'pd, 'cd) channel_t \<Rightarrow> bool) \<Rightarrow> (chan_ref \<Rightarrow> ('g, 'pd, 'cd) channel_t \<Rightarrow> bool)
      \<Rightarrow> (chan_ref \<times> ('g, 'pd, 'cd) channel_t) set \<Rightarrow> ('g, 'pd, 'cd) extend_loop_t \<Rightarrow> bool" where
  "loop_inv canon U W seen st \<longleftrightarrow>
     (case best st of
        None \<Rightarrow> \<forall>(c, ch) \<in> seen. \<not> U c ch
      | Some b \<Rightarrow> b \<in> seen \<and> U (fst b) (snd b) \<and> (\<forall>(c, ch) \<in> seen. U c ch \<longrightarrow> \<not> channel_is_better canon (c, ch) b)) \<and>
     0 \<le> n_inprogress_goodaddr st \<and> (n_inprogress_goodaddr st \<noteq> 0 \<longleftrightarrow> (\<exists>(c, ch) \<in> seen. W c ch))"

lemma extend_loop_ok:
  assumes "\<And>c. c \<in> set cs \<Longrightarrow> \<exists>ch. chans s c = Some ch \<and> identity_digest ch = d \<and> chan_state ch \<noteq> CHANNEL_STATE_LAST"
    and "loop_inv canon (usable canon matches d ed v4 v6) (under_way matches d ed v4 v6) seen st"
  shows "\<exists>st'. extend_loop canon matches s d ed v4 v6 origin cs st = Some st' \<and>
    loop_inv canon (usable canon matches d ed v4 v6) (under_way matches d ed v4 v6) (seen \<union> {(c, ch). c \<in> set cs \<and> chans s c = Some ch}) st'"
  using assms
proof (induction cs arbitrary: st seen)
  case (Cons c cs)
  let ?U = "usable canon matches d ed v4 v6" and ?W = "under_way matches d ed v4 v6"
  obtain ch where ch: "chans s c = Some ch" "identity_digest ch = d" "chan_state ch \<noteq> CHANNEL_STATE_LAST" using Cons.prems(1) [of c] by auto
  define st1 where "st1 =
         (if CHANNEL_CONDEMNED ch then st
          else if is_client ch then st
          else if \<not> channel_remote_identity_matches ch (Some d) ed then st
          else if \<not> CHANNEL_IS_OPEN ch
          then (if channel_matches_target_addr_for_extend matches c v4 v6
                then st\<lparr>n_inprogress_goodaddr := n_inprogress_goodaddr st + 1,
                        used_for_origin := (if origin then used_for_origin st @ [c] else used_for_origin st)\<rparr>
                else st)
          else if is_bad_for_new_circs ch then st\<lparr>n_old := n_old st + 1\<rparr>
          else if \<not> canon c \<and> \<not> channel_matches_target_addr_for_extend matches c v4 v6 then st\<lparr>n_noncanonical := n_noncanonical st + 1\<rparr>
          else (case best st of
                  None \<Rightarrow> st\<lparr>best := Some (c, ch)\<rparr>
                | Some b \<Rightarrow> if channel_is_better canon (c, ch) b then st\<lparr>best := Some (c, ch)\<rparr> else st))"
  have step: "extend_loop canon matches s d ed v4 v6 origin (c # cs) st = extend_loop canon matches s d ed v4 v6 origin cs st1"
    using ch by (simp add: st1_def Let_def)
  have u: "?U c ch \<longleftrightarrow> \<not> CHANNEL_CONDEMNED ch \<and> \<not> is_client ch \<and> channel_remote_identity_matches ch (Some d) ed \<and> CHANNEL_IS_OPEN ch \<and>
      \<not> is_bad_for_new_circs ch \<and> (canon c \<or> channel_matches_target_addr_for_extend matches c v4 v6)"
    using ch(2) by (auto simp: usable_def matches_target_iff identity_matches_iff condemned_state_def finished_state_def)
  have w: "?W c ch \<longleftrightarrow> \<not> CHANNEL_CONDEMNED ch \<and> \<not> is_client ch \<and> channel_remote_identity_matches ch (Some d) ed \<and> \<not> CHANNEL_IS_OPEN ch \<and>
      channel_matches_target_addr_for_extend matches c v4 v6"
    using ch(2,3) by (cases "chan_state ch") (auto simp: under_way_def matches_target_iff identity_matches_iff condemned_state_def finished_state_def)
  have inv: "loop_inv canon ?U ?W (insert (c, ch) seen) st1"
  proof (cases "?U c ch")
    case True
    show ?thesis
    proof (cases "best st")
      case None
      then have "st1 = st\<lparr>best := Some (c, ch)\<rparr>" using True u by (auto simp: st1_def condemned_state_def finished_state_def)
      then show ?thesis using Cons.prems(2) None True u w better_irrefl by (auto simp: loop_inv_def)
    next
      case (Some b)
      then have "st1 = (if channel_is_better canon (c, ch) b then st\<lparr>best := Some (c, ch)\<rparr> else st)" using True u by (auto simp: st1_def condemned_state_def finished_state_def)
      then show ?thesis using Cons.prems(2) Some True u w better_irrefl better_trans [of canon _ "(c, ch)" b] by (auto simp: loop_inv_def)
    qed
  next
    case False
    then have "best st1 = best st" using u by (auto simp: st1_def)
    moreover have "n_inprogress_goodaddr st1 = n_inprogress_goodaddr st + (if ?W c ch then 1 else 0)" using False u w by (auto simp: st1_def)
    ultimately show ?thesis using Cons.prems(2) False by (auto simp: loop_inv_def split: option.splits)
  qed
  have eq: "insert (c, ch) seen \<union> {(c, ch). c \<in> set cs \<and> chans s c = Some ch} = seen \<union> {(c', ch). c' \<in> set (c # cs) \<and> chans s c' = Some ch}"
    using ch(1) by auto
  from Cons.IH [OF _ inv] Cons.prems(1) show ?case unfolding step eq by simp
qed simp

lemma find_matching_ok:
  assumes "\<And>c. c \<in> set cs \<Longrightarrow> chans s c \<noteq> None"
  shows "\<exists>dr sf. cs = dr @ sf \<and> find_matching s d ed cs = Some sf \<and>
    (\<forall>c ch. c \<in> set dr \<longrightarrow> chans s c = Some ch \<longrightarrow> \<not> channel_remote_identity_matches ch (Some d) ed)"
  using assms
proof (induction cs)
  case (Cons c cs)
  obtain ch where ch: "chans s c = Some ch" using Cons.prems [of c] by auto
  show ?case
  proof (cases "channel_remote_identity_matches ch (Some d) ed")
    case True
    then show ?thesis using ch by (intro exI [of _ "[]"] exI [of _ "c # cs"]) simp
  next
    case False
    obtain dr sf where "cs = dr @ sf" "find_matching s d ed cs = Some sf"
        "\<forall>c ch. c \<in> set dr \<longrightarrow> chans s c = Some ch \<longrightarrow> \<not> channel_remote_identity_matches ch (Some d) ed"
      using Cons.IH Cons.prems by auto
    then show ?thesis using ch False by (intro exI [of _ "c # dr"] exI [of _ sf]) auto
  qed
qed simp

text \<open>
  C33. The channel for extending a circuit. Among all registered channels that are open, are named
  and authenticated as the relay wanted, are not a client's and not bad for new circuits, and are canonical or
  go to an address asked for, the code takes one than which none is better; it takes none only when there is none, and then asks for a new
  connection just when no channel to that relay and one of the addresses is on its way.\<close>

theorem extend_takes_best:
  assumes ok: "channels_ok s" and d: "\<not> tor_digest_is_zero d"
  shows "\<exists>r msg launch marked. channel_get_for_extend canon matches d ed v4 v6 origin s = Some (r, msg, launch, marked) \<and>
    (case r of
       Some c \<Rightarrow> \<not> launch \<and>
         (\<exists>ch. chans s c = Some ch \<and> registered ch \<and> usable canon matches d ed v4 v6 c ch \<and>
           (\<forall>c' ch'. chans s c' = Some ch' \<longrightarrow> registered ch' \<longrightarrow> usable canon matches d ed v4 v6 c' ch' \<longrightarrow>
             \<not> channel_is_better canon (c', ch') (c, ch)))
     | None \<Rightarrow>
         (\<forall>c ch. chans s c = Some ch \<longrightarrow> registered ch \<longrightarrow> \<not> usable canon matches d ed v4 v6 c ch) \<and>
         (launch \<longleftrightarrow> (\<forall>c ch. chans s c = Some ch \<longrightarrow> registered ch \<longrightarrow> \<not> under_way matches d ed v4 v6 c ch)))"
proof -
  let ?U = "usable canon matches d ed v4 v6" and ?W = "under_way matches d ed v4 v6"
  have idm: "idmap_ok (named (view s)) (channel_identity_map s)" and vn: "view_ok (n_channels_allocated s) (view s)"
    using ok by (simp_all add: channels_ok_def)
  define cs where "cs = (case map_of (channel_identity_map s) d of Some l \<Rightarrow> l | None \<Rightarrow> [])"
  have cs: "c \<in> set cs \<longleftrightarrow> (\<exists>ch. chans s c = Some ch \<and> registered ch \<and> \<not> CHANNEL_CONDEMNED ch \<and> identity_digest ch = d)" for c
  proof -
    have "c \<in> set cs \<longleftrightarrow> named (view s) c d" using idmap_at [OF idm, of c d] by (auto simp: cs_def split: option.splits)
    then show ?thesis using d by (cases "chans s c") (auto simp: named_def view_def view_of_def)
  qed
  have al: "chans s c \<noteq> None" if "c \<in> set cs" for c using cs that by auto
  define ed' where "ed' = (case ed of Some k \<Rightarrow> if ed25519_public_key_is_zero k then None else Some k | None \<Rightarrow> None)"
  obtain dr sf where f: "cs = dr @ sf" "find_matching s d ed' cs = Some sf"
      "\<And>c ch. c \<in> set dr \<Longrightarrow> chans s c = Some ch \<Longrightarrow> \<not> channel_remote_identity_matches ch (Some d) ed'"
    using find_matching_ok [of cs s, OF al] by blast
  have drop: "\<not> ?U c ch \<and> \<not> ?W c ch" if "c \<in> set dr" "chans s c = Some ch" for c ch
    using f(3) [OF that] by (auto simp: usable_def under_way_def identity_matches_iff ed'_def split: option.splits if_splits)
  have find: "channel_find_by_remote_identity d ed s = Some sf"
    using f(2) by (simp add: channel_find_by_remote_identity_def Let_def cs_def ed'_def)
  let ?st0 = "\<lparr>best = None, n_inprogress_goodaddr = 0, n_old = 0, n_noncanonical = 0, used_for_origin = []\<rparr> :: ('a, 'b, 'c) extend_loop_t"
  have at: "\<exists>ch. chans s c = Some ch \<and> identity_digest ch = d \<and> chan_state ch \<noteq> CHANNEL_STATE_LAST" if "c \<in> set sf" for c
  proof -
    have "c \<in> set cs" using that f(1) by simp
    then obtain ch where ch: "chans s c = Some ch" "identity_digest ch = d" using cs [of c] by blast
    then have "view s c = Some (chan_state ch, registered ch, identity_digest ch, reason_for_closing ch, cmux ch)" by (simp add: view_def view_of_def)
    from view_ok_at [OF vn this] ch show ?thesis by blast
  qed
  have "loop_inv canon ?U ?W {} ?st0" by (simp add: loop_inv_def)
  from extend_loop_ok [OF at this, of sf] obtain st where st: "extend_loop canon matches s d ed v4 v6 origin sf ?st0 = Some st"
      "loop_inv canon ?U ?W {(c, ch). c \<in> set sf \<and> chans s c = Some ch} st" by auto
  have sf: "c \<in> set sf" if "chans s c = Some ch" "registered ch" "?U c ch \<or> ?W c ch" for c ch
  proof -
    have "\<not> CHANNEL_CONDEMNED ch" "identity_digest ch = d" using that(3) by (auto simp: usable_def under_way_def condemned_state_def finished_state_def)
    then have "c \<in> set cs" using cs that by blast
    then show ?thesis using f(1) drop [of c ch] that by auto
  qed
  have regd: "registered ch" if "c \<in> set sf" "chans s c = Some ch" for c ch using cs [of c] that f(1) by auto
  show ?thesis
  proof (cases "best st")
    case (Some b)
    obtain c ch where b: "b = (c, ch)" by fastforce
    have g: "channel_get_for_extend canon matches d ed v4 v6 origin s = Some (Some c, MSG_FINE, False, used_for_origin st)"
      using find st(1) Some b by (simp add: channel_get_for_extend_def)
    have bi: "c \<in> set sf" "chans s c = Some ch" "?U c ch"
        "\<And>c' ch'. c' \<in> set sf \<Longrightarrow> chans s c' = Some ch' \<Longrightarrow> ?U c' ch' \<Longrightarrow> \<not> channel_is_better canon (c', ch') (c, ch)"
      using st(2) Some b by (auto simp: loop_inv_def)
    have "\<exists>ch. chans s c = Some ch \<and> registered ch \<and> ?U c ch \<and>
        (\<forall>c' ch'. chans s c' = Some ch' \<longrightarrow> registered ch' \<longrightarrow> ?U c' ch' \<longrightarrow> \<not> channel_is_better canon (c', ch') (c, ch))"
      using bi(4) sf by (intro exI [of _ ch]) (use bi(1-3) regd [of c ch] in blast)
    then show ?thesis using g
      by (intro exI [of _ "Some c"] exI [of _ MSG_FINE] exI [of _ False] exI [of _ "used_for_origin st"]) simp
  next
    case None
    have nu: "\<not> ?U c ch" if "chans s c = Some ch" "registered ch" for c ch
      using st(2) None sf [OF that] that by (auto simp: loop_inv_def)
    have w: "n_inprogress_goodaddr st \<noteq> 0 \<longleftrightarrow> (\<exists>c ch. chans s c = Some ch \<and> registered ch \<and> ?W c ch)"
    proof -
      have "n_inprogress_goodaddr st \<noteq> 0 \<longleftrightarrow> (\<exists>c ch. c \<in> set sf \<and> chans s c = Some ch \<and> ?W c ch)"
        using st(2) by (auto simp: loop_inv_def)
      then show ?thesis using sf regd by blast
    qed
    define msg where "msg = (if n_inprogress_goodaddr st \<noteq> 0 then MSG_IN_PROGRESS
      else if n_old st \<noteq> 0 \<or> n_noncanonical st \<noteq> 0 then MSG_TOO_OLD else MSG_NOT_CONNECTED)"
    define launch where "launch = (n_inprogress_goodaddr st = 0)"
    have g: "channel_get_for_extend canon matches d ed v4 v6 origin s = Some (None, msg, launch, used_for_origin st)"
      using find st(1) None by (simp add: channel_get_for_extend_def msg_def launch_def)
    show ?thesis
      by (intro exI [of _ None] exI [of _ msg] exI [of _ launch] exI [of _ "used_for_origin st"]) (use nu w g launch_def in \<open>simp, blast\<close>)
  qed
qed

text \<open>The first of two channels from a peer is older, the second goes to the address asked for.\<close>

definition twins :: "(nat, nat, nat) registry_t" where
  "twins = the (channel_run quiet_lower [TLS_CONNECT False, TLS_INCOMING True, SET_IDENTITY 1 (Some (replicate 20 7)) None,
     SET_IDENTITY 2 (Some (replicate 20 7)) None, ORCONN_STATE 1 True 5, ORCONN_STATE 2 True 5] no_channels)"

lemma extend_takes_best_witness:
  "\<exists>msg launch marked. channel_get_for_extend (\<lambda>c. False) (\<lambda>c a. c = 2 \<and> a = (9 :: nat)) (replicate 20 7) None (Some 9) None False twins =
      Some (Some 2, msg, launch, marked) \<and> \<not> launch"
proof -
  let ?evs = "[TLS_CONNECT False, TLS_INCOMING True, SET_IDENTITY 1 (Some (replicate 20 7)) None,
     SET_IDENTITY 2 (Some (replicate 20 7)) None, ORCONN_STATE 1 True 5, ORCONN_STATE 2 True 5]"
  have kept: "rules_kept quiet_lower ?evs no_channels" by code_simp
  have n: "unat (n_channels_allocated no_channels) + length ?evs < 2 ^ 64" "card (dom (chans no_channels)) + length ?evs \<le> INT_MAX"
    by (simp_all add: no_channels_def)
  have ok: "channels_ok twins" using channel_run_ok [OF quiet_lower_ok no_channels_ok n kept] by (auto simp: twins_def)
  have r: "map_option fst (channel_get_for_extend (\<lambda>c. False) (\<lambda>c a. c = 2 \<and> a = (9 :: nat)) (replicate 20 7) None (Some 9) None False twins) = Some (Some 2)"
    by code_simp
  have d: "\<not> tor_digest_is_zero (replicate 20 7)" by (simp add: tor_digest_is_zero_def DIGEST_LEN_def)
  show ?thesis
    using extend_takes_best [OF ok d, of "\<lambda>c. False" "\<lambda>c a. c = 2 \<and> a = (9 :: nat)" None "Some 9" None False] r by auto
qed

section \<open>How much room\<close>

lemma sint_small: "uint (w :: u64) < 2 ^ 63 \<Longrightarrow> sint w = uint w"
proof -
  assume "uint w < 2 ^ 63"
  moreover have "- (2 ^ 63) \<le> uint w" by (rule order_trans [of _ 0]) simp_all
  ultimately show ?thesis by (simp add: sint_uint signed_take_bit_int_eq_self)
qed

lemma ceil_div_exact:
  assumes "b = 512 \<or> b = 514" and "uint a + (uint b - 1) < 2 ^ 64"
  shows "sint (CEIL_DIV a b) = (uint a + (uint b - 1)) div uint b"
proof -
  have ub: "uint b = 512 \<or> uint b = 514" using assms(1) by auto
  have ub1: "uint (b - 1) = uint b - 1" using assms(1) by auto
  have "uint (a + (b - 1)) = uint a + (uint b - 1)" using assms(2) ub1 by (simp add: uint_plus_if')
  then have u: "uint (CEIL_DIV a b) = (uint a + (uint b - 1)) div uint b" by (simp add: CEIL_DIV_def uint_div)
  have "(uint a + (uint b - 1)) div uint b < 2 ^ 63" using assms(2) ub by auto
  then show ?thesis using u sint_small [of "CEIL_DIV a b"] by simp
qed

lemma ucast_high: "uint (ucast (w :: u32) :: u64) = uint w"
proof -
  have "uint w < 2 ^ 32" using unsigned_less [of w] by simp
  then have "uint w < 2 ^ 64" by simp
  then show ?thesis by (simp add: unsigned_ucast_eq take_bit_int_eq_self)
qed

text \<open>
  C34. How many cells an open channel takes. While the outbuf is at most at the high-water mark this is the room left,
  counted in cells and rounded up; it is what \<open>connection_or_num_cells_writeable\<close> says too. When the outbuf is over the mark by a
  cell or more, there is no room and the latter says 0; but the channel's method subtracts without a
  sign, and says \<open>INT_MAX\<close>.\<close>

theorem channel_room_exact:
  assumes op: "CHANNEL_IS_OPEN ch" and l62: "uint outbuf_len < 2 ^ 62"
  shows "let high = uint (or_conn_highwatermark g); len = uint outbuf_len; b = (if wide_circ_ids ch then 514 else 512) in
    (len < high \<longrightarrow> channel_num_cells_writeable g outbuf_len ch = (high - len + (b - 1)) div b \<and>
      connection_or_num_cells_writeable g (wide_circ_ids ch) outbuf_len = (high - len + (b - 1)) div b) \<and>
    (high + b \<le> len \<longrightarrow> channel_num_cells_writeable g outbuf_len ch = int INT_MAX \<and>
      connection_or_num_cells_writeable g (wide_circ_ids ch) outbuf_len = 0)"
proof -
  define high len b where "high = uint (or_conn_highwatermark g)" and "len = uint outbuf_len" and "b = (if wide_circ_ids ch then 514 else 512 :: int)"
  note high_def = \<open>high = uint (or_conn_highwatermark g)\<close> and len_def = \<open>len = uint outbuf_len\<close> and b_def = \<open>b = (if wide_circ_ids ch then 514 else 512 :: int)\<close>
  let ?h = "ucast (or_conn_highwatermark g) :: u64"
  let ?b = "get_cell_network_size (wide_circ_ids ch)"
  have h: "uint ?h = high" by (simp add: ucast_high high_def)
  have h32: "high < 2 ^ 32" using unsigned_less [of "or_conn_highwatermark g"] by (simp add: high_def)
  have bb: "?b = 512 \<or> ?b = 514" "uint ?b = b" by (auto simp: get_cell_network_size_def b_def)
  have b: "b = 512 \<or> b = 514" by (simp add: b_def)
  show ?thesis unfolding Let_def high_def [symmetric] len_def [symmetric] b_def [symmetric]
  proof (intro conjI impI)
    assume less: "len < high"
    have d: "uint (?h - outbuf_len) = high - len" using less h by (simp add: uint_sub_if' len_def)
    have len0: "0 \<le> len" by (simp add: len_def)
    have c: "sint (CEIL_DIV (?h - outbuf_len) ?b) = (high - len + (b - 1)) div b"
      using ceil_div_exact [OF bb(1), of "?h - outbuf_len"] d bb(2) b h32 len0 by auto
    have pos: "0 \<le> (high - len + (b - 1)) div b" using less b by (auto intro: pos_imp_zdiv_nonneg_iff [THEN iffD2])
    have small: "(high - len + (b - 1)) div b \<le> int INT_MAX" using b h32 len0 less by auto
    show "channel_num_cells_writeable g outbuf_len ch = (high - len + (b - 1)) div b"
      using op c pos small by (simp add: channel_num_cells_writeable_def channel_tls_num_cells_writeable_method_def Let_def)
    show "connection_or_num_cells_writeable g (wide_circ_ids ch) outbuf_len = (high - len + (b - 1)) div b"
      using c less h by (simp add: connection_or_num_cells_writeable_def word_less_def len_def)
  next
    assume over: "high + b \<le> len"
    have d: "uint (?h - outbuf_len) = high - len + 2 ^ 64" using over h b by (auto simp: uint_sub_if' len_def)
    have c: "sint (CEIL_DIV (?h - outbuf_len) ?b) = (high - len + 2 ^ 64 + (b - 1)) div b"
      using ceil_div_exact [OF bb(1), of "?h - outbuf_len"] d bb(2) b over by auto
    have h0: "0 \<le> high" by (simp add: high_def)
    have "int INT_MAX < (high - len + 2 ^ 64 + (b - 1)) div b" using b l62 [folded len_def] h0 by auto
    then show "channel_num_cells_writeable g outbuf_len ch = int INT_MAX"
      using op c by (simp add: channel_num_cells_writeable_def channel_tls_num_cells_writeable_method_def Let_def)
    show "connection_or_num_cells_writeable g (wide_circ_ids ch) outbuf_len = 0"
      using over h b by (auto simp: connection_or_num_cells_writeable_def word_less_def len_def)
  qed
qed

lemma channel_room_exact_witness:
  "channel_num_cells_writeable (cc_globals_init False False) 100 idle_channel = 64 \<and>
   channel_num_cells_writeable (cc_globals_init False False) 40000 idle_channel = int INT_MAX \<and>
   connection_or_num_cells_writeable (cc_globals_init False False) (wide_circ_ids idle_channel) 40000 = 0"
proof -
  have h: "uint (or_conn_highwatermark (cc_globals_init False False)) = 32768"
    by (simp add: or_conn_highwatermark_def cc_globals_init_def)
  have i: "CHANNEL_IS_OPEN idle_channel" "wide_circ_ids idle_channel" by (simp_all add: idle_channel_def)
  show ?thesis
    using channel_room_exact [OF i(1), of 100 "cc_globals_init False False"] channel_room_exact [OF i(1), of 40000 "cc_globals_init False False"]
    by (simp add: h i(2) Let_def)
qed

end
