(* ===== verification/Cells.thy ===== *)
theory Cells
  imports Channel_Extend Trunnel
begin

text \<open>
  Cells on the wire: packing and unpacking (\<open>src/core/or/connection_or.c\<close>, \<open>relay.c\<close>, \<open>channel.c\<close>), the recognition of
  variable-length cells (\<open>src/core/proto/proto_cell.c\<close>), and the loop that takes cells off the input buffer of a connection.

  A buffer is a list of bytes. Reading beyond its end is \<open>None\<close>. What becomes of a cell that was taken off the buffer
  (\<open>channel_tls_handle_cell\<close>, \<open>channel_tls_handle_var_cell\<close>) is a parameter; it may change the link protocol, as
  a VERSIONS cell does, but not the buffer.
\<close>

section \<open>Cells\<close>

record cell_t =
  cell_circ_id :: u32
  cell_command :: u8
  cell_payload :: bytes

record var_cell_t =
  var_command :: u8
  var_circ_id :: u32
  var_payload :: bytes

record relay_header_t =
  rh_command :: u8
  rh_recognized :: u16
  rh_stream_id :: u16
  rh_integrity :: bytes
  rh_length :: u16

abbreviation CELL_PADDING :: u8 where "CELL_PADDING \<equiv> 0"
abbreviation CELL_DESTROY :: u8 where "CELL_DESTROY \<equiv> 4"
abbreviation CELL_VERSIONS :: u8 where "CELL_VERSIONS \<equiv> 7"
abbreviation VAR_CELL_MAX_HEADER_SIZE :: nat where "VAR_CELL_MAX_HEADER_SIZE \<equiv> 7"
abbreviation MIN_LINK_PROTO_FOR_WIDE_CIRC_IDS :: u16 where "MIN_LINK_PROTO_FOR_WIDE_CIRC_IDS \<equiv> 4"
abbreviation CELL_PAYLOAD_BYTES :: nat where "CELL_PAYLOAD_BYTES \<equiv> 509"

definition get_circ_id_size :: "bool \<Rightarrow> nat" where
  "get_circ_id_size wide = (if wide then 4 else 2)"

definition get_var_cell_header_size :: "bool \<Rightarrow> nat" where
  "get_var_cell_header_size wide = (if wide then VAR_CELL_MAX_HEADER_SIZE else VAR_CELL_MAX_HEADER_SIZE - 2)"

text \<open>A circuit ID is cut to 16 bits on a link with narrow IDs.\<close>

definition put_circid :: "bool \<Rightarrow> u32 \<Rightarrow> bytes" where
  "put_circid wide i = (if wide then put_uint i else put_uint (ucast i :: u16))"

definition get_circid :: "bool \<Rightarrow> u32 parser" where
  "get_circid wide bs = (if wide then get_uint 4 bs else map_option (map_prod (ucast :: u16 \<Rightarrow> u32) id) (get_uint 2 bs))"

section \<open>Packing\<close>

text \<open>The 514 bytes of a packed cell.\<close>

definition cell_pack :: "cell_t \<Rightarrow> bool \<Rightarrow> bytes" where
  "cell_pack src wide =
     (put_circid wide (cell_circ_id src) @ [cell_command src] @ take CELL_PAYLOAD_BYTES (cell_payload src)) @ (if wide then [] else [0, 0])"

definition cell_unpack :: "bytes \<Rightarrow> bool \<Rightarrow> cell_t option" where
  "cell_unpack src wide = do {
     (i, bs1) \<leftarrow> get_circid wide src;
     (command, bs2) \<leftarrow> get_uint8 bs1;
     (payload, _) \<leftarrow> get_bytes CELL_PAYLOAD_BYTES bs2;
     Some \<lparr>cell_circ_id = i, cell_command = command, cell_payload = payload\<rparr>
   }"

definition packed_cell_get_command :: "bytes \<Rightarrow> bool \<Rightarrow> u8" where
  "packed_cell_get_command body wide = (if wide then body ! 4 else body ! 2)"

definition packed_cell_get_circid :: "bytes \<Rightarrow> bool \<Rightarrow> u32 option" where
  "packed_cell_get_circid body wide = map_option fst (get_circid wide body)"

definition packed_cell_is_destroy :: "bool \<Rightarrow> bytes \<Rightarrow> u32 option" where
  "packed_cell_is_destroy wide body =
     (if wide then if body ! 4 = CELL_DESTROY then map_option fst (get_circid True body) else None
      else if body ! 2 = CELL_DESTROY then map_option fst (get_circid False body) else None)"

text \<open>A DESTROY cell is queued as its circuit ID and its reason.\<close>

definition destroy_cell_to_packed_cell :: "u32 \<times> u8 \<Rightarrow> bool \<Rightarrow> bytes" where
  "destroy_cell_to_packed_cell inp wide =
     cell_pack \<lparr>cell_circ_id = fst inp, cell_command = CELL_DESTROY,
       cell_payload = (replicate CELL_PAYLOAD_BYTES 0)[0 := snd inp]\<rparr> wide"

definition var_cell_pack_header :: "var_cell_t \<Rightarrow> bool \<Rightarrow> bytes" where
  "var_cell_pack_header cell wide =
     put_circid wide (var_circ_id cell) @ [var_command cell] @ put_uint (of_nat (length (var_payload cell)) :: u16)"

definition connection_or_write_cell_to_buf :: "cell_t \<Rightarrow> bool \<Rightarrow> bytes \<Rightarrow> bytes" where
  "connection_or_write_cell_to_buf cell wide outbuf = outbuf @ take (unat (get_cell_network_size wide)) (cell_pack cell wide)"

definition connection_or_write_var_cell_to_buf :: "var_cell_t \<Rightarrow> bool \<Rightarrow> bytes \<Rightarrow> bytes" where
  "connection_or_write_var_cell_to_buf cell wide outbuf = (outbuf @ var_cell_pack_header cell wide) @ var_payload cell"

section \<open>Taking cells off a buffer\<close>

definition cell_command_is_var_length :: "u8 \<Rightarrow> u16 \<Rightarrow> bool" where
  "cell_command_is_var_length command linkproto =
     (if linkproto = 1 then False
      else if linkproto = 2 then command = CELL_VERSIONS
      else command = CELL_VERSIONS \<or> command \<ge> 128)"

text \<open>The result, the cell and what is left in the buffer.\<close>

definition fetch_var_cell_from_buf :: "bytes \<Rightarrow> u16 \<Rightarrow> (int \<times> var_cell_t option \<times> bytes) option" where
  "fetch_var_cell_from_buf buf linkproto = do {
     let wide = (linkproto \<ge> MIN_LINK_PROTO_FOR_WIDE_CIRC_IDS);
     let header_len = get_var_cell_header_size wide;
     if length buf < header_len then Some (0, None, buf)
     else do {
       let hdr = take header_len buf;
       (command, hdr1) \<leftarrow> get_uint8 (drop (get_circ_id_size wide) hdr);
       if \<not> cell_command_is_var_length command linkproto then Some (0, None, buf)
       else do {
         (len, _) \<leftarrow> get_uint 2 hdr1;
         let n = unat (len :: u16);
         if length buf < header_len + n then Some (1, None, buf)
         else do {
           (i, _) \<leftarrow> get_circid wide hdr;
           let buf1 = drop header_len buf;
           Some (1, Some \<lparr>var_command = command, var_circ_id = i, var_payload = take n buf1\<rparr>, drop n buf1)
         }
       }
     }
   }"

datatype or_cell = FIXED_CELL cell_t | VAR_CELL var_cell_t

text \<open>One turn of the loop: the next cell and the buffer without it, if the cell is complete.\<close>

definition next_cell :: "u16 \<Rightarrow> bool \<Rightarrow> bytes \<Rightarrow> (or_cell \<times> bytes) option option" where
  "next_cell link_proto wide inbuf = do {
     (r, var_cell, inbuf1) \<leftarrow> fetch_var_cell_from_buf inbuf link_proto;
     if r \<noteq> 0 then Some (map_option (\<lambda>c. (VAR_CELL c, inbuf1)) var_cell)
     else do {
       let cell_network_size = unat (get_cell_network_size wide);
       if length inbuf1 < cell_network_size then Some None
       else do {
         cell \<leftarrow> cell_unpack (take cell_network_size inbuf1) wide;
         Some (Some (FIXED_CELL cell, drop cell_network_size inbuf1))
       }
     }
   }"

text \<open>The loop; its state is that of the handlers, the link protocol and the width of the circuit IDs.\<close>

type_synonym 's or_link_t = "'s \<times> u16 \<times> bool"

partial_function (option) connection_or_process_cells_from_inbuf ::
    "(or_cell \<Rightarrow> 's or_link_t \<Rightarrow> 's or_link_t) \<Rightarrow> 's or_link_t \<Rightarrow> bytes \<Rightarrow> ('s or_link_t \<times> bytes) option" where
  "connection_or_process_cells_from_inbuf handle conn inbuf = do {
     found \<leftarrow> next_cell (fst (snd conn)) (snd (snd conn)) inbuf;
     case found of
       None \<Rightarrow> Some (conn, inbuf)
     | Some (cell, inbuf1) \<Rightarrow> connection_or_process_cells_from_inbuf handle (handle cell conn) inbuf1
   }"

section \<open>Relay headers and addresses\<close>

definition relay_header_pack :: "relay_header_t \<Rightarrow> bytes" where
  "relay_header_pack src =
     [rh_command src] @ put_uint (rh_recognized src) @ put_uint (rh_stream_id src) @ take 4 (rh_integrity src) @ put_uint (rh_length src)"

definition relay_header_unpack :: "bytes \<Rightarrow> relay_header_t option" where
  "relay_header_unpack src = do {
     (command, bs1) \<leftarrow> get_uint8 src;
     (recognized, bs2) \<leftarrow> get_uint 2 bs1;
     (stream_id, bs3) \<leftarrow> get_uint 2 bs2;
     (integrity, bs4) \<leftarrow> get_bytes 4 bs3;
     (len, _) \<leftarrow> get_uint 2 bs4;
     Some \<lparr>rh_command = command, rh_recognized = recognized, rh_stream_id = stream_id, rh_integrity = integrity, rh_length = len\<rparr>
   }"

datatype tor_addr_t = AF_INET bytes | AF_INET6 bytes | AF_UNSPEC

abbreviation RESOLVED_TYPE_IPV4 :: u8 where "RESOLVED_TYPE_IPV4 \<equiv> 4"
abbreviation RESOLVED_TYPE_IPV6 :: u8 where "RESOLVED_TYPE_IPV6 \<equiv> 6"

text \<open>The bytes written, \<open>None\<close> for \<open>-1\<close>.\<close>

definition append_address_to_payload :: "tor_addr_t \<Rightarrow> bytes option" where
  "append_address_to_payload addr =
     (case addr of
        AF_INET a \<Rightarrow> Some ([RESOLVED_TYPE_IPV4, 4] @ take 4 a)
      | AF_INET6 a \<Rightarrow> Some ([RESOLVED_TYPE_IPV6, 16] @ take 16 a)
      | AF_UNSPEC \<Rightarrow> None)"

text \<open>The address and the rest of the payload, \<open>None\<close> for \<open>NULL\<close>.\<close>

definition decode_address_from_payload :: "bytes \<Rightarrow> (tor_addr_t \<times> bytes) option" where
  "decode_address_from_payload payload =
     (if length payload < 2 then None
      else let n = unat (payload ! 1); rest = drop (2 + n) payload; a = take n (drop 2 payload)
           in if length payload < 2 + n then None
              else if payload ! 0 = RESOLVED_TYPE_IPV4 then if n \<noteq> 4 then None else Some (AF_INET a, rest)
              else if payload ! 0 = RESOLVED_TYPE_IPV6 then if n \<noteq> 16 then None else Some (AF_INET6 a, rest)
              else Some (AF_UNSPEC, rest))"

section \<open>Round trips\<close>

definition circid_fits :: "bool \<Rightarrow> u32 \<Rightarrow> bool" where
  "circid_fits wide i \<longleftrightarrow> wide \<or> unat i < 65536"

lemma length_put_circid [simp]: "length (put_circid wide i) = get_circ_id_size wide"
  by (simp add: put_circid_def get_circ_id_size_def)

lemma ucast_back: "unat (i :: u32) < 65536 \<Longrightarrow> ucast (ucast i :: u16) = i"
  by (simp add: word_unat_eq_iff unat_ucast_up unsigned_take_bit_eq unsigned_ucast_eq take_bit_nat_def)

lemma get_put_circid: "circid_fits wide i \<Longrightarrow> get_circid wide (put_circid wide i @ r) = Some (i, r)"
  by (auto simp: get_circid_def put_circid_def circid_fits_def ucast_back)

definition cell_ok :: "bool \<Rightarrow> cell_t \<Rightarrow> bool" where
  "cell_ok wide c \<longleftrightarrow> circid_fits wide (cell_circ_id c) \<and> length (cell_payload c) = CELL_PAYLOAD_BYTES"

lemma length_cell_pack: "cell_ok wide c \<Longrightarrow> length (cell_pack c wide) = CELL_MAX_NETWORK_SIZE"
  by (simp add: cell_ok_def cell_pack_def get_circ_id_size_def)

lemma network_size [simp]: "unat (get_cell_network_size wide) = (if wide then 514 else 512)"
  by (simp add: get_cell_network_size_def)

lemma unpack_pack: "cell_ok wide c \<Longrightarrow> cell_unpack (cell_pack c wide) wide = Some c"
  by (simp add: cell_ok_def cell_unpack_def cell_pack_def get_put_circid)

lemma take_cell_pack:
  "cell_ok wide c \<Longrightarrow> take (unat (get_cell_network_size wide)) (cell_pack c wide) =
    put_circid wide (cell_circ_id c) @ [cell_command c] @ cell_payload c"
  by (simp add: cell_ok_def cell_pack_def get_circ_id_size_def)

lemma unpack_cut: "cell_ok wide c \<Longrightarrow> cell_unpack (put_circid wide (cell_circ_id c) @ [cell_command c] @ cell_payload c) wide = Some c"
  by (simp add: cell_ok_def cell_unpack_def get_put_circid)

lemma packed_fields:
  assumes "cell_ok wide c"
  shows "packed_cell_get_command (cell_pack c wide) wide = cell_command c"
    and "packed_cell_get_circid (cell_pack c wide) wide = Some (cell_circ_id c)"
    and "packed_cell_is_destroy wide (cell_pack c wide) = (if cell_command c = CELL_DESTROY then Some (cell_circ_id c) else None)"
proof -
  show cmd: "packed_cell_get_command (cell_pack c wide) wide = cell_command c"
    by (cases wide) (simp_all add: packed_cell_get_command_def cell_pack_def nth_append get_circ_id_size_def)
  have i: "get_circid wide (cell_pack c wide) = Some (cell_circ_id c, [cell_command c] @ take CELL_PAYLOAD_BYTES (cell_payload c) @ (if wide then [] else [0, 0]))"
    using assms by (simp add: cell_pack_def cell_ok_def get_put_circid)
  then show "packed_cell_get_circid (cell_pack c wide) wide = Some (cell_circ_id c)" by (simp add: packed_cell_get_circid_def)
  show "packed_cell_is_destroy wide (cell_pack c wide) = (if cell_command c = CELL_DESTROY then Some (cell_circ_id c) else None)"
    using cmd i by (cases wide) (auto simp: packed_cell_is_destroy_def packed_cell_get_command_def)
qed

lemma relay_header_round_trip: "length (rh_integrity h) = 4 \<Longrightarrow> relay_header_unpack (relay_header_pack h @ r) = Some h"
  by (simp add: relay_header_unpack_def relay_header_pack_def)

definition addr_ok :: "tor_addr_t \<Rightarrow> bool" where
  "addr_ok addr = (case addr of AF_INET a \<Rightarrow> length a = 4 | AF_INET6 a \<Rightarrow> length a = 16 | AF_UNSPEC \<Rightarrow> False)"

lemma address_round_trip: "addr_ok addr \<Longrightarrow> Option.bind (append_address_to_payload addr) (\<lambda>bs. decode_address_from_payload (bs @ r)) = Some (addr, r)"
  by (auto simp: addr_ok_def append_address_to_payload_def decode_address_from_payload_def Let_def split: tor_addr_t.splits)

section \<open>A stream of cells\<close>

definition link_wide :: "'s or_link_t \<Rightarrow> bool" where "link_wide conn = snd (snd conn)"
definition link_proto :: "'s or_link_t \<Rightarrow> u16" where "link_proto conn = fst (snd conn)"

fun write_cell :: "or_cell \<Rightarrow> bool \<Rightarrow> bytes \<Rightarrow> bytes" where
  "write_cell (FIXED_CELL c) wide outbuf = connection_or_write_cell_to_buf c wide outbuf"
| "write_cell (VAR_CELL c) wide outbuf = connection_or_write_var_cell_to_buf c wide outbuf"

fun cell_fits :: "u16 \<Rightarrow> bool \<Rightarrow> or_cell \<Rightarrow> bool" where
  "cell_fits proto wide (FIXED_CELL c) = (cell_ok wide c \<and> \<not> cell_command_is_var_length (cell_command c) proto)"
| "cell_fits proto wide (VAR_CELL c) = (circid_fits wide (var_circ_id c) \<and> length (var_payload c) < 65536 \<and>
     cell_command_is_var_length (var_command c) proto)"

text \<open>The sender's view of the link changes with the cells as the receiver's does.\<close>

fun may_send :: "(or_cell \<Rightarrow> 's or_link_t \<Rightarrow> 's or_link_t) \<Rightarrow> 's or_link_t \<Rightarrow> or_cell list \<Rightarrow> bool" where
  "may_send handle conn [] = True"
| "may_send handle conn (c # cs) =
     ((link_wide conn \<longleftrightarrow> link_proto conn \<ge> MIN_LINK_PROTO_FOR_WIDE_CIRC_IDS) \<and> cell_fits (link_proto conn) (link_wide conn) c \<and>
      may_send handle (handle c conn) cs)"

fun send_cells :: "(or_cell \<Rightarrow> 's or_link_t \<Rightarrow> 's or_link_t) \<Rightarrow> 's or_link_t \<Rightarrow> or_cell list \<Rightarrow> bytes \<Rightarrow> bytes" where
  "send_cells handle conn [] outbuf = outbuf"
| "send_cells handle conn (c # cs) outbuf = send_cells handle (handle c conn) cs (write_cell c (link_wide conn) outbuf)"

text \<open>The bytes arrive in chunks.\<close>

fun receive_chunks :: "(or_cell \<Rightarrow> 's or_link_t \<Rightarrow> 's or_link_t) \<Rightarrow> 's or_link_t \<Rightarrow> bytes \<Rightarrow> bytes list \<Rightarrow> ('s or_link_t \<times> bytes) option" where
  "receive_chunks handle conn inbuf [] = Some (conn, inbuf)"
| "receive_chunks handle conn inbuf (chunk # chunks) = do {
     (conn1, inbuf1) \<leftarrow> connection_or_process_cells_from_inbuf handle conn (inbuf @ chunk);
     receive_chunks handle conn1 inbuf1 chunks
   }"

lemma write_cell_append: "write_cell c wide outbuf = outbuf @ write_cell c wide []"
  by (cases c) (simp_all add: connection_or_write_cell_to_buf_def connection_or_write_var_cell_to_buf_def)

lemma send_cells_append: "send_cells handle conn cs outbuf = outbuf @ send_cells handle conn cs []"
proof (induction cs arbitrary: conn outbuf)
  case (Cons c cs)
  have "send_cells handle conn (c # cs) outbuf = write_cell c (link_wide conn) outbuf @ send_cells handle (handle c conn) cs []"
    using Cons.IH by (metis send_cells.simps(2))
  moreover have "send_cells handle conn (c # cs) [] = write_cell c (link_wide conn) [] @ send_cells handle (handle c conn) cs []"
    using Cons.IH by (metis send_cells.simps(2))
  ultimately show ?case using write_cell_append [of c "link_wide conn" outbuf] by simp
qed simp

lemma send_cells_Cons: "send_cells handle conn (c # cs) [] = write_cell c (link_wide conn) [] @ send_cells handle (handle c conn) cs []"
  using send_cells_append [of handle "handle c conn" cs "write_cell c (link_wide conn) []"] by simp

lemma send_cells_split:
  "send_cells handle conn (cs @ ds) [] = send_cells handle conn cs [] @ send_cells handle (fold handle cs conn) ds []"
proof (induction cs arbitrary: conn)
  case (Cons c cs)
  then show ?case using send_cells_Cons [of handle conn c] by simp
qed simp

text \<open>What is at the front of a buffer.\<close>

definition cell_head :: "bool \<Rightarrow> or_cell \<Rightarrow> bytes" where
  "cell_head wide c = (case c of FIXED_CELL x \<Rightarrow> put_circid wide (cell_circ_id x) @ [cell_command x]
     | VAR_CELL x \<Rightarrow> var_cell_pack_header x wide)"

lemma length_header: "length (var_cell_pack_header c wide) = get_var_cell_header_size wide"
  by (simp add: var_cell_pack_header_def get_circ_id_size_def get_var_cell_header_size_def)

lemma fetch_fixed:
  assumes "\<not> cell_command_is_var_length (cell_command c) proto" and "wide \<longleftrightarrow> proto \<ge> MIN_LINK_PROTO_FOR_WIDE_CIRC_IDS"
    and "buf = put_circid wide (cell_circ_id c) @ [cell_command c] @ rest" and "length buf \<ge> get_var_cell_header_size wide"
  shows "fetch_var_cell_from_buf buf proto = Some (0, None, buf)"
  using assms by (auto simp: fetch_var_cell_from_buf_def Let_def get_circ_id_size_def get_var_cell_header_size_def)

lemma fetch_var:
  assumes fits: "cell_fits proto wide (VAR_CELL c)" and w: "wide \<longleftrightarrow> proto \<ge> MIN_LINK_PROTO_FOR_WIDE_CIRC_IDS"
    and buf: "buf = var_cell_pack_header c wide @ rest" "length (var_payload c) \<le> length rest \<Longrightarrow> take (length (var_payload c)) rest = var_payload c"
  shows "fetch_var_cell_from_buf buf proto =
    Some (1, if length rest < length (var_payload c) then None else Some c,
      if length rest < length (var_payload c) then buf else drop (length (var_payload c)) rest)"
proof -
  let ?h = "get_var_cell_header_size wide"
  have n: "unat (of_nat (length (var_payload c)) :: u16) = length (var_payload c)"
    using fits by (simp add: unat_of_nat)
  have hdr: "take ?h buf = var_cell_pack_header c wide" "drop ?h buf = rest" "length buf = ?h + length rest"
    unfolding buf(1) using length_header [of c wide] by simp_all
  have cmd: "get_uint8 (drop (get_circ_id_size wide) (var_cell_pack_header c wide)) =
      Some (var_command c, put_uint (of_nat (length (var_payload c)) :: u16))"
    by (simp add: var_cell_pack_header_def)
  have i: "get_circid wide (var_cell_pack_header c wide) = Some (var_circ_id c, [var_command c] @ put_uint (of_nat (length (var_payload c)) :: u16))"
    using fits get_put_circid [of wide "var_circ_id c"] by (simp add: var_cell_pack_header_def)
  show ?thesis
    unfolding fetch_var_cell_from_buf_def w [symmetric] Let_def hdr
    using fits cmd i n buf(2) by simp
qed


text \<open>A complete cell is taken, a beginning of one is left.\<close>

lemma next_complete:
  assumes fits: "cell_fits proto wide c" and w: "wide \<longleftrightarrow> proto \<ge> MIN_LINK_PROTO_FOR_WIDE_CIRC_IDS"
  shows "next_cell proto wide (write_cell c wide [] @ rest) = Some (Some (c, rest))"
proof (cases c)
  case (FIXED_CELL x)
  have x: "cell_ok wide x" "\<not> cell_command_is_var_length (cell_command x) proto" using fits FIXED_CELL by simp_all
  let ?body = "put_circid wide (cell_circ_id x) @ [cell_command x] @ cell_payload x"
  have b: "write_cell c wide [] = ?body" "length ?body = (if wide then 514 else 512)"
    using x(1) by (simp_all add: FIXED_CELL connection_or_write_cell_to_buf_def take_cell_pack del: network_size)
      (simp_all add: cell_ok_def get_circ_id_size_def)
  have f: "fetch_var_cell_from_buf (?body @ rest) proto = Some (0, None, ?body @ rest)"
    by (rule fetch_fixed [OF x(2) w, of _ "cell_payload x @ rest"]) (use b in \<open>cases wide; simp add: get_var_cell_header_size_def get_circ_id_size_def\<close>)+
  have app: "take (length b) (b @ r) = b" "drop (length b) (b @ r) = r" "\<not> length (b @ r) < length b" for b r :: bytes by simp_all
  have n: "unat (get_cell_network_size wide) = length ?body" unfolding b(2) by simp
  have t: "take (unat (get_cell_network_size wide)) (?body @ rest) = ?body" "drop (unat (get_cell_network_size wide)) (?body @ rest) = rest"
      "\<not> length (?body @ rest) < unat (get_cell_network_size wide)"
    unfolding n by (rule app)+
  show ?thesis
    unfolding next_cell_def b(1) f Option.bind.bind_lunit Let_def prod.case using t unpack_cut [OF x(1)] FIXED_CELL by simp
next
  case (VAR_CELL x)
  have b: "write_cell c wide [] @ rest = var_cell_pack_header x wide @ var_payload x @ rest"
    by (simp add: VAR_CELL connection_or_write_var_cell_to_buf_def)
  show ?thesis
    using fetch_var [OF _ w b] fits VAR_CELL by (simp add: next_cell_def)
qed

lemma next_partial:
  assumes fits: "cell_fits proto wide c" and w: "wide \<longleftrightarrow> proto \<ge> MIN_LINK_PROTO_FOR_WIDE_CIRC_IDS"
    and buf: "buf @ missing = write_cell c wide []" "missing \<noteq> []"
  shows "next_cell proto wide buf = Some None"
proof (cases c)
  case (FIXED_CELL x)
  have x: "cell_ok wide x" "\<not> cell_command_is_var_length (cell_command x) proto" using fits FIXED_CELL by simp_all
  let ?body = "put_circid wide (cell_circ_id x) @ [cell_command x] @ cell_payload x"
  have b: "buf @ missing = ?body" "length ?body = (if wide then 514 else 512)"
    using x(1) buf(1) by (simp_all add: FIXED_CELL connection_or_write_cell_to_buf_def take_cell_pack del: network_size)
      (simp_all add: cell_ok_def get_circ_id_size_def)
  have short: "length buf < unat (get_cell_network_size wide)"
    using arg_cong [OF b(1), of length] b(2) buf(2) by (cases missing) (simp_all split: if_splits)
  have "fetch_var_cell_from_buf buf proto = Some (0, None, buf)"
  proof (cases "length buf < get_var_cell_header_size wide")
    case True
    then show ?thesis using w by (simp add: fetch_var_cell_from_buf_def Let_def)
  next
    case False
    have "buf = take (length buf) ?body" using b(1) by (metis append_eq_conv_conj)
    then have "buf = put_circid wide (cell_circ_id x) @ [cell_command x] @ take (length buf - get_circ_id_size wide - 1) (cell_payload x)"
      using False by (simp add: get_var_cell_header_size_def get_circ_id_size_def take_Cons' split: if_splits)
    then show ?thesis using False by (intro fetch_fixed [OF x(2) w]) simp_all
  qed
  then show ?thesis using short by (simp add: next_cell_def Let_def)
next
  case (VAR_CELL x)
  have b: "buf @ missing = var_cell_pack_header x wide @ var_payload x"
    using buf(1) by (simp add: VAR_CELL connection_or_write_var_cell_to_buf_def)
  show ?thesis
  proof (cases "length buf < get_var_cell_header_size wide")
    case True
    then have "fetch_var_cell_from_buf buf proto = Some (0, None, buf)" using w by (simp add: fetch_var_cell_from_buf_def Let_def)
    then show ?thesis using True by (simp add: next_cell_def Let_def get_var_cell_header_size_def split: if_splits)
  next
    case False
    define rest where "rest = drop (get_var_cell_header_size wide) buf"
    have t: "take (get_var_cell_header_size wide) (buf @ missing) = var_cell_pack_header x wide"
      "drop (get_var_cell_header_size wide) (buf @ missing) = var_payload x" unfolding b using length_header [of x wide] by simp_all
    have "take (get_var_cell_header_size wide) buf = var_cell_pack_header x wide" "rest @ missing = var_payload x"
      using t False by (simp_all add: rest_def)
    then have e: "buf = var_cell_pack_header x wide @ rest" "rest @ missing = var_payload x"
      unfolding rest_def by (metis append_take_drop_id, simp)
    have "length rest < length (var_payload x)" using arg_cong [OF e(2), of length] buf(2) by (cases missing) simp_all
    then show ?thesis using fetch_var [OF _ w e(1)] fits VAR_CELL by (simp add: next_cell_def)
  qed
qed

lemma process_unfold:
  "connection_or_process_cells_from_inbuf handle conn inbuf =
    Option.bind (next_cell (link_proto conn) (link_wide conn) inbuf)
      (\<lambda>found. case found of None \<Rightarrow> Some (conn, inbuf)
        | Some (cell, inbuf1) \<Rightarrow> connection_or_process_cells_from_inbuf handle (handle cell conn) inbuf1)"
  by (subst connection_or_process_cells_from_inbuf.simps) (simp add: link_proto_def link_wide_def)

lemma next_empty: "next_cell proto wide [] = Some None"
  by (simp add: next_cell_def fetch_var_cell_from_buf_def Let_def get_var_cell_header_size_def)

lemma write_cell_nonempty: "write_cell c wide [] \<noteq> []"
  by (cases c) (auto simp: connection_or_write_cell_to_buf_def connection_or_write_var_cell_to_buf_def var_cell_pack_header_def cell_pack_def get_circ_id_size_def)

text \<open>What was sent splits into what was taken, the beginning of a cell, and what has not arrived.\<close>

definition taken :: "(or_cell \<Rightarrow> 's or_link_t \<Rightarrow> 's or_link_t) \<Rightarrow> 's or_link_t \<Rightarrow> or_cell list \<Rightarrow> or_cell list \<Rightarrow> bytes \<Rightarrow> bytes \<Rightarrow> bool" where
  "taken handle conn ms1 ms2 buf later \<longleftrightarrow>
     buf @ later = send_cells handle (fold handle ms1 conn) ms2 [] \<and>
     (case ms2 of [] \<Rightarrow> True | c # _ \<Rightarrow> length buf < length (write_cell c (link_wide (fold handle ms1 conn)) []))"

lemma process_ok:
  assumes "may_send handle conn cells" and "buf @ later = send_cells handle conn cells []"
  shows "\<exists>ms1 ms2 buf'. cells = ms1 @ ms2 \<and> connection_or_process_cells_from_inbuf handle conn buf = Some (fold handle ms1 conn, buf') \<and>
    taken handle conn ms1 ms2 buf' later"
  using assms
proof (induction cells arbitrary: conn buf)
  case Nil
  then have "connection_or_process_cells_from_inbuf handle conn buf = Some (conn, buf)"
    by (simp add: process_unfold [of handle conn] next_empty)
  then show ?case using Nil by (simp add: taken_def)
next
  case (Cons c cs)
  let ?w = "write_cell c (link_wide conn) []" and ?p = "connection_or_process_cells_from_inbuf handle"
  have fits: "cell_fits (link_proto conn) (link_wide conn) c" "link_wide conn \<longleftrightarrow> link_proto conn \<ge> MIN_LINK_PROTO_FOR_WIDE_CIRC_IDS"
      "may_send handle (handle c conn) cs" using Cons.prems(1) unfolding may_send.simps by blast+
  have all: "buf @ later = ?w @ send_cells handle (handle c conn) cs []" using Cons.prems(2) by (simp only: send_cells_Cons)
  show ?case
  proof (cases "length buf < length ?w")
    case True
    then obtain missing where m: "buf @ missing = ?w" using all by (auto simp: append_eq_append_conv2)
    then have "missing \<noteq> []" using True by auto
    note m = m this
    have "?p conn buf = Some (conn, buf)"
      using next_partial [OF fits(1,2) m] by (simp add: process_unfold [of handle conn])
    moreover have "taken handle conn [] (c # cs) buf later" using True Cons.prems(2) by (simp add: taken_def)
    ultimately show ?thesis using append_Nil [of "c # cs"] by (metis fold.simps(1) id_apply)
  next
    case False
    have "take (length ?w) (buf @ later) = ?w" unfolding all by simp
    then obtain rest where b: "buf = ?w @ rest" using False by (metis append_take_drop_id not_less take_append diff_is_0_eq take_0 append_Nil2)
    have r: "buf = ?w @ rest" "rest @ later = send_cells handle (handle c conn) cs []" using b all by simp_all
    have "?p conn buf = ?p (handle c conn) rest"
      using next_complete [OF fits(1,2), of rest] by (simp add: process_unfold [of handle conn] r(1))
    moreover obtain ms1 ms2 buf' where "cs = ms1 @ ms2" "?p (handle c conn) rest = Some (fold handle ms1 (handle c conn), buf')"
        "taken handle (handle c conn) ms1 ms2 buf' later" using Cons.IH [OF fits(3) r(2)] by blast
    ultimately have "c # cs = (c # ms1) @ ms2 \<and> ?p conn buf = Some (fold handle (c # ms1) conn, buf') \<and> taken handle conn (c # ms1) ms2 buf' later"
      by (simp add: taken_def cong: list.case_cong)
    then show ?thesis by blast
  qed
qed

lemma may_send_rest: "may_send handle conn (ms1 @ ms2) \<Longrightarrow> may_send handle (fold handle ms1 conn) ms2"
  by (induction ms1 arbitrary: conn) simp_all

lemma receive_ok:
  assumes "may_send handle conn cells" and "buf @ concat chunks @ later = send_cells handle conn cells []"
    and "taken handle conn [] cells buf (concat chunks @ later)"
  shows "\<exists>ms1 ms2 buf'. cells = ms1 @ ms2 \<and> receive_chunks handle conn buf chunks = Some (fold handle ms1 conn, buf') \<and>
    taken handle conn ms1 ms2 buf' later"
  using assms
proof (induction chunks arbitrary: cells conn buf)
  case Nil
  then show ?case by (intro exI [of _ "[]"] exI [of _ cells] exI [of _ buf]) simp
next
  case (Cons chunk chunks)
  from process_ok [OF Cons.prems(1), of "buf @ chunk" "concat chunks @ later"] Cons.prems(2) obtain ms1 ms2 buf1 where
    1: "cells = ms1 @ ms2" "connection_or_process_cells_from_inbuf handle conn (buf @ chunk) = Some (fold handle ms1 conn, buf1)"
      "taken handle conn ms1 ms2 buf1 (concat chunks @ later)" by auto
  have 2: "may_send handle (fold handle ms1 conn) ms2" using Cons.prems(1) 1(1) by (simp add: may_send_rest)
  have "buf1 @ concat chunks @ later = send_cells handle (fold handle ms1 conn) ms2 []"
      "taken handle (fold handle ms1 conn) [] ms2 buf1 (concat chunks @ later)" using 1(3) by (simp_all add: taken_def cong: list.case_cong)
  from Cons.IH [OF 2 this] obtain ms3 ms4 buf2 where
    3: "ms2 = ms3 @ ms4" "receive_chunks handle (fold handle ms1 conn) buf1 chunks = Some (fold handle ms3 (fold handle ms1 conn), buf2)"
      "taken handle (fold handle ms1 conn) ms3 ms4 buf2 later" by blast
  then have "cells = (ms1 @ ms3) @ ms4 \<and> receive_chunks handle conn buf (chunk # chunks) = Some (fold handle (ms1 @ ms3) conn, buf2) \<and>
      taken handle conn (ms1 @ ms3) ms4 buf2 later" using 1 by (simp add: taken_def cong: list.case_cong)
  then show ?case by blast
qed

text \<open>
  C38. Cells cross a link whole, in order and without delay. Fixed-length and variable-length cells, written to the buffer of
  the sender as they come and cut into chunks anywhere on the way, are taken off the buffer of the receiver exactly as they were: after any
  chunks, the cells handled are a prefix of the cells sent, the rest of the buffer is less than the next cell, and when everything has
  arrived, every cell has been handled and the buffer is empty. The handling of a cell may change the link protocol and with it the
  width of circuit IDs, as long as the sender changes it at the same cell.
\<close>

theorem cells_cross_link:
  assumes "may_send handle conn cells" and "concat chunks @ later = send_cells handle conn cells []"
  shows "\<exists>ms1 ms2 inbuf. cells = ms1 @ ms2 \<and> receive_chunks handle conn [] chunks = Some (fold handle ms1 conn, inbuf) \<and>
    inbuf @ later = send_cells handle (fold handle ms1 conn) ms2 [] \<and>
    (\<forall>c ms3. ms2 = c # ms3 \<longrightarrow> length inbuf < length (write_cell c (link_wide (fold handle ms1 conn)) [])) \<and>
    (later = [] \<longrightarrow> ms1 = cells \<and> inbuf = [])"
proof -
  have "taken handle conn [] cells [] (concat chunks @ later)"
    using assms(2) write_cell_nonempty by (simp add: taken_def split: list.split)
  from receive_ok [OF assms(1) _ this] assms(2) obtain ms1 ms2 inbuf where
    r: "cells = ms1 @ ms2" "receive_chunks handle conn [] chunks = Some (fold handle ms1 conn, inbuf)" "taken handle conn ms1 ms2 inbuf later"
    by auto
  have "ms2 = []" if "later = []"
  proof (cases ms2)
    case (Cons c ms3)
    have e: "inbuf @ later = send_cells handle (fold handle ms1 conn) ms2 []" "length inbuf < length (write_cell c (link_wide (fold handle ms1 conn)) [])"
      using r(3) Cons by (simp_all add: taken_def)
    show ?thesis using arg_cong [OF e(1), of length] e(2) that unfolding Cons send_cells_Cons by simp
  qed
  then have "later = [] \<longrightarrow> ms1 = cells \<and> inbuf = []" using r by (auto simp: taken_def)
  moreover have "\<forall>c ms3. ms2 = c # ms3 \<longrightarrow> length inbuf < length (write_cell c (link_wide (fold handle ms1 conn)) [])"
    using r(3) by (simp add: taken_def split: list.splits)
  ultimately show ?thesis using r unfolding taken_def by blast
qed

text \<open>A VERSIONS cell, and a cell with a wide circuit ID after it, in three chunks.\<close>

definition note_versions :: "or_cell \<Rightarrow> nat or_link_t \<Rightarrow> nat or_link_t" where
  "note_versions c conn = (case c of
      VAR_CELL v \<Rightarrow> if var_command v = CELL_VERSIONS then (fst conn + 1, 5, True) else (fst conn + 1, snd conn)
    | FIXED_CELL _ \<Rightarrow> (fst conn + 1, snd conn))"

definition some_cells :: "or_cell list" where
  "some_cells = [VAR_CELL \<lparr>var_command = CELL_VERSIONS, var_circ_id = 0, var_payload = [0, 4, 0, 5]\<rparr>,
     FIXED_CELL \<lparr>cell_circ_id = 2147483649, cell_command = CELL_DESTROY, cell_payload = replicate 509 3\<rparr>]"

theorem cells_cross_link_witness:
  "\<exists>inbuf. receive_chunks note_versions (0, 0, False) [] [[0, 0, 7], [0, 4, 0, 4, 0, 5, 128], [0, 0, 1, 4] @ replicate 509 3] = Some ((2, 5, True), inbuf)"
proof -
  define pad where "pad = replicate 509 (3 :: u8)"
  have l: "length pad = 509" by (simp add: pad_def)
  have c: "some_cells = [VAR_CELL \<lparr>var_command = CELL_VERSIONS, var_circ_id = 0, var_payload = [0, 4, 0, 5]\<rparr>,
     FIXED_CELL \<lparr>cell_circ_id = 2147483649, cell_command = CELL_DESTROY, cell_payload = pad\<rparr>]" by (simp only: some_cells_def pad_def)
  have m: "may_send note_versions (0, 0, False) some_cells"
    by (simp add: c l note_versions_def link_wide_def link_proto_def cell_ok_def circid_fits_def cell_command_is_var_length_def)
  have n: "(2 :: nat) = Suc (Suc 0)" "(4 :: nat) = Suc (Suc (Suc (Suc 0)))" by simp_all
  have be: "be_bytes 2 x = [of_nat (x div 256), of_nat x]"
      "be_bytes 4 x = [of_nat (x div 256 div 256 div 256), of_nat (x div 256 div 256), of_nat (x div 256), of_nat x]" for x
    by (simp_all only: n be_bytes.simps append.simps)
  have p: "put_uint (0 :: u16) = [0, 0]" "put_uint (4 :: u16) = [0, 4]" "put_uint (2147483649 :: u32) = [128, 0, 0, 1]"
    by (simp_all add: put_uint_def be)
  have w: "concat [[0, 0, 7], [0, 4, 0, 4, 0, 5, 128], [0, 0, 1, 4] @ pad] @ [] = send_cells note_versions (0, 0, False) some_cells []"
    by (simp add: c l p note_versions_def link_wide_def connection_or_write_cell_to_buf_def connection_or_write_var_cell_to_buf_def
        var_cell_pack_header_def cell_pack_def put_circid_def get_cell_network_size_def)
  have f: "fold note_versions some_cells (0, 0, False) = (2, 5, True)" by (simp add: c note_versions_def)
  from cells_cross_link [OF m w] f show ?thesis unfolding pad_def by auto
qed

end
