(* ===== verification/Circuit_Ids.thy ===== *)
theory Circuit_Ids
  imports Channel
begin

text \<open>
  The circuit IDs in use on each channel (\<open>src/core/or/circuitlist.c\<close>): the table \<open>chan_circid_map\<close> from a channel and
  an ID to the circuit that uses it there, and what it keeps in step: the
  counts of circuits on the channels, the muxes, and the IDs that may not be used again before a
  DESTROY cell has left (placeholders, without a circuit, and the two \<open>delete_pending\<close> flags of a circuit).

  A pointer to an entry of the table is the key of the entry, so that \<open>last_circid_chan_ent\<close>, the cache
  of the last lookup, is dangling when it is a key that is not in the table.
\<close>

section \<open>State\<close>

record chan_circid_circuit_map_t =
  circuit :: "circuit_name option"
  made_placeholder_at :: int

record ('g, 'pd, 'cd) circuits_t = "('g, 'pd, 'cd) registry_t" +
  chan_circid_map :: "mux_key \<Rightarrow> chan_circid_circuit_map_t option"
  last_circid_chan_ent :: "mux_key option"
  n_delete_pending :: "circuit_name set"
  p_delete_pending :: "circuit_name set"

definition set_circ :: "circuit_name \<Rightarrow> (mux_circuit_t \<Rightarrow> mux_circuit_t) \<Rightarrow> ('g, 'pd, 'cd, 'z) registry_t_scheme \<Rightarrow> ('g, 'pd, 'cd, 'z) registry_t_scheme" where
  "set_circ c f s = s\<lparr>circs := (circs s)(c := f (circs s c))\<rparr>"

section \<open>The mux\<close>

text \<open>What an operation on a mux that was given a channel does to the state.\<close>

definition on_cmux ::
    "chan_ref \<Rightarrow> (('g, 'pd, 'cd) circuitmux_t \<Rightarrow> ('g, 'pd, 'cd) circuitmux_t option) \<Rightarrow> ('g, 'pd, 'cd, 'z) registry_t_scheme
      \<Rightarrow> ('g, 'pd, 'cd, 'z) registry_t_scheme option" where
  "on_cmux chan f s = do {
     ch \<leftarrow> chans s chan;
     mux \<leftarrow> cmux ch;
     mux1 \<leftarrow> f mux;
     Some (set_cmux chan (Some mux1) s)
   }"

definition update_circuit_on_cmux :: "circuit_name \<Rightarrow> cell_direction_t \<Rightarrow> ('g, 'pd, 'cd, 'z) registry_t_scheme \<Rightarrow> ('g, 'pd, 'cd, 'z) registry_t_scheme option" where
  "update_circuit_on_cmux c dir s = do {
     let circ = circs s c;
     if dir = CELL_DIRECTION_IN \<and> is_origin circ then None
     else do {
       chan \<leftarrow> (if dir = CELL_DIRECTION_OUT then n_chan circ else p_chan circ);
       ch \<leftarrow> chans s chan;
       mux \<leftarrow> cmux ch;
       attached \<leftarrow> circuitmux_is_circuit_attached mux circ;
       if \<not> attached then Some s
       else if circuitmux_attached_circuit_direction mux circ \<noteq> Some dir then None
       else on_cmux chan (circuitmux_set_num_cells (policy_globals s) c circ
              (of_int (if dir = CELL_DIRECTION_OUT then n_chan_cells_n circ else p_chan_cells_n circ))) s
     }
   }"

section \<open>Using an ID\<close>

definition circuit_chan :: "cell_direction_t \<Rightarrow> mux_circuit_t \<Rightarrow> u64 option" where
  "circuit_chan dir circ = (if dir = CELL_DIRECTION_OUT then n_chan circ else p_chan circ)"

definition circuit_circ_id :: "cell_direction_t \<Rightarrow> mux_circuit_t \<Rightarrow> u32" where
  "circuit_circ_id dir circ = (if dir = CELL_DIRECTION_OUT then n_circ_id circ else p_circ_id circ)"

definition put_circid_chan :: "cell_direction_t \<Rightarrow> u32 \<Rightarrow> u64 option \<Rightarrow> mux_circuit_t \<Rightarrow> mux_circuit_t" where
  "put_circid_chan dir i chan circ =
     (if dir = CELL_DIRECTION_OUT then circ\<lparr>n_chan := chan, n_circ_id := i, n_chan_attached := (chan \<noteq> None)\<rparr> else circ\<lparr>p_chan := chan, p_circ_id := i\<rparr>)"

definition add_num_circuits :: "cell_direction_t \<Rightarrow> u32 \<Rightarrow> ('g, 'pd, 'cd) channel_t \<Rightarrow> ('g, 'pd, 'cd) channel_t" where
  "add_num_circuits dir d ch =
     (if dir = CELL_DIRECTION_OUT then ch\<lparr>num_n_circuits := num_n_circuits ch + d\<rparr> else ch\<lparr>num_p_circuits := num_p_circuits ch + d\<rparr>)"

text \<open>Leaving the old channel and ID, and taking the new ones.\<close>

definition leave_circid_chan ::
    "circuit_name \<Rightarrow> cell_direction_t \<Rightarrow> u32 \<Rightarrow> u64 option \<Rightarrow> ('g, 'pd, 'cd, 'z) circuits_t_scheme \<Rightarrow> ('g, 'pd, 'cd, 'z) circuits_t_scheme option" where
  "leave_circid_chan c dir i chan s =
     (let circ = circs s c; old_id = circuit_circ_id dir circ in
      case circuit_chan dir circ of
        None \<Rightarrow> Some s
      | Some old_chan \<Rightarrow> do {
          s1 \<leftarrow> (if old_id \<noteq> 0 \<and> (chan \<noteq> Some old_chan \<or> old_id \<noteq> i) \<and> \<not> marked_for_close circ
                  then on_cmux old_chan (circuitmux_detach_circuit (policy_globals s) c circ) s else Some s);
          if chan_circid_map s1 (old_chan, old_id) \<noteq> None
          then if chans s1 old_chan = None then None
               else Some (set_chan old_chan (add_num_circuits dir (-1))
                      (s1\<lparr>chan_circid_map := (chan_circid_map s1)((old_chan, old_id) := None)\<rparr>))
          else Some s1
        })"

definition take_circid_chan ::
    "circuit_name \<Rightarrow> cell_direction_t \<Rightarrow> u32 \<Rightarrow> u64 \<Rightarrow> u64 option \<Rightarrow> u32 \<Rightarrow> ('g, 'pd, 'cd, 'z) circuits_t_scheme \<Rightarrow> ('g, 'pd, 'cd, 'z) circuits_t_scheme option" where
  "take_circid_chan c dir i chan old_chan old_id s = do {
     let s1 = s\<lparr>chan_circid_map := (chan_circid_map s)((chan, i) \<mapsto> \<lparr>circuit = Some c, made_placeholder_at = 0\<rparr>)\<rparr>;
     let circ = circs s1 c;
     let attach = (i \<noteq> 0 \<and> (old_chan \<noteq> Some chan \<or> old_id \<noteq> i) \<and> \<not> marked_for_close circ);
     let make_active = ((if dir = CELL_DIRECTION_OUT then n_chan_cells_n circ else p_chan_cells_n circ) > 0);
     s2 \<leftarrow> (if attach then on_cmux chan (circuitmux_attach_circuit (policy_globals s1) c circ dir) s1 else Some s1);
     s3 \<leftarrow> (if make_active \<and> attach then update_circuit_on_cmux c dir s2 else Some s2);
     if chans s3 chan = None then None else Some (set_chan chan (add_num_circuits dir 1) s3)
   }"

definition circuit_set_circid_chan_helper ::
    "circuit_name \<Rightarrow> cell_direction_t \<Rightarrow> u32 \<Rightarrow> u64 option \<Rightarrow> ('g, 'pd, 'cd, 'z) circuits_t_scheme \<Rightarrow> ('g, 'pd, 'cd, 'z) circuits_t_scheme option" where
  "circuit_set_circid_chan_helper c dir i chan s =
     (let circ = circs s c; old_chan = circuit_chan dir circ; old_id = circuit_circ_id dir circ in
      if dir = CELL_DIRECTION_IN \<and> is_origin circ then None
      else if i = old_id \<and> chan = old_chan then Some s
      else do {
        let s1 = (case last_circid_chan_ent s of
                    Some e \<Rightarrow> if old_chan = Some (fst e) \<and> old_id = snd e \<or> chan = Some (fst e) \<and> i = snd e
                              then s\<lparr>last_circid_chan_ent := None\<rparr> else s
                  | None \<Rightarrow> s);
        s2 \<leftarrow> leave_circid_chan c dir i chan s1;
        let s3 = set_circ c (put_circid_chan dir i chan) s2;
        case chan of None \<Rightarrow> Some s3 | Some ch \<Rightarrow> take_circid_chan c dir i ch old_chan old_id s3
      })"

section \<open>Finding the circuit\<close>

text \<open>The circuit, whether there is an entry, and the new cache.\<close>

definition circuit_get_by_circid_channel_impl ::
    "u32 \<Rightarrow> u64 \<Rightarrow> ('g, 'pd, 'cd, 'z) circuits_t_scheme \<Rightarrow> (circuit_name option \<times> bool \<times> ('g, 'pd, 'cd, 'z) circuits_t_scheme) option" where
  "circuit_get_by_circid_channel_impl circ_id chan s =
     (if last_circid_chan_ent s = Some (chan, circ_id)
      then map_option (\<lambda>found. (circuit found, True, s)) (chan_circid_map s (chan, circ_id))
      else (let found = chan_circid_map s (chan, circ_id)
            in Some (Option.bind found circuit, found \<noteq> None,
                     s\<lparr>last_circid_chan_ent := (if found \<noteq> None then Some (chan, circ_id) else None)\<rparr>)))"

definition circuit_get_by_circid_channel ::
    "u32 \<Rightarrow> u64 \<Rightarrow> ('g, 'pd, 'cd, 'z) circuits_t_scheme \<Rightarrow> (circuit_name option \<times> ('g, 'pd, 'cd, 'z) circuits_t_scheme) option" where
  "circuit_get_by_circid_channel circ_id chan s = do {
     (circ, _, s1) \<leftarrow> circuit_get_by_circid_channel_impl circ_id chan s;
     Some (case circ of Some c \<Rightarrow> if marked_for_close (circs s1 c) then None else Some c | None \<Rightarrow> None, s1)
   }"

definition circuit_get_by_circid_channel_even_if_marked ::
    "u32 \<Rightarrow> u64 \<Rightarrow> ('g, 'pd, 'cd, 'z) circuits_t_scheme \<Rightarrow> (circuit_name option \<times> ('g, 'pd, 'cd, 'z) circuits_t_scheme) option" where
  "circuit_get_by_circid_channel_even_if_marked circ_id chan s = do {
     (circ, _, s1) \<leftarrow> circuit_get_by_circid_channel_impl circ_id chan s;
     Some (circ, s1)
   }"

definition circuit_id_in_use_on_channel ::
    "u32 \<Rightarrow> u64 \<Rightarrow> ('g, 'pd, 'cd, 'z) circuits_t_scheme \<Rightarrow> (int \<times> ('g, 'pd, 'cd, 'z) circuits_t_scheme) option" where
  "circuit_id_in_use_on_channel circ_id chan s = do {
     (circ, found, s1) \<leftarrow> circuit_get_by_circid_channel_impl circ_id chan s;
     Some (if circ \<noteq> None then 1 else if found then 2 else 0, s1)
   }"

definition circuit_id_when_marked_unusable_on_channel :: "u32 \<Rightarrow> u64 \<Rightarrow> ('g, 'pd, 'cd, 'z) circuits_t_scheme \<Rightarrow> int" where
  "circuit_id_when_marked_unusable_on_channel circ_id chan s =
     (case chan_circid_map s (chan, circ_id) of
        None \<Rightarrow> 0
      | Some found \<Rightarrow> if circuit found \<noteq> None then 0 else made_placeholder_at found)"

section \<open>IDs that wait for a DESTROY cell\<close>

definition channel_mark_circid_unusable :: "u64 \<Rightarrow> u32 \<Rightarrow> ('g, 'pd, 'cd, 'z) circuits_t_scheme \<Rightarrow> ('g, 'pd, 'cd, 'z) circuits_t_scheme" where
  "channel_mark_circid_unusable chan i s =
     (case chan_circid_map s (chan, i) of
        Some ent \<Rightarrow>
          if circuit ent \<noteq> None then s
          else if made_placeholder_at ent = 0
          then s\<lparr>chan_circid_map := (chan_circid_map s)((chan, i) \<mapsto> ent\<lparr>made_placeholder_at := time_now s\<rparr>)\<rparr> else s
      | None \<Rightarrow> s\<lparr>chan_circid_map := (chan_circid_map s)((chan, i) \<mapsto> \<lparr>circuit = None, made_placeholder_at = time_now s\<rparr>)\<rparr>)"

text \<open>An entry with a circuit is taken out too, and then the cache is left alone.\<close>

definition channel_mark_circid_usable :: "u64 \<Rightarrow> u32 \<Rightarrow> ('g, 'pd, 'cd, 'z) circuits_t_scheme \<Rightarrow> ('g, 'pd, 'cd, 'z) circuits_t_scheme" where
  "channel_mark_circid_usable chan i s =
     (case chan_circid_map s (chan, i) of
        None \<Rightarrow> s
      | Some ent \<Rightarrow>
          let s1 = s\<lparr>chan_circid_map := (chan_circid_map s)((chan, i) := None)\<rparr>
          in if circuit ent \<noteq> None then s1
             else if last_circid_chan_ent s1 = Some (chan, i) then s1\<lparr>last_circid_chan_ent := None\<rparr> else s1)"

text \<open>The flag of the circuit that uses the ID.\<close>

definition set_delete_pending ::
    "bool \<Rightarrow> u64 \<Rightarrow> u32 \<Rightarrow> circuit_name \<Rightarrow> ('g, 'pd, 'cd, 'z) circuits_t_scheme \<Rightarrow> ('g, 'pd, 'cd, 'z) circuits_t_scheme option" where
  "set_delete_pending b chan i c s =
     (let circ = circs s c; put = (\<lambda>A. if b then insert c A else A - {c}) in
      if n_chan circ = Some chan \<and> n_circ_id circ = i then Some (s\<lparr>n_delete_pending := put (n_delete_pending s)\<rparr>)
      else if is_origin circ then None
      else if p_chan circ = Some chan \<and> p_circ_id circ = i then Some (s\<lparr>p_delete_pending := put (p_delete_pending s)\<rparr>)
      else Some s)"

definition channel_note_destroy_pending :: "u64 \<Rightarrow> u32 \<Rightarrow> ('g, 'pd, 'cd, 'z) circuits_t_scheme \<Rightarrow> ('g, 'pd, 'cd, 'z) circuits_t_scheme option" where
  "channel_note_destroy_pending chan i s = do {
     (circ, s1) \<leftarrow> circuit_get_by_circid_channel_even_if_marked i chan s;
     case circ of
       Some c \<Rightarrow> set_delete_pending True chan i c s1
     | None \<Rightarrow> Some (channel_mark_circid_unusable chan i s1)
   }"

definition channel_note_destroy_not_pending :: "u64 \<Rightarrow> u32 \<Rightarrow> ('g, 'pd, 'cd, 'z) circuits_t_scheme \<Rightarrow> ('g, 'pd, 'cd, 'z) circuits_t_scheme option" where
  "channel_note_destroy_not_pending chan i s = do {
     (circ, s1) \<leftarrow> circuit_get_by_circid_channel_even_if_marked i chan s;
     case circ of
       Some c \<Rightarrow> set_delete_pending False chan i c s1
     | None \<Rightarrow> Some (channel_mark_circid_usable chan i s1)
   }"

definition circuit_set_p_circid_chan :: "circuit_name \<Rightarrow> u32 \<Rightarrow> u64 option \<Rightarrow> ('g, 'pd, 'cd, 'z) circuits_t_scheme \<Rightarrow> ('g, 'pd, 'cd, 'z) circuits_t_scheme option" where
  "circuit_set_p_circid_chan c i chan s = do {
     let old_chan = p_chan (circs s c);
     let old_id = p_circ_id (circs s c);
     s1 \<leftarrow> circuit_set_circid_chan_helper c CELL_DIRECTION_IN i chan s;
     Some (case old_chan of
         Some oc \<Rightarrow>
           if c \<in> p_delete_pending s1
           then (channel_mark_circid_unusable oc old_id s1)\<lparr>p_delete_pending := p_delete_pending s1 - {c}\<rparr> else s1
       | None \<Rightarrow> s1)
   }"

definition circuit_set_n_circid_chan :: "circuit_name \<Rightarrow> u32 \<Rightarrow> u64 option \<Rightarrow> ('g, 'pd, 'cd, 'z) circuits_t_scheme \<Rightarrow> ('g, 'pd, 'cd, 'z) circuits_t_scheme option" where
  "circuit_set_n_circid_chan c i chan s = do {
     let old_chan = n_chan (circs s c);
     let old_id = n_circ_id (circs s c);
     s1 \<leftarrow> circuit_set_circid_chan_helper c CELL_DIRECTION_OUT i chan s;
     Some (case old_chan of
         Some oc \<Rightarrow>
           if c \<in> n_delete_pending s1
           then (channel_mark_circid_unusable oc old_id s1)\<lparr>n_delete_pending := n_delete_pending s1 - {c}\<rparr> else s1
       | None \<Rightarrow> s1)
   }"

text \<open>The IDs of the DESTROY cells that will not be sent any more, when the mux goes.\<close>

definition mark_destroyed_circids_usable ::
    "('g, 'pd, 'cd) circuitmux_t \<Rightarrow> u64 \<Rightarrow> ('g, 'pd, 'cd, 'z) circuits_t_scheme \<Rightarrow> ('g, 'pd, 'cd, 'z) circuits_t_scheme" where
  "mark_destroyed_circids_usable mux chan s =
     fold (\<lambda>cell. channel_mark_circid_usable chan (fst cell)) (destroy_cell_queue mux) s"

end
