(* ===== verification/Cell_Queue.thy ===== *)
theory Cell_Queue
  imports Cells Circuit_Ids Flow_Control
begin

text \<open>
  The cell queues of circuits and the way of a cell to the connection (\<open>src/core/or/relay.c\<close>, \<open>channel.c\<close>,
  \<open>channeltls.c\<close>, \<open>src/core/mainloop/connection.c\<close>): queueing a cell on a circuit, blocking and unblocking the streams that feed it,
  flushing the queues of a channel in the order its mux gives, and queueing DESTROY cells.

  The state extends that of the circuit IDs. The list of a queue is in \<open>cell_lists\<close>, its length counter in the circuit. An origin circuit has
  its \<open>p_streams\<close> in \<open>streams\<close>, another one its \<open>n_streams\<close>; a stream is named, and \<open>edges\<close> gives its fields.
  \<open>held_open\<close> are the connections with \<open>hold_open_until_flushed\<close>. What lies outside (the memory of other subsystems and
  their handlers when memory is short, closing a circuit, reading from a stream) is in the record \<open>outside_t\<close>. Cell
  statistics and logs are left out.
\<close>

section \<open>State\<close>

record packed_cell_t =
  packed_body :: bytes
  inserted_timestamp :: u32

type_synonym stream_name = nat

record stream_t =
  stream_id :: u16
  stream_marked_for_close :: bool
  edge :: edge_connection_t

record ('g, 'pd, 'cd) relay_t = "('g, 'pd, 'cd) circuits_t" +
  cell_lists :: "flow \<Rightarrow> packed_cell_t list"
  streams :: "circuit_name \<Rightarrow> stream_name list"
  edges :: "stream_name \<Rightarrow> stream_t"
  conflux :: "circuit_name \<Rightarrow> nat option"
  conflux_sets :: "nat \<Rightarrow> cell_t conflux_t"
  conflux_params :: cfx_params
  cc_global :: cc_globals
  max_circuit_cell_queue_size :: int
  max_circuit_cell_queue_size_out :: int
  stats_n_circ_max_cell_reached :: u64
  stats_n_circ_max_cell_outq_reached :: u64
  dos_circ_max_outq_noted :: "chan_ref option list"
  total_cells_allocated :: u64
  last_time_under_memory_pressure :: int
  oom_stats_n_bytes_removed_dns :: u64
  oom_stats_n_bytes_removed_cell :: u64
  oom_stats_n_bytes_removed_geoip :: u64
  oom_stats_n_bytes_removed_hsdir :: u64
  overload_general_noted :: bool
  outbufs :: "chan_ref \<Rightarrow> bytes"
  held_open :: "chan_ref set"
  coarse_stamp :: u32

record 's outside_t =
  MaxMemInQueues :: u64
  MaxMemInQueues_low_threshold :: u64
  other_allocation :: "'s \<Rightarrow> u64"
  hs_cache_total_allocation :: "'s \<Rightarrow> u64"
  geoip_cache_total_allocation :: "'s \<Rightarrow> u64"
  dns_cache_total_allocation :: "'s \<Rightarrow> u64"
  conflux_total_allocation :: "'s \<Rightarrow> u64"
  hs_cache_handle_oom :: "u64 \<Rightarrow> 's \<Rightarrow> (u64 \<times> 's) option"
  geoip_cache_handle_oom :: "u64 \<Rightarrow> 's \<Rightarrow> (u64 \<times> 's) option"
  dns_cache_handle_oom :: "u64 \<Rightarrow> 's \<Rightarrow> (u64 \<times> 's) option"
  conflux_handle_oom :: "u64 \<Rightarrow> 's \<Rightarrow> (u64 \<times> 's) option"
  circuits_handle_oom :: "u64 \<Rightarrow> 's \<Rightarrow> (u64 \<times> 's) option"
  circuit_mark_for_close :: "circuit_name \<Rightarrow> 's \<Rightarrow> 's option"
  should_read_from_linked :: "'s \<Rightarrow> stream_name \<Rightarrow> bool"
  connection_process_inbuf :: "stream_name \<Rightarrow> 's \<Rightarrow> 's option"

text \<open>\<open>sizeof(packed_cell_t)\<close>, with the link and the padding.\<close>

abbreviation SIZEOF_PACKED_CELL :: "'a::numeral" where "SIZEOF_PACKED_CELL \<equiv> 528"
abbreviation BUF_MAX_LEN :: nat where "BUF_MAX_LEN \<equiv> 2147483646"
abbreviation MEMORY_PRESSURE_INTERVAL :: int where "MEMORY_PRESSURE_INTERVAL \<equiv> 1800"
abbreviation RELAY_CIRC_CELL_QUEUE_SIZE_MIN :: int where "RELAY_CIRC_CELL_QUEUE_SIZE_MIN \<equiv> 50"
abbreviation RELAY_CIRC_CELL_QUEUE_SIZE_MAX :: int where "RELAY_CIRC_CELL_QUEUE_SIZE_MAX \<equiv> INT32_MAX"
abbreviation RELAY_CIRC_CELL_QUEUE_SIZE_DEFAULT :: int where "RELAY_CIRC_CELL_QUEUE_SIZE_DEFAULT \<equiv> 2500"
abbreviation MAX_CELLS_TO_GET_FROM_CIRCUITS_FOR_UNLIMITED :: int where "MAX_CELLS_TO_GET_FROM_CIRCUITS_FOR_UNLIMITED \<equiv> 256"

section \<open>Queues\<close>

definition queue_count :: "cell_direction_t \<Rightarrow> mux_circuit_t \<Rightarrow> int" where
  "queue_count dir circ = (if dir = CELL_DIRECTION_OUT then n_chan_cells_n circ else p_chan_cells_n circ)"

definition put_queue_count :: "cell_direction_t \<Rightarrow> int \<Rightarrow> mux_circuit_t \<Rightarrow> mux_circuit_t" where
  "put_queue_count dir n circ = (if dir = CELL_DIRECTION_OUT then circ\<lparr>n_chan_cells_n := n\<rparr> else circ\<lparr>p_chan_cells_n := n\<rparr>)"

definition set_queue :: "flow \<Rightarrow> packed_cell_t list \<Rightarrow> int \<Rightarrow> ('g, 'pd, 'cd, 'z) relay_t_scheme \<Rightarrow> ('g, 'pd, 'cd, 'z) relay_t_scheme" where
  "set_queue f q n s = set_circ (fst f) (put_queue_count (snd f) n) (s\<lparr>cell_lists := (cell_lists s)(f := q)\<rparr>)"

definition cell_queue_append :: "flow \<Rightarrow> packed_cell_t \<Rightarrow> ('g, 'pd, 'cd, 'z) relay_t_scheme \<Rightarrow> ('g, 'pd, 'cd, 'z) relay_t_scheme" where
  "cell_queue_append f cell s = set_queue f (cell_lists s f @ [cell]) (queue_count (snd f) (circs s (fst f)) + 1) s"

definition packed_cell_copy :: "cell_t \<Rightarrow> bool \<Rightarrow> ('g, 'pd, 'cd, 'z) relay_t_scheme \<Rightarrow> packed_cell_t \<times> ('g, 'pd, 'cd, 'z) relay_t_scheme" where
  "packed_cell_copy cell wide s =
     (\<lparr>packed_body = cell_pack cell wide, inserted_timestamp = 0\<rparr>, s\<lparr>total_cells_allocated := total_cells_allocated s + 1\<rparr>)"

definition cell_queue_append_packed_copy :: "flow \<Rightarrow> cell_t \<Rightarrow> bool \<Rightarrow> ('g, 'pd, 'cd, 'z) relay_t_scheme \<Rightarrow> ('g, 'pd, 'cd, 'z) relay_t_scheme" where
  "cell_queue_append_packed_copy f cell wide s =
     (let (copy, s1) = packed_cell_copy cell wide s
      in cell_queue_append f (copy\<lparr>inserted_timestamp := coarse_stamp s1\<rparr>) s1)"

definition cell_queue_init :: "flow \<Rightarrow> ('g, 'pd, 'cd, 'z) relay_t_scheme \<Rightarrow> ('g, 'pd, 'cd, 'z) relay_t_scheme" where
  "cell_queue_init f s = set_queue f [] 0 s"

definition cell_queue_clear :: "flow \<Rightarrow> ('g, 'pd, 'cd, 'z) relay_t_scheme \<Rightarrow> ('g, 'pd, 'cd, 'z) relay_t_scheme" where
  "cell_queue_clear f s =
     set_queue f [] 0 (s\<lparr>total_cells_allocated := total_cells_allocated s - of_nat (length (cell_lists s f))\<rparr>)"

definition cell_queue_pop :: "flow \<Rightarrow> ('g, 'pd, 'cd, 'z) relay_t_scheme \<Rightarrow> packed_cell_t option \<times> ('g, 'pd, 'cd, 'z) relay_t_scheme" where
  "cell_queue_pop f s =
     (case cell_lists s f of
        [] \<Rightarrow> (None, s)
      | cell # q \<Rightarrow> (Some cell, set_queue f q (queue_count (snd f) (circs s (fst f)) - 1) s))"

definition circuit_is_queue_full :: "('g, 'pd, 'cd, 'z) relay_t_scheme \<Rightarrow> circuit_name \<Rightarrow> cell_direction_t \<Rightarrow> bool option" where
  "circuit_is_queue_full s c dir =
     (if dir = CELL_DIRECTION_IN \<and> is_origin (circs s c) then None
      else Some (queue_count dir (circs s c) \<ge> cell_queue_highwatermark (cc_global s)))"

section \<open>Memory\<close>

definition cell_queues_get_total_allocation :: "('g, 'pd, 'cd, 'z) relay_t_scheme \<Rightarrow> u64" where
  "cell_queues_get_total_allocation s = total_cells_allocated s * SIZEOF_PACKED_CELL"

text \<open>One subsystem is cut to a tenth of the limit when it has more than a fifth of it. \<open>alloc\<close> is threaded through.\<close>

definition oom_share ::
    "'s outside_t \<Rightarrow> u64 \<Rightarrow> (u64 \<Rightarrow> 's \<Rightarrow> (u64 \<times> 's) option) \<Rightarrow> (u64 \<Rightarrow> 's \<Rightarrow> 's) \<Rightarrow> u64 \<times> 's \<Rightarrow> (u64 \<times> 's) option" where
  "oom_share X used handle_oom note = (\<lambda>(alloc, s).
     if used > MaxMemInQueues X div 5
     then do {
       (removed, s1) \<leftarrow> handle_oom (used - MaxMemInQueues X div 10) s;
       Some (alloc - removed, note removed s1)
     }
     else Some (alloc, s))"

definition cell_queues_check_size ::
    "('g, 'pd, 'cd, 'z) relay_t_scheme outside_t \<Rightarrow> ('g, 'pd, 'cd, 'z) relay_t_scheme \<Rightarrow> (bool \<times> ('g, 'pd, 'cd, 'z) relay_t_scheme) option" where
  "cell_queues_check_size X s =
     (let hs = hs_cache_total_allocation X s; geoip = geoip_cache_total_allocation X s;
          dns = dns_cache_total_allocation X s; cfx = conflux_total_allocation X s;
          alloc = cell_queues_get_total_allocation s + other_allocation X s + hs + geoip + dns + cfx
      in if alloc \<ge> MaxMemInQueues_low_threshold X
         then let s1 = s\<lparr>last_time_under_memory_pressure := time_now s\<rparr>
              in if alloc \<ge> MaxMemInQueues X
                 then do {
                   (alloc1, s2) \<leftarrow> oom_share X hs (hs_cache_handle_oom X)
                     (\<lambda>r s. s\<lparr>oom_stats_n_bytes_removed_hsdir := oom_stats_n_bytes_removed_hsdir s + r\<rparr>)
                     (alloc, s1\<lparr>overload_general_noted := True\<rparr>);
                   (alloc2, s3) \<leftarrow> oom_share X geoip (geoip_cache_handle_oom X)
                     (\<lambda>r s. s\<lparr>oom_stats_n_bytes_removed_geoip := oom_stats_n_bytes_removed_geoip s + r\<rparr>) (alloc1, s2);
                   (alloc3, s4) \<leftarrow> oom_share X dns (dns_cache_handle_oom X)
                     (\<lambda>r s. s\<lparr>oom_stats_n_bytes_removed_dns := oom_stats_n_bytes_removed_dns s + r\<rparr>) (alloc2, s3);
                   (alloc4, s5) \<leftarrow> oom_share X cfx (conflux_handle_oom X)
                     (\<lambda>r s. s\<lparr>oom_stats_n_bytes_removed_cell := oom_stats_n_bytes_removed_cell s + r\<rparr>) (alloc3, s4);
                   (removed, s6) \<leftarrow> circuits_handle_oom X alloc4 s5;
                   Some (True, s6\<lparr>oom_stats_n_bytes_removed_cell := oom_stats_n_bytes_removed_cell s6 + removed\<rparr>)
                 }
                 else Some (False, s1)
         else Some (False, s))"

definition have_been_under_memory_pressure :: "('g, 'pd, 'cd, 'z) relay_t_scheme \<Rightarrow> bool" where
  "have_been_under_memory_pressure s \<longleftrightarrow> last_time_under_memory_pressure s + MEMORY_PRESSURE_INTERVAL < time_now s"

section \<open>Limits from the consensus\<close>

definition get_param_max_circuit_cell_queue_size :: "networkstatus option \<Rightarrow> networkstatus option \<Rightarrow> int option" where
  "get_param_max_circuit_cell_queue_size latest ns =
     networkstatus_get_param latest ns ''circ_max_cell_queue_size'' RELAY_CIRC_CELL_QUEUE_SIZE_DEFAULT
       RELAY_CIRC_CELL_QUEUE_SIZE_MIN RELAY_CIRC_CELL_QUEUE_SIZE_MAX"

definition get_param_max_circuit_cell_queue_size_out :: "networkstatus option \<Rightarrow> networkstatus option \<Rightarrow> int option" where
  "get_param_max_circuit_cell_queue_size_out latest ns = do {
     dflt \<leftarrow> get_param_max_circuit_cell_queue_size latest ns;
     networkstatus_get_param latest ns ''circ_max_cell_queue_size_out'' dflt
       RELAY_CIRC_CELL_QUEUE_SIZE_MIN RELAY_CIRC_CELL_QUEUE_SIZE_MAX
   }"

definition relay_consensus_has_changed ::
    "networkstatus option \<Rightarrow> networkstatus \<Rightarrow> ('g, 'pd, 'cd, 'z) relay_t_scheme \<Rightarrow> ('g, 'pd, 'cd, 'z) relay_t_scheme option" where
  "relay_consensus_has_changed latest ns s = do {
     n \<leftarrow> get_param_max_circuit_cell_queue_size latest (Some ns);
     n_out \<leftarrow> get_param_max_circuit_cell_queue_size_out latest (Some ns);
     Some (s\<lparr>max_circuit_cell_queue_size := n, max_circuit_cell_queue_size_out := n_out\<rparr>)
   }"

section \<open>Blocking streams\<close>

definition connection_is_reading :: "edge_connection_t \<Rightarrow> bool" where
  "connection_is_reading conn \<longleftrightarrow> reading_from_linked_conn conn \<or> read_event conn = Some True"

definition put_edge :: "stream_name \<Rightarrow> edge_connection_t \<Rightarrow> ('g, 'pd, 'cd, 'z) relay_t_scheme \<Rightarrow> ('g, 'pd, 'cd, 'z) relay_t_scheme" where
  "put_edge n conn s = s\<lparr>edges := (edges s)(n := (edges s n)\<lparr>edge := conn\<rparr>)\<rparr>"

text \<open>One stream. Starting to read ends with a call of \<open>connection_process_inbuf\<close> when bytes wait.\<close>

definition block_stream ::
    "('g, 'pd, 'cd, 'z) relay_t_scheme outside_t \<Rightarrow> bool \<Rightarrow> u16 \<Rightarrow> stream_name \<Rightarrow> ('g, 'pd, 'cd, 'z) relay_t_scheme \<Rightarrow> ('g, 'pd, 'cd, 'z) relay_t_scheme option" where
  "block_stream X block sid n s =
     (let st = edges s n; conn = edge st in
      if sid \<noteq> 0 \<and> stream_id st \<noteq> sid then Some s
      else if read_event conn = None \<or> xoff_received conn \<or> stream_marked_for_close st then Some s
      else if block
      then Some (if connection_is_reading conn then put_edge n (connection_stop_reading conn) s else s)
      else if connection_is_reading conn then Some s
      else let (conn1, effects) = connection_start_reading (should_read_from_linked X s n) conn; s1 = put_edge n conn1 s
           in if PROCESS_INBUF \<in> set effects then connection_process_inbuf X n s1 else Some s1)"

fun block_streams ::
    "('g, 'pd, 'cd, 'z) relay_t_scheme outside_t \<Rightarrow> bool \<Rightarrow> u16 \<Rightarrow> stream_name list \<Rightarrow> ('g, 'pd, 'cd, 'z) relay_t_scheme \<Rightarrow> ('g, 'pd, 'cd, 'z) relay_t_scheme option" where
  "block_streams X block sid [] s = Some s"
| "block_streams X block sid (n # ns) s = Option.bind (block_stream X block sid n s) (block_streams X block sid ns)"

text \<open>Whether the conflux set of a circuit lets its streams be switched; looking at it may change the set.\<close>

definition conflux_agrees :: "bool \<Rightarrow> circuit_name \<Rightarrow> ('g, 'pd, 'cd, 'z) relay_t_scheme \<Rightarrow> (bool \<times> ('g, 'pd, 'cd, 'z) relay_t_scheme) option" where
  "conflux_agrees block c s =
     (case conflux s c of
        None \<Rightarrow> Some (True, s)
      | Some i \<Rightarrow> do {
          (can_send, cfx) \<leftarrow> conflux_can_send (conflux_params s) (circuit_t.truncate \<circ> circs s) (conflux_sets s i);
          Some (block \<noteq> can_send, s\<lparr>conflux_sets := (conflux_sets s)(i := cfx)\<rparr>)
        })"

definition set_block_state_for_streams ::
    "('g, 'pd, 'cd, 'z) relay_t_scheme outside_t \<Rightarrow> circuit_name \<Rightarrow> stream_name list \<Rightarrow> bool \<Rightarrow> u16 \<Rightarrow> ('g, 'pd, 'cd, 'z) relay_t_scheme
      \<Rightarrow> ('g, 'pd, 'cd, 'z) relay_t_scheme option" where
  "set_block_state_for_streams X c stream_list block sid s = do {
     (agrees, s1) \<leftarrow> conflux_agrees block c s;
     if agrees then block_streams X block sid stream_list s1 else Some s1
   }"

definition set_circuit_blocked_on_chan ::
    "('g, 'pd, 'cd, 'z) relay_t_scheme outside_t \<Rightarrow> circuit_name \<Rightarrow> chan_ref \<Rightarrow> bool \<Rightarrow> ('g, 'pd, 'cd, 'z) relay_t_scheme \<Rightarrow> ('g, 'pd, 'cd, 'z) relay_t_scheme option" where
  "set_circuit_blocked_on_chan X c chan block s =
     (if n_chan (circs s c) = Some chan
      then set_block_state_for_streams X c (if is_origin (circs s c) then streams s c else []) block 0
        (set_circ c (\<lambda>circ. circ\<lparr>circuit_blocked_on_n_chan := block\<rparr>) s)
      else if is_origin (circs s c) then None
      else set_block_state_for_streams X c (streams s c) block 0
        (set_circ c (\<lambda>circ. circ\<lparr>circuit_blocked_on_p_chan := block\<rparr>) s))"

section \<open>Writing to the connection\<close>

text \<open>A connection that is marked, and not held open until flushed, takes no bytes; a full buffer closes it.\<close>

definition connection_buf_add :: "bytes \<Rightarrow> chan_ref \<Rightarrow> ('g, 'pd, 'cd, 'z) relay_t_scheme \<Rightarrow> ('g, 'pd, 'cd, 'z) relay_t_scheme option" where
  "connection_buf_add string conn s =
     (if string = [] then Some s
      else if conn \<in> set (closeable_conns s) \<and> conn \<notin> held_open s then Some s
      else if length (outbufs s conn) > BUF_MAX_LEN - length string then connection_or_close_for_error conn s
      else Some (s\<lparr>outbufs := (outbufs s)(conn := outbufs s conn @ string)\<rparr>))"

definition channel_tls_write_packed_cell_method :: "chan_ref \<Rightarrow> packed_cell_t \<Rightarrow> ('g, 'pd, 'cd, 'z) relay_t_scheme \<Rightarrow> (int \<times> ('g, 'pd, 'cd, 'z) relay_t_scheme) option" where
  "channel_tls_write_packed_cell_method chan cell s = do {
     ch \<leftarrow> chans s chan;
     if chan \<in> tls_conn s
     then map_option (Pair 0) (connection_buf_add (take (unat (get_cell_network_size (wide_circ_ids ch))) (packed_body cell)) chan s)
     else Some (-1, s)
   }"

definition write_packed_cell :: "chan_ref \<Rightarrow> packed_cell_t \<Rightarrow> ('g, 'pd, 'cd, 'z) relay_t_scheme \<Rightarrow> (int \<times> ('g, 'pd, 'cd, 'z) relay_t_scheme) option" where
  "write_packed_cell chan cell s = do {
     ch \<leftarrow> chans s chan;
     if chan_state ch \<notin> {CHANNEL_STATE_OPENING, CHANNEL_STATE_OPEN, CHANNEL_STATE_MAINT} then None
     else do {
       s1 \<leftarrow> (case packed_cell_is_destroy (wide_circ_ids ch) (packed_body cell) of
                 Some circ_id \<Rightarrow> channel_note_destroy_not_pending chan circ_id s
               | None \<Rightarrow> Some s);
       if chan_state ch \<noteq> CHANNEL_STATE_OPEN then Some (-1, s1)
       else do {
         (r, s2) \<leftarrow> channel_tls_write_packed_cell_method chan cell s1;
         if r < 0 then Some (-1, s2)
         else Some (0, set_chan chan (\<lambda>ch. ch\<lparr>n_cells_xmitted := n_cells_xmitted ch + 1,
                n_bytes_xmitted := n_bytes_xmitted ch + get_cell_network_size (wide_circ_ids ch)\<rparr>) s2)
       }
     }
   }"

definition channel_write_packed_cell :: "chan_ref \<Rightarrow> packed_cell_t \<Rightarrow> ('g, 'pd, 'cd, 'z) relay_t_scheme \<Rightarrow> (int \<times> ('g, 'pd, 'cd, 'z) relay_t_scheme) option" where
  "channel_write_packed_cell chan cell s = do {
     ch \<leftarrow> chans s chan;
     (r, s1) \<leftarrow> (if chan_state ch = CHANNEL_STATE_CLOSING then Some (-1, s) else write_packed_cell chan cell s);
     Some (r, s1\<lparr>total_cells_allocated := total_cells_allocated s1 - 1\<rparr>)
   }"

section \<open>Flushing\<close>

text \<open>One turn of the loop: how many cells it sent, whether the loop ends, and the state. First a turn for DESTROY cells.\<close>

definition flush_destroy :: "chan_ref \<Rightarrow> ('g, 'pd, 'cd, 'z) relay_t_scheme \<Rightarrow> (int \<times> bool \<times> ('g, 'pd, 'cd, 'z) relay_t_scheme) option" where
  "flush_destroy chan s = do {
     ch \<leftarrow> chans s chan;
     mux \<leftarrow> cmux ch;
     case destroy_cell_queue mux of
       [] \<Rightarrow> None
     | dcell # q \<Rightarrow> do {
         let s1 = set_cmux chan (Some (mux\<lparr>destroy_cell_queue := q\<rparr>)) s;
         let cell = \<lparr>packed_body = destroy_cell_to_packed_cell dcell (wide_circ_ids ch), inserted_timestamp = 0\<rparr>;
         (r, s2) \<leftarrow> channel_write_packed_cell chan cell (s1\<lparr>total_cells_allocated := total_cells_allocated s1 + 1\<rparr>);
         if r < 0 then map_option (\<lambda>s3. (0, False, s3)) (channel_mark_for_close chan s2)
         else do {
           ch2 \<leftarrow> chans s2 chan;
           mux2 \<leftarrow> cmux ch2;
           let (ctr, mux3) = circuitmux_notify_xmit_destroy (global_destroy_ctr s2) mux2;
           Some (1, False, set_cmux chan (Some mux3) (s2\<lparr>global_destroy_ctr := ctr\<rparr>))
         }
       }
   }"

definition xmit_cells :: "chan_ref \<Rightarrow> circuit_name \<Rightarrow> ('g, 'pd, 'cd, 'z) relay_t_scheme \<Rightarrow> ('g, 'pd, 'cd, 'z) relay_t_scheme option" where
  "xmit_cells chan c s = do {
     ch \<leftarrow> chans s chan;
     mux \<leftarrow> cmux ch;
     (g, mux1) \<leftarrow> circuitmux_notify_xmit_cells (policy_globals s) c (circs s c) 1 mux;
     Some (set_cmux chan (Some mux1) (s\<lparr>policy_globals := g\<rparr>))
   }"

definition flush_circuit ::
    "('g, 'pd, 'cd, 'z) relay_t_scheme outside_t \<Rightarrow> chan_ref \<Rightarrow> circuit_name \<Rightarrow> ('g, 'pd, 'cd, 'z) relay_t_scheme \<Rightarrow> (int \<times> bool \<times> ('g, 'pd, 'cd, 'z) relay_t_scheme) option" where
  "flush_circuit X chan c s =
     (let circ = circs s c; out = (n_chan circ = Some chan); dir = (if out then CELL_DIRECTION_OUT else CELL_DIRECTION_IN);
          circ_blocked = (if out then circuit_blocked_on_n_chan circ else circuit_blocked_on_p_chan circ) in
      if \<not> out \<and> (is_origin circ \<or> p_chan circ \<noteq> Some chan) then None
      else if queue_count dir circ = 0
      then do {
        s1 \<leftarrow> on_cmux chan (circuitmux_set_num_cells (policy_globals s) c circ 0) s;
        s2 \<leftarrow> (if marked_for_close (circs s1 c) then Some s1 else circuit_mark_for_close X c s1);
        Some (0, False, s2)
      }
      else if \<not> queue_count dir circ > 0 then None
      else do {
        let (popped, s1) = cell_queue_pop (c, dir) s;
        cell \<leftarrow> popped;
        (r, s2) \<leftarrow> channel_write_packed_cell chan cell s1;
        if r < 0 then map_option (\<lambda>s3. (0, False, s3)) (channel_mark_for_close chan s2)
        else do {
          s3 \<leftarrow> xmit_cells chan c s2;
          let n = queue_count dir (circs s3 c);
          s4 \<leftarrow> on_cmux chan (circuitmux_set_num_cells (policy_globals s3) c (circs s3 c) (of_int n)) s3;
          s5 \<leftarrow> (if circ_blocked \<and> n \<le> cell_queue_lowwatermark (cc_global s4) then set_circuit_blocked_on_chan X c chan False s4 else Some s4);
          Some (1, False, s5)
        }
      })"

definition flush_turn ::
    "('g, 'pd, 'cd, 'z) relay_t_scheme outside_t \<Rightarrow> chan_ref \<Rightarrow> ('g, 'pd, 'cd, 'z) relay_t_scheme \<Rightarrow> (int \<times> bool \<times> ('g, 'pd, 'cd, 'z) relay_t_scheme) option" where
  "flush_turn X chan s = do {
     ch \<leftarrow> chans s chan;
     mux \<leftarrow> cmux ch;
     (circ, destroy_queue, mux1) \<leftarrow> circuitmux_get_first_active_circuit mux;
     let s1 = set_cmux chan (Some mux1) s;
     if destroy_queue then flush_destroy chan s1
     else case circ of
            None \<Rightarrow> Some (0, True, s1)
          | Some c \<Rightarrow> flush_circuit X chan c s1
   }"

partial_function (option) flush_loop ::
    "('g, 'pd, 'cd, 'z) relay_t_scheme outside_t \<Rightarrow> chan_ref \<Rightarrow> int \<Rightarrow> int \<Rightarrow> ('g, 'pd, 'cd, 'z) relay_t_scheme \<Rightarrow> (int \<times> ('g, 'pd, 'cd, 'z) relay_t_scheme) option" where
  "flush_loop X chan maxn n_flushed s =
     (if n_flushed < maxn
      then do {
        (sent, stop, s1) \<leftarrow> flush_turn X chan s;
        if stop then Some (n_flushed, s1) else flush_loop X chan maxn (n_flushed + sent) s1
      }
      else Some (n_flushed, s))"

definition channel_flush_from_first_active_circuit ::
    "('g, 'pd, 'cd, 'z) relay_t_scheme outside_t \<Rightarrow> chan_ref \<Rightarrow> int \<Rightarrow> ('g, 'pd, 'cd, 'z) relay_t_scheme \<Rightarrow> (int \<times> ('g, 'pd, 'cd, 'z) relay_t_scheme) option" where
  "channel_flush_from_first_active_circuit X chan maxn s = do {
     ch \<leftarrow> chans s chan;
     if cmux ch = None then None else flush_loop X chan maxn 0 s
   }"

definition channel_flush_some_cells ::
    "('g, 'pd, 'cd, 'z) relay_t_scheme outside_t \<Rightarrow> chan_ref \<Rightarrow> int \<Rightarrow> ('g, 'pd, 'cd, 'z) relay_t_scheme \<Rightarrow> (int \<times> ('g, 'pd, 'cd, 'z) relay_t_scheme) option" where
  "channel_flush_some_cells X chan num_cells s = do {
     ch \<leftarrow> chans s chan;
     let unlimited = (num_cells < 0);
     if \<not> unlimited \<and> num_cells \<le> 0 then Some (0, s)
     else if chan_state ch \<noteq> CHANNEL_STATE_OPEN then Some (0, s)
     else do {
       mux \<leftarrow> cmux ch;
       if circuitmux_num_cells mux > 0
       then channel_flush_from_first_active_circuit X chan
              (if unlimited \<or> num_cells > MAX_CELLS_TO_GET_FROM_CIRCUITS_FOR_UNLIMITED
               then MAX_CELLS_TO_GET_FROM_CIRCUITS_FOR_UNLIMITED else num_cells) s
       else Some (0, s)
     }
   }"

definition channel_more_to_flush :: "('g, 'pd, 'cd, 'z) relay_t_scheme \<Rightarrow> chan_ref \<Rightarrow> bool option" where
  "channel_more_to_flush s chan = do {
     ch \<leftarrow> chans s chan;
     mux \<leftarrow> cmux ch;
     Some (circuitmux_num_cells mux > 0)
   }"

section \<open>Queueing\<close>

text \<open>The result is 1, 0 (nothing to do) or \<open>-1\<close> (the circuit has to be closed).\<close>

definition append_cell_to_circuit_queue ::
    "('g, 'pd, 'cd, 'z) relay_t_scheme outside_t \<Rightarrow> circuit_name \<Rightarrow> chan_ref \<Rightarrow> cell_t \<Rightarrow> cell_direction_t \<Rightarrow> u16 \<Rightarrow> ('g, 'pd, 'cd, 'z) relay_t_scheme
      \<Rightarrow> (int \<times> ('g, 'pd, 'cd, 'z) relay_t_scheme) option" where
  "append_cell_to_circuit_queue X c chan cell dir fromstream s =
     (let circ = circs s c; exitward = (dir = CELL_DIRECTION_OUT);
          circ_blocked = (if exitward then circuit_blocked_on_n_chan circ else circuit_blocked_on_p_chan circ);
          max_queue_size = (if exitward then max_circuit_cell_queue_size_out s else max_circuit_cell_queue_size s);
          stream_list = (if exitward then if is_origin circ then streams s c else [] else streams s c) in
      if marked_for_close circ then Some (0, s)
      else if \<not> exitward \<and> is_origin circ then None
      else if queue_count dir circ \<ge> max_queue_size
      then let s1 = (if exitward \<and> \<not> is_origin circ
                     then s\<lparr>stats_n_circ_max_cell_outq_reached := stats_n_circ_max_cell_outq_reached s + 1,
                            dos_circ_max_outq_noted := dos_circ_max_outq_noted s @ [p_chan circ]\<rparr> else s)
           in Some (-1, s1\<lparr>stats_n_circ_max_cell_reached := stats_n_circ_max_cell_reached s1 + 1\<rparr>)
      else do {
        ch \<leftarrow> chans s chan;
        let s1 = cell_queue_append_packed_copy (c, dir) cell (wide_circ_ids ch) s;
        (oom, s2) \<leftarrow> cell_queues_check_size X s1;
        if oom \<and> marked_for_close (circs s2 c) then Some (0, s2)
        else do {
          s3 \<leftarrow> (if \<not> circ_blocked \<and> queue_count dir (circs s2 c) \<ge> cell_queue_highwatermark (cc_global s2)
                  then set_circuit_blocked_on_chan X c chan True s2 else Some s2);
          s4 \<leftarrow> (if circ_blocked \<and> fromstream \<noteq> 0 then set_block_state_for_streams X c stream_list True fromstream s3 else Some s3);
          s5 \<leftarrow> update_circuit_on_cmux c dir s4;
          s6 \<leftarrow> scheduler_channel_has_waiting_cells chan s5;
          Some (1, s6)
        }
      })"

definition circuit_clear_cell_queue :: "circuit_name \<Rightarrow> chan_ref \<Rightarrow> ('g, 'pd, 'cd, 'z) relay_t_scheme \<Rightarrow> ('g, 'pd, 'cd, 'z) relay_t_scheme option" where
  "circuit_clear_cell_queue c chan s =
     (let circ = circs s c; out = (n_chan circ = Some chan); dir = (if out then CELL_DIRECTION_OUT else CELL_DIRECTION_IN) in
      if \<not> out \<and> (is_origin circ \<or> p_chan circ \<noteq> Some chan) then None
      else do {
        let s1 = cell_queue_clear (c, dir) s;
        ch \<leftarrow> chans s1 chan;
        attached \<leftarrow> (case cmux ch of None \<Rightarrow> Some False | Some mux \<Rightarrow> circuitmux_is_circuit_attached mux (circs s1 c));
        if attached then update_circuit_on_cmux c dir s1 else Some s1
      })"

section \<open>DESTROY cells\<close>

definition channel_has_queued_writes :: "('g, 'pd, 'cd, 'z) relay_t_scheme \<Rightarrow> chan_ref \<Rightarrow> bool" where
  "channel_has_queued_writes s chan \<longleftrightarrow> chan \<in> tls_conn s \<and> length (outbufs s chan) > 0"

definition append_destroy_cell ::
    "('g, 'pd, 'cd, 'z) relay_t_scheme outside_t \<Rightarrow> chan_ref \<Rightarrow> u32 \<Rightarrow> u8 \<Rightarrow> ('g, 'pd, 'cd, 'z) relay_t_scheme \<Rightarrow> ('g, 'pd, 'cd, 'z) relay_t_scheme option" where
  "append_destroy_cell X chan circ_id reason s = do {
     ch \<leftarrow> chans s chan;
     mux \<leftarrow> cmux ch;
     let (ctr, mux1, prime) = circuitmux_append_destroy_cell (channel_has_queued_writes s chan) (global_destroy_ctr s) mux circ_id reason;
     let s1 = set_cmux chan (Some mux1) (s\<lparr>global_destroy_ctr := ctr\<rparr>);
     if prime then map_option snd (channel_flush_from_first_active_circuit X chan 1 s1) else Some s1
   }"

definition channel_send_destroy ::
    "('g, 'pd, 'cd, 'z) relay_t_scheme outside_t \<Rightarrow> u32 \<Rightarrow> chan_ref \<Rightarrow> u8 \<Rightarrow> ('g, 'pd, 'cd, 'z) relay_t_scheme \<Rightarrow> ('g, 'pd, 'cd, 'z) relay_t_scheme option" where
  "channel_send_destroy X circ_id chan reason s =
     (if circ_id = 0 then Some s
      else do {
        ch \<leftarrow> chans s chan;
        if \<not> CHANNEL_CONDEMNED ch \<and> cmux ch \<noteq> None
        then Option.bind (channel_note_destroy_pending chan circ_id s) (append_destroy_cell X chan circ_id reason)
        else Some s
      })"

end
