(* ===== verification/Circuit_Ids_Exact.thy ===== *)
theory Circuit_Ids_Exact
  imports Circuit_Ids Circuitmux_Ewma
begin

text \<open>
  The table of circuit IDs is exact (\<open>src/core/or/circuitlist.c\<close>): an abstract account of who uses which ID where and which
  IDs wait for a DESTROY cell, and the proof that the code keeps it, together with the counts of circuits on the channels and
  the muxes.
\<close>

section \<open>Keys\<close>

definition queue_n :: "cell_direction_t \<Rightarrow> mux_circuit_t \<Rightarrow> int" where
  "queue_n dir x = (if dir = CELL_DIRECTION_OUT then n_chan_cells_n x else p_chan_cells_n x)"

lemma key_of_circuit:
  "dir = CELL_DIRECTION_IN \<longrightarrow> \<not> is_origin (cs c) \<Longrightarrow>
    key_of cs (c, dir) = map_option (\<lambda>ch. (ch, circuit_circ_id dir (cs c))) (circuit_chan dir (cs c))"
  by (cases dir) (auto simp: key_of_def n_key_def p_key_def circuit_chan_def circuit_circ_id_def)

lemma key_of_put:
  assumes "dir = CELL_DIRECTION_IN \<longrightarrow> \<not> is_origin (cs c)"
  shows "key_of (cs(c := put_circid_chan dir i chan (cs c))) = (key_of cs)((c, dir) := map_option (\<lambda>ch. (ch, i)) chan)"
proof
  fix f :: flow
  obtain d dir' where f: "f = (d, dir')" by (cases f)
  show "key_of (cs(c := put_circid_chan dir i chan (cs c))) f = ((key_of cs)((c, dir) := map_option (\<lambda>ch. (ch, i)) chan)) f"
    using assms by (cases dir; cases dir') (auto simp: f key_of_def n_key_def p_key_def put_circid_chan_def)
qed

lemma put_keeps [simp]:
  "is_origin (put_circid_chan dir i chan x) = is_origin x"
  "marked_for_close (put_circid_chan dir i chan x) = marked_for_close x"
  "n_chan_cells_n (put_circid_chan dir i chan x) = n_chan_cells_n x" "p_chan_cells_n (put_circid_chan dir i chan x) = p_chan_cells_n x"
  "queue_n d (put_circid_chan dir i chan x) = queue_n d x"
  "put_circid_chan dir i chan (put_circid_chan dir j chan0 x) = put_circid_chan dir i chan x"
  by (simp_all add: put_circid_chan_def queue_n_def)

lemma fst_eq_flow: "f \<noteq> (c, dir) \<Longrightarrow> snd f = dir \<Longrightarrow> fst f \<noteq> c" for f :: flow
  by (cases f) auto

definition well_keyed :: "(circuit_name \<Rightarrow> mux_circuit_t) \<Rightarrow> bool" where
  "well_keyed cs \<longleftrightarrow>
     (\<forall>f f' k. key_of cs f = Some k \<longrightarrow> key_of cs f' = Some k \<longrightarrow> f = f') \<and>
     (\<forall>c ch. n_chan (cs c) = Some ch \<longrightarrow> p_chan (cs c) = Some ch \<longrightarrow> is_origin (cs c)) \<and>
     (\<forall>f k. key_of cs f = Some k \<longrightarrow> snd k \<noteq> 0) \<and> finite (dom (key_of cs))"

lemma well_keyed_named: "well_keyed cs \<Longrightarrow> well_named ch cs"
  unfolding well_keyed_def well_named_def by blast

section \<open>The muxes\<close>

text \<open>The mux of a channel has the circuits of the channel that are not marked, but for those in \<open>A\<close>, and knows their cells.\<close>

definition mux_exact ::
    "('r::linorder) double_ops \<Rightarrow> flow set \<Rightarrow> chan_ref \<Rightarrow> (circuit_name \<Rightarrow> mux_circuit_t) \<Rightarrow> 'r ewma_mux_t \<Rightarrow> bool" where
  "mux_exact ops A ch cs m \<longleftrightarrow> ewma.mux_ok ops ch cs m \<and>
     (\<forall>f k. f \<notin> A \<longrightarrow> key_of cs f = Some k \<longrightarrow> fst k = ch \<longrightarrow> \<not> marked_for_close (cs (fst f)) \<longrightarrow> k \<in> dom (chanid_circid_map m)) \<and>
     (\<forall>f k e. chanid_circid_map m k = Some e \<longrightarrow> key_of cs f = Some k \<longrightarrow> cell_count e = of_int (queue_n (snd f) (cs (fst f))))"

lemma mux_exact_mono: "mux_exact ops A ch cs m \<Longrightarrow> A \<subseteq> B \<Longrightarrow> mux_exact ops B ch cs m"
  unfolding mux_exact_def by blast

lemma mux_exact_drop:
  assumes "mux_exact ops (insert f A) ch cs m" and "\<And>k. key_of cs f = Some k \<Longrightarrow> fst k = ch \<Longrightarrow> marked_for_close (cs (fst f))"
  shows "mux_exact ops A ch cs m"
  using assms unfolding mux_exact_def by (metis insertE)

lemma mux_entry:
  assumes "mux_exact ops A ch cs m" and "chanid_circid_map m k = Some e"
  shows "fst k = ch \<and> (\<exists>f. key_of cs f = Some k \<and> direction e = snd f \<and> (\<exists>cd. mi_policy_data e = Some cd \<and> ewma_ident cd = f))"
proof -
  have "ewma.entry_ok ch cs k e" using assms ewma.entries [of ops ch cs m] unfolding mux_exact_def by blast
  then obtain cd where "fst k = ch" "mi_policy_data e = Some cd" "snd (ewma_ident cd) = direction e" "key_of cs (ewma_ident cd) = Some k"
    unfolding ewma.entry_ok_def by blast
  then show ?thesis by (intro conjI exI [of _ "ewma_ident cd"] exI [of _ cd]) simp_all
qed

lemma mux_rekey:
  assumes ex: "mux_exact ops A ch cs m" and orig: "dir = CELL_DIRECTION_IN \<longrightarrow> \<not> is_origin (cs c)"
    and old: "\<And>k. key_of cs (c, dir) = Some k \<Longrightarrow> k \<notin> dom (chanid_circid_map m)"
    and new: "\<And>ch'. chan = Some ch' \<Longrightarrow> (ch', i) \<notin> dom (chanid_circid_map m)"
  shows "mux_exact ops (insert (c, dir) A) ch (cs(c := put_circid_chan dir i chan (cs c))) m"
proof -
  let ?cs = "cs(c := put_circid_chan dir i chan (cs c))"
  have K: "key_of ?cs = (key_of cs)((c, dir) := map_option (\<lambda>ch. (ch, i)) chan)" by (rule key_of_put [where cs = cs and c = c and dir = dir, OF orig])
  have same: "key_of ?cs f = Some k \<longleftrightarrow> key_of cs f = Some k" if kd: "k \<in> dom (chanid_circid_map m)" for f k
  proof (cases "f = (c, dir)")
    case True
    have "map_option (\<lambda>ch. (ch, i)) chan \<noteq> Some k" using new kd by (cases chan) (use kd in blast)+
    moreover have "key_of cs (c, dir) \<noteq> Some k" using old kd by blast
    ultimately show ?thesis using True by (simp add: K)
  qed (simp add: K)
  have ok: "ewma.mux_ok ops ch cs m" using ex by (simp add: mux_exact_def)
  have ent: "ewma.entry_ok ch ?cs k e" if "chanid_circid_map m k = Some e" for k e
  proof -
    have e: "ewma.entry_ok ch cs k e" using ewma.entries [OF ok] that by blast
    have kd: "k \<in> dom (chanid_circid_map m)" using that by blast
    show ?thesis using e unfolding ewma.entry_ok_def same [OF kd] .
  qed
  have "ewma.mux_ok ops ch ?cs m"
    using ok ent by (simp add: ewma.mux_ok_def)
  moreover have q: "queue_n d (?cs b) = queue_n d (cs b)" "marked_for_close (?cs b) = marked_for_close (cs b)" for d b
    by (simp_all del: split_paired_All)
  ultimately show ?thesis
    unfolding mux_exact_def q
  proof (intro conjI allI impI)
    fix f k assume f: "f \<notin> insert (c, dir) A" "key_of ?cs f = Some k" "fst k = ch" "\<not> marked_for_close (cs (fst f))"
    then have "key_of cs f = Some k" by (simp add: K)
    then show "k \<in> dom (chanid_circid_map m)" using ex f unfolding mux_exact_def by blast
  next
    fix f k e assume e: "chanid_circid_map m k = Some e" "key_of ?cs f = Some k"
    then have "key_of cs f = Some k" using same by blast
    then show "cell_count e = of_int (queue_n (snd f) (cs (fst f)))" using ex e(1) unfolding mux_exact_def by blast
  qed
qed

lemma mux_attach:
  assumes ex: "mux_exact ops (insert (c, dir) A) ch cs m" and wk: "well_keyed cs"
    and key: "key_of cs (c, dir) = Some (ch, i)" and new: "(ch, i) \<notin> dom (chanid_circid_map m)"
    and q: "queue_n dir (cs c) = 0"
  shows "\<exists>m'. circuitmux_attach_circuit g c (cs c) dir m = Some m' \<and> mux_exact ops A ch cs m'"
proof -
  have ok: "ewma.mux_ok ops ch cs m" using ex by (simp add: mux_exact_def)
  have i: "i \<noteq> 0" using wk key unfolding well_keyed_def by fastforce
  obtain pd where pol: "policy m = Some (ewma_policy ops)" "policy_data m = Some pd"
    using ok unfolding ewma.mux_ok_def by blast
  have k: "(if dir = CELL_DIRECTION_OUT then n_chan (cs c) else p_chan (cs c)) = Some ch"
      "(if dir = CELL_DIRECTION_OUT then n_circ_id (cs c) else p_circ_id (cs c)) = i"
      "\<not> (dir = CELL_DIRECTION_IN \<and> is_origin (cs c))"
    using key by (cases dir; auto simp: key_of_def n_key_def p_key_def split: if_splits)+
  have m0: "chanid_circid_map m (ch, i) = None" using new by blast
  have "attach_new_circuit g c (cs c) (ch, i) dir 0 m \<noteq> None"
    using pol by (simp add: attach_new_circuit_def ewma_policy_def ewma_alloc_circ_data_def)
  moreover have "circuitmux_attach_circuit g c (cs c) dir m = attach_new_circuit g c (cs c) (ch, i) dir 0 m"
    using k i m0 q by (auto simp: circuitmux_attach_circuit_def queue_n_def Let_def)
  ultimately obtain m' where r: "circuitmux_attach_circuit g c (cs c) dir m = Some m'" by auto
  from ewma.attach_ok [OF ok well_keyed_named [OF wk] k(1) r] key obtain e' where
    m': "ewma.mux_ok ops ch cs m'" "chanid_circid_map m' = (chanid_circid_map m)((ch, i) \<mapsto> e')"
      "cell_count e' = of_int (queue_n dir (cs c))" by (auto simp: queue_n_def)
  have inj: "f = (c, dir)" if "key_of cs f = Some (ch, i)" for f
    using wk key that unfolding well_keyed_def by blast
  have "mux_exact ops A ch cs m'"
    unfolding mux_exact_def
  proof (intro conjI allI impI)
    show "ewma.mux_ok ops ch cs m'" by (rule m'(1))
  next
    fix f k assume f: "f \<notin> A" "key_of cs f = Some k" "fst k = ch" "\<not> marked_for_close (cs (fst f))"
    show "k \<in> dom (chanid_circid_map m')"
    proof (cases "f = (c, dir)")
      case True
      then show ?thesis using f(2) key m'(2) by simp
    next
      case False
      then have "k \<in> dom (chanid_circid_map m)" using ex f unfolding mux_exact_def by blast
      then show ?thesis using m'(2) by auto
    qed
  next
    fix f k e assume e: "chanid_circid_map m' k = Some e" "key_of cs f = Some k"
    show "cell_count e = of_int (queue_n (snd f) (cs (fst f)))"
    proof (cases "k = (ch, i)")
      case True
      then have "f = (c, dir)" "e = e'" using e inj m'(2) by (simp_all del: split_paired_All)
      then show ?thesis using m'(3) by simp
    next
      case False
      then have "chanid_circid_map m k = Some e" using e(1) m'(2) by simp
      then show ?thesis using ex e(2) unfolding mux_exact_def by blast
    qed
  qed
  then show ?thesis using r by blast
qed

lemma mux_detach:
  assumes ex: "mux_exact ops A ch cs m" and wk: "well_keyed cs"
    and key: "key_of cs (c, dir) = Some (ch, i)" and "in": "(ch, i) \<in> dom (chanid_circid_map m)"
    and q: "queue_n dir (cs c) = 0"
  shows "\<exists>m'. circuitmux_detach_circuit g c (cs c) m = Some m' \<and> mux_exact ops (insert (c, dir) A) ch cs m' \<and>
    (ch, i) \<notin> dom (chanid_circid_map m')"
proof -
  have ok: "ewma.mux_ok ops ch cs m" using ex by (simp add: mux_exact_def)
  have wn: "well_named ch cs" by (rule well_keyed_named [OF wk])
  have inj: "f = (c, dir)" if "key_of cs f = Some (ch, i)" for f
    using wk key that unfolding well_keyed_def by blast
  obtain e where e: "chanid_circid_map m (ch, i) = Some e" using "in" by blast
  from mux_entry [OF ex e] inj obtain cd where d: "direction e = dir" "mi_policy_data e = Some cd" by auto
  have c0: "cell_count e = 0"
    using ex e key q unfolding mux_exact_def by fastforce
  have pol: "policy m = Some (ewma_policy ops)" using ok unfolding ewma.mux_ok_def by blast
  have f: "circuitmux_find_map_entry m (cs c) = Some (Some ((ch, i), e))"
    using ewma.find_attached [OF ok wn _ _ e, of c] key d(1) by simp
  have fr: "free_circ_data (ewma_policy ops)" by (simp add: ewma_policy_def)
  have r: "circuitmux_detach_circuit g c (cs c) m \<noteq> None"
  proof (cases dir)
    case CELL_DIRECTION_OUT
    then have "HT_FIND m (n_key (cs c)) = Some ((ch, i), e)" "n_chan (cs c) \<noteq> None"
      using key e by (auto simp: key_of_def HT_FIND_def n_key_def)
    then show ?thesis using c0 d CELL_DIRECTION_OUT fr pol e
      by (auto simp: circuitmux_detach_circuit_def Let_def)
  next
    case CELL_DIRECTION_IN
    have "HT_FIND m (n_key (cs c)) = None"
      using f d(1) CELL_DIRECTION_IN by (auto simp: circuitmux_find_map_entry_def split: option.splits if_splits)
    moreover have "p_key (cs c) = Some (ch, i)" using key CELL_DIRECTION_IN by (simp add: key_of_def)
    ultimately show ?thesis using c0 d CELL_DIRECTION_IN fr pol e
      by (auto simp: circuitmux_detach_circuit_def HT_FIND_def Let_def)
  qed
  then obtain m' where r: "circuitmux_detach_circuit g c (cs c) m = Some m'" by auto
  from ewma.detach_ok [OF ok wn r] f have
    m': "ewma.mux_ok ops ch cs m'" "chanid_circid_map m' = (chanid_circid_map m)((ch, i) := None)" by auto
  have "mux_exact ops (insert (c, dir) A) ch cs m'"
    unfolding mux_exact_def
  proof (intro conjI allI impI)
    show "ewma.mux_ok ops ch cs m'" by (rule m'(1))
  next
    fix f k assume f: "f \<notin> insert (c, dir) A" "key_of cs f = Some k" "fst k = ch" "\<not> marked_for_close (cs (fst f))"
    have "k \<noteq> (ch, i)" using f inj by blast
    moreover have "k \<in> dom (chanid_circid_map m)" using ex f unfolding mux_exact_def by blast
    ultimately show "k \<in> dom (chanid_circid_map m')" using m'(2) by auto
  next
    fix f k e assume e: "chanid_circid_map m' k = Some e" "key_of cs f = Some k"
    then have "chanid_circid_map m k = Some e" using m'(2) by (simp split: if_splits)
    then show "cell_count e = of_int (queue_n (snd f) (cs (fst f)))" using ex e(2) unfolding mux_exact_def by blast
  qed
  then show ?thesis using r m'(2) by auto
qed

section \<open>The invariant\<close>

type_synonym ('r, 'z) ewma_circuits_t = "('r ewma_t, 'r ewma_policy_data_t, 'r ewma_policy_circ_data_t, 'z) circuits_t_scheme"

definition users :: "(circuit_name \<Rightarrow> mux_circuit_t) \<Rightarrow> cell_direction_t \<Rightarrow> chan_ref \<Rightarrow> circuit_name set" where
  "users cs dir ch = {c. \<exists>i. key_of cs (c, dir) = Some (ch, i)}"

definition num_circuits :: "cell_direction_t \<Rightarrow> ('g, 'pd, 'cd) channel_t \<Rightarrow> u32" where
  "num_circuits dir x = (if dir = CELL_DIRECTION_OUT then num_n_circuits x else num_p_circuits x)"

definition chan_exact ::
    "('r::linorder) double_ops \<Rightarrow> (circuit_name \<Rightarrow> mux_circuit_t) \<Rightarrow> chan_ref
      \<Rightarrow> ('r ewma_t, 'r ewma_policy_data_t, 'r ewma_policy_circ_data_t) channel_t \<Rightarrow> bool" where
  "chan_exact ops cs ch x \<longleftrightarrow> (\<exists>m. cmux x = Some m \<and> mux_exact ops {} ch cs m) \<and>
     (\<forall>dir. num_circuits dir x = of_nat (card (users cs dir ch)))"

definition map_exact :: "(circuit_name \<Rightarrow> mux_circuit_t) \<Rightarrow> (mux_key \<Rightarrow> chan_circid_circuit_map_t option) \<Rightarrow> bool" where
  "map_exact cs M \<longleftrightarrow> (\<forall>k c. (\<exists>e. M k = Some e \<and> circuit e = Some c) \<longleftrightarrow> (\<exists>dir. key_of cs (c, dir) = Some k))"

definition placeholders :: "('g, 'pd, 'cd, 'z) circuits_t_scheme \<Rightarrow> mux_key set" where
  "placeholders s = {k. \<exists>e. chan_circid_map s k = Some e \<and> circuit e = None}"

definition ids_ok :: "('r::linorder) double_ops \<Rightarrow> ('r, 'z) ewma_circuits_t \<Rightarrow> bool" where
  "ids_ok ops s \<longleftrightarrow> well_keyed (circs s) \<and> (\<forall>f k. key_of (circs s) f = Some k \<longrightarrow> chans s (fst k) \<noteq> None) \<and>
     map_exact (circs s) (chan_circid_map s) \<and> (\<forall>ch x. chans s ch = Some x \<longrightarrow> chan_exact ops (circs s) ch x) \<and>
     (\<forall>k. last_circid_chan_ent s = Some k \<longrightarrow> k \<in> dom (chan_circid_map s))"

definition ids_frame :: "('g, 'pd, 'cd, 'z) circuits_t_scheme \<Rightarrow> ('g, 'pd, 'cd, 'z) circuits_t_scheme \<Rightarrow> bool" where
  "ids_frame s s1 \<longleftrightarrow> n_delete_pending s1 = n_delete_pending s \<and> p_delete_pending s1 = p_delete_pending s \<and>
     placeholders s1 = placeholders s \<and> dom (chans s1) = dom (chans s) \<and> policy_globals s1 = policy_globals s \<and> time_now s1 = time_now s"

lemma users_finite: "well_keyed cs \<Longrightarrow> finite (users cs dir ch)"
proof -
  assume "well_keyed cs"
  then have "finite (fst ` dom (key_of cs))" unfolding well_keyed_def by blast
  moreover have "users cs dir ch \<subseteq> fst ` dom (key_of cs)"
    unfolding users_def by (auto simp: dom_def image_iff) blast
  ultimately show ?thesis by (rule finite_subset [rotated])
qed

lemma users_put:
  assumes "dir = CELL_DIRECTION_IN \<longrightarrow> \<not> is_origin (cs c)"
  shows "users (cs(c := put_circid_chan dir i chan (cs c))) d ch =
    (if d \<noteq> dir then users cs d ch else if chan = Some ch then insert c (users cs d ch) else users cs d ch - {c})"
  unfolding users_def key_of_put [where cs = cs and c = c and dir = dir, OF assms] by auto

lemma mux_gone:
  assumes "mux_exact ops A ch cs m" and "A \<subseteq> {(c, dir)}" and orig: "dir = CELL_DIRECTION_IN \<longrightarrow> \<not> is_origin (cs c)"
    and "\<And>k. key_of cs (c, dir) = Some k \<Longrightarrow> k \<notin> dom (chanid_circid_map m)"
  shows "mux_exact ops {} ch (cs(c := put_circid_chan dir i None (cs c))) m"
proof (rule mux_exact_drop [where f = "(c, dir)"])
  have "mux_exact ops (insert (c, dir) A) ch (cs(c := put_circid_chan dir i None (cs c))) m"
    by (rule mux_rekey [OF assms(1) orig assms(4)]) simp_all
  moreover have "insert (c, dir) A = {(c, dir)}" using assms(2) by blast
  ultimately show "mux_exact ops {(c, dir)} ch (cs(c := put_circid_chan dir i None (cs c))) m" by simp
qed (simp add: key_of_put [where cs = cs and c = c and dir = dir, OF orig])

lemma well_keyed_put:
  assumes wk: "well_keyed cs" and orig: "dir = CELL_DIRECTION_IN \<longrightarrow> \<not> is_origin (cs c)"
    and new: "\<And>ch. chan = Some ch \<Longrightarrow> i \<noteq> 0 \<and> (\<forall>f. key_of cs f \<noteq> Some (ch, i)) \<and>
      (is_origin (cs c) \<or> (if dir = CELL_DIRECTION_OUT then p_chan (cs c) else n_chan (cs c)) \<noteq> Some ch)"
  shows "well_keyed (cs(c := put_circid_chan dir i chan (cs c)))"
proof -
  let ?cs = "cs(c := put_circid_chan dir i chan (cs c))"
  have K: "key_of ?cs = (key_of cs)((c, dir) := map_option (\<lambda>ch. (ch, i)) chan)" by (rule key_of_put [where cs = cs and c = c and dir = dir, OF orig])
  have nk: "chan = Some (fst k) \<and> snd k = i" if "map_option (\<lambda>ch. (ch, i)) chan = Some k" for k using that by auto
  have "finite (dom (key_of cs))" using wk by (simp add: well_keyed_def)
  moreover have "dom (key_of ?cs) \<subseteq> insert (c, dir) (dom (key_of cs))" unfolding K by auto
  ultimately have "finite (dom (key_of ?cs))" by (meson finite.insertI finite_subset)
  moreover have "f = f'" if "key_of ?cs f = Some k" "key_of ?cs f' = Some k" for f f' k
  proof -
    have no: "key_of cs g \<noteq> Some k" if "map_option (\<lambda>ch. (ch, i)) chan = Some k" for g
      using new [of "fst k"] nk [OF that] by (metis prod.collapse)
    have inj: "f = f'" if "key_of cs f = Some k" "key_of cs f' = Some k" using wk that unfolding well_keyed_def by blast
    have one: "g = (c, dir)" if "key_of ?cs g = Some k" "map_option (\<lambda>ch. (ch, i)) chan = Some k" for g
      using that(1) no [OF that(2), of g] unfolding K by (cases "g = (c, dir)") simp_all
    show ?thesis
    proof (cases "map_option (\<lambda>ch. (ch, i)) chan = Some k")
      case True
      then show ?thesis using one that by blast
    next
      case False
      then have "f \<noteq> (c, dir)" "f' \<noteq> (c, dir)" using that unfolding K by auto
      then show ?thesis using that inj unfolding K by simp
    qed
  qed
  moreover have "snd k \<noteq> 0" if "key_of ?cs f = Some k" for f k
  proof (cases "f = (c, dir)")
    case True
    then show ?thesis using that new [of "fst k"] nk [of k] unfolding K by simp
  next
    case False
    then have "key_of cs f = Some k" using that unfolding K by simp
    then show ?thesis using wk unfolding well_keyed_def by blast
  qed
  moreover have "is_origin (?cs d)" if "n_chan (?cs d) = Some ch" "p_chan (?cs d) = Some ch" for d ch
    using that wk new [of ch] unfolding well_keyed_def by (cases dir) (auto simp: put_circid_chan_def split: if_splits)
  ultimately show ?thesis unfolding well_keyed_def by blast
qed

lemma map_exact_at: "map_exact cs M \<Longrightarrow> (\<exists>e. M k = Some e \<and> circuit e = Some c) \<longleftrightarrow> (\<exists>dir. key_of cs (c, dir) = Some k)"
  unfolding map_exact_def by blast

lemma map_exact_leave:
  assumes ex: "map_exact cs M" and wk: "well_keyed cs" and orig: "dir = CELL_DIRECTION_IN \<longrightarrow> \<not> is_origin (cs c)"
    and M': "M' = (case key_of cs (c, dir) of Some k \<Rightarrow> M(k := None) | None \<Rightarrow> M)"
  shows "map_exact (cs(c := put_circid_chan dir i None (cs c))) M'"
  unfolding map_exact_def key_of_put [where cs = cs and c = c and dir = dir, OF orig]
proof (intro allI)
  fix k d
  note at = map_exact_at [OF ex, of k d]
  show "(\<exists>e. M' k = Some e \<and> circuit e = Some d) \<longleftrightarrow> (\<exists>dir'. ((key_of cs)((c, dir) := map_option (\<lambda>ch. (ch, i)) None)) (d, dir') = Some k)"
  proof (cases "key_of cs (c, dir) = Some k")
    case True
    have "key_of cs (d, dir') \<noteq> Some k" if "(d, dir') \<noteq> (c, dir)" for dir'
      using True that wk unfolding well_keyed_def by blast
    then show ?thesis using True M' by simp
  next
    case False
    then have "M' k = M k" using M' by (auto split: option.split)
    then show ?thesis using False at by auto
  qed
qed

lemma map_exact_take:
  assumes ex: "map_exact cs M" and orig: "dir = CELL_DIRECTION_IN \<longrightarrow> \<not> is_origin (cs c)"
    and new: "(ch, i) \<notin> dom M" and none: "key_of cs (c, dir) = None"
  shows "map_exact (cs(c := put_circid_chan dir i (Some ch) (cs c))) (M((ch, i) \<mapsto> \<lparr>circuit = Some c, made_placeholder_at = 0\<rparr>))"
  unfolding map_exact_def key_of_put [where cs = cs and c = c and dir = dir, OF orig]
proof (intro allI)
  fix k d
  note at = map_exact_at [OF ex, of k d]
  show "(\<exists>e. (M((ch, i) \<mapsto> \<lparr>circuit = Some c, made_placeholder_at = 0\<rparr>)) k = Some e \<and> circuit e = Some d) \<longleftrightarrow>
      (\<exists>dir'. ((key_of cs)((c, dir) := map_option (\<lambda>ch. (ch, i)) (Some ch))) (d, dir') = Some k)"
  proof (cases "k = (ch, i)")
    case True
    then have "key_of cs (d, dir') \<noteq> Some k" for dir' using at new by blast
    then show ?thesis using True by auto
  next
    case False
    have "((key_of cs)((c, dir) := map_option (\<lambda>ch. (ch, i)) (Some ch))) (d, dir') = Some k \<longleftrightarrow> key_of cs (d, dir') = Some k" for dir'
      using False none by auto
    then show ?thesis using at False by simp
  qed
qed

section \<open>Leaving and taking\<close>

lemma chan_exact_keep:
  assumes ex: "chan_exact ops cs ch x" and orig: "dir = CELL_DIRECTION_IN \<longrightarrow> \<not> is_origin (cs c)"
    and away: "\<And>k. key_of cs (c, dir) = Some k \<Longrightarrow> fst k \<noteq> ch" and chan: "chan \<noteq> Some ch"
  shows "chan_exact ops (cs(c := put_circid_chan dir i chan (cs c))) ch x"
proof -
  obtain m where m: "cmux x = Some m" "mux_exact ops {} ch cs m" using ex unfolding chan_exact_def by blast
  have d: "fst k = ch" if "k \<in> dom (chanid_circid_map m)" for k
    using mux_entry [OF m(2)] that by blast
  have "mux_exact ops {(c, dir)} ch (cs(c := put_circid_chan dir i chan (cs c))) m"
    by (rule mux_rekey [OF m(2) orig]) (use d away chan in fastforce)+
  then have "mux_exact ops {} ch (cs(c := put_circid_chan dir i chan (cs c))) m"
    by (rule mux_exact_drop) (use chan in \<open>auto simp: key_of_put [where cs = cs and c = c and dir = dir, OF orig]\<close>)
  moreover have "c \<notin> users cs dir ch" using away by (auto simp: users_def)
  then have "users (cs(c := put_circid_chan dir i chan (cs c))) d ch = users cs d ch" for d
    using chan by (simp add: users_put [where cs = cs and c = c and dir = dir, OF orig])
  ultimately show ?thesis using ex m(1) unfolding chan_exact_def by simp
qed

lemma num_circuits_add:
  "num_circuits d (add_num_circuits dir n x) = (if d = dir then num_circuits d x + n else num_circuits d x)"
  "cmux (add_num_circuits dir n x) = cmux x"
  by (cases d; cases dir; simp add: num_circuits_def add_num_circuits_def)+

lemma chan_exact_leave:
  assumes ex: "chan_exact ops cs ch x" and wk: "well_keyed cs" and orig: "dir = CELL_DIRECTION_IN \<longrightarrow> \<not> is_origin (cs c)"
    and key: "key_of cs (c, dir) = Some (ch, i)" and A: "A \<subseteq> {(c, dir)}"
    and m: "mux_exact ops A ch cs m" "(ch, i) \<notin> dom (chanid_circid_map m)"
    and x': "cmux x' = Some m" "\<And>d. num_circuits d x' = num_circuits d (add_num_circuits dir (-1) x)"
  shows "chan_exact ops (cs(c := put_circid_chan dir j None (cs c))) ch x'"
proof -
  have "mux_exact ops {} ch (cs(c := put_circid_chan dir j None (cs c))) m"
    by (rule mux_gone [OF m(1) A orig]) (use key m(2) in simp)
  moreover have "num_circuits d x' = of_nat (card (users (cs(c := put_circid_chan dir j None (cs c))) d ch))" for d
  proof -
    have cu: "c \<in> users cs dir ch" using key by (auto simp: users_def)
    have u: "of_nat (card (users cs dir ch - {c})) = (of_nat (card (users cs dir ch)) - 1 :: u32)"
      using card.remove [OF users_finite [OF wk] cu] by simp
    have "num_circuits d x = of_nat (card (users cs d ch))" using ex unfolding chan_exact_def by blast
    then show ?thesis
      using u by (cases "d = dir") (simp_all add: x'(2) num_circuits_add users_put [where cs = cs and c = c and dir = dir, OF orig])
  qed
  ultimately show ?thesis using x'(1) unfolding chan_exact_def by blast
qed

lemma on_cmux_apply:
  "chans s ch = Some x \<Longrightarrow> cmux x = Some m \<Longrightarrow> f m = Some m' \<Longrightarrow> on_cmux ch f s = Some (set_cmux ch (Some m') s)"
  by (simp add: on_cmux_def)

lemma leave_ok:
  fixes s :: "('r::linorder, 'z) ewma_circuits_t"
  assumes ok: "ids_ok ops s" and orig: "dir = CELL_DIRECTION_IN \<longrightarrow> \<not> is_origin (circs s c)"
    and q: "queue_n dir (circs s c) = 0" and moves: "chan \<noteq> circuit_chan dir (circs s c) \<or> i \<noteq> circuit_circ_id dir (circs s c)"
    and cache: "\<And>k. key_of (circs s) (c, dir) = Some k \<Longrightarrow> last_circid_chan_ent s \<noteq> Some k"
    and detached: "\<And>k x m. marked_for_close (circs s c) \<Longrightarrow> key_of (circs s) (c, dir) = Some k \<Longrightarrow> chans s (fst k) = Some x \<Longrightarrow>
      cmux x = Some m \<Longrightarrow> k \<notin> dom (chanid_circid_map m)"
  shows "\<exists>s1. leave_circid_chan c dir i chan s = Some s1 \<and> ids_ok ops (set_circ c (put_circid_chan dir j None) s1) \<and> circs s1 = circs s \<and>
    ids_frame s s1 \<and> last_circid_chan_ent s1 = last_circid_chan_ent s \<and>
    chan_circid_map s1 = (case key_of (circs s) (c, dir) of Some k \<Rightarrow> (chan_circid_map s)(k := None) | None \<Rightarrow> chan_circid_map s)"
proof (cases "circuit_chan dir (circs s c)")
  case None
  let ?s = "set_circ c (put_circid_chan dir j None) s"
  have key: "key_of (circs s) (c, dir) = None" using None by (simp add: key_of_circuit [where cs = "circs s" and c = c and dir = dir, OF orig])
  have l: "leave_circid_chan c dir i chan s = Some s" using None by (simp add: leave_circid_chan_def Let_def)
  have K: "key_of (circs ?s) = (key_of (circs s))((c, dir) := None)"
    using key_of_put [where cs = "circs s" and c = c and dir = dir, OF orig, of j None] by (simp add: set_circ_def)
  have wk: "well_keyed (circs s)" "map_exact (circs s) (chan_circid_map s)" using ok by (simp_all add: ids_ok_def)
  have "chan_exact ops (circs ?s) ch x" if "chans s ch = Some x" for ch x
    unfolding set_circ_def using chan_exact_keep [where cs = "circs s" and c = c and dir = dir, OF _ orig, of ops ch x None j] ok that key
    by (simp add: ids_ok_def)
  moreover have "well_keyed (circs ?s)" using well_keyed_put [where cs = "circs s" and c = c and dir = dir, OF wk(1) orig, of None j] by (simp add: set_circ_def)
  moreover have "map_exact (circs ?s) (chan_circid_map ?s)"
    using map_exact_leave [where cs = "circs s" and c = c and dir = dir, OF wk(2,1) orig refl, of j] key by (simp add: set_circ_def)
  moreover have fr: "chans ?s = chans s" "last_circid_chan_ent ?s = last_circid_chan_ent s" "chan_circid_map ?s = chan_circid_map s"
    by (simp_all add: set_circ_def)
  moreover have "chans s (fst k) \<noteq> None" if "key_of (circs ?s) f = Some k" for f k
    using that ok unfolding K ids_ok_def by (metis fun_upd_apply option.distinct(1))
  ultimately have "ids_ok ops ?s" using ok unfolding ids_ok_def fr by blast
  then show ?thesis using l key by (simp add: ids_frame_def)
next
  case (Some oc)
  let ?cs = "circs s" and ?oid = "circuit_circ_id dir (circs s c)"
  have key: "key_of ?cs (c, dir) = Some (oc, ?oid)" using Some by (simp add: key_of_circuit [where cs = "circs s" and c = c and dir = dir, OF orig])
  have wk: "well_keyed ?cs" "map_exact ?cs (chan_circid_map s)" using ok by (simp_all add: ids_ok_def)
  have oid: "?oid \<noteq> 0" using wk(1) key unfolding well_keyed_def by fastforce
  obtain x where x: "chans s oc = Some x" using ok key unfolding ids_ok_def by fastforce
  then have ex: "chan_exact ops ?cs oc x" using ok by (simp add: ids_ok_def)
  then obtain m where m: "cmux x = Some m" "mux_exact ops {} oc ?cs m" unfolding chan_exact_def by blast
  have mv: "chan \<noteq> Some oc \<or> ?oid \<noteq> i" using moves Some by auto
  have "\<exists>m1 A. (if ?oid \<noteq> 0 \<and> (chan \<noteq> Some oc \<or> ?oid \<noteq> i) \<and> \<not> marked_for_close (?cs c)
      then on_cmux oc (circuitmux_detach_circuit (policy_globals s) c (?cs c)) s else Some s) = Some (set_cmux oc (Some m1) s) \<and>
    mux_exact ops A oc ?cs m1 \<and> A \<subseteq> {(c, dir)} \<and> (oc, ?oid) \<notin> dom (chanid_circid_map m1)"
  proof (cases "marked_for_close (?cs c)")
    case True
    have "set_cmux oc (Some m) s = s" using x m(1) by (simp add: set_cmux_def set_chan_def fun_upd_idem)
    then show ?thesis using True m(2) detached [OF True key] x m(1) by (intro exI [of _ m] exI [of _ "{}"]) simp
  next
    case False
    have "(oc, ?oid) \<in> dom (chanid_circid_map m)"
      using m(2) key False unfolding mux_exact_def by (metis empty_iff fst_conv)
    from mux_detach [OF m(2) wk(1) key this q, of "policy_globals s"] obtain m' where
      "circuitmux_detach_circuit (policy_globals s) c (?cs c) m = Some m'" "mux_exact ops {(c, dir)} oc ?cs m'"
      "(oc, ?oid) \<notin> dom (chanid_circid_map m')" by blast
    then show ?thesis using False oid mv on_cmux_apply [OF x m(1)] by (intro exI [of _ m'] exI [of _ "{(c, dir)}"]) simp
  qed
  then obtain m1 A where m1: "(if ?oid \<noteq> 0 \<and> (chan \<noteq> Some oc \<or> ?oid \<noteq> i) \<and> \<not> marked_for_close (?cs c)
      then on_cmux oc (circuitmux_detach_circuit (policy_globals s) c (?cs c)) s else Some s) = Some (set_cmux oc (Some m1) s)"
    "mux_exact ops A oc ?cs m1" "A \<subseteq> {(c, dir)}" "(oc, ?oid) \<notin> dom (chanid_circid_map m1)" by blast
  have inM: "chan_circid_map s (oc, ?oid) \<noteq> None" "\<exists>e. chan_circid_map s (oc, ?oid) = Some e \<and> circuit e = Some c"
    using map_exact_at [OF wk(2), of "(oc, ?oid)" c] key by auto
  define x' where "x' = add_num_circuits dir (-1) (x\<lparr>cmux := Some m1\<rparr>)"
  define s1 where "s1 = s\<lparr>chans := (chans s)(oc \<mapsto> x'), chan_circid_map := (chan_circid_map s)((oc, ?oid) := None)\<rparr>"
  have l: "leave_circid_chan c dir i chan s = Some s1"
    using Some m1(1) inM(1) x by (simp add: leave_circid_chan_def Let_def s1_def x'_def set_cmux_def set_chan_def)
  let ?cs' = "?cs(c := put_circid_chan dir j None (?cs c))"
  have K: "key_of ?cs' = (key_of ?cs)((c, dir) := None)"
    using key_of_put [where cs = ?cs and c = c and dir = dir, OF orig, of j None] by simp
  have ce: "chan_exact ops ?cs' ch y" if "chans s1 ch = Some y" for ch y
  proof (cases "ch = oc")
    case True
    have "num_circuits d (x\<lparr>cmux := Some m1\<rparr>) = num_circuits d x" for d by (simp add: num_circuits_def)
    then have "chan_exact ops ?cs' oc x'"
      by (intro chan_exact_leave [OF ex wk(1) orig key m1(3,2,4)]) (simp_all add: x'_def num_circuits_add)
    then show ?thesis using True that by (simp add: s1_def)
  next
    case False
    then have "chan_exact ops ?cs ch y" using that ok by (simp add: s1_def ids_ok_def)
    then show ?thesis by (rule chan_exact_keep [where cs = "circs s" and c = c and dir = dir, OF _ orig]) (use key False in auto)
  qed
  have "chans s1 (fst k) \<noteq> None" if "key_of ?cs' f = Some k" for f k
  proof -
    have "key_of ?cs f = Some k" using that unfolding K by (simp split: if_splits)
    then have "chans s (fst k) \<noteq> None" using ok unfolding ids_ok_def by blast
    then show ?thesis by (simp add: s1_def)
  qed
  moreover have "well_keyed ?cs'" using well_keyed_put [where cs = ?cs and c = c and dir = dir, OF wk(1) orig, of None j] by simp
  moreover have "map_exact ?cs' (chan_circid_map s1)"
    using map_exact_leave [where cs = ?cs and c = c and dir = dir, OF wk(2,1) orig refl, of j] key by (simp add: s1_def)
  moreover have "k \<in> dom (chan_circid_map s1)" if "last_circid_chan_ent s1 = Some k" for k
    using that ok cache key by (auto simp: s1_def ids_ok_def)
  moreover have set: "circs (set_circ c (put_circid_chan dir j None) s1) = ?cs'" "chans (set_circ c (put_circid_chan dir j None) s1) = chans s1"
      "chan_circid_map (set_circ c (put_circid_chan dir j None) s1) = chan_circid_map s1"
      "last_circid_chan_ent (set_circ c (put_circid_chan dir j None) s1) = last_circid_chan_ent s1"
    by (simp_all add: set_circ_def s1_def)
  ultimately have "ids_ok ops (set_circ c (put_circid_chan dir j None) s1)"
    using ce unfolding ids_ok_def set by blast
  moreover have "placeholders s1 = placeholders s" using inM(2) by (auto simp: placeholders_def s1_def)
  then have "ids_frame s s1" using x by (auto simp: ids_frame_def s1_def)
  ultimately show ?thesis using l key by (simp add: s1_def)
qed

lemma mux_not_used:
  assumes "mux_exact ops A ch cs m" and "map_exact cs M" and "k \<notin> dom M"
  shows "k \<notin> dom (chanid_circid_map m)"
proof
  assume "k \<in> dom (chanid_circid_map m)"
  then obtain e where "chanid_circid_map m k = Some e" by blast
  from mux_entry [OF assms(1) this] obtain c d where "key_of cs (c, d) = Some k" by auto
  then show False using map_exact_at [OF assms(2), of k c] assms(3) by blast
qed

lemma take_ok:
  fixes s :: "('r::linorder, 'z) ewma_circuits_t"
  assumes ok: "ids_ok ops s" and orig: "dir = CELL_DIRECTION_IN \<longrightarrow> \<not> is_origin (circs s c)"
    and q: "queue_n dir (circs s c) = 0" and none: "circuit_chan dir (circs s c) = None" and unmarked: "\<not> marked_for_close (circs s c)"
    and x: "chans s ch = Some x" and i: "i \<noteq> 0" and new: "(ch, i) \<notin> dom (chan_circid_map s)"
    and turn: "is_origin (circs s c) \<or> (if dir = CELL_DIRECTION_OUT then p_chan (circs s c) else n_chan (circs s c)) \<noteq> Some ch"
    and moves: "old_chan \<noteq> Some ch \<or> old_id \<noteq> i"
  shows "\<exists>s1. take_circid_chan c dir i ch old_chan old_id (set_circ c (put_circid_chan dir i (Some ch)) s) = Some s1 \<and> ids_ok ops s1 \<and>
    circs s1 = (circs s)(c := put_circid_chan dir i (Some ch) (circs s c)) \<and>
    ids_frame s s1 \<and> last_circid_chan_ent s1 = last_circid_chan_ent s \<and>
    chan_circid_map s1 = (chan_circid_map s)((ch, i) \<mapsto> \<lparr>circuit = Some c, made_placeholder_at = 0\<rparr>)"
proof -
  let ?cs = "circs s" and ?cs' = "(circs s)(c := put_circid_chan dir i (Some ch) (circs s c))"
  have wk: "well_keyed ?cs" "map_exact ?cs (chan_circid_map s)" using ok by (simp_all add: ids_ok_def)
  have key: "key_of ?cs (c, dir) = None" using none by (simp add: key_of_circuit [where cs = "circs s" and c = c and dir = dir, OF orig])
  have unused: "key_of ?cs f \<noteq> Some (ch, i)" for f
    using map_exact_at [OF wk(2), of "(ch, i)" "fst f"] new by (metis domI prod.collapse)
  have wk': "well_keyed ?cs'"
    by (rule well_keyed_put [where cs = ?cs and c = c and dir = dir, OF wk(1) orig]) (use i unused turn in auto)
  have K: "key_of ?cs' = (key_of ?cs)((c, dir) \<mapsto> (ch, i))"
    using key_of_put [where cs = ?cs and c = c and dir = dir, OF orig, of i "Some ch"] by simp
  have ex: "chan_exact ops ?cs ch x" using ok x by (simp add: ids_ok_def)
  then obtain m where m: "cmux x = Some m" "mux_exact ops {} ch ?cs m" unfolding chan_exact_def by blast
  have nm: "(ch, i) \<notin> dom (chanid_circid_map m)" by (rule mux_not_used [OF m(2) wk(2) new])
  have "mux_exact ops {(c, dir)} ch ?cs' m"
    by (rule mux_rekey [where cs = ?cs and c = c and dir = dir, OF m(2) orig]) (use key nm in auto)
  from mux_attach [OF this wk' _ nm, of "policy_globals s"] q K obtain m' where
    at: "circuitmux_attach_circuit (policy_globals s) c (?cs' c) dir m = Some m'" "mux_exact ops {} ch ?cs' m'" by auto
  define x' where "x' = add_num_circuits dir 1 (x\<lparr>cmux := Some m'\<rparr>)"
  define s1 where "s1 = s\<lparr>circs := ?cs', chans := (chans s)(ch \<mapsto> x'),
    chan_circid_map := (chan_circid_map s)((ch, i) \<mapsto> \<lparr>circuit = Some c, made_placeholder_at = 0\<rparr>)\<rparr>"
  have t: "take_circid_chan c dir i ch old_chan old_id (set_circ c (put_circid_chan dir i (Some ch)) s) = Some s1"
  proof -
    have "dir = CELL_DIRECTION_OUT \<Longrightarrow> n_chan_cells_n (?cs c) = 0" "dir = CELL_DIRECTION_IN \<Longrightarrow> p_chan_cells_n (?cs c) = 0"
      using q by (simp_all add: queue_n_def)
    then show ?thesis
      using at(1) x m(1) i moves unmarked by (cases dir) (simp_all add: take_circid_chan_def set_circ_def on_cmux_def Let_def s1_def x'_def set_cmux_def set_chan_def)
  qed
  have ce: "chan_exact ops ?cs' ch' y" if "chans s1 ch' = Some y" for ch' y
  proof (cases "ch' = ch")
    case True
    have "c \<notin> users ?cs dir ch" using key by (simp add: users_def)
    then have "of_nat (card (insert c (users ?cs dir ch))) = (of_nat (card (users ?cs dir ch)) + 1 :: u32)"
      using users_finite [OF wk(1)] by simp
    moreover have "num_circuits d x = of_nat (card (users ?cs d ch))" for d using ex unfolding chan_exact_def by blast
    moreover have "num_circuits d (x\<lparr>cmux := Some m'\<rparr>) = num_circuits d x" for d by (simp add: num_circuits_def)
    ultimately have "num_circuits d x' = of_nat (card (users ?cs' d ch))" for d
      by (cases "d = dir") (simp_all add: x'_def num_circuits_add users_put [where cs = ?cs and c = c and dir = dir, OF orig])
    moreover have "cmux x' = Some m'" by (simp add: x'_def num_circuits_add)
    ultimately show ?thesis using True that at(2) unfolding chan_exact_def by (simp add: s1_def)
  next
    case False
    then have "chan_exact ops ?cs ch' y" using that ok by (simp add: s1_def ids_ok_def)
    then show ?thesis by (rule chan_exact_keep [where cs = ?cs and c = c and dir = dir, OF _ orig]) (use key False in auto)
  qed
  have "chans s1 (fst k) \<noteq> None" if "key_of ?cs' f = Some k" for f k
  proof (cases "f = (c, dir)")
    case True
    then show ?thesis using that unfolding K by (auto simp: s1_def)
  next
    case False
    then have "key_of ?cs f = Some k" using that unfolding K by simp
    then have "chans s (fst k) \<noteq> None" using ok unfolding ids_ok_def by blast
    then show ?thesis by (simp add: s1_def)
  qed
  moreover have "map_exact ?cs' (chan_circid_map s1)"
    using map_exact_take [where cs = ?cs and c = c and dir = dir, OF wk(2) orig new key] by (simp add: s1_def)
  moreover have "k \<in> dom (chan_circid_map s1)" if "last_circid_chan_ent s1 = Some k" for k
    using that ok by (auto simp: s1_def ids_ok_def)
  moreover have c: "circs s1 = ?cs'" by (simp add: s1_def)
  ultimately have "ids_ok ops s1" using wk' ce unfolding ids_ok_def c by blast
  moreover have "placeholders s1 = placeholders s" using new by (auto simp: placeholders_def s1_def)
  then have "ids_frame s s1" using x by (auto simp: ids_frame_def s1_def)
  ultimately show ?thesis using t c by (simp add: s1_def)
qed

section \<open>Pending DESTROY cells\<close>

definition delete_pending :: "cell_direction_t \<Rightarrow> ('g, 'pd, 'cd, 'z) circuits_t_scheme \<Rightarrow> circuit_name set" where
  "delete_pending dir s = (if dir = CELL_DIRECTION_OUT then n_delete_pending s else p_delete_pending s)"

definition flags_ok :: "('g, 'pd, 'cd, 'z) circuits_t_scheme \<Rightarrow> bool" where
  "flags_ok s \<longleftrightarrow> (\<forall>c dir. c \<in> delete_pending dir s \<longrightarrow> key_of (circs s) (c, dir) \<noteq> None)"

text \<open>The keys that wait for a DESTROY cell.\<close>

definition waiting :: "('g, 'pd, 'cd, 'z) circuits_t_scheme \<Rightarrow> mux_key set" where
  "waiting s = placeholders s \<union> {k. \<exists>f. fst f \<in> delete_pending (snd f) s \<and> key_of (circs s) f = Some k}"

lemma ids_cong:
  "circs s' = circs s \<Longrightarrow> chans s' = chans s \<Longrightarrow> chan_circid_map s' = chan_circid_map s \<Longrightarrow>
    (\<And>k. last_circid_chan_ent s' = Some k \<Longrightarrow> k \<in> dom (chan_circid_map s)) \<Longrightarrow> ids_ok ops s \<Longrightarrow> ids_ok ops s'"
  unfolding ids_ok_def by simp

lemma ids_key_circuit:
  assumes "ids_ok ops s"
  shows "(\<exists>e. chan_circid_map s k = Some e \<and> circuit e = Some c) \<longleftrightarrow> (\<exists>dir. key_of (circs s) (c, dir) = Some k)"
  using assms map_exact_at [of "circs s" "chan_circid_map s" k c] unfolding ids_ok_def by blast

lemma ids_inj: "ids_ok ops s \<Longrightarrow> key_of (circs s) f = Some k \<Longrightarrow> key_of (circs s) f' = Some k \<Longrightarrow> f = f'"
  unfolding ids_ok_def well_keyed_def by blast

lemma placeholder_unused:
  assumes "ids_ok ops s" and "k \<in> placeholders s"
  shows "key_of (circs s) f \<noteq> Some k"
proof
  assume "key_of (circs s) f = Some k"
  then have "\<exists>e. chan_circid_map s k = Some e \<and> circuit e = Some (fst f)"
    using ids_key_circuit [OF assms(1), of k "fst f"] by (metis prod.collapse)
  then show False using assms(2) by (auto simp: placeholders_def)
qed

lemma lookup_ok:
  assumes ok: "ids_ok ops s"
  shows "\<exists>k'. circuit_get_by_circid_channel_impl i ch s =
      Some (Option.bind (chan_circid_map s (ch, i)) circuit, chan_circid_map s (ch, i) \<noteq> None, s\<lparr>last_circid_chan_ent := k'\<rparr>) \<and>
    ids_ok ops (s\<lparr>last_circid_chan_ent := k'\<rparr>)"
proof (cases "last_circid_chan_ent s = Some (ch, i)")
  case True
  then obtain e where "chan_circid_map s (ch, i) = Some e" using ok unfolding ids_ok_def by blast
  moreover have "s\<lparr>last_circid_chan_ent := Some (ch, i)\<rparr> = s" using True by simp
  then have "ids_ok ops (s\<lparr>last_circid_chan_ent := Some (ch, i)\<rparr>)" using ok by (simp only:)
  ultimately show ?thesis using True
    by (intro exI [of _ "Some (ch, i)"]) (simp add: circuit_get_by_circid_channel_impl_def)
next
  case False
  let ?k = "if chan_circid_map s (ch, i) \<noteq> None then Some (ch, i) else None"
  have "ids_ok ops (s\<lparr>last_circid_chan_ent := ?k\<rparr>)"
    by (rule ids_cong [OF _ _ _ _ ok]) (auto split: if_splits)
  then show ?thesis using False by (intro exI [of _ ?k]) (simp add: circuit_get_by_circid_channel_impl_def Let_def)
qed

lemma cache_frame [simp]:
  "flags_ok (s\<lparr>last_circid_chan_ent := k\<rparr>) = flags_ok s" "waiting (s\<lparr>last_circid_chan_ent := k\<rparr>) = waiting s"
  by (simp_all add: flags_ok_def waiting_def delete_pending_def placeholders_def)

lemma cache_frame2:
  "placeholders (s\<lparr>last_circid_chan_ent := k\<rparr>) = placeholders s" "delete_pending d (s\<lparr>last_circid_chan_ent := k\<rparr>) = delete_pending d s"
  by (simp_all add: placeholders_def delete_pending_def)

text \<open>Adding and removing placeholders.\<close>

lemma mark_unusable_ok:
  assumes ok: "ids_ok ops s" and free: "\<And>f. key_of (circs s) f \<noteq> Some (ch, i)"
  shows "ids_ok ops (channel_mark_circid_unusable ch i s) \<and> circs (channel_mark_circid_unusable ch i s) = circs s \<and>
    delete_pending dir (channel_mark_circid_unusable ch i s) = delete_pending dir s \<and>
    placeholders (channel_mark_circid_unusable ch i s) = insert (ch, i) (placeholders s)"
proof -
  let ?M = "chan_circid_map s"
  have np: "\<not> (\<exists>e. ?M (ch, i) = Some e \<and> circuit e = Some c)" for c
    using ids_key_circuit [OF ok] free by blast
  have put: "ids_ok ops (s\<lparr>chan_circid_map := ?M((ch, i) \<mapsto> e)\<rparr>)" if "circuit e = None" for e
  proof -
    have "(\<exists>e'. (?M((ch, i) \<mapsto> e)) k = Some e' \<and> circuit e' = Some c) \<longleftrightarrow> (\<exists>e'. ?M k = Some e' \<and> circuit e' = Some c)" for k c
      using np that by (cases "k = (ch, i)") auto
    then have "map_exact (circs s) (?M((ch, i) \<mapsto> e))" using ok unfolding ids_ok_def map_exact_def by simp
    then show ?thesis using ok unfolding ids_ok_def by (simp add: domI)
  qed
  show ?thesis
  proof (cases "?M (ch, i)")
    case None
    then show ?thesis using put [of "\<lparr>circuit = None, made_placeholder_at = time_now s\<rparr>"]
      by (auto simp: channel_mark_circid_unusable_def delete_pending_def placeholders_def)
  next
    case (Some e)
    then have e: "circuit e = None" using np by (cases "circuit e") auto
    then show ?thesis using put [of "e\<lparr>made_placeholder_at := time_now s\<rparr>"] ok Some
      by (auto simp: channel_mark_circid_unusable_def delete_pending_def placeholders_def)
  qed
qed

lemma mark_usable_ok:
  assumes ok: "ids_ok ops s" and free: "\<And>f. key_of (circs s) f \<noteq> Some (ch, i)"
  shows "ids_ok ops (channel_mark_circid_usable ch i s) \<and> circs (channel_mark_circid_usable ch i s) = circs s \<and>
    delete_pending dir (channel_mark_circid_usable ch i s) = delete_pending dir s \<and>
    placeholders (channel_mark_circid_usable ch i s) = placeholders s - {(ch, i)}"
proof (cases "chan_circid_map s (ch, i)")
  case None
  then show ?thesis using ok by (auto simp: channel_mark_circid_usable_def placeholders_def)
next
  case (Some e)
  let ?M = "chan_circid_map s"
  have e: "circuit e = None" using ids_key_circuit [OF ok, of "(ch, i)"] free Some by (cases "circuit e") blast+
  have "(\<exists>e'. (?M((ch, i) := None)) k = Some e' \<and> circuit e' = Some c) \<longleftrightarrow> (\<exists>e'. ?M k = Some e' \<and> circuit e' = Some c)" for k c
    using e Some by (cases "k = (ch, i)") auto
  then have me: "map_exact (circs s) (?M((ch, i) := None))" using ok unfolding ids_ok_def map_exact_def by simp
  let ?s = "channel_mark_circid_usable ch i s"
  have s: "circs ?s = circs s" "chans ?s = chans s" "chan_circid_map ?s = ?M((ch, i) := None)"
      "last_circid_chan_ent ?s = (if last_circid_chan_ent s = Some (ch, i) then None else last_circid_chan_ent s)"
      "delete_pending dir ?s = delete_pending dir s"
    using Some e by (simp_all add: channel_mark_circid_usable_def Let_def delete_pending_def)
  have "ids_ok ops ?s" using ok me unfolding ids_ok_def s by (auto split: if_splits)
  moreover have "placeholders ?s = placeholders s - {(ch, i)}" unfolding placeholders_def s by auto
  ultimately show ?thesis using s by blast
qed

section \<open>The operations\<close>

definition detached :: "circuit_name \<Rightarrow> cell_direction_t \<Rightarrow> ('g, 'pd, 'cd, 'z) registry_t_scheme \<Rightarrow> bool" where
  "detached c dir s \<longleftrightarrow> (case key_of (circs s) (c, dir) of None \<Rightarrow> True
     | Some k \<Rightarrow> (case Option.bind (chans s (fst k)) cmux of None \<Rightarrow> True | Some m \<Rightarrow> chanid_circid_map m k = None))"

text \<open>What the callers see to when a circuit gets a channel and an ID, or gives them up: its queue is empty; a new ID is free, and not
  on the channel the circuit comes from; and a circuit that was marked was detached and gets nothing new.\<close>

definition may_set :: "circuit_name \<Rightarrow> cell_direction_t \<Rightarrow> u32 \<Rightarrow> u64 option \<Rightarrow> ('g, 'pd, 'cd, 'z) circuits_t_scheme \<Rightarrow> bool" where
  "may_set c dir i chan s \<longleftrightarrow> \<not> (dir = CELL_DIRECTION_IN \<and> is_origin (circs s c)) \<and> queue_n dir (circs s c) = 0 \<and>
     (case chan of
        None \<Rightarrow> i = 0 \<and> (\<not> marked_for_close (circs s c) \<or> detached c dir s)
      | Some ch \<Rightarrow> i \<noteq> 0 \<and> \<not> marked_for_close (circs s c) \<and> chans s ch \<noteq> None \<and>
          map_option fst (circuit_id_in_use_on_channel i ch s) = Some 0 \<and>
          (is_origin (circs s c) \<or> (if dir = CELL_DIRECTION_OUT then p_chan (circs s c) else n_chan (circs s c)) \<noteq> Some ch))"

lemma id_in_use:
  assumes "ids_ok ops s"
  shows "\<exists>s1. circuit_id_in_use_on_channel i ch s =
    Some (if \<exists>f. key_of (circs s) f = Some (ch, i) then 1 else if (ch, i) \<in> placeholders s then 2 else 0, s1)"
proof -
  obtain k' where l: "circuit_get_by_circid_channel_impl i ch s =
      Some (Option.bind (chan_circid_map s (ch, i)) circuit, chan_circid_map s (ch, i) \<noteq> None, s\<lparr>last_circid_chan_ent := k'\<rparr>)"
    using lookup_ok [OF assms] by blast
  have u: "(\<exists>f. key_of (circs s) f = Some (ch, i)) \<longleftrightarrow> (\<exists>e c. chan_circid_map s (ch, i) = Some e \<and> circuit e = Some c)"
    using ids_key_circuit [OF assms, of "(ch, i)"] by (metis prod.collapse)
  show ?thesis
  proof (cases "chan_circid_map s (ch, i)")
    case (Some e)
    then show ?thesis using l u by (cases "circuit e") (simp_all add: circuit_id_in_use_on_channel_def placeholders_def)
  qed (use l u in \<open>simp add: circuit_id_in_use_on_channel_def placeholders_def\<close>)
qed

lemma not_in_use:
  assumes "ids_ok ops s" and "map_option fst (circuit_id_in_use_on_channel i ch s) = Some 0"
  shows "chan_circid_map s (ch, i) = None"
proof (cases "chan_circid_map s (ch, i)")
  case (Some e)
  have "(\<exists>f. key_of (circs s) f = Some (ch, i)) \<or> (ch, i) \<in> placeholders s"
  proof (cases "circuit e")
    case None
    then show ?thesis using Some by (simp add: placeholders_def)
  next
    case (Some c)
    then show ?thesis using ids_key_circuit [OF assms(1), of "(ch, i)" c] \<open>chan_circid_map s (ch, i) = Some e\<close> by blast
  qed
  then show ?thesis using id_in_use [OF assms(1), of i ch] assms(2) by (auto split: if_splits)
qed

lemma helper_ok:
  fixes s :: "('r::linorder, 'z) ewma_circuits_t"
  assumes ok: "ids_ok ops s" and may: "may_set c dir i chan s"
  shows "\<exists>s1. circuit_set_circid_chan_helper c dir i chan s = Some s1 \<and> ids_ok ops s1 \<and> ids_frame s s1 \<and>
    key_of (circs s1) = (key_of (circs s))((c, dir) := map_option (\<lambda>ch. (ch, i)) chan)"
proof -
  let ?cs = "circs s"
  have orig: "dir = CELL_DIRECTION_IN \<longrightarrow> \<not> is_origin (?cs c)" and q: "queue_n dir (?cs c) = 0"
    using may by (auto simp: may_set_def)
  have key: "key_of ?cs (c, dir) = map_option (\<lambda>ch. (ch, circuit_circ_id dir (?cs c))) (circuit_chan dir (?cs c))"
    by (rule key_of_circuit [where cs = "circs s" and c = c and dir = dir, OF orig])
  show ?thesis
  proof (cases "i = circuit_circ_id dir (?cs c) \<and> chan = circuit_chan dir (?cs c)")
    case True
    then have "key_of ?cs (c, dir) = map_option (\<lambda>ch. (ch, i)) chan" using key by simp
    then have "(key_of ?cs)((c, dir) := map_option (\<lambda>ch. (ch, i)) chan) = key_of ?cs" by (rule fun_upd_idem)
    then show ?thesis using True orig ok by (simp add: circuit_set_circid_chan_helper_def Let_def ids_frame_def)
  next
    case False
    define s1 where "s1 = (case last_circid_chan_ent s of
        Some e \<Rightarrow> if circuit_chan dir (?cs c) = Some (fst e) \<and> circuit_circ_id dir (?cs c) = snd e \<or> chan = Some (fst e) \<and> i = snd e
                  then s\<lparr>last_circid_chan_ent := None\<rparr> else s
      | None \<Rightarrow> s)"
    have s1c: "s1 = s\<lparr>last_circid_chan_ent := last_circid_chan_ent s1\<rparr>" "last_circid_chan_ent s1 \<in> {None, last_circid_chan_ent s}"
      by (auto simp: s1_def split: option.split)
    have s1: "circs s1 = ?cs" "chans s1 = chans s" "chan_circid_map s1 = chan_circid_map s" "ids_frame s s1"
      by (subst s1c(1), simp add: ids_frame_def placeholders_def)+
    have "k \<in> dom (chan_circid_map s)" if "last_circid_chan_ent s1 = Some k" for k
    proof -
      have "last_circid_chan_ent s = Some k" using s1c(2) that by auto
      then show ?thesis using ok unfolding ids_ok_def by blast
    qed
    then have ok1: "ids_ok ops s1" by (rule ids_cong [OF s1(1-3) _ ok])
    have cold: "last_circid_chan_ent s1 \<noteq> Some k" if "key_of (circs s1) (c, dir) = Some k" for k
      using that key by (auto simp: s1 s1_def split: option.split)
    have det: "k \<notin> dom (chanid_circid_map m)"
      if "marked_for_close (circs s1 c)" "key_of (circs s1) (c, dir) = Some k" "chans s1 (fst k) = Some x" "cmux x = Some m" for k x m
      using that may by (cases chan) (auto simp: s1 may_set_def detached_def)
    obtain s2 where s2: "leave_circid_chan c dir i chan s1 = Some s2" "ids_ok ops (set_circ c (put_circid_chan dir 0 None) s2)"
        "circs s2 = circs s1" "ids_frame s1 s2" "last_circid_chan_ent s2 = last_circid_chan_ent s1"
        "chan_circid_map s2 = (case key_of (circs s1) (c, dir) of Some k \<Rightarrow> (chan_circid_map s1)(k := None) | None \<Rightarrow> chan_circid_map s1)"
      using leave_ok [OF ok1, of dir c chan i 0] orig q False cold det by (auto simp: s1(1))
    have h: "circuit_set_circid_chan_helper c dir i chan s =
        (case chan of None \<Rightarrow> Some (set_circ c (put_circid_chan dir i chan) s2)
         | Some ch \<Rightarrow> take_circid_chan c dir i ch (circuit_chan dir (?cs c)) (circuit_circ_id dir (?cs c)) (set_circ c (put_circid_chan dir i chan) s2))"
      using False orig s2(1) unfolding circuit_set_circid_chan_helper_def Let_def s1_def [symmetric] by auto
    let ?s = "set_circ c (put_circid_chan dir 0 None) s2"
    have K: "key_of (circs ?s) = (key_of ?cs)((c, dir) := None)"
      using key_of_put [where cs = ?cs and c = c and dir = dir, OF orig, of 0 None] by (simp add: set_circ_def s2(3) s1(1))
    have fr: "ids_frame s ?s" using s1(4) s2(4) by (simp add: ids_frame_def placeholders_def set_circ_def)
    show ?thesis
    proof (cases chan)
      case None
      then have "i = 0" using may by (simp add: may_set_def)
      then show ?thesis using None h s2(2) K fr by simp
    next
      case (Some ch)
      have c: "i \<noteq> 0" "\<not> marked_for_close (?cs c)" "chans s ch \<noteq> None" "chan_circid_map s (ch, i) = None"
          "is_origin (?cs c) \<or> (if dir = CELL_DIRECTION_OUT then p_chan (?cs c) else n_chan (?cs c)) \<noteq> Some ch"
        using may Some not_in_use [OF ok] by (auto simp: may_set_def)
      have "chans ?s ch \<noteq> None" using c(3) fr unfolding ids_frame_def by blast
      then obtain x where x: "chans ?s ch = Some x" by blast
      have e: "circs ?s c = put_circid_chan dir 0 None (?cs c)" by (simp add: set_circ_def s2(3) s1(1))
      have new: "(ch, i) \<notin> dom (chan_circid_map ?s)"
        using c(4) by (auto simp: set_circ_def s2(6) s1 split: option.split)
      have pc: "circuit_chan dir (put_circid_chan dir 0 None (?cs c)) = None" "p_chan (put_circid_chan CELL_DIRECTION_OUT 0 None (?cs c)) = p_chan (?cs c)"
          "n_chan (put_circid_chan CELL_DIRECTION_IN 0 None (?cs c)) = n_chan (?cs c)"
        by (simp_all add: circuit_chan_def put_circid_chan_def)
      have turn: "is_origin (circs ?s c) \<or> (if dir = CELL_DIRECTION_OUT then p_chan (circs ?s c) else n_chan (circs ?s c)) \<noteq> Some ch"
        using c(5) pc unfolding e by (cases dir) auto
      have mv: "circuit_chan dir (?cs c) \<noteq> Some ch \<or> circuit_circ_id dir (?cs c) \<noteq> i" using False Some by auto
      have put: "set_circ c (put_circid_chan dir i (Some ch)) ?s = set_circ c (put_circid_chan dir i chan) s2"
        by (simp add: set_circ_def Some)
      obtain s3 where s3: "take_circid_chan c dir i ch (circuit_chan dir (?cs c)) (circuit_circ_id dir (?cs c)) (set_circ c (put_circid_chan dir i (Some ch)) ?s) = Some s3"
          "ids_ok ops s3" "circs s3 = (circs ?s)(c := put_circid_chan dir i (Some ch) (circs ?s c))" "ids_frame ?s s3"
        using take_ok [OF s2(2) _ _ _ _ x c(1) new turn mv] orig q c(2) pc(1) unfolding e by auto
      have "key_of (circs s3) = (key_of ?cs)((c, dir) \<mapsto> (ch, i))"
      proof -
        have "dir = CELL_DIRECTION_IN \<longrightarrow> \<not> is_origin (circs ?s c)" unfolding e put_keeps by (rule orig)
        from key_of_put [where cs = "circs ?s" and c = c and dir = dir, OF this, of i "Some ch"] show ?thesis
          unfolding s3(3) K by simp
      qed
      moreover have "ids_frame s s3" using fr s3(4) by (simp add: ids_frame_def)
      ultimately show ?thesis using h Some s3(1,2) put by simp
    qed
  qed
qed

definition circuit_set_circid_chan ::
    "cell_direction_t \<Rightarrow> circuit_name \<Rightarrow> u32 \<Rightarrow> u64 option \<Rightarrow> ('g, 'pd, 'cd, 'z) circuits_t_scheme \<Rightarrow> ('g, 'pd, 'cd, 'z) circuits_t_scheme option" where
  "circuit_set_circid_chan dir = (if dir = CELL_DIRECTION_OUT then circuit_set_n_circid_chan else circuit_set_p_circid_chan)"

definition clear_flag :: "cell_direction_t \<Rightarrow> circuit_name \<Rightarrow> ('g, 'pd, 'cd, 'z) circuits_t_scheme \<Rightarrow> ('g, 'pd, 'cd, 'z) circuits_t_scheme" where
  "clear_flag dir c s = (if dir = CELL_DIRECTION_OUT then s\<lparr>n_delete_pending := n_delete_pending s - {c}\<rparr>
     else s\<lparr>p_delete_pending := p_delete_pending s - {c}\<rparr>)"

lemma mark_unusable_flags:
  "n_delete_pending (channel_mark_circid_unusable ch i s) = n_delete_pending s"
  "p_delete_pending (channel_mark_circid_unusable ch i s) = p_delete_pending s"
  by (simp_all add: channel_mark_circid_unusable_def split: option.split)

lemma set_circid_chan_unfold:
  "circuit_set_circid_chan dir c i chan s = do {
     s1 \<leftarrow> circuit_set_circid_chan_helper c dir i chan s;
     Some (case circuit_chan dir (circs s c) of
         Some oc \<Rightarrow> if c \<in> delete_pending dir s1 then clear_flag dir c (channel_mark_circid_unusable oc (circuit_circ_id dir (circs s c)) s1) else s1
       | None \<Rightarrow> s1)
   }"
  by (cases dir) (simp_all add: circuit_set_circid_chan_def circuit_set_n_circid_chan_def circuit_set_p_circid_chan_def circuit_chan_def
      circuit_circ_id_def delete_pending_def clear_flag_def Let_def mark_unusable_flags cong: option.case_cong if_cong)

lemma clear_flag_frame:
  "circs (clear_flag dir c s) = circs s" "chans (clear_flag dir c s) = chans s" "chan_circid_map (clear_flag dir c s) = chan_circid_map s"
  "last_circid_chan_ent (clear_flag dir c s) = last_circid_chan_ent s" "placeholders (clear_flag dir c s) = placeholders s"
  "delete_pending d (clear_flag dir c s) = (if d = dir then delete_pending d s - {c} else delete_pending d s)"
  by (cases d; cases dir; simp add: clear_flag_def placeholders_def delete_pending_def)+

lemma clear_flag_ids: "ids_ok ops (clear_flag dir c s) = ids_ok ops s"
  by (simp add: ids_ok_def clear_flag_frame)

lemma set_ok:
  fixes s :: "('r::linorder, 'z) ewma_circuits_t"
  assumes ok: "ids_ok ops s" "flags_ok s" and may: "may_set c dir i chan s"
  shows "\<exists>s1. circuit_set_circid_chan dir c i chan s = Some s1 \<and> ids_ok ops s1 \<and> flags_ok s1 \<and> waiting s1 = waiting s \<and>
    key_of (circs s1) = (key_of (circs s))((c, dir) := map_option (\<lambda>ch. (ch, i)) chan)"
proof -
  let ?cs = "circs s" and ?new = "map_option (\<lambda>ch. (ch, i)) chan"
  obtain s1 where s1: "circuit_set_circid_chan_helper c dir i chan s = Some s1" "ids_ok ops s1" "ids_frame s s1"
      "key_of (circs s1) = (key_of ?cs)((c, dir) := ?new)" using helper_ok [OF ok(1) may] by blast
  have orig: "dir = CELL_DIRECTION_IN \<longrightarrow> \<not> is_origin (?cs c)" using may by (auto simp: may_set_def)
  have key: "key_of ?cs (c, dir) = map_option (\<lambda>ch. (ch, circuit_circ_id dir (?cs c))) (circuit_chan dir (?cs c))"
    by (rule key_of_circuit [where cs = "circs s" and c = c and dir = dir, OF orig])
  have fl: "delete_pending d s1 = delete_pending d s" "placeholders s1 = placeholders s" for d
    using s1(3) by (simp_all add: ids_frame_def delete_pending_def)
  show ?thesis
  proof (cases "c \<in> delete_pending dir s")
    case True
    then obtain oc where oc: "circuit_chan dir (?cs c) = Some oc" using ok(2) key by (fastforce simp: flags_ok_def)
    let ?k = "(oc, circuit_circ_id dir (?cs c))"
    have kk: "key_of ?cs (c, dir) = Some ?k" using key oc by simp
    have "?new \<noteq> Some ?k"
    proof
      assume "?new = Some ?k"
      then have "chan = Some oc" "i = circuit_circ_id dir (?cs c)" by auto
      then have "chan_circid_map s ?k = None" using may not_in_use [OF ok(1), of i oc] by (simp add: may_set_def)
      then show False using ids_key_circuit [OF ok(1), of ?k c] kk by auto
    qed
    then have free: "key_of (circs s1) f \<noteq> Some ?k" for f
      using ids_inj [OF ok(1) kk, of f] by (cases "f = (c, dir)") (auto simp: s1(4))
    define s2 where "s2 = clear_flag dir c (channel_mark_circid_unusable oc (circuit_circ_id dir (?cs c)) s1)"
    note mu = mark_unusable_ok [OF s1(2) free]
    have s2: "circs s2 = circs s1" "placeholders s2 = insert ?k (placeholders s)"
        "delete_pending d s2 = (if d = dir then delete_pending d s - {c} else delete_pending d s)" for d
      using mu fl by (simp_all add: s2_def clear_flag_frame)
    have ok2: "ids_ok ops s2"
      unfolding s2_def clear_flag_ids using mu by blast
    have flag: "fst f \<in> delete_pending (snd f) s2 \<longleftrightarrow> fst f \<in> delete_pending (snd f) s \<and> f \<noteq> (c, dir)" for f
      by (cases f) (auto simp: s2(3))
    have K: "key_of (circs s2) f = key_of ?cs f" if "f \<noteq> (c, dir)" for f using that by (simp add: s2(1) s1(4))
    have "flags_ok s2"
      unfolding flags_ok_def
    proof (intro allI impI)
      fix d e assume "d \<in> delete_pending e s2"
      then show "key_of (circs s2) (d, e) \<noteq> None" using flag [of "(d, e)"] K [of "(d, e)"] ok(2) by (simp add: flags_ok_def)
    qed
    moreover have "waiting s2 = waiting s"
    proof (rule set_eqI)
      fix k
      have "\<exists>f. fst f \<in> delete_pending (snd f) s \<and> key_of ?cs f = Some k" if "k = ?k"
        using True kk that by (intro exI [of _ "(c, dir)"]) simp
      moreover have "\<exists>f. fst f \<in> delete_pending (snd f) s \<and> key_of ?cs f = Some k"
        if "fst f \<in> delete_pending (snd f) s2" "key_of (circs s2) f = Some k" for f
        using flag [of f] K [of f] that by (intro exI [of _ f]) simp
      moreover have "k = ?k \<or> fst f \<in> delete_pending (snd f) s2 \<and> key_of (circs s2) f = Some k"
        if "fst f \<in> delete_pending (snd f) s" "key_of ?cs f = Some k" for f
      proof (cases "f = (c, dir)")
        case True
        then show ?thesis using that(2) kk by simp
      next
        case False
        then show ?thesis using that flag [of f] K [of f] by (intro disjI2) simp
      qed
      ultimately have "(\<exists>f. fst f \<in> delete_pending (snd f) s \<and> key_of ?cs f = Some k) \<longleftrightarrow>
          k = ?k \<or> (\<exists>f. fst f \<in> delete_pending (snd f) s2 \<and> key_of (circs s2) f = Some k)" by blast
      then show "k \<in> waiting s2 \<longleftrightarrow> k \<in> waiting s" unfolding waiting_def s2(2) by blast
    qed
    moreover have "circuit_set_circid_chan dir c i chan s = Some s2"
      using s1(1) oc True by (simp add: set_circid_chan_unfold fl s2_def)
    ultimately show ?thesis using ok2 by (intro exI [of _ s2]) (simp add: s2(1) s1(4))
  next
    case False
    have r: "circuit_set_circid_chan dir c i chan s = Some s1"
      using s1(1) False by (simp add: set_circid_chan_unfold fl split: option.split)
    have K: "key_of (circs s1) f = key_of ?cs f" if "fst f \<in> delete_pending (snd f) s" for f
      using that False by (cases "f = (c, dir)") (simp_all add: s1(4))
    have "flags_ok s1"
      unfolding flags_ok_def fl
    proof (intro allI impI)
      fix d e assume "d \<in> delete_pending e s"
      then show "key_of (circs s1) (d, e) \<noteq> None" using K [of "(d, e)"] ok(2) by (simp add: flags_ok_def)
    qed
    moreover have "waiting s1 = waiting s" 
    proof (rule set_eqI)
      fix k
      have "(\<exists>f. fst f \<in> delete_pending (snd f) s \<and> key_of (circs s1) f = Some k) \<longleftrightarrow>
          (\<exists>f. fst f \<in> delete_pending (snd f) s \<and> key_of ?cs f = Some k)"
        by (intro ex_cong1 conj_cong refl) (simp add: K)
      then show "k \<in> waiting s1 \<longleftrightarrow> k \<in> waiting s" unfolding waiting_def fl by simp
    qed
    ultimately show ?thesis using r s1(2,4) by blast
  qed
qed

lemma even_if_marked_ok:
  assumes "ids_ok ops s"
  shows "\<exists>k'. circuit_get_by_circid_channel_even_if_marked i ch s =
      Some (Option.bind (chan_circid_map s (ch, i)) circuit, s\<lparr>last_circid_chan_ent := k'\<rparr>) \<and>
    ids_ok ops (s\<lparr>last_circid_chan_ent := k'\<rparr>)"
proof -
  from lookup_ok [OF assms, of i ch] obtain k' where "circuit_get_by_circid_channel_impl i ch s =
      Some (Option.bind (chan_circid_map s (ch, i)) circuit, chan_circid_map s (ch, i) \<noteq> None, s\<lparr>last_circid_chan_ent := k'\<rparr>)"
    "ids_ok ops (s\<lparr>last_circid_chan_ent := k'\<rparr>)" by blast
  then show ?thesis by (intro exI [of _ k']) (simp add: circuit_get_by_circid_channel_even_if_marked_def)
qed

lemma set_delete_pending_ok:
  assumes ok: "ids_ok ops s" "flags_ok s" and key: "key_of (circs s) (c, dir) = Some (ch, i)"
  shows "\<exists>s1. set_delete_pending b ch i c s = Some s1 \<and> ids_ok ops s1 \<and> flags_ok s1 \<and> circs s1 = circs s \<and>
    waiting s1 = (if b then insert (ch, i) (waiting s) else waiting s - {(ch, i)})"
proof -
  let ?put = "\<lambda>A :: nat set. if b then insert c A else A - {c}"
  define s1 where "s1 = (if dir = CELL_DIRECTION_OUT then s\<lparr>n_delete_pending := ?put (n_delete_pending s)\<rparr>
    else s\<lparr>p_delete_pending := ?put (p_delete_pending s)\<rparr>)"
  have s1: "circs s1 = circs s" "chans s1 = chans s" "chan_circid_map s1 = chan_circid_map s" "last_circid_chan_ent s1 = last_circid_chan_ent s"
      "placeholders s1 = placeholders s" by (simp_all add: s1_def placeholders_def)
  have r: "set_delete_pending b ch i c s = Some s1"
  proof (cases dir)
    case CELL_DIRECTION_OUT
    then have "n_chan (circs s c) = Some ch" "n_circ_id (circs s c) = i" using key by (auto simp: key_of_def n_key_def)
    then show ?thesis using CELL_DIRECTION_OUT by (simp add: set_delete_pending_def s1_def)
  next
    case CELL_DIRECTION_IN
    then have p: "\<not> is_origin (circs s c)" "p_chan (circs s c) = Some ch" "p_circ_id (circs s c) = i"
      using key by (auto simp: key_of_def p_key_def split: if_splits)
    have "\<not> (n_chan (circs s c) = Some ch \<and> n_circ_id (circs s c) = i)"
      using ids_inj [OF ok(1) key, of "(c, CELL_DIRECTION_OUT)"] CELL_DIRECTION_IN by (auto simp: key_of_def n_key_def)
    then show ?thesis using p CELL_DIRECTION_IN by (auto simp: set_delete_pending_def s1_def)
  qed
  have ok1: "ids_ok ops s1" using ok(1) by (simp add: ids_ok_def s1)
  have flag: "fst f \<in> delete_pending (snd f) s1 \<longleftrightarrow> (if f = (c, dir) then b else fst f \<in> delete_pending (snd f) s)" for f
    by (cases f; cases dir; cases "snd f") (auto simp: s1_def delete_pending_def)
  have "flags_ok s1"
    unfolding flags_ok_def s1
  proof (intro allI impI)
    fix d e assume "d \<in> delete_pending e s1"
    then show "key_of (circs s) (d, e) \<noteq> None" using flag [of "(d, e)"] ok(2) key by (auto simp: flags_ok_def split: if_splits)
  qed
  moreover have "waiting s1 = (if b then insert (ch, i) (waiting s) else waiting s - {(ch, i)})"
  proof (rule set_eqI)
    fix k
    have u: "(ch, i) \<notin> placeholders s" using placeholder_unused [OF ok(1), of "(ch, i)" "(c, dir)"] key by blast
    have at: "(\<exists>f. fst f \<in> delete_pending (snd f) t \<and> key_of (circs s) f = Some (ch, i)) \<longleftrightarrow> c \<in> delete_pending dir t"
      for t :: "('a ewma_t, 'a ewma_policy_data_t, 'a ewma_policy_circ_data_t, 'b) circuits_t_scheme"
    proof
      assume "\<exists>f. fst f \<in> delete_pending (snd f) t \<and> key_of (circs s) f = Some (ch, i)"
      then obtain f where f: "fst f \<in> delete_pending (snd f) t" "key_of (circs s) f = Some (ch, i)" by blast
      from ids_inj [OF ok(1) key f(2)] f(1) show "c \<in> delete_pending dir t" by auto
    qed (use key in \<open>intro exI [of _ "(c, dir)"], simp\<close>)
    show "k \<in> waiting s1 \<longleftrightarrow> k \<in> (if b then insert (ch, i) (waiting s) else waiting s - {(ch, i)})"
    proof (cases "k = (ch, i)")
      case True
      have "k \<in> waiting s1 \<longleftrightarrow> b" using u at [of s1] flag [of "(c, dir)"] True by (simp add: waiting_def s1)
      then show ?thesis using True by simp
    next
      case False
      have "(fst f \<in> delete_pending (snd f) s1 \<and> key_of (circs s) f = Some k) \<longleftrightarrow>
          (fst f \<in> delete_pending (snd f) s \<and> key_of (circs s) f = Some k)" for f
        using flag [of f] key False by (cases "f = (c, dir)") simp_all
      then have "k \<in> waiting s1 \<longleftrightarrow> k \<in> waiting s" by (simp only: waiting_def s1 Un_iff mem_Collect_eq)
      then show ?thesis using False by simp
    qed
  qed
  ultimately show ?thesis using r ok1 s1(1) by blast
qed

lemma note_destroy_ok:
  assumes ok: "ids_ok ops s" "flags_ok s"
  shows "\<exists>s1. (if b then channel_note_destroy_pending else channel_note_destroy_not_pending) ch i s = Some s1 \<and> ids_ok ops s1 \<and> flags_ok s1 \<and>
    circs s1 = circs s \<and> waiting s1 = (if b then insert (ch, i) (waiting s) else waiting s - {(ch, i)})"
proof -
  from even_if_marked_ok [OF ok(1), of i ch] obtain k' where l: "circuit_get_by_circid_channel_even_if_marked i ch s =
      Some (Option.bind (chan_circid_map s (ch, i)) circuit, s\<lparr>last_circid_chan_ent := k'\<rparr>)"
    "ids_ok ops (s\<lparr>last_circid_chan_ent := k'\<rparr>)" by blast
  let ?s = "s\<lparr>last_circid_chan_ent := k'\<rparr>"
  have fl: "flags_ok ?s" "circs ?s = circs s" "waiting ?s = waiting s" using ok(2) by simp_all
  show ?thesis
  proof (cases "Option.bind (chan_circid_map s (ch, i)) circuit")
    case (Some c)
    then obtain e where "chan_circid_map s (ch, i) = Some e" "circuit e = Some c" by (cases "chan_circid_map s (ch, i)") auto
    then obtain dir where key: "key_of (circs ?s) (c, dir) = Some (ch, i)" using ids_key_circuit [OF ok(1), of "(ch, i)" c] by auto
    from set_delete_pending_ok [OF l(2) fl(1) key, of b] show ?thesis
      using l(1) Some fl by (cases b) (simp_all add: channel_note_destroy_pending_def channel_note_destroy_not_pending_def)
  next
    case None
    have free: "key_of (circs ?s) f \<noteq> Some (ch, i)" for f
    proof
      assume "key_of (circs ?s) f = Some (ch, i)"
      then have "\<exists>dir. key_of (circs s) (fst f, dir) = Some (ch, i)" by (intro exI [of _ "snd f"]) simp
      then obtain e where "chan_circid_map s (ch, i) = Some e" "circuit e = Some (fst f)"
        using ids_key_circuit [OF ok(1), of "(ch, i)" "fst f"] by blast
      then show False using None by simp
    qed
    define s1 where "s1 = (if b then channel_mark_circid_unusable ch i ?s else channel_mark_circid_usable ch i ?s)"
    have s1: "ids_ok ops s1" "circs s1 = circs s" "delete_pending d s1 = delete_pending d s"
        "placeholders s1 = (if b then insert (ch, i) (placeholders s) else placeholders s - {(ch, i)})" for d
      using mark_unusable_ok [OF l(2) free, of d] mark_usable_ok [OF l(2) free, of d]
      by (simp_all add: s1_def cache_frame2)
    have "waiting s1 = (if b then insert (ch, i) (waiting s) else waiting s - {(ch, i)})"
      using free fl unfolding waiting_def s1 by auto
    moreover have "flags_ok s1" using ok(2) by (simp add: flags_ok_def s1)
    moreover have "(if b then channel_note_destroy_pending else channel_note_destroy_not_pending) ch i s = Some s1"
      using l(1) None by (simp add: channel_note_destroy_pending_def channel_note_destroy_not_pending_def s1_def)
    ultimately show ?thesis using s1(1,2) by blast
  qed
qed

lemma mux_detach_absent:
  assumes ex: "mux_exact ops A ch cs m" and wk: "well_keyed cs"
    and key: "key_of cs (c, dir) = Some (ch, i)" and away: "(ch, i) \<notin> dom (chanid_circid_map m)"
  shows "circuitmux_detach_circuit g c (cs c) m = Some m"
proof -
  have wn: "well_named ch cs" by (rule well_keyed_named [OF wk])
  have other: "HT_FIND m k = None" if "k = key_of cs (c, d)" for k d
  proof (cases "key_of cs (c, d)")
    case (Some j)
    have "chanid_circid_map m j = None"
    proof (rule ccontr)
      assume "chanid_circid_map m j \<noteq> None"
      then obtain e where "chanid_circid_map m j = Some e" by blast
      then have fj: "fst j = ch" using mux_entry [OF ex] by blast
      have "d = dir"
      proof (rule ccontr)
        assume "d \<noteq> dir"
        then have "n_chan (cs c) = Some ch \<and> p_chan (cs c) = Some ch \<and> \<not> is_origin (cs c)"
          using Some key fj by (cases d; cases dir) (auto simp: key_of_def n_key_def p_key_def split: if_splits)
        then show False using wk unfolding well_keyed_def by blast
      qed
      then show False using Some key away \<open>chanid_circid_map m j \<noteq> None\<close> by auto
    qed
    then show ?thesis using that Some by (simp add: HT_FIND_def)
  qed (use that in \<open>simp add: HT_FIND_def\<close>)
  have "HT_FIND m (n_key (cs c)) = None" "HT_FIND m (p_key (cs c)) = None"
    using other [of _ CELL_DIRECTION_OUT] other [of _ CELL_DIRECTION_IN] by (simp_all add: key_of_def)
  moreover have "p_key (cs c) \<noteq> None \<or> n_chan (cs c) \<noteq> None"
    using key by (cases dir) (auto simp: key_of_def n_key_def)
  ultimately show ?thesis by (auto simp: circuitmux_detach_circuit_def Let_def)
qed

lemma chans_set_cmux: "chans (set_cmux ch m s) = (chans s)(ch := map_option (\<lambda>x. x\<lparr>cmux := m\<rparr>) (chans s ch))"
  by (simp add: set_cmux_def set_chan_def)

lemma set_cmux_frame [simp]:
  fixes s :: "('g, 'pd, 'cd, 'z) circuits_t_scheme"
  shows "circs (set_cmux ch m s) = circs s" "chan_circid_map (set_cmux ch m s) = chan_circid_map s"
  "last_circid_chan_ent (set_cmux ch m s) = last_circid_chan_ent s" "n_delete_pending (set_cmux ch m s) = n_delete_pending s"
  "p_delete_pending (set_cmux ch m s) = p_delete_pending s"
  by (simp_all add: set_cmux_def set_chan_def)

lemma detach_step_ok:
  fixes s :: "('r::linorder, 'z) ewma_circuits_t"
  assumes ok: "ids_ok ops s" and marked: "marked_for_close (circs s c)" and q: "queue_n dir (circs s c) = 0"
    and key: "key_of (circs s) (c, dir) = Some (ch, i)"
  shows "\<exists>m. on_cmux ch (circuitmux_detach_circuit (policy_globals s) c (circs s c)) s = Some (set_cmux ch (Some m) s) \<and>
    ids_ok ops (set_cmux ch (Some m) s)"
proof -
  have wk: "well_keyed (circs s)" using ok by (simp add: ids_ok_def)
  have "chans s ch \<noteq> None" using ok key unfolding ids_ok_def by (metis fst_conv)
  then obtain x where x: "chans s ch = Some x" by blast
  then have ex: "chan_exact ops (circs s) ch x" using ok by (simp add: ids_ok_def)
  then obtain m where m: "cmux x = Some m" "mux_exact ops {} ch (circs s) m" unfolding chan_exact_def by blast
  obtain m' where m': "circuitmux_detach_circuit (policy_globals s) c (circs s c) m = Some m'" "mux_exact ops {} ch (circs s) m'"
  proof (cases "(ch, i) \<in> dom (chanid_circid_map m)")
    case True
    from mux_detach [OF m(2) wk key True q, of "policy_globals s"] obtain m' where
      r: "circuitmux_detach_circuit (policy_globals s) c (circs s c) m = Some m'" "mux_exact ops {(c, dir)} ch (circs s) m'" by blast
    have "mux_exact ops {} ch (circs s) m'" by (rule mux_exact_drop [OF r(2)]) (simp add: marked)
    then show ?thesis using that r(1) by blast
  next
    case False
    from mux_detach_absent [OF m(2) wk key False] show ?thesis using that m(2) by blast
  qed
  have "chan_exact ops (circs s) a y" if "chans (set_cmux ch (Some m') s) a = Some y" for a y
  proof (cases "a = ch")
    case True
    then have "y = x\<lparr>cmux := Some m'\<rparr>" using that x by (simp add: chans_set_cmux)
    moreover have "num_circuits d (x\<lparr>cmux := Some m'\<rparr>) = num_circuits d x" for d by (simp add: num_circuits_def)
    ultimately show ?thesis using True ex m'(2) by (simp add: chan_exact_def)
  next
    case False
    then show ?thesis using that ok by (simp add: chans_set_cmux ids_ok_def)
  qed
  moreover have "chans (set_cmux ch (Some m') s) a \<noteq> None \<longleftrightarrow> chans s a \<noteq> None" for a by (simp add: chans_set_cmux)
  ultimately have "ids_ok ops (set_cmux ch (Some m') s)" using ok unfolding ids_ok_def set_cmux_frame by blast
  then show ?thesis using on_cmux_apply [where f = "circuitmux_detach_circuit (policy_globals s) c (circs s c)", OF x m(1) m'(1)] by blast
qed

lemma mark_step_ok:
  fixes s :: "('r::linorder, 'z) ewma_circuits_t"
  assumes ok: "ids_ok ops s"
  shows "ids_ok ops (set_circ c (\<lambda>x. x\<lparr>marked_for_close := True\<rparr>) s) \<and>
    key_of (circs (set_circ c (\<lambda>x. x\<lparr>marked_for_close := True\<rparr>) s)) = key_of (circs s)"
proof -
  let ?cs = "circs s" and ?cs' = "(circs s)(c := (circs s c)\<lparr>marked_for_close := True\<rparr>)"
  have K: "key_of ?cs' = key_of ?cs" by (auto simp: fun_eq_iff key_of_def n_key_def p_key_def)
  have q: "queue_n d (?cs' b) = queue_n d (?cs b)" for d b by (simp add: queue_n_def)
  have "mux_exact ops {} ch ?cs' m" if "mux_exact ops {} ch ?cs m" for ch m
  proof -
    have "ewma.mux_ok ops ch ?cs' m = ewma.mux_ok ops ch ?cs m" unfolding ewma.mux_ok_def ewma.entry_ok_def K ..
    moreover have "marked_for_close (?cs b)" if "marked_for_close (?cs b)" for b using that .
    moreover have "\<not> marked_for_close (?cs b)" if "\<not> marked_for_close (?cs' b)" for b using that by (simp split: if_splits)
    ultimately show ?thesis using that unfolding mux_exact_def K q by blast
  qed
  then have "chan_exact ops ?cs' ch x" if "chan_exact ops ?cs ch x" for ch x
    using that unfolding chan_exact_def users_def K by blast
  moreover have "well_keyed ?cs'"
    using ok unfolding ids_ok_def well_keyed_def K by simp
  moreover have "map_exact ?cs' M = map_exact ?cs M" for M by (simp add: map_exact_def K)
  ultimately show ?thesis
    using ok by (simp add: ids_ok_def set_circ_def K)
qed

section \<open>Runs\<close>

datatype ids_event =
  SET_CIRCID_CHAN cell_direction_t circuit_name u32 "u64 option"
| DESTROY_QUEUED u64 u32 | DESTROY_SENT u64 u32 | LOOK_UP u64 u32
| MARK_CIRCUIT circuit_name | DETACH_CIRCUIT cell_direction_t circuit_name

fun ids_step :: "ids_event \<Rightarrow> ('g, 'pd, 'cd, 'z) circuits_t_scheme \<Rightarrow> ('g, 'pd, 'cd, 'z) circuits_t_scheme option" where
  "ids_step (SET_CIRCID_CHAN dir c i chan) s = circuit_set_circid_chan dir c i chan s"
| "ids_step (DESTROY_QUEUED ch i) s = channel_note_destroy_pending ch i s"
| "ids_step (DESTROY_SENT ch i) s = channel_note_destroy_not_pending ch i s"
| "ids_step (LOOK_UP ch i) s = map_option snd (circuit_get_by_circid_channel i ch s)"
| "ids_step (MARK_CIRCUIT c) s = Some (set_circ c (\<lambda>x. x\<lparr>marked_for_close := True\<rparr>) s)"
| "ids_step (DETACH_CIRCUIT dir c) s =
     (case circuit_chan dir (circs s c) of
        None \<Rightarrow> Some s
      | Some ch \<Rightarrow> on_cmux ch (circuitmux_detach_circuit (policy_globals s) c (circs s c)) s)"

fun ids_event_ok :: "ids_event \<Rightarrow> ('g, 'pd, 'cd, 'z) circuits_t_scheme \<Rightarrow> bool" where
  "ids_event_ok (SET_CIRCID_CHAN dir c i chan) s = may_set c dir i chan s"
| "ids_event_ok (DETACH_CIRCUIT dir c) s =
     (marked_for_close (circs s c) \<and> queue_n dir (circs s c) = 0 \<and> \<not> (dir = CELL_DIRECTION_IN \<and> is_origin (circs s c)))"
| "ids_event_ok _ s = True"

fun ids_run :: "ids_event list \<Rightarrow> ('g, 'pd, 'cd, 'z) circuits_t_scheme \<Rightarrow> ('g, 'pd, 'cd, 'z) circuits_t_scheme option" where
  "ids_run [] s = Some s"
| "ids_run (ev # evs) s = Option.bind (ids_step ev s) (ids_run evs)"

fun ids_rules_kept :: "ids_event list \<Rightarrow> ('g, 'pd, 'cd, 'z) circuits_t_scheme \<Rightarrow> bool" where
  "ids_rules_kept [] s = True"
| "ids_rules_kept (ev # evs) s = (ids_event_ok ev s \<and> (case ids_step ev s of None \<Rightarrow> True | Some s1 \<Rightarrow> ids_rules_kept evs s1))"

text \<open>The account: who uses which ID on which channel, and which IDs wait for a DESTROY cell.\<close>

type_synonym ids_account = "(flow \<Rightarrow> mux_key option) \<times> mux_key set"

fun account_step :: "ids_event \<Rightarrow> ids_account \<Rightarrow> ids_account" where
  "account_step (SET_CIRCID_CHAN dir c i chan) (K, W) = (K((c, dir) := map_option (\<lambda>ch. (ch, i)) chan), W)"
| "account_step (DESTROY_QUEUED ch i) (K, W) = (K, insert (ch, i) W)"
| "account_step (DESTROY_SENT ch i) (K, W) = (K, W - {(ch, i)})"
| "account_step _ (K, W) = (K, W)"

definition account_of :: "('g, 'pd, 'cd, 'z) circuits_t_scheme \<Rightarrow> ids_account" where
  "account_of s = (key_of (circs s), waiting s)"

lemma ids_step_ok:
  fixes s :: "('r::linorder, 'z) ewma_circuits_t"
  assumes ok: "ids_ok ops s" "flags_ok s" and ev: "ids_event_ok ev s"
  shows "\<exists>s1. ids_step ev s = Some s1 \<and> ids_ok ops s1 \<and> flags_ok s1 \<and> account_of s1 = account_step ev (account_of s)"
proof (cases ev)
  case (SET_CIRCID_CHAN dir c i chan)
  with set_ok [OF ok, of c dir i chan] ev show ?thesis by (auto simp: account_of_def)
next
  case (DESTROY_QUEUED ch i)
  with note_destroy_ok [OF ok, of True ch i] show ?thesis by (auto simp: account_of_def)
next
  case (DESTROY_SENT ch i)
  with note_destroy_ok [OF ok, of False ch i] show ?thesis by (auto simp: account_of_def)
next
  case (LOOK_UP ch i)
  obtain k' where l: "circuit_get_by_circid_channel_impl i ch s =
      Some (Option.bind (chan_circid_map s (ch, i)) circuit, chan_circid_map s (ch, i) \<noteq> None, s\<lparr>last_circid_chan_ent := k'\<rparr>)"
    "ids_ok ops (s\<lparr>last_circid_chan_ent := k'\<rparr>)" using lookup_ok [OF ok(1)] by blast
  then have "ids_step ev s = Some (s\<lparr>last_circid_chan_ent := k'\<rparr>)"
    using LOOK_UP by (simp add: circuit_get_by_circid_channel_def)
  then show ?thesis using l(2) ok(2) LOOK_UP
    by (intro exI [of _ "s\<lparr>last_circid_chan_ent := k'\<rparr>"]) (simp add: account_of_def)
next
  case (MARK_CIRCUIT c)
  let ?s = "set_circ c (\<lambda>x. x\<lparr>marked_for_close := True\<rparr>) s"
  note mk = mark_step_ok [OF ok(1), of c]
  have fr: "delete_pending d ?s = delete_pending d s" "placeholders ?s = placeholders s" for d
    by (simp_all add: set_circ_def delete_pending_def placeholders_def)
  have "flags_ok ?s" "waiting ?s = waiting s" using ok(2) mk by (simp_all add: flags_ok_def waiting_def fr)
  then show ?thesis using mk MARK_CIRCUIT by (simp add: account_of_def)
next
  case (DETACH_CIRCUIT dir c)
  have orig: "dir = CELL_DIRECTION_IN \<longrightarrow> \<not> is_origin (circs s c)" using ev DETACH_CIRCUIT by auto
  show ?thesis
  proof (cases "circuit_chan dir (circs s c)")
    case (Some ch)
    then have "key_of (circs s) (c, dir) = Some (ch, circuit_circ_id dir (circs s c))"
      by (simp add: key_of_circuit [where cs = "circs s" and c = c and dir = dir, OF orig])
    from detach_step_ok [OF ok(1) _ _ this] ev DETACH_CIRCUIT obtain m where
      m: "on_cmux ch (circuitmux_detach_circuit (policy_globals s) c (circs s c)) s = Some (set_cmux ch (Some m) s)"
      "ids_ok ops (set_cmux ch (Some m) s)" by auto
    have fr: "delete_pending d (set_cmux ch (Some m) s) = delete_pending d s" "placeholders (set_cmux ch (Some m) s) = placeholders s" for d
      by (simp_all add: delete_pending_def placeholders_def)
    then show ?thesis using m ok(2) Some DETACH_CIRCUIT by (simp add: account_of_def flags_ok_def waiting_def)
  qed (use ok DETACH_CIRCUIT in \<open>simp add: account_of_def\<close>)
qed

lemma ids_run_ok:
  fixes s :: "('r::linorder, 'z) ewma_circuits_t"
  assumes "ids_ok ops s" "flags_ok s" "ids_rules_kept evs s"
  shows "\<exists>s1. ids_run evs s = Some s1 \<and> ids_ok ops s1 \<and> flags_ok s1 \<and> account_of s1 = fold account_step evs (account_of s)"
  using assms
proof (induction evs arbitrary: s)
  case (Cons ev evs)
  from ids_step_ok [OF Cons.prems(1,2), of ev] Cons.prems(3) obtain s1 where
    s1: "ids_step ev s = Some s1" "ids_ok ops s1" "flags_ok s1" "account_of s1 = account_step ev (account_of s)" by auto
  from Cons.IH [OF s1(2,3)] Cons.prems(3) s1 show ?case by auto
qed simp

lemma get_circuit:
  assumes "ids_ok ops s"
  shows "\<exists>r s1. circuit_get_by_circid_channel i ch s = Some (r, s1) \<and>
    (\<forall>c. r = Some c \<longleftrightarrow> (\<exists>dir. key_of (circs s) (c, dir) = Some (ch, i)) \<and> \<not> marked_for_close (circs s c))"
proof -
  obtain k' where l: "circuit_get_by_circid_channel_impl i ch s =
      Some (Option.bind (chan_circid_map s (ch, i)) circuit, chan_circid_map s (ch, i) \<noteq> None, s\<lparr>last_circid_chan_ent := k'\<rparr>)"
    using lookup_ok [OF assms] by blast
  let ?b = "Option.bind (chan_circid_map s (ch, i)) circuit"
  have b: "?b = Some c \<longleftrightarrow> (\<exists>dir. key_of (circs s) (c, dir) = Some (ch, i))" for c
    using ids_key_circuit [OF assms, of "(ch, i)" c] by (cases "chan_circid_map s (ch, i)") auto
  have "circuit_get_by_circid_channel i ch s =
      Some (case ?b of Some c \<Rightarrow> if marked_for_close (circs s c) then None else Some c | None \<Rightarrow> None, s\<lparr>last_circid_chan_ent := k'\<rparr>)"
    using l by (simp add: circuit_get_by_circid_channel_def cong: option.case_cong)
  moreover have "(case ?b of Some c \<Rightarrow> if marked_for_close (circs s c) then None else Some c | None \<Rightarrow> None) = Some d \<longleftrightarrow>
      ?b = Some d \<and> \<not> marked_for_close (circs s d)" for d
    by (auto split: option.split)
  ultimately show ?thesis using b by (intro exI conjI) (assumption, simp)
qed

lemma attached:
  assumes ok: "ids_ok ops s" and x: "chans s ch = Some x" and key: "key_of (circs s) (c, dir) = Some (ch, i)"
    and unmarked: "\<not> marked_for_close (circs s c)"
  shows "Option.bind (cmux x) (\<lambda>m. circuitmux_is_circuit_attached m (circs s c)) = Some True"
proof -
  have wk: "well_keyed (circs s)" using ok by (simp add: ids_ok_def)
  obtain m where m: "cmux x = Some m" "mux_exact ops {} ch (circs s) m"
    using ok x unfolding ids_ok_def chan_exact_def by blast
  then have mo: "ewma.mux_ok ops ch (circs s) m" by (simp add: mux_exact_def)
  have "(ch, i) \<in> dom (chanid_circid_map m)" using m(2) key unmarked unfolding mux_exact_def by (metis empty_iff fst_conv)
  then obtain e where e: "chanid_circid_map m (ch, i) = Some e" by blast
  obtain f where f: "key_of (circs s) f = Some (ch, i)" "direction e = snd f" using mux_entry [OF m(2) e] by blast
  have "f = (c, dir)" using ids_inj [OF ok f(1) key] .
  then have "circuitmux_find_map_entry m (circs s c) = Some (Some ((ch, i), e))"
    using ewma.find_attached [OF mo well_keyed_named [OF wk] _ _ e, of c] key f(2) by simp
  then show ?thesis using m(1) by (simp add: circuitmux_is_circuit_attached_def)
qed


text \<open>Two channels, one circuit: its ID on channel 7 is given up while a DESTROY cell for it is queued.\<close>

definition two_channels :: "(int ewma_t, int ewma_policy_data_t, int ewma_policy_circ_data_t) circuits_t" where
  "two_channels = \<lparr>chans = [7 \<mapsto> zero_channel\<lparr>cmux := Some mux_demo\<rparr>, 9 \<mapsto> zero_channel\<lparr>cmux := Some mux_demo\<rparr>],
     channels_pending = [], the_scheduler = SCHEDULER_KIST, run_sched_ev = None,
     socket_table = Map.empty, sched_clock = 0, scheduler_last_run = 0, sched_run_interval = 10,
     all_channels = [], active_channels = [], finished_channels = [], channel_gid_map = {}, channel_identity_map = [],
     n_channels_allocated = 9, cleanup_scheduled = False, tls_conn = {}, closeable_conns = [],
     circs = (\<lambda>_. circ_demo False 0 0 None 0 None 0), policy_globals = ewma_demo, global_destroy_ctr = 0, time_now = 3,
     chan_circid_map = Map.empty, last_circid_chan_ent = None, n_delete_pending = {}, p_delete_pending = {}\<rparr>"

definition some_ids :: "ids_event list" where
  "some_ids = [SET_CIRCID_CHAN CELL_DIRECTION_IN 1 5 (Some 7), SET_CIRCID_CHAN CELL_DIRECTION_OUT 1 6 (Some 9), LOOK_UP 7 5,
     DESTROY_QUEUED 7 5, MARK_CIRCUIT 1, DETACH_CIRCUIT CELL_DIRECTION_IN 1, SET_CIRCID_CHAN CELL_DIRECTION_IN 1 0 None]"

lemma two_channels_ok: "ids_ok int_ops two_channels" "flags_ok two_channels"
proof -
  have k: "key_of (circs two_channels) = (\<lambda>_. None)"
    by (auto simp: fun_eq_iff key_of_def n_key_def p_key_def two_channels_def circ_demo_def)
  have m: "mux_exact int_ops {} ch (circs two_channels) mux_demo" for ch
    using mux_new_ok [OF demo_runs(2), of ch "circs two_channels"] by (simp add: mux_exact_def k)
  have "chan_exact int_ops (circs two_channels) ch x" if "chans two_channels ch = Some x" for ch x
  proof -
    have "x = zero_channel\<lparr>cmux := Some mux_demo\<rparr>" using that by (auto simp: two_channels_def split: if_splits)
    then show ?thesis using m [of ch] by (simp add: chan_exact_def users_def k num_circuits_def zero_channel_def)
  qed
  moreover have "well_keyed (circs two_channels)"
    using k by (simp add: well_keyed_def) (simp add: two_channels_def circ_demo_def)
  ultimately show "ids_ok int_ops two_channels"
    unfolding ids_ok_def k map_exact_def by (simp add: two_channels_def)
  show "flags_ok two_channels" by (simp add: flags_ok_def delete_pending_def two_channels_def)
qed


end
