(* ===== verification/Cell_Queue_Flow.thy ===== *)
theory Cell_Queue_Flow
  imports Cell_Queue Circuit_Ids_Exact Channel_Registry
begin

text \<open>
  Cells flow through the queues of \<open>Cell_Queue\<close> in order and are not lost (\<open>src/core/or/relay.c\<close>): the invariant that ties the queues
  to the muxes, the circuit IDs and the scheduler, and the proofs that queueing and flushing keep it.
\<close>

section \<open>New counts in a mux\<close>

context mux_policy
begin

lemma set_num_cells_returns:
  assumes ok: "mux_ok ch cs mux" and ids: "well_named ch cs"
    and f: "circuitmux_find_map_entry mux (cs c) = Some (Some (k, e))"
    and returns: "\<And>pd cd. policy_data mux = Some pd \<Longrightarrow> mi_policy_data e = Some cd \<Longrightarrow> idle cd \<Longrightarrow> ident cd \<notin> active pd \<Longrightarrow>
      act g (Some pd) c (Some cd) \<noteq> None"
  shows "circuitmux_set_num_cells g c (cs c) n mux \<noteq> None"
proof -
  note fe = find_entry [OF ok f ids]
  then have m: "chanid_circid_map mux k = Some e" and en: "entry_ok ch cs k e" by auto
  obtain cd where cd: "mi_policy_data e = Some cd" "cell_count e = 0 \<longrightarrow> idle cd" using en by (auto simp: entry_ok_def)
  obtain pd where pd: "policy_data mux = Some pd" "pd_ok pd" "policy mux = Some pol"
    using ok unfolding mux_ok_def by blast
  have iff: "ident cd \<in> active pd \<longleftrightarrow> cell_count e > 0"
    using active_iff [OF ok m pd(1)] m cd(1) by (simp add: ident_at_def)
  define mux3 where "mux3 = HT_UPDATE k (\<lambda>e. e\<lparr>cell_count := n\<rparr>) (mux\<lparr>n_cells := n_cells mux - cell_count e + n\<rparr>)"
  have s: "policy mux3 = Some pol" "policy_data mux3 = Some pd" by (simp_all add: mux3_def HT_UPDATE_def pd)
  have f3: "circuitmux_find_map_entry (mux3\<lparr>n_active_circuits := a\<rparr>) (cs c) = Some (Some (k, e\<lparr>cell_count := n\<rparr>))" for a
    using find_entry_cong [OF _ f, of "mux3\<lparr>n_active_circuits := a\<rparr>"] m by (auto simp: fun_eq_iff mux3_def HT_UPDATE_def)
  have "circuitmux_make_circuit_inactive g c (cs c) (mux3\<lparr>n_active_circuits := a\<rparr>) \<noteq> None" if "cell_count e > 0" for a
    using inact_returns [OF pd(2), of cd g c] iff that s f3 callbacks(2) cd(1)
    by (auto simp: circuitmux_make_circuit_inactive_def)
  moreover have "circuitmux_make_circuit_active g c (cs c) (mux3\<lparr>n_active_circuits := a\<rparr>) \<noteq> None" if "cell_count e = 0" for a
    using returns [OF pd(1) cd(1)] cd(2) iff that s f3 callbacks(1) cd(1)
    by (auto simp: circuitmux_make_circuit_active_def)
  moreover have "circuitmux_set_num_cells g c (cs c) n mux =
      (if cell_count e > 0 \<and> n = 0 then circuitmux_make_circuit_inactive g c (cs c) (mux3\<lparr>n_active_circuits := n_active_circuits mux3 - 1\<rparr>)
       else if cell_count e = 0 \<and> n > 0 then circuitmux_make_circuit_active g c (cs c) (mux3\<lparr>n_active_circuits := n_active_circuits mux3 + 1\<rparr>)
       else Some mux3)"
    using f pd(3) callbacks(5) by (simp add: circuitmux_set_num_cells_def mux3_def Let_def)
  ultimately show ?thesis by (cases "cell_count e > 0 \<and> n = 0"; cases "cell_count e = 0 \<and> n > 0") auto
qed

end

lemma ewma_active_returns:
  assumes ok: "ewma.mux_ok ops ch cs m" and wn: "well_named ch cs" and fin: "finite (dom (key_of cs))" "card (dom (key_of cs)) < INT_MAX"
    and pd: "policy_data m = Some pd" and idle: "heap_index cd = -1" "ewma_ident cd \<notin> ewma_active pd"
  shows "ewma_notify_circ_active ops g (Some pd) c (Some cd) \<noteq> None"
proof -
  obtain pd' where pd': "policy_data m = Some pd'" "distinct (map ewma_ident (active_circuit_pqueue pd'))"
      "\<forall>f. f \<in> set (map ewma_ident (active_circuit_pqueue pd')) \<longrightarrow> (\<exists>k. key_of cs f = Some k)"
    using mux_ok_active [OF ok wn] by blast
  then have "pd' = pd" using pd by simp
  then have d: "distinct (map ewma_ident (active_circuit_pqueue pd))" and sub: "set (map ewma_ident (active_circuit_pqueue pd)) \<subseteq> dom (key_of cs)"
    using pd' by blast+
  have "length (active_circuit_pqueue pd) = card (set (map ewma_ident (active_circuit_pqueue pd)))"
    using distinct_card [OF d] by simp
  also have "\<dots> \<le> card (dom (key_of cs))" by (rule card_mono [OF fin(1) sub])
  finally have "length (active_circuit_pqueue pd) < INT_MAX" using fin(2) by linarith
  then show ?thesis
    using idle by (simp add: ewma_notify_circ_active_def object_idle add_cell_ewma_def smartlist_pqueue_add_def smartlist_add_def)
qed

lemma mux_count: "mux_exact ops A ch cs m \<Longrightarrow> chanid_circid_map m k = Some e \<Longrightarrow> key_of cs f = Some k \<Longrightarrow>
    cell_count e = of_int (queue_n (snd f) (cs (fst f)))"
  unfolding mux_exact_def by blast

lemma mux_exact_cong:
  assumes "mux_exact ops A ch cs m" and "same_names cs cs'" and "\<And>b. marked_for_close (cs' b) = marked_for_close (cs b)"
    and "\<And>f k. key_of cs f = Some k \<Longrightarrow> fst k = ch \<Longrightarrow> queue_n (snd f) (cs' (fst f)) = queue_n (snd f) (cs (fst f))"
  shows "mux_exact ops A ch cs' m"
proof -
  have q: "cell_count e = of_int (queue_n (snd f) (cs' (fst f)))" if "chanid_circid_map m k = Some e" "key_of cs f = Some k" for f k e
    using mux_count [OF assms(1) that] assms(4) [OF that(2)] mux_entry [OF assms(1) that(1)] by simp
  have ok: "ewma.mux_ok ops ch cs' m" using assms(1) by (simp add: mux_exact_def same_names_ok [OF assms(2)])
  show ?thesis
    unfolding mux_exact_def same_names_key [OF assms(2)] assms(3)
  proof (intro conjI allI impI)
    show "ewma.mux_ok ops ch cs' m" by (rule ok)
  next
    fix f k assume "f \<notin> A" "key_of cs f = Some k" "fst k = ch" "\<not> marked_for_close (cs (fst f))"
    then show "k \<in> dom (chanid_circid_map m)" using assms(1) unfolding mux_exact_def by blast
  next
    fix f k e assume "chanid_circid_map m k = Some e" "key_of cs f = Some k"
    then show "cell_count e = of_int (queue_n (snd f) (cs' (fst f)))" by (rule q)
  qed
qed

lemma same_names_sym: "same_names cs cs' \<Longrightarrow> same_names cs' cs" "same_names cs cs"
  by (simp_all add: same_names_def)

lemma same_names_trans: "same_names cs cs' \<Longrightarrow> same_names cs' cs'' \<Longrightarrow> same_names cs cs''"
  by (simp add: same_names_def)

text \<open>The count of one flow changed, and the mux was told.\<close>

lemma mux_recounted:
  assumes ex: "mux_exact ops {} ch cs m" and wk: "well_keyed cs" and nm: "same_names cs cs'"
    and mk: "\<And>b. marked_for_close (cs' b) = marked_for_close (cs b)"
    and others: "\<And>f'. f' \<noteq> f \<Longrightarrow> queue_n (snd f') (cs' (fst f')) = queue_n (snd f') (cs (fst f'))"
    and key: "key_of cs f = Some k" and k: "chanid_circid_map m k = Some e"
    and m': "ewma.mux_ok ops ch cs' m'" "chanid_circid_map m' = (chanid_circid_map m)(k \<mapsto> e')"
      "cell_count e' = of_int (queue_n (snd f) (cs' (fst f)))"
  shows "mux_exact ops {} ch cs' m'"
proof -
  have d: "dom (chanid_circid_map m') = dom (chanid_circid_map m)" using k m'(2) by auto
  show ?thesis
    unfolding mux_exact_def same_names_key [OF nm] mk d
  proof (intro conjI allI impI)
    show "ewma.mux_ok ops ch cs' m'" by (rule m'(1))
  next
    fix f' k' assume "f' \<notin> {}" "key_of cs f' = Some k'" "fst k' = ch" "\<not> marked_for_close (cs (fst f'))"
    then show "k' \<in> dom (chanid_circid_map m)" using ex unfolding mux_exact_def by blast
  next
    fix f' k' e1 assume e: "chanid_circid_map m' k' = Some e1" "key_of cs f' = Some k'"
    show "cell_count e1 = of_int (queue_n (snd f') (cs' (fst f')))"
    proof (cases "f' = f")
      case True
      then have "k' = k" "e1 = e'" using e key m'(2) by simp_all
      then show ?thesis using m'(3) True by simp
    next
      case False
      then have "k' \<noteq> k" using e(2) key wk unfolding well_keyed_def by blast
      then have "chanid_circid_map m k' = Some e1" using e(1) m'(2) by simp
      from mux_count [OF ex this e(2)] show ?thesis using others [OF False] by simp
    qed
  qed
qed

lemma mux_attached_entry:
  assumes ex: "mux_exact ops {} ch cs m" and wk: "well_keyed cs" and key: "key_of cs f = Some k" "fst k = ch"
    and at: "\<not> marked_for_close (cs (fst f)) \<or> k \<in> dom (chanid_circid_map m)"
  shows "\<exists>e. chanid_circid_map m k = Some e \<and> direction e = snd f \<and> cell_count e = of_int (queue_n (snd f) (cs (fst f))) \<and>
    circuitmux_find_map_entry m (cs (fst f)) = Some (Some (k, e))"
proof -
  have "k \<in> dom (chanid_circid_map m)" using ex key at unfolding mux_exact_def by blast
  then obtain e where e: "chanid_circid_map m k = Some e" by blast
  obtain f' where f': "key_of cs f' = Some k" "direction e = snd f'" using mux_entry [OF ex e] by blast
  have "f' = f" using wk key(1) f'(1) unfolding well_keyed_def by blast
  then have d: "direction e = snd f" using f'(2) by simp
  have ok: "ewma.mux_ok ops ch cs m" using ex by (simp add: mux_exact_def)
  have "key_of cs (fst f, direction e) = Some k" using key(1) d by simp
  from ewma.find_attached [OF ok well_keyed_named [OF wk] this key(2) e] show ?thesis
    using e d ex key(1) unfolding mux_exact_def by blast
qed

lemma set_num_cells_frame:
  "circuitmux_set_num_cells g c x n m = Some m' \<Longrightarrow> policy m = Some (ewma_policy ops) \<Longrightarrow>
    destroy_cell_queue m' = destroy_cell_queue m \<and> last_cell_was_destroy m' = last_cell_was_destroy m"
  by (auto simp: circuitmux_set_num_cells_def ewma_policy_def circuitmux_make_circuit_active_def circuitmux_make_circuit_inactive_def
      HT_UPDATE_def Let_def split: bind_splits if_splits option.splits)

lemma xmit_cells_frame:
  "circuitmux_notify_xmit_cells g c x n m = Some (g', m') \<Longrightarrow> policy m = Some (ewma_policy ops) \<Longrightarrow>
    destroy_cell_queue m' = destroy_cell_queue m \<and> last_cell_was_destroy m' = last_cell_was_destroy m"
  by (auto simp: circuitmux_notify_xmit_cells_def ewma_policy_def circuitmux_make_circuit_inactive_def
      HT_UPDATE_def Let_def split: bind_splits if_splits option.splits)

section \<open>The invariant\<close>

type_synonym ('r, 'z) ewma_relay_t = "('r ewma_t, 'r ewma_policy_data_t, 'r ewma_policy_circ_data_t, 'z) relay_t_scheme"

lemma queue_count_n [simp]: "queue_count = queue_n"
  by (simp add: fun_eq_iff queue_count_def queue_n_def)

text \<open>The counter of a queue is its length, and DESTROY cells do not go through it.\<close>

definition queues_ok :: "('g, 'pd, 'cd, 'z) relay_t_scheme \<Rightarrow> bool" where
  "queues_ok s \<longleftrightarrow> (\<forall>f. queue_n (snd f) (circs s (fst f)) = int (length (cell_lists s f))) \<and>
     (\<forall>f k x cell. key_of (circs s) f = Some k \<longrightarrow> chans s (fst k) = Some x \<longrightarrow> cell \<in> set (cell_lists s f) \<longrightarrow>
        length (packed_body cell) = CELL_MAX_NETWORK_SIZE \<and> packed_cell_is_destroy (wide_circ_ids x) (packed_body cell) = None)"

definition cells_queued :: "('g, 'pd, 'cd, 'z) relay_t_scheme \<Rightarrow> nat" where
  "cells_queued s = (\<Sum>f \<in> dom (key_of (circs s)). length (cell_lists s f))"

definition relay_ok :: "('r::linorder) double_ops \<Rightarrow> ('r, 'z) ewma_relay_t \<Rightarrow> bool" where
  "relay_ok ops s \<longleftrightarrow> ids_ok ops s \<and> flags_ok s \<and> queues_ok s \<and> sched_settled s \<and> sched_room s \<and>
     card (dom (key_of (circs s))) < INT_MAX \<and> cells_queued s < 2 ^ 31 \<and> (\<forall>c. conflux s c = None)"

lemma ids_recount:
  fixes s t :: "('r::linorder, 'z) ewma_relay_t"
  assumes ok: "ids_ok ops s" and nm: "same_names (circs s) (circs t)"
    and mk: "\<And>b. marked_for_close (circs t b) = marked_for_close (circs s b)"
    and others: "\<And>f k. key_of (circs s) f = Some k \<Longrightarrow> fst k \<noteq> ch \<Longrightarrow> queue_n (snd f) (circs t (fst f)) = queue_n (snd f) (circs s (fst f))"
    and tabs: "chan_circid_map t = chan_circid_map s" "last_circid_chan_ent t = last_circid_chan_ent s" "dom (chans t) = dom (chans s)"
    and chs: "\<And>a y. chans t a = Some y \<Longrightarrow> \<exists>x. chans s a = Some x \<and> (\<forall>d. num_circuits d y = num_circuits d x) \<and>
      (\<exists>m. cmux y = Some m \<and> (if a = ch then mux_exact ops {} a (circs t) m else cmux x = Some m))"
  shows "ids_ok ops t"
proof -
  note K = same_names_key [OF nm]
  have "well_keyed (circs t)"
    using ok nm unfolding ids_ok_def well_keyed_def K same_names_def by metis
  moreover have "chan_exact ops (circs t) a y" if ay: "chans t a = Some y" for a y
  proof -
    obtain x m where x: "chans s a = Some x" "\<forall>d. num_circuits d y = num_circuits d x" "cmux y = Some m"
        "if a = ch then mux_exact ops {} a (circs t) m else cmux x = Some m" using chs [OF ay] by blast
    have ex: "chan_exact ops (circs s) a x" using ok x(1) unfolding ids_ok_def by blast
    have "mux_exact ops {} a (circs t) m"
    proof (cases "a = ch")
      case False
      then have "mux_exact ops {} a (circs s) m" using ex x(4) unfolding chan_exact_def by simp
      then show ?thesis by (rule mux_exact_cong [OF _ nm mk]) (use others False in blast)
    qed (use x(4) in simp)
    then show ?thesis using ex x(2,3) unfolding chan_exact_def users_def K by simp
  qed
  moreover have "chans t (fst k) \<noteq> None" if "key_of (circs t) f = Some k" for f k
  proof -
    have "chans s (fst k) \<noteq> None" using ok that unfolding ids_ok_def K by blast
    then show ?thesis using tabs(3) by blast
  qed
  moreover have "map_exact (circs t) (chan_circid_map t)" using ok unfolding ids_ok_def map_exact_def K tabs by blast
  moreover have "\<forall>k. last_circid_chan_ent t = Some k \<longrightarrow> k \<in> dom (chan_circid_map t)" using ok unfolding ids_ok_def tabs by blast
  ultimately show ?thesis unfolding ids_ok_def by blast
qed

lemma ids_mux:
  assumes "ids_ok ops s" and "chans s ch = Some x"
  shows "\<exists>m. cmux x = Some m \<and> mux_exact ops {} ch (circs s) m \<and> ewma.mux_ok ops ch (circs s) m \<and> policy m = Some (ewma_policy ops)"
proof -
  have "chan_exact ops (circs s) ch x" using assms unfolding ids_ok_def by blast
  then obtain m where m: "cmux x = Some m" "mux_exact ops {} ch (circs s) m" unfolding chan_exact_def by blast
  then have "ewma.mux_ok ops ch (circs s) m" by (simp add: mux_exact_def)
  then show ?thesis using m by (simp add: ewma.mux_ok_def)
qed

lemma flags_cong:
  "key_of (circs t) = key_of (circs s) \<Longrightarrow> n_delete_pending t = n_delete_pending s \<Longrightarrow> p_delete_pending t = p_delete_pending s \<Longrightarrow>
    flags_ok s \<Longrightarrow> flags_ok t"
  by (simp add: flags_ok_def delete_pending_def)

text \<open>Fields the invariant does not look at may change.\<close>

lemma relay_ok_cong:
  assumes ok: "relay_ok ops s" and eq: "circs t = circs s" "chans t = chans s" "chan_circid_map t = chan_circid_map s"
    "last_circid_chan_ent t = last_circid_chan_ent s" "n_delete_pending t = n_delete_pending s" "p_delete_pending t = p_delete_pending s"
    "cell_lists t = cell_lists s" "channels_pending t = channels_pending s" "run_sched_ev t = run_sched_ev s" "conflux t = conflux s"
  shows "relay_ok ops t"
proof -
  have "ids_ok ops t" using ok eq unfolding relay_ok_def ids_ok_def by simp
  moreover have "flags_ok t" using ok eq unfolding relay_ok_def by (simp add: flags_ok_def delete_pending_def)
  moreover have "sched_settled t" using ok settled_cong [OF eq(2,8,9)] by (simp add: relay_ok_def)
  ultimately show ?thesis using ok eq by (simp add: relay_ok_def queues_ok_def cells_queued_def sched_room_def)
qed

lemma settled_upd:
  assumes "sched_settled s" and "chans s ch = Some x" and "chans t = (chans s)(ch \<mapsto> y)" and "scheduler_state y = scheduler_state x"
    and "sched_heap_idx y = sched_heap_idx x" and "channels_pending t = channels_pending s" and "run_sched_ev t = run_sched_ev s"
  shows "sched_settled t"
proof -
  let ?f = "\<lambda>z. y\<lparr>scheduler_state := scheduler_state z, sched_heap_idx := sched_heap_idx z\<rparr>"
  have "sched_settled (set_chan ch ?f s)" using assms(1) by (subst settled_set_chan) simp_all
  moreover have "?f x = y" using assms(4,5) by simp
  ultimately show ?thesis
    using settled_cong [of t "set_chan ch ?f s"] assms(2,3,6,7) by (simp add: set_chan_def)
qed

text \<open>A change of the channel \<open>ch\<close>, its mux, and the queue of the flow \<open>f\<close> on it.\<close>

definition one_flow :: "chan_ref \<Rightarrow> flow \<Rightarrow> ('g, 'pd, 'cd, 'z) relay_t_scheme \<Rightarrow> ('g, 'pd, 'cd, 'z) relay_t_scheme \<Rightarrow> bool" where
  "one_flow ch f s t \<longleftrightarrow> same_names (circs s) (circs t) \<and> (\<forall>b. marked_for_close (circs t b) = marked_for_close (circs s b)) \<and>
     (\<forall>f'. f' \<noteq> f \<longrightarrow> queue_n (snd f') (circs t (fst f')) = queue_n (snd f') (circs s (fst f')) \<and> cell_lists t f' = cell_lists s f') \<and>
     queue_n (snd f) (circs t (fst f)) = int (length (cell_lists t f)) \<and>
     (\<forall>k. key_of (circs s) f = Some k \<longrightarrow> fst k = ch) \<and>
     (\<exists>x y. chans s ch = Some x \<and> chans t = (chans s)(ch \<mapsto> y) \<and> wide_circ_ids y = wide_circ_ids x \<and>
        (\<forall>d. num_circuits d y = num_circuits d x) \<and> scheduler_state y = scheduler_state x \<and> sched_heap_idx y = sched_heap_idx x \<and>
        (\<forall>cell \<in> set (cell_lists t f) - set (cell_lists s f). length (packed_body cell) = CELL_MAX_NETWORK_SIZE \<and>
           packed_cell_is_destroy (wide_circ_ids x) (packed_body cell) = None)) \<and>
     channels_pending t = channels_pending s \<and> run_sched_ev t = run_sched_ev s \<and> conflux t = conflux s"

lemma one_flow_ok:
  assumes ok: "relay_ok ops s" and one: "one_flow ch f s t" and ids: "ids_ok ops t" and flags: "flags_ok t"
    and few: "cells_queued t < 2 ^ 31"
  shows "relay_ok ops t"
proof -
  have K: "key_of (circs t) = key_of (circs s)" using one by (simp add: one_flow_def same_names_key)
  obtain x y where x: "chans s ch = Some x" "chans t = (chans s)(ch \<mapsto> y)" "wide_circ_ids y = wide_circ_ids x"
      "scheduler_state y = scheduler_state x" "sched_heap_idx y = sched_heap_idx x"
      "\<forall>cell \<in> set (cell_lists t f) - set (cell_lists s f). length (packed_body cell) = CELL_MAX_NETWORK_SIZE \<and>
         packed_cell_is_destroy (wide_circ_ids x) (packed_body cell) = None"
    using one unfolding one_flow_def by blast
  have q: "queues_ok s" using ok by (simp add: relay_ok_def)
  have "queue_n (snd f') (circs t (fst f')) = int (length (cell_lists t f'))" for f'
  proof (cases "f' = f")
    case True
    then show ?thesis using one by (simp add: one_flow_def)
  next
    case False
    then have "queue_n (snd f') (circs t (fst f')) = queue_n (snd f') (circs s (fst f'))" "cell_lists t f' = cell_lists s f'"
      using one unfolding one_flow_def by blast+
    then show ?thesis using q by (simp add: queues_ok_def)
  qed
  moreover have "length (packed_body cell) = CELL_MAX_NETWORK_SIZE \<and> packed_cell_is_destroy (wide_circ_ids z) (packed_body cell) = None"
    if k: "key_of (circs t) f' = Some k" and z: "chans t (fst k) = Some z" and c: "cell \<in> set (cell_lists t f')" for f' k z cell
  proof -
    obtain z' where z': "chans s (fst k) = Some z'" "wide_circ_ids z' = wide_circ_ids z"
      using z x(1-3) by (cases "fst k = ch") auto
    have old: "length (packed_body cell) = CELL_MAX_NETWORK_SIZE \<and> packed_cell_is_destroy (wide_circ_ids z') (packed_body cell) = None"
      if "cell \<in> set (cell_lists s f')" using q that k z' unfolding queues_ok_def K by blast
    show ?thesis
    proof (cases "f' = f")
      case True
      then have "fst k = ch" using one k unfolding one_flow_def K by blast
      then have "wide_circ_ids z = wide_circ_ids x" using z x(2,3) by simp
      then show ?thesis using old z'(2) c x(6) True by (cases "cell \<in> set (cell_lists s f)") auto
    next
      case False
      then have "cell_lists t f' = cell_lists s f'" using one unfolding one_flow_def by blast
      then show ?thesis using old c z'(2) by simp
    qed
  qed
  ultimately have "queues_ok t" unfolding queues_ok_def by blast
  moreover have "sched_settled t"
    using ok one x settled_upd [OF _ x(1,2,4,5)] by (simp add: relay_ok_def one_flow_def)
  moreover have "dom (chans t) = dom (chans s)" using x(1,2) by auto
  ultimately show ?thesis
    using ok ids flags few one by (simp add: relay_ok_def K sched_room_def one_flow_def)
qed

lemma cells_queued_drop:
  assumes fin: "finite (dom (key_of (circs s)))" and K: "key_of (circs t) = key_of (circs s)"
    and le: "\<And>f. length (cell_lists t f) \<le> length (cell_lists s f)"
  shows "cells_queued t \<le> cells_queued s"
  unfolding cells_queued_def K by (rule sum_mono) (rule le)

lemma relay_keyed: "relay_ok ops s \<Longrightarrow> well_keyed (circs s) \<and> finite (dom (key_of (circs s)))"
  by (simp add: relay_ok_def ids_ok_def well_keyed_def)

text \<open>The mux of a channel has fewer than \<open>2 ^ 32\<close> cells, so that it can choose.\<close>

lemma mux_small:
  assumes ok: "relay_ok ops s" and x: "chans s ch = Some x" "cmux x = Some m"
  shows "(\<Sum>k \<in> dom (chanid_circid_map m). unat (cell_count (the (chanid_circid_map m k)))) < 2 ^ 32"
proof -
  let ?m = "chanid_circid_map m" and ?K = "key_of (circs s)"
  have ex: "mux_exact ops {} ch (circs s) m" using ok ids_mux [of ops s ch x] x by (auto simp: relay_ok_def)
  define h where "h k = (SOME f. ?K f = Some k)" for k
  have h: "?K (h k) = Some k \<and> unat (cell_count (the (?m k))) \<le> length (cell_lists s (h k))" if kd: "k \<in> dom ?m" for k
  proof -
    obtain e where e: "?m k = Some e" using kd by blast
    then obtain f where "?K f = Some k" using mux_entry [OF ex] by blast
    then have hk: "?K (h k) = Some k" unfolding h_def by (rule someI)
    have "cell_count e = of_int (queue_n (snd (h k)) (circs s (fst (h k))))" by (rule mux_count [OF ex e hk])
    also have "\<dots> = of_nat (length (cell_lists s (h k)))" using ok by (simp add: relay_ok_def queues_ok_def)
    finally have "unat (cell_count e) \<le> length (cell_lists s (h k))" by (simp add: unat_of_nat)
    then show ?thesis using hk e by simp
  qed
  have inj: "inj_on h (dom ?m)" by (rule inj_onI) (metis h option.inject)
  have "(\<Sum>k \<in> dom ?m. unat (cell_count (the (?m k)))) \<le> (\<Sum>k \<in> dom ?m. length (cell_lists s (h k)))"
    by (rule sum_mono) (use h in blast)
  also have "\<dots> = (\<Sum>f \<in> h ` dom ?m. length (cell_lists s f))" using sum.reindex [OF inj, of "\<lambda>f. length (cell_lists s f)"] by (simp add: comp_def)
  also have "\<dots> \<le> cells_queued s"
    unfolding cells_queued_def by (rule sum_mono2) (use relay_keyed [OF ok] h in blast)+
  finally show ?thesis using ok by (simp add: relay_ok_def)
qed

section \<open>What goes on besides\<close>

definition chan_destroys :: "('g, 'pd, 'cd, 'z) sched_t_scheme \<Rightarrow> chan_ref \<Rightarrow> (u32 \<times> u8) list" where
  "chan_destroys s ch = (case Option.bind (chans s ch) cmux of Some m \<Rightarrow> destroy_cell_queue m | None \<Rightarrow> [])"

definition link_state :: "('g, 'pd, 'cd, 'z) sched_t_scheme \<Rightarrow> chan_ref \<Rightarrow> (channel_state_t \<times> bool) option" where
  "link_state s ch = map_option (\<lambda>x. (chan_state x, wide_circ_ids x)) (chans s ch)"

text \<open>Cells may join the ends of queues; nothing leaves, and nothing reaches a connection.\<close>

definition grown :: "('g, 'pd, 'cd, 'z) relay_t_scheme \<Rightarrow> ('g, 'pd, 'cd, 'z) relay_t_scheme \<Rightarrow> bool" where
  "grown s t \<longleftrightarrow> key_of (circs t) = key_of (circs s) \<and> chan_destroys t = chan_destroys s \<and> link_state t = link_state s \<and>
     tls_conn t = tls_conn s \<and> closeable_conns t = closeable_conns s \<and> outbufs t = outbufs s \<and>
     (\<forall>f. \<exists>new. cell_lists t f = cell_lists s f @ new)"

lemma grown_refl [simp]: "grown s s"
  by (simp add: grown_def)

lemma grown_trans: "grown s t \<Longrightarrow> grown t u \<Longrightarrow> grown s u"
  unfolding grown_def by (metis append.assoc)

text \<open>What reading from a stream owes the queues: it returns, keeps the invariant, and only adds cells.\<close>

definition input_ok :: "('r::linorder) double_ops \<Rightarrow> ('r, 'z) ewma_relay_t outside_t \<Rightarrow> bool" where
  "input_ok ops X \<longleftrightarrow> (\<forall>n s. relay_ok ops s \<longrightarrow> (\<exists>t. connection_process_inbuf X n s = Some t \<and> relay_ok ops t \<and> grown s t))"

lemma put_edge_ok: "relay_ok ops s \<Longrightarrow> relay_ok ops (put_edge n e s) \<and> grown s (put_edge n e s)"
  by (auto intro: relay_ok_cong simp: put_edge_def grown_def chan_destroys_def link_state_def fun_eq_iff)

lemma block_stream_ok:
  assumes inp: "input_ok ops X" and ok: "relay_ok ops s"
  shows "\<exists>t. block_stream X block sid n s = Some t \<and> relay_ok ops t \<and> grown s t"
proof -
  have read: "\<exists>t. connection_process_inbuf X n (put_edge n e s) = Some t \<and> relay_ok ops t \<and> grown s t" for e
    using inp put_edge_ok [OF ok, of n e] grown_trans unfolding input_ok_def by blast
  show ?thesis
    using read put_edge_ok [OF ok] ok by (auto simp: block_stream_def Let_def split: prod.splits)
qed

lemma block_streams_ok:
  "input_ok ops X \<Longrightarrow> relay_ok ops s \<Longrightarrow> \<exists>t. block_streams X block sid ns s = Some t \<and> relay_ok ops t \<and> grown s t"
proof (induction ns arbitrary: s)
  case (Cons n ns)
  obtain t where t: "block_stream X block sid n s = Some t" "relay_ok ops t" "grown s t"
    using block_stream_ok [OF Cons.prems] by blast
  from Cons.IH [OF Cons.prems(1) t(2)] t grown_trans show ?case by auto
qed simp

lemma set_block_ok:
  assumes "input_ok ops X" and ok: "relay_ok ops s"
  shows "\<exists>t. set_block_state_for_streams X c ns block sid s = Some t \<and> relay_ok ops t \<and> grown s t"
proof -
  have "conflux s c = None" using ok by (simp add: relay_ok_def)
  then show ?thesis
    using block_streams_ok [OF assms] by (simp add: set_block_state_for_streams_def conflux_agrees_def)
qed

lemma blocked_flag_ok:
  assumes ok: "relay_ok ops s" and f: "f = circuit_blocked_on_n_chan_update (\<lambda>_. b) \<or> f = circuit_blocked_on_p_chan_update (\<lambda>_. b)"
  shows "relay_ok ops (set_circ c f s) \<and> grown s (set_circ c f s)"
proof -
  let ?t = "set_circ c f s"
  have nm: "same_names (circs s) (circs ?t)" using f by (auto simp: same_names_def set_circ_def)
  have mk: "marked_for_close (circs ?t b) = marked_for_close (circs s b)" for b using f by (auto simp: set_circ_def)
  have qn: "queue_n d (circs ?t b) = queue_n d (circs s b)" for d b using f by (auto simp: set_circ_def queue_n_def)
  have K: "key_of (circs ?t) = key_of (circs s)" by (rule same_names_key [OF nm])
  have ids: "ids_ok ops s" using ok by (simp add: relay_ok_def)
  have r: "chans ?t = chans s" "cell_lists ?t = cell_lists s" "conflux ?t = conflux s" "channels_pending ?t = channels_pending s"
      "run_sched_ev ?t = run_sched_ev s"
    by (simp_all add: set_circ_def)
  have "ids_ok ops ?t"
  proof (rule ids_recount [OF ids nm mk, of 0])
    fix a y assume y: "chans ?t a = Some y"
    then obtain m where m: "cmux y = Some m" "mux_exact ops {} a (circs s) m" using ids_mux [OF ids] r(1) by metis
    have "mux_exact ops {} a (circs ?t) m" by (rule mux_exact_cong [OF m(2) nm mk qn])
    then show "\<exists>x. chans s a = Some x \<and> (\<forall>d. num_circuits d y = num_circuits d x) \<and>
        (\<exists>m. cmux y = Some m \<and> (if a = 0 then mux_exact ops {} a (circs ?t) m else cmux x = Some m))"
      using y m(1) r(1) by auto
  qed (simp_all add: qn, simp_all add: set_circ_def)
  moreover have "flags_ok ?t" using ok by (intro flags_cong [of ?t s, OF K]) (simp_all add: relay_ok_def set_circ_def)
  moreover have "queues_ok ?t" using ok by (simp add: relay_ok_def queues_ok_def qn K r)
  moreover have "sched_settled ?t" using ok settled_cong [OF r(1,4,5)] by (simp add: relay_ok_def)
  ultimately have "relay_ok ops ?t" using ok by (simp add: relay_ok_def K r cells_queued_def sched_room_def)
  moreover have "grown s ?t" by (simp add: grown_def K r chan_destroys_def [abs_def] link_state_def [abs_def]) (simp add: set_circ_def)
  ultimately show ?thesis by blast
qed

lemma set_blocked_ok:
  assumes inp: "input_ok ops X" and ok: "relay_ok ops s" and key: "key_of (circs s) (c, dir) = Some (ch, i)"
  shows "\<exists>t. set_circuit_blocked_on_chan X c ch block s = Some t \<and> relay_ok ops t \<and> grown s t"
proof -
  have or: "n_chan (circs s c) \<noteq> Some ch \<Longrightarrow> \<not> is_origin (circs s c)"
    using key by (cases dir) (auto simp: key_of_def n_key_def p_key_def split: if_splits)
  have b: "\<exists>t. set_block_state_for_streams X c ns block sid (set_circ c f s) = Some t \<and> relay_ok ops t \<and> grown s t"
    if "f = circuit_blocked_on_n_chan_update (\<lambda>_. block) \<or> f = circuit_blocked_on_p_chan_update (\<lambda>_. block)" for f ns sid
    using set_block_ok [OF inp] blocked_flag_ok [OF ok that] grown_trans by metis
  show ?thesis
    unfolding set_circuit_blocked_on_chan_def using or b by (cases "n_chan (circs s c) = Some ch") simp_all
qed

section \<open>Sending\<close>

lemma queued_cell:
  "relay_ok ops s \<Longrightarrow> key_of (circs s) f = Some k \<Longrightarrow> chans s (fst k) = Some x \<Longrightarrow> cell \<in> set (cell_lists s f) \<Longrightarrow>
    length (packed_body cell) = CELL_MAX_NETWORK_SIZE \<and> packed_cell_is_destroy (wide_circ_ids x) (packed_body cell) = None"
  unfolding relay_ok_def queues_ok_def by blast

lemma queue_len: "relay_ok ops s \<Longrightarrow> queue_n (snd f) (circs s (fst f)) = int (length (cell_lists s f))"
  unfolding relay_ok_def queues_ok_def by blast

text \<open>A change of the mux and the statistics of one channel.\<close>

lemma chan_upd_ok:
  fixes s t :: "('r::linorder, 'z) ewma_relay_t"
  assumes ok: "relay_ok ops s" and x: "chans s ch = Some x" and ch': "chans t = (chans s)(ch \<mapsto> y)"
    and y: "wide_circ_ids y = wide_circ_ids x" "\<And>d. num_circuits d y = num_circuits d x" "scheduler_state y = scheduler_state x"
      "sched_heap_idx y = sched_heap_idx x" "cmux y = Some m" "mux_exact ops {} ch (circs s) m"
    and eq: "circs t = circs s" "chan_circid_map t = chan_circid_map s" "last_circid_chan_ent t = last_circid_chan_ent s"
      "n_delete_pending t = n_delete_pending s" "p_delete_pending t = p_delete_pending s" "cell_lists t = cell_lists s"
      "channels_pending t = channels_pending s" "run_sched_ev t = run_sched_ev s" "conflux t = conflux s"
  shows "relay_ok ops t"
proof -
  have "ids_ok ops t"
  proof (rule ids_recount [of ops s t ch])
    fix a z assume z: "chans t a = Some z"
    show "\<exists>x. chans s a = Some x \<and> (\<forall>d. num_circuits d z = num_circuits d x) \<and>
      (\<exists>m. cmux z = Some m \<and> (if a = ch then mux_exact ops {} a (circs t) m else cmux x = Some m))"
    proof (cases "a = ch")
      case True
      then show ?thesis using z ch' x y eq(1) by simp
    next
      case False
      then have sa: "chans s a = Some z" using z ch' by simp
      moreover obtain m where "cmux z = Some m" using ids_mux [OF _ sa] ok unfolding relay_ok_def by blast
      ultimately show ?thesis using False by simp
    qed
  qed (use ok x ch' eq in \<open>auto simp: relay_ok_def same_names_sym\<close>)
  moreover have "flags_ok t" using ok eq by (auto simp: relay_ok_def flags_ok_def delete_pending_def)
  moreover have "queues_ok t"
  proof -
    have c: "length (packed_body cell) = CELL_MAX_NETWORK_SIZE \<and> packed_cell_is_destroy (wide_circ_ids z) (packed_body cell) = None"
      if k: "key_of (circs t) f = Some k" and z: "chans t (fst k) = Some z" and c: "cell \<in> set (cell_lists t f)" for f k z cell
    proof -
      obtain z' where "chans s (fst k) = Some z'" "wide_circ_ids z' = wide_circ_ids z"
        using z x ch' y(1) by (cases "fst k = ch") auto
      then show ?thesis using queued_cell [OF ok, of f k z' cell] k c eq(1,6) by simp
    qed
    then show ?thesis using queue_len [OF ok] eq(1,6) unfolding queues_ok_def by simp
  qed
  moreover have "sched_settled t" using ok settled_upd [OF _ x ch' y(3,4) eq(7,8)] by (simp add: relay_ok_def)
  moreover have "dom (chans t) = dom (chans s)" using x ch' by auto
  ultimately show ?thesis using ok eq by (simp add: relay_ok_def sched_room_def cells_queued_def)
qed

lemma mux_exact_queue:
  "mux_exact ops A ch cs m \<Longrightarrow> mux_exact ops A ch cs (m\<lparr>last_cell_was_destroy := b, destroy_cell_queue := q, destroy_ctr := d\<rparr>)"
  by (simp add: mux_exact_def mux_ok_irrelevant)

lemma note_frame:
  assumes "channel_note_destroy_not_pending ch i s = Some t"
  shows "t = s\<lparr>chan_circid_map := chan_circid_map t, last_circid_chan_ent := last_circid_chan_ent t, n_delete_pending := n_delete_pending t,
    p_delete_pending := p_delete_pending t\<rparr>"
  using assms
  by (auto simp: channel_note_destroy_not_pending_def circuit_get_by_circid_channel_even_if_marked_def circuit_get_by_circid_channel_impl_def
      set_delete_pending_def channel_mark_circid_usable_def Let_def split: bind_splits option.splits if_splits prod.splits)

lemma note_ok:
  assumes ok: "relay_ok ops s"
  shows "\<exists>t. channel_note_destroy_not_pending ch i s = Some t \<and> relay_ok ops t \<and>
    t = s\<lparr>chan_circid_map := chan_circid_map t, last_circid_chan_ent := last_circid_chan_ent t, n_delete_pending := n_delete_pending t,
      p_delete_pending := p_delete_pending t\<rparr>"
proof -
  have "ids_ok ops s" "flags_ok s" using ok by (simp_all add: relay_ok_def)
  from note_destroy_ok [OF this, of False ch i] obtain t where t: "channel_note_destroy_not_pending ch i s = Some t" "ids_ok ops t" "flags_ok t"
    by auto
  note f = note_frame [OF t(1)]
  have eq: "circs t = circs s" "chans t = chans s" "cell_lists t = cell_lists s" "channels_pending t = channels_pending s"
      "run_sched_ev t = run_sched_ev s" "conflux t = conflux s"
    by (subst f, simp)+
  have "sched_settled t" using ok settled_cong [OF eq(2,4,5)] by (simp add: relay_ok_def)
  then have "relay_ok ops t" using ok t eq by (simp add: relay_ok_def queues_ok_def cells_queued_def sched_room_def)
  then show ?thesis using t(1) f by blast
qed

text \<open>What was put on the connection, in order.\<close>

datatype sent_item = SENT_DESTROY "u32 \<times> u8" | SENT_CELL flow packed_cell_t

fun item_bytes :: "bool \<Rightarrow> sent_item \<Rightarrow> bytes" where
  "item_bytes wide (SENT_DESTROY d) = take (unat (get_cell_network_size wide)) (destroy_cell_to_packed_cell d wide)"
| "item_bytes wide (SENT_CELL f cell) = take (unat (get_cell_network_size wide)) (packed_body cell)"

fun sent_on :: "flow \<Rightarrow> sent_item list \<Rightarrow> packed_cell_t list" where
  "sent_on f [] = []"
| "sent_on f (SENT_CELL g cell # log) = (if g = f then cell # sent_on f log else sent_on f log)"
| "sent_on f (SENT_DESTROY d # log) = sent_on f log"

fun sent_destroys :: "sent_item list \<Rightarrow> (u32 \<times> u8) list" where
  "sent_destroys [] = []"
| "sent_destroys (SENT_DESTROY d # log) = d # sent_destroys log"
| "sent_destroys (SENT_CELL g cell # log) = sent_destroys log"

lemma sent_on_append [simp]: "sent_on f (l1 @ l2) = sent_on f l1 @ sent_on f l2"
  by (induction f l1 rule: sent_on.induct) auto

lemma sent_destroys_append [simp]: "sent_destroys (l1 @ l2) = sent_destroys l1 @ sent_destroys l2"
  by (induction l1 rule: sent_destroys.induct) auto

text \<open>The cells of the log have left the heads of their queues; cells may have joined the ends meanwhile.\<close>

definition flushed :: "chan_ref \<Rightarrow> bool \<Rightarrow> sent_item list \<Rightarrow> ('g, 'pd, 'cd, 'z) relay_t_scheme \<Rightarrow> ('g, 'pd, 'cd, 'z) relay_t_scheme \<Rightarrow> bool" where
  "flushed ch wide log s t \<longleftrightarrow> key_of (circs t) = key_of (circs s) \<and> link_state t = link_state s \<and> tls_conn t = tls_conn s \<and>
     closeable_conns t = closeable_conns s \<and>
     outbufs t = (outbufs s)(ch := outbufs s ch @ concat (map (item_bytes wide) log)) \<and>
     (\<forall>f. \<exists>new. cell_lists s f @ new = sent_on f log @ cell_lists t f) \<and>
     chan_destroys s ch = sent_destroys log @ chan_destroys t ch \<and> (\<forall>a. a \<noteq> ch \<longrightarrow> chan_destroys t a = chan_destroys s a) \<and>
     (\<forall>f cell. SENT_CELL f cell \<in> set log \<longrightarrow> (\<exists>i. key_of (circs s) f = Some (ch, i)))"

lemma flushed_grown: "grown s t \<Longrightarrow> flushed ch wide [] s t"
  unfolding flushed_def grown_def by simp metis

lemma flushed_trans: "flushed ch wide l1 s t \<Longrightarrow> flushed ch wide l2 t u \<Longrightarrow> flushed ch wide (l1 @ l2) s u"
proof -
  assume 1: "flushed ch wide l1 s t" and 2: "flushed ch wide l2 t u"
  have "\<exists>new. cell_lists s f @ new = sent_on f (l1 @ l2) @ cell_lists u f" for f
  proof -
    obtain n1 n2 where "cell_lists s f @ n1 = sent_on f l1 @ cell_lists t f" "cell_lists t f @ n2 = sent_on f l2 @ cell_lists u f"
      using 1 2 unfolding flushed_def by blast
    then have "cell_lists s f @ (n1 @ n2) = sent_on f (l1 @ l2) @ cell_lists u f" by (metis append.assoc sent_on_append)
    then show ?thesis by blast
  qed
  moreover have "\<exists>i. key_of (circs s) f = Some (ch, i)" if m: "SENT_CELL f cell \<in> set (l1 @ l2)" for f cell
  proof -
    have k: "key_of (circs t) = key_of (circs s)" using 1 by (simp add: flushed_def)
    have "SENT_CELL f cell \<in> set l1 \<or> SENT_CELL f cell \<in> set l2" using m by simp
    then show ?thesis using 1 2 unfolding flushed_def k by blast
  qed
  moreover have "outbufs u = (outbufs s)(ch := outbufs s ch @ concat (map (item_bytes wide) (l1 @ l2)))"
    "chan_destroys s ch = sent_destroys (l1 @ l2) @ chan_destroys u ch" "key_of (circs u) = key_of (circs s)"
    "link_state u = link_state s" "tls_conn u = tls_conn s" "closeable_conns u = closeable_conns s" using 1 2 by (simp_all add: flushed_def)
  moreover have "\<forall>a. a \<noteq> ch \<longrightarrow> chan_destroys u a = chan_destroys s a" using 1 2 unfolding flushed_def by simp
  ultimately show ?thesis unfolding flushed_def by blast
qed

definition open_link :: "chan_ref \<Rightarrow> bool \<Rightarrow> ('g, 'pd, 'cd, 'z) sched_t_scheme \<Rightarrow> bool" where
  "open_link ch wide s \<longleftrightarrow> link_state s ch = Some (CHANNEL_STATE_OPEN, wide)"

definition outbuf_room :: "nat \<Rightarrow> chan_ref \<Rightarrow> ('g, 'pd, 'cd, 'z) relay_t_scheme \<Rightarrow> bool" where
  "outbuf_room n ch s \<longleftrightarrow> ch \<in> tls_conn s \<and> ch \<notin> set (closeable_conns s) \<and> length (outbufs s ch) + CELL_MAX_NETWORK_SIZE * n \<le> BUF_MAX_LEN"

lemma open_link_chan: "open_link ch wide s \<Longrightarrow> \<exists>x. chans s ch = Some x \<and> chan_state x = CHANNEL_STATE_OPEN \<and> wide_circ_ids x = wide"
  by (auto simp: open_link_def link_state_def)

lemma item_length: "length (item_bytes wide x) \<le> CELL_MAX_NETWORK_SIZE"
  by (cases x) (simp_all add: min_def)

lemma flushed_room:
  assumes "flushed ch wide log s t" and "open_link ch wide s" and "outbuf_room n ch s" and "length log \<le> n"
  shows "open_link ch wide t \<and> outbuf_room (n - length log) ch t"
proof -
  have "length (concat (map (item_bytes wide) log)) \<le> CELL_MAX_NETWORK_SIZE * length log"
  proof (induction log)
    case (Cons x log)
    then show ?case using item_length [of wide x] by simp
  qed simp
  moreover obtain k where "n = length log + k" using assms(4) le_Suc_ex by blast
  ultimately show ?thesis
    using assms by (simp add: flushed_def open_link_def outbuf_room_def algebra_simps)
qed

text \<open>A cell that is not a DESTROY cell goes on the buffer of an open channel.\<close>

abbreviation note_xmit :: "('g, 'pd, 'cd) channel_t \<Rightarrow> ('g, 'pd, 'cd) channel_t" where
  "note_xmit x \<equiv> x\<lparr>n_cells_xmitted := n_cells_xmitted x + 1, n_bytes_xmitted := n_bytes_xmitted x + get_cell_network_size (wide_circ_ids x)\<rparr>"

lemma buf_add:
  assumes "outbuf_room (Suc n) ch s" and "length body = CELL_MAX_NETWORK_SIZE"
  shows "connection_buf_add (take (unat (get_cell_network_size wide)) body) ch s =
    Some (s\<lparr>outbufs := (outbufs s)(ch := outbufs s ch @ take (unat (get_cell_network_size wide)) body)\<rparr>)"
  using assms by (auto simp: connection_buf_add_def outbuf_room_def)

lemma write_plain:
  assumes "open_link ch wide s" and "outbuf_room (Suc n) ch s" and "length (packed_body cell) = CELL_MAX_NETWORK_SIZE"
    and "packed_cell_is_destroy wide (packed_body cell) = None"
  shows "channel_write_packed_cell ch cell s =
    Some (0, (set_chan ch note_xmit (s\<lparr>outbufs := (outbufs s)(ch := outbufs s ch @ take (unat (get_cell_network_size wide)) (packed_body cell))\<rparr>))
      \<lparr>total_cells_allocated := total_cells_allocated s - 1\<rparr>)"
proof -
  obtain x where x: "chans s ch = Some x" "chan_state x = CHANNEL_STATE_OPEN" "wide_circ_ids x = wide"
    using open_link_chan [OF assms(1)] by blast
  have "ch \<in> tls_conn s" using assms(2) by (simp add: outbuf_room_def)
  then show ?thesis
    using x assms(4) buf_add [OF assms(2,3), of wide]
    by (simp add: channel_write_packed_cell_def write_packed_cell_def channel_tls_write_packed_cell_method_def set_chan_def del: network_size)
qed

lemma write_destroy:
  assumes ok: "relay_ok ops s" and link: "open_link ch wide s" and room: "outbuf_room (Suc n) ch s"
    and d: "length (packed_body cell) = CELL_MAX_NETWORK_SIZE" "packed_cell_is_destroy wide (packed_body cell) = Some i"
  shows "\<exists>t. relay_ok ops t \<and> channel_note_destroy_not_pending ch i s = Some t \<and> channel_write_packed_cell ch cell s =
    Some (0, (set_chan ch note_xmit (t\<lparr>outbufs := (outbufs s)(ch := outbufs s ch @ take (unat (get_cell_network_size wide)) (packed_body cell))\<rparr>))
      \<lparr>total_cells_allocated := total_cells_allocated s - 1\<rparr>)"
proof -
  obtain x where x: "chans s ch = Some x" "chan_state x = CHANNEL_STATE_OPEN" "wide_circ_ids x = wide"
    using open_link_chan [OF link] by blast
  obtain t where t: "channel_note_destroy_not_pending ch i s = Some t" "relay_ok ops t"
      "t = s\<lparr>chan_circid_map := chan_circid_map t, last_circid_chan_ent := last_circid_chan_ent t, n_delete_pending := n_delete_pending t,
        p_delete_pending := p_delete_pending t\<rparr>" using note_ok [OF ok] by blast
  have eq: "chans t = chans s" "tls_conn t = tls_conn s" "closeable_conns t = closeable_conns s" "outbufs t = outbufs s"
      "total_cells_allocated t = total_cells_allocated s" by (subst t(3), simp)+
  have "outbuf_room (Suc n) ch t" "ch \<in> tls_conn s" using room eq by (simp_all add: outbuf_room_def)
  from buf_add [OF this(1) d(1), of wide] this(2) show ?thesis
    using x d(2) t(1,2) eq
    by (simp add: channel_write_packed_cell_def write_packed_cell_def channel_tls_write_packed_cell_method_def set_chan_def del: network_size)
qed

lemma destroy_body:
  "length (destroy_cell_to_packed_cell d wide) = CELL_MAX_NETWORK_SIZE"
  "\<exists>i. packed_cell_is_destroy wide (destroy_cell_to_packed_cell d wide) = Some i"
proof -
  let ?c = "\<lparr>cell_circ_id = (if wide then fst d else ucast (ucast (fst d) :: u16)), cell_command = CELL_DESTROY,
    cell_payload = (replicate CELL_PAYLOAD_BYTES 0)[0 := snd d]\<rparr>"
  have "unat (ucast (ucast (fst d) :: u16) :: u32) < 65536"
    using unsigned_less [of "ucast (fst d) :: u16"] by (simp add: unat_ucast_up)
  then have ok: "cell_ok wide ?c" by (simp add: cell_ok_def circid_fits_def)
  have "(ucast (ucast (ucast (fst d) :: u16) :: u32) :: u16) = ucast (fst d)" by (rule ucast_up_ucast_id) (simp add: is_up)
  then have c: "destroy_cell_to_packed_cell d wide = cell_pack ?c wide"
    by (cases wide) (simp_all add: destroy_cell_to_packed_cell_def cell_pack_def put_circid_def)
  show "length (destroy_cell_to_packed_cell d wide) = CELL_MAX_NETWORK_SIZE" unfolding c by (rule length_cell_pack [OF ok])
  show "\<exists>i. packed_cell_is_destroy wide (destroy_cell_to_packed_cell d wide) = Some i" unfolding c packed_fields(3) [OF ok] by simp
qed

lemma flush_destroy_ok:
  assumes ok: "relay_ok ops s" and link: "open_link ch wide s" and room: "outbuf_room (Suc n) ch s"
    and x: "chans s ch = Some x" "cmux x = Some m" and d: "destroy_cell_queue m = d # q"
  shows "\<exists>t. flush_destroy ch s = Some (1, False, t) \<and> relay_ok ops t \<and> circs t = circs s \<and> flushed ch wide [SENT_DESTROY d] s t"
proof -
  let ?m1 = "m\<lparr>destroy_cell_queue := q\<rparr>" and ?cell = "\<lparr>packed_body = destroy_cell_to_packed_cell d wide, inserted_timestamp = 0\<rparr>"
  let ?s1 = "(set_cmux ch (Some ?m1) s)\<lparr>total_cells_allocated := total_cells_allocated s + 1\<rparr>"
  have w: "wide_circ_ids x = wide" using open_link_chan [OF link] x(1) by auto
  have ex: "mux_exact ops {} ch (circs s) m" using ids_mux [of ops s ch x] ok x by (auto simp: relay_ok_def)
  have ex1: "mux_exact ops {} ch (circs s) ?m1"
    using mux_exact_queue [OF ex, where b = "last_cell_was_destroy m" and q = q and d = "destroy_ctr m"] by simp
  have s1: "chans ?s1 = (chans s)(ch \<mapsto> x\<lparr>cmux := Some ?m1\<rparr>)" using x(1) by (simp add: set_cmux_def set_chan_def)
  have ok1: "relay_ok ops ?s1"
    by (rule chan_upd_ok [OF ok x(1) s1, where m = ?m1]) (simp_all add: ex1, simp_all add: set_cmux_def set_chan_def num_circuits_def)
  have link1: "open_link ch wide ?s1" using link x(1) by (simp add: open_link_def link_state_def s1)
  have room1: "outbuf_room (Suc n) ch ?s1" using room by (simp add: outbuf_room_def) (simp add: set_cmux_def set_chan_def)
  obtain i where i: "packed_cell_is_destroy wide (packed_body ?cell) = Some i" using destroy_body(2) [of wide d] by auto
  from write_destroy [OF ok1 link1 room1 _ i] destroy_body(1) obtain t where
    t: "relay_ok ops t" "channel_note_destroy_not_pending ch i ?s1 = Some t"
      "channel_write_packed_cell ch ?cell ?s1 = Some (0, (set_chan ch note_xmit (t\<lparr>outbufs := (outbufs ?s1)(ch := outbufs ?s1 ch @
         take (unat (get_cell_network_size wide)) (packed_body ?cell))\<rparr>))\<lparr>total_cells_allocated := total_cells_allocated ?s1 - 1\<rparr>)"
    by (auto simp del: network_size)
  note f = note_frame [OF t(2)]
  have eq: "circs t = circs s" "chans t = chans ?s1" "cell_lists t = cell_lists s" "tls_conn t = tls_conn s"
      "closeable_conns t = closeable_conns s" "outbufs ?s1 = outbufs s"
    by (subst f, simp add: set_cmux_def set_chan_def)+ (simp add: set_cmux_def set_chan_def)
  let ?s2 = "(set_chan ch note_xmit (t\<lparr>outbufs := (outbufs s)(ch := outbufs s ch @
     take (unat (get_cell_network_size wide)) (packed_body ?cell))\<rparr>))\<lparr>total_cells_allocated := total_cells_allocated ?s1 - 1\<rparr>"
  let ?m2 = "snd (circuitmux_notify_xmit_destroy (global_destroy_ctr ?s2) ?m1)"
  let ?y = "(note_xmit (x\<lparr>cmux := Some ?m1\<rparr>))\<lparr>cmux := Some ?m2\<rparr>"
  define u where "u = set_cmux ch (Some ?m2) (?s2\<lparr>global_destroy_ctr := fst (circuitmux_notify_xmit_destroy (global_destroy_ctr ?s2) ?m1)\<rparr>)"
  have s2: "chans ?s2 = (chans s)(ch \<mapsto> note_xmit (x\<lparr>cmux := Some ?m1\<rparr>))"
    using eq(2) s1 by (simp add: set_chan_def)
  have run: "flush_destroy ch s = Some (1, False, u)"
    unfolding u_def flush_destroy_def using x d w t(3) eq(6) s2 by (simp add: Let_def case_prod_unfold set_cmux_def set_chan_def del: network_size)
  have yt: "chans u = (chans t)(ch \<mapsto> ?y)" using s2 eq(2) s1 by (simp add: u_def set_cmux_def set_chan_def)
  have xt: "chans t ch = Some (x\<lparr>cmux := Some ?m1\<rparr>)" using eq(2) s1 by simp
  have m2: "mux_exact ops {} ch (circs t) (snd (circuitmux_notify_xmit_destroy g ?m1))" for g
    using mux_exact_queue [OF ex, where b = "last_cell_was_destroy m" and q = q and d = "destroy_ctr m - 1"] by (simp add: eq circuitmux_notify_xmit_destroy_def)
  have "relay_ok ops u"
    by (rule chan_upd_ok [OF t(1) xt yt, where m = ?m2]) (simp_all add: m2, simp_all add: u_def set_cmux_def set_chan_def num_circuits_def)
  moreover have "flushed ch wide [SENT_DESTROY d] s u"
    unfolding flushed_def
  proof (intro conjI allI impI)
    show "link_state u = link_state s" by (rule ext) (use x in \<open>simp add: link_state_def yt eq s1\<close>)
    show "chan_destroys s ch = sent_destroys [SENT_DESTROY d] @ chan_destroys u ch"
      using x d by (simp add: chan_destroys_def yt circuitmux_notify_xmit_destroy_def)
    show "chan_destroys u a = chan_destroys s a" if "a \<noteq> ch" for a using that by (simp add: chan_destroys_def yt eq s1)
  qed (use eq in \<open>simp_all add: u_def set_cmux_def set_chan_def del: network_size\<close>)
  moreover have "circs u = circs s" using eq(1) by (simp add: u_def set_cmux_def set_chan_def)
  ultimately show ?thesis using run by blast
qed

text \<open>The mux after one cell of the flow picked was sent, told once by number and once by what is left.\<close>

lemma mux_after_cell:
  assumes ex: "mux_exact ops {} ch cs m" and wk: "well_keyed cs" and small: "card (dom (key_of cs)) < INT_MAX"
    and pick: "pick_active_circuit (ewma_policy ops) (policy_data m) = Some (Some c)"
    and key: "key_of cs (c, dir) = Some (ch, i)" and e: "chanid_circid_map m (ch, i) = Some e" "direction e = dir" "cell_count e > 0"
    and nm: "same_names cs cs'" and mk: "\<And>b. marked_for_close (cs' b) = marked_for_close (cs b)"
    and others: "\<And>f'. f' \<noteq> (c, dir) \<Longrightarrow> queue_n (snd f') (cs' (fst f')) = queue_n (snd f') (cs (fst f'))"
    and n: "queue_n dir (cs' c) = n"
  shows "\<exists>g' m1 m2. circuitmux_notify_xmit_cells g c (cs' c) 1 m = Some (g', m1) \<and>
    circuitmux_set_num_cells g' c (cs' c) (of_int n) m1 = Some m2 \<and> mux_exact ops {} ch cs' m2 \<and> destroy_cell_queue m2 = destroy_cell_queue m"
proof -
  have ok: "ewma.mux_ok ops ch cs' m" using ex by (simp add: mux_exact_def same_names_ok [OF nm])
  have K: "key_of cs' = key_of cs" by (rule same_names_key [OF nm])
  have wk': "well_keyed cs'" using wk nm unfolding well_keyed_def K same_names_def by metis
  note wn = well_keyed_named [OF wk', of ch]
  have key': "key_of cs' (c, direction e) = Some (ch, i)" using key e(2) K by simp
  have find: "circuitmux_find_map_entry m (cs' c) = Some (Some ((ch, i), e))"
    by (rule ewma.find_attached [OF ok wn key' _ e(1)]) simp
  have one: "(0 :: u32) < 1" "1 \<le> cell_count e" using e(3) by (simp_all add: word_gt_0 word_le_nat_alt unat_gt_0 Suc_le_eq)
  obtain g' m1 where x: "circuitmux_notify_xmit_cells g c (cs' c) 1 m = Some (g', m1)"
    using ewma.picked_xmit [OF ok wn pick find one] by fast
  from ewma.xmit_cells_ok [OF ok wn one(1) x] find obtain e1 where
    m1: "ewma.mux_ok ops ch cs' m1" "chanid_circid_map m1 = (chanid_circid_map m)((ch, i) \<mapsto> e1)" "direction e1 = direction e" by auto
  have find1: "circuitmux_find_map_entry m1 (cs' c) = Some (Some ((ch, i), e1))"
    by (rule ewma.find_attached [OF m1(1) wn]) (use key' m1(2,3) in simp_all)
  have fin: "finite (dom (key_of cs'))" "card (dom (key_of cs')) < INT_MAX" using wk small unfolding well_keyed_def K by simp_all
  have "circuitmux_set_num_cells g' c (cs' c) (of_int n) m1 \<noteq> None"
    by (rule ewma.set_num_cells_returns [OF m1(1) wn find1]) (use ewma_active_returns [OF m1(1) wn fin] in \<open>simp add: ewma_policy_def\<close>)
  then obtain m2 where s: "circuitmux_set_num_cells g' c (cs' c) (of_int n) m1 = Some m2" by blast
  from ewma.set_num_cells_ok [OF m1(1) wn s] find1 obtain e2 where
    m2: "ewma.mux_ok ops ch cs' m2" "chanid_circid_map m2 = (chanid_circid_map m1)((ch, i) \<mapsto> e2)" "cell_count e2 = of_int n" by auto
  have map2: "chanid_circid_map m2 = (chanid_circid_map m)((ch, i) \<mapsto> e2)" unfolding m2(2) m1(2) by simp
  have "mux_exact ops {} ch cs' m2"
    by (rule mux_recounted [OF ex wk nm mk others key e(1) m2(1) map2]) (simp_all add: m2(3) n)
  moreover have "policy m = Some (ewma_policy ops)" "policy m1 = Some (ewma_policy ops)" using ok m1(1) by (simp_all add: ewma.mux_ok_def)
  then have "destroy_cell_queue m2 = destroy_cell_queue m" using xmit_cells_frame [OF x] set_num_cells_frame [OF s] by metis
  ultimately show ?thesis using x s by blast
qed

lemma set_queue_simps [simp]:
  "cell_lists (set_queue f q n s) = (cell_lists s)(f := q)" "chans (set_queue f q n s) = chans s"
  "circs (set_queue f q n s) = (circs s)(fst f := put_queue_count (snd f) n (circs s (fst f)))"
  by (simp_all add: set_queue_def set_circ_def)

lemma put_count:
  "same_names cs (cs(c := put_queue_count dir n (cs c)))" "marked_for_close (put_queue_count dir n x) = marked_for_close x"
  "queue_n dir (put_queue_count dir n x) = n" "dir' \<noteq> dir \<Longrightarrow> queue_n dir' (put_queue_count dir n x) = queue_n dir' x"
  by (cases dir; cases dir'; auto simp: same_names_def put_queue_count_def queue_n_def)+

lemma put_count_others:
  "f' \<noteq> (c, dir) \<Longrightarrow> queue_n (snd f') ((cs(c := put_queue_count dir n (cs c))) (fst f')) = queue_n (snd f') (cs (fst f'))"
  by (cases f') (auto simp: put_count)

lemma flow_direction:
  assumes "well_keyed cs" and "key_of cs (c, dir) = Some (ch, i)"
  shows "(if n_chan (cs c) = Some ch then CELL_DIRECTION_OUT else CELL_DIRECTION_IN) = dir"
    and "n_chan (cs c) = Some ch \<or> \<not> is_origin (cs c) \<and> p_chan (cs c) = Some ch"
proof -
  have out: "n_chan (cs c) = Some ch" if "dir = CELL_DIRECTION_OUT" using assms(2) that by (auto simp: key_of_def n_key_def)
  have inw: "\<not> is_origin (cs c) \<and> p_chan (cs c) = Some ch" if "dir = CELL_DIRECTION_IN"
    using assms(2) that by (auto simp: key_of_def p_key_def split: if_splits)
  then have "n_chan (cs c) \<noteq> Some ch" if "dir = CELL_DIRECTION_IN" using assms(1) that unfolding well_keyed_def by blast
  then show "(if n_chan (cs c) = Some ch then CELL_DIRECTION_OUT else CELL_DIRECTION_IN) = dir" using out by (cases dir) simp_all
  show "n_chan (cs c) = Some ch \<or> \<not> is_origin (cs c) \<and> p_chan (cs c) = Some ch" using out inw by (cases dir) simp_all
qed

lemma flow_upd_ok:
  fixes s t :: "('r::linorder, 'z) ewma_relay_t"
  assumes ok: "relay_ok ops s" and x: "chans s ch = Some x" and y: "chans t = (chans s)(ch \<mapsto> y)"
    "wide_circ_ids y = wide_circ_ids x" "\<And>d. num_circuits d y = num_circuits d x" "scheduler_state y = scheduler_state x"
    "sched_heap_idx y = sched_heap_idx x" "cmux y = Some m" "mux_exact ops {} ch (circs t) m"
    and f: "key_of (circs s) (c, dir) = Some (ch, i)" and nm: "same_names (circs s) (circs t)"
    and mk: "\<And>b. marked_for_close (circs t b) = marked_for_close (circs s b)"
    and oth: "\<And>f'. f' \<noteq> (c, dir) \<Longrightarrow> queue_n (snd f') (circs t (fst f')) = queue_n (snd f') (circs s (fst f'))"
    and len: "queue_n dir (circs t c) = int (length (cell_lists t (c, dir)))"
    and q: "\<And>f'. f' \<noteq> (c, dir) \<Longrightarrow> cell_lists t f' = cell_lists s f'"
      "\<And>cell. cell \<in> set (cell_lists t (c, dir)) \<Longrightarrow> cell \<notin> set (cell_lists s (c, dir)) \<Longrightarrow>
         length (packed_body cell) = CELL_MAX_NETWORK_SIZE \<and> packed_cell_is_destroy (wide_circ_ids x) (packed_body cell) = None"
    and few: "cells_queued t < 2 ^ 31"
    and eq: "chan_circid_map t = chan_circid_map s" "last_circid_chan_ent t = last_circid_chan_ent s"
      "n_delete_pending t = n_delete_pending s" "p_delete_pending t = p_delete_pending s"
      "channels_pending t = channels_pending s" "run_sched_ev t = run_sched_ev s" "conflux t = conflux s"
  shows "relay_ok ops t"
proof -
  have ids: "ids_ok ops s" using ok by (simp add: relay_ok_def)
  have "ids_ok ops t"
  proof (rule ids_recount [OF ids nm mk, of ch])
    fix f' k assume "key_of (circs s) f' = Some k" "fst k \<noteq> ch"
    then show "queue_n (snd f') (circs t (fst f')) = queue_n (snd f') (circs s (fst f'))" using f by (intro oth) auto
  next
    fix a z assume z: "chans t a = Some z"
    show "\<exists>x. chans s a = Some x \<and> (\<forall>d. num_circuits d z = num_circuits d x) \<and>
      (\<exists>m. cmux z = Some m \<and> (if a = ch then mux_exact ops {} a (circs t) m else cmux x = Some m))"
    proof (cases "a = ch")
      case False
      then have sa: "chans s a = Some z" using z y(1) by simp
      then show ?thesis using ids_mux [OF ids sa] False by auto
    qed (use z x y in simp)
  qed (use x y(1) eq in auto)
  moreover have "flags_ok t" using ok eq by (intro flags_cong [of t s]) (simp_all add: relay_ok_def same_names_key [OF nm])
  moreover have "one_flow ch (c, dir) s t"
    unfolding one_flow_def
  proof (intro conjI)
    show "\<forall>f'. f' \<noteq> (c, dir) \<longrightarrow> queue_n (snd f') (circs t (fst f')) = queue_n (snd f') (circs s (fst f')) \<and> cell_lists t f' = cell_lists s f'"
      using oth q(1) by blast
    show "\<exists>x y. chans s ch = Some x \<and> chans t = (chans s)(ch \<mapsto> y) \<and> wide_circ_ids y = wide_circ_ids x \<and>
        (\<forall>d. num_circuits d y = num_circuits d x) \<and> scheduler_state y = scheduler_state x \<and> sched_heap_idx y = sched_heap_idx x \<and>
        (\<forall>cell \<in> set (cell_lists t (c, dir)) - set (cell_lists s (c, dir)). length (packed_body cell) = CELL_MAX_NETWORK_SIZE \<and>
           packed_cell_is_destroy (wide_circ_ids x) (packed_body cell) = None)"
      by (rule exI [of _ x], rule exI [of _ y]) (use x y q in blast)
  qed (use nm mk f len eq in simp_all)
  ultimately show ?thesis using one_flow_ok [OF ok] few by blast
qed

lemma one_flow_chan:
  fixes s t :: "('r::linorder, 'z) ewma_relay_t"
  assumes ok: "relay_ok ops s" and x: "chans s ch = Some x" and y: "chans t = (chans s)(ch \<mapsto> y)"
    "wide_circ_ids y = wide_circ_ids x" "\<And>d. num_circuits d y = num_circuits d x" "scheduler_state y = scheduler_state x"
    "sched_heap_idx y = sched_heap_idx x" "cmux y = Some m" "mux_exact ops {} ch (circs t) m"
    and f: "key_of (circs s) (c, dir) = Some (ch, i)" and cs: "circs t = (circs s)(c := put_queue_count dir (int (length q)) (circs s c))"
    and q: "cell_lists t = (cell_lists s)((c, dir) := q)" "set q \<subseteq> set (cell_lists s (c, dir))"
      "length q \<le> length (cell_lists s (c, dir))"
    and eq: "chan_circid_map t = chan_circid_map s" "last_circid_chan_ent t = last_circid_chan_ent s"
      "n_delete_pending t = n_delete_pending s" "p_delete_pending t = p_delete_pending s"
      "channels_pending t = channels_pending s" "run_sched_ev t = run_sched_ev s" "conflux t = conflux s"
  shows "relay_ok ops t"
proof (rule flow_upd_ok [OF ok x y f])
  show "same_names (circs s) (circs t)" unfolding cs by (rule put_count(1))
  show "queue_n (snd f') (circs t (fst f')) = queue_n (snd f') (circs s (fst f'))" if "f' \<noteq> (c, dir)" for f'
    unfolding cs by (rule put_count_others [OF that])
  have "cells_queued t \<le> cells_queued s"
    by (rule cells_queued_drop) (use relay_keyed [OF ok] same_names_key [OF put_count(1)] cs q in simp_all)
  then show "cells_queued t < 2 ^ 31" using ok by (simp add: relay_ok_def)
qed (use cs q eq in \<open>auto simp: put_count\<close>)

lemma flush_circuit_ok:
  fixes s :: "('r::linorder, 'z) ewma_relay_t"
  assumes inp: "input_ok ops X" and ok: "relay_ok ops s" and link: "open_link ch wide s" and room: "outbuf_room (Suc n) ch s"
    and x: "chans s ch = Some x" "cmux x = Some m"
    and pick: "pick_active_circuit (ewma_policy ops) (policy_data m) = Some (Some c)"
    and key: "key_of (circs s) (c, dir) = Some (ch, i)" and e: "chanid_circid_map m (ch, i) = Some e" "direction e = dir" "cell_count e > 0"
  shows "\<exists>t cell. flush_circuit X ch c s = Some (1, False, t) \<and> relay_ok ops t \<and> flushed ch wide [SENT_CELL (c, dir) cell] s t"
proof -
  let ?f = "(c, dir)"
  have wk: "well_keyed (circs s)" using relay_keyed [OF ok] by blast
  have ex: "mux_exact ops {} ch (circs s) m" using ids_mux [of ops s ch x] ok x by (auto simp: relay_ok_def)
  have small: "card (dom (key_of (circs s))) < INT_MAX" using ok by (simp add: relay_ok_def)
  have len: "queue_n dir (circs s c) = int (length (cell_lists s ?f))" using queue_len [OF ok, of ?f] by simp
  have "cell_count e = of_int (queue_n dir (circs s c))" using mux_count [OF ex e(1) key] by simp
  then have "cell_lists s ?f \<noteq> []" using e(3) len by auto
  then obtain cell q where q: "cell_lists s ?f = cell # q" by (cases "cell_lists s ?f") auto
  have w: "wide_circ_ids x = wide" using open_link_chan [OF link] x(1) by auto
  have cellp: "length (packed_body cell) = CELL_MAX_NETWORK_SIZE" "packed_cell_is_destroy wide (packed_body cell) = None"
    using queued_cell [OF ok key, of x cell] x q w by simp_all
  define s1 where "s1 = set_queue ?f q (int (length q)) s"
  have pop: "cell_queue_pop ?f s = (Some cell, s1)" using q len by (simp add: cell_queue_pop_def s1_def)
  have s1: "circs s1 = (circs s)(c := put_queue_count dir (int (length q)) (circs s c))" "chans s1 = chans s"
      "cell_lists s1 = (cell_lists s)(?f := q)" by (simp_all add: s1_def)
  have r1: "open_link ch wide s1" "outbuf_room (Suc n) ch s1" "outbufs s1 = outbufs s"
    using link room by (simp_all add: s1_def open_link_def link_state_def outbuf_room_def) (simp_all add: set_queue_def set_circ_def)
  define bs where "bs = take (unat (get_cell_network_size wide)) (packed_body cell)"
  define s2 where "s2 = (set_chan ch note_xmit (s1\<lparr>outbufs := (outbufs s)(ch := outbufs s ch @ bs)\<rparr>))\<lparr>total_cells_allocated := total_cells_allocated s1 - 1\<rparr>"
  have wr: "channel_write_packed_cell ch cell s1 = Some (0, s2)"
    using write_plain [OF r1(1,2) cellp] unfolding s2_def bs_def r1(3) .
  have s2: "circs s2 = circs s1" "chans s2 = (chans s)(ch \<mapsto> note_xmit x)" "policy_globals s2 = policy_globals s"
    using x(1) by (simp_all add: s2_def set_chan_def s1_def) (simp add: set_queue_def set_circ_def)
  have nm1: "same_names (circs s) (circs s1)" unfolding s1(1) by (rule put_count(1))
  have mk1: "marked_for_close (circs s1 b) = marked_for_close (circs s b)" for b unfolding s1(1) by (simp add: put_count)
  have oth1: "queue_n (snd f') (circs s1 (fst f')) = queue_n (snd f') (circs s (fst f'))" if "f' \<noteq> ?f" for f'
    unfolding s1(1) by (rule put_count_others [OF that])
  have n3: "queue_n dir (circs s1 c) = int (length q)" using s1(1) by (simp add: put_count)
  obtain g' m1 m2 where m: "circuitmux_notify_xmit_cells (policy_globals s) c (circs s1 c) 1 m = Some (g', m1)"
      "circuitmux_set_num_cells g' c (circs s1 c) (of_int (int (length q))) m1 = Some m2"
      "mux_exact ops {} ch (circs s1) m2" "destroy_cell_queue m2 = destroy_cell_queue m"
    using mux_after_cell [OF ex wk small pick key e nm1 mk1 oth1 n3, of "policy_globals s"] by blast
  define s3 where "s3 = set_cmux ch (Some m1) (s2\<lparr>policy_globals := g'\<rparr>)"
  have xmit: "xmit_cells ch c s2 = Some s3" using x(2) s2 m(1) by (simp add: xmit_cells_def s3_def)
  have s3: "circs s3 = circs s1" "chans s3 = (chans s)(ch \<mapsto> (note_xmit x)\<lparr>cmux := Some m1\<rparr>)" "policy_globals s3 = g'"
    using s2 by (simp_all add: s3_def set_cmux_def set_chan_def)
  define s4 where "s4 = set_cmux ch (Some m2) s3"
  have setn: "on_cmux ch (circuitmux_set_num_cells g' c (circs s1 c) (of_int (int (length q)))) s3 = Some s4"
    using s3(2) m(2) by (simp add: on_cmux_def s4_def)
  let ?y = "(note_xmit x)\<lparr>cmux := Some m2\<rparr>"
  have s4: "circs s4 = circs s1" "chans s4 = (chans s)(ch \<mapsto> ?y)" "cell_lists s4 = (cell_lists s)(?f := q)"
      "outbufs s4 = (outbufs s)(ch := outbufs s ch @ bs)" "tls_conn s4 = tls_conn s" "closeable_conns s4 = closeable_conns s"
    using s3(1,2) by (simp_all add: s4_def s3_def s2_def set_cmux_def set_chan_def s1_def) (simp_all add: set_queue_def set_circ_def)
  have qs: "set q \<subseteq> set (cell_lists s ?f)" "length q \<le> length (cell_lists s ?f)" using q by auto
  have y: "wide_circ_ids ?y = wide_circ_ids x" "num_circuits d ?y = num_circuits d x" "scheduler_state ?y = scheduler_state x"
      "sched_heap_idx ?y = sched_heap_idx x" "cmux ?y = Some m2" for d by (simp_all add: num_circuits_def)
  have ok4: "relay_ok ops s4"
    by (rule one_flow_chan [OF ok x(1) s4(2) y _ key _ s4(3) qs])
      (use s4(1) s1(1) m(3) in \<open>simp_all\<close>, simp_all add: s4_def s3_def s2_def set_cmux_def set_chan_def s1_def set_queue_def set_circ_def)
  have K: "key_of (circs s4) = key_of (circs s)" unfolding s4(1) s1(1) by (rule same_names_key [OF put_count(1)])
  have fl: "flushed ch wide [SENT_CELL ?f cell] s s4"
    unfolding flushed_def K
  proof (intro conjI allI impI)
    show "link_state s4 = link_state s" by (rule ext) (use x s4(2) in \<open>simp add: link_state_def\<close>)
    show "outbufs s4 = (outbufs s)(ch := outbufs s ch @ concat (map (item_bytes wide) [SENT_CELL ?f cell]))" using s4(4) by (simp add: bs_def)
    show "\<exists>new. cell_lists s f @ new = sent_on f [SENT_CELL ?f cell] @ cell_lists s4 f" for f
      by (rule exI [of _ "[]"]) (use q s4(3) in auto)
    show "chan_destroys s ch = sent_destroys [SENT_CELL ?f cell] @ chan_destroys s4 ch" using x m(4) s4(2) by (simp add: chan_destroys_def)
    show "chan_destroys s4 a = chan_destroys s a" if "a \<noteq> ch" for a using that s4(2) by (simp add: chan_destroys_def)
    show "\<exists>i. key_of (circs s) f = Some (ch, i)" if "SENT_CELL f cell' \<in> set [SENT_CELL ?f cell]" for f cell' using that key by auto
  qed (simp_all add: s4(5,6))
  obtain t where t: "set_circuit_blocked_on_chan X c ch False s4 = Some t" "relay_ok ops t" "grown s4 t"
    using set_blocked_ok [OF inp ok4, of c dir ch i False] key K by auto
  have flt: "flushed ch wide [SENT_CELL ?f cell] s t" using flushed_trans [OF fl flushed_grown [OF t(3)]] by simp
  have "\<exists>t. flush_circuit X ch c s = Some (1, False, t) \<and> (t = s4 \<or> set_circuit_blocked_on_chan X c ch False s4 = Some t)"
    using flow_direction [OF wk key] len q pop wr xmit setn s3(1,3) n3 t(1)
    by (simp add: flush_circuit_def Let_def)
  then show ?thesis using ok4 fl t flt by auto
qed

lemma turn_flag_ok:
  fixes s :: "('r::linorder, 'z) ewma_relay_t"
  assumes ok: "relay_ok ops s" and x: "chans s ch = Some x" "cmux x = Some m"
  shows "relay_ok ops (set_cmux ch (Some (m\<lparr>last_cell_was_destroy := b\<rparr>)) s) \<and> grown s (set_cmux ch (Some (m\<lparr>last_cell_was_destroy := b\<rparr>)) s)"
proof -
  let ?m = "m\<lparr>last_cell_was_destroy := b\<rparr>" and ?t = "set_cmux ch (Some (m\<lparr>last_cell_was_destroy := b\<rparr>)) s"
  have t: "chans ?t = (chans s)(ch \<mapsto> x\<lparr>cmux := Some ?m\<rparr>)" using x(1) by (simp add: set_cmux_def set_chan_def)
  have "mux_exact ops {} ch (circs s) m" using ids_mux [of ops s ch x] ok x by (auto simp: relay_ok_def)
  then have ex: "mux_exact ops {} ch (circs s) ?m"
    using mux_exact_queue [where m = m and b = b and q = "destroy_cell_queue m" and d = "destroy_ctr m"] by fastforce
  have "relay_ok ops ?t"
    by (rule chan_upd_ok [OF ok x(1) t, where m = ?m]) (simp_all add: ex, simp_all add: set_cmux_def set_chan_def num_circuits_def)
  moreover have "link_state ?t = link_state s" "chan_destroys ?t = chan_destroys s"
    by (rule ext, use x in \<open>simp add: t link_state_def chan_destroys_def\<close>)+
  then have "grown s ?t" by (simp add: grown_def) (simp add: set_cmux_def set_chan_def)
  ultimately show ?thesis by blast
qed

text \<open>Nothing waits on the channel, but for circuits that are going to be closed.\<close>

definition link_idle :: "chan_ref \<Rightarrow> ('g, 'pd, 'cd, 'z) relay_t_scheme \<Rightarrow> bool" where
  "link_idle ch s \<longleftrightarrow> chan_destroys s ch = [] \<and>
     (\<forall>f i. key_of (circs s) f = Some (ch, i) \<longrightarrow> \<not> marked_for_close (circs s (fst f)) \<longrightarrow> cell_lists s f = [])"

lemma idle_mux:
  fixes s :: "('r::linorder, 'z) ewma_relay_t"
  assumes ok: "relay_ok ops s" and x: "chans s ch = Some x" "cmux x = Some m"
    and idle: "act_keys (chanid_circid_map m) = {}" "destroy_cell_queue m = []"
  shows "link_idle ch s"
proof -
  have ex: "mux_exact ops {} ch (circs s) m" using ids_mux [of ops s ch x] ok x by (auto simp: relay_ok_def)
  have wk: "well_keyed (circs s)" "finite (dom (key_of (circs s)))" using relay_keyed [OF ok] by simp_all
  have "cell_lists s f = []" if k: "key_of (circs s) f = Some (ch, i)" and mk: "\<not> marked_for_close (circs s (fst f))" for f i
  proof -
    obtain e where e: "chanid_circid_map m (ch, i) = Some e" and "cell_count e = of_int (queue_n (snd f) (circs s (fst f)))"
      using mux_attached_entry [OF ex wk(1) k] mk by auto
    moreover from e(1) have "cell_count e = 0" using idle(1) unfolding act_keys_def by (force simp: word_gt_0)
    ultimately have "(of_nat (length (cell_lists s f)) :: u32) = 0" using queue_len [OF ok, of f] by simp
    moreover have "length (cell_lists s f) \<le> cells_queued s"
      unfolding cells_queued_def by (rule member_le_sum) (use k wk(2) in auto)
    then have "length (cell_lists s f) < 2 ^ 32" using ok by (simp add: relay_ok_def)
    ultimately show ?thesis using unat_of_nat [of "length (cell_lists s f)", where 'a = 32] by simp
  qed
  then show ?thesis using x idle(2) by (simp add: link_idle_def chan_destroys_def)
qed

lemma flush_turn_ok:
  fixes s :: "('r::linorder, 'z) ewma_relay_t"
  assumes inp: "input_ok ops X" and ok: "relay_ok ops s" and link: "open_link ch wide s" and room: "outbuf_room (Suc n) ch s"
  shows "\<exists>t log. flush_turn X ch s = Some (int (length log), log = [], t) \<and> length log \<le> 1 \<and> relay_ok ops t \<and> flushed ch wide log s t \<and>
    (log = [] \<longrightarrow> link_idle ch t)"
proof -
  obtain x where x: "chans s ch = Some x" using open_link_chan [OF link] by blast
  obtain m where m: "cmux x = Some m" "ewma.mux_ok ops ch (circs s) m" using ids_mux [of ops s ch x] ok x by (auto simp: relay_ok_def)
  note first = ewma.get_first_ok [OF m(2) mux_small [OF ok x m(1)]]
  define t where "t b = set_cmux ch (Some (m\<lparr>last_cell_was_destroy := b\<rparr>)) s" for b
  have t: "relay_ok ops (t b)" "grown s (t b)" for b using turn_flag_ok [OF ok x m(1)] by (simp_all add: t_def)
  have tx: "chans (t b) ch = Some (x\<lparr>cmux := Some (m\<lparr>last_cell_was_destroy := b\<rparr>)\<rparr>)" for b using x by (simp add: t_def set_cmux_def set_chan_def)
  have tl: "open_link ch wide (t b)" "outbuf_room (Suc n) ch (t b)" for b
    using flushed_room [OF flushed_grown [OF t(2)] link room] by simp_all
  have tc: "circs (t b) = circs s" for b by (simp add: t_def set_cmux_def set_chan_def)
  have ft: "flushed ch wide [l] s u" if "flushed ch wide [l] (t b) u" for b l u
    using flushed_trans [OF flushed_grown [OF t(2)] that] by simp
  consider (dest) d q where "destroy_cell_queue m = d # q" "circuitmux_get_first_active_circuit m = Some (None, True, m\<lparr>last_cell_was_destroy := True\<rparr>)"
    | (circ) c k e where "circuitmux_get_first_active_circuit m = Some (Some c, False, m\<lparr>last_cell_was_destroy := False\<rparr>)"
      "pick_active_circuit (ewma_policy ops) (policy_data m) = Some (Some c)" "chanid_circid_map m k = Some e" "cell_count e > 0"
      "key_of (circs s) (c, direction e) = Some k"
    | (idle) "circuitmux_get_first_active_circuit m = Some (None, False, m)" "act_keys (chanid_circid_map m) = {}" "destroy_cell_queue m = []"
    using first by (cases "destroy_cell_queue m") (auto split: if_splits)
  then show ?thesis
  proof cases
    case dest
    have turn: "flush_turn X ch s = flush_destroy ch (t True)" using x m(1) dest by (simp add: flush_turn_def t_def)
    obtain u where "flush_destroy ch (t True) = Some (1, False, u)" "relay_ok ops u" "flushed ch wide [SENT_DESTROY d] (t True) u"
      using flush_destroy_ok [OF t(1) tl tx, where d = d and q = q] dest by auto
    then show ?thesis using turn ft by (intro exI [of _ u] exI [of _ "[SENT_DESTROY d]"]) simp
  next
    case circ
    have turn: "flush_turn X ch s = flush_circuit X ch c (t False)" using x m(1) circ by (simp add: flush_turn_def t_def)
    have "fst k = ch" using circ(3) m(2) unfolding ewma.mux_ok_def ewma.entry_ok_def by blast
    then obtain i where k: "k = (ch, i)" by (cases k) auto
    obtain u cell where "flush_circuit X ch c (t False) = Some (1, False, u)" "relay_ok ops u"
        "flushed ch wide [SENT_CELL (c, direction e) cell] (t False) u"
      using flush_circuit_ok [OF inp t(1) [of False] tl tx, where c = c and dir = "direction e" and i = i and e = e] circ k tc by auto
    then show ?thesis using turn ft by (intro exI [of _ u] exI [of _ "[SENT_CELL (c, direction e) cell]"]) simp
  next
    case idle
    have same: "m\<lparr>last_cell_was_destroy := last_cell_was_destroy m\<rparr> = m" by simp
    let ?t = "t (last_cell_was_destroy m)"
    have turn: "flush_turn X ch s = Some (0, True, ?t)" using x m(1) idle by (simp add: flush_turn_def t_def)
    have "link_idle ch ?t" by (rule idle_mux [OF t(1) tx, where m = m]) (use idle in simp_all)
    then show ?thesis using turn t flushed_grown [OF t(2)] by (intro exI [of _ ?t] exI [of _ "[]"]) simp
  qed
qed

lemma flush_loop_unfold:
  "flush_loop X ch maxn n s = (if n < maxn then Option.bind (flush_turn X ch s)
     (\<lambda>(sent, stop, s1). if stop then Some (n, s1) else flush_loop X ch maxn (n + sent) s1) else Some (n, s))"
  by (subst flush_loop.simps) simp

lemma flush_loop_ok:
  fixes s :: "('r::linorder, 'z) ewma_relay_t"
  assumes "input_ok ops X" and "relay_ok ops s" and "open_link ch wide s" and "outbuf_room k ch s" and "k = nat (maxn - n)"
  shows "\<exists>t log. flush_loop X ch maxn n s = Some (n + int (length log), t) \<and> length log \<le> k \<and> relay_ok ops t \<and> flushed ch wide log s t \<and>
    (length log < k \<longrightarrow> link_idle ch t)"
  using assms
proof (induction k arbitrary: n s)
  case 0
  then have "flush_loop X ch maxn n s = Some (n, s)" by (simp add: flush_loop_unfold [of X ch maxn n s])
  then show ?case using 0 flushed_grown [OF grown_refl] by (intro exI [of _ s] exI [of _ "[]"]) simp
next
  case (Suc k)
  have lt: "n < maxn" using Suc.prems(5) by simp
  obtain t log where t: "flush_turn X ch s = Some (int (length log), log = [], t)" "length log \<le> 1" "relay_ok ops t"
      "flushed ch wide log s t" "log = [] \<longrightarrow> link_idle ch t" using flush_turn_ok [OF Suc.prems(1-4)] by blast
  show ?case
  proof (cases log)
    case Nil
    then have "flush_loop X ch maxn n s = Some (n, t)" using lt t(1) by (simp add: flush_loop_unfold [of X ch maxn n s])
    then show ?thesis using t Nil by (intro exI [of _ t] exI [of _ "[]"]) simp
  next
    case (Cons l r)
    then have l: "log = [l]" using t(2) by simp
    have loop: "flush_loop X ch maxn n s = flush_loop X ch maxn (n + 1) t" using lt t(1) l by (simp add: flush_loop_unfold [of X ch maxn n s])
    have "open_link ch wide t" "outbuf_room k ch t" using flushed_room [OF t(4) Suc.prems(3,4)] l by simp_all
    moreover have "k = nat (maxn - (n + 1))" using Suc.prems(5) by simp
    ultimately obtain u log' where u: "flush_loop X ch maxn (n + 1) t = Some (n + 1 + int (length log'), u)" "length log' \<le> k" "relay_ok ops u"
        "flushed ch wide log' t u" "length log' < k \<longrightarrow> link_idle ch u" using Suc.IH [OF Suc.prems(1) t(3)] by blast
    have "flushed ch wide (l # log') s u" using flushed_trans [OF t(4) u(4)] l by simp
    then show ?thesis using u loop by (intro exI [of _ u] exI [of _ "l # log'"]) (simp add: algebra_simps)
  qed
qed


end
