(* ===== verification/Cell_Queue_Append.thy ===== *)
theory Cell_Queue_Append
  imports Cell_Queue_Flow
begin

text \<open>
  Putting cells on the queues of \<open>Cell_Queue\<close> (\<open>append_cell_to_circuit_queue\<close> of \<open>src/core/or/relay.c\<close>), on every branch.
\<close>

section \<open>The mux is told\<close>

lemma mux_after_append:
  assumes ex: "mux_exact ops {} ch cs m" and wk: "well_keyed cs" and small: "card (dom (key_of cs)) < INT_MAX"
    and key: "key_of cs (c, dir) = Some (ch, i)" and unm: "\<not> marked_for_close (cs c)"
    and nm: "same_names cs cs'" and mk: "\<And>b. marked_for_close (cs' b) = marked_for_close (cs b)"
    and others: "\<And>f'. f' \<noteq> (c, dir) \<Longrightarrow> queue_n (snd f') (cs' (fst f')) = queue_n (snd f') (cs (fst f'))"
    and n: "queue_n dir (cs' c) = n"
  shows "\<exists>m'. circuitmux_is_circuit_attached m (cs' c) = Some True \<and> circuitmux_attached_circuit_direction m (cs' c) = Some dir \<and>
    circuitmux_set_num_cells g c (cs' c) (of_int n) m = Some m' \<and> mux_exact ops {} ch cs' m' \<and> destroy_cell_queue m' = destroy_cell_queue m"
proof -
  have ok: "ewma.mux_ok ops ch cs' m" using ex by (simp add: mux_exact_def same_names_ok [OF nm])
  have K: "key_of cs' = key_of cs" by (rule same_names_key [OF nm])
  have wk': "well_keyed cs'" using wk nm unfolding well_keyed_def K same_names_def by metis
  note wn = well_keyed_named [OF wk', of ch]
  obtain e where e: "chanid_circid_map m (ch, i) = Some e" "direction e = dir"
    using mux_attached_entry [OF ex wk key] unm by auto
  have find: "circuitmux_find_map_entry m (cs' c) = Some (Some ((ch, i), e))"
    by (rule ewma.find_attached [OF ok wn _ _ e(1)]) (use key e(2) K in simp_all)
  have fin: "finite (dom (key_of cs'))" "card (dom (key_of cs')) < INT_MAX" using wk small unfolding well_keyed_def K by simp_all
  have "circuitmux_set_num_cells g c (cs' c) (of_int n) m \<noteq> None"
    by (rule ewma.set_num_cells_returns [OF ok wn find]) (use ewma_active_returns [OF ok wn fin] in \<open>simp add: ewma_policy_def\<close>)
  then obtain m' where s: "circuitmux_set_num_cells g c (cs' c) (of_int n) m = Some m'" by blast
  from ewma.set_num_cells_ok [OF ok wn s] find obtain e2 where
    m': "ewma.mux_ok ops ch cs' m'" "chanid_circid_map m' = (chanid_circid_map m)((ch, i) \<mapsto> e2)" "cell_count e2 = of_int n" by auto
  have "mux_exact ops {} ch cs' m'"
    by (rule mux_recounted [OF ex wk nm mk others key e(1) m'(1,2)]) (simp_all add: m'(3) n)
  moreover have "policy m = Some (ewma_policy ops)" using ok by (simp add: ewma.mux_ok_def)
  ultimately show ?thesis using s find e(2) set_num_cells_frame [OF s]
    by (simp add: circuitmux_is_circuit_attached_def circuitmux_attached_circuit_direction_def)
qed

section \<open>Blocking\<close>

text \<open>Only the flags of circuits that are blocked, and streams, change.\<close>

definition only_blocking :: "('g, 'pd, 'cd, 'z) relay_t_scheme \<Rightarrow> ('g, 'pd, 'cd, 'z) relay_t_scheme \<Rightarrow> bool" where
  "only_blocking s t \<longleftrightarrow> t = s\<lparr>circs := circs t, edges := edges t\<rparr> \<and>
     (\<forall>b. \<exists>x y. circs t b = (circs s b)\<lparr>circuit_blocked_on_n_chan := x, circuit_blocked_on_p_chan := y\<rparr>)"

lemma only_blocking_refl: "only_blocking s s"
proof -
  have "\<exists>x y. circs s b = (circs s b)\<lparr>circuit_blocked_on_n_chan := x, circuit_blocked_on_p_chan := y\<rparr>" for b
    by (rule exI [of _ "circuit_blocked_on_n_chan (circs s b)"], rule exI [of _ "circuit_blocked_on_p_chan (circs s b)"]) simp
  then show ?thesis by (simp add: only_blocking_def)
qed

lemma two_updates:
  "t = s\<lparr>circs := a, edges := b\<rparr> \<Longrightarrow> u = t\<lparr>circs := a', edges := b'\<rparr> \<Longrightarrow> u = s\<lparr>circs := a', edges := b'\<rparr>"
  by simp

lemma only_blocking_trans:
  assumes 1: "only_blocking s t" and 2: "only_blocking t u"
  shows "only_blocking s u"
proof -
  have tt: "t = s\<lparr>circs := circs t, edges := edges t\<rparr>" and ut: "u = t\<lparr>circs := circs u, edges := edges u\<rparr>"
    using 1 2 unfolding only_blocking_def by blast+
  have "u = s\<lparr>circs := circs u, edges := edges u\<rparr>" by (rule two_updates [OF tt ut])
  moreover have "\<exists>x y. circs u b = (circs s b)\<lparr>circuit_blocked_on_n_chan := x, circuit_blocked_on_p_chan := y\<rparr>" for b
  proof -
    obtain x y x' y' where "circs t b = (circs s b)\<lparr>circuit_blocked_on_n_chan := x, circuit_blocked_on_p_chan := y\<rparr>"
      "circs u b = (circs t b)\<lparr>circuit_blocked_on_n_chan := x', circuit_blocked_on_p_chan := y'\<rparr>"
      using 1 2 unfolding only_blocking_def by blast
    then have "circs u b = (circs s b)\<lparr>circuit_blocked_on_n_chan := x', circuit_blocked_on_p_chan := y'\<rparr>" by simp
    then show ?thesis by blast
  qed
  ultimately show ?thesis unfolding only_blocking_def by blast
qed

lemma only_blocking_edge: "only_blocking s (put_edge n e s)"
  using only_blocking_refl [of s] by (simp add: only_blocking_def put_edge_def)

lemma only_blocking_circ:
  assumes "f = circuit_blocked_on_n_chan_update (\<lambda>_. b) \<or> f = circuit_blocked_on_p_chan_update (\<lambda>_. b)"
  shows "only_blocking s (set_circ c f s)"
proof -
  have "\<exists>x y. f (circs s a) = (circs s a)\<lparr>circuit_blocked_on_n_chan := x, circuit_blocked_on_p_chan := y\<rparr>" for a
    using assms
  proof
    assume "f = circuit_blocked_on_n_chan_update (\<lambda>_. b)"
    then show ?thesis by (intro exI [of _ b] exI [of _ "circuit_blocked_on_p_chan (circs s a)"]) simp
  next
    assume "f = circuit_blocked_on_p_chan_update (\<lambda>_. b)"
    then show ?thesis by (rule_tac exI [of _ "circuit_blocked_on_n_chan (circs s a)"]) (rule exI [of _ b], simp)
  qed
  then show ?thesis using only_blocking_refl [of s] by (simp add: only_blocking_def set_circ_def)
qed

lemma block_true: "\<exists>t. block_streams X True sid ns s = Some t \<and> only_blocking s t \<and> circs t = circs s"
proof (induction ns arbitrary: s)
  case (Cons n ns)
  have "block_stream X True sid n s \<in> {Some s, Some (put_edge n (connection_stop_reading (edge (edges s n))) s)}"
    by (simp add: block_stream_def Let_def)
  moreover have "circs (put_edge n e s) = circs s" for e by (simp add: put_edge_def)
  ultimately obtain u where u: "block_stream X True sid n s = Some u" "only_blocking s u" "circs u = circs s"
    using only_blocking_refl only_blocking_edge by blast
  then show ?case using Cons.IH [of u] only_blocking_trans [OF u(2)] by auto
qed (simp add: only_blocking_refl)

lemma set_block_true:
  assumes "conflux s c = None"
  shows "\<exists>t. set_block_state_for_streams X c ns True sid s = Some t \<and> only_blocking s t \<and> circs t = circs s"
  using assms block_true by (simp add: set_block_state_for_streams_def conflux_agrees_def)

definition circuit_blocked :: "cell_direction_t \<Rightarrow> mux_circuit_t \<Rightarrow> bool" where
  "circuit_blocked dir x = (if dir = CELL_DIRECTION_OUT then circuit_blocked_on_n_chan x else circuit_blocked_on_p_chan x)"

lemma set_blocked_true:
  assumes wk: "well_keyed (circs s)" and key: "key_of (circs s) (c, dir) = Some (ch, i)" and cfx: "conflux s c = None"
  shows "\<exists>t. set_circuit_blocked_on_chan X c ch True s = Some t \<and> only_blocking s t \<and> circuit_blocked dir (circs t c)"
proof -
  have b: "\<exists>t. set_block_state_for_streams X c ns True sid (set_circ c f s) = Some t \<and> only_blocking s t \<and> circs t c = f (circs s c)"
    if f: "f = circuit_blocked_on_n_chan_update (\<lambda>_. True) \<or> f = circuit_blocked_on_p_chan_update (\<lambda>_. True)" for f ns sid
  proof -
    have "conflux (set_circ c f s) c = None" using cfx by (simp add: set_circ_def)
    from set_block_true [OF this] obtain t where t: "set_block_state_for_streams X c ns True sid (set_circ c f s) = Some t"
        "only_blocking (set_circ c f s) t" "circs t = circs (set_circ c f s)" by blast
    have "circs t c = f (circs s c)" using t(3) by (simp add: set_circ_def)
    then show ?thesis using t(1) only_blocking_trans [OF only_blocking_circ [OF f] t(2)] by blast
  qed
  have n: "\<exists>t. set_block_state_for_streams X c ns True sid (set_circ c (circuit_blocked_on_n_chan_update (\<lambda>_. True)) s) = Some t \<and>
      only_blocking s t \<and> circuit_blocked_on_n_chan (circs t c)" for ns sid
    using b [of "circuit_blocked_on_n_chan_update (\<lambda>_. True)" ns sid] by auto
  have p: "\<exists>t. set_block_state_for_streams X c ns True sid (set_circ c (circuit_blocked_on_p_chan_update (\<lambda>_. True)) s) = Some t \<and>
      only_blocking s t \<and> circuit_blocked_on_p_chan (circs t c)" for ns sid
    using b [of "circuit_blocked_on_p_chan_update (\<lambda>_. True)" ns sid] by auto
  show ?thesis
    using flow_direction [OF wk key] n p
    by (cases "n_chan (circs s c) = Some ch") (auto simp: set_circuit_blocked_on_chan_def circuit_blocked_def)
qed

lemma only_blocking_fields:
  assumes "only_blocking s t"
  shows "chans t = chans s" "chan_circid_map t = chan_circid_map s" "last_circid_chan_ent t = last_circid_chan_ent s"
    "n_delete_pending t = n_delete_pending s" "p_delete_pending t = p_delete_pending s" "cell_lists t = cell_lists s"
    "channels_pending t = channels_pending s" "run_sched_ev t = run_sched_ev s" "conflux t = conflux s"
    "policy_globals t = policy_globals s" "outbufs t = outbufs s" "tls_conn t = tls_conn s" "closeable_conns t = closeable_conns s"
proof -
  have t: "t = s\<lparr>circs := circs t, edges := edges t\<rparr>" using assms unfolding only_blocking_def by blast
  show "chans t = chans s" "chan_circid_map t = chan_circid_map s" "last_circid_chan_ent t = last_circid_chan_ent s"
    "n_delete_pending t = n_delete_pending s" "p_delete_pending t = p_delete_pending s" "cell_lists t = cell_lists s"
    "channels_pending t = channels_pending s" "run_sched_ev t = run_sched_ev s" "conflux t = conflux s"
    "policy_globals t = policy_globals s" "outbufs t = outbufs s" "tls_conn t = tls_conn s" "closeable_conns t = closeable_conns s"
    by (subst t, simp)+
qed

lemma only_blocking_circs:
  assumes "only_blocking s t"
  shows "same_names (circs s) (circs t)" "marked_for_close (circs t b) = marked_for_close (circs s b)"
    "queue_n d (circs t b) = queue_n d (circs s b)" "is_origin (circs t b) = is_origin (circs s b)"
proof -
  have "n_chan (circs t b) = n_chan (circs s b) \<and> n_circ_id (circs t b) = n_circ_id (circs s b) \<and> p_chan (circs t b) = p_chan (circs s b) \<and>
      p_circ_id (circs t b) = p_circ_id (circs s b) \<and> is_origin (circs t b) = is_origin (circs s b) \<and>
      marked_for_close (circs t b) = marked_for_close (circs s b) \<and> queue_n d (circs t b) = queue_n d (circs s b)" for b d
  proof -
    obtain x y where "circs t b = (circs s b)\<lparr>circuit_blocked_on_n_chan := x, circuit_blocked_on_p_chan := y\<rparr>"
      using assms unfolding only_blocking_def by blast
    then show ?thesis by (simp add: queue_n_def)
  qed
  then show "same_names (circs s) (circs t)" "marked_for_close (circs t b) = marked_for_close (circs s b)"
    "queue_n d (circs t b) = queue_n d (circs s b)" "is_origin (circs t b) = is_origin (circs s b)" by (simp_all add: same_names_def)
qed

section \<open>The scheduler is told\<close>

lemma more_relay:
  fixes s t :: "('g, 'pd, 'cd, 'z) relay_t_scheme"
  assumes "sched_t.more t = sched_t.more s"
  shows "circs t = circs s" "chan_circid_map t = chan_circid_map s" "last_circid_chan_ent t = last_circid_chan_ent s"
    "n_delete_pending t = n_delete_pending s" "p_delete_pending t = p_delete_pending s" "cell_lists t = cell_lists s"
    "conflux t = conflux s" "outbufs t = outbufs s" "tls_conn t = tls_conn s" "closeable_conns t = closeable_conns s"
  using assms by (cases s, cases t, simp)+

lemma waiting_cells_ok:
  fixes s :: "('r::linorder, 'z) ewma_relay_t"
  assumes ok: "relay_ok ops s" and x: "chans s ch \<noteq> None"
  shows "\<exists>t. scheduler_channel_has_waiting_cells ch s = Some t \<and> relay_ok ops t \<and> fst (bits_of t ch) \<and>
    circs t = circs s \<and> cell_lists t = cell_lists s \<and> grown s t"
proof -
  have ss: "sched_settled s" "sched_room s" using ok by (simp_all add: relay_ok_def)
  obtain t where t: "sched_step (HAS_WAITING_CELLS ch) s = Some t" "sched_settled t" "dom (chans t) = dom (chans s)"
      "bits_of t = bits_step (HAS_WAITING_CELLS ch) (bits_of s)" using sched_step_ok [OF ss, of "HAS_WAITING_CELLS ch"] x by auto
  have fr: "sched_frame s t" by (rule sched_step_frame [OF t(1)])
  then have more: "sched_t.more t = sched_t.more s" by (simp add: sched_frame_def)
  note eq = more_relay [OF more]
  have strip: "map_option strip_sched (chans t a) = map_option strip_sched (chans s a)" for a using fr by (simp add: sched_frame_def)
  have y: "\<exists>x. chans s a = Some x \<and> cmux y = cmux x \<and> wide_circ_ids y = wide_circ_ids x \<and> (\<forall>d. num_circuits d y = num_circuits d x) \<and>
      chan_state y = chan_state x" if ay: "chans t a = Some y" for a y
  proof -
    obtain x where x: "chans s a = Some x" "strip_sched y = strip_sched x" using strip [of a] ay by (cases "chans s a") auto
    from x(2) have "cmux y = cmux x" "wide_circ_ids y = wide_circ_ids x" "num_n_circuits y = num_n_circuits x" "num_p_circuits y = num_p_circuits x"
        "chan_state y = chan_state x" by (cases y; cases x; simp add: strip_sched_def)+
    then show ?thesis using x(1) by (simp add: num_circuits_def)
  qed
  have ids: "ids_ok ops s" using ok by (simp add: relay_ok_def)
  have "ids_ok ops t"
  proof (rule ids_recount [OF ids, of t ch])
    fix a z assume "chans t a = Some z"
    then obtain x where x: "chans s a = Some x" "cmux z = cmux x" "\<forall>d. num_circuits d z = num_circuits d x" using y by blast
    then show "\<exists>x. chans s a = Some x \<and> (\<forall>d. num_circuits d z = num_circuits d x) \<and>
        (\<exists>m. cmux z = Some m \<and> (if a = ch then mux_exact ops {} a (circs t) m else cmux x = Some m))"
      using ids_mux [OF ids x(1)] eq(1) by auto
  qed (simp_all add: eq t(3) same_names_sym)
  moreover have "flags_ok t" using ok eq by (intro flags_cong [of t s]) (simp_all add: relay_ok_def)
  moreover have "queues_ok t"
    unfolding queues_ok_def eq(1,6)
  proof (intro conjI allI impI)
    show "queue_n (snd f) (circs s (fst f)) = int (length (cell_lists s f))" for f by (rule queue_len [OF ok])
  next
    fix f k z cell assume a: "key_of (circs s) f = Some k" "chans t (fst k) = Some z" "cell \<in> set (cell_lists s f)"
    obtain x where x: "chans s (fst k) = Some x" "wide_circ_ids z = wide_circ_ids x" using y [OF a(2)] by blast
    show "length (packed_body cell) = CELL_MAX_NETWORK_SIZE" "packed_cell_is_destroy (wide_circ_ids z) (packed_body cell) = None"
      using queued_cell [OF ok a(1) x(1) a(3)] x(2) by simp_all
  qed
  ultimately have "relay_ok ops t" using ok t(2,3) by (simp add: relay_ok_def eq cells_queued_def sched_room_def)
  moreover have "chan_destroys t a = chan_destroys s a \<and> link_state t a = link_state s a" for a
  proof -
    have "a \<in> dom (chans t) \<longleftrightarrow> a \<in> dom (chans s)" using t(3) by simp
    then show ?thesis using y [of a] by (cases "chans t a"; cases "chans s a") (auto simp: chan_destroys_def link_state_def)
  qed
  then have "grown s t" by (simp add: grown_def eq fun_eq_iff)
  ultimately show ?thesis using t(1,4) eq by auto
qed

section \<open>Appending\<close>

definition memory_short :: "('g, 'pd, 'cd, 'z) relay_t_scheme outside_t \<Rightarrow> ('g, 'pd, 'cd, 'z) relay_t_scheme \<Rightarrow> bool" where
  "memory_short X s \<longleftrightarrow> MaxMemInQueues X \<le> cell_queues_get_total_allocation s + other_allocation X s + hs_cache_total_allocation X s +
     geoip_cache_total_allocation X s + dns_cache_total_allocation X s + conflux_total_allocation X s"

lemma check_size_fine:
  "\<not> memory_short X s \<Longrightarrow> \<exists>lt. cell_queues_check_size X s = Some (False, s\<lparr>last_time_under_memory_pressure := lt\<rparr>)"
proof -
  assume a: "\<not> memory_short X s"
  have "cell_queues_check_size X s \<in> {Some (False, s), Some (False, s\<lparr>last_time_under_memory_pressure := time_now s\<rparr>)}"
    using a by (simp add: memory_short_def cell_queues_check_size_def Let_def)
  moreover have "s = s\<lparr>last_time_under_memory_pressure := last_time_under_memory_pressure s\<rparr>" by simp
  ultimately show ?thesis by (metis insertE singletonD)
qed

lemma cells_queued_grow:
  assumes fin: "finite (dom (key_of (circs s)))" and f: "f \<in> dom (key_of (circs s))" and K: "key_of (circs t) = key_of (circs s)"
    and l: "cell_lists t = (cell_lists s)(f := q)" "length q = Suc (length (cell_lists s f))"
  shows "cells_queued t = Suc (cells_queued s)"
proof -
  let ?D = "dom (key_of (circs s))"
  have "(\<Sum>g \<in> ?D - {f}. length (cell_lists t g)) = (\<Sum>g \<in> ?D - {f}. length (cell_lists s g))" by (rule sum.cong) (use l in auto)
  then show ?thesis
    unfolding cells_queued_def K using sum.remove [OF fin f, of "\<lambda>g. length (cell_lists t g)"] sum.remove [OF fin f, of "\<lambda>g. length (cell_lists s g)"] l
    by simp
qed

definition queue_limit :: "cell_direction_t \<Rightarrow> ('g, 'pd, 'cd, 'z) relay_t_scheme \<Rightarrow> int" where
  "queue_limit dir s = (if dir = CELL_DIRECTION_OUT then max_circuit_cell_queue_size_out s else max_circuit_cell_queue_size s)"

text \<open>The steps between the queue and the mux.\<close>

lemma append_blocks:
  fixes s :: "('g, 'pd, 'cd, 'z) relay_t_scheme"
  assumes wk: "well_keyed (circs s)" and key: "key_of (circs s) (c, dir) = Some (ch, i)" and cfx: "conflux s c = None"
  shows "\<exists>s3 s4. (if \<not> circuit_blocked dir (circs s c) \<and> high then set_circuit_blocked_on_chan X c ch True s else Some s) = Some s3 \<and>
    (if circuit_blocked dir (circs s c) \<and> fromstream \<noteq> 0 then set_block_state_for_streams X c ns True fromstream s3 else Some s3) = Some s4 \<and>
    only_blocking s s4 \<and> circuit_blocked dir (circs s4 c) = (circuit_blocked dir (circs s c) \<or> high)"
proof (cases "circuit_blocked dir (circs s c)")
  case True
  obtain t where "set_block_state_for_streams X c ns True fromstream s = Some t" "only_blocking s t" "circs t = circs s"
    using set_block_true [OF cfx] by blast
  then show ?thesis using True only_blocking_refl by auto
next
  case False
  obtain t where "set_circuit_blocked_on_chan X c ch True s = Some t" "only_blocking s t" "circuit_blocked dir (circs t c)"
    using set_blocked_true [OF wk key cfx] by blast
  then show ?thesis using False only_blocking_refl by auto
qed

definition blocked_streams :: "circuit_name \<Rightarrow> cell_direction_t \<Rightarrow> ('g, 'pd, 'cd, 'z) relay_t_scheme \<Rightarrow> stream_name list" where
  "blocked_streams c dir s = (if dir = CELL_DIRECTION_OUT then if is_origin (circs s c) then streams s c else [] else streams s c)"

lemma append_unfold:
  assumes "\<not> marked_for_close (circs s c)" and "\<not> (dir = CELL_DIRECTION_IN \<and> is_origin (circs s c))"
    and "\<not> queue_limit dir s \<le> queue_n dir (circs s c)" and "chans s ch = Some x"
    and "cell_queue_append_packed_copy (c, dir) cell (wide_circ_ids x) s = s1" and "cell_queues_check_size X s1 = Some (False, s2)"
  shows "append_cell_to_circuit_queue X c ch cell dir fromstream s = do {
      s3 \<leftarrow> (if \<not> circuit_blocked dir (circs s c) \<and> queue_n dir (circs s2 c) \<ge> cell_queue_highwatermark (cc_global s2)
              then set_circuit_blocked_on_chan X c ch True s2 else Some s2);
      s4 \<leftarrow> (if circuit_blocked dir (circs s c) \<and> fromstream \<noteq> 0
              then set_block_state_for_streams X c (blocked_streams c dir s) True fromstream s3 else Some s3);
      s5 \<leftarrow> update_circuit_on_cmux c dir s4;
      s6 \<leftarrow> scheduler_channel_has_waiting_cells ch s5;
      Some (1, s6)
    }"
  using assms by (cases dir) (simp_all add: append_cell_to_circuit_queue_def Let_def queue_limit_def circuit_blocked_def blocked_streams_def)

lemma append_ok:
  fixes s :: "('r::linorder, 'z) ewma_relay_t"
  assumes ok: "relay_ok ops s" and x: "chans s ch = Some x" and key: "key_of (circs s) (c, dir) = Some (ch, i)"
    and cell: "cell_ok (wide_circ_ids x) cell" "cell_command cell \<noteq> CELL_DESTROY"
    and unm: "\<not> marked_for_close (circs s c)" and room: "int (length (cell_lists s (c, dir))) < queue_limit dir s"
    and few: "cells_queued s + 1 < 2 ^ 31"
    and mem: "\<not> memory_short X (cell_queue_append_packed_copy (c, dir) cell (wide_circ_ids x) s)"
  shows "\<exists>t. append_cell_to_circuit_queue X c ch cell dir fromstream s = Some (1, t) \<and> relay_ok ops t \<and>
    cell_lists t = (cell_lists s)((c, dir) := cell_lists s (c, dir) @
      [\<lparr>packed_body = cell_pack cell (wide_circ_ids x), inserted_timestamp = coarse_stamp s\<rparr>]) \<and>
    grown s t \<and> fst (bits_of t ch) \<and>
    circuit_blocked dir (circs t c) = (circuit_blocked dir (circs s c) \<or> int (length (cell_lists s (c, dir))) + 1 \<ge> cell_queue_highwatermark (cc_global s))"
proof -
  let ?f = "(c, dir)" and ?pc = "\<lparr>packed_body = cell_pack cell (wide_circ_ids x), inserted_timestamp = coarse_stamp s\<rparr>"
  let ?n = "int (length (cell_lists s ?f)) + 1"
  have wk: "well_keyed (circs s)" "finite (dom (key_of (circs s)))" using relay_keyed [OF ok] by simp_all
  have small: "card (dom (key_of (circs s))) < INT_MAX" using ok by (simp add: relay_ok_def)
  obtain m where m: "cmux x = Some m" "mux_exact ops {} ch (circs s) m" using ids_mux [of ops s ch x] ok x by (auto simp: relay_ok_def)
  have qn: "queue_n dir (circs s c) = int (length (cell_lists s ?f))" using queue_len [OF ok, of ?f] by simp
  define s1 where "s1 = cell_queue_append_packed_copy ?f cell (wide_circ_ids x) s"
  obtain lt where chk: "cell_queues_check_size X s1 = Some (False, s1\<lparr>last_time_under_memory_pressure := lt\<rparr>)"
    using check_size_fine [of X s1] mem unfolding s1_def by blast
  define s2 where "s2 = s1\<lparr>last_time_under_memory_pressure := lt\<rparr>"
  have s2e: "s2 = (set_queue ?f (cell_lists s ?f @ [?pc]) ?n (s\<lparr>total_cells_allocated := total_cells_allocated s + 1\<rparr>))\<lparr>last_time_under_memory_pressure := lt\<rparr>"
    by (simp add: s2_def s1_def cell_queue_append_packed_copy_def packed_cell_copy_def cell_queue_append_def qn)
  have c2: "circs s2 = (circs s)(c := put_queue_count dir ?n (circs s c))" "cell_lists s2 = (cell_lists s)(?f := cell_lists s ?f @ [?pc])"
    unfolding s2e by simp_all
  have f2: "chans s2 = chans s" "chan_circid_map s2 = chan_circid_map s" "last_circid_chan_ent s2 = last_circid_chan_ent s"
    "n_delete_pending s2 = n_delete_pending s" "p_delete_pending s2 = p_delete_pending s" "channels_pending s2 = channels_pending s"
    "run_sched_ev s2 = run_sched_ev s" "conflux s2 = conflux s" "policy_globals s2 = policy_globals s" "outbufs s2 = outbufs s"
    "cc_global s2 = cc_global s" "tls_conn s2 = tls_conn s" "closeable_conns s2 = closeable_conns s" unfolding s2e by (simp_all add: set_queue_def set_circ_def)
  have nm2: "same_names (circs s) (circs s2)" unfolding c2(1) by (rule put_count(1))
  have K2: "key_of (circs s2) = key_of (circs s)" by (rule same_names_key [OF nm2])
  have wk2: "well_keyed (circs s2)" using wk(1) nm2 unfolding well_keyed_def K2 same_names_def by metis
  have b2: "circuit_blocked dir (circs s2 c) = circuit_blocked dir (circs s c)" "queue_n dir (circs s2 c) = ?n"
      "is_origin (circs s2 c) = is_origin (circs s c)"
    unfolding c2(1) by (simp_all add: circuit_blocked_def put_count) (simp_all add: put_queue_count_def)
  have cfx: "conflux s2 c = None" using ok f2(8) by (simp add: relay_ok_def)
  let ?ns = "blocked_streams c dir s"
  obtain s3 s4 where s4: "(if \<not> circuit_blocked dir (circs s2 c) \<and> ?n \<ge> cell_queue_highwatermark (cc_global s)
        then set_circuit_blocked_on_chan X c ch True s2 else Some s2) = Some s3"
      "(if circuit_blocked dir (circs s2 c) \<and> fromstream \<noteq> 0 then set_block_state_for_streams X c ?ns True fromstream s3 else Some s3) = Some s4"
      "only_blocking s2 s4"
      "circuit_blocked dir (circs s4 c) = (circuit_blocked dir (circs s2 c) \<or> ?n \<ge> cell_queue_highwatermark (cc_global s))"
    using append_blocks [OF wk2 _ cfx, of dir ch i "?n \<ge> cell_queue_highwatermark (cc_global s)" X fromstream ?ns] key K2 by auto
  note f4 = only_blocking_fields [OF s4(3)] and c4 = only_blocking_circs [OF s4(3)]
  have nm: "same_names (circs s) (circs s4)" by (rule same_names_trans [OF nm2 c4(1)])
  have mk: "marked_for_close (circs s4 b) = marked_for_close (circs s b)" for b unfolding c4(2) c2(1) by (simp add: put_count)
  have oth: "queue_n (snd f') (circs s4 (fst f')) = queue_n (snd f') (circs s (fst f'))" if "f' \<noteq> ?f" for f'
    unfolding c4(3) c2(1) by (rule put_count_others [OF that])
  have n4: "queue_n dir (circs s4 c) = ?n" unfolding c4(3) by (rule b2(2))
  have K4: "key_of (circs s4) = key_of (circs s)" by (rule same_names_key [OF nm])
  obtain m' where m': "circuitmux_is_circuit_attached m (circs s4 c) = Some True" "circuitmux_attached_circuit_direction m (circs s4 c) = Some dir"
      "circuitmux_set_num_cells (policy_globals s) c (circs s4 c) (of_int ?n) m = Some m'" "mux_exact ops {} ch (circs s4) m'"
      "destroy_cell_queue m' = destroy_cell_queue m"
    using mux_after_append [OF m(2) wk(1) small key unm nm mk oth n4] by blast
  define s5 where "s5 = set_cmux ch (Some m') s4"
  have x4: "chans s4 ch = Some x" using x f4(1) f2(1) by simp
  have dirk: "if dir = CELL_DIRECTION_OUT then n_chan (circs s4 c) = Some ch else \<not> is_origin (circs s4 c) \<and> p_chan (circs s4 c) = Some ch"
    using key unfolding K4 [symmetric] by (auto simp: key_of_def n_key_def p_key_def split: if_splits)
  have upd: "update_circuit_on_cmux c dir s4 = Some s5"
    using dirk x4 m(1) m'(1-3) n4 f4(10) f2(9) unfolding s5_def
    by (cases dir) (simp_all add: update_circuit_on_cmux_def on_cmux_def queue_n_def)
  have s5: "chans s5 = (chans s)(ch \<mapsto> x\<lparr>cmux := Some m'\<rparr>)" "circs s5 = circs s4" "cell_lists s5 = cell_lists s2" "outbufs s5 = outbufs s"
      "tls_conn s5 = tls_conn s" "closeable_conns s5 = closeable_conns s"
    using x4 f4 f2 by (simp_all add: s5_def set_cmux_def set_chan_def)
  have grow: "cells_queued s5 = Suc (cells_queued s)"
    by (rule cells_queued_grow [OF wk(2), of ?f]) (use key K4 s5 c2(2) in auto)
  have body: "length (packed_body ?pc) = CELL_MAX_NETWORK_SIZE \<and> packed_cell_is_destroy (wide_circ_ids x) (packed_body ?pc) = None"
    using length_cell_pack [OF cell(1)] packed_fields(3) [OF cell(1)] cell(2) by simp
  have ok5: "relay_ok ops s5"
  proof (rule flow_upd_ok [OF ok x s5(1), where m = m' and c = c and dir = dir and i = i])
    show "length (packed_body cl) = CELL_MAX_NETWORK_SIZE \<and> packed_cell_is_destroy (wide_circ_ids x) (packed_body cl) = None"
      if "cl \<in> set (cell_lists s5 ?f)" "cl \<notin> set (cell_lists s ?f)" for cl
      using that body unfolding s5(3) c2(2) by auto
    show "queue_n dir (circs s5 c) = int (length (cell_lists s5 (c, dir)))" using n4 unfolding s5(2,3) c2(2) by simp
    show "cells_queued s5 < 2 ^ 31" using grow few by simp
    show "mux_exact ops {} ch (circs s5) m'" using m'(4) s5(2) by simp
    show "same_names (circs s) (circs s5)" using nm s5(2) by simp
    show "queue_n (snd f') (circs s5 (fst f')) = queue_n (snd f') (circs s (fst f'))" if "f' \<noteq> ?f" for f' using oth [OF that] s5(2) by simp
    show "cell_lists s5 f' = cell_lists s f'" if "f' \<noteq> ?f" for f' using that unfolding s5(3) c2(2) by simp
  qed (use key mk s5(2) f4 f2 in \<open>simp_all add: num_circuits_def\<close>, simp_all add: s5_def set_cmux_def set_chan_def f4 f2)
  obtain t where t: "scheduler_channel_has_waiting_cells ch s5 = Some t" "relay_ok ops t" "fst (bits_of t ch)" "circs t = circs s5"
      "cell_lists t = cell_lists s5" "grown s5 t"
    using waiting_cells_ok [OF ok5, of ch] s5(1) by auto
  have "chan_destroys s5 = chan_destroys s" "link_state s5 = link_state s"
    by (rule ext, use x m(1) m'(5) in \<open>simp add: chan_destroys_def link_state_def s5(1)\<close>)+
  then have "grown s s5" using K4 s5 c2(2) by (auto simp: grown_def)
  then have "grown s t" using t(6) grown_trans by blast
  moreover have "append_cell_to_circuit_queue X c ch cell dir fromstream s = Some (1, t)"
  proof -
    have or: "\<not> (dir = CELL_DIRECTION_IN \<and> is_origin (circs s c))" using key by (auto simp: key_of_def p_key_def)
    have lim: "\<not> queue_limit dir s \<le> queue_n dir (circs s c)" using room qn by simp
    show ?thesis
      unfolding append_unfold [OF unm or lim x s1_def [symmetric] chk [folded s2_def]] using s4(1,2) upd t(1) b2(1,2) f2(11) by simp
  qed
  ultimately show ?thesis using t s5 s4(4) b2(1) c2(2) K4 by auto
qed

lemma refused:
  fixes s :: "('g, 'pd, 'cd, 'z) relay_t_scheme"
  assumes "\<not> (dir = CELL_DIRECTION_IN \<and> is_origin (circs s c))" and "marked_for_close (circs s c) \<or> queue_limit dir s \<le> queue_n dir (circs s c)"
  shows "\<exists>a b d. append_cell_to_circuit_queue X c ch cell dir fromstream s = Some (if marked_for_close (circs s c) then 0 else -1,
    s\<lparr>stats_n_circ_max_cell_outq_reached := a, dos_circ_max_outq_noted := b, stats_n_circ_max_cell_reached := d\<rparr>)"
proof (cases "marked_for_close (circs s c)")
  case True
  have "append_cell_to_circuit_queue X c ch cell dir fromstream s = Some (0, s\<lparr>
      stats_n_circ_max_cell_outq_reached := stats_n_circ_max_cell_outq_reached s, dos_circ_max_outq_noted := dos_circ_max_outq_noted s,
      stats_n_circ_max_cell_reached := stats_n_circ_max_cell_reached s\<rparr>)"
    using True by (simp add: append_cell_to_circuit_queue_def Let_def)
  then show ?thesis unfolding if_P [OF True] by blast
next
  case unm: False
  let ?out = "dir = CELL_DIRECTION_OUT \<and> \<not> is_origin (circs s c)"
  have "append_cell_to_circuit_queue X c ch cell dir fromstream s = Some (-1, s\<lparr>
      stats_n_circ_max_cell_outq_reached := (if ?out then stats_n_circ_max_cell_outq_reached s + 1 else stats_n_circ_max_cell_outq_reached s),
      dos_circ_max_outq_noted := (if ?out then dos_circ_max_outq_noted s @ [p_chan (circs s c)] else dos_circ_max_outq_noted s),
      stats_n_circ_max_cell_reached := stats_n_circ_max_cell_reached s + 1\<rparr>)"
    using unm assms by (cases dir) (simp_all add: append_cell_to_circuit_queue_def Let_def queue_limit_def)
  then show ?thesis unfolding if_not_P [OF unm] by blast
qed


section \<open>An example\<close>

definition queue_globals :: cc_globals where
  "queue_globals = \<lparr>cwnd_max = 1000, cell_queue_high = 2, cell_queue_low = 1, or_conn_highwater = 32768, or_conn_lowwater = 16384,
     cc_sendme_inc = 31, cc_alg_consensus = CC_ALG_VEGAS, n_ewma_cwnd_pct = 50, n_ewma_max = 10, n_ewma_ss = 2, bwe_sendme_min = 5,
     rtt_reset_pct = 100, is_monotime_clock_broken = False, num_rtt_reset = 0, num_clock_stalls = 0, cc_stats_circs_created = 0,
     cc_vegas_cwnd_full_gap = 4, cc_vegas_cwnd_full_minpct = 25, cc_cwnd_full_per_cwnd = 1, cc_stats_vegas_above_delta = 0,
     cc_stats_vegas_above_ss_cwnd_max = 0, cc_stats_vegas_below_ss_inc_floor = 0, cc_stats_vegas_circ_exited_ss = 0, cc_samples = [],
     AlwaysCongestionControl = False, log_info_enabled = False\<rparr>"

text \<open>One open channel, with one circuit whose client is on it.\<close>

definition one_circuit :: "circuit_name \<Rightarrow> mux_circuit_t" where
  "one_circuit c = (if c = 1 then circ_demo False 0 0 None 0 (Some 7) 5 else circ_demo False 0 0 None 0 None 0)"

definition one_link :: "int ewma_mux_t \<Rightarrow> (int ewma_t, int ewma_policy_data_t, int ewma_policy_circ_data_t) relay_t" where
  "one_link m = \<lparr>chans = [7 \<mapsto> zero_channel\<lparr>chan_state := CHANNEL_STATE_OPEN, sched_heap_idx := -1, wide_circ_ids := True, cmux := Some m, num_p_circuits := 1\<rparr>],
     channels_pending = [], the_scheduler = SCHEDULER_KIST, run_sched_ev = None,
     socket_table = Map.empty, sched_clock = 0, scheduler_last_run = 0, sched_run_interval = 10,
     all_channels = [], active_channels = [], finished_channels = [], channel_gid_map = {}, channel_identity_map = [],
     n_channels_allocated = 9, cleanup_scheduled = False, tls_conn = {7}, closeable_conns = [],
     circs = one_circuit, policy_globals = ewma_demo, global_destroy_ctr = 0, time_now = 3,
     chan_circid_map = [(7, 5) \<mapsto> \<lparr>circuit = Some 1, made_placeholder_at = 0\<rparr>], last_circid_chan_ent = None, n_delete_pending = {}, p_delete_pending = {},
     cell_lists = (\<lambda>_. []), streams = (\<lambda>_. []), edges = (\<lambda>_. \<lparr>stream_id = 1, stream_marked_for_close = False, edge = example_stream\<rparr>),
     conflux = (\<lambda>_. None), conflux_sets = (\<lambda>_. \<lparr>params_alg = CONFLUX_ALG_MINRTT, legs = [], ooo_q = [], last_seq_delivered = 0,
       cells_until_switch = 0, curr_leg = None, prev_leg = None, set_nonce = [], in_full_teardown = False\<rparr>),
     conflux_params = conflux_params_init (-1), cc_global = queue_globals,
     max_circuit_cell_queue_size = 2500, max_circuit_cell_queue_size_out = 2500, stats_n_circ_max_cell_reached = 0,
     stats_n_circ_max_cell_outq_reached = 0, dos_circ_max_outq_noted = [], total_cells_allocated = 0, last_time_under_memory_pressure = 0,
     oom_stats_n_bytes_removed_dns = 0, oom_stats_n_bytes_removed_cell = 0, oom_stats_n_bytes_removed_geoip = 0,
     oom_stats_n_bytes_removed_hsdir = 0, overload_general_noted = False, outbufs = (\<lambda>_. []), held_open = {}, coarse_stamp = 42\<rparr>"

definition small_world :: "(int ewma_t, int ewma_policy_data_t, int ewma_policy_circ_data_t) relay_t outside_t" where
  "small_world = \<lparr>MaxMemInQueues = 1000000, MaxMemInQueues_low_threshold = 750000, other_allocation = (\<lambda>_. 0),
     hs_cache_total_allocation = (\<lambda>_. 0), geoip_cache_total_allocation = (\<lambda>_. 0), dns_cache_total_allocation = (\<lambda>_. 0),
     conflux_total_allocation = (\<lambda>_. 0), hs_cache_handle_oom = (\<lambda>_ s. Some (0, s)), geoip_cache_handle_oom = (\<lambda>_ s. Some (0, s)),
     dns_cache_handle_oom = (\<lambda>_ s. Some (0, s)), conflux_handle_oom = (\<lambda>_ s. Some (0, s)), circuits_handle_oom = (\<lambda>_ s. Some (0, s)),
     circuit_mark_for_close = (\<lambda>c s. Some (set_circ c (\<lambda>x. x\<lparr>marked_for_close := True\<rparr>) s)),
     should_read_from_linked = (\<lambda>_ _. False), connection_process_inbuf = (\<lambda>_ s. Some s)\<rparr>"

lemma small_world_ok: "input_ok int_ops small_world"
  by (simp add: input_ok_def small_world_def)

lemma one_circuit_key: "key_of one_circuit f = (if f = (1, CELL_DIRECTION_IN) then Some (7, 5) else None)"
proof (cases f)
  case (Pair c d)
  then show ?thesis by (cases d) (auto simp: key_of_def n_key_def p_key_def one_circuit_def circ_demo_def)
qed

lemma one_link_ok: "\<exists>m. relay_ok int_ops (one_link m) \<and> destroy_cell_queue m = []"
proof -
  note k = one_circuit_key
  have d: "dom (key_of one_circuit) = {(1, CELL_DIRECTION_IN)}" using k by (auto simp: dom_def)
  have wk: "well_keyed one_circuit"
    unfolding well_keyed_def d using k by (auto simp: one_circuit_def circ_demo_def split: if_splits)
  have q: "queue_n dir (one_circuit b) = 0" for dir b by (simp add: one_circuit_def circ_demo_def queue_n_def)
  have new: "mux_demo = circuitmux_alloc\<lparr>policy := Some (ewma_policy int_ops), policy_data := ewma_alloc_cmux_data ewma_demo\<rparr>"
    using demo_runs(2) by (auto simp: ewma_mux_new_def circuitmux_set_policy_def circuitmux_alloc_def ewma_policy_def split: if_splits bind_splits)
  have e: "chanid_circid_map mux_demo = Map.empty" "destroy_cell_queue mux_demo = []" unfolding new by (simp_all add: circuitmux_alloc_def)
  have "mux_exact int_ops (insert (1, CELL_DIRECTION_IN) {}) 7 one_circuit mux_demo"
    using mux_new_ok [OF demo_runs(2), of 7 one_circuit] e k by (auto simp: mux_exact_def split: if_splits)
  from mux_attach [OF this wk _ _ q, of 5 ewma_demo] k e obtain m where
    m: "circuitmux_attach_circuit ewma_demo 1 (one_circuit 1) CELL_DIRECTION_IN mux_demo = Some m" "mux_exact int_ops {} 7 one_circuit m" by auto
  have "p_chan_cells_n (one_circuit b) = 0" for b by (simp add: one_circuit_def circ_demo_def)
  then have "destroy_cell_queue m = []"
    using m(1) e by (auto simp: circuitmux_attach_circuit_def attach_new_circuit_def Let_def split: bind_splits option.splits if_splits)
  moreover have "ids_ok int_ops (one_link m)"
  proof -
    have u: "users one_circuit dir 7 = (if dir = CELL_DIRECTION_IN then {1} else {})" for dir using k by (auto simp: users_def split: if_splits)
    have "chan_exact int_ops one_circuit a x" if "chans (one_link m) a = Some x" for a x
      using that m(2) u cell_direction_t.exhaust
      by (auto simp: one_link_def chan_exact_def num_circuits_def zero_channel_def split: if_splits)
    moreover have "map_exact one_circuit (chan_circid_map (one_link m))" using k by (auto simp: map_exact_def one_link_def split: if_splits)
    moreover have "circs (one_link m) = one_circuit" "last_circid_chan_ent (one_link m) = None" by (simp_all add: one_link_def)
    moreover have "\<forall>f k. key_of one_circuit f = Some k \<longrightarrow> chans (one_link m) (fst k) \<noteq> None" using k by (auto simp: one_link_def split: if_splits)
    ultimately show ?thesis using wk by (simp add: ids_ok_def)
  qed
  moreover have "flags_ok (one_link m)" by (simp add: flags_ok_def delete_pending_def one_link_def)
  moreover have "queues_ok (one_link m)" using q by (simp add: queues_ok_def one_link_def)
  moreover have "sched_settled (one_link m)"
    by (auto simp: sched_settled_def sched_ok_def pending_exact_def have_work_def one_link_def zero_channel_def pending_items_def split: if_splits)
  moreover have "sched_room (one_link m)" by (simp add: sched_room_def one_link_def)
  moreover have "circs (one_link m) = one_circuit" "conflux (one_link m) = (\<lambda>_. None)" "cells_queued (one_link m) = 0"
    by (simp_all add: one_link_def cells_queued_def)
  ultimately show ?thesis using d by (auto simp: relay_ok_def)
qed

definition some_cell :: cell_t where
  "some_cell = \<lparr>cell_circ_id = 5, cell_command = 3, cell_payload = replicate CELL_PAYLOAD_BYTES 1\<rparr>"

lemma one_link_append:
  "chans (one_link m) 7 = Some (zero_channel\<lparr>chan_state := CHANNEL_STATE_OPEN, sched_heap_idx := -1, wide_circ_ids := True, cmux := Some m, num_p_circuits := 1\<rparr>)"
  "key_of (circs (one_link m)) (1, CELL_DIRECTION_IN) = Some (7, 5)" "cell_ok True some_cell" "cell_command some_cell \<noteq> CELL_DESTROY"
  "cells_queued (one_link m) + 1 < 2 ^ 31" "\<not> memory_short small_world (cell_queue_append_packed_copy (1, CELL_DIRECTION_IN) some_cell True (one_link m))"
  "\<not> marked_for_close (circs (one_link m) 1)" "int (length (cell_lists (one_link m) (1, CELL_DIRECTION_IN))) < queue_limit CELL_DIRECTION_IN (one_link m)"
proof -
  show "chans (one_link m) 7 = Some (zero_channel\<lparr>chan_state := CHANNEL_STATE_OPEN, sched_heap_idx := -1, wide_circ_ids := True, cmux := Some m, num_p_circuits := 1\<rparr>)"
    by (simp add: one_link_def)
  have c: "circs (one_link m) = one_circuit" by (simp add: one_link_def)
  show "key_of (circs (one_link m)) (1, CELL_DIRECTION_IN) = Some (7, 5)" unfolding c one_circuit_key by simp
  show "\<not> marked_for_close (circs (one_link m) 1)" unfolding c by (simp add: one_circuit_def circ_demo_def)
  show "cell_ok True some_cell" "cell_command some_cell \<noteq> CELL_DESTROY" by (simp_all add: some_cell_def cell_ok_def circid_fits_def)
  show "cells_queued (one_link m) + 1 < 2 ^ 31" by (simp add: cells_queued_def one_link_def)
  show "\<not> memory_short small_world (cell_queue_append_packed_copy (1, CELL_DIRECTION_IN) some_cell True (one_link m))"
    by (simp add: memory_short_def small_world_def cell_queue_append_packed_copy_def packed_cell_copy_def cell_queue_append_def
        set_queue_def set_circ_def cell_queues_get_total_allocation_def one_link_def)
  show "int (length (cell_lists (one_link m) (1, CELL_DIRECTION_IN))) < queue_limit CELL_DIRECTION_IN (one_link m)"
    by (simp add: queue_limit_def one_link_def)
qed



end
