(* ===== verification/Buffers.thy ===== *)
theory Buffers
  imports Trunnel
begin

text \<open>
  The byte queues of connections (\<open>src/lib/buf/buffers.c\<close>, \<open>buffers.h\<close>, and the reading and writing of file descriptors in
  \<open>src/lib/net/buffers_net.c\<close>): linked lists of memory chunks that bytes are added to at the tail and taken from at the head.

  A buffer has the list of its chunks; its \<open>tail\<close> is the last one. A chunk has the bytes stored in it and the offset of \<open>data\<close> in
  \<open>mem\<close>; the memory around them is not modelled, and to read there is \<open>None\<close>, like an abort. \<open>size_t\<close> is a natural
  number, and a subtraction that wraps is written out. \<open>total_bytes_allocated_in_chunks\<close> and the time stamp for new chunks are threaded
  through. What the operating system answers to a read or a write is an argument.
\<close>

section \<open>Chunks\<close>

record chunk_t =
  chunk_data :: bytes
  data_offset :: nat
  memlen :: nat
  DBG_alloc :: nat
  inserted_time :: u32

record buf_t =
  chunks :: "chunk_t list"
  datalen :: nat
  default_chunk_size :: nat

text \<open>The file-level counter, and the clock.\<close>

record alloc_t =
  total_bytes_allocated_in_chunks :: nat
  chunk_stamp :: u32

abbreviation INT_BUF_MAX_LEN :: nat where "INT_BUF_MAX_LEN \<equiv> 2147483646"
abbreviation CHUNK_OVERHEAD :: nat where "CHUNK_OVERHEAD \<equiv> 48"
abbreviation MIN_CHUNK_ALLOC :: nat where "MIN_CHUNK_ALLOC \<equiv> 256"
abbreviation MAX_CHUNK_ALLOC :: nat where "MAX_CHUNK_ALLOC \<equiv> 65536"
abbreviation MIN_READ_LEN :: nat where "MIN_READ_LEN \<equiv> 8"
abbreviation SIZE_T_CEILING :: nat where "SIZE_T_CEILING \<equiv> 9223372036854775791"
abbreviation PEEK_BUF_STARTSWITH_MAX :: nat where "PEEK_BUF_STARTSWITH_MAX \<equiv> 16"

definition CHUNK_ALLOC_SIZE :: "nat \<Rightarrow> nat" where "CHUNK_ALLOC_SIZE m = CHUNK_OVERHEAD + m"
definition CHUNK_SIZE_WITH_ALLOC :: "nat \<Rightarrow> nat" where "CHUNK_SIZE_WITH_ALLOC m = m - CHUNK_OVERHEAD"

definition CHUNK_REMAINING_CAPACITY :: "chunk_t \<Rightarrow> nat" where
  "CHUNK_REMAINING_CAPACITY chunk = memlen chunk - (data_offset chunk + length (chunk_data chunk))"

definition chunk_repack :: "chunk_t \<Rightarrow> chunk_t" where
  "chunk_repack chunk = chunk\<lparr>data_offset := 0\<rparr>"

definition buf_chunk_free_unchecked :: "chunk_t \<Rightarrow> alloc_t \<Rightarrow> alloc_t option" where
  "buf_chunk_free_unchecked chunk a =
     (if CHUNK_ALLOC_SIZE (memlen chunk) \<noteq> DBG_alloc chunk then None
      else if total_bytes_allocated_in_chunks a \<ge> CHUNK_ALLOC_SIZE (memlen chunk)
      then Some (a\<lparr>total_bytes_allocated_in_chunks := total_bytes_allocated_in_chunks a - CHUNK_ALLOC_SIZE (memlen chunk)\<rparr>)
      else None)"

definition chunk_new_with_alloc_size :: "nat \<Rightarrow> alloc_t \<Rightarrow> chunk_t \<times> alloc_t" where
  "chunk_new_with_alloc_size alloc a =
     (\<lparr>chunk_data = [], data_offset = 0, memlen = CHUNK_SIZE_WITH_ALLOC alloc, DBG_alloc = alloc, inserted_time = 0\<rparr>,
      a\<lparr>total_bytes_allocated_in_chunks := total_bytes_allocated_in_chunks a + alloc\<rparr>)"

definition chunk_grow :: "chunk_t \<Rightarrow> nat \<Rightarrow> alloc_t \<Rightarrow> (chunk_t \<times> alloc_t) option" where
  "chunk_grow chunk sz a =
     (let orig_alloc = CHUNK_ALLOC_SIZE (memlen chunk); new_alloc = CHUNK_ALLOC_SIZE sz in
      if \<not> sz > memlen chunk then None
      else if DBG_alloc chunk \<noteq> orig_alloc then None
      else Some (chunk\<lparr>memlen := sz, DBG_alloc := new_alloc\<rparr>,
             a\<lparr>total_bytes_allocated_in_chunks := total_bytes_allocated_in_chunks a + (new_alloc - orig_alloc)\<rparr>))"

partial_function (option) preferred_size_loop :: "nat \<Rightarrow> nat \<Rightarrow> nat option" where
  "preferred_size_loop target sz = (if CHUNK_SIZE_WITH_ALLOC sz < target then preferred_size_loop target (sz * 2) else Some sz)"

definition buf_preferred_chunk_size :: "nat \<Rightarrow> nat option" where
  "buf_preferred_chunk_size target =
     (if \<not> target \<le> SIZE_T_CEILING - CHUNK_OVERHEAD then None
      else if CHUNK_ALLOC_SIZE target \<ge> MAX_CHUNK_ALLOC then Some (CHUNK_ALLOC_SIZE target)
      else preferred_size_loop target MIN_CHUNK_ALLOC)"

section \<open>Buffers\<close>

definition buf_new :: buf_t where
  "buf_new = \<lparr>chunks = [], datalen = 0, default_chunk_size = 4096\<rparr>"

definition buf_new_with_capacity :: "nat \<Rightarrow> buf_t option" where
  "buf_new_with_capacity capacity = map_option (\<lambda>n. buf_new\<lparr>default_chunk_size := n\<rparr>) (buf_preferred_chunk_size capacity)"

definition buf_allocation :: "buf_t \<Rightarrow> nat" where
  "buf_allocation buf = sum_list (map (CHUNK_ALLOC_SIZE \<circ> memlen) (chunks buf))"

definition buf_slack :: "buf_t \<Rightarrow> nat" where
  "buf_slack buf = (if chunks buf = [] then 0 else CHUNK_REMAINING_CAPACITY (last (chunks buf)))"

definition buf_add_chunk_with_capacity :: "buf_t \<Rightarrow> nat \<Rightarrow> bool \<Rightarrow> alloc_t \<Rightarrow> (buf_t \<times> alloc_t) option" where
  "buf_add_chunk_with_capacity buf capacity capped a = do {
     (chunk, a1) \<leftarrow> (if CHUNK_ALLOC_SIZE capacity < default_chunk_size buf then Some (chunk_new_with_alloc_size (default_chunk_size buf) a)
       else if capped \<and> CHUNK_ALLOC_SIZE capacity > MAX_CHUNK_ALLOC then Some (chunk_new_with_alloc_size MAX_CHUNK_ALLOC a)
       else map_option (\<lambda>n. chunk_new_with_alloc_size n a) (buf_preferred_chunk_size capacity));
     Some (buf\<lparr>chunks := chunks buf @ [chunk\<lparr>inserted_time := chunk_stamp a1\<rparr>]\<rparr>, a1)
   }"

definition buf_get_oldest_chunk_timestamp :: "buf_t \<Rightarrow> u32 \<Rightarrow> u32" where
  "buf_get_oldest_chunk_timestamp buf now_stamp = (case chunks buf of c # _ \<Rightarrow> now_stamp - inserted_time c | [] \<Rightarrow> 0)"

text \<open>The last chunk gets some bytes.\<close>

definition fill_tail :: "bytes \<Rightarrow> buf_t \<Rightarrow> buf_t" where
  "fill_tail bs buf = buf\<lparr>chunks := butlast (chunks buf) @ [(last (chunks buf))\<lparr>chunk_data := chunk_data (last (chunks buf)) @ bs\<rparr>],
     datalen := datalen buf + length bs\<rparr>"

partial_function (option) buf_add_loop :: "bytes \<Rightarrow> buf_t \<Rightarrow> alloc_t \<Rightarrow> (buf_t \<times> alloc_t) option" where
  "buf_add_loop string buf a =
     (if string = [] then Some (buf, a)
      else do {
        (buf1, a1) \<leftarrow> (if chunks buf = [] \<or> CHUNK_REMAINING_CAPACITY (last (chunks buf)) = 0
          then buf_add_chunk_with_capacity buf (length string) True a else Some (buf, a));
        let copy = min (CHUNK_REMAINING_CAPACITY (last (chunks buf1))) (length string);
        buf_add_loop (drop copy string) (fill_tail (take copy string) buf1) a1
      })"

text \<open>\<open>BUF_MAX_LEN - string_len\<close> wraps when the string is longer than that.\<close>

definition buf_add :: "buf_t \<Rightarrow> bytes \<Rightarrow> alloc_t \<Rightarrow> (int \<times> buf_t \<times> alloc_t) option" where
  "buf_add buf string a =
     (if string = [] then Some (int (datalen buf), buf, a)
      else if datalen buf > INT_BUF_MAX_LEN then Some (-1, buf, a)
      else if length string \<le> INT_BUF_MAX_LEN \<and> datalen buf > INT_BUF_MAX_LEN - length string then Some (-1, buf, a)
      else do {
        (buf1, a1) \<leftarrow> buf_add_loop string buf a;
        if \<not> datalen buf1 \<le> INT_BUF_MAX_LEN then None else Some (int (datalen buf1), buf1, a1)
      })"

text \<open>The chunks left, the length left, and the counter.\<close>

fun drain_loop :: "nat \<Rightarrow> chunk_t list \<Rightarrow> nat \<Rightarrow> alloc_t \<Rightarrow> (chunk_t list \<times> nat \<times> alloc_t) option" where
  "drain_loop n [] len a = (if n = 0 then Some ([], len, a) else None)"
| "drain_loop n (c # cs) len a =
     (if n = 0 then Some (c # cs, len, a)
      else if length (chunk_data c) > n
      then Some (c\<lparr>chunk_data := drop n (chunk_data c), data_offset := data_offset c + n\<rparr> # cs, len - n, a)
      else Option.bind (buf_chunk_free_unchecked c a) (drain_loop (n - length (chunk_data c)) cs (len - length (chunk_data c))))"

definition buf_drain :: "buf_t \<Rightarrow> nat \<Rightarrow> alloc_t \<Rightarrow> (buf_t \<times> alloc_t) option" where
  "buf_drain buf n a = do {
     if \<not> datalen buf \<ge> n then None
     else do {
       (cs, len, a1) \<leftarrow> drain_loop n (chunks buf) (datalen buf) a;
       Some (buf\<lparr>chunks := cs, datalen := len\<rparr>, a1)
     }
   }"

fun peek_loop :: "nat \<Rightarrow> chunk_t list \<Rightarrow> bytes option" where
  "peek_loop n [] = (if n = 0 then Some [] else None)"
| "peek_loop n (c # cs) =
     (if n = 0 then Some []
      else let copy = min n (length (chunk_data c)) in map_option ((@) (take copy (chunk_data c))) (peek_loop (n - copy) cs))"

definition buf_peek :: "buf_t \<Rightarrow> nat \<Rightarrow> bytes option" where
  "buf_peek buf n = (if \<not> n \<le> datalen buf then None else peek_loop n (chunks buf))"

definition buf_extract :: "buf_t \<Rightarrow> bytes option" where
  "buf_extract buf = buf_peek buf (datalen buf)"

definition buf_get_bytes :: "buf_t \<Rightarrow> nat \<Rightarrow> alloc_t \<Rightarrow> (int \<times> bytes \<times> buf_t \<times> alloc_t) option" where
  "buf_get_bytes buf n a = do {
     bs \<leftarrow> buf_peek buf n;
     (buf1, a1) \<leftarrow> buf_drain buf n a;
     if \<not> datalen buf1 \<le> INT_BUF_MAX_LEN then None else Some (int (datalen buf1), bs, buf1, a1)
   }"

fun free_chunks :: "chunk_t list \<Rightarrow> alloc_t \<Rightarrow> alloc_t option" where
  "free_chunks [] a = Some a"
| "free_chunks (c # cs) a = Option.bind (buf_chunk_free_unchecked c a) (free_chunks cs)"

definition buf_clear :: "buf_t \<Rightarrow> alloc_t \<Rightarrow> (buf_t \<times> alloc_t) option" where
  "buf_clear buf a = map_option (Pair (buf\<lparr>chunks := [], datalen := 0\<rparr>)) (free_chunks (chunks buf) a)"

text \<open>The first chunk takes bytes from those after it until it has \<open>n\<close>.\<close>

partial_function (option) pullup_loop :: "nat \<Rightarrow> chunk_t \<Rightarrow> chunk_t list \<Rightarrow> alloc_t \<Rightarrow> (chunk_t list \<times> alloc_t) option" where
  "pullup_loop bytes dest cs a =
     (if length (chunk_data dest) < bytes
      then let n = bytes - length (chunk_data dest) in
        (case cs of
           [] \<Rightarrow> None
         | src # rest \<Rightarrow>
             if n \<ge> length (chunk_data src)
             then Option.bind (buf_chunk_free_unchecked src a) (pullup_loop bytes (dest\<lparr>chunk_data := chunk_data dest @ chunk_data src\<rparr>) rest)
             else pullup_loop bytes (dest\<lparr>chunk_data := chunk_data dest @ take n (chunk_data src)\<rparr>)
                    (src\<lparr>chunk_data := drop n (chunk_data src), data_offset := data_offset src + n\<rparr> # rest) a)
      else Some (dest # cs, a))"

text \<open>\<open>None\<close> inside is the \<open>NULL\<close> of an empty buffer.\<close>

definition buf_pullup :: "buf_t \<Rightarrow> nat \<Rightarrow> alloc_t \<Rightarrow> (bytes option \<times> buf_t \<times> alloc_t) option" where
  "buf_pullup buf bytes0 a =
     (case chunks buf of
        [] \<Rightarrow> Some (None, buf, a)
      | head # rest \<Rightarrow>
          let bytes = min bytes0 (datalen buf); capacity = bytes in
          if length (chunk_data head) \<ge> bytes then Some (Some (chunk_data head), buf, a)
          else do {
            (head1, a1) \<leftarrow> (if memlen head \<ge> capacity
              then let needed = capacity - length (chunk_data head);
                       h = (if CHUNK_REMAINING_CAPACITY head < needed then chunk_repack head else head)
                   in if \<not> CHUNK_REMAINING_CAPACITY h \<ge> needed then None else Some (h, a)
              else do {
                alloc \<leftarrow> buf_preferred_chunk_size capacity;
                (h, a1) \<leftarrow> chunk_grow (chunk_repack head) (CHUNK_SIZE_WITH_ALLOC alloc) a;
                if \<not> memlen h \<ge> capacity then None else Some (h, a1)
              });
            (cs, a2) \<leftarrow> pullup_loop bytes head1 rest a1;
            Some (Some (chunk_data (hd cs)), buf\<lparr>chunks := cs\<rparr>, a2)
          })"

section \<open>Copying and moving\<close>

definition chunk_copy :: "chunk_t \<Rightarrow> alloc_t \<Rightarrow> chunk_t \<times> alloc_t" where
  "chunk_copy in_chunk a =
     (in_chunk\<lparr>DBG_alloc := CHUNK_ALLOC_SIZE (memlen in_chunk)\<rparr>,
      a\<lparr>total_bytes_allocated_in_chunks := total_bytes_allocated_in_chunks a + CHUNK_ALLOC_SIZE (memlen in_chunk)\<rparr>)"

fun copy_chunks :: "chunk_t list \<Rightarrow> alloc_t \<Rightarrow> chunk_t list \<times> alloc_t" where
  "copy_chunks [] a = ([], a)"
| "copy_chunks (c # cs) a = (let (c1, a1) = chunk_copy c a; (cs1, a2) = copy_chunks cs a1 in (c1 # cs1, a2))"

definition buf_copy :: "buf_t \<Rightarrow> alloc_t \<Rightarrow> buf_t \<times> alloc_t" where
  "buf_copy buf a =
     (let (cs, a1) = copy_chunks (chunks buf) a
      in (buf_new\<lparr>default_chunk_size := default_chunk_size buf, chunks := cs, datalen := datalen buf\<rparr>, a1))"

definition buf_set_to_copy :: "buf_t option \<Rightarrow> buf_t \<Rightarrow> alloc_t \<Rightarrow> (buf_t \<times> alloc_t) option" where
  "buf_set_to_copy output inp a = do {
     a1 \<leftarrow> (case output of None \<Rightarrow> Some a | Some b \<Rightarrow> map_option snd (buf_clear b a));
     Some (buf_copy inp a1)
   }"

partial_function (option) move_loop :: "nat \<Rightarrow> buf_t \<Rightarrow> buf_t \<Rightarrow> alloc_t \<Rightarrow> (buf_t \<times> buf_t \<times> alloc_t) option" where
  "move_loop len buf_out buf_in a =
     (if len = 0 then Some (buf_out, buf_in, a)
      else do {
        let n = min len 4096;
        (_, bs, buf_in1, a1) \<leftarrow> buf_get_bytes buf_in n a;
        (_, buf_out1, a2) \<leftarrow> buf_add buf_out bs a1;
        move_loop (len - n) buf_out1 buf_in1 a2
      })"

text \<open>The result, the new \<open>buf_flushlen\<close>, and the two buffers.\<close>

definition buf_move_to_buf :: "buf_t \<Rightarrow> buf_t \<Rightarrow> nat \<Rightarrow> alloc_t \<Rightarrow> (int \<times> nat \<times> buf_t \<times> buf_t \<times> alloc_t) option" where
  "buf_move_to_buf buf_out buf_in buf_flushlen a =
     (if datalen buf_out > INT_BUF_MAX_LEN \<or> buf_flushlen > INT_BUF_MAX_LEN then Some (-1, buf_flushlen, buf_out, buf_in, a)
      else if datalen buf_out > INT_BUF_MAX_LEN - buf_flushlen then Some (-1, buf_flushlen, buf_out, buf_in, a)
      else do {
        let cp = min buf_flushlen (datalen buf_in);
        (buf_out1, buf_in1, a1) \<leftarrow> move_loop cp buf_out buf_in a;
        Some (int cp, buf_flushlen - cp, buf_out1, buf_in1, a1)
      })"

definition buf_move_all :: "buf_t \<Rightarrow> buf_t \<Rightarrow> nat \<times> buf_t \<times> buf_t" where
  "buf_move_all buf_out buf_in =
     (if datalen buf_in = 0 then (0, buf_out, buf_in)
      else if datalen buf_out > INT_BUF_MAX_LEN \<or> datalen buf_in > INT_BUF_MAX_LEN then (0, buf_out, buf_in)
      else if datalen buf_out > INT_BUF_MAX_LEN - datalen buf_in then (0, buf_out, buf_in)
      else (datalen buf_in, buf_out\<lparr>chunks := chunks buf_out @ chunks buf_in, datalen := datalen buf_out + datalen buf_in\<rparr>,
            buf_in\<lparr>chunks := [], datalen := 0\<rparr>))"

section \<open>Searching\<close>

text \<open>\<open>memchr\<close>: the offset of the first occurrence.\<close>

fun memchr :: "bytes \<Rightarrow> u8 \<Rightarrow> nat option" where
  "memchr [] ch = None"
| "memchr (x # xs) ch = (if x = ch then Some 0 else map_option Suc (memchr xs ch))"

text \<open>A pointer to a chunk is the rest of the list from there on.\<close>

record buf_pos_t =
  pos_chunk :: "chunk_t list"
  pos_pos :: nat
  chunk_pos :: nat

definition buf_pos_init :: "buf_t \<Rightarrow> buf_pos_t" where
  "buf_pos_init buf = \<lparr>pos_chunk = chunks buf, pos_pos = 0, chunk_pos = 0\<rparr>"

fun find_char_loop :: "u8 \<Rightarrow> chunk_t list \<Rightarrow> nat \<Rightarrow> buf_pos_t \<Rightarrow> int \<times> buf_pos_t" where
  "find_char_loop ch [] pos out = (-1, out)"
| "find_char_loop ch (c # cs) pos out =
     (case memchr (drop pos (chunk_data c)) ch of
        Some i \<Rightarrow> (int (chunk_pos out + (pos + i)), out\<lparr>pos_chunk := c # cs, pos_pos := pos + i\<rparr>)
      | None \<Rightarrow> find_char_loop ch cs 0 (out\<lparr>chunk_pos := chunk_pos out + length (chunk_data c)\<rparr>))"

definition buf_find_pos_of_char :: "u8 \<Rightarrow> buf_pos_t \<Rightarrow> (int \<times> buf_pos_t) option" where
  "buf_find_pos_of_char ch out =
     (case pos_chunk out of
        c # _ \<Rightarrow> if chunk_data c \<noteq> [] then if pos_pos out < length (chunk_data c) then Some (find_char_loop ch (pos_chunk out) (pos_pos out) out) else None
                 else if pos_pos out = 0 then Some (find_char_loop ch (pos_chunk out) (pos_pos out) out) else None
      | [] \<Rightarrow> Some (find_char_loop ch (pos_chunk out) (pos_pos out) out))"

definition buf_pos_inc :: "buf_pos_t \<Rightarrow> (int \<times> buf_pos_t) option" where
  "buf_pos_inc p =
     (if \<not> pos_pos p < INT_BUF_MAX_LEN then None
      else let p1 = p\<lparr>pos_pos := pos_pos p + 1\<rparr> in
        case pos_chunk p1 of
          [] \<Rightarrow> None
        | c # cs \<Rightarrow>
            if pos_pos p1 = length (chunk_data c)
            then if cs = [] then Some (-1, p1)
                 else Some (0, p1\<lparr>chunk_pos := chunk_pos p1 + length (chunk_data c), pos_chunk := cs, pos_pos := 0\<rparr>)
            else Some (0, p1))"

text \<open>The byte at a position; beyond the stored bytes it is not defined.\<close>

definition byte_at :: "buf_pos_t \<Rightarrow> u8 option" where
  "byte_at p = (case pos_chunk p of [] \<Rightarrow> None | c # _ \<Rightarrow> if pos_pos p < length (chunk_data c) then Some (chunk_data c ! pos_pos p) else None)"

fun buf_matches_at_pos :: "buf_pos_t \<Rightarrow> bytes \<Rightarrow> bool option" where
  "buf_matches_at_pos p [] = Some True"
| "buf_matches_at_pos p (ch # s) = do {
     b \<leftarrow> byte_at p;
     if b \<noteq> ch then Some False
     else if s = [] then Some True
     else do {
       (r, p1) \<leftarrow> buf_pos_inc p;
       if r < 0 then Some False else buf_matches_at_pos p1 s
     }
   }"

text \<open>\<open>*s\<close> of an empty string is its terminating NUL.\<close>

partial_function (option) find_string_loop :: "bytes \<Rightarrow> buf_pos_t \<Rightarrow> int option" where
  "find_string_loop s p = do {
     (at, p1) \<leftarrow> buf_find_pos_of_char (case s of ch # _ \<Rightarrow> ch | [] \<Rightarrow> 0) p;
     if at < 0 then Some (-1)
     else do {
       m \<leftarrow> buf_matches_at_pos p1 s;
       if m then if \<not> chunk_pos p1 + pos_pos p1 \<le> INT_BUF_MAX_LEN then None else Some (int (chunk_pos p1 + pos_pos p1))
       else do {
         (r, p2) \<leftarrow> buf_pos_inc p1;
         if r < 0 then Some (-1) else find_string_loop s p2
       }
     }
   }"

definition buf_find_string_offset :: "buf_t \<Rightarrow> bytes \<Rightarrow> int option" where
  "buf_find_string_offset buf s = find_string_loop s (buf_pos_init buf)"

definition buf_peek_startswith :: "buf_t \<Rightarrow> bytes \<Rightarrow> bool option" where
  "buf_peek_startswith buf cmd =
     (if cmd = [] then Some True
      else if length cmd > PEEK_BUF_STARTSWITH_MAX then Some False
      else if datalen buf < length cmd then Some False
      else map_option (\<lambda>tmp. tmp = cmd) (buf_peek buf (length cmd)))"

fun find_offset_loop :: "u8 \<Rightarrow> nat \<Rightarrow> chunk_t list \<Rightarrow> int" where
  "find_offset_loop ch offset [] = -1"
| "find_offset_loop ch offset (c # cs) =
     (case memchr (chunk_data c) ch of Some i \<Rightarrow> int (offset + i) | None \<Rightarrow> find_offset_loop ch (offset + length (chunk_data c)) cs)"

definition buf_find_offset_of_char :: "buf_t \<Rightarrow> u8 \<Rightarrow> int option" where
  "buf_find_offset_of_char buf ch = (if \<not> datalen buf \<le> INT_BUF_MAX_LEN then None else Some (find_offset_loop ch 0 (chunks buf)))"

text \<open>The result, the line with its LF, and the length stored in \<open>data_len\<close>.\<close>

definition buf_get_line :: "buf_t \<Rightarrow> nat \<Rightarrow> alloc_t \<Rightarrow> (int \<times> bytes \<times> nat \<times> buf_t \<times> alloc_t) option" where
  "buf_get_line buf data_len a =
     (if chunks buf = [] then Some (0, [], data_len, buf, a)
      else do {
        offset \<leftarrow> buf_find_offset_of_char buf 10;
        if offset < 0 then Some (0, [], data_len, buf, a)
        else do {
          let sz = nat offset;
          if sz + 2 > data_len then Some (-1, [], sz + 2, buf, a)
          else do {
            (_, bs, buf1, a1) \<leftarrow> buf_get_bytes buf (sz + 1) a;
            Some (1, bs, sz + 1, buf1, a1)
          }
        }
      })"

section \<open>File descriptors\<close>

datatype read_result = READ_BYTES bytes | READ_EOF | READ_BLOCKED | READ_ERROR int

text \<open>The answers of the operating system to the reads: bytes are ready, of which a read takes as many as it asks for and leaves the rest, or
  the other side has closed, or nothing is ready, or an error. Without further answers a read blocks. Besides the result: end of file, the error, and the
  answers left.\<close>

definition read_to_chunk :: "buf_t \<Rightarrow> nat \<Rightarrow> read_result list \<Rightarrow> (int \<times> bool \<times> int option \<times> buf_t \<times> read_result list) option" where
  "read_to_chunk buf at_most0 io =
     (let at_most = min at_most0 (CHUNK_REMAINING_CAPACITY (last (chunks buf))) in
      case io of
        [] \<Rightarrow> Some (0, False, None, buf, [])
      | READ_BLOCKED # io1 \<Rightarrow> Some (0, False, None, buf, io1)
      | READ_EOF # io1 \<Rightarrow> Some (0, True, None, buf, io1)
      | READ_ERROR e # io1 \<Rightarrow> Some (-1, False, Some e, buf, io1)
      | READ_BYTES bs # io1 \<Rightarrow>
          let got = take at_most bs
          in Some (int (length got), got = [], None, fill_tail got buf, if length bs > at_most then READ_BYTES (drop at_most bs) # io1 else io1))"

partial_function (option) read_loop ::
    "nat \<Rightarrow> nat \<Rightarrow> bool \<Rightarrow> buf_t \<Rightarrow> alloc_t \<Rightarrow> read_result list \<Rightarrow> (int \<times> bool \<times> int option \<times> buf_t \<times> alloc_t \<times> read_result list) option" where
  "read_loop at_most total_read eof buf a io =
     (if at_most > total_read
      then do {
        let readlen0 = at_most - total_read;
        (readlen, buf1, a1) \<leftarrow> (if chunks buf = [] \<or> CHUNK_REMAINING_CAPACITY (last (chunks buf)) < MIN_READ_LEN
          then map_option (\<lambda>(b, a1). (min readlen0 (memlen (last (chunks b))), b, a1)) (buf_add_chunk_with_capacity buf at_most True a)
          else Some (min readlen0 (CHUNK_REMAINING_CAPACITY (last (chunks buf))), buf, a));
        (r, eof1, err, buf2, io1) \<leftarrow> read_to_chunk buf1 readlen io;
        if r < 0 then Some (r, eof \<or> eof1, err, buf2, a1, io1)
        else if \<not> total_read + nat r \<le> INT_BUF_MAX_LEN then None
        else if nat r < readlen then Some (int (total_read + nat r), eof \<or> eof1, None, buf2, a1, io1)
        else read_loop at_most (total_read + nat r) (eof \<or> eof1) buf2 a1 io1
      }
      else Some (int total_read, eof, None, buf, a, io))"

definition buf_read_from_fd ::
    "buf_t \<Rightarrow> nat \<Rightarrow> alloc_t \<Rightarrow> read_result list \<Rightarrow> (int \<times> bool \<times> int option \<times> buf_t \<times> alloc_t \<times> read_result list) option" where
  "buf_read_from_fd buf at_most a io =
     (if datalen buf > INT_BUF_MAX_LEN then Some (-1, False, None, buf, a, io)
      else if at_most \<le> INT_BUF_MAX_LEN \<and> datalen buf > INT_BUF_MAX_LEN - at_most then Some (-1, False, None, buf, a, io)
      else read_loop at_most 0 False buf a io)"

text \<open>A write takes at most as many bytes as it is given.\<close>

datatype write_result = WRITTEN nat | WRITE_BLOCKED | WRITE_ERROR

definition flush_chunk :: "buf_t \<Rightarrow> nat \<Rightarrow> alloc_t \<Rightarrow> write_result list \<Rightarrow> (int \<times> bytes \<times> buf_t \<times> alloc_t \<times> write_result list) option" where
  "flush_chunk buf sz0 a io =
     (let sz = min sz0 (length (chunk_data (hd (chunks buf)))) in
      case io of
        [] \<Rightarrow> Some (0, [], buf, a, [])
      | WRITE_BLOCKED # io1 \<Rightarrow> Some (0, [], buf, a, io1)
      | WRITE_ERROR # io1 \<Rightarrow> Some (-1, [], buf, a, io1)
      | WRITTEN n # io1 \<Rightarrow>
          let n1 = min n sz
          in map_option (\<lambda>(b, a1). (int n1, take n1 (chunk_data (hd (chunks buf))), b, a1, io1)) (buf_drain buf n1 a))"

text \<open>Besides the result: the bytes that went out.\<close>

partial_function (option) flush_fd_loop ::
    "nat \<Rightarrow> bytes \<Rightarrow> buf_t \<Rightarrow> alloc_t \<Rightarrow> write_result list \<Rightarrow> (int \<times> bytes \<times> buf_t \<times> alloc_t \<times> write_result list) option" where
  "flush_fd_loop sz out buf a io =
     (if sz = 0 then Some (int (length out), out, buf, a, io)
      else case chunks buf of
        [] \<Rightarrow> None
      | head # _ \<Rightarrow> do {
          let flushlen0 = (if length (chunk_data head) \<ge> sz then sz else length (chunk_data head));
          (r, bs, buf1, a1, io1) \<leftarrow> flush_chunk buf flushlen0 a io;
          if r < 0 then Some (r, out, buf1, a1, io1)
          else if r = 0 \<or> nat r < flushlen0 then Some (int (length (out @ bs)), out @ bs, buf1, a1, io1)
          else flush_fd_loop (sz - nat r) (out @ bs) buf1 a1 io1
        })"

definition buf_flush_to_fd :: "buf_t \<Rightarrow> nat \<Rightarrow> alloc_t \<Rightarrow> write_result list \<Rightarrow> (int \<times> bytes \<times> buf_t \<times> alloc_t \<times> write_result list) option" where
  "buf_flush_to_fd buf sz a io = flush_fd_loop (min sz (datalen buf)) [] buf a io"

section \<open>Well-formed buffers\<close>

definition chunk_ok :: "chunk_t \<Rightarrow> bool" where
  "chunk_ok ch \<longleftrightarrow> length (chunk_data ch) \<le> memlen ch \<and> length (chunk_data ch) \<le> INT_BUF_MAX_LEN \<and>
     data_offset ch \<le> memlen ch \<and> data_offset ch + length (chunk_data ch) \<le> memlen ch"

definition buf_assert_ok :: "buf_t \<Rightarrow> bool" where
  "buf_assert_ok buf \<longleftrightarrow> (if chunks buf = [] then datalen buf = 0
     else list_all chunk_ok (chunks buf) \<and> datalen buf = sum_list (map (length \<circ> chunk_data) (chunks buf)))"

end
