(* ===== verification/Buffers_Exact.thy ===== *)
theory Buffers_Exact
  imports Buffers
begin

text \<open>
  A buffer is a queue of bytes (\<open>src/lib/buf/buffers.c\<close>): every operation does on the bytes stored what it says, whatever the chunks
  are, and the counter of allocated memory is exact.
\<close>

section \<open>What a buffer holds\<close>

definition chunks_content :: "chunk_t list \<Rightarrow> bytes" where
  "chunks_content cs = concat (map chunk_data cs)"

definition buf_content :: "buf_t \<Rightarrow> bytes" where
  "buf_content buf = chunks_content (chunks buf)"

definition chunk_wf :: "chunk_t \<Rightarrow> bool" where
  "chunk_wf c \<longleftrightarrow> 0 < memlen c \<and> data_offset c + length (chunk_data c) \<le> memlen c \<and> DBG_alloc c = CHUNK_ALLOC_SIZE (memlen c)"

definition buf_wf :: "buf_t \<Rightarrow> bool" where
  "buf_wf buf \<longleftrightarrow> list_all chunk_wf (chunks buf) \<and> datalen buf = length (buf_content buf) \<and> datalen buf \<le> INT_BUF_MAX_LEN \<and>
     MIN_CHUNK_ALLOC \<le> default_chunk_size buf"

definition chunks_alloc :: "chunk_t list \<Rightarrow> nat" where
  "chunks_alloc cs = sum_list (map (CHUNK_ALLOC_SIZE \<circ> memlen) cs)"

lemma chunks_simps [simp]:
  "chunks_content [] = []" "chunks_content (c # cs) = chunk_data c @ chunks_content cs" "chunks_content (cs @ ds) = chunks_content cs @ chunks_content ds"
  "chunks_alloc [] = 0" "chunks_alloc (c # cs) = CHUNK_ALLOC_SIZE (memlen c) + chunks_alloc cs" "chunks_alloc (cs @ ds) = chunks_alloc cs + chunks_alloc ds"
  by (simp_all add: chunks_content_def chunks_alloc_def)

lemma buf_allocation_chunks: "buf_allocation buf = chunks_alloc (chunks buf)"
  by (simp add: buf_allocation_def chunks_alloc_def)

text \<open>The counter has followed the chunks.\<close>

definition moved :: "nat \<Rightarrow> alloc_t \<Rightarrow> nat \<Rightarrow> alloc_t \<Rightarrow> bool" where
  "moved before a after a1 \<longleftrightarrow> total_bytes_allocated_in_chunks a1 + before = total_bytes_allocated_in_chunks a + after"

lemma moved_trans: "moved x a y a1 \<Longrightarrow> moved y a1 z a2 \<Longrightarrow> moved x a z a2"
  by (simp add: moved_def)

lemma moved_refl [simp]: "moved x a x a"
  by (simp add: moved_def)

definition has :: "alloc_t \<Rightarrow> nat \<Rightarrow> bool" where
  "has a n \<longleftrightarrow> n \<le> total_bytes_allocated_in_chunks a"

lemma wf_assert_ok: "buf_wf buf \<Longrightarrow> buf_assert_ok buf"
proof -
  assume wf: "buf_wf buf"
  have "length (chunk_data c) \<le> length (buf_content buf)" if "c \<in> set (chunks buf)" for c
    using that by (auto simp: buf_content_def chunks_content_def length_concat comp_def intro: member_le_sum_list)
  then show ?thesis using wf
    by (fastforce simp: buf_assert_ok_def buf_wf_def list_all_iff chunk_ok_def chunk_wf_def buf_content_def chunks_content_def length_concat comp_def)
qed

lemma free_ok:
  "chunk_wf c \<Longrightarrow> has a (CHUNK_ALLOC_SIZE (memlen c) + n) \<Longrightarrow>
    \<exists>a1. buf_chunk_free_unchecked c a = Some a1 \<and> moved (CHUNK_ALLOC_SIZE (memlen c) + n) a n a1 \<and> has a1 n"
  by (simp add: buf_chunk_free_unchecked_def chunk_wf_def has_def moved_def)

section \<open>Adding\<close>

lemma preferred_loop:
  "256 \<le> sz \<Longrightarrow> \<exists>n. preferred_size_loop target sz = Some n \<and> target \<le> CHUNK_SIZE_WITH_ALLOC n \<and> 256 \<le> n"
proof (induction "target - CHUNK_SIZE_WITH_ALLOC sz" arbitrary: sz rule: less_induct)
  case less
  show ?case
  proof (cases "CHUNK_SIZE_WITH_ALLOC sz < target")
    case True
    then have "target - CHUNK_SIZE_WITH_ALLOC (sz * 2) < target - CHUNK_SIZE_WITH_ALLOC sz"
      using less.prems by (simp add: CHUNK_SIZE_WITH_ALLOC_def)
    from less.hyps [OF this] less.prems True show ?thesis by (subst preferred_size_loop.simps) simp
  next
    case False
    then show ?thesis using less.prems by (subst preferred_size_loop.simps) simp
  qed
qed

lemma preferred_ok:
  "target \<le> INT_BUF_MAX_LEN \<Longrightarrow> \<exists>n. buf_preferred_chunk_size target = Some n \<and> target \<le> CHUNK_SIZE_WITH_ALLOC n \<and> 256 \<le> n"
  using preferred_loop [of 256 target] by (auto simp: buf_preferred_chunk_size_def CHUNK_ALLOC_SIZE_def CHUNK_SIZE_WITH_ALLOC_def)

lemma add_chunk_ok:
  assumes "MIN_CHUNK_ALLOC \<le> default_chunk_size buf" and "capped \<or> capacity \<le> INT_BUF_MAX_LEN"
  shows "\<exists>c a1. buf_add_chunk_with_capacity buf capacity capped a = Some (buf\<lparr>chunks := chunks buf @ [c]\<rparr>, a1) \<and> chunk_wf c \<and>
    chunk_data c = [] \<and> data_offset c = 0 \<and> MIN_READ_LEN \<le> memlen c \<and> moved 0 a (CHUNK_ALLOC_SIZE (memlen c)) a1"
proof -
  have new: "chunk_wf c \<and> chunk_data c = [] \<and> data_offset c = 0 \<and> MIN_READ_LEN \<le> memlen c \<and> moved 0 a (CHUNK_ALLOC_SIZE (memlen c)) a1"
    if "256 \<le> n" "chunk_new_with_alloc_size n a = (c, a1)" for n c a1
    using that by (auto simp: chunk_new_with_alloc_size_def chunk_wf_def moved_def CHUNK_SIZE_WITH_ALLOC_def CHUNK_ALLOC_SIZE_def)
  obtain n where n: "256 \<le> n" "(if CHUNK_ALLOC_SIZE capacity < default_chunk_size buf then Some (chunk_new_with_alloc_size (default_chunk_size buf) a)
       else if capped \<and> CHUNK_ALLOC_SIZE capacity > MAX_CHUNK_ALLOC then Some (chunk_new_with_alloc_size MAX_CHUNK_ALLOC a)
       else map_option (\<lambda>n. chunk_new_with_alloc_size n a) (buf_preferred_chunk_size capacity)) = Some (chunk_new_with_alloc_size n a)"
  proof -
    consider (small) "CHUNK_ALLOC_SIZE capacity < default_chunk_size buf"
      | (large) "\<not> CHUNK_ALLOC_SIZE capacity < default_chunk_size buf" "capped \<and> CHUNK_ALLOC_SIZE capacity > MAX_CHUNK_ALLOC"
      | (other) "\<not> CHUNK_ALLOC_SIZE capacity < default_chunk_size buf" "\<not> (capped \<and> CHUNK_ALLOC_SIZE capacity > MAX_CHUNK_ALLOC)" by blast
    then show ?thesis
    proof cases
      case small
      show ?thesis by (rule that [of "default_chunk_size buf"]) (use assms small in simp_all)
    next
      case large
      show ?thesis by (rule that [of MAX_CHUNK_ALLOC]) (use assms large in simp_all)
    next
      case other
      then have "capacity \<le> INT_BUF_MAX_LEN" using assms(2) by (auto simp: CHUNK_ALLOC_SIZE_def)
      then obtain n where "buf_preferred_chunk_size capacity = Some n" "256 \<le> n" using preferred_ok by blast
      then show ?thesis
        by (intro that [of n]) (simp_all only: if_not_P [OF other(1)] if_not_P [OF other(2)] option.map)
    qed
  qed
  obtain c a1 where c: "chunk_new_with_alloc_size n a = (c, a1)" by fastforce
  then have "buf_add_chunk_with_capacity buf capacity capped a = Some (buf\<lparr>chunks := chunks buf @ [c\<lparr>inserted_time := chunk_stamp a1\<rparr>]\<rparr>, a1)"
    using n(2) by (simp add: buf_add_chunk_with_capacity_def)
  moreover have "chunk_wf (c\<lparr>inserted_time := t\<rparr>) = chunk_wf c" for t by (simp add: chunk_wf_def)
  ultimately show ?thesis using new [OF n(1) c] by fastforce
qed

text \<open>A well-formed buffer but for its length, which may be too large.\<close>

definition buf_fit :: "buf_t \<Rightarrow> bool" where
  "buf_fit buf \<longleftrightarrow> list_all chunk_wf (chunks buf) \<and> datalen buf = length (buf_content buf) \<and> MIN_CHUNK_ALLOC \<le> default_chunk_size buf"

lemma wf_fit: "buf_wf buf \<longleftrightarrow> buf_fit buf \<and> length (buf_content buf) \<le> INT_BUF_MAX_LEN"
  by (auto simp: buf_wf_def buf_fit_def)

lemma fill_tail_ok:
  assumes fit: "buf_fit buf" and ne: "chunks buf \<noteq> []" and l: "length bs \<le> CHUNK_REMAINING_CAPACITY (last (chunks buf))"
  shows "buf_fit (fill_tail bs buf) \<and> buf_content (fill_tail bs buf) = buf_content buf @ bs \<and>
    buf_allocation (fill_tail bs buf) = buf_allocation buf \<and> chunks (fill_tail bs buf) \<noteq> []"
proof -
  obtain cs c where cs: "chunks buf = cs @ [c]" using ne by (cases "chunks buf" rule: rev_cases) auto
  show ?thesis using assms cs
    by (auto simp: fill_tail_def buf_fit_def buf_content_def buf_allocation_chunks chunk_wf_def CHUNK_REMAINING_CAPACITY_def)
qed

lemma add_chunk_fit:
  assumes fit: "buf_fit buf" and "capped \<or> capacity \<le> INT_BUF_MAX_LEN"
  shows "\<exists>b a1. buf_add_chunk_with_capacity buf capacity capped a = Some (b, a1) \<and> buf_fit b \<and> buf_content b = buf_content buf \<and>
    moved (buf_allocation buf) a (buf_allocation b) a1 \<and> chunks b \<noteq> [] \<and> MIN_READ_LEN \<le> CHUNK_REMAINING_CAPACITY (last (chunks b)) \<and>
    memlen (last (chunks b)) = CHUNK_REMAINING_CAPACITY (last (chunks b))"
proof -
  have "MIN_CHUNK_ALLOC \<le> default_chunk_size buf" using fit by (simp add: buf_fit_def)
  from add_chunk_ok [OF this assms(2)] obtain c a1 where "buf_add_chunk_with_capacity buf capacity capped a = Some (buf\<lparr>chunks := chunks buf @ [c]\<rparr>, a1)"
      "chunk_wf c" "chunk_data c = []" "data_offset c = 0" "MIN_READ_LEN \<le> memlen c" "moved 0 a (CHUNK_ALLOC_SIZE (memlen c)) a1" by blast
  then show ?thesis using fit
    by (auto simp: buf_fit_def buf_content_def buf_allocation_chunks moved_def CHUNK_REMAINING_CAPACITY_def)
qed

lemma add_loop_ok:
  "buf_fit buf \<Longrightarrow> \<exists>b a1. buf_add_loop string buf a = Some (b, a1) \<and> buf_fit b \<and> buf_content b = buf_content buf @ string \<and>
    moved (buf_allocation buf) a (buf_allocation b) a1"
proof (induction "length string" arbitrary: string buf a rule: less_induct)
  case less
  show ?case
  proof (cases "string = []")
    case True
    then show ?thesis using less.prems by (subst buf_add_loop.simps) simp
  next
    case False
    obtain b a1 where b: "(if chunks buf = [] \<or> CHUNK_REMAINING_CAPACITY (last (chunks buf)) = 0
          then buf_add_chunk_with_capacity buf (length string) True a else Some (buf, a)) = Some (b, a1)"
      "buf_fit b" "buf_content b = buf_content buf" "moved (buf_allocation buf) a (buf_allocation b) a1" "chunks b \<noteq> []"
      "0 < CHUNK_REMAINING_CAPACITY (last (chunks b))"
    proof (cases "chunks buf = [] \<or> CHUNK_REMAINING_CAPACITY (last (chunks buf)) = 0")
      case True
      obtain b a1 where "buf_add_chunk_with_capacity buf (length string) True a = Some (b, a1)" "buf_fit b" "buf_content b = buf_content buf"
        "moved (buf_allocation buf) a (buf_allocation b) a1" "chunks b \<noteq> []" "MIN_READ_LEN \<le> CHUNK_REMAINING_CAPACITY (last (chunks b))"
        using add_chunk_fit [OF less.prems, of True "length string" a] by auto
      then show ?thesis using True by (intro that [of b a1]) simp_all
    next
      case False
      then show ?thesis using less.prems by (intro that [of buf a]) simp_all
    qed
    define n where "n = min (CHUNK_REMAINING_CAPACITY (last (chunks b))) (length string)"
    have n: "0 < n" "n \<le> length string" "length (take n string) \<le> CHUNK_REMAINING_CAPACITY (last (chunks b))" using b(6) False by (auto simp: n_def)
    note f = fill_tail_ok [OF b(2,5) n(3)]
    have "length (drop n string) < length string" using n False by simp
    from less.hyps [OF this, of "fill_tail (take n string) b" a1] f obtain b2 a2 where
      "buf_add_loop (drop n string) (fill_tail (take n string) b) a1 = Some (b2, a2)" "buf_fit b2"
      "buf_content b2 = buf_content b @ take n string @ drop n string" "moved (buf_allocation b) a1 (buf_allocation b2) a2" by auto
    then show ?thesis using False b moved_trans by (subst buf_add_loop.simps) (auto simp: n_def Let_def)
  qed
qed

lemma buf_add_ok:
  assumes wf: "buf_wf buf" and l: "length string \<le> INT_BUF_MAX_LEN"
  shows "if datalen buf + length string > INT_BUF_MAX_LEN \<and> string \<noteq> [] then buf_add buf string a = Some (-1, buf, a)
    else \<exists>b a1. buf_add buf string a = Some (int (datalen buf + length string), b, a1) \<and> buf_wf b \<and> buf_content b = buf_content buf @ string \<and>
      moved (buf_allocation buf) a (buf_allocation b) a1"
proof (cases "string = []")
  case True
  then show ?thesis using wf by (simp add: buf_add_def)
next
  case False
  have dl: "datalen buf = length (buf_content buf)" "datalen buf \<le> INT_BUF_MAX_LEN" using wf by (simp_all add: buf_wf_def)
  show ?thesis
  proof (cases "datalen buf + length string > INT_BUF_MAX_LEN")
    case True
    then have "datalen buf > INT_BUF_MAX_LEN - length string" using l by linarith
    then show ?thesis using True False l dl by (simp add: buf_add_def)
  next
    case small: False
    obtain b a1 where b: "buf_add_loop string buf a = Some (b, a1)" "buf_fit b" "buf_content b = buf_content buf @ string"
        "moved (buf_allocation buf) a (buf_allocation b) a1" using add_loop_ok wf wf_fit by blast
    then have "datalen b = datalen buf + length string" "buf_wf b" using dl small by (simp_all add: buf_fit_def wf_fit)
    then show ?thesis using b False small dl by (auto simp: buf_add_def)
  qed
qed

end
