(* ===== verification/Buffers_Ops.thy ===== *)
theory Buffers_Ops
  imports Buffers_Exact
begin

text \<open>
  Buffers without empty chunks, and what taking out, pulling up, copying, moving and searching do on the bytes a buffer holds
  (\<open>src/lib/buf/buffers.c\<close>).
\<close>

section \<open>No empty chunks\<close>

definition full :: "chunk_t list \<Rightarrow> bool" where
  "full cs \<longleftrightarrow> list_all (\<lambda>c. chunk_data c \<noteq> []) cs"

lemma full_simps [simp]:
  "full []" "full (c # cs) \<longleftrightarrow> chunk_data c \<noteq> [] \<and> full cs" "full (cs @ ds) \<longleftrightarrow> full cs \<and> full ds"
  by (simp_all add: full_def)

lemma full_butlast: "full cs \<Longrightarrow> full (butlast cs)"
  by (auto simp: full_def list_all_iff dest: in_set_butlastD)

lemma full_content: "full cs \<Longrightarrow> chunks_content cs = [] \<longleftrightarrow> cs = []"
  by (cases cs) auto

lemma full_fill_tail: "full (butlast (chunks buf)) \<Longrightarrow> bs \<noteq> [] \<Longrightarrow> full (chunks (fill_tail bs buf))"
  by (simp add: fill_tail_def)

lemma add_chunk_butlast:
  "buf_add_chunk_with_capacity buf capacity capped a = Some (b, a1) \<Longrightarrow> butlast (chunks b) = chunks buf"
  by (auto simp: buf_add_chunk_with_capacity_def bind_eq_Some_conv)

lemma full_add_loop:
  "buf_fit buf \<Longrightarrow> full (chunks buf) \<Longrightarrow> buf_add_loop string buf a = Some (b, a1) \<Longrightarrow> full (chunks b)"
proof (induction "length string" arbitrary: string buf a rule: less_induct)
  case less
  show ?case
  proof (cases "string = []")
    case True
    with less.prems(3) have "Some (buf, a) = Some (b, a1)" by (subst (asm) buf_add_loop.simps) simp
    then show ?thesis using less.prems(2) by simp
  next
    case False
    let ?new = "chunks buf = [] \<or> CHUNK_REMAINING_CAPACITY (last (chunks buf)) = 0"
    from less.prems(3) False obtain b2 a2 where b2:
        "(if ?new then buf_add_chunk_with_capacity buf (length string) True a else Some (buf, a)) = Some (b2, a2)"
        "buf_add_loop (drop (min (CHUNK_REMAINING_CAPACITY (last (chunks b2))) (length string)) string)
          (fill_tail (take (min (CHUNK_REMAINING_CAPACITY (last (chunks b2))) (length string)) string) b2) a2 = Some (b, a1)"
      by (subst (asm) buf_add_loop.simps) (auto simp: bind_eq_Some_conv Let_def)
    have f: "buf_fit b2 \<and> full (butlast (chunks b2)) \<and> chunks b2 \<noteq> [] \<and> 0 < CHUNK_REMAINING_CAPACITY (last (chunks b2))"
    proof (cases ?new)
      case True
      with b2(1) add_chunk_fit [OF less.prems(1), of True "length string" a] add_chunk_butlast less.prems(2) show ?thesis by fastforce
    next
      case False
      with b2(1) less.prems show ?thesis by (auto intro: full_butlast)
    qed
    define n where "n = min (CHUNK_REMAINING_CAPACITY (last (chunks b2))) (length string)"
    have n: "take n string \<noteq> []" "length (drop n string) < length string" "length (take n string) \<le> CHUNK_REMAINING_CAPACITY (last (chunks b2))"
      using f False by (auto simp: n_def)
    show ?thesis
      by (rule less.hyps [OF n(2) _ _ b2(2) [folded n_def]]) (use f n fill_tail_ok full_fill_tail in blast)+
  qed
qed

section \<open>Taking bytes out\<close>

lemma drain_loop_ok:
  "list_all chunk_wf cs \<Longrightarrow> n \<le> length (chunks_content cs) \<Longrightarrow> has a (chunks_alloc cs) \<Longrightarrow> \<exists>ds a1.
    drain_loop n cs (length (chunks_content cs)) a = Some (ds, length (chunks_content cs) - n, a1) \<and> list_all chunk_wf ds \<and>
    chunks_content ds = drop n (chunks_content cs) \<and> moved (chunks_alloc cs) a (chunks_alloc ds) a1 \<and> (full cs \<longrightarrow> full ds)"
proof (induction cs arbitrary: n a)
  case Nil
  then show ?case by simp
next
  case (Cons c cs)
  consider "n = 0" | (part) "0 < n" "n < length (chunk_data c)" | (whole) "0 < n" "length (chunk_data c) \<le> n" by linarith
  then show ?case
  proof cases
    case 1
    then show ?thesis using Cons.prems by simp
  next
    case part
    then show ?thesis using Cons.prems by (auto simp: chunk_wf_def)
  next
    case whole
    obtain a1 where a1: "buf_chunk_free_unchecked c a = Some a1" "moved (chunks_alloc (c # cs)) a (chunks_alloc cs) a1" "has a1 (chunks_alloc cs)"
      using free_ok [of c a "chunks_alloc cs"] Cons.prems by auto
    have "n - length (chunk_data c) \<le> length (chunks_content cs)" using Cons.prems by simp
    from Cons.IH [OF _ this a1(3)] Cons.prems obtain ds a2 where
      "drain_loop (n - length (chunk_data c)) cs (length (chunks_content cs)) a1 = Some (ds, length (chunks_content cs) - (n - length (chunk_data c)), a2)"
      "list_all chunk_wf ds" "chunks_content ds = drop (n - length (chunk_data c)) (chunks_content cs)"
      "moved (chunks_alloc cs) a1 (chunks_alloc ds) a2" "full cs \<longrightarrow> full ds" by auto
    then show ?thesis using whole a1 by (auto intro: moved_trans)
  qed
qed

lemma buf_drain_ok:
  assumes "buf_wf buf" "has a (buf_allocation buf)" "n \<le> length (buf_content buf)"
  shows "\<exists>b a1. buf_drain buf n a = Some (b, a1) \<and> buf_wf b \<and> buf_content b = drop n (buf_content buf) \<and>
    moved (buf_allocation buf) a (buf_allocation b) a1 \<and> (full (chunks buf) \<longrightarrow> full (chunks b))"
  using drain_loop_ok [of "chunks buf" n a] assms
  by (auto simp: buf_drain_def buf_wf_def buf_content_def buf_allocation_chunks)

lemma buf_drain_refused: "buf_wf buf \<Longrightarrow> \<not> n \<le> length (buf_content buf) \<Longrightarrow> buf_drain buf n a = None"
  by (simp add: buf_drain_def buf_wf_def)

lemma peek_loop_ok: "n \<le> length (chunks_content cs) \<Longrightarrow> peek_loop n cs = Some (take n (chunks_content cs))"
  by (induction cs arbitrary: n) (auto simp: Let_def min_def)

lemma buf_peek_ok: "buf_wf buf \<Longrightarrow> buf_peek buf n = (if n \<le> length (buf_content buf) then Some (take n (buf_content buf)) else None)"
  by (simp add: buf_peek_def buf_wf_def buf_content_def peek_loop_ok)

lemma buf_get_bytes_ok:
  assumes "buf_wf buf" "has a (buf_allocation buf)" "n \<le> length (buf_content buf)"
  shows "\<exists>b a1. buf_get_bytes buf n a = Some (int (length (buf_content buf) - n), take n (buf_content buf), b, a1) \<and> buf_wf b \<and>
    buf_content b = drop n (buf_content buf) \<and> moved (buf_allocation buf) a (buf_allocation b) a1 \<and> (full (chunks buf) \<longrightarrow> full (chunks b))"
proof -
  obtain b a1 where b: "buf_drain buf n a = Some (b, a1)" "buf_wf b" "buf_content b = drop n (buf_content buf)"
    "moved (buf_allocation buf) a (buf_allocation b) a1" "full (chunks buf) \<longrightarrow> full (chunks b)" using buf_drain_ok [OF assms] by blast
  moreover from b(2,3) have "datalen b = length (buf_content buf) - n" "datalen b \<le> INT_BUF_MAX_LEN" by (simp_all add: buf_wf_def)
  ultimately show ?thesis using assms(1,3) by (simp add: buf_get_bytes_def buf_peek_ok)
qed

lemma buf_get_bytes_refused: "buf_wf buf \<Longrightarrow> \<not> n \<le> length (buf_content buf) \<Longrightarrow> buf_get_bytes buf n a = None"
  by (simp add: buf_get_bytes_def buf_peek_ok)

lemma free_chunks_ok:
  "list_all chunk_wf cs \<Longrightarrow> has a (chunks_alloc cs) \<Longrightarrow> \<exists>a1. free_chunks cs a = Some a1 \<and> moved (chunks_alloc cs) a 0 a1"
proof (induction cs arbitrary: a)
  case (Cons c cs)
  obtain a1 where "buf_chunk_free_unchecked c a = Some a1" "moved (chunks_alloc (c # cs)) a (chunks_alloc cs) a1" "has a1 (chunks_alloc cs)"
    using free_ok [of c a "chunks_alloc cs"] Cons.prems by auto
  with Cons show ?case by (fastforce intro: moved_trans)
qed simp

lemma buf_clear_ok:
  assumes "buf_wf buf" "has a (buf_allocation buf)"
  shows "\<exists>b a1. buf_clear buf a = Some (b, a1) \<and> buf_wf b \<and> chunks b = [] \<and> moved (buf_allocation buf) a 0 a1"
  using free_chunks_ok [of "chunks buf" a] assms
  by (auto simp: buf_clear_def buf_wf_def buf_content_def buf_allocation_chunks)

section \<open>Pulling up\<close>

lemma pullup_loop_ok:
  "chunk_wf dest \<Longrightarrow> data_offset dest + n \<le> memlen dest \<Longrightarrow> list_all chunk_wf cs \<Longrightarrow>
    n \<le> length (chunk_data dest @ chunks_content cs) \<Longrightarrow> has a (chunks_alloc (dest # cs)) \<Longrightarrow> full (dest # cs) \<Longrightarrow>
    \<exists>h ds a1. pullup_loop n dest cs a = Some (h # ds, a1) \<and> list_all chunk_wf (h # ds) \<and>
      chunks_content (h # ds) = chunk_data dest @ chunks_content cs \<and> n \<le> length (chunk_data h) \<and>
      moved (chunks_alloc (dest # cs)) a (chunks_alloc (h # ds)) a1 \<and> full (h # ds)"
proof (induction cs arbitrary: dest a rule: length_induct)
  case (1 cs)
  show ?case
  proof (cases "length (chunk_data dest) < n")
    case False
    then show ?thesis using 1 by (subst pullup_loop.simps) simp
  next
    case True
    then obtain src rest where cs: "cs = src # rest" using 1 by (cases cs) auto
    let ?n = "n - length (chunk_data dest)"
    show ?thesis
    proof (cases "length (chunk_data src) \<le> ?n")
      case False
      let ?d = "dest\<lparr>chunk_data := chunk_data dest @ take ?n (chunk_data src)\<rparr>"
      let ?s = "src\<lparr>chunk_data := drop ?n (chunk_data src), data_offset := data_offset src + ?n\<rparr>"
      have "pullup_loop n dest cs a = pullup_loop n ?d (?s # rest) a" using True False cs by (subst pullup_loop.simps) (simp add: Let_def)
      also have "\<dots> = Some (?d # ?s # rest, a)" using False True by (subst pullup_loop.simps) simp
      finally show ?thesis using 1 cs True False by (simp add: chunk_wf_def)
    next
      case whole: True
      have "has a (CHUNK_ALLOC_SIZE (memlen src) + chunks_alloc (dest # rest))" using 1 cs by (simp add: add_ac)
      from free_ok [OF _ this] 1 cs obtain a1 where a1: "buf_chunk_free_unchecked src a = Some a1"
        "moved (CHUNK_ALLOC_SIZE (memlen src) + chunks_alloc (dest # rest)) a (chunks_alloc (dest # rest)) a1" "has a1 (chunks_alloc (dest # rest))" by auto
      let ?d = "dest\<lparr>chunk_data := chunk_data dest @ chunk_data src\<rparr>"
      have "pullup_loop n dest cs a = pullup_loop n ?d rest a1" using True whole cs a1(1) by (subst pullup_loop.simps) (simp add: Let_def)
      moreover have "chunk_wf ?d" "data_offset ?d + n \<le> memlen ?d" "n \<le> length (chunk_data ?d @ chunks_content rest)"
        using 1 cs whole True by (auto simp: chunk_wf_def)
      moreover have "chunks_alloc (?d # rest) = chunks_alloc (dest # rest)" by simp
      moreover have "moved (chunks_alloc (dest # cs)) a (chunks_alloc (dest # rest)) a1" using a1(2) cs by (simp add: add.left_commute)
      ultimately show ?thesis using 1(1) [rule_format, of rest ?d a1] 1(2-) cs a1(1,3) by (auto intro: moved_trans)
    qed
  qed
qed

lemma buf_pullup_ok:
  assumes wf: "buf_wf buf" and h: "has a (buf_allocation buf)" and f: "full (chunks buf)"
  shows "\<exists>b a1 r. buf_pullup buf n a = Some (r, b, a1) \<and> buf_wf b \<and> buf_content b = buf_content buf \<and>
    moved (buf_allocation buf) a (buf_allocation b) a1 \<and> full (chunks b) \<and>
    (case r of None \<Rightarrow> buf_content buf = [] | Some bs \<Rightarrow>
       bs \<noteq> [] \<and> take (length bs) (buf_content buf) = bs \<and> min n (length (buf_content buf)) \<le> length bs)"
proof (cases "chunks buf")
  case Nil
  then show ?thesis using wf by (simp add: buf_pullup_def buf_content_def)
next
  case (Cons head rest)
  define m where "m = min n (datalen buf)"
  have dl: "datalen buf = length (buf_content buf)" "datalen buf \<le> INT_BUF_MAX_LEN" "chunk_wf head" "list_all chunk_wf rest"
    using wf Cons by (simp_all add: buf_wf_def)
  have cont: "buf_content buf = chunk_data head @ chunks_content rest" using Cons by (simp add: buf_content_def)
  show ?thesis
  proof (cases "length (chunk_data head) \<ge> m")
    case True
    then show ?thesis using wf f Cons dl cont by (simp add: buf_pullup_def Let_def m_def [symmetric]) (simp add: m_def)
  next
    case False
    let ?grow = "if memlen head \<ge> m
              then let needed = m - length (chunk_data head);
                       h = (if CHUNK_REMAINING_CAPACITY head < needed then chunk_repack head else head)
                   in if \<not> CHUNK_REMAINING_CAPACITY h \<ge> needed then None else Some (h, a)
              else do {
                alloc \<leftarrow> buf_preferred_chunk_size m;
                (h, a1) \<leftarrow> chunk_grow (chunk_repack head) (CHUNK_SIZE_WITH_ALLOC alloc) a;
                if \<not> memlen h \<ge> m then None else Some (h, a1)
              }"
    obtain d a1 where d: "?grow = Some (d, a1)" "chunk_wf d" "data_offset d + m \<le> memlen d" "chunk_data d = chunk_data head"
      "moved (chunks_alloc (head # rest)) a (chunks_alloc (d # rest)) a1"
    proof (cases "memlen head \<ge> m")
      case True
      let ?h = "if CHUNK_REMAINING_CAPACITY head < m - length (chunk_data head) then chunk_repack head else head"
      have "?grow = Some (?h, a)" using True False dl(3) diff_le_mono by (simp add: Let_def chunk_repack_def CHUNK_REMAINING_CAPACITY_def)
      moreover have "chunk_wf ?h" "data_offset ?h + m \<le> memlen ?h" "chunk_data ?h = chunk_data head" "memlen ?h = memlen head"
        using True False dl(3) by (auto simp: chunk_wf_def chunk_repack_def CHUNK_REMAINING_CAPACITY_def)
      ultimately show ?thesis by (intro that [of ?h a]) simp_all
    next
      case small: False
      have "m \<le> INT_BUF_MAX_LEN" using dl by (simp add: m_def)
      then obtain k where k: "buf_preferred_chunk_size m = Some k" "m \<le> CHUNK_SIZE_WITH_ALLOC k" using preferred_ok by blast
      let ?h = "head\<lparr>data_offset := 0, memlen := CHUNK_SIZE_WITH_ALLOC k, DBG_alloc := CHUNK_ALLOC_SIZE (CHUNK_SIZE_WITH_ALLOC k)\<rparr>"
      have k2: "memlen head < CHUNK_SIZE_WITH_ALLOC k" using k(2) small by linarith
      have e: "?grow = Some (?h, a\<lparr>total_bytes_allocated_in_chunks := total_bytes_allocated_in_chunks a +
          (CHUNK_ALLOC_SIZE (CHUNK_SIZE_WITH_ALLOC k) - CHUNK_ALLOC_SIZE (memlen head))\<rparr>)"
        using small k k2 dl(3) by (simp add: chunk_grow_def chunk_repack_def chunk_wf_def Let_def)
      show ?thesis by (rule that [OF e]) (use small k(2) k2 dl(3) in \<open>auto simp: chunk_wf_def moved_def CHUNK_ALLOC_SIZE_def\<close>)
    qed
    have m: "m \<le> length (chunk_data d @ chunks_content rest)" using d(4) dl(1) cont by (simp add: m_def)
    have "has a1 (chunks_alloc (d # rest))" using d(5) h Cons by (simp add: has_def moved_def buf_allocation_chunks)
    moreover have "full (d # rest)" using f Cons d(4) by simp
    ultimately obtain hd1 ds a2 where r: "pullup_loop m d rest a1 = Some (hd1 # ds, a2)" "list_all chunk_wf (hd1 # ds)"
        "chunks_content (hd1 # ds) = chunk_data d @ chunks_content rest" "m \<le> length (chunk_data hd1)"
        "moved (chunks_alloc (d # rest)) a1 (chunks_alloc (hd1 # ds)) a2" "full (hd1 # ds)"
      using pullup_loop_ok [OF d(2,3) dl(4) m] by blast
    have "buf_pullup buf n a = Some (Some (chunk_data hd1), buf\<lparr>chunks := hd1 # ds\<rparr>, a2)"
      using Cons False d(1) r(1) by (simp add: buf_pullup_def m_def [symmetric])
    moreover have "buf_content (buf\<lparr>chunks := hd1 # ds\<rparr>) = buf_content buf" using r(3) d(4) cont by (simp add: buf_content_def)
    moreover have "take (length (chunk_data hd1)) (buf_content buf) = chunk_data hd1" using r(3) d(4) cont
      by (metis append_eq_conv_conj chunks_simps(2))
    ultimately show ?thesis using wf r d dl m_def moved_trans [OF d(5) r(5)] Cons
      by (simp add: buf_wf_def buf_allocation_chunks)
  qed
qed

section \<open>Copying and moving\<close>

lemma copy_chunks_ok:
  "list_all chunk_wf cs \<Longrightarrow> \<exists>a1. copy_chunks cs a = (cs, a1) \<and> moved 0 a (chunks_alloc cs) a1"
proof (induction cs arbitrary: a)
  case (Cons c cs)
  let ?a = "a\<lparr>total_bytes_allocated_in_chunks := total_bytes_allocated_in_chunks a + CHUNK_ALLOC_SIZE (memlen c)\<rparr>"
  obtain a1 where "copy_chunks cs ?a = (cs, a1)" "moved 0 ?a (chunks_alloc cs) a1" using Cons by fastforce
  moreover have "chunk_copy c a = (c, ?a)" using Cons.prems by (simp add: chunk_copy_def chunk_wf_def)
  ultimately show ?case by (simp add: moved_def)
qed simp

lemma buf_copy_ok:
  "buf_wf buf \<Longrightarrow> \<exists>a1. buf_copy buf a = (buf, a1) \<and> moved 0 a (buf_allocation buf) a1"
  using copy_chunks_ok [of "chunks buf" a]
  by (auto simp: buf_copy_def buf_wf_def buf_new_def buf_allocation_chunks)

lemma buf_set_to_copy_ok:
  assumes "buf_wf outp" "buf_wf inp" "has a (buf_allocation outp)"
  shows "\<exists>a1. buf_set_to_copy (Some outp) inp a = Some (inp, a1) \<and> moved (buf_allocation outp) a (buf_allocation inp) a1"
proof -
  obtain b a1 where "buf_clear outp a = Some (b, a1)" "moved (buf_allocation outp) a 0 a1" using buf_clear_ok assms by blast
  then show ?thesis using buf_copy_ok [OF assms(2), of a1] by (auto simp: buf_set_to_copy_def intro: moved_trans)
qed

lemma moved_has: "moved (x + y) a (z + y) a1 \<Longrightarrow> has a (x + y) \<Longrightarrow> has a1 (z + y)"
  by (simp add: moved_def has_def)

lemma moved_add: "moved x a z a1 \<longleftrightarrow> moved (x + y) a (z + y) a1"
  by (simp add: moved_def)

lemma full_buf_add:
  "buf_wf buf \<Longrightarrow> full (chunks buf) \<Longrightarrow> buf_add buf string a = Some (r, b, a1) \<Longrightarrow> full (chunks b)"
  using full_add_loop [of buf string a] by (auto simp: buf_add_def wf_fit bind_eq_Some_conv split: if_splits)

lemma move_loop_ok:
  "buf_wf outp \<Longrightarrow> buf_wf inp \<Longrightarrow> has a (buf_allocation outp + buf_allocation inp) \<Longrightarrow> n \<le> length (buf_content inp) \<Longrightarrow>
    length (buf_content outp) + n \<le> INT_BUF_MAX_LEN \<Longrightarrow>
    \<exists>out1 in1 a1. move_loop n outp inp a = Some (out1, in1, a1) \<and> buf_wf out1 \<and> buf_wf in1 \<and>
      buf_content out1 = buf_content outp @ take n (buf_content inp) \<and> buf_content in1 = drop n (buf_content inp) \<and>
      moved (buf_allocation outp + buf_allocation inp) a (buf_allocation out1 + buf_allocation in1) a1 \<and>
      (full (chunks outp) \<longrightarrow> full (chunks inp) \<longrightarrow> full (chunks out1) \<and> full (chunks in1))"
proof (induction n arbitrary: outp inp a rule: less_induct)
  case (less n)
  show ?case
  proof (cases "n = 0")
    case True
    then show ?thesis using less.prems by (subst move_loop.simps) simp
  next
    case False
    define m where "m = min n 4096"
    have m: "0 < m" "m \<le> n" "m \<le> length (buf_content inp)" using False less.prems by (auto simp: m_def)
    have "has a (buf_allocation inp)" using less.prems by (simp add: has_def)
    from buf_get_bytes_ok [OF less.prems(2) this m(3)] obtain in1 a1 where g:
      "buf_get_bytes inp m a = Some (int (length (buf_content inp) - m), take m (buf_content inp), in1, a1)" "buf_wf in1"
      "buf_content in1 = drop m (buf_content inp)" "moved (buf_allocation inp) a (buf_allocation in1) a1" "full (chunks inp) \<longrightarrow> full (chunks in1)"
      by blast
    have len: "length (take m (buf_content inp)) = m" using m by simp
    have dl: "datalen outp = length (buf_content outp)" using less.prems(1) by (simp add: buf_wf_def)
    have bnd: "length (take m (buf_content inp)) \<le> INT_BUF_MAX_LEN" "\<not> datalen outp + length (take m (buf_content inp)) > INT_BUF_MAX_LEN"
      using less.prems(5) m(2) len dl by linarith+
    then obtain out1 a2 where p: "buf_add outp (take m (buf_content inp)) a1 = Some (int (datalen outp + length (take m (buf_content inp))), out1, a2)"
      "buf_wf out1" "buf_content out1 = buf_content outp @ take m (buf_content inp)" "moved (buf_allocation outp) a1 (buf_allocation out1) a2"
      using buf_add_ok [OF less.prems(1) bnd(1), of a1] by auto
    have mv: "moved (buf_allocation outp + buf_allocation inp) a (buf_allocation out1 + buf_allocation in1) a2"
      using g(4) p(4) by (simp add: moved_def)
    then have h: "has a2 (buf_allocation out1 + buf_allocation in1)" using less.prems(3) by (simp add: moved_def has_def)
    have n: "n - m < n" "n - m \<le> length (buf_content in1)" "length (buf_content out1) + (n - m) \<le> INT_BUF_MAX_LEN"
      using m False less.prems(4,5) g(3) p(3) by simp_all
    from less.IH [OF n(1) p(2) g(2) h n(2,3)] obtain out2 in2 a3 where r: "move_loop (n - m) out1 in1 a2 = Some (out2, in2, a3)"
      "buf_wf out2" "buf_wf in2" "buf_content out2 = buf_content out1 @ take (n - m) (buf_content in1)" "buf_content in2 = drop (n - m) (buf_content in1)"
      "moved (buf_allocation out1 + buf_allocation in1) a2 (buf_allocation out2 + buf_allocation in2) a3"
      "full (chunks out1) \<longrightarrow> full (chunks in1) \<longrightarrow> full (chunks out2) \<and> full (chunks in2)" by blast
    have "move_loop n outp inp a = Some (out2, in2, a3)"
      using False g(1) p(1) r(1) by (subst move_loop.simps) (simp add: m_def [symmetric])
    moreover have "take n (buf_content inp) = take m (buf_content inp) @ take (n - m) (drop m (buf_content inp))"
      using m(2) by (metis le_add_diff_inverse take_add)
    moreover have "drop (n - m) (drop m (buf_content inp)) = drop n (buf_content inp)" using m(2) by simp
    moreover have "full (chunks outp) \<longrightarrow> full (chunks inp) \<longrightarrow> full (chunks out2) \<and> full (chunks in2)"
      using r(7) g(5) full_buf_add [OF less.prems(1) _ p(1)] by blast
    ultimately show ?thesis using r(2-6) g(3) p(3) moved_trans [OF mv r(6)] by simp
  qed
qed

lemma buf_move_all_ok:
  assumes "buf_wf outp" "buf_wf inp"
  shows "if buf_content inp = [] \<or> length (buf_content outp) + length (buf_content inp) > INT_BUF_MAX_LEN
    then buf_move_all outp inp = (0, outp, inp)
    else \<exists>out1 in1. buf_move_all outp inp = (length (buf_content inp), out1, in1) \<and> buf_wf out1 \<and> buf_wf in1 \<and>
      buf_content out1 = buf_content outp @ buf_content inp \<and> chunks in1 = [] \<and>
      buf_allocation out1 + buf_allocation in1 = buf_allocation outp + buf_allocation inp \<and>
      (full (chunks outp) \<longrightarrow> full (chunks inp) \<longrightarrow> full (chunks out1))"
proof -
  have dl: "datalen outp = length (buf_content outp)" "datalen inp = length (buf_content inp)" "datalen outp \<le> INT_BUF_MAX_LEN"
    "datalen inp \<le> INT_BUF_MAX_LEN" using assms by (simp_all add: buf_wf_def)
  then have "datalen outp > INT_BUF_MAX_LEN - datalen inp \<longleftrightarrow> length (buf_content outp) + length (buf_content inp) > INT_BUF_MAX_LEN" by linarith
  then show ?thesis using dl assms
    by (auto simp: buf_move_all_def buf_wf_def buf_content_def buf_allocation_chunks simp del: length_0_conv)
qed

section \<open>Searching\<close>

lemma memchr_lt: "memchr xs ch = Some i \<Longrightarrow> i < length xs"
  by (induction xs arbitrary: i) (auto split: if_splits)

lemma memchr_append: "memchr (xs @ ys) ch = (case memchr xs ch of Some i \<Rightarrow> Some i | None \<Rightarrow> map_option ((+) (length xs)) (memchr ys ch))"
  by (induction xs) (cases "memchr ys ch"; auto split: option.splits)+

lemma find_offset_loop_ok:
  "find_offset_loop ch k cs = (case memchr (chunks_content cs) ch of Some i \<Rightarrow> int (k + i) | None \<Rightarrow> -1)"
  by (induction cs arbitrary: k) (auto simp: memchr_append split: option.splits)

lemma buf_find_offset_of_char_ok:
  "buf_wf buf \<Longrightarrow> buf_find_offset_of_char buf ch = Some (case memchr (buf_content buf) ch of Some i \<Rightarrow> int i | None \<Rightarrow> -1)"
  by (auto simp: buf_find_offset_of_char_def buf_wf_def buf_content_def find_offset_loop_ok split: option.splits)

text \<open>A line, its LF included, leaves the buffer if there is room for it and a NUL.\<close>

lemma buf_get_line_ok:
  assumes wf: "buf_wf buf" and h: "has a (buf_allocation buf)" and f: "full (chunks buf)"
  shows "case memchr (buf_content buf) 10 of
      None \<Rightarrow> buf_get_line buf len a = Some (0, [], len, buf, a)
    | Some i \<Rightarrow> if len < i + 2 then buf_get_line buf len a = Some (-1, [], i + 2, buf, a)
        else \<exists>b a1. buf_get_line buf len a = Some (1, take (i + 1) (buf_content buf), i + 1, b, a1) \<and> buf_wf b \<and>
          buf_content b = drop (i + 1) (buf_content buf) \<and> moved (buf_allocation buf) a (buf_allocation b) a1 \<and> full (chunks b)"
proof (cases "memchr (buf_content buf) 10")
  case None
  then show ?thesis using buf_find_offset_of_char_ok [OF wf, of 10] by (simp add: buf_get_line_def)
next
  case (Some i)
  have ne: "chunks buf \<noteq> []" using Some by (auto simp: buf_content_def)
  have off: "buf_find_offset_of_char buf 10 = Some (int i)" using buf_find_offset_of_char_ok [OF wf, of 10] Some by simp
  have "i + 1 \<le> length (buf_content buf)" using memchr_lt [OF Some] by simp
  from buf_get_bytes_ok [OF wf h this] f obtain b a1 where
    "buf_get_bytes buf (i + 1) a = Some (int (length (buf_content buf) - (i + 1)), take (i + 1) (buf_content buf), b, a1)" "buf_wf b"
    "buf_content b = drop (i + 1) (buf_content buf)" "moved (buf_allocation buf) a (buf_allocation b) a1" "full (chunks b)" by blast
  then show ?thesis using Some ne off by (simp add: buf_get_line_def)
qed

text \<open>Positions: the offset from the start, and the bytes from there on.\<close>

definition pos_rest :: "buf_pos_t \<Rightarrow> bytes" where
  "pos_rest p = drop (pos_pos p) (chunks_content (pos_chunk p))"

definition pos_offset :: "buf_pos_t \<Rightarrow> nat" where
  "pos_offset p = chunk_pos p + pos_pos p"

definition pos_ok :: "buf_pos_t \<Rightarrow> bool" where
  "pos_ok p \<longleftrightarrow> full (pos_chunk p) \<and> (case pos_chunk p of [] \<Rightarrow> pos_pos p = 0 | c # _ \<Rightarrow> pos_pos p < length (chunk_data c)) \<and>
     pos_offset p + length (pos_rest p) \<le> INT_BUF_MAX_LEN"

lemma pos_init_ok:
  "buf_wf buf \<Longrightarrow> full (chunks buf) \<Longrightarrow> pos_ok (buf_pos_init buf) \<and> pos_rest (buf_pos_init buf) = buf_content buf \<and> pos_offset (buf_pos_init buf) = 0"
  by (auto simp: pos_ok_def pos_rest_def pos_offset_def buf_pos_init_def buf_wf_def buf_content_def split: list.splits)

lemma find_char_loop_ok:
  "full cs \<Longrightarrow> (case cs of [] \<Rightarrow> True | c # _ \<Rightarrow> pos < length (chunk_data c)) \<Longrightarrow>
    case memchr (drop pos (chunks_content cs)) ch of
      None \<Rightarrow> \<exists>out1. find_char_loop ch cs pos out = (-1, out1)
    | Some i \<Rightarrow> \<exists>ds q k. find_char_loop ch cs pos out = (int (chunk_pos out + pos + i), out\<lparr>pos_chunk := ds, pos_pos := q, chunk_pos := k\<rparr>) \<and>
        full ds \<and> (case ds of [] \<Rightarrow> False | c # _ \<Rightarrow> q < length (chunk_data c)) \<and>
        k + q = chunk_pos out + pos + i \<and> drop q (chunks_content ds) = drop (pos + i) (chunks_content cs)"
proof (induction cs arbitrary: pos out)
  case Nil
  then show ?case by simp
next
  case (Cons c cs)
  have d: "drop pos (chunks_content (c # cs)) = drop pos (chunk_data c) @ chunks_content cs" using Cons.prems by simp
  show ?case
  proof (cases "memchr (drop pos (chunk_data c)) ch")
    case (Some i)
    then have i: "pos + i < length (chunk_data c)" using memchr_lt by fastforce
    have "find_char_loop ch (c # cs) pos out = (int (chunk_pos out + pos + i), out\<lparr>pos_chunk := c # cs, pos_pos := pos + i, chunk_pos := chunk_pos out\<rparr>)"
      using Some by simp
    moreover have "memchr (drop pos (chunks_content (c # cs))) ch = Some i" using Some unfolding d by (simp add: memchr_append)
    moreover have "full (c # cs) \<and> (case c # cs of [] \<Rightarrow> False | c # _ \<Rightarrow> pos + i < length (chunk_data c)) \<and> chunk_pos out + (pos + i) = chunk_pos out + pos + i \<and>
      drop (pos + i) (chunks_content (c # cs)) = drop (pos + i) (chunks_content (c # cs))" using i Cons.prems(1) by simp
    ultimately show ?thesis by (simp only: option.case) blast
  next
    case None
    let ?out = "out\<lparr>chunk_pos := chunk_pos out + length (chunk_data c)\<rparr>"
    have s: "find_char_loop ch (c # cs) pos out = find_char_loop ch cs 0 ?out" using None by simp
    have "full cs" "case cs of [] \<Rightarrow> True | c # _ \<Rightarrow> 0 < length (chunk_data c)" using Cons.prems by (auto split: list.splits)
    note IH = Cons.IH [OF this, of ?out]
    show ?thesis
    proof (cases "memchr (chunks_content cs) ch")
      case N: None
      then show ?thesis using IH s None unfolding d by (simp add: memchr_append)
    next
      case S: (Some i)
      then obtain ds q k where r: "find_char_loop ch cs 0 ?out = (int (chunk_pos ?out + i), ?out\<lparr>pos_chunk := ds, pos_pos := q, chunk_pos := k\<rparr>)"
        "full ds" "case ds of [] \<Rightarrow> False | c # _ \<Rightarrow> q < length (chunk_data c)" "k + q = chunk_pos ?out + i" "drop q (chunks_content ds) = drop i (chunks_content cs)"
        using IH by auto
      let ?i = "length (chunk_data c) - pos + i"
      have p: "pos < length (chunk_data c)" using Cons.prems by simp
      have "memchr (drop pos (chunks_content (c # cs))) ch = Some ?i" using S None unfolding d by (simp add: memchr_append)
      moreover have "find_char_loop ch (c # cs) pos out = (int (chunk_pos out + pos + ?i), out\<lparr>pos_chunk := ds, pos_pos := q, chunk_pos := k\<rparr>)"
        using s r(1) p by simp
      moreover have "k + q = chunk_pos out + pos + ?i" "drop q (chunks_content ds) = drop (pos + ?i) (chunks_content (c # cs))" using r(4,5) p by simp_all
      ultimately show ?thesis using r(2,3) by (simp only: option.case) blast
    qed
  qed
qed

lemma find_pos_ok:
  assumes "pos_ok p"
  shows "case memchr (pos_rest p) ch of
      None \<Rightarrow> \<exists>p1. buf_find_pos_of_char ch p = Some (-1, p1)
    | Some i \<Rightarrow> \<exists>p1. buf_find_pos_of_char ch p = Some (int (pos_offset p + i), p1) \<and> pos_ok p1 \<and> pos_chunk p1 \<noteq> [] \<and>
        pos_offset p1 = pos_offset p + i \<and> pos_rest p1 = drop i (pos_rest p)"
proof -
  have pre: "full (pos_chunk p)" "case pos_chunk p of [] \<Rightarrow> True | c # _ \<Rightarrow> pos_pos p < length (chunk_data c)"
    using assms by (auto simp: pos_ok_def split: list.splits)
  have e: "buf_find_pos_of_char ch p = Some (find_char_loop ch (pos_chunk p) (pos_pos p) p)"
    using pre by (auto simp: buf_find_pos_of_char_def split: list.splits)
  note L = find_char_loop_ok [OF pre, of ch p]
  show ?thesis
  proof (cases "memchr (pos_rest p) ch")
    case None
    then show ?thesis using L e by (auto simp: pos_rest_def)
  next
    case (Some i)
    then obtain ds q k where r: "find_char_loop ch (pos_chunk p) (pos_pos p) p =
        (int (chunk_pos p + pos_pos p + i), p\<lparr>pos_chunk := ds, pos_pos := q, chunk_pos := k\<rparr>)"
      "full ds" "case ds of [] \<Rightarrow> False | c # _ \<Rightarrow> q < length (chunk_data c)" "k + q = chunk_pos p + pos_pos p + i"
      "drop q (chunks_content ds) = drop (pos_pos p + i) (chunks_content (pos_chunk p))"
      using L by (auto simp: pos_rest_def)
    let ?p = "p\<lparr>pos_chunk := ds, pos_pos := q, chunk_pos := k\<rparr>"
    have o: "pos_offset ?p = pos_offset p + i" "pos_rest ?p = drop i (pos_rest p)" using r(4,5) by (simp_all add: pos_offset_def pos_rest_def add.commute)
    moreover have "pos_ok ?p" using r(2,3) assms o memchr_lt [OF Some] by (auto simp: pos_ok_def split: list.splits)
    moreover have "pos_chunk ?p \<noteq> []" using r(3) by (auto split: list.splits)
    ultimately show ?thesis using e r(1) Some by (auto simp: pos_offset_def)
  qed
qed

lemma pos_split:
  assumes "pos_ok p" "pos_chunk p \<noteq> []"
  obtains c cs where "pos_chunk p = c # cs" "pos_pos p < length (chunk_data c)" "full (c # cs)"
    "pos_rest p = chunk_data c ! pos_pos p # drop (Suc (pos_pos p)) (chunk_data c) @ chunks_content cs"
proof -
  obtain c cs where c: "pos_chunk p = c # cs" using assms(2) by (cases "pos_chunk p") auto
  with assms(1) have l: "pos_pos p < length (chunk_data c)" "full (c # cs)" by (auto simp: pos_ok_def)
  have "drop (pos_pos p) (chunk_data c) = chunk_data c ! pos_pos p # drop (Suc (pos_pos p)) (chunk_data c)"
    using l by (simp add: Cons_nth_drop_Suc)
  then show ?thesis using that [OF c l] c l by (simp add: pos_rest_def)
qed

lemma pos_inc_ok:
  assumes "pos_ok p" "pos_chunk p \<noteq> []"
  shows "if tl (pos_rest p) = [] then \<exists>p1. buf_pos_inc p = Some (-1, p1)
    else \<exists>p1. buf_pos_inc p = Some (0, p1) \<and> pos_ok p1 \<and> pos_chunk p1 \<noteq> [] \<and> pos_offset p1 = Suc (pos_offset p) \<and> pos_rest p1 = tl (pos_rest p)"
proof -
  obtain c cs where c: "pos_chunk p = c # cs" "pos_pos p < length (chunk_data c)" "full (c # cs)"
    "pos_rest p = chunk_data c ! pos_pos p # drop (Suc (pos_pos p)) (chunk_data c) @ chunks_content cs" using pos_split [OF assms] by blast
  have b: "pos_pos p < INT_BUF_MAX_LEN" using assms(1) c(4) by (simp add: pos_ok_def pos_offset_def)
  have bound: "pos_offset p + length (pos_rest p) \<le> INT_BUF_MAX_LEN" using assms(1) by (simp add: pos_ok_def)
  show ?thesis
  proof (cases "Suc (pos_pos p) = length (chunk_data c)")
    case False
    then show ?thesis using c b bound by (auto simp: buf_pos_inc_def Let_def pos_ok_def pos_rest_def pos_offset_def)
  next
    case True
    show ?thesis
    proof (cases cs)
      case Nil
      then show ?thesis using c b True by (simp add: buf_pos_inc_def Let_def)
    next
      case (Cons d ds)
      then show ?thesis using c b True bound by (simp add: buf_pos_inc_def Let_def pos_ok_def pos_rest_def pos_offset_def)
    qed
  qed
qed

lemma matches_ok:
  "pos_ok p \<Longrightarrow> pos_chunk p \<noteq> [] \<Longrightarrow> buf_matches_at_pos p s = Some (take (length s) (pos_rest p) = s)"
proof (induction s arbitrary: p)
  case Nil
  then show ?case by simp
next
  case (Cons ch s)
  obtain c cs where c: "pos_chunk p = c # cs" "pos_pos p < length (chunk_data c)" "full (c # cs)"
    "pos_rest p = chunk_data c ! pos_pos p # drop (Suc (pos_pos p)) (chunk_data c) @ chunks_content cs" using pos_split [OF Cons.prems] by blast
  have b: "byte_at p = Some (hd (pos_rest p))" "pos_rest p \<noteq> []" using c by (simp_all add: byte_at_def)
  then obtain x xs where x: "pos_rest p = x # xs" by (cases "pos_rest p") auto
  show ?case
  proof (cases "x = ch \<and> s \<noteq> []")
    case False
    then show ?thesis using b x by auto
  next
    case True
    show ?thesis
    proof (cases "xs = []")
      case e: True
      then obtain p1 where "buf_pos_inc p = Some (-1, p1)" using pos_inc_ok [OF Cons.prems] x by auto
      then show ?thesis using b x e True by auto
    next
      case False
      then obtain p1 where "buf_pos_inc p = Some (0, p1)" "pos_ok p1" "pos_chunk p1 \<noteq> []" "pos_rest p1 = xs" using pos_inc_ok [OF Cons.prems] x by auto
      then show ?thesis using b x True Cons.IH [of p1] by simp
    qed
  qed
qed

text \<open>The offset of the first occurrence of a string.\<close>

fun bytes_find :: "bytes \<Rightarrow> bytes \<Rightarrow> nat option" where
  "bytes_find s [] = None"
| "bytes_find s (x # xs) = (if take (length s) (x # xs) = s then Some 0 else map_option Suc (bytes_find s xs))"

lemma bytes_find_skip:
  "bytes_find (ch # s) xs = (case memchr xs ch of None \<Rightarrow> None | Some i \<Rightarrow> map_option ((+) i) (bytes_find (ch # s) (drop i xs)))"
proof (induction xs)
  case (Cons x xs)
  show ?case
  proof (cases "x = ch")
    case True
    have "(+) (0::nat) = (\<lambda>n. n)" by auto
    then show ?thesis using True by (simp add: option.map_ident)
  next
    case False
    have "(\<lambda>n. Suc (i + n)) = (+) (Suc i)" for i by auto
    then show ?thesis using Cons False by (cases "memchr xs ch") (simp_all add: option.map_comp comp_def)
  qed
qed simp

lemma find_string_loop_ok:
  "pos_ok p \<Longrightarrow> s \<noteq> [] \<Longrightarrow>
    find_string_loop s p = Some (case bytes_find s (pos_rest p) of None \<Rightarrow> -1 | Some i \<Rightarrow> int (pos_offset p + i))"
proof (induction "length (pos_rest p)" arbitrary: p rule: less_induct)
  case less
  obtain ch s1 where s: "s = ch # s1" using less.prems by (cases s) auto
  show ?case
  proof (cases "memchr (pos_rest p) ch")
    case None
    then obtain p1 where "buf_find_pos_of_char ch p = Some (-1, p1)" using find_pos_ok [OF less.prems(1), of ch] by auto
    then show ?thesis using None s by (subst find_string_loop.simps) (simp add: bytes_find_skip [of ch s1 "pos_rest p"])
  next
    case (Some i)
    then obtain p1 where p1: "buf_find_pos_of_char ch p = Some (int (pos_offset p + i), p1)" "pos_ok p1" "pos_chunk p1 \<noteq> []"
        "pos_offset p1 = pos_offset p + i" "pos_rest p1 = drop i (pos_rest p)" using find_pos_ok [OF less.prems(1), of ch] by auto
    obtain x xs where x: "pos_rest p1 = x # xs" using pos_split [OF p1(2,3)] by metis
    have sk: "bytes_find s (pos_rest p) = map_option ((+) i) (bytes_find s (x # xs))"
      using bytes_find_skip [of ch s1 "pos_rest p"] Some s x p1(5) by simp
    have off: "chunk_pos p1 + pos_pos p1 \<le> INT_BUF_MAX_LEN" "chunk_pos p1 + pos_pos p1 = pos_offset p + i"
      using p1(2,4) by (simp_all add: pos_ok_def pos_offset_def)
    note m = matches_ok [OF p1(2,3), of s]
    have fc: "(case s of ch # _ \<Rightarrow> ch | [] \<Rightarrow> 0) = ch" using s by simp
    have u: "find_string_loop s p = (if take (length s) (x # xs) = s then Some (int (pos_offset p + i))
        else do { (r, p2) \<leftarrow> buf_pos_inc p1; if r < 0 then Some (-1) else find_string_loop s p2 })"
      using p1(1) m off x fc by (subst find_string_loop.simps) simp
    show ?thesis
    proof (cases "take (length s) (x # xs) = s")
      case True
      then show ?thesis using u sk by simp
    next
      case False
      show ?thesis
      proof (cases "xs = []")
        case e: True
        then obtain p2 where "buf_pos_inc p1 = Some (-1, p2)" using pos_inc_ok [OF p1(2,3)] x by auto
        then show ?thesis using u sk False e by simp
      next
        case ne: False
        then obtain p2 where p2: "buf_pos_inc p1 = Some (0, p2)" "pos_ok p2" "pos_offset p2 = Suc (pos_offset p1)" "pos_rest p2 = xs"
          using pos_inc_ok [OF p1(2,3)] x by auto
        have "length (pos_rest p2) < length (pos_rest p)" using p2(4) x p1(5) by (metis length_Cons length_drop lessI less_le_trans diff_le_self)
        from less.hyps [OF this p2(2) less.prems(2)] show ?thesis
          using u sk False p2 p1(4) by (simp split: option.splits)
      qed
    qed
  qed
qed

lemma find_nul_loop_ok:
  assumes "pos_ok p"
  shows "find_string_loop [] p = Some (case memchr (pos_rest p) 0 of None \<Rightarrow> -1 | Some i \<Rightarrow> int (pos_offset p + i))"
proof (cases "memchr (pos_rest p) 0")
  case None
  then obtain p1 where "buf_find_pos_of_char 0 p = Some (-1, p1)" using find_pos_ok [OF assms, of 0] by auto
  then show ?thesis using None by (subst find_string_loop.simps) simp
next
  case (Some i)
  then obtain p1 where p1: "buf_find_pos_of_char 0 p = Some (int (pos_offset p + i), p1)" "pos_ok p1"
        "pos_offset p1 = pos_offset p + i" using find_pos_ok [OF assms, of 0] by auto
  then show ?thesis using Some by (subst find_string_loop.simps) (simp add: pos_ok_def pos_offset_def)
qed

lemma buf_find_string_ok:
  assumes "buf_wf buf" "full (chunks buf)"
  shows "buf_find_string_offset buf s =
    Some (case if s = [] then memchr (buf_content buf) 0 else bytes_find s (buf_content buf) of None \<Rightarrow> -1 | Some i \<Rightarrow> int i)"
proof -
  have p: "pos_ok (buf_pos_init buf)" "pos_rest (buf_pos_init buf) = buf_content buf" "pos_offset (buf_pos_init buf) = 0"
    using pos_init_ok [OF assms] by simp_all
  show ?thesis
  proof (cases "s = []")
    case True
    then show ?thesis using find_nul_loop_ok [OF p(1)] p(2,3) unfolding buf_find_string_offset_def by (simp cong: option.case_cong)
  next
    case False
    then show ?thesis using find_string_loop_ok [OF p(1) False] p(2,3) unfolding buf_find_string_offset_def by (simp cong: option.case_cong)
  qed
qed

lemma buf_peek_startswith_ok:
  "buf_wf buf \<Longrightarrow> buf_peek_startswith buf cmd = Some (length cmd \<le> PEEK_BUF_STARTSWITH_MAX \<and> take (length cmd) (buf_content buf) = cmd)"
proof -
  assume wf: "buf_wf buf"
  then have "datalen buf = length (buf_content buf)" by (simp add: buf_wf_def)
  moreover have "length cmd \<le> length (buf_content buf)" if "take (length cmd) (buf_content buf) = cmd"
    using arg_cong [OF that, of length] by simp
  ultimately show ?thesis using buf_peek_ok [OF wf, of "length cmd"] unfolding buf_peek_startswith_def
    by (cases "cmd = []"; cases "length cmd \<le> PEEK_BUF_STARTSWITH_MAX"; cases "length cmd \<le> length (buf_content buf)") auto
qed

end
