(* ===== verification/Buffers_Refine.thy ===== *)
theory Buffers_Refine
  imports Buffers_Ops
begin

text \<open>
  A run of operations on many buffers (\<open>src/lib/buf/buffers.c\<close>) against the same run on byte strings, and reading and writing file
  descriptors (\<open>src/lib/net/buffers_net.c\<close>): no byte is lost, doubled or out of order.
\<close>

section \<open>Runs of operations\<close>

text \<open>Any number of buffers, known by their positions; a caller that uses one buffer as source and target breaks the contract (\<open>None\<close>). A result is a number, bytes, and the
  length that some operations store. \<open>buf_pullup\<close> gives the whole first chunk; what was asked for counts as the result.\<close>

datatype buf_op = Op_New "nat option" | Op_Add nat bytes | Op_Drain nat nat | Op_Peek nat nat | Op_Get nat nat | Op_Extract nat | Op_Pullup nat nat
  | Op_Clear nat | Op_Copy nat nat | Op_Move nat nat nat | Op_Move_All nat nat | Op_Find nat bytes | Op_Starts nat bytes | Op_Line nat nat

type_synonym buf_result = "int \<times> bytes \<times> nat"

fun do_op :: "buf_op \<Rightarrow> buf_t list \<Rightarrow> alloc_t \<Rightarrow> (buf_result \<times> buf_t list \<times> alloc_t) option" where
  "do_op (Op_New cap) bs a = map_option (\<lambda>b. ((0, [], 0), bs @ [b], a)) (case cap of None \<Rightarrow> Some buf_new | Some n \<Rightarrow> buf_new_with_capacity n)"
| "do_op (Op_Add i s) bs a = (if i < length bs then map_option (\<lambda>(r, b, a1). ((r, [], 0), bs[i := b], a1)) (buf_add (bs ! i) s a) else None)"
| "do_op (Op_Drain i n) bs a = (if i < length bs then map_option (\<lambda>(b, a1). ((0, [], 0), bs[i := b], a1)) (buf_drain (bs ! i) n a) else None)"
| "do_op (Op_Peek i n) bs a = (if i < length bs then map_option (\<lambda>x. ((0, x, 0), bs, a)) (buf_peek (bs ! i) n) else None)"
| "do_op (Op_Get i n) bs a = (if i < length bs then map_option (\<lambda>(r, x, b, a1). ((r, x, 0), bs[i := b], a1)) (buf_get_bytes (bs ! i) n a) else None)"
| "do_op (Op_Extract i) bs a = (if i < length bs then map_option (\<lambda>x. ((0, x, 0), bs, a)) (buf_extract (bs ! i)) else None)"
| "do_op (Op_Pullup i n) bs a =
     (if i < length bs then map_option (\<lambda>(x, b, a1). ((case x of None \<Rightarrow> (0, [], 0) | Some y \<Rightarrow> (1, take n y, 0)), bs[i := b], a1)) (buf_pullup (bs ! i) n a) else None)"
| "do_op (Op_Clear i) bs a = (if i < length bs then map_option (\<lambda>(b, a1). ((0, [], 0), bs[i := b], a1)) (buf_clear (bs ! i) a) else None)"
| "do_op (Op_Copy i j) bs a =
     (if i < length bs \<and> j < length bs \<and> i \<noteq> j then map_option (\<lambda>(b, a1). ((0, [], 0), bs[i := b], a1)) (buf_set_to_copy (Some (bs ! i)) (bs ! j) a) else None)"
| "do_op (Op_Move i j n) bs a =
     (if i < length bs \<and> j < length bs \<and> i \<noteq> j
      then map_option (\<lambda>(r, k, b, c, a1). ((r, [], k), bs[i := b, j := c], a1)) (buf_move_to_buf (bs ! i) (bs ! j) n a) else None)"
| "do_op (Op_Move_All i j) bs a =
     (if i < length bs \<and> j < length bs \<and> i \<noteq> j
      then (case buf_move_all (bs ! i) (bs ! j) of (k, b, c) \<Rightarrow> Some ((0, [], k), bs[i := b, j := c], a)) else None)"
| "do_op (Op_Find i s) bs a = (if i < length bs then map_option (\<lambda>r. ((r, [], 0), bs, a)) (buf_find_string_offset (bs ! i) s) else None)"
| "do_op (Op_Starts i s) bs a = (if i < length bs then map_option (\<lambda>r. ((of_bool r, [], 0), bs, a)) (buf_peek_startswith (bs ! i) s) else None)"
| "do_op (Op_Line i n) bs a = (if i < length bs then map_option (\<lambda>(r, x, k, b, a1). ((r, x, k), bs[i := b], a1)) (buf_get_line (bs ! i) n a) else None)"

text \<open>The same on byte strings.\<close>

fun spec_op :: "buf_op \<Rightarrow> bytes list \<Rightarrow> (buf_result \<times> bytes list) option" where
  "spec_op (Op_New cap) xs = (case cap of None \<Rightarrow> Some ((0, [], 0), xs @ [[]])
     | Some n \<Rightarrow> if n \<le> SIZE_T_CEILING - CHUNK_OVERHEAD then Some ((0, [], 0), xs @ [[]]) else None)"
| "spec_op (Op_Add i s) xs =
     (if \<not> i < length xs then None
      else if s = [] then Some ((int (length (xs ! i)), [], 0), xs)
      else if length s > INT_BUF_MAX_LEN then None
      else if length (xs ! i) + length s > INT_BUF_MAX_LEN then Some ((-1, [], 0), xs)
      else Some ((int (length (xs ! i @ s)), [], 0), xs[i := xs ! i @ s]))"
| "spec_op (Op_Drain i n) xs = (if i < length xs \<and> n \<le> length (xs ! i) then Some ((0, [], 0), xs[i := drop n (xs ! i)]) else None)"
| "spec_op (Op_Peek i n) xs = (if i < length xs \<and> n \<le> length (xs ! i) then Some ((0, take n (xs ! i), 0), xs) else None)"
| "spec_op (Op_Get i n) xs =
     (if i < length xs \<and> n \<le> length (xs ! i) then Some ((int (length (xs ! i) - n), take n (xs ! i), 0), xs[i := drop n (xs ! i)]) else None)"
| "spec_op (Op_Extract i) xs = (if i < length xs then Some ((0, xs ! i, 0), xs) else None)"
| "spec_op (Op_Pullup i n) xs = (if i < length xs then Some (if xs ! i = [] then (0, [], 0) else (1, take n (xs ! i), 0), xs) else None)"
| "spec_op (Op_Clear i) xs = (if i < length xs then Some ((0, [], 0), xs[i := []]) else None)"
| "spec_op (Op_Copy i j) xs = (if i < length xs \<and> j < length xs \<and> i \<noteq> j then Some ((0, [], 0), xs[i := xs ! j]) else None)"
| "spec_op (Op_Move i j n) xs =
     (if \<not> (i < length xs \<and> j < length xs \<and> i \<noteq> j) then None
      else if length (xs ! i) + n > INT_BUF_MAX_LEN then Some ((-1, [], n), xs)
      else let k = min n (length (xs ! j)) in Some ((int k, [], n - k), xs[i := xs ! i @ take k (xs ! j), j := drop k (xs ! j)]))"
| "spec_op (Op_Move_All i j) xs =
     (if \<not> (i < length xs \<and> j < length xs \<and> i \<noteq> j) then None
      else if length (xs ! i) + length (xs ! j) > INT_BUF_MAX_LEN then Some ((0, [], 0), xs)
      else Some ((0, [], length (xs ! j)), xs[i := xs ! i @ xs ! j, j := []]))"
| "spec_op (Op_Find i s) xs =
     (if i < length xs then Some ((case if s = [] then memchr (xs ! i) 0 else bytes_find s (xs ! i) of None \<Rightarrow> -1 | Some k \<Rightarrow> int k, [], 0), xs) else None)"
| "spec_op (Op_Starts i s) xs =
     (if i < length xs then Some ((of_bool (length s \<le> PEEK_BUF_STARTSWITH_MAX \<and> take (length s) (xs ! i) = s), [], 0), xs) else None)"
| "spec_op (Op_Line i n) xs =
     (if \<not> i < length xs then None
      else case memchr (xs ! i) 10 of
        None \<Rightarrow> Some ((0, [], n), xs)
      | Some k \<Rightarrow> if n < k + 2 then Some ((-1, [], k + 2), xs) else Some ((1, take (k + 1) (xs ! i), k + 1), xs[i := drop (k + 1) (xs ! i)]))"

fun run_ops :: "buf_op list \<Rightarrow> buf_t list \<Rightarrow> alloc_t \<Rightarrow> (buf_result list \<times> buf_t list \<times> alloc_t) option" where
  "run_ops [] bs a = Some ([], bs, a)"
| "run_ops (op # ops) bs a =
     do { (r, bs1, a1) \<leftarrow> do_op op bs a; (rs, bs2, a2) \<leftarrow> run_ops ops bs1 a1; Some (r # rs, bs2, a2) }"

fun spec_ops :: "buf_op list \<Rightarrow> bytes list \<Rightarrow> (buf_result list \<times> bytes list) option" where
  "spec_ops [] xs = Some ([], xs)"
| "spec_ops (op # ops) xs = do { (r, xs1) \<leftarrow> spec_op op xs; (rs, xs2) \<leftarrow> spec_ops ops xs1; Some (r # rs, xs2) }"

text \<open>The buffers are well-formed, have no empty chunk, and are accounted for.\<close>

definition total :: "buf_t list \<Rightarrow> nat" where
  "total bs = sum_list (map buf_allocation bs)"

definition good :: "buf_t list \<Rightarrow> alloc_t \<Rightarrow> bool" where
  "good bs a \<longleftrightarrow> (\<forall>b \<in> set bs. buf_wf b \<and> full (chunks b)) \<and> has a (total bs)"

lemma good_nth:
  assumes "good bs a" "i < length bs"
  shows "buf_wf (bs ! i)" "full (chunks (bs ! i))" "has a (buf_allocation (bs ! i))"
proof -
  have "buf_allocation (bs ! i) \<le> total bs" unfolding total_def using assms(2) by (intro member_le_sum_list) simp_all
  then show "buf_wf (bs ! i)" "full (chunks (bs ! i))" "has a (buf_allocation (bs ! i))" using assms by (auto simp: good_def has_def)
qed

lemma total_update: "i < length bs \<Longrightarrow> total (bs[i := b]) + buf_allocation (bs ! i) = total bs + buf_allocation b"
proof (induction bs arbitrary: i)
  case (Cons c bs)
  then show ?case by (cases i) (simp_all add: total_def)
qed simp

text \<open>What an operation did is right.\<close>

definition done_right :: "buf_t list \<Rightarrow> alloc_t \<Rightarrow> (buf_result \<times> buf_t list \<times> alloc_t) option \<Rightarrow> (buf_result \<times> bytes list) option \<Rightarrow> bool" where
  "done_right bs a x y \<longleftrightarrow> (case x of None \<Rightarrow> y = None
     | Some (r, bs1, a1) \<Rightarrow> y = Some (r, map buf_content bs1) \<and> good bs1 a1 \<and> moved (total bs) a (total bs1) a1)"

lemma right_same: "good bs a \<Longrightarrow> y = Some (r, map buf_content bs) \<Longrightarrow> done_right bs a (Some (r, bs, a)) y"
  by (simp add: done_right_def)

lemma right_one:
  assumes g: "good bs a" and i: "i < length bs" and b: "buf_wf b" "full (chunks b)" and mv: "moved (buf_allocation (bs ! i)) a (buf_allocation b) a1"
    and y: "y = Some (r, (map buf_content bs)[i := buf_content b])"
  shows "done_right bs a (Some (r, bs[i := b], a1)) y"
proof -
  have "moved (total bs) a (total (bs[i := b])) a1" using total_update [OF i, of b] mv by (simp add: moved_def)
  moreover from this g have "good (bs[i := b]) a1" using b by (auto simp: good_def moved_def has_def dest!: set_update_subset_insert [THEN subsetD])
  ultimately show ?thesis using y by (simp add: done_right_def map_update)
qed

lemma right_two:
  assumes g: "good bs a" and i: "i < length bs" "j < length bs" "i \<noteq> j" and b: "buf_wf b" "full (chunks b)" "buf_wf c" "full (chunks c)"
    and mv: "moved (buf_allocation (bs ! i) + buf_allocation (bs ! j)) a (buf_allocation b + buf_allocation c) a1"
    and y: "y = Some (r, (map buf_content bs)[i := buf_content b, j := buf_content c])"
  shows "done_right bs a (Some (r, bs[i := b, j := c], a1)) y"
proof -
  have "total (bs[i := b, j := c]) + buf_allocation (bs ! j) = total (bs[i := b]) + buf_allocation c"
    using total_update [of j "bs[i := b]" c] i by simp
  then have "moved (total bs) a (total (bs[i := b, j := c])) a1" using total_update [OF i(1), of b] mv by (simp add: moved_def)
  moreover from this g have "good (bs[i := b, j := c]) a1" using b by (auto simp: good_def moved_def has_def dest!: set_update_subset_insert [THEN subsetD])
  ultimately show ?thesis using y by (simp add: done_right_def map_update)
qed

lemma total_two: "good bs a \<Longrightarrow> i < length bs \<Longrightarrow> j < length bs \<Longrightarrow> i \<noteq> j \<Longrightarrow> has a (buf_allocation (bs ! i) + buf_allocation (bs ! j))"
proof -
  assume g: "good bs a" and i: "i < length bs" "j < length bs" "i \<noteq> j"
  have "buf_allocation (bs ! j) \<le> total (bs[i := buf_new])" unfolding total_def
    using i nth_mem [of j "bs[i := buf_new]"] by (intro member_le_sum_list) simp_all
  then show ?thesis using total_update [OF i(1), of buf_new] g by (simp add: good_def has_def buf_new_def buf_allocation_def)
qed


lemma new_ok:
  "(case cap of None \<Rightarrow> True | Some n \<Rightarrow> n \<le> SIZE_T_CEILING - CHUNK_OVERHEAD) \<Longrightarrow>
    \<exists>b. (case cap of None \<Rightarrow> Some buf_new | Some n \<Rightarrow> buf_new_with_capacity n) = Some b \<and> buf_wf b \<and> chunks b = []"
proof (cases cap)
  case None
  then show ?thesis by (simp add: buf_new_def buf_wf_def buf_content_def)
next
  case (Some n)
  moreover assume "case cap of None \<Rightarrow> True | Some n \<Rightarrow> n \<le> SIZE_T_CEILING - CHUNK_OVERHEAD"
  ultimately have n: "n \<le> SIZE_T_CEILING - CHUNK_OVERHEAD" by simp
  obtain k where "buf_preferred_chunk_size n = Some k" "256 \<le> k"
  proof (cases "CHUNK_ALLOC_SIZE n \<ge> MAX_CHUNK_ALLOC")
    case True
    then show ?thesis using n by (intro that [of "CHUNK_ALLOC_SIZE n"]) (simp_all add: buf_preferred_chunk_size_def)
  next
    case False
    then show ?thesis using that preferred_ok [of n] by (auto simp: CHUNK_ALLOC_SIZE_def)
  qed
  then show ?thesis using Some by (simp add: buf_new_with_capacity_def buf_new_def buf_wf_def buf_content_def)
qed

lemma right_none: "done_right bs a None None"
  by (simp add: done_right_def)

lemma full_empty: "buf_wf b \<Longrightarrow> full (chunks b) \<Longrightarrow> buf_content b = [] \<longleftrightarrow> chunks b = []"
  by (simp add: buf_content_def full_content)

lemma step_new: "good bs a \<Longrightarrow> done_right bs a (do_op (Op_New cap) bs a) (spec_op (Op_New cap) (map buf_content bs))"
proof (cases "case cap of None \<Rightarrow> True | Some n \<Rightarrow> n \<le> SIZE_T_CEILING - CHUNK_OVERHEAD")
  case True
  assume g: "good bs a"
  obtain b where b: "(case cap of None \<Rightarrow> Some buf_new | Some n \<Rightarrow> buf_new_with_capacity n) = Some b" "buf_wf b" "chunks b = []" using new_ok [OF True] by blast
  have "total (bs @ [b]) = total bs" "buf_content b = []" using b(3) by (simp_all add: total_def buf_allocation_def buf_content_def)
  then have "done_right bs a (Some ((0, [], 0), bs @ [b], a)) (Some ((0, [], 0), map buf_content bs @ [[]]))" using g b by (auto simp: done_right_def good_def)
  moreover have "spec_op (Op_New cap) (map buf_content bs) = Some ((0, [], 0), map buf_content bs @ [[]])" using True by (cases cap) simp_all
  ultimately show ?thesis using b(1) by simp
next
  case False
  then obtain n where "cap = Some n" "\<not> n \<le> SIZE_T_CEILING - CHUNK_OVERHEAD" by (cases cap) auto
  then show ?thesis by (simp add: buf_new_with_capacity_def buf_preferred_chunk_size_def done_right_def)
qed

lemma buf_add_too_long:
  assumes "buf_wf buf" "length string > INT_BUF_MAX_LEN"
  shows "buf_add buf string a = None"
proof -
  obtain b a1 where b: "buf_add_loop string buf a = Some (b, a1)" "buf_fit b" "buf_content b = buf_content buf @ string"
    using add_loop_ok assms wf_fit by blast
  then have "\<not> datalen b \<le> INT_BUF_MAX_LEN" using assms(2) by (simp add: buf_fit_def)
  then show ?thesis using b(1) assms by (auto simp: buf_add_def buf_wf_def)
qed

lemma step_add: "good bs a \<Longrightarrow> done_right bs a (do_op (Op_Add i s) bs a) (spec_op (Op_Add i s) (map buf_content bs))"
proof (cases "i < length bs")
  case True
  assume g: "good bs a"
  note w = good_nth [OF g True]
  have dl: "datalen (bs ! i) = length (buf_content (bs ! i))" using w(1) by (simp add: buf_wf_def)
  consider (long) "length s > INT_BUF_MAX_LEN" | (empty) "s = []"
    | (full) "s \<noteq> []" "length s \<le> INT_BUF_MAX_LEN" "datalen (bs ! i) + length s > INT_BUF_MAX_LEN"
    | (ok) "s \<noteq> []" "length s \<le> INT_BUF_MAX_LEN" "\<not> datalen (bs ! i) + length s > INT_BUF_MAX_LEN" by linarith
  then show ?thesis
  proof cases
    case long
    then show ?thesis using True buf_add_too_long [OF w(1) long, of a] by (auto simp: done_right_def)
  next
    case empty
    then show ?thesis using True g dl by (simp add: buf_add_def done_right_def)
  next
    case full
    then show ?thesis using True g dl buf_add_ok [OF w(1) full(2), of a] by (simp add: done_right_def)
  next
    case ok
    then obtain b a1 where b: "buf_add (bs ! i) s a = Some (int (datalen (bs ! i) + length s), b, a1)" "buf_wf b"
      "buf_content b = buf_content (bs ! i) @ s" "moved (buf_allocation (bs ! i)) a (buf_allocation b) a1"
      using buf_add_ok [OF w(1) ok(2), of a] by auto
    show ?thesis using True b(1) right_one [OF g True b(2) full_buf_add [OF w(1,2) b(1)] b(4)] ok dl b(3) by simp
  qed
qed (simp add: done_right_def)


lemma step_drain: "good bs a \<Longrightarrow> done_right bs a (do_op (Op_Drain i n) bs a) (spec_op (Op_Drain i n) (map buf_content bs))"
proof (cases "i < length bs \<and> n \<le> length (buf_content (bs ! i))")
  case True
  assume g: "good bs a"
  have i: "i < length bs" using True by simp
  obtain b a1 where b: "buf_drain (bs ! i) n a = Some (b, a1)" "buf_wf b" "buf_content b = drop n (buf_content (bs ! i))"
    "moved (buf_allocation (bs ! i)) a (buf_allocation b) a1" "full (chunks b)" using buf_drain_ok [of "bs ! i" a n] good_nth [OF g i] True by blast
  show ?thesis using True b(1,3) right_one [OF g i b(2,5,4)] by simp
next
  case False
  assume g: "good bs a"
  then show ?thesis using False buf_drain_refused [of "bs ! i" n a] good_nth(1) [OF g] by (cases "i < length bs") (simp_all add: right_none)
qed

lemma step_peek: "good bs a \<Longrightarrow> done_right bs a (do_op (Op_Peek i n) bs a) (spec_op (Op_Peek i n) (map buf_content bs))"
  using buf_peek_ok [of "bs ! i" n] good_nth(1) [of bs a i] by (cases "i < length bs") (simp_all add: right_none right_same)

lemma step_extract: "good bs a \<Longrightarrow> done_right bs a (do_op (Op_Extract i) bs a) (spec_op (Op_Extract i) (map buf_content bs))"
  using buf_peek_ok [of "bs ! i" "datalen (bs ! i)"] good_nth(1) [of bs a i]
  by (cases "i < length bs") (auto simp: right_none buf_extract_def buf_wf_def intro: right_same)

lemma step_get: "good bs a \<Longrightarrow> done_right bs a (do_op (Op_Get i n) bs a) (spec_op (Op_Get i n) (map buf_content bs))"
proof (cases "i < length bs \<and> n \<le> length (buf_content (bs ! i))")
  case True
  assume g: "good bs a"
  have i: "i < length bs" using True by simp
  obtain b a1 where b: "buf_get_bytes (bs ! i) n a = Some (int (length (buf_content (bs ! i)) - n), take n (buf_content (bs ! i)), b, a1)" "buf_wf b"
    "buf_content b = drop n (buf_content (bs ! i))" "moved (buf_allocation (bs ! i)) a (buf_allocation b) a1" "full (chunks b)"
    using buf_get_bytes_ok [of "bs ! i" a n] good_nth [OF g i] True by blast
  show ?thesis using True b(1,3) right_one [OF g i b(2,5,4)] by simp
next
  case False
  assume g: "good bs a"
  then show ?thesis using False buf_get_bytes_refused [of "bs ! i" n a] good_nth(1) [OF g] by (cases "i < length bs") (simp_all add: right_none)
qed

lemma step_pullup: "good bs a \<Longrightarrow> done_right bs a (do_op (Op_Pullup i n) bs a) (spec_op (Op_Pullup i n) (map buf_content bs))"
proof (cases "i < length bs")
  case i: True
  assume g: "good bs a"
  obtain b a1 r where b: "buf_pullup (bs ! i) n a = Some (r, b, a1)" "buf_wf b" "buf_content b = buf_content (bs ! i)"
    "moved (buf_allocation (bs ! i)) a (buf_allocation b) a1" "full (chunks b)"
    "case r of None \<Rightarrow> buf_content (bs ! i) = [] | Some y \<Rightarrow> y \<noteq> [] \<and> take (length y) (buf_content (bs ! i)) = y \<and>
       min n (length (buf_content (bs ! i))) \<le> length y" using buf_pullup_ok [of "bs ! i" a n] good_nth [OF g i] by blast
  have up: "(map buf_content bs)[i := buf_content b] = map buf_content bs" using b(3) i by (metis list_update_id nth_map)
  have "(case r of None \<Rightarrow> (0, [], 0) | Some y \<Rightarrow> (1, take n y, 0)) = (if buf_content (bs ! i) = [] then (0, [], 0) else (1::int, take n (buf_content (bs ! i)), 0::nat))"
  proof (cases r)
    case None
    then show ?thesis using b(6) by simp
  next
    case (Some y)
    then have y: "y \<noteq> []" "take (length y) (buf_content (bs ! i)) = y" "min n (length (buf_content (bs ! i))) \<le> length y" using b(6) by simp_all
    have "take n y = take n (take (length y) (buf_content (bs ! i)))" by (simp only: y(2))
    also have "\<dots> = take n (buf_content (bs ! i))" using y(3) by (simp add: min_def split: if_splits)
    finally show ?thesis using Some y(1,2) by auto
  qed
  then have "do_op (Op_Pullup i n) bs a = Some (if buf_content (bs ! i) = [] then (0, [], 0) else (1, take n (buf_content (bs ! i)), 0), bs[i := b], a1)"
    using i b(1) by simp
  moreover have "spec_op (Op_Pullup i n) (map buf_content bs) =
      Some (if buf_content (bs ! i) = [] then (0, [], 0) else (1, take n (buf_content (bs ! i)), 0), (map buf_content bs)[i := buf_content b])"
    using i up by simp
  ultimately show ?thesis using right_one [OF g i b(2,5,4)] by simp
qed (simp add: right_none)

lemma step_clear: "good bs a \<Longrightarrow> done_right bs a (do_op (Op_Clear i) bs a) (spec_op (Op_Clear i) (map buf_content bs))"
proof (cases "i < length bs")
  case i: True
  assume g: "good bs a"
  obtain b a1 where b: "buf_clear (bs ! i) a = Some (b, a1)" "buf_wf b" "chunks b = []" "moved (buf_allocation (bs ! i)) a 0 a1"
    using buf_clear_ok [of "bs ! i" a] good_nth [OF g i] by blast
  then have "moved (buf_allocation (bs ! i)) a (buf_allocation b) a1" "buf_content b = []" "full (chunks b)" by (simp_all add: buf_allocation_def buf_content_def)
  from right_one [OF g i b(2) this(3,1)] this(2) show ?thesis using i b(1) by simp
qed (simp add: right_none)

lemma step_copy: "good bs a \<Longrightarrow> done_right bs a (do_op (Op_Copy i j) bs a) (spec_op (Op_Copy i j) (map buf_content bs))"
proof (cases "i < length bs \<and> j < length bs \<and> i \<noteq> j")
  case True
  assume g: "good bs a"
  have i: "i < length bs" and j: "j < length bs" using True by simp_all
  obtain a1 where c: "buf_set_to_copy (Some (bs ! i)) (bs ! j) a = Some (bs ! j, a1)" "moved (buf_allocation (bs ! i)) a (buf_allocation (bs ! j)) a1"
    using buf_set_to_copy_ok [of "bs ! i" "bs ! j" a] good_nth [OF g i] good_nth [OF g j] by blast
  show ?thesis using True c(1) right_one [OF g i good_nth(1,2) [OF g j] c(2)] by simp
qed (auto simp: right_none)

lemma step_move: "good bs a \<Longrightarrow> done_right bs a (do_op (Op_Move i j n) bs a) (spec_op (Op_Move i j n) (map buf_content bs))"
proof (cases "i < length bs \<and> j < length bs \<and> i \<noteq> j")
  case True
  assume g: "good bs a"
  have i: "i < length bs" "j < length bs" "i \<noteq> j" using True by simp_all
  note w = good_nth(1,2) [OF g i(1)] good_nth(1,2) [OF g i(2)]
  have dl: "datalen (bs ! i) = length (buf_content (bs ! i))" "datalen (bs ! j) = length (buf_content (bs ! j))"
    "datalen (bs ! i) \<le> INT_BUF_MAX_LEN" using w by (simp_all add: buf_wf_def)
  show ?thesis
  proof (cases "length (buf_content (bs ! i)) + n > INT_BUF_MAX_LEN")
    case refused: True
    then have "buf_move_to_buf (bs ! i) (bs ! j) n a = Some (-1, n, bs ! i, bs ! j, a)" using dl by (auto simp: buf_move_to_buf_def)
    then show ?thesis using refused i g by (simp add: right_same)
  next
    case False
    define k where "k = min n (length (buf_content (bs ! j)))"
    have k: "k \<le> length (buf_content (bs ! j))" "length (buf_content (bs ! i)) + k \<le> INT_BUF_MAX_LEN" using False by (auto simp: k_def)
    obtain b c a1 where m: "move_loop k (bs ! i) (bs ! j) a = Some (b, c, a1)" "buf_wf b" "buf_wf c"
      "buf_content b = buf_content (bs ! i) @ take k (buf_content (bs ! j))" "buf_content c = drop k (buf_content (bs ! j))"
      "moved (buf_allocation (bs ! i) + buf_allocation (bs ! j)) a (buf_allocation b + buf_allocation c) a1" "full (chunks b)" "full (chunks c)"
      using move_loop_ok [OF w(1,3) total_two [OF g i] k] w by blast
    have "buf_move_to_buf (bs ! i) (bs ! j) n a = Some (int k, n - k, b, c, a1)" using dl False m(1) by (simp add: buf_move_to_buf_def k_def Let_def)
    then have "do_op (Op_Move i j n) bs a = Some ((int k, [], n - k), bs[i := b, j := c], a1)" using i by simp
    moreover have "spec_op (Op_Move i j n) (map buf_content bs) = Some ((int k, [], n - k), (map buf_content bs)[i := buf_content b, j := buf_content c])"
      using i False m(4,5) by (simp add: Let_def k_def [symmetric])
    ultimately show ?thesis using right_two [OF g i m(2,7,3,8,6)] by simp
  qed
qed (auto simp: right_none)

lemma step_move_all: "good bs a \<Longrightarrow> done_right bs a (do_op (Op_Move_All i j) bs a) (spec_op (Op_Move_All i j) (map buf_content bs))"
proof (cases "i < length bs \<and> j < length bs \<and> i \<noteq> j")
  case True
  assume g: "good bs a"
  have i: "i < length bs" "j < length bs" "i \<noteq> j" using True by simp_all
  note w = good_nth(1,2) [OF g i(1)] good_nth(1,2) [OF g i(2)]
  note M = buf_move_all_ok [OF w(1,3)]
  have same: "bs[i := bs ! i, j := bs ! j] = bs" by simp
  show ?thesis
  proof (cases "buf_content (bs ! j) = [] \<or> length (buf_content (bs ! i)) + length (buf_content (bs ! j)) > INT_BUF_MAX_LEN")
    case none: True
    then have "do_op (Op_Move_All i j) bs a = Some ((0, [], 0), bs, a)" using M i same by simp
    moreover have "spec_op (Op_Move_All i j) (map buf_content bs) = Some ((0, [], 0), map buf_content bs)"
    proof (cases "buf_content (bs ! j) = []")
      case True
      moreover have "(map buf_content bs)[i := buf_content (bs ! i), j := buf_content (bs ! j)] = map buf_content bs" using i
        by (metis list_update_id nth_map)
      ultimately show ?thesis using i by simp
    next
      case False
      then show ?thesis using none i by simp
    qed
    ultimately show ?thesis using g by (simp add: right_same)
  next
    case False
    then obtain b c where m: "buf_move_all (bs ! i) (bs ! j) = (length (buf_content (bs ! j)), b, c)" "buf_wf b" "buf_wf c"
      "buf_content b = buf_content (bs ! i) @ buf_content (bs ! j)" "chunks c = []"
      "buf_allocation b + buf_allocation c = buf_allocation (bs ! i) + buf_allocation (bs ! j)" "full (chunks b)" using M w by auto
    have c: "full (chunks c)" "buf_content c = []" using m(5) by (simp_all add: buf_content_def)
    have mv: "moved (buf_allocation (bs ! i) + buf_allocation (bs ! j)) a (buf_allocation b + buf_allocation c) a" by (simp add: m(6))
    have "do_op (Op_Move_All i j) bs a = Some ((0, [], length (buf_content (bs ! j))), bs[i := b, j := c], a)" using m(1) i by simp
    then show ?thesis using right_two [OF g i m(2,7,3) c(1) mv] m(4) c(2) i False by simp
  qed
qed (auto simp: right_none)

lemma step_find: "good bs a \<Longrightarrow> done_right bs a (do_op (Op_Find i s) bs a) (spec_op (Op_Find i s) (map buf_content bs))"
  using buf_find_string_ok [of "bs ! i" s] good_nth(1,2) [of bs a i] by (cases "i < length bs") (simp_all add: right_none right_same)

lemma step_starts: "good bs a \<Longrightarrow> done_right bs a (do_op (Op_Starts i s) bs a) (spec_op (Op_Starts i s) (map buf_content bs))"
  using buf_peek_startswith_ok [of "bs ! i" s] good_nth(1) [of bs a i] by (cases "i < length bs") (simp_all add: right_none right_same)

lemma step_line: "good bs a \<Longrightarrow> done_right bs a (do_op (Op_Line i n) bs a) (spec_op (Op_Line i n) (map buf_content bs))"
proof (cases "i < length bs")
  case i: True
  assume g: "good bs a"
  note L = buf_get_line_ok [OF good_nth(1,3,2) [OF g i], of n]
  show ?thesis
  proof (cases "memchr (buf_content (bs ! i)) 10")
    case None
    then show ?thesis using L i g by (simp add: right_same)
  next
    case (Some k)
    show ?thesis
    proof (cases "n < k + 2")
      case True
      then show ?thesis using L i g Some by (simp add: right_same)
    next
      case False
      then obtain b a1 where b: "buf_get_line (bs ! i) n a = Some (1, take (k + 1) (buf_content (bs ! i)), k + 1, b, a1)" "buf_wf b"
        "buf_content b = drop (k + 1) (buf_content (bs ! i))" "moved (buf_allocation (bs ! i)) a (buf_allocation b) a1" "full (chunks b)"
        using L Some by auto
      show ?thesis using i Some False b(1,3) right_one [OF g i b(2,5,4)] by simp
    qed
  qed
qed (simp add: right_none)

lemma step_right: "good bs a \<Longrightarrow> done_right bs a (do_op op bs a) (spec_op op (map buf_content bs))"
proof -
  assume g: "good bs a"
  show ?thesis
    by (cases op) (simp_all only: step_new [OF g] step_add [OF g] step_drain [OF g] step_peek [OF g] step_get [OF g] step_extract [OF g] step_pullup [OF g]
      step_clear [OF g] step_copy [OF g] step_move [OF g] step_move_all [OF g] step_find [OF g] step_starts [OF g] step_line [OF g])
qed

lemma run_right:
  "good bs a \<Longrightarrow> case run_ops ops bs a of
      None \<Rightarrow> spec_ops ops (map buf_content bs) = None
    | Some (rs, bs1, a1) \<Rightarrow> spec_ops ops (map buf_content bs) = Some (rs, map buf_content bs1) \<and> good bs1 a1 \<and> moved (total bs) a (total bs1) a1"
proof (induction ops arbitrary: bs a)
  case Nil
  then show ?case by simp
next
  case (Cons op ops)
  note S = step_right [OF Cons.prems, of op]
  show ?case
  proof (cases "do_op op bs a")
    case None
    then show ?thesis using S by (simp add: done_right_def)
  next
    case (Some x)
    obtain r bs1 a1 where x: "x = (r, bs1, a1)" by (cases x)
    with S Some have s: "spec_op op (map buf_content bs) = Some (r, map buf_content bs1)" "good bs1 a1" "moved (total bs) a (total bs1) a1"
      by (simp_all add: done_right_def)
    then show ?thesis using Some x Cons.IH [OF s(2)] by (auto split: option.splits intro: moved_trans)
  qed
qed

text \<open>
  C35. A run of operations on any number of buffers, started with none, is a run on byte strings: it aborts exactly when the run on byte strings has no
  result, and otherwise every operation gives the same result, each buffer holds the string, no assertion about a buffer is violated, and the
  counter has grown by what the chunks of all buffers take up.
\<close>

theorem buffers_refine_bytes:
  "case run_ops ops [] a of
      None \<Rightarrow> spec_ops ops [] = None
    | Some (rs, bs, a1) \<Rightarrow> spec_ops ops [] = Some (rs, map buf_content bs) \<and> list_all buf_assert_ok bs \<and>
        total_bytes_allocated_in_chunks a1 = total_bytes_allocated_in_chunks a + sum_list (map buf_allocation bs)"
proof -
  have "good [] a" by (simp add: good_def has_def total_def)
  from run_right [OF this, of ops] show ?thesis
    by (auto simp: good_def list_all_iff moved_def total_def wf_assert_ok split: option.splits)
qed

lemma buffers_refine_bytes_witness:
  "\<exists>bs a1. run_ops [Op_New None, Op_New (Some 300), Op_Add 0 [71, 10, 13, 72], Op_Line 0 80, Op_Copy 1 0, Op_Find 1 [72], Op_Move 0 1 1, Op_Get 0 3, Op_Add 1 []]
     [] \<lparr>total_bytes_allocated_in_chunks = 0, chunk_stamp = 0\<rparr> =
     Some ([(0, [], 0), (0, [], 0), (4, [], 0), (1, [71, 10], 2), (0, [], 0), (1, [], 0), (1, [], 0), (0, [13, 72, 13], 0), (1, [], 0)], bs, a1) \<and>
     map buf_content bs = [[], [72]]"
proof -
  let ?ops = "[Op_New None, Op_New (Some 300), Op_Add 0 [71, 10, 13, 72], Op_Line 0 80, Op_Copy 1 0, Op_Find 1 [72], Op_Move 0 1 1, Op_Get 0 3, Op_Add 1 []]"
  have s: "spec_ops ?ops [] = Some ([(0, [], 0), (0, [], 0), (4, [], 0), (1, [71, 10], 2), (0, [], 0), (1, [], 0), (1, [], 0), (0, [13, 72, 13], 0), (1, [], 0)], [[], [72]])"
    by (simp add: Let_def)
  then show ?thesis using buffers_refine_bytes [of ?ops "\<lparr>total_bytes_allocated_in_chunks = 0, chunk_stamp = 0\<rparr>"] by (auto simp del: run_ops.simps spec_ops.simps split: option.splits)
qed

section \<open>Reading and writing file descriptors\<close>

text \<open>The bytes that the other side sent.\<close>

fun io_bytes :: "read_result list \<Rightarrow> bytes" where
  "io_bytes [] = []"
| "io_bytes (READ_BYTES bs # io) = bs @ io_bytes io"
| "io_bytes (_ # io) = io_bytes io"

lemma fill_nothing: "buf_fit buf \<Longrightarrow> chunks buf \<noteq> [] \<Longrightarrow> fill_tail [] buf = buf"
  by (simp add: fill_tail_def)

lemma read_to_chunk_ok:
  assumes fit: "buf_fit buf" "chunks buf \<noteq> []" and n: "0 < n" "n \<le> CHUNK_REMAINING_CAPACITY (last (chunks buf))"
  shows "\<exists>r eof err b io1 got. read_to_chunk buf n io = Some (r, eof, err, b, io1) \<and> buf_fit b \<and> buf_content b = buf_content buf @ got \<and>
    buf_allocation b = buf_allocation buf \<and> io_bytes io = got @ io_bytes io1 \<and> length got \<le> n \<and>
    (case err of None \<Rightarrow> r = int (length got) | Some e \<Rightarrow> r = -1 \<and> READ_ERROR e \<in> set io) \<and>
    (eof \<longrightarrow> READ_EOF \<in> set io \<or> READ_BYTES [] \<in> set io) \<and> (\<forall>e. READ_ERROR e \<in> set io1 \<longrightarrow> READ_ERROR e \<in> set io) \<and>
    (READ_EOF \<in> set io1 \<longrightarrow> READ_EOF \<in> set io) \<and> (READ_BYTES [] \<in> set io1 \<longrightarrow> READ_BYTES [] \<in> set io) \<and>
    ((\<exists>bs rest. io = READ_BYTES bs # rest \<and> bs \<noteq> []) \<longrightarrow> got \<noteq> [])"
proof -
  have m: "min n (CHUNK_REMAINING_CAPACITY (last (chunks buf))) = n" using n(2) by simp
  show ?thesis
  proof (cases io)
    case Nil
    then show ?thesis using fit by (auto simp: read_to_chunk_def)
  next
    case (Cons x io1)
    show ?thesis
    proof (cases x)
      case (READ_BYTES bs)
      define got where "got = take n bs"
      have g: "length got \<le> n" "length got \<le> CHUNK_REMAINING_CAPACITY (last (chunks buf))" using n(2) by (auto simp: got_def)
      have "read_to_chunk buf n io = Some (int (length got), got = [], None, fill_tail got buf, if length bs > n then READ_BYTES (drop n bs) # io1 else io1)"
        using Cons READ_BYTES m by (simp add: read_to_chunk_def Let_def got_def)
      moreover have "io_bytes io = got @ io_bytes (if length bs > n then READ_BYTES (drop n bs) # io1 else io1)"
        using Cons READ_BYTES by (auto simp: got_def)
      moreover have "got = [] \<longleftrightarrow> bs = []" using n(1) by (auto simp: got_def)
      ultimately show ?thesis using fill_tail_ok [OF fit g(2)] g(1) Cons READ_BYTES by (auto split: if_splits)
    qed (use Cons fit in \<open>auto simp: read_to_chunk_def\<close>)
  qed
qed

lemma read_loop_ok:
  "buf_fit buf \<Longrightarrow> n0 \<le> n \<Longrightarrow> n \<le> INT_BUF_MAX_LEN \<Longrightarrow>
    \<exists>r eof1 err b a1 io1 got. read_loop n n0 eof buf a io = Some (r, eof1, err, b, a1, io1) \<and> buf_fit b \<and> buf_content b = buf_content buf @ got \<and>
    moved (buf_allocation buf) a (buf_allocation b) a1 \<and> io_bytes io = got @ io_bytes io1 \<and> length got \<le> n - n0 \<and>
    (case err of None \<Rightarrow> r = int (n0 + length got) | Some e \<Rightarrow> r = -1 \<and> READ_ERROR e \<in> set io) \<and>
    (eof1 \<longrightarrow> eof \<or> READ_EOF \<in> set io \<or> READ_BYTES [] \<in> set io) \<and>
    (n0 < n \<longrightarrow> (\<exists>bs rest. io = READ_BYTES bs # rest \<and> bs \<noteq> []) \<longrightarrow> got \<noteq> [])"
proof (induction "n - n0" arbitrary: n0 eof buf a io rule: less_induct)
  case less
  show ?case
  proof (cases "n > n0")
    case False
    then show ?thesis using less.prems by (subst read_loop.simps) simp
  next
    case True
    let ?new = "chunks buf = [] \<or> CHUNK_REMAINING_CAPACITY (last (chunks buf)) < MIN_READ_LEN"
    obtain k b a1 where k: "(if ?new
          then map_option (\<lambda>(b, a1). (min (n - n0) (memlen (last (chunks b))), b, a1)) (buf_add_chunk_with_capacity buf n True a)
          else Some (min (n - n0) (CHUNK_REMAINING_CAPACITY (last (chunks buf))), buf, a)) = Some (k, b, a1)"
      "0 < k" "k \<le> n - n0" "k \<le> CHUNK_REMAINING_CAPACITY (last (chunks b))" "buf_fit b" "buf_content b = buf_content buf"
      "moved (buf_allocation buf) a (buf_allocation b) a1" "chunks b \<noteq> []"
    proof (cases ?new)
      case t: True
      obtain b a1 where "buf_add_chunk_with_capacity buf n True a = Some (b, a1)" "buf_fit b" "buf_content b = buf_content buf"
        "moved (buf_allocation buf) a (buf_allocation b) a1" "chunks b \<noteq> []" "MIN_READ_LEN \<le> CHUNK_REMAINING_CAPACITY (last (chunks b))"
        "memlen (last (chunks b)) = CHUNK_REMAINING_CAPACITY (last (chunks b))"
        using add_chunk_fit [OF less.prems(1), of True n a] by blast
      then show ?thesis using t True by (intro that [of "min (n - n0) (memlen (last (chunks b)))" b a1]) simp_all
    next
      case f: False
      then show ?thesis using True less.prems(1) by (intro that [of "min (n - n0) (CHUNK_REMAINING_CAPACITY (last (chunks buf)))" buf a]) auto
    qed
    obtain r eof1 err b2 io1 got where R: "read_to_chunk b k io = Some (r, eof1, err, b2, io1)" "buf_fit b2" "buf_content b2 = buf_content b @ got"
      "buf_allocation b2 = buf_allocation b" "io_bytes io = got @ io_bytes io1" "length got \<le> k"
      "case err of None \<Rightarrow> r = int (length got) | Some e \<Rightarrow> r = -1 \<and> READ_ERROR e \<in> set io"
      "eof1 \<longrightarrow> READ_EOF \<in> set io \<or> READ_BYTES [] \<in> set io" "\<forall>e. READ_ERROR e \<in> set io1 \<longrightarrow> READ_ERROR e \<in> set io"
      "READ_EOF \<in> set io1 \<longrightarrow> READ_EOF \<in> set io" "READ_BYTES [] \<in> set io1 \<longrightarrow> READ_BYTES [] \<in> set io"
      "(\<exists>bs rest. io = READ_BYTES bs # rest \<and> bs \<noteq> []) \<longrightarrow> got \<noteq> []" using read_to_chunk_ok [OF k(5,8,2,4), of io] by blast
    have u: "read_loop n n0 eof buf a io =
       (if r < 0 then Some (r, eof \<or> eof1, err, b2, a1, io1)
        else if \<not> n0 + nat r \<le> INT_BUF_MAX_LEN then None
        else if nat r < k then Some (int (n0 + nat r), eof \<or> eof1, None, b2, a1, io1)
        else read_loop n (n0 + nat r) (eof \<or> eof1) b2 a1 io1)"
      using True k(1) R(1) by (subst read_loop.simps) simp
    have mv: "moved (buf_allocation buf) a (buf_allocation b2) a1" using k(7) R(4) by simp
    show ?thesis
    proof (cases err)
      case (Some e)
      then show ?thesis using u R k(3,6) mv by auto
    next
      case None
      then have r: "r = int (length got)" using R(7) by simp
      have bnd: "n0 + nat r \<le> INT_BUF_MAX_LEN" using r R(6) k(3) less.prems(2,3) True by linarith
      show ?thesis
      proof (cases "nat r < k")
        case short: True
        then show ?thesis using u None r bnd R k(3,6) mv by auto
      next
        case False
        then have l: "length got = k" using r R(6) by simp
        have s: "n - (n0 + k) < n - n0" "n0 + k \<le> n" using k(2,3) True by linarith+
        have "read_loop n n0 eof buf a io = read_loop n (n0 + k) (eof \<or> eof1) b2 a1 io1" using u r bnd l by simp
        moreover obtain r2 eof2 err2 b3 a2 io2 got2 where S: "read_loop n (n0 + k) (eof \<or> eof1) b2 a1 io1 = Some (r2, eof2, err2, b3, a2, io2)" "buf_fit b3"
          "buf_content b3 = buf_content b2 @ got2" "moved (buf_allocation b2) a1 (buf_allocation b3) a2" "io_bytes io1 = got2 @ io_bytes io2"
          "length got2 \<le> n - (n0 + k)" "case err2 of None \<Rightarrow> r2 = int (n0 + k + length got2) | Some e \<Rightarrow> r2 = -1 \<and> READ_ERROR e \<in> set io1"
          "eof2 \<longrightarrow> (eof \<or> eof1) \<or> READ_EOF \<in> set io1 \<or> READ_BYTES [] \<in> set io1"
          using less.hyps [OF s(1) R(2) s(2) less.prems(3), of "eof \<or> eof1" a1 io1] by blast
        moreover have "buf_content b3 = buf_content buf @ (got @ got2)" "io_bytes io = (got @ got2) @ io_bytes io2" "length (got @ got2) \<le> n - n0"
          using S(3,5,6) R(3,5) k(6) l s(2) by simp_all
        moreover have "n0 < n \<longrightarrow> (\<exists>bs rest. io = READ_BYTES bs # rest \<and> bs \<noteq> []) \<longrightarrow> got @ got2 \<noteq> []" using l k(2) by auto
        moreover have "case err2 of None \<Rightarrow> r2 = int (n0 + length (got @ got2)) | Some e \<Rightarrow> r2 = -1 \<and> READ_ERROR e \<in> set io"
          using S(7) R(9) l by (auto split: option.splits)
        moreover have "eof2 \<longrightarrow> eof \<or> READ_EOF \<in> set io \<or> READ_BYTES [] \<in> set io" using S(8) R(8,10,11) by blast
        ultimately show ?thesis using moved_trans [OF mv S(4)]
          by - (rule exI [of _ r2], rule exI [of _ eof2], rule exI [of _ err2], rule exI [of _ b3], rule exI [of _ a2], rule exI [of _ io2],
            rule exI [of _ "got @ got2"], intro conjI; (assumption | rule trans, assumption, assumption))
      qed
    qed
  qed
qed

lemma drain_head:
  assumes "drain_loop n (c # cs) len a = Some (ds, k, a1)" "n = length (chunk_data c)" "0 < n"
  shows "ds = cs"
  using assms by (cases cs) (auto simp: bind_eq_Some_conv)

text \<open>A descriptor that takes everything it is offered, for each of some chunks.\<close>

definition willing :: "nat \<Rightarrow> nat \<Rightarrow> write_result list \<Rightarrow> bool" where
  "willing k sz io \<longleftrightarrow> k \<le> length io \<and> (\<forall>x \<in> set (take k io). \<exists>m. x = WRITTEN m \<and> sz \<le> m)"

lemma willing_Suc: "willing (Suc k) sz io \<longleftrightarrow> (\<exists>m io1. io = WRITTEN m # io1 \<and> sz \<le> m \<and> willing k sz io1)"
  by (cases io) (auto simp: willing_def)

lemma willing_less: "willing k sz io \<Longrightarrow> n \<le> sz \<Longrightarrow> willing k n io"
  unfolding willing_def by (meson order_trans)

lemma flush_chunk_ok:
  assumes wf: "buf_wf buf" "has a (buf_allocation buf)" "chunks buf = c # cs" and n: "n \<le> length (chunk_data c)"
  shows "\<exists>r out b a1 io1. flush_chunk buf n a io = Some (r, out, b, a1, io1) \<and> buf_wf b \<and> buf_content buf = out @ buf_content b \<and>
    moved (buf_allocation buf) a (buf_allocation b) a1 \<and> length out \<le> n \<and> (r = int (length out) \<or> r = -1 \<and> out = [] \<and> WRITE_ERROR \<in> set io) \<and>
    set io1 \<subseteq> set io \<and> (full (chunks buf) \<longrightarrow> full (chunks b)) \<and>
    (\<forall>m io2. io = WRITTEN m # io2 \<longrightarrow> n \<le> m \<longrightarrow> length out = n \<and> r = int n \<and> io1 = io2 \<and> (n = length (chunk_data c) \<longrightarrow> 0 < n \<longrightarrow> chunks b = cs))"
proof -
  have m: "min n (length (chunk_data c)) = n" using n by simp
  show ?thesis
  proof (cases io)
    case Nil
    then show ?thesis using wf m by (simp add: flush_chunk_def)
  next
    case (Cons x io1)
    show ?thesis
    proof (cases x)
      case (WRITTEN k)
      let ?k = "min k n"
      have cont: "buf_content buf = chunk_data c @ chunks_content cs" using wf(3) by (simp add: buf_content_def)
      have "?k \<le> length (buf_content buf)" using n by (simp add: cont)
      from buf_drain_ok [OF wf(1,2) this] obtain b a1 where b: "buf_drain buf ?k a = Some (b, a1)" "buf_wf b" "buf_content b = drop ?k (buf_content buf)"
        "moved (buf_allocation buf) a (buf_allocation b) a1" "full (chunks buf) \<longrightarrow> full (chunks b)" by blast
      have "flush_chunk buf n a io = Some (int ?k, take ?k (chunk_data c), b, a1, io1)"
        using Cons WRITTEN m b(1) wf(3) by (simp add: flush_chunk_def Let_def)
      moreover have "buf_content buf = take ?k (chunk_data c) @ buf_content b" "length (take ?k (chunk_data c)) = ?k" using b(3) cont n by simp_all
      moreover have "chunks b = cs" if "?k = length (chunk_data c)" "0 < ?k"
      proof -
        have "chunks b = fst (the (drain_loop ?k (c # cs) (datalen buf) a))" "drain_loop ?k (c # cs) (datalen buf) a \<noteq> None"
          using b(1) wf(3) by (auto simp: buf_drain_def bind_eq_Some_conv simp del: drain_loop.simps split: if_splits)
        then show ?thesis using drain_head that by (metis fst_conv option.collapse prod_cases3)
      qed
      ultimately show ?thesis using b(2,4,5) Cons WRITTEN by (auto simp: min_def)
    qed (use Cons wf m in \<open>auto simp: flush_chunk_def\<close>)
  qed
qed

lemma flush_fd_loop_ok:
  "buf_wf buf \<Longrightarrow> has a (buf_allocation buf) \<Longrightarrow> sz \<le> length (buf_content buf) \<Longrightarrow>
    \<exists>r new b a1 io1. flush_fd_loop sz out buf a io = Some (r, out @ new, b, a1, io1) \<and> buf_wf b \<and> buf_content buf = new @ buf_content b \<and>
    moved (buf_allocation buf) a (buf_allocation b) a1 \<and> length new \<le> sz \<and>
    (r = int (length (out @ new)) \<or> r = -1 \<and> WRITE_ERROR \<in> set io) \<and>
    (full (chunks buf) \<longrightarrow> willing (length (chunks buf)) sz io \<longrightarrow> length new = sz \<and> r = int (length (out @ new)))"
proof (induction sz arbitrary: out buf a io rule: less_induct)
  case (less sz)
  show ?case
  proof (cases "sz = 0")
    case True
    then show ?thesis using less.prems by (subst flush_fd_loop.simps) simp
  next
    case False
    then obtain c cs where c: "chunks buf = c # cs" using less.prems(3) by (cases "chunks buf") (auto simp: buf_content_def)
    define n where "n = min sz (length (chunk_data c))"
    have n: "n \<le> length (chunk_data c)" "n \<le> sz" by (simp_all add: n_def)
    obtain r bs b a1 io1 where F: "flush_chunk buf n a io = Some (r, bs, b, a1, io1)" "buf_wf b" "buf_content buf = bs @ buf_content b"
      "moved (buf_allocation buf) a (buf_allocation b) a1" "length bs \<le> n" "r = int (length bs) \<or> r = -1 \<and> bs = [] \<and> WRITE_ERROR \<in> set io"
      "set io1 \<subseteq> set io" "full (chunks buf) \<longrightarrow> full (chunks b)"
      "\<forall>m io2. io = WRITTEN m # io2 \<longrightarrow> n \<le> m \<longrightarrow> length bs = n \<and> r = int n \<and> io1 = io2 \<and> (n = length (chunk_data c) \<longrightarrow> 0 < n \<longrightarrow> chunks b = cs)"
      using flush_chunk_ok [OF less.prems(1,2) c n(1), of io] by blast
    have u: "flush_fd_loop sz out buf a io =
        (if r < 0 then Some (r, out, b, a1, io1)
         else if r = 0 \<or> nat r < n then Some (int (length (out @ bs)), out @ bs, b, a1, io1)
         else flush_fd_loop (sz - nat r) (out @ bs) b a1 io1)"
      using False c F(1) by (subst flush_fd_loop.simps) (simp add: n_def min_def)
    have w: "\<exists>io2 m. io = WRITTEN m # io2 \<and> sz \<le> m \<and> willing (length cs) (sz - n) io2" if "willing (length (chunks buf)) sz io"
      using that c willing_less [OF _ diff_le_self] by (auto simp: willing_Suc)
    have fw: "length bs = n \<and> r = int n \<and> 0 < n \<and> (n < sz \<longrightarrow> chunks b = cs \<and> willing (length cs) (sz - n) io1)"
      if "full (chunks buf)" "willing (length (chunks buf)) sz io"
    proof -
      have "0 < n" using that(1) c False by (simp add: n_def)
      moreover have "n < sz \<Longrightarrow> n = length (chunk_data c)" by (simp add: n_def)
      ultimately show ?thesis using w [OF that(2)] F(9) n(2) by (metis order_trans)
    qed
    consider (error) "r < 0" | (stop) "r \<ge> 0" "r = 0 \<or> nat r < n" | (more) "r > 0" "nat r \<ge> n" by linarith
    then show ?thesis
    proof cases
      case error
      then have r: "r = -1" "bs = []" "WRITE_ERROR \<in> set io" using F(6) by auto
      then have "\<not> (full (chunks buf) \<and> willing (length (chunks buf)) sz io)" using fw by auto
      then show ?thesis using u r F(2-4) by (intro exI [of _ r] exI [of _ "[]"] exI [of _ b] exI [of _ a1] exI [of _ io1]) auto
    next
      case stop
      then have "r = int (length bs)" using F(6) by auto
      then have "\<not> (full (chunks buf) \<and> willing (length (chunks buf)) sz io)" using fw stop by auto
      then show ?thesis using u stop F(2-5) n(2)
        by (intro exI [of _ "int (length (out @ bs))"] exI [of _ bs] exI [of _ b] exI [of _ a1] exI [of _ io1]) auto
    next
      case more
      then have r: "r = int (length bs)" "length bs = n" "0 < n" using F(5,6) by auto
      have s: "sz - n < sz" "has a1 (buf_allocation b)" "sz - n \<le> length (buf_content b)"
        using r n(2) False less.prems(2,3) F(3,4) by (simp_all add: moved_def has_def)
      obtain r2 new b2 a2 io2 where S: "flush_fd_loop (sz - n) (out @ bs) b a1 io1 = Some (r2, (out @ bs) @ new, b2, a2, io2)" "buf_wf b2"
        "buf_content b = new @ buf_content b2" "moved (buf_allocation b) a1 (buf_allocation b2) a2" "length new \<le> sz - n"
        "r2 = int (length ((out @ bs) @ new)) \<or> r2 = -1 \<and> WRITE_ERROR \<in> set io1"
        "full (chunks b) \<longrightarrow> willing (length (chunks b)) (sz - n) io1 \<longrightarrow> length new = sz - n \<and> r2 = int (length ((out @ bs) @ new))"
        using less.IH [OF s(1) F(2) s(2,3), of "out @ bs" io1] by blast
      have "flush_fd_loop sz out buf a io = Some (r2, out @ (bs @ new), b2, a2, io2)" using u more r S(1) by simp
      moreover have "buf_content buf = (bs @ new) @ buf_content b2" "length (bs @ new) \<le> sz" using F(3) S(3,5) r(2) n(2) by simp_all
      moreover have "r2 = int (length (out @ (bs @ new))) \<or> r2 = -1 \<and> WRITE_ERROR \<in> set io" using S(6) F(7) by auto
      moreover have "full (chunks buf) \<longrightarrow> willing (length (chunks buf)) sz io \<longrightarrow> length (bs @ new) = sz \<and> r2 = int (length (out @ (bs @ new)))"
      proof (intro impI)
        assume h: "full (chunks buf)" "willing (length (chunks buf)) sz io"
        show "length (bs @ new) = sz \<and> r2 = int (length (out @ (bs @ new)))"
        proof (cases "n < sz")
          case True
          then show ?thesis using fw [OF h] S(7) F(8) h(1) r(2) by auto
        next
          case e: False
          then have "sz - n = 0" "new = []" using S(5) by simp_all
          moreover from this(1) have "r2 = int (length (out @ bs))" using S(1) by (simp add: flush_fd_loop.simps [of 0])
          ultimately show ?thesis using r(2) n(2) e by simp
        qed
      qed
      ultimately show ?thesis using S(2) moved_trans [OF F(4) S(4)]
        by - (rule exI [of _ r2], rule exI [of _ "bs @ new"], rule exI [of _ b2], rule exI [of _ a2], rule exI [of _ io2], intro conjI; assumption)
    qed
  qed
qed

text \<open>
  C36. Reading appends to a well-formed buffer exactly the bytes it takes from the descriptor, at most as many as asked for and, when bytes are ready,
  at least one; it refuses when they might not fit. Writing sends exactly the bytes it takes off the front; nothing is lost when an error occurs, and a descriptor
  that takes what it is offered gets all that was asked for. Both keep the buffer well-formed and the counter exact.
\<close>

theorem buf_fd_exact:
  assumes wf: "buf_wf buf" and h: "has a (buf_allocation buf)" and n: "n \<le> INT_BUF_MAX_LEN"
  shows "(if length (buf_content buf) + n > INT_BUF_MAX_LEN then buf_read_from_fd buf n a io = Some (-1, False, None, buf, a, io)
      else \<exists>r eof err b a1 io1 got. buf_read_from_fd buf n a io = Some (r, eof, err, b, a1, io1) \<and> buf_wf b \<and> buf_content b = buf_content buf @ got \<and>
        moved (buf_allocation buf) a (buf_allocation b) a1 \<and> io_bytes io = got @ io_bytes io1 \<and> length got \<le> n \<and>
        (case err of None \<Rightarrow> r = int (length got) | Some e \<Rightarrow> r = -1 \<and> READ_ERROR e \<in> set io) \<and>
        (eof \<longrightarrow> READ_EOF \<in> set io \<or> READ_BYTES [] \<in> set io) \<and>
        (0 < n \<longrightarrow> (\<exists>bs rest. io = READ_BYTES bs # rest \<and> bs \<noteq> []) \<longrightarrow> got \<noteq> [])) \<and>
    (\<exists>r out b a1 wio1. buf_flush_to_fd buf sz a wio = Some (r, out, b, a1, wio1) \<and> buf_wf b \<and> buf_content buf = out @ buf_content b \<and>
      moved (buf_allocation buf) a (buf_allocation b) a1 \<and> length out \<le> sz \<and> (r = int (length out) \<or> r = -1 \<and> WRITE_ERROR \<in> set wio) \<and>
      (full (chunks buf) \<longrightarrow> willing (length (chunks buf)) sz wio \<longrightarrow> out = take sz (buf_content buf) \<and> r = int (length out)))"
proof (intro conjI)
  have dl: "datalen buf = length (buf_content buf)" "datalen buf \<le> INT_BUF_MAX_LEN" "buf_fit buf" using wf by (simp_all add: buf_wf_def buf_fit_def)
  have guard: "datalen buf > INT_BUF_MAX_LEN - n \<longleftrightarrow> length (buf_content buf) + n > INT_BUF_MAX_LEN" using n dl(1) by linarith
  show "if length (buf_content buf) + n > INT_BUF_MAX_LEN then buf_read_from_fd buf n a io = Some (-1, False, None, buf, a, io)
      else \<exists>r eof err b a1 io1 got. buf_read_from_fd buf n a io = Some (r, eof, err, b, a1, io1) \<and> buf_wf b \<and> buf_content b = buf_content buf @ got \<and>
        moved (buf_allocation buf) a (buf_allocation b) a1 \<and> io_bytes io = got @ io_bytes io1 \<and> length got \<le> n \<and>
        (case err of None \<Rightarrow> r = int (length got) | Some e \<Rightarrow> r = -1 \<and> READ_ERROR e \<in> set io) \<and>
        (eof \<longrightarrow> READ_EOF \<in> set io \<or> READ_BYTES [] \<in> set io) \<and>
        (0 < n \<longrightarrow> (\<exists>bs rest. io = READ_BYTES bs # rest \<and> bs \<noteq> []) \<longrightarrow> got \<noteq> [])"
  proof (cases "length (buf_content buf) + n > INT_BUF_MAX_LEN")
    case True
    then show ?thesis using guard n dl(2) by (simp add: buf_read_from_fd_def)
  next
    case False
    then have e: "buf_read_from_fd buf n a io = read_loop n 0 False buf a io" using guard n dl(2) by (simp add: buf_read_from_fd_def)
    have fo: "(False \<or> P) = P" for P by simp
    obtain r eof err b a1 io1 got where R: "buf_read_from_fd buf n a io = Some (r, eof, err, b, a1, io1)" "buf_fit b" "buf_content b = buf_content buf @ got"
      "moved (buf_allocation buf) a (buf_allocation b) a1" "io_bytes io = got @ io_bytes io1" "length got \<le> n"
      "case err of None \<Rightarrow> r = int (length got) | Some e \<Rightarrow> r = -1 \<and> READ_ERROR e \<in> set io"
      "eof \<longrightarrow> READ_EOF \<in> set io \<or> READ_BYTES [] \<in> set io"
      "0 < n \<longrightarrow> (\<exists>bs rest. io = READ_BYTES bs # rest \<and> bs \<noteq> []) \<longrightarrow> got \<noteq> []"
      using read_loop_ok [OF dl(3) le0 n, of False a io, folded e, unfolded add_0 diff_zero fo]
      by - (elim exE conjE, rule that, assumption+)
    moreover have "buf_wf b" using R(2,3,6) False by (simp add: wf_fit)
    ultimately show ?thesis unfolding if_not_P [OF False]
      by - (rule exI [of _ r], rule exI [of _ eof], rule exI [of _ err], rule exI [of _ b], rule exI [of _ a1], rule exI [of _ io1],
        rule exI [of _ got], intro conjI; assumption)
  qed
  define k where "k = min sz (length (buf_content buf))"
  have "k \<le> length (buf_content buf)" by (simp add: k_def)
  note L = flush_fd_loop_ok [OF wf h this, of "[]" wio, unfolded append_Nil]
  have e: "buf_flush_to_fd buf sz a wio = flush_fd_loop k [] buf a wio" using dl(1) by (simp add: buf_flush_to_fd_def k_def)
  obtain r new b a1 io1 where F: "buf_flush_to_fd buf sz a wio = Some (r, new, b, a1, io1)" "buf_wf b"
    "buf_content buf = new @ buf_content b" "moved (buf_allocation buf) a (buf_allocation b) a1" "length new \<le> k"
    "r = int (length new) \<or> r = -1 \<and> WRITE_ERROR \<in> set wio"
    "full (chunks buf) \<longrightarrow> willing (length (chunks buf)) k wio \<longrightarrow> length new = k \<and> r = int (length new)"
    using L [folded e] by - (elim exE conjE, rule that, assumption+)
  have w: "willing (length (chunks buf)) k wio" if "willing (length (chunks buf)) sz wio"
    using that by (rule willing_less) (simp add: k_def)
  have new: "new = take (length new) (buf_content buf)" using F(3) by simp
  have tk: "take k (buf_content buf) = take sz (buf_content buf)" by (simp add: k_def min_def)
  have "full (chunks buf) \<longrightarrow> willing (length (chunks buf)) sz wio \<longrightarrow> new = take sz (buf_content buf) \<and> r = int (length new)"
    using F(7) w new tk by auto
  moreover have "length new \<le> sz" using F(5) by (simp add: k_def)
  ultimately show "\<exists>r out b a1 wio1. buf_flush_to_fd buf sz a wio = Some (r, out, b, a1, wio1) \<and> buf_wf b \<and> buf_content buf = out @ buf_content b \<and>
      moved (buf_allocation buf) a (buf_allocation b) a1 \<and> length out \<le> sz \<and> (r = int (length out) \<or> r = -1 \<and> WRITE_ERROR \<in> set wio) \<and>
      (full (chunks buf) \<longrightarrow> willing (length (chunks buf)) sz wio \<longrightarrow> out = take sz (buf_content buf) \<and> r = int (length out))"
    using F(1-4,6) by - (rule exI [of _ r], rule exI [of _ new], rule exI [of _ b], rule exI [of _ a1], rule exI [of _ io1], intro conjI; assumption)
qed

definition fd_demo :: buf_t where
  "fd_demo = \<lparr>chunks = [\<lparr>chunk_data = [1, 2, 3], data_offset = 0, memlen = 10, DBG_alloc = 58, inserted_time = 0\<rparr>], datalen = 3, default_chunk_size = 4096\<rparr>"

lemma buf_fd_exact_witness:
  "(\<exists>eof b a1 io. buf_read_from_fd fd_demo 1 \<lparr>total_bytes_allocated_in_chunks = 58, chunk_stamp = 0\<rparr> [READ_BYTES [9, 8]] = Some (1, eof, None, b, a1, io) \<and>
      buf_content b = [1, 2, 3, 9]) \<and>
    (\<exists>b a1 wio. buf_flush_to_fd fd_demo 2 \<lparr>total_bytes_allocated_in_chunks = 58, chunk_stamp = 0\<rparr> [WRITTEN 5] = Some (2, [1, 2], b, a1, wio) \<and> buf_content b = [3])"
proof -
  let ?a = "\<lparr>total_bytes_allocated_in_chunks = 58, chunk_stamp = 0\<rparr>"
  have d: "buf_wf fd_demo" "has ?a (buf_allocation fd_demo)" "buf_content fd_demo = [1, 2, 3]" "full (chunks fd_demo)"
    "willing (length (chunks fd_demo)) 2 [WRITTEN 5]"
    by (simp_all add: fd_demo_def buf_wf_def buf_content_def chunk_wf_def CHUNK_ALLOC_SIZE_def has_def buf_allocation_def willing_def)
  have one: "(1::nat) \<le> INT_BUF_MAX_LEN" by simp
  have "\<not> length [1, 2, 3 :: u8] + 1 > INT_BUF_MAX_LEN" by simp
  note T = buf_fd_exact [OF d(1,2) one, of "[READ_BYTES [9, 8]]" 2 "[WRITTEN 5]", unfolded d(3), unfolded if_not_P [OF this]]
  from T [THEN conjunct1] obtain r eof err b a1 io1 got where
    R: "buf_read_from_fd fd_demo 1 ?a [READ_BYTES [9, 8]] = Some (r, eof, err, b, a1, io1)" "buf_content b = [1, 2, 3] @ got"
      "io_bytes [READ_BYTES [9, 8]] = got @ io_bytes io1" "length got \<le> 1"
      "case err of None \<Rightarrow> r = int (length got) | Some e \<Rightarrow> r = -1 \<and> READ_ERROR e \<in> set [READ_BYTES [9, 8]]"
      "0 < (1::nat) \<longrightarrow> (\<exists>bs rest. [READ_BYTES [9, 8]] = READ_BYTES bs # rest \<and> bs \<noteq> []) \<longrightarrow> got \<noteq> []" by - (elim exE conjE, rule that, assumption+)
  from T [THEN conjunct2] obtain r2 out b2 a2 wio where
    W: "buf_flush_to_fd fd_demo 2 ?a [WRITTEN 5] = Some (r2, out, b2, a2, wio)" "[1, 2, 3] = out @ buf_content b2" "full (chunks fd_demo) \<longrightarrow> willing (length (chunks fd_demo)) 2 [WRITTEN 5] \<longrightarrow> out = take 2 [1, 2, 3] \<and> r2 = int (length out)"
    by - (elim exE conjE, rule that, assumption+)
  have ne: "got \<noteq> []" using R(6) by simp
  have got: "got = [9]" using R(3,4) ne by (cases got) simp_all
  have err: "err = None" using R(5) by (cases err) simp_all
  have r: "r = 1" using R(5) unfolding err got by simp
  have w: "out = take 2 [1, 2, 3]" "r2 = int (length out)" using W(3) d(4,5) by blast+
  have out: "out = [1, 2]" using w(1) by simp
  have b2: "buf_content b2 = [3]" using W(2) unfolding out by simp
  have r2: "r2 = 2" using w(2) unfolding out by simp
  have b: "buf_content b = [1, 2, 3, 9]" using R(2) unfolding got by simp
  show ?thesis using R(1) W(1) b b2 unfolding err r r2 out by blast
qed

section \<open>Empty chunks\<close>

text \<open>A read that fills the last chunk and then blocks leaves an empty chunk at the end. Searching then compares with memory that was never written.\<close>

definition blocked_read :: buf_t where
  "blocked_read = \<lparr>chunks = [\<lparr>chunk_data = [71, 13], data_offset = 0, memlen = 2, DBG_alloc = 50, inserted_time = 0\<rparr>,
     \<lparr>chunk_data = [], data_offset = 0, memlen = 208, DBG_alloc = 256, inserted_time = 0\<rparr>], datalen = 2, default_chunk_size = 256\<rparr>"

lemma find_string_reads_beyond: "buf_wf blocked_read \<and> buf_find_string_offset blocked_read [13, 10] = None"
  unfolding buf_find_string_offset_def
  by (subst find_string_loop.simps) (simp add: blocked_read_def buf_wf_def buf_content_def chunk_wf_def CHUNK_ALLOC_SIZE_def buf_pos_init_def buf_find_pos_of_char_def buf_pos_inc_def byte_at_def)

text \<open>An empty chunk at the front, which moving onto such a buffer leaves, stops a flush at once, whatever the descriptor takes.\<close>

lemma flush_stuck:
  assumes "chunks buf = c # cs" "chunk_data c = []" "0 < datalen buf" "0 < sz"
  shows "\<exists>b a1 wio. buf_flush_to_fd buf sz a (WRITTEN n # io) = Some (0, [], b, a1, wio)"
proof -
  have d: "buf_drain buf 0 a = Some (buf\<lparr>chunks := chunks buf, datalen := datalen buf\<rparr>, a)" using assms(1) by (simp add: buf_drain_def)
  have "min sz (datalen buf) \<noteq> 0" using assms(3,4) by simp
  then show ?thesis unfolding buf_flush_to_fd_def
    using assms(1,2) d by (subst flush_fd_loop.simps) (simp add: flush_chunk_def)
qed

end
