(* ===== verification/Spec2Isabelle.thy ===== *)
theory Spec2Isabelle
  imports Circuitmux_Ewma Conflux_Link Sendme_Link Flow_Link Channel_Extend Cell_Queue_Append Buffers_Refine
begin

text \<open>
  A model of the traffic core of the relay software under \<open>src/\<close> and the theorems that make
  it correct: what decides when a relay or client may put a cell on a circuit, and how the two ends
  of a circuit keep their accounts of it in step.

  \<^bold>\<open>Parts.\<close>

  \<^item> \<open>Tor_Prelude\<close>: the C integer types, aborts, runs of a component; the collection
    \<open>u_simps\<close>; the locales \<open>machine\<close> and \<open>metered\<close>.
  \<^item> \<open>Token_Bucket\<close> (\<open>lib/evloop/token_bucket.c\<close>, \<open>.h\<close>): rate
    limiting. Refinement of an ideal bucket, exactness of the refill, the rate bound.
  \<^item> \<open>Smartlist_Pqueue\<close> (\<open>lib/container/smartlist.c\<close>): binary heaps with
    index fields; the locale \<open>heap_order\<close> is what a comparison function owes them.
  \<^item> \<open>Net_Params\<close> (\<open>feature/nodelist/networkstatus.c\<close>,
    \<open>lib/string/parse_int.c\<close>): consensus parameters.
  \<^item> \<open>Trunnel\<close> (\<open>trunnel/*.c\<close>): wire formats; the locale \<open>codec\<close>.
  \<^item> \<open>Circuit_State\<close> (\<open>core/or/circuit_st.h\<close>, \<open>crypt_path_st.h\<close>,
    \<open>congestion_control_st.h\<close>): the state the following parts share.
  \<^item> \<open>CC_Estimates\<close> (\<open>core/or/congestion_control_common.c\<close>): RTT and BDP
    estimates, cells in flight, the package window.
  \<^item> \<open>CC_Vegas\<close> (\<open>core/or/congestion_control_vegas.c\<close>): the window algorithm.
  \<^item> \<open>CC_Common\<close> (\<open>core/or/congestion_control_common.c\<close>,
    \<open>core/crypto/onion_crypto.c\<close>): parameters, construction, negotiation.
  \<^item> \<open>Conflux\<close> (\<open>core/or/conflux.c\<close>, \<open>conflux_util.c\<close>, \<open>conflux_params.c\<close>,
    \<open>conflux_cell.c\<close>): one stream of cells over several circuits. \<open>Conflux_Link\<close>: both ends of a set and
    the circuits between them; the receiver processes the cells in the order they were sent.
  \<^item> \<open>Sendme\<close> (\<open>core/or/sendme.c\<close>): the windows of circuits and the digests that authenticate a
    SENDME. \<open>Sendme_Link\<close>: both ends of a circuit; no SENDME of an honest receiver is refused.
  \<^item> \<open>Flow_Control\<close> (\<open>core/or/congestion_control_flow.c\<close>, the stream windows of \<open>sendme.c\<close>,
    the reading switches of \<open>core/mainloop/mainloop.c\<close>): XON and XOFF. \<open>Flow_Link\<close>: both ends of a stream;
    they never disagree for good on whether it is stopped.
  \<^item> \<open>Circuitmux\<close> (\<open>core/or/circuitmux.c\<close>): which circuit of a channel sends next; the locale
    \<open>mux_policy\<close> is what a mux expects of its policy. \<open>Circuitmux_Ewma\<close>
    (\<open>core/or/circuitmux_ewma.c\<close>): the policy in use, on the heap of \<open>Smartlist_Pqueue\<close>.
  \<^item> \<open>Scheduler\<close> (\<open>core/or/scheduler.c\<close>, \<open>scheduler_kist.c\<close>, \<open>scheduler_vanilla.c\<close>): the states of
    channels, the heap of pending channels, and when the scheduler runs.
  \<^item> \<open>Channel\<close> (\<open>core/or/channel.c\<close>, \<open>channeltls.c\<close>, \<open>connection_or.c\<close>): the registry and the
    life of a channel. \<open>Channel_Registry\<close>: its tables are exact whatever happens. \<open>Channel_Extend\<close>: looking
    up channels, and the channel a circuit is extended over.
  \<^item> \<open>Circuit_Ids\<close> (\<open>core/or/circuitlist.c\<close>): which circuit uses which ID on which channel.
    \<open>Circuit_Ids_Exact\<close>: the table, the counts of the channels and the muxes agree with an abstract account.
  \<^item> \<open>Cells\<close> (\<open>core/or/connection_or.c\<close>, \<open>relay.c\<close>, \<open>core/proto/proto_cell.c\<close>): the format of cells
    and taking them off an input buffer.
  \<^item> \<open>Cell_Queue\<close> (\<open>core/or/relay.c\<close>, \<open>channel.c\<close>, \<open>channeltls.c\<close>,
    \<open>core/mainloop/connection.c\<close>): the queues of circuits and the way of a cell to the connection.
    \<open>Cell_Queue_Flow\<close>: flushing keeps the order and loses nothing. \<open>Cell_Queue_Append\<close>: queueing a cell.
  \<^item> \<open>Buffers\<close> (\<open>lib/buf/buffers.c\<close>, \<open>lib/net/buffers_net.c\<close>): the byte queues of connections.
    \<open>Buffers_Exact\<close>, \<open>Buffers_Ops\<close>: whatever the chunks are, the operations do on the bytes what they say.
    \<open>Buffers_Refine\<close>: runs of operations refine runs on byte strings; file descriptors.

  \<^bold>\<open>How they interact.\<close> A data cell is packaged when the package window of its circuit
  (\<open>CC_Estimates\<close>, or the fixed window of \<open>Sendme\<close>) and its stream (\<open>Flow_Control\<close>) allow it; with conflux,
  \<open>Conflux\<close> chooses the circuit. The cell goes to the queue of the circuit (\<open>Cell_Queue\<close>), which tells the mux
  of the channel (\<open>Circuitmux\<close>) and the scheduler (\<open>Scheduler\<close>); a full queue blocks the streams behind it. When
  the channel is flushed the mux picks circuits by its policy, the cells are packed (\<open>Cells\<close>) and written to the
  connection (\<open>Buffers\<close>). Token buckets limit what connections read and write. The other end counts the cells, answers with SENDMEs, and
  the round trips drive \<open>CC_Vegas\<close>. The states are layered the same way: the records of the scheduler, the
  registry, the circuit IDs and the queues each extend the one before.

  \<^bold>\<open>Conventions.\<close> Record fields and functions have the names of the source. A C integer is a word of its width where it can
  wrap, and \<open>size_t\<close> a natural number where it cannot, with the wrap written out where the code has one. \<open>None\<close> of the option
  monad is an abort (\<open>tor_assert\<close>), undefined behaviour such as reading beyond an array or through a dangling pointer, or a loop that does not end; a
  warning that the code returns from (\<open>BUG\<close>) is a branch. Pointers to shared objects are names, and stores are functions or maps
  from names to records. Callbacks, clocks, random numbers and the answers of the operating system are arguments.

  \<^bold>\<open>Interfaces.\<close> \<open>machine\<close> (a step function and an invariant it keeps; runs) extends to \<open>metered\<close> (what a run gains bounds what it
  spends), interpreted on the counter bucket; \<open>machine\<close> is interpreted on stopping and starting to read. \<open>codec\<close> is
  interpreted on the extension fields and the conflux LINK payload. \<open>indexed_queue\<close> and \<open>heap_order\<close> are interpreted on pairs as the code's
  comparison of them, on the out-of-order queue of conflux, on the counts of the EWMA policy and, without a fixed order, on the pending channels. \<open>mux_policy\<close>
  is interpreted on the EWMA policy, and all facts on muxes rest on that.

  \<^bold>\<open>What the lemmas show.\<close> Exactness: the tables of channels, circuit IDs, muxes and queues always hold what an abstract account of the events
  says. Links: two ends and the wires between them, any interleaving of steps; order, no loss, no
  refusal between honest ends. Bounds: windows, counters and rates stay in the ranges that the comments promise, with wrap-around where it is
  possible. Branches: operations that choose or refuse are characterised on every branch, errors included. Round trips:
  formats and parameters.

  \<^bold>\<open>Loops.\<close> Loops that need an argument to end are \<open>partial_function (option)\<close>, and that they return is proved: the package loop of SENDMEs
  by the window that shrinks, the flush loop by its allowance, the cell loop by the input buffer, the loops of buffers by the bytes that are left.
  No definition uses fuel; runs are over arbitrary finite lists of steps.

  \<^bold>\<open>Not modelled.\<close> Processing of relay cells beyond their accounts, building circuits and choosing paths, the pool of conflux sets being linked,
  streams at the edge, padding: they end in the options, the node lists and floating point statistics, or in all other parts
  at once. Directory authorities, clients, caches and formats, guards, onion services, the control port, configuration: they work on documents and tables, and
  rest on cryptography. Cryptography, TLS, sockets, the event loop, files and logs are libraries and operating system. Of the parts that are
  modelled, freeing of whole modules, statistics, log lines and controller events are left out. The handlers that run when memory is short, closing a circuit
  and reading from a stream again are functions in the record \<open>outside_t\<close>, arguments of the model.
\<close>

end
